(* ===== verification/DbError.thy ===== *)
theory DbError
  imports Main
begin

text \<open>
  The error values of \<^verbatim>\<open>src/error.rs\<close> and the result type every fallible operation of the
  model returns. A Rust \<^verbatim>\<open>Result<T>\<close> is \<open>Ok\<close> or \<open>Err\<close>; a failed \<^verbatim>\<open>assert!\<close>, \<^verbatim>\<open>panic!\<close>,
  \<^verbatim>\<open>unwrap\<close> or \<^verbatim>\<open>expect\<close> is the third value \<open>Panic\<close>, so that no panic of the source is lost
  in a total function. The text carried by an error or a panic is the source's format string,
  with its placeholders left in place: what is interpolated is not modelled.
\<close>

section \<open>Errors\<close>

datatype error =
    Abort
  | InvalidData string
  | InvalidInput string
  | IO string
  | ReadOnly
  | Serialization

fun error_fmt :: "error \<Rightarrow> string" where
  "error_fmt Abort = ''operation aborted''"
| "error_fmt (InvalidData msg) = ''invalid data: '' @ msg"
| "error_fmt (InvalidInput msg) = ''invalid input: '' @ msg"
| "error_fmt (IO msg) = ''io error: '' @ msg"
| "error_fmt ReadOnly = ''read-only transaction''"
| "error_fmt Serialization = ''serialization failure, retry transaction''"

fun is_deterministic :: "error \<Rightarrow> bool" where
  "is_deterministic Abort = False"
| "is_deterministic (InvalidData _) = False"
| "is_deterministic (InvalidInput _) = True"
| "is_deterministic (IO _) = False"
| "is_deterministic ReadOnly = True"
| "is_deterministic Serialization = True"

section \<open>Results\<close>

datatype 'a result = Ok 'a | Err error | Panic string

named_theorems result_simps \<open>unfolding of the result and operation combinators\<close>

text \<open>The question mark operator: continue with the value, or return the failure.\<close>

definition rbind :: "'a result \<Rightarrow> ('a \<Rightarrow> 'b result) \<Rightarrow> 'b result" where
  [result_simps]: "rbind m f = (case m of Ok x \<Rightarrow> f x | Err e \<Rightarrow> Err e | Panic p \<Rightarrow> Panic p)"

definition rassert :: "bool \<Rightarrow> string \<Rightarrow> unit result" where
  [result_simps]: "rassert b msg = (if b then Ok () else Panic msg)"

fun map_list_result :: "('a \<Rightarrow> 'b result) \<Rightarrow> 'a list \<Rightarrow> 'b list result" where
  "map_list_result f [] = Ok []"
| "map_list_result f (x # xs) = rbind (f x) (\<lambda>y. rbind (map_list_result f xs) (\<lambda>ys. Ok (y # ys)))"

fun is_ok :: "'a result \<Rightarrow> bool" where
  "is_ok (Ok _) = True"
| "is_ok _ = False"

fun unwrap :: "'a result \<Rightarrow> 'a" where
  "unwrap (Ok x) = x"

lemma rbind_simps [simp]:
  "rbind (Ok x) f = f x" "rbind (Err e) f = Err e" "rbind (Panic p) f = Panic p"
  by (simp_all add: rbind_def)

lemma rbind_eq_Ok: "rbind m f = Ok y \<longleftrightarrow> (\<exists>x. m = Ok x \<and> f x = Ok y)"
  by (cases m) auto

lemma rbind_assoc: "rbind (rbind m f) g = rbind m (\<lambda>x. rbind (f x) g)"
  by (cases m) auto

lemma rassert_Ok [simp]: "rassert b msg = Ok u \<longleftrightarrow> b"
  by (simp add: rassert_def)

lemma rassert_True [simp]: "rassert True msg = Ok ()"
  by (simp add: rassert_def)

lemma map_list_result_Ok:
  "(\<And>x. x \<in> set xs \<Longrightarrow> f x = Ok (g x)) \<Longrightarrow> map_list_result f xs = Ok (map g xs)"
  by (induction xs) auto

lemma map_list_result_map: "map_list_result f (map g xs) = map_list_result (\<lambda>x. f (g x)) xs"
  by (induction xs) auto

section \<open>Operations on a mutable state\<close>

text \<open>
  A method that takes \<^verbatim>\<open>&mut self\<close> and may fail is a function from the state to a result and
  the state it leaves behind: an error does not undo the writes made before it.
\<close>

type_synonym ('s, 'a) op = "'s \<Rightarrow> 'a result \<times> 's"

definition sreturn :: "'a \<Rightarrow> ('s, 'a) op" where
  [result_simps]: "sreturn x s = (Ok x, s)"

definition slift :: "'a result \<Rightarrow> ('s, 'a) op" where
  [result_simps]: "slift r s = (r, s)"

definition sread :: "('s \<Rightarrow> 'a result) \<Rightarrow> ('s, 'a) op" where
  [result_simps]: "sread f s = (f s, s)"

definition sbind :: "('s, 'a) op \<Rightarrow> ('a \<Rightarrow> ('s, 'b) op) \<Rightarrow> ('s, 'b) op" where
  [result_simps]: "sbind m f s = (case m s of
      (Ok x, s') \<Rightarrow> f x s'
    | (Err e, s') \<Rightarrow> (Err e, s')
    | (Panic p, s') \<Rightarrow> (Panic p, s'))"

fun sfor :: "'a list \<Rightarrow> ('a \<Rightarrow> ('s, unit) op) \<Rightarrow> ('s, unit) op" where
  "sfor [] body = sreturn ()"
| "sfor (x # xs) body = sbind (body x) (\<lambda>_. sfor xs body)"

text \<open>A loop that threads a value, and a call whose error is kept as a value; a panic is not caught.\<close>

definition sresult :: "('s, 'a) op \<Rightarrow> ('s, 'a result) op" where
  "sresult m s = (case m s of
      (Ok x, s') \<Rightarrow> (Ok (Ok x), s')
    | (Err e, s') \<Rightarrow> (Ok (Err e), s')
    | (Panic p, s') \<Rightarrow> (Panic p, s'))"

fun sfold :: "'a list \<Rightarrow> ('a \<Rightarrow> 'r \<Rightarrow> ('s, 'r) op) \<Rightarrow> 'r \<Rightarrow> ('s, 'r) op" where
  "sfold [] body r = sreturn r"
| "sfold (x # xs) body r = sbind (body x r) (sfold xs body)"

fun result_map :: "('a \<Rightarrow> 'b) \<Rightarrow> 'a result \<Rightarrow> 'b result" where
  "result_map f (Ok x) = Ok (f x)"
| "result_map f (Err e) = Err e"
| "result_map f (Panic p) = Panic p"

lemma sbind_Ok: "m s = (Ok x, s') \<Longrightarrow> sbind m f s = f x s'"
  by (simp add: sbind_def)

lemma sbind_eq_Ok:
  "sbind m f s = (Ok y, t) \<longleftrightarrow> (\<exists>x s'. m s = (Ok x, s') \<and> f x s' = (Ok y, t))"
  by (auto simp: sbind_def split: prod.splits result.splits)

lemma sreturn_eq [simp]: "sreturn x s = (Ok x, s)"
  by (simp add: sreturn_def)

lemma slift_eq [simp]: "slift r s = (r, s)"
  by (simp add: slift_def)

lemma sread_eq [simp]: "sread f s = (f s, s)"
  by (simp add: sread_def)

lemma sbind_eqs [simp]:
  "sbind (sreturn x) f = f x"
  "sbind (Pair (Ok x)) f = f x"
  "sbind (slift (Ok x)) f = f x"
  "sbind (slift (Err e)) f = slift (Err e)"
  "sbind (slift (Panic p)) f = slift (Panic p)"
  by (auto simp: fun_eq_iff sbind_def sreturn_def slift_def)

lemma sbind_assoc: "sbind (sbind m f) g = sbind m (\<lambda>x. sbind (f x) g)"
  by (auto simp: fun_eq_iff sbind_def split: prod.splits result.splits)

lemma sfor_append: "sfor (xs @ ys) body = sbind (sfor xs body) (\<lambda>_. sfor ys body)"
  by (induction xs) (simp_all add: sbind_assoc)

text \<open>A loop whose body succeeds from every state in an invariant succeeds and folds the body.\<close>

lemma sfor_invariant:
  assumes "\<And>x s. x \<in> set xs \<Longrightarrow> I s \<Longrightarrow> body x s = (Ok (), step x s) \<and> I (step x s)"
    and "I s"
  shows "sfor xs body s = (Ok (), fold step xs s) \<and> I (fold step xs s)"
  using assms by (induction xs arbitrary: s) (simp_all add: sbind_def)

end
