(* ===== verification/Prelude.thy ===== *)
theory Prelude
  imports DbError "HOL-Library.Word" "HOL-Library.List_Lexorder"
begin

unbundle bit_operations_syntax

text \<open>
  What the components share: bytes and machine integers, the big-endian encodings of the
  standard library (\<^verbatim>\<open>to_be_bytes\<close>, \<^verbatim>\<open>from_be_bytes\<close>), the lexicographic order on byte strings
  (Rust's \<^verbatim>\<open>Ord\<close> for \<^verbatim>\<open>Vec<u8>\<close>, here the \<open>linorder\<close> instance of \<open>HOL-Library.List_Lexorder\<close>),
  and \<^verbatim>\<open>BTreeMap\<close> as a strictly sorted association list with its range queries.
  Machine integers are words and wrap around, as they do in the release profile the cluster
  scripts build.
\<close>

section \<open>Machine integers\<close>

type_synonym byte = "8 word"
type_synonym bytes = "8 word list"
type_synonym u32 = "32 word"
type_synonym u64 = "64 word"

named_theorems byte_order \<open>facts on the lexicographic order of encoded byte strings\<close>
named_theorems btree_simps \<open>lookup and shape laws of the sorted association lists\<close>

definition u64_max :: u64 where
  "u64_max = - 1"

lemma u64_le_max [simp]: "(x :: u64) \<le> u64_max"
  by (simp add: u64_max_def)

lemma unat_plus_one: "(x :: 'a::len word) < - 1 \<Longrightarrow> unat (x + 1) = Suc (unat x)"
  by (metis add.commute add_neg_numeral_special(8) add_right_cancel unatSuc
      word_order.not_eq_extremum)

lemma unat_u64: "unat (x :: u64) < 2 ^ 64"
  using unsigned_less [of x] by simp

lemma unat_u64_of_nat: "n < 2 ^ 64 \<Longrightarrow> unat (word_of_nat n :: u64) = n"
  by (simp add: unat_of_nat)

lemma u64_of_nat_less_iff:
  "m < 2 ^ 64 \<Longrightarrow> n < 2 ^ 64 \<Longrightarrow> (word_of_nat m :: u64) < word_of_nat n \<longleftrightarrow> m < n"
  by (simp only: word_less_nat_alt unat_u64_of_nat)

lemma less_plus_one:
  assumes "(x :: 'a::len word) \<noteq> - 1"
  shows "v < x + 1 \<longleftrightarrow> v \<le> x"
proof -
  have "x < - 1" using assms by (simp add: word_order.not_eq_extremum)
  then show ?thesis by (simp add: word_less_nat_alt word_le_nat_alt unat_plus_one less_Suc_eq_le)
qed

lemma unat_byte_less [simp]: "unat (b :: byte) < 256"
  by (rule order_less_le_trans [OF unsigned_less]) simp

lemma unat_u64_less [simp]: "unat (w :: u64) < 18446744073709551616"
  by (rule order_less_le_trans [OF unsigned_less]) simp

lemma byte_le_255 [simp]: "(b :: byte) \<le> 255"
  using unat_byte_less [of b] by (simp add: word_le_nat_alt del: unat_byte_less)

lemma byte_not_255_less [simp]: "\<not> 255 < (b :: byte)"
  by (simp add: not_less)

lemma byte_less_succ: "b = 255 \<or> b < b + (1 :: byte)"
  using unat_plus_one [of b] word_order.not_eq_extremum [of b] by (auto simp: word_less_nat_alt)

lemma byte_sign_bit: "bit (b :: byte) 7 \<longleftrightarrow> 128 \<le> unat b"
proof -
  have "bit b 7 \<longleftrightarrow> bit (unat b) 7"
    by (simp add: bit_unsigned_iff)
  then have "bit b 7 \<longleftrightarrow> odd (unat b div 2 ^ 7)"
    by (simp only: bit_iff_odd)
  moreover have "unat b div 2 ^ 7 < 2"
    using unat_byte_less [of b] by (simp add: less_mult_imp_div_less)
  ultimately show ?thesis
    by (cases "128 \<le> unat b") (auto simp: div_greater_zero_iff less_2_cases_iff)
qed

lemma byte_flip: "b XOR 128 = (if bit b 7 then b - 128 else b + (128 :: byte))"
proof -
  have "flip_bit 7 b = b XOR 128"
    by (simp add: flip_bit_eq_xor)
  moreover have "flip_bit 7 b = (if bit b 7 then b - 128 else b + 128)"
    by (simp add: flip_bit_eq_if set_bit_eq unset_bit_eq)
  ultimately show ?thesis by simp
qed

lemma unat_byte_flip: "unat (b XOR 128 :: byte) = (if unat b < 128 then unat b + 128 else unat b - 128)"
  by (auto simp: byte_flip byte_sign_bit unat_word_ariths unat_sub word_le_nat_alt not_le)

lemma unat_byte_not: "unat (NOT b :: byte) = 255 - unat b"
proof -
  have "NOT b = 255 - b"
    by (simp add: not_eq_complement)
  then show ?thesis
    using unat_sub [of b 255] by simp
qed

lemma byte_top_bit: "drop_bit 7 (b :: byte) = (if unat b < 128 then 0 else 1)"
proof -
  have "unat (drop_bit 7 b) = unat b div 128"
    by (simp add: drop_bit_eq_div unat_div)
  moreover have "unat b div 128 = (if unat b < 128 then 0 else 1)"
    using unat_byte_less [of b] by (auto simp: div_if not_less simp del: unat_byte_less)
  ultimately show ?thesis
    by (auto intro!: unat_eq_zero [THEN iffD1] word_unat_eq_iff [THEN iffD2])
qed

lemma u64_sign_bit: "bit (v :: u64) 63 \<longleftrightarrow> 2 ^ 63 \<le> unat v"
proof -
  have "bit v 63 \<longleftrightarrow> bit (unat v) 63"
    by (simp add: bit_unsigned_iff)
  then have "bit v 63 \<longleftrightarrow> odd (unat v div 2 ^ 63)"
    by (simp only: bit_iff_odd)
  moreover have "unat v div 2 ^ 63 < 2"
    using unat_u64_less [of v] by (simp add: less_mult_imp_div_less)
  ultimately show ?thesis
    by (cases "2 ^ 63 \<le> unat v") (auto simp: div_greater_zero_iff less_2_cases_iff)
qed

section \<open>Big-endian byte strings\<close>

text \<open>
  \<open>be_bytes n x\<close> is the big-endian representation of \<open>x\<close> in \<open>n\<close> bytes (\<^verbatim>\<open>to_be_bytes\<close> of an
  \<open>8 n\<close>-bit integer whose unsigned value is \<open>x\<close>); \<open>be_nat\<close> reads one back.
\<close>

primrec be_bytes :: "nat \<Rightarrow> nat \<Rightarrow> bytes" where
  "be_bytes 0 x = []"
| "be_bytes (Suc n) x = word_of_nat (x div 256 ^ n) # be_bytes n (x mod 256 ^ n)"

definition be_nat :: "bytes \<Rightarrow> nat" where
  "be_nat bs = foldl (\<lambda>a b. a * 256 + unat b) 0 bs"

lemma length_be_bytes [simp]: "length (be_bytes n x) = n"
  by (induction n arbitrary: x) auto

lemma foldl_base: "foldl (\<lambda>a b. a * 256 + unat (b :: byte)) c bs = c * 256 ^ length bs + be_nat bs"
proof (induction bs arbitrary: c)
  case Nil
  show ?case by (simp add: be_nat_def)
next
  case (Cons b bs)
  show ?case
    using Cons [of "c * 256 + unat b"] Cons [of "unat b"]
    by (simp add: be_nat_def algebra_simps)
qed

lemma be_nat_Nil [simp]: "be_nat [] = 0"
  by (simp add: be_nat_def)

lemma be_nat_Cons [simp]: "be_nat (b # bs) = unat b * 256 ^ length bs + be_nat bs"
  using foldl_base [of "unat b" bs] by (simp add: be_nat_def)

lemma be_nat_less: "be_nat bs < 256 ^ length bs"
proof (induction bs)
  case (Cons b bs)
  have "unat b * 256 ^ length bs + be_nat bs < (unat b + 1) * 256 ^ length bs"
    using Cons by simp
  also have "\<dots> \<le> 256 * 256 ^ length bs"
    using unat_byte_less [of b] by (intro mult_le_mono1) linarith
  finally show ?case by simp
qed simp

lemma be_nat_be_bytes [simp]: "x < 256 ^ n \<Longrightarrow> be_nat (be_bytes n x) = x"
proof (induction n arbitrary: x)
  case (Suc n)
  then have "x div 256 ^ n < 256"
    by (simp add: less_mult_imp_div_less)
  then have "unat (word_of_nat (x div 256 ^ n) :: byte) = x div 256 ^ n"
    by (simp add: unat_of_nat)
  with Suc show ?case by (simp add: div_mult_mod_eq)
qed simp

lemma be_bytes_be_nat [simp]: "be_bytes (length bs) (be_nat bs) = bs"
  by (induction bs) (simp_all add: be_nat_less div_mult_self3)

lemma be_bytes_inj: "x < 256 ^ n \<Longrightarrow> y < 256 ^ n \<Longrightarrow> be_bytes n x = be_bytes n y \<longleftrightarrow> x = y"
  by (metis be_nat_be_bytes)

lemma be_nat_mono: "length as = length bs \<Longrightarrow> as < bs \<longleftrightarrow> be_nat as < be_nat bs"
proof (induction as bs rule: list_induct2)
  case (Cons a as b bs)
  let ?B = "256 ^ length bs :: nat"
  have la: "be_nat as < ?B" and lb: "be_nat bs < ?B"
    using be_nat_less [of as] be_nat_less [of bs] Cons.hyps by simp_all
  have step: "x * ?B + u < y * ?B + v" if "x < y" "u < ?B" for x y u v
  proof -
    have "x * ?B + u < (x + 1) * ?B" using that by simp
    also have "\<dots> \<le> y * ?B" using that by (intro mult_le_mono1) simp
    finally show ?thesis by simp
  qed
  consider "a < b" | "a = b" | "b < a" by fastforce
  then show ?case
  proof cases
    case 1
    then show ?thesis
      using step [OF _ la, of "unat a" "unat b"] Cons.hyps by (simp add: word_less_nat_alt)
  next
    case 2
    with Cons show ?thesis by simp
  next
    case 3
    then have "\<not> be_nat (a # as) < be_nat (b # bs)"
      using step [OF _ lb, of "unat b" "unat a"] Cons.hyps
      by (simp add: word_less_nat_alt not_less less_imp_le)
    with 3 show ?thesis by (metis Cons_less_Cons less_asym')
  qed
qed simp

lemma be_bytes_less [byte_order]:
  "x < 256 ^ n \<Longrightarrow> y < 256 ^ n \<Longrightarrow> be_bytes n x < be_bytes n y \<longleftrightarrow> x < y"
  by (simp add: be_nat_mono)

definition u64_to_be :: "u64 \<Rightarrow> bytes" where
  "u64_to_be w = be_bytes 8 (unat w)"

definition u64_from_be :: "bytes \<Rightarrow> u64" where
  "u64_from_be bs = word_of_nat (be_nat bs)"

lemma length_u64_to_be [simp]: "length (u64_to_be w) = 8"
  by (simp add: u64_to_be_def)

lemma u64_from_to_be [simp]: "u64_from_be (u64_to_be w) = w"
  by (simp add: u64_to_be_def u64_from_be_def)

lemma u64_to_from_be [simp]: "length bs = 8 \<Longrightarrow> u64_to_be (u64_from_be bs) = bs"
  using be_nat_less [of bs] be_bytes_be_nat [of bs]
  by (simp add: u64_to_be_def u64_from_be_def unat_of_nat)

lemma u64_to_be_less [byte_order]: "u64_to_be v < u64_to_be w \<longleftrightarrow> v < w"
  by (simp add: u64_to_be_def be_bytes_less word_less_nat_alt del: be_bytes.simps)

section \<open>Byte strings that differ at a byte\<close>

text \<open>
  \<open>diverges a b\<close>: the strings share a prefix and then \<open>a\<close> has the smaller byte. This is the
  part of the lexicographic order that survives appending anything to either string, which is
  what makes an encoding compositional.
\<close>

fun diverges :: "bytes \<Rightarrow> bytes \<Rightarrow> bool" where
  "diverges (a # as) (b # bs) = (a < b \<or> a = b \<and> diverges as bs)"
| "diverges _ _ = False"

lemma diverges_less [byte_order]: "diverges a b \<Longrightarrow> a < b"
  by (induction a b rule: diverges.induct) auto

lemma diverges_append [byte_order]: "diverges a b \<Longrightarrow> diverges (a @ r) (b @ r')"
  by (induction a b rule: diverges.induct) auto

lemma diverges_prefix [simp]: "diverges (p @ a) (p @ b) \<longleftrightarrow> diverges a b"
  by (induction p) auto

lemma diverges_same_length: "length a = length b \<Longrightarrow> diverges a b \<longleftrightarrow> a < b"
  by (induction a b rule: list_induct2) auto

lemma diverges_irrefl [simp]: "\<not> diverges a a"
  using diverges_less by blast

lemma less_append_cancel [simp]: "(p @ a :: bytes) < p @ b \<longleftrightarrow> a < b"
  by (induction p) auto

lemma le_append_cancel [simp]: "(p @ a :: bytes) \<le> p @ b \<longleftrightarrow> a \<le> b"
  by (induction p) auto

lemma prefix_le [simp]: "(p :: bytes) \<le> p @ a"
  by (induction p) auto

section \<open>Bounds and ranges\<close>

datatype 'a bound = Included 'a | Excluded 'a | Unbounded

fun above :: "'a::linorder bound \<Rightarrow> 'a \<Rightarrow> bool" where
  "above (Included l) x = (l \<le> x)"
| "above (Excluded l) x = (l < x)"
| "above Unbounded x = True"

fun below :: "'a::linorder bound \<Rightarrow> 'a \<Rightarrow> bool" where
  "below (Included h) x = (x \<le> h)"
| "below (Excluded h) x = (x < h)"
| "below Unbounded x = True"

definition in_range :: "'a::linorder bound \<times> 'a bound \<Rightarrow> 'a \<Rightarrow> bool" where
  "in_range r x = (above (fst r) x \<and> below (snd r) x)"

text \<open>The ranges \<^verbatim>\<open>BTreeMap::range\<close> accepts: it panics on the others.\<close>

fun range_valid :: "'a::linorder bound \<times> 'a bound \<Rightarrow> bool" where
  "range_valid (Excluded l, Excluded h) = (l < h)"
| "range_valid (Included l, Included h) = (l \<le> h)"
| "range_valid (Included l, Excluded h) = (l \<le> h)"
| "range_valid (Excluded l, Included h) = (l \<le> h)"
| "range_valid _ = True"

section \<open>Ordered maps\<close>

type_synonym ('k, 'v) btree = "('k \<times> 'v) list"

definition bt_wf :: "('k::linorder, 'v) btree \<Rightarrow> bool" where
  "bt_wf m = sorted_wrt (<) (map fst m)"

fun bt_insert :: "'k::linorder \<Rightarrow> 'v \<Rightarrow> ('k, 'v) btree \<Rightarrow> ('k, 'v) btree" where
  "bt_insert k v [] = [(k, v)]"
| "bt_insert k v (e # m) =
     (if k < fst e then (k, v) # e # m
      else if k = fst e then (k, v) # m
      else e # bt_insert k v m)"

definition bt_remove :: "'k \<Rightarrow> ('k, 'v) btree \<Rightarrow> ('k, 'v) btree" where
  "bt_remove k m = filter (\<lambda>e. fst e \<noteq> k) m"

definition bt_range :: "'k::linorder bound \<times> 'k bound \<Rightarrow> ('k, 'v) btree \<Rightarrow> ('k, 'v) btree result" where
  "bt_range r m =
     (if range_valid r then Ok (filter (\<lambda>e. in_range r (fst e)) m)
      else Panic ''range start is greater than range end in BTreeMap'')"

lemma bt_wf_Nil [simp]: "bt_wf []"
  by (simp add: bt_wf_def)

lemma bt_wf_Cons [simp]: "bt_wf (e # m) \<longleftrightarrow> (\<forall>k \<in> fst ` set m. fst e < k) \<and> bt_wf m"
  by (auto simp: bt_wf_def)

lemma bt_wf_distinct: "bt_wf m \<Longrightarrow> distinct (map fst m)"
  by (simp add: bt_wf_def strict_sorted_iff)

lemma bt_wf_filter [simp]: "bt_wf m \<Longrightarrow> bt_wf (filter P m)"
  by (induction m) auto

lemma keys_bt_insert [btree_simps]: "fst ` set (bt_insert k v m) = insert k (fst ` set m)"
  by (induction m) auto

lemma bt_wf_insert [simp]: "bt_wf m \<Longrightarrow> bt_wf (bt_insert k v m)"
  by (induction m) (auto simp: keys_bt_insert)

lemma bt_wf_remove [simp]: "bt_wf m \<Longrightarrow> bt_wf (bt_remove k m)"
  by (simp add: bt_remove_def)

lemma map_of_bt_insert [btree_simps]: "map_of (bt_insert k v m) = (map_of m)(k \<mapsto> v)"
  by (induction m) (auto simp: fun_eq_iff)

lemma map_of_bt_remove [btree_simps]: "map_of (bt_remove k m) = (map_of m)(k := None)"
  by (induction m) (auto simp: bt_remove_def fun_eq_iff)

lemma map_of_filter_key: "map_of (filter (\<lambda>e. P (fst e)) m) k = (if P k then map_of m k else None)"
  by (induction m) auto

lemma set_bt_wf: "bt_wf m \<Longrightarrow> (k, v) \<in> set m \<longleftrightarrow> map_of m k = Some v"
  by (simp add: bt_wf_distinct)

lemma bt_wf_by_keys: "bt_wf m \<Longrightarrow> map (\<lambda>k. (k, the (map_of m k))) (map fst m) = m"
proof -
  assume wf: "bt_wf m"
  have "(fst e, the (map_of m (fst e))) = e" if "e \<in> set m" for e
    using that set_bt_wf [OF wf, of "fst e" "snd e"] by simp
  then show ?thesis by (simp add: map_idI)
qed

text \<open>A sorted association list is determined by the map it represents.\<close>

lemma bt_wf_ext:
  assumes "bt_wf m" "bt_wf m'" "map_of m = map_of m'"
  shows "m = m'"
proof -
  have "set m = set m'"
    using assms by (auto simp: set_bt_wf)
  then have "map fst m = map fst m'"
    using assms by (intro strict_sorted_equal) (auto simp: bt_wf_def)
  then show ?thesis
    using bt_wf_by_keys [OF assms(1)] bt_wf_by_keys [OF assms(2)] assms(3) by simp
qed

end
