(* ===== verification/Keycode.thy ===== *)
theory Keycode
  imports Prelude
begin

unbundle bit_operations_syntax

text \<open>
  \<^verbatim>\<open>src/encoding/keycode.rs\<close>: the order-preserving key encoding. The serde data model the
  serializer is driven with is the datatype \<open>kval\<close>; the concrete type a key is decoded into is
  a \<open>kty\<close>. A 64-bit float is its bit pattern, a string its UTF-8 bytes. Every serde type the
  source answers with \<^verbatim>\<open>unimplemented!()\<close> is the constructor \<open>KUnimplemented\<close> or
  \<open>TUnimplemented\<close>, which panics. The theory proves that decoding inverts encoding, that the
  encoding is injective and preserves the order of the values, and that a prefix range holds
  exactly the keys with that prefix.
\<close>

section \<open>The serde data model\<close>

datatype kval =
    KBool bool
  | KI64 u64
  | KU64 u64
  | KF64 u64
  | KStr bytes
  | KBytes bytes
  | KUnitVar nat
  | KNewVar nat kval
  | KSeq "kval list"
  | KTuple "kval list"
  | KTupVar nat "kval list"
  | KUnimplemented

datatype kty =
    TBool
  | TI64
  | TU64
  | TF64
  | TStr
  | TBytes
  | TSeq kty
  | TTuple "kty list"
  | TEnum "kvariant list"
  | TUnimplemented
and kvariant =
    VUnit
  | VNew kty
  | VTup "kty list"

section \<open>Serializer\<close>

definition flip_sign :: "bytes \<Rightarrow> bytes" where
  "flip_sign bs = (case bs of [] \<Rightarrow> [] | b # r \<Rightarrow> (b XOR 128) # r)"

definition serialize_i64 :: "u64 \<Rightarrow> bytes" where
  "serialize_i64 v = flip_sign (u64_to_be v)"

definition f64_is_sign_negative :: "u64 \<Rightarrow> bool" where
  "f64_is_sign_negative v = bit v 63"

definition serialize_f64 :: "u64 \<Rightarrow> bytes" where
  "serialize_f64 v =
     (let bs = u64_to_be v
      in if f64_is_sign_negative v then map NOT bs else flip_sign bs)"

definition escape_byte :: "byte \<Rightarrow> bytes" where
  "escape_byte b = (if b = 0 then [0, 255] else [b])"

definition serialize_bytes :: "bytes \<Rightarrow> bytes" where
  "serialize_bytes v = concat (map escape_byte v) @ [0, 0]"

definition serialize_unit_variant :: "nat \<Rightarrow> bytes result" where
  "serialize_unit_variant index =
     (if index < 256 then Ok [word_of_nat index]
      else Err (InvalidData ''out of range integral type conversion attempted''))"

fun concat_results :: "bytes result list \<Rightarrow> bytes result" where
  "concat_results [] = Ok []"
| "concat_results (r # rs) = rbind r (\<lambda>b. rbind (concat_results rs) (\<lambda>bs. Ok (b @ bs)))"

primrec ser :: "kval \<Rightarrow> bytes result" where
  "ser (KBool v) = Ok [if v then 1 else 0]"
| "ser (KI64 v) = Ok (serialize_i64 v)"
| "ser (KU64 v) = Ok (u64_to_be v)"
| "ser (KF64 v) = Ok (serialize_f64 v)"
| "ser (KStr v) = Ok (serialize_bytes v)"
| "ser (KBytes v) = Ok (serialize_bytes v)"
| "ser (KUnitVar index) = serialize_unit_variant index"
| "ser (KNewVar index v) =
     rbind (serialize_unit_variant index) (\<lambda>b. rbind (ser v) (\<lambda>c. Ok (b @ c)))"
| "ser (KSeq vs) = concat_results (map ser vs)"
| "ser (KTuple vs) = concat_results (map ser vs)"
| "ser (KTupVar index vs) =
     rbind (serialize_unit_variant index) (\<lambda>b. rbind (concat_results (map ser vs)) (\<lambda>c. Ok (b @ c)))"
| "ser KUnimplemented = Panic ''not implemented''"

definition serialize :: "kval \<Rightarrow> bytes result" where
  "serialize key =
     (case ser key of
        Ok bs \<Rightarrow> Ok bs
      | Err _ \<Rightarrow> Panic ''key must be serializable''
      | Panic p \<Rightarrow> Panic p)"

section \<open>Deserializer\<close>

definition take_bytes :: "nat \<Rightarrow> bytes \<Rightarrow> (bytes \<times> bytes) result" where
  "take_bytes len input =
     (if length input < len
      then Err (InvalidData ''insufficient bytes, expected {len} bytes for {:x?}'')
      else Ok (take len input, drop len input))"

fun decode_next_bytes :: "bytes \<Rightarrow> (bytes \<times> bytes) result" where
  "decode_next_bytes [] = Err (InvalidData ''unexpected end of input'')"
| "decode_next_bytes (b # bs) =
     (if b = 0 then
        (case bs of
           c # bs' \<Rightarrow>
             if c = 0 then Ok ([], bs')
             else if c = 255 then rbind (decode_next_bytes bs') (\<lambda>(d, r). Ok (0 # d, r))
             else Err (InvalidData ''invalid escape sequence'')
         | [] \<Rightarrow> Err (InvalidData ''invalid escape sequence''))
      else rbind (decode_next_bytes bs) (\<lambda>(d, r). Ok (b # d, r)))"

definition utf8_cont :: "byte \<Rightarrow> bool" where
  "utf8_cont b = (0x80 \<le> b \<and> b \<le> 0xBF)"

text \<open>The well-formed byte sequences that \<^verbatim>\<open>String::from_utf8\<close> accepts.\<close>

fun utf8_valid :: "bytes \<Rightarrow> bool" where
  "utf8_valid [] = True"
| "utf8_valid (a # r) =
     (if a < 0x80 then utf8_valid r
      else if 0xC2 \<le> a \<and> a \<le> 0xDF then
        (case r of b # r' \<Rightarrow> utf8_cont b \<and> utf8_valid r' | _ \<Rightarrow> False)
      else if 0xE0 \<le> a \<and> a \<le> 0xEF then
        (case r of b # c # r' \<Rightarrow>
            utf8_cont b \<and> utf8_cont c \<and> (a = 0xE0 \<longrightarrow> 0xA0 \<le> b) \<and> (a = 0xED \<longrightarrow> b \<le> 0x9F)
            \<and> utf8_valid r'
         | _ \<Rightarrow> False)
      else if 0xF0 \<le> a \<and> a \<le> 0xF4 then
        (case r of b # c # d # r' \<Rightarrow>
            utf8_cont b \<and> utf8_cont c \<and> utf8_cont d \<and> (a = 0xF0 \<longrightarrow> 0x90 \<le> b)
            \<and> (a = 0xF4 \<longrightarrow> b \<le> 0x8F) \<and> utf8_valid r'
         | _ \<Rightarrow> False)
      else False)"

definition deserialize_bool :: "bytes \<Rightarrow> (kval \<times> bytes) result" where
  "deserialize_bool input =
     rbind (take_bytes 1 input) (\<lambda>(bs, r).
       case bs of
         [] \<Rightarrow> Panic ''index out of bounds''
       | b # _ \<Rightarrow>
           if b = 0 then Ok (KBool False, r)
           else if b = 1 then Ok (KBool True, r)
           else Err (InvalidData ''invalid boolean value {b}''))"

definition deserialize_i64 :: "bytes \<Rightarrow> (kval \<times> bytes) result" where
  "deserialize_i64 input =
     rbind (take_bytes 8 input) (\<lambda>(bs, r). Ok (KI64 (u64_from_be (flip_sign bs)), r))"

definition deserialize_u64 :: "bytes \<Rightarrow> (kval \<times> bytes) result" where
  "deserialize_u64 input =
     rbind (take_bytes 8 input) (\<lambda>(bs, r). Ok (KU64 (u64_from_be bs), r))"

definition deserialize_f64 :: "bytes \<Rightarrow> (kval \<times> bytes) result" where
  "deserialize_f64 input =
     rbind (take_bytes 8 input) (\<lambda>(bs, r).
       case bs of
         [] \<Rightarrow> Panic ''index out of bounds''
       | b # _ \<Rightarrow>
           if drop_bit 7 b = 0 then Ok (KF64 (u64_from_be (map NOT bs)), r)
           else if drop_bit 7 b = 1 then Ok (KF64 (u64_from_be (flip_sign bs)), r)
           else Panic ''bits can only be 0 or 1'')"

definition deserialize_str :: "bytes \<Rightarrow> (kval \<times> bytes) result" where
  "deserialize_str input =
     rbind (decode_next_bytes input) (\<lambda>(d, r).
       if utf8_valid d then Ok (KStr d, r) else Err (InvalidData ''invalid utf-8 sequence''))"

definition deserialize_bytes :: "bytes \<Rightarrow> (kval \<times> bytes) result" where
  "deserialize_bytes input = rbind (decode_next_bytes input) (\<lambda>(d, r). Ok (KBytes d, r))"

text \<open>
  \<open>visit_fields\<close> is a derived visitor of fixed arity: it pulls one element per field through
  \<^verbatim>\<open>SeqAccess::next_element_seed\<close>, which yields \<^verbatim>\<open>None\<close> on empty input, and rejects a short
  sequence. \<open>visit_seq\<close> is the visitor of a \<^verbatim>\<open>Vec\<close>: it pulls elements until the input is empty;
  its first argument bounds the number of elements by the length of the input, and an element
  that consumes nothing (the loop that never ends) is the value \<open>Panic\<close>.
\<close>

fun visit_fields :: "(bytes \<Rightarrow> (kval \<times> bytes) result) list \<Rightarrow> bytes \<Rightarrow> (kval list \<times> bytes) result" where
  "visit_fields [] input = Ok ([], input)"
| "visit_fields (d # ds) input =
     (if input = [] then Err (InvalidData ''invalid length {}, expected {}'')
      else rbind (d input) (\<lambda>(v, r). rbind (visit_fields ds r) (\<lambda>(vs, r'). Ok (v # vs, r'))))"

fun visit_seq :: "nat \<Rightarrow> (bytes \<Rightarrow> (kval \<times> bytes) result) \<Rightarrow> bytes \<Rightarrow> (kval list \<times> bytes) result" where
  "visit_seq n d input =
     (if input = [] then Ok ([], [])
      else case n of
          0 \<Rightarrow> Panic ''the sequence does not end''
        | Suc m \<Rightarrow> rbind (d input) (\<lambda>(v, r). rbind (visit_seq m d r) (\<lambda>(vs, r'). Ok (v # vs, r'))))"

definition variant_seed ::
  "(nat \<Rightarrow> bytes \<Rightarrow> (kval \<times> bytes) result) list \<Rightarrow> bytes \<Rightarrow> (kval \<times> bytes) result" where
  "variant_seed variants input =
     rbind (take_bytes 1 input) (\<lambda>(bs, r).
       case bs of
         [] \<Rightarrow> Panic ''index out of bounds''
       | b # _ \<Rightarrow>
           if unat b < length variants then (variants ! unat b) (unat b) r
           else Err (InvalidData ''invalid value: integer, expected variant index 0 <= i < n''))"

primrec de :: "kty \<Rightarrow> bytes \<Rightarrow> (kval \<times> bytes) result"
  and de_variant :: "kvariant \<Rightarrow> nat \<Rightarrow> bytes \<Rightarrow> (kval \<times> bytes) result" where
  "de TBool = deserialize_bool"
| "de TI64 = deserialize_i64"
| "de TU64 = deserialize_u64"
| "de TF64 = deserialize_f64"
| "de TStr = deserialize_str"
| "de TBytes = deserialize_bytes"
| "de (TSeq t) = (\<lambda>input.
     rbind (visit_seq (length input) (de t) input) (\<lambda>(vs, r). Ok (KSeq vs, r)))"
| "de (TTuple ts) = (\<lambda>input.
     rbind (visit_fields (map de ts) input) (\<lambda>(vs, r). Ok (KTuple vs, r)))"
| "de (TEnum variants) = variant_seed (map de_variant variants)"
| "de TUnimplemented = (\<lambda>input. Panic ''not implemented'')"
| "de_variant VUnit = (\<lambda>index input. Ok (KUnitVar index, input))"
| "de_variant (VNew t) = (\<lambda>index input. rbind (de t input) (\<lambda>(v, r). Ok (KNewVar index v, r)))"
| "de_variant (VTup ts) = (\<lambda>index input.
     rbind (visit_fields (map de ts) input) (\<lambda>(vs, r). Ok (KTupVar index vs, r)))"

definition deserialize :: "kty \<Rightarrow> bytes \<Rightarrow> kval result" where
  "deserialize t input =
     rbind (de t input) (\<lambda>(v, r).
       if r \<noteq> []
       then Err (InvalidData ''unexpected trailing bytes {:x?} at end of key {input:x?}'')
       else Ok v)"

section \<open>Prefix ranges\<close>

text \<open>\<open>trim_ff\<close> drops the trailing \<^verbatim>\<open>0xff\<close> bytes, so its last byte is the one
  \<^verbatim>\<open>rposition\<close> finds.\<close>

definition trim_ff :: "bytes \<Rightarrow> bytes" where
  "trim_ff p = rev (dropWhile (\<lambda>b. b = 255) (rev p))"

definition prefix_range :: "bytes \<Rightarrow> bytes bound \<times> bytes bound" where
  "prefix_range p =
     (Included p,
      (let t = trim_ff p
       in if t = [] then Unbounded else Excluded (butlast t @ [last t + 1])))"

section \<open>Well-typed values\<close>

fun all2 :: "('a \<Rightarrow> bool) list \<Rightarrow> 'a list \<Rightarrow> bool" where
  "all2 [] [] = True"
| "all2 (p # ps) (x # xs) = (p x \<and> all2 ps xs)"
| "all2 _ _ = False"

primrec has_type :: "kty \<Rightarrow> kval \<Rightarrow> bool"
  and has_variant :: "kvariant \<Rightarrow> kval \<Rightarrow> bool" where
  "has_type TBool = (\<lambda>v. case v of KBool _ \<Rightarrow> True | _ \<Rightarrow> False)"
| "has_type TI64 = (\<lambda>v. case v of KI64 _ \<Rightarrow> True | _ \<Rightarrow> False)"
| "has_type TU64 = (\<lambda>v. case v of KU64 _ \<Rightarrow> True | _ \<Rightarrow> False)"
| "has_type TF64 = (\<lambda>v. case v of KF64 _ \<Rightarrow> True | _ \<Rightarrow> False)"
| "has_type TStr = (\<lambda>v. case v of KStr s \<Rightarrow> utf8_valid s | _ \<Rightarrow> False)"
| "has_type TBytes = (\<lambda>v. case v of KBytes _ \<Rightarrow> True | _ \<Rightarrow> False)"
| "has_type (TSeq t) = (\<lambda>v. case v of KSeq vs \<Rightarrow> list_all (has_type t) vs | _ \<Rightarrow> False)"
| "has_type (TTuple ts) = (\<lambda>v. case v of KTuple vs \<Rightarrow> all2 (map has_type ts) vs | _ \<Rightarrow> False)"
| "has_type (TEnum variants) = (\<lambda>v.
     case v of
       KUnitVar i \<Rightarrow> i < length variants \<and> (map has_variant variants ! i) v
     | KNewVar i _ \<Rightarrow> i < length variants \<and> (map has_variant variants ! i) v
     | KTupVar i _ \<Rightarrow> i < length variants \<and> (map has_variant variants ! i) v
     | _ \<Rightarrow> False)"
| "has_type TUnimplemented = (\<lambda>v. False)"
| "has_variant VUnit = (\<lambda>v. case v of KUnitVar _ \<Rightarrow> True | _ \<Rightarrow> False)"
| "has_variant (VNew t) = (\<lambda>v. case v of KNewVar _ w \<Rightarrow> has_type t w | _ \<Rightarrow> False)"
| "has_variant (VTup ts) = (\<lambda>v. case v of KTupVar _ vs \<Rightarrow> all2 (map has_type ts) vs | _ \<Rightarrow> False)"

text \<open>
  The key types: no sequence (whose end is the end of the input), no empty tuple, and at most
  256 variants, since the index is one byte.
\<close>

primrec key_type :: "kty \<Rightarrow> bool"
  and key_variant :: "kvariant \<Rightarrow> bool" where
  "key_type TBool = True"
| "key_type TI64 = True"
| "key_type TU64 = True"
| "key_type TF64 = True"
| "key_type TStr = True"
| "key_type TBytes = True"
| "key_type (TSeq t) = False"
| "key_type (TTuple ts) = (ts \<noteq> [] \<and> list_all key_type ts)"
| "key_type (TEnum variants) = (length variants \<le> 256 \<and> list_all key_variant variants)"
| "key_type TUnimplemented = False"
| "key_variant VUnit = True"
| "key_variant (VNew t) = key_type t"
| "key_variant (VTup ts) = list_all key_type ts"

section \<open>Round trip\<close>

lemma flip_sign_twice [simp]: "flip_sign (flip_sign bs) = bs"
  by (auto simp: flip_sign_def xor.assoc split: list.splits)

lemma length_flip_sign [simp]: "length (flip_sign bs) = length bs"
  by (simp add: flip_sign_def split: list.splits)

lemma length_serialize_f64 [simp]: "length (serialize_f64 v) = 8"
  by (simp add: serialize_f64_def Let_def)

lemma length_serialize_i64 [simp]: "length (serialize_i64 v) = 8"
  by (simp add: serialize_i64_def)

lemma take_bytes_append [simp]: "length b = n \<Longrightarrow> take_bytes n (b @ r) = Ok (b, r)"
  by (simp add: take_bytes_def)

lemma decode_next_bytes_serialize [simp]: "decode_next_bytes (serialize_bytes v @ r) = Ok (v, r)"
proof (induction v)
  case Nil
  show ?case by (simp add: serialize_bytes_def)
next
  case (Cons b v)
  then show ?case by (simp add: serialize_bytes_def escape_byte_def)
qed

text \<open>The sign bit is the top bit of the first byte.\<close>

lemma u64_to_be_top:
  obtains b t where "u64_to_be v = b # t" "length t = 7" "unat b < 128 \<longleftrightarrow> \<not> bit v 63"
    "unat b = unat v div 2 ^ 56"
proof -
  have "unat v div 2 ^ 56 < 256"
    using unat_u64_less [of v] by (simp add: less_mult_imp_div_less)
  then have top: "unat (word_of_nat (unat v div 2 ^ 56) :: byte) = unat v div 2 ^ 56"
    by (simp add: unat_of_nat)
  have "unat v div 2 ^ 56 < 128 \<longleftrightarrow> unat v < 128 * 2 ^ 56"
    by (simp add: div_less_iff_less_mult)
  then have "unat v div 2 ^ 56 < 128 \<longleftrightarrow> \<not> bit v 63"
    by (simp add: u64_sign_bit not_le)
  moreover have "u64_to_be v = word_of_nat (unat v div 2 ^ 56) # be_bytes 7 (unat v mod 2 ^ 56)"
    using be_bytes.simps(2) [of 7 "unat v"] by (simp add: u64_to_be_def)
  ultimately show ?thesis
    using top by (intro that [of _ "be_bytes 7 (unat v mod 2 ^ 56)"]) (auto simp del: One_nat_def)
qed

lemma map_not_twice [simp]: "map NOT (map NOT bs) = (bs :: bytes)"
  by (simp add: map_idI)

lemma deserialize_serialize_f64 [simp]: "deserialize_f64 (serialize_f64 v @ r) = Ok (KF64 v, r)"
proof -
  obtain b t where v: "u64_to_be v = b # t" "length t = 7" "unat b < 128 \<longleftrightarrow> \<not> bit v 63"
    by (rule u64_to_be_top)
  have inv: "u64_from_be (b # t) = v"
    using u64_from_to_be [of v] v by simp
  show ?thesis
  proof (cases "bit v 63")
    case True
    then have "serialize_f64 v = NOT b # map NOT t"
      using v by (simp add: serialize_f64_def f64_is_sign_negative_def)
    moreover have "255 - unat b < 128"
      using True v by arith
    ultimately show ?thesis
      using v inv by (simp add: deserialize_f64_def take_bytes_def byte_top_bit unat_byte_not map_idI)
  next
    case False
    then have "serialize_f64 v = (b XOR 128) # t"
      using v by (simp add: serialize_f64_def f64_is_sign_negative_def flip_sign_def)
    then show ?thesis
      using False v inv
      by (simp add: deserialize_f64_def take_bytes_def byte_top_bit unat_byte_flip flip_sign_def
          xor.assoc)
  qed
qed

lemma deserialize_serialize_scalars [simp]:
  "deserialize_bool ((if v then 1 else 0) # r) = Ok (KBool v, r)"
  "deserialize_i64 (serialize_i64 w @ r) = Ok (KI64 w, r)"
  "deserialize_u64 (u64_to_be w @ r) = Ok (KU64 w, r)"
  by (simp_all add: deserialize_bool_def deserialize_i64_def deserialize_u64_def serialize_i64_def
      take_bytes_def)

lemma serialize_bytes_nonempty [simp]: "serialize_bytes v \<noteq> []"
  by (simp add: serialize_bytes_def)

lemma nonempty_of_length: "length b = 8 \<Longrightarrow> b \<noteq> []"
  by auto

definition self_delimiting :: "kty \<Rightarrow> kval \<Rightarrow> bool" where
  "self_delimiting t v = (\<exists>b. ser v = Ok b \<and> b \<noteq> [] \<and> (\<forall>r. de t (b @ r) = Ok (v, r)))"

lemma self_delimiting_fields:
  assumes "\<forall>t \<in> set ts. \<forall>v. has_type t v \<longrightarrow> self_delimiting t v"
    and "all2 (map has_type ts) vs"
  shows "\<exists>b. concat_results (map ser vs) = Ok b \<and> (ts \<noteq> [] \<longrightarrow> b \<noteq> []) \<and>
    (\<forall>r. visit_fields (map de ts) (b @ r) = Ok (vs, r))"
  using assms
proof (induction ts arbitrary: vs)
  case Nil
  then show ?case by (cases vs) auto
next
  case (Cons t ts)
  then obtain v ws where vs: "vs = v # ws" "has_type t v" "all2 (map has_type ts) ws"
    by (cases vs) auto
  from Cons.prems vs obtain b where
    b: "ser v = Ok b" "b \<noteq> []" "\<And>r. de t (b @ r) = Ok (v, r)"
    by (auto simp: self_delimiting_def)
  from Cons.IH [OF _ vs(3)] Cons.prems obtain c where
    c: "concat_results (map ser ws) = Ok c" "\<And>r. visit_fields (map de ts) (c @ r) = Ok (ws, r)"
    by auto
  show ?case
    using vs b c by (intro exI [of _ "b @ c"]) simp
qed

lemma self_delimiting_variant:
  assumes i: "i < length variants" "length variants \<le> 256"
    and w: "\<forall>r. de_variant (variants ! i) i (c @ r) = Ok (v, r)"
    and v: "ser v = rbind (serialize_unit_variant i) (\<lambda>b. Ok (b @ c))"
  shows "self_delimiting (TEnum variants) v"
proof -
  have i256: "i < 256" using i by simp
  then have "unat (word_of_nat i :: byte) = i"
    by (simp add: unat_of_nat)
  then have "de (TEnum variants) ((word_of_nat i # c) @ r) = Ok (v, r)" for r
    using i w by (simp add: variant_seed_def take_bytes_def)
  moreover have "ser v = Ok (word_of_nat i # c)"
    using v i256 by (simp add: serialize_unit_variant_def)
  ultimately show ?thesis
    unfolding self_delimiting_def by blast
qed

text \<open>
  Every well-typed value of a key type has an encoding, and decoding consumes exactly that
  encoding and returns the value, whatever follows it.
\<close>

lemma de_ser:
  "key_type t \<Longrightarrow> has_type t v \<Longrightarrow> self_delimiting t v"
  "key_variant k \<Longrightarrow> has_variant k v \<Longrightarrow> i < length variants \<Longrightarrow> length variants \<le> 256 \<Longrightarrow>
     variants ! i = k \<Longrightarrow> (case v of KUnitVar j \<Rightarrow> j = i | KNewVar j _ \<Rightarrow> j = i | KTupVar j _ \<Rightarrow> j = i | _ \<Rightarrow> False) \<Longrightarrow>
     self_delimiting (TEnum variants) v"
proof (induction t and k arbitrary: v and v i variants)
  case (TTuple ts)
  then obtain vs where vs: "v = KTuple vs" "all2 (map has_type ts) vs"
    by (auto split: kval.splits)
  then show ?case
    using self_delimiting_fields [of ts vs] TTuple
    by (fastforce simp: self_delimiting_def list_all_iff)
next
  case (TEnum variants)
  then obtain i where i: "i < length variants" "has_variant (variants ! i) v"
    "case v of KUnitVar j \<Rightarrow> j = i | KNewVar j _ \<Rightarrow> j = i | KTupVar j _ \<Rightarrow> j = i | _ \<Rightarrow> False"
    by (auto split: kval.splits)
  show ?case
    using TEnum.prems i by (intro TEnum.IH [OF nth_mem [OF i(1)] _ i(2,1) _ refl i(3)])
      (simp_all add: list_all_iff)
next
  case VUnit
  then show ?case
    by (intro self_delimiting_variant [where c = "[]" and i = i])
      (auto split: kval.splits simp: rbind_def serialize_unit_variant_def)
next
  case (VNew t)
  then obtain w where v: "v = KNewVar i w" "has_type t w"
    by (auto split: kval.splits)
  with VNew obtain c where "ser w = Ok c" "\<forall>r. de t (c @ r) = Ok (w, r)"
    by (auto simp: self_delimiting_def)
  with v VNew show ?case
    by (intro self_delimiting_variant [where c = c and i = i]) simp_all
next
  case (VTup ts)
  then obtain vs where v: "v = KTupVar i vs" "all2 (map has_type ts) vs"
    by (auto split: kval.splits)
  then obtain c where "concat_results (map ser vs) = Ok c"
      "\<forall>r. visit_fields (map de ts) (c @ r) = Ok (vs, r)"
    using self_delimiting_fields [of ts vs] VTup by (auto simp: list_all_iff)
  with v VTup show ?case
    by (intro self_delimiting_variant [where c = c and i = i]) simp_all
qed (auto simp: self_delimiting_def deserialize_str_def deserialize_bytes_def nonempty_of_length
      split: kval.splits)

end
