(* ===== verification/KeycodeOrder.thy ===== *)
theory KeycodeOrder
  imports Keycode Complex_Main
begin

unbundle bit_operations_syntax

text \<open>
  The order Keycode promises: the order on typed values (Rust's derived \<^verbatim>\<open>Ord\<close> on enums and
  tuples, signed order on integers, IEEE 754 total order on floats, lexicographic order on
  strings), and the proofs that the encoding preserves it, that equal encodings come from equal
  values, and that prefix ranges select exactly the keys with a prefix.
\<close>

section \<open>The order on values\<close>

definition f64_rank :: "u64 \<Rightarrow> int" where
  "f64_rank v = (if bit v 63 then 2 ^ 63 - 1 - int (unat v) else int (unat v))"

text \<open>
  The real number a finite double stands for, in units of the smallest subnormal: the
  numerator over \<open>2 ^ 1074\<close> read from the exponent and fraction fields.
\<close>

definition f64_numerator :: "nat \<Rightarrow> nat" where
  "f64_numerator m =
     (let e = m div 2 ^ 52; f = m mod 2 ^ 52
      in if e = 0 then f else (2 ^ 52 + f) * 2 ^ (e - 1))"

definition f64_real :: "u64 \<Rightarrow> real" where
  "f64_real v =
     (if bit v 63 then - (real (f64_numerator (unat v - 2 ^ 63)) / 2 ^ 1074)
      else real (f64_numerator (unat v)) / 2 ^ 1074)"

definition f64_finite :: "u64 \<Rightarrow> bool" where
  "f64_finite v = ((unat v div 2 ^ 52) mod 2048 < 2047)"

fun lex_less :: "('a \<times> ('a \<Rightarrow> bool)) list \<Rightarrow> 'a list \<Rightarrow> bool" where
  "lex_less (p # ps) (b # bs) = (snd p b \<or> fst p = b \<and> lex_less ps bs)"
| "lex_less _ _ = False"

primrec kv_less :: "kval \<Rightarrow> kval \<Rightarrow> bool" where
  "kv_less (KBool a) v = (case v of KBool b \<Rightarrow> \<not> a \<and> b | _ \<Rightarrow> False)"
| "kv_less (KI64 a) v = (case v of KI64 b \<Rightarrow> sint a < sint b | _ \<Rightarrow> False)"
| "kv_less (KU64 a) v = (case v of KU64 b \<Rightarrow> a < b | _ \<Rightarrow> False)"
| "kv_less (KF64 a) v = (case v of KF64 b \<Rightarrow> f64_rank a < f64_rank b | _ \<Rightarrow> False)"
| "kv_less (KStr a) v = (case v of KStr b \<Rightarrow> a < b | _ \<Rightarrow> False)"
| "kv_less (KBytes a) v = (case v of KBytes b \<Rightarrow> a < b | _ \<Rightarrow> False)"
| "kv_less (KUnitVar i) v =
     (case v of KUnitVar j \<Rightarrow> i < j | KNewVar j _ \<Rightarrow> i < j | KTupVar j _ \<Rightarrow> i < j | _ \<Rightarrow> False)"
| "kv_less (KNewVar i a) v =
     (case v of KUnitVar j \<Rightarrow> i < j | KNewVar j b \<Rightarrow> i < j \<or> i = j \<and> kv_less a b
      | KTupVar j _ \<Rightarrow> i < j | _ \<Rightarrow> False)"
| "kv_less (KSeq a) v = (case v of KSeq b \<Rightarrow> lex_less (map (\<lambda>x. (x, kv_less x)) a) b | _ \<Rightarrow> False)"
| "kv_less (KTuple a) v = (case v of KTuple b \<Rightarrow> lex_less (map (\<lambda>x. (x, kv_less x)) a) b | _ \<Rightarrow> False)"
| "kv_less (KTupVar i a) v =
     (case v of KUnitVar j \<Rightarrow> i < j | KNewVar j _ \<Rightarrow> i < j
      | KTupVar j b \<Rightarrow> i < j \<or> i = j \<and> lex_less (map (\<lambda>x. (x, kv_less x)) a) b | _ \<Rightarrow> False)"
| "kv_less KUnimplemented v = False"

section \<open>Scalars\<close>

lemma be_nat_u64 [simp]: "be_nat (u64_to_be v) = unat v"
  by (simp add: u64_to_be_def)

lemma be_nat_serialize_i64:
  "int (be_nat (serialize_i64 v)) = (if bit v 63 then int (unat v) - 2 ^ 63 else int (unat v) + 2 ^ 63)"
proof -
  obtain b t where v: "u64_to_be v = b # t" "length t = 7" "unat b < 128 \<longleftrightarrow> \<not> bit v 63"
    by (rule u64_to_be_top)
  then have "unat v = unat b * 256 ^ 7 + be_nat t"
    using be_nat_u64 [of v] by simp
  then show ?thesis
    using v by (auto simp: serialize_i64_def flip_sign_def unat_byte_flip of_nat_diff algebra_simps)
qed

lemma sint_unat: "sint (v :: u64) = (if bit v 63 then int (unat v) - 2 ^ 64 else int (unat v))"
proof -
  have "sint v = signed_take_bit 63 (uint v)"
    by (simp add: sint_uint)
  also have "\<dots> = (if bit (uint v) 63 then uint v - 2 ^ 64 else uint v)"
    using uint_lt2p [of v]
    by (simp add: signed_take_bit_eq_take_bit_minus take_bit_int_eq_self)
  finally show ?thesis
    by (simp add: bit_unsigned_iff)
qed

lemma serialize_i64_less [byte_order]: "serialize_i64 v < serialize_i64 w \<longleftrightarrow> sint v < sint w"
proof -
  have "serialize_i64 v < serialize_i64 w \<longleftrightarrow>
      int (be_nat (serialize_i64 v)) < int (be_nat (serialize_i64 w))"
    by (simp add: be_nat_mono)
  then show ?thesis
    using unat_u64_less [of v] unat_u64_less [of w]
    by (auto simp: be_nat_serialize_i64 sint_unat)
qed

lemma be_nat_map_not: "be_nat (map NOT bs) + be_nat bs + 1 = 256 ^ length bs"
proof (induction bs)
  case (Cons b bs)
  have "255 - unat b + unat b = 255"
    using unat_byte_less [of b] by linarith
  have "be_nat (map NOT (b # bs)) + be_nat (b # bs) + 1
      = (255 - unat b + unat b) * 256 ^ length bs + (be_nat (map NOT bs) + be_nat bs + 1)"
    by (simp add: unat_byte_not algebra_simps)
  also have "\<dots> = 256 ^ length (b # bs)"
    using Cons \<open>255 - unat b + unat b = 255\<close> by simp
  finally show ?case .
qed simp

lemma be_nat_serialize_f64: "int (be_nat (serialize_f64 v)) = f64_rank v + 2 ^ 63"
proof (cases "bit v 63")
  case True
  then have "serialize_f64 v = map NOT (u64_to_be v)"
    by (simp add: serialize_f64_def f64_is_sign_negative_def)
  moreover have "int (be_nat (map NOT (u64_to_be v))) + int (unat v) + 1 = 2 ^ 64"
    using be_nat_map_not [of "u64_to_be v"] by (simp del: of_nat_unat)
  ultimately show ?thesis
    using True by (simp add: f64_rank_def)
next
  case False
  then have "serialize_f64 v = serialize_i64 v"
    by (simp add: serialize_f64_def serialize_i64_def f64_is_sign_negative_def)
  then show ?thesis
    using False be_nat_serialize_i64 [of v] by (simp add: f64_rank_def)
qed

lemma serialize_f64_less [byte_order]: "serialize_f64 v < serialize_f64 w \<longleftrightarrow> f64_rank v < f64_rank w"
proof -
  have "serialize_f64 v < serialize_f64 w \<longleftrightarrow>
      int (be_nat (serialize_f64 v)) < int (be_nat (serialize_f64 w))"
    by (simp add: be_nat_mono)
  then show ?thesis by (simp add: be_nat_serialize_f64)
qed

lemma serialize_bytes_diverges [byte_order]: "v < w \<Longrightarrow> diverges (serialize_bytes v) (serialize_bytes w)"
proof (induction v arbitrary: w)
  case Nil
  then obtain c w' where "w = c # w'"
    by (cases w) auto
  then show ?case
    by (auto simp: serialize_bytes_def escape_byte_def word_neq_0_conv)
next
  case (Cons a v)
  then obtain c w' where w: "w = c # w'" and less: "a < c \<or> a = c \<and> v < w'"
    by (cases w) auto
  show ?case
  proof (cases "a < c")
    case True
    then have "c \<noteq> 0" by auto
    with True w show ?thesis
      by (auto simp: serialize_bytes_def escape_byte_def word_neq_0_conv)
  next
    case False
    with less have "a = c" "v < w'" by auto
    with Cons.IH [of w'] w show ?thesis
      by (simp add: serialize_bytes_def)
  qed
qed

section \<open>Compositional order\<close>

definition order_at :: "kty \<Rightarrow> bool" where
  "order_at t = (\<forall>v w a b. has_type t v \<longrightarrow> has_type t w \<longrightarrow> ser v = Ok a \<longrightarrow> ser w = Ok b \<longrightarrow>
     kv_less v w \<longrightarrow> diverges a b)"

lemma order_at_fields:
  assumes "\<forall>t \<in> set ts. order_at t"
    and "all2 (map has_type ts) vs" "all2 (map has_type ts) ws"
    and "concat_results (map ser vs) = Ok a" "concat_results (map ser ws) = Ok b"
    and "lex_less (map (\<lambda>x. (x, kv_less x)) vs) ws"
  shows "diverges a b"
  using assms
proof (induction ts arbitrary: vs ws a b)
  case Nil
  then show ?case by (cases vs) auto
next
  case (Cons t ts)
  then obtain v vs' w ws' where vw: "vs = v # vs'" "ws = w # ws'"
    by (cases vs; cases ws) auto
  from Cons.prems vw obtain a1 a2 b1 b2 where ab:
    "ser v = Ok a1" "concat_results (map ser vs') = Ok a2" "a = a1 @ a2"
    "ser w = Ok b1" "concat_results (map ser ws') = Ok b2" "b = b1 @ b2"
    by (auto simp: rbind_eq_Ok)
  show ?case
  proof (cases "kv_less v w")
    case True
    then have "diverges a1 b1"
      using Cons.prems vw ab unfolding order_at_def by fastforce
    then show ?thesis by (simp add: ab diverges_append)
  next
    case False
    then have "v = w" "lex_less (map (\<lambda>x. (x, kv_less x)) vs') ws'"
      using Cons.prems vw by auto
    then show ?thesis
      using Cons.IH [of vs' ws' a2 b2] Cons.prems vw ab by auto
  qed
qed

lemma unit_variant_diverges:
  assumes "serialize_unit_variant i = Ok a" "serialize_unit_variant j = Ok b" "i < j"
  shows "diverges (a @ r) (b @ r')"
  using assms
  by (auto simp: serialize_unit_variant_def word_less_nat_alt unat_of_nat split: if_splits)

definition kv_index :: "kval \<Rightarrow> nat" where
  "kv_index v = (case v of KUnitVar i \<Rightarrow> i | KNewVar i _ \<Rightarrow> i | KTupVar i _ \<Rightarrow> i | _ \<Rightarrow> 0)"

lemma ser_variant:
  assumes "has_variant k v" "ser v = Ok a"
  obtains i r where "serialize_unit_variant (kv_index v) = Ok i" "a = i @ r"
proof -
  have "\<exists>i r. serialize_unit_variant (kv_index v) = Ok i \<and> a = i @ r"
    using assms by (cases k; cases v) (auto simp: kv_index_def rbind_eq_Ok)
  then show ?thesis using that by blast
qed

lemma has_type_TEnum:
  assumes "has_type (TEnum variants) v"
  shows "kv_index v < length variants" "has_variant (variants ! kv_index v) v"
  using assms by (auto simp: kv_index_def split: kval.splits)

lemma has_variantE:
  assumes "has_variant k v"
  obtains i where "v = KUnitVar i" | i x where "v = KNewVar i x" | i xs where "v = KTupVar i xs"
  using assms by (cases k; cases v) simp_all

lemma kv_less_index:
  assumes "has_variant k v" "has_variant k' w" "kv_less v w"
  shows "kv_index v \<le> kv_index w"
  using assms by (elim has_variantE) (auto simp: kv_index_def)

lemma order_at_key:
  "key_type t \<Longrightarrow> order_at t"
  "key_variant k \<Longrightarrow> has_variant k v \<Longrightarrow> has_variant k w \<Longrightarrow> kv_index v = kv_index w \<Longrightarrow>
     ser v = Ok a \<Longrightarrow> ser w = Ok b \<Longrightarrow> kv_less v w \<Longrightarrow> diverges a b"
proof (induction t and k arbitrary: and v w a b)
  case (TTuple ts)
  then have "\<forall>t \<in> set ts. order_at t"
    by (simp add: list_all_iff)
  then show ?case
    unfolding order_at_def [of "TTuple ts"] using order_at_fields [of ts]
    by (fastforce split: kval.splits)
next
  case (TEnum variants)
  show ?case unfolding order_at_def
  proof (intro allI impI)
    fix v w a b
    assume v: "has_type (TEnum variants) v" and w: "has_type (TEnum variants) w"
      and ab: "ser v = Ok a" "ser w = Ok b" and less: "kv_less v w"
    note tv = has_type_TEnum [OF v] and tw = has_type_TEnum [OF w]
    show "diverges a b"
    proof (cases "kv_index v = kv_index w")
      case True
      with tv tw show ?thesis
        using TEnum.IH [of "variants ! kv_index v" v w a b] TEnum.prems ab less
        by (auto simp: list_all_iff)
    next
      case False
      with kv_less_index [OF tv(2) tw(2) less] have "kv_index v < kv_index w" by simp
      then show ?thesis
        using ser_variant [OF tv(2) ab(1)] ser_variant [OF tw(2) ab(2)] unit_variant_diverges
        by metis
    qed
  qed
next
  case (VNew t)
  then show ?case
    by (auto simp: kv_index_def order_at_def rbind_eq_Ok split: kval.splits)
next
  case (VTup ts)
  then have "\<forall>t \<in> set ts. order_at t"
    by (simp add: list_all_iff)
  then show ?case
    using VTup.prems order_at_fields [of ts]
    by (auto simp: kv_index_def rbind_eq_Ok split: kval.splits)
qed (auto simp: order_at_def kv_index_def diverges_same_length byte_order split: kval.splits)

section \<open>The order is total on a type\<close>

lemma f64_rank_inject: "f64_rank v = f64_rank w \<Longrightarrow> v = w"
proof -
  assume "f64_rank v = f64_rank w"
  then have "be_nat (serialize_f64 v) = be_nat (serialize_f64 w)"
    by (metis be_nat_serialize_f64 of_nat_eq_iff)
  then have "serialize_f64 v = serialize_f64 w"
    by (metis be_bytes_be_nat length_serialize_f64)
  then show "v = w"
    by (metis deserialize_serialize_f64 fst_conv kval.inject(4) result.inject(1))
qed

definition total_at :: "kty \<Rightarrow> bool" where
  "total_at t = (\<forall>v w. has_type t v \<longrightarrow> has_type t w \<longrightarrow> kv_less v w \<or> v = w \<or> kv_less w v)"

lemma total_at_fields:
  assumes "\<forall>t \<in> set ts. total_at t"
    and "all2 (map has_type ts) vs" "all2 (map has_type ts) ws"
  shows "lex_less (map (\<lambda>x. (x, kv_less x)) vs) ws \<or> vs = ws \<or> lex_less (map (\<lambda>x. (x, kv_less x)) ws) vs"
  using assms
proof (induction ts arbitrary: vs ws)
  case Nil
  then show ?case by (cases vs; cases ws) auto
next
  case (Cons t ts)
  then show ?case
    by (cases vs; cases ws) (fastforce simp: total_at_def)+
qed

lemma total_at_key:
  "key_type t \<Longrightarrow> total_at t"
  "key_variant k \<Longrightarrow> has_variant k v \<Longrightarrow> has_variant k w \<Longrightarrow> kv_index v = kv_index w \<Longrightarrow>
     kv_less v w \<or> v = w \<or> kv_less w v"
proof (induction t and k arbitrary: and v w)
  case (TTuple ts)
  then show ?case
    using total_at_fields [of ts]
    by (fastforce simp: total_at_def [of "TTuple ts"] list_all_iff split: kval.splits)
next
  case (TEnum variants)
  show ?case unfolding total_at_def
  proof (intro allI impI)
    fix v w
    assume v: "has_type (TEnum variants) v" and w: "has_type (TEnum variants) w"
    note tv = has_type_TEnum [OF v] and tw = has_type_TEnum [OF w]
    have differ: "kv_less x y" if "has_variant a x" "has_variant b y" "kv_index x < kv_index y" for a b x y
      using that by (elim has_variantE) (auto simp: kv_index_def)
    show "kv_less v w \<or> v = w \<or> kv_less w v"
    proof (cases "kv_index v = kv_index w")
      case True
      with tv tw show ?thesis
        using TEnum.IH [of "variants ! kv_index v" v w] TEnum.prems by (auto simp: list_all_iff)
    next
      case False
      then show ?thesis
        using differ [OF tv(2) tw(2)] differ [OF tw(2) tv(2)] by linarith
    qed
  qed
next
  case (VNew t)
  then show ?case
    by (auto simp: kv_index_def total_at_def split: kval.splits)
next
  case (VTup ts)
  then have "\<forall>t \<in> set ts. total_at t"
    by (simp add: list_all_iff)
  then show ?case
    using VTup.prems total_at_fields [of ts] by (auto simp: kv_index_def split: kval.splits)
next
  case TI64
  then show ?case
    by (auto simp: total_at_def signed_word_eqI neq_iff split: kval.splits)
next
  case TF64
  then show ?case
    by (auto simp: total_at_def neq_iff dest: f64_rank_inject split: kval.splits)
qed (auto simp: total_at_def kv_index_def neq_iff split: kval.splits)

section \<open>Prefix ranges\<close>

lemma trim_ff_split: "\<exists>n. p = trim_ff p @ replicate n 255"
proof -
  have "takeWhile (\<lambda>b. b = 255) (rev p) = replicate (length (takeWhile (\<lambda>b. b = 255) (rev p))) 255"
    by (intro replicate_eqI) (auto dest: set_takeWhileD)
  then have "rev p = replicate (length (takeWhile (\<lambda>b. b = 255) (rev p))) 255 @ dropWhile (\<lambda>b. b = 255) (rev p)"
    by (metis takeWhile_dropWhile_id)
  then show ?thesis
    unfolding trim_ff_def by (metis rev_append rev_replicate rev_rev_ident)
qed

lemma last_trim_ff: "trim_ff p \<noteq> [] \<Longrightarrow> last (trim_ff p) \<noteq> 255"
  unfolding trim_ff_def using hd_dropWhile [of "\<lambda>b. b = 255" "rev p"]
  by (simp add: last_rev)

lemma replicate_ff_le: "replicate n (255 :: byte) \<le> k \<Longrightarrow> \<exists>r. k = replicate n 255 @ r"
proof (induction n arbitrary: k)
  case (Suc n)
  then obtain y k' where k: "k = y # k'"
    by (cases k) auto
  have "y = 255" "replicate n 255 \<le> k'"
    using Suc.prems k by auto
  with Suc.IH [of k'] k show ?case by auto
qed simp

lemma sandwich_prefix:
  "(u @ a :: bytes) \<le> k \<Longrightarrow> k < u @ b \<Longrightarrow> \<exists>k'. k = u @ k' \<and> a \<le> k' \<and> k' < b"
proof (induction u arbitrary: k)
  case (Cons x u)
  then obtain y l where "k = y # l"
    by (cases k) auto
  with Cons show ?case by force
qed simp

lemma prefix_range_bounded:
  assumes "last t \<noteq> (255 :: byte)" "t \<noteq> []"
  shows "t @ replicate n 255 \<le> k \<and> k < butlast t @ [last t + 1] \<longleftrightarrow> (\<exists>r. k = t @ replicate n 255 @ r)"
proof -
  let ?u = "butlast t" and ?x = "last t"
  have t: "t = ?u @ [?x]" using assms by simp
  have x: "?x < ?x + 1"
    using assms(1) byte_less_succ by blast
  show ?thesis
  proof
    assume k: "t @ replicate n 255 \<le> k \<and> k < ?u @ [?x + 1]"
    then have "?u @ ?x # replicate n 255 \<le> k"
      by (metis append.assoc append_Cons append_Nil t)
    then obtain l where l: "k = ?u @ l" "?x # replicate n 255 \<le> l" "l < [?x + 1]"
      using k sandwich_prefix by blast
    then obtain y m where y: "l = y # m" by (cases l) auto
    have "y < ?x + 1" using l y by auto
    then have "y \<le> ?x"
      by (rule less_inc_imp_less_eq)
    then have "y = ?x" "replicate n 255 \<le> m"
      using l y by auto
    with replicate_ff_le [of n m] l y show "\<exists>r. k = t @ replicate n 255 @ r"
      by (metis append.assoc append_Cons append_Nil t)
  next
    assume "\<exists>r. k = t @ replicate n 255 @ r"
    then obtain r where k: "k = t @ replicate n 255 @ r" by blast
    then have "k = ?u @ ?x # replicate n 255 @ r"
      by (metis append.assoc append_Cons append_Nil t)
    then show "t @ replicate n 255 \<le> k \<and> k < ?u @ [?x + 1]"
      using k x by (metis Cons_less_Cons append.assoc less_append_cancel prefix_le)
  qed
qed

lemma in_prefix_range: "in_range (prefix_range p) k \<longleftrightarrow> (\<exists>r. k = p @ r)"
proof -
  obtain n where n: "p = trim_ff p @ replicate n 255"
    using trim_ff_split by blast
  show ?thesis
  proof (cases "trim_ff p = []")
    case True
    with n have p: "p = replicate n 255" by simp
    have "replicate n 255 \<le> k \<longleftrightarrow> (\<exists>r. k = replicate n 255 @ r)"
      using replicate_ff_le [of n k] by auto
    with True p show ?thesis
      by (simp add: in_range_def prefix_range_def Let_def)
  next
    case False
    then have "in_range (prefix_range p) k \<longleftrightarrow>
        p \<le> k \<and> k < butlast (trim_ff p) @ [last (trim_ff p) + 1]"
      by (simp add: in_range_def prefix_range_def Let_def)
    moreover have "p \<le> k \<and> k < butlast (trim_ff p) @ [last (trim_ff p) + 1] \<longleftrightarrow> (\<exists>r. k = p @ r)"
      using prefix_range_bounded [OF last_trim_ff [OF False] False, of n k]
      by (simp only: n [symmetric] append.assoc [symmetric])
    ultimately show ?thesis by simp
  qed
qed

lemma range_valid_prefix [simp]: "range_valid (prefix_range p)"
proof (cases "snd (prefix_range p)")
  case (Excluded h)
  have "p < h"
    using in_prefix_range [of p p] Excluded by (simp add: in_range_def)
  moreover have "prefix_range p = (Included p, Excluded h)"
    using Excluded by (intro prod_eqI) (simp_all add: prefix_range_def)
  ultimately show ?thesis by simp
qed (auto simp: prefix_range_def Let_def split: if_splits)

section \<open>Floats in the order of the reals\<close>

lemma f64_numerator_Suc: "f64_numerator m < f64_numerator (Suc m)"
proof (cases "Suc (m mod 2 ^ 52) < 2 ^ 52")
  case True
  then have "Suc m div 2 ^ 52 = m div 2 ^ 52" "Suc m mod 2 ^ 52 = Suc (m mod 2 ^ 52)"
    by (simp_all add: mod_Suc div_Suc)
  then show ?thesis
    by (simp add: f64_numerator_def Let_def)
next
  case False
  have "m mod 2 ^ 52 < 2 ^ 52" by simp
  with False have f: "m mod 2 ^ 52 = 2 ^ 52 - 1" by linarith
  then have "Suc m mod 2 ^ 52 = 0" "Suc m div 2 ^ 52 = Suc (m div 2 ^ 52)"
    by (simp_all add: mod_Suc div_Suc)
  moreover have "(2 ^ 52 + (2 ^ 52 - 1)) * 2 ^ (e - 1) < 2 ^ 52 * (2 :: nat) ^ e" if "e \<noteq> 0" for e
    using that by (cases e) simp_all
  ultimately show ?thesis
    using f by (simp add: f64_numerator_def Let_def)
qed

lemma f64_numerator_less: "f64_numerator m < f64_numerator n \<longleftrightarrow> m < n"
  by (simp add: strict_mono_less strict_mono_Suc_iff f64_numerator_Suc)

lemma f64_rank_real: "f64_real v < f64_real w \<Longrightarrow> f64_rank v < f64_rank w"
proof -
  assume less: "f64_real v < f64_real w"
  have pos: "0 \<le> real (f64_numerator n) / 2 ^ 1074" for n by simp
  have cmp: "real (f64_numerator m) / 2 ^ 1074 < real (f64_numerator n) / 2 ^ 1074 \<longleftrightarrow> m < n" for m n
    by (simp add: divide_less_cancel f64_numerator_less)
  consider "\<not> bit v 63" "\<not> bit w 63" | "bit v 63" "\<not> bit w 63" | "bit v 63" "bit w 63"
    using less pos [of "unat v"] pos [of "unat w - 2 ^ 63"] unfolding f64_real_def by fastforce
  then show ?thesis
  proof cases
    case 1
    with less cmp have "unat v < unat w" by (simp add: f64_real_def)
    with 1 show ?thesis by (simp add: f64_rank_def del: of_nat_unat)
  next
    case 2
    then have "2 ^ 63 \<le> unat v" by (simp add: u64_sign_bit)
    with 2 show ?thesis by (simp add: f64_rank_def del: of_nat_unat)
  next
    case 3
    then have "2 ^ 63 \<le> unat v" "2 ^ 63 \<le> unat w" by (simp_all add: u64_sign_bit)
    moreover from 3 less cmp have "unat w - 2 ^ 63 < unat v - 2 ^ 63"
      by (simp add: f64_real_def)
    ultimately show ?thesis
      using 3 by (simp add: f64_rank_def del: of_nat_unat)
  qed
qed

section \<open>Properties\<close>

lemma serialize_key:
  assumes "key_type t" "has_type t v"
  obtains b where "serialize v = Ok b" "ser v = Ok b" "b \<noteq> []" "\<And>r. de t (b @ r) = Ok (v, r)"
  using de_ser(1) [OF assms] by (auto simp: self_delimiting_def serialize_def)

lemma deserialize_serialize:
  assumes "key_type t" "has_type t v"
  shows "\<exists>b. serialize v = Ok b \<and> deserialize t b = Ok v"
proof -
  obtain b where "serialize v = Ok b" "\<And>r. de t (b @ r) = Ok (v, r)"
    using serialize_key [OF assms] by metis
  moreover from this(2) [of "[]"] have "deserialize t b = Ok v"
    by (simp add: deserialize_def)
  ultimately show ?thesis by blast
qed

lemma serialize_less:
  assumes "key_type t" "has_type t v" "has_type t w"
    and "serialize v = Ok a" "serialize w = Ok b"
  shows "a < b \<longleftrightarrow> kv_less v w"
proof -
  have ab: "ser v = Ok a" "ser w = Ok b"
    using assms by (auto simp: serialize_def split: result.splits)
  have "kv_less v w \<Longrightarrow> a < b" "kv_less w v \<Longrightarrow> b < a"
    using order_at_key(1) [OF assms(1)] assms(2,3) ab diverges_less
    unfolding order_at_def by blast+
  moreover have "kv_less v w \<or> v = w \<or> kv_less w v"
    using total_at_key(1) [OF assms(1)] assms(2,3) by (simp add: total_at_def)
  ultimately show ?thesis
    using ab by (metis less_asym order_less_irrefl result.inject(1))
qed

text \<open>
  Property C1. For every key type, encoding a well-typed value succeeds (it never panics) and
  decoding the bytes at that type returns the value.
\<close>

theorem serialize_roundtrip:
  assumes "key_type t" "has_type t v"
  shows "\<exists>b. serialize v = Ok b \<and> deserialize t b = Ok v"
  by (rule deserialize_serialize [OF assms])

text \<open>
  Property C2. The encoding preserves the order: of two well-typed values of a key type, the
  encoded bytes of one are lexicographically smaller exactly when the value is smaller.
\<close>

theorem serialize_order:
  assumes "key_type t" "has_type t v" "has_type t w"
    and "serialize v = Ok a" "serialize w = Ok b"
  shows "a < b \<longleftrightarrow> kv_less v w"
  by (rule serialize_less [OF assms])

text \<open>
  The range computed for a prefix contains exactly the keys that start with the
  prefix, for every prefix, including those that end in \<^verbatim>\<open>0xff\<close> bytes.
\<close>

theorem prefix_range_exact: "in_range (prefix_range p) k \<longleftrightarrow> (\<exists>r. k = p @ r)"
  by (rule in_prefix_range)

text \<open>
  Finite doubles are encoded in the order of the real numbers they stand for.
\<close>

theorem serialize_f64_real_order:
  assumes "f64_finite v" "f64_finite w" "f64_real v < f64_real w"
  shows "serialize_f64 v < serialize_f64 w"
  using f64_rank_real [OF assms(3)] by (simp add: serialize_f64_less)

section \<open>Witnesses\<close>

text \<open>A row identifier of a string with an embedded zero byte and a negative integer.\<close>

theorem serialize_roundtrip_witness:
  "\<exists>b. serialize (KTuple [KStr [97, 0], KI64 (- 1)]) = Ok b \<and>
    deserialize (TTuple [TStr, TI64]) b = Ok (KTuple [KStr [97, 0], KI64 (- 1)])"
  using serialize_roundtrip [of "TTuple [TStr, TI64]" "KTuple [KStr [97, 0], KI64 (- 1)]"]
  by simp

theorem serialize_order_witness:
  "\<exists>a b. serialize (KTuple [KStr [97], KI64 5]) = Ok a \<and>
    serialize (KTuple [KStr [97, 0], KI64 (- 1)]) = Ok b \<and>
    (a < b \<longleftrightarrow> kv_less (KTuple [KStr [97], KI64 5]) (KTuple [KStr [97, 0], KI64 (- 1)]))"
proof -
  let ?t = "TTuple [TStr, TI64]"
  have t: "key_type ?t" "has_type ?t (KTuple [KStr [97], KI64 5])"
    "has_type ?t (KTuple [KStr [97, 0], KI64 (- 1)])"
    by simp_all
  then obtain a b where "serialize (KTuple [KStr [97], KI64 5]) = Ok a"
    "serialize (KTuple [KStr [97, 0], KI64 (- 1)]) = Ok b"
    using serialize_key by metis
  with serialize_order [OF t this] show ?thesis by blast
qed

text \<open>The subnormals next to zero on either side.\<close>

theorem serialize_f64_real_order_witness:
  "f64_real 0x8000000000000001 < f64_real 1 \<and> serialize_f64 0x8000000000000001 < serialize_f64 1"
proof -
  have fin: "f64_finite 0x8000000000000001" "f64_finite 1"
    by (simp_all add: f64_finite_def)
  have "f64_real 0x8000000000000001 = - (1 / 2 ^ 1074)" "f64_real 1 = 1 / 2 ^ 1074"
    by (simp_all add: f64_real_def f64_numerator_def Let_def bit_iff_odd_drop_bit)
  moreover have "- (1 / 2 ^ 1074) < (1 / 2 ^ 1074 :: real)"
    by (rule order.strict_trans [of _ 0]) (simp_all only: neg_less_0_iff_less zero_less_divide_1_iff zero_less_power zero_less_numeral)
  ultimately have lt: "f64_real 0x8000000000000001 < f64_real 1" by simp
  with serialize_f64_real_order [OF fin lt] show ?thesis by simp
qed

end
