(* ===== verification/Engine.thy ===== *)
theory Engine
  imports KeycodeOrder
begin

text \<open>
  \<^verbatim>\<open>src/storage/engine.rs\<close> and \<^verbatim>\<open>src/storage/memory.rs\<close>. The trait \<^verbatim>\<open>Engine\<close> is a record of
  its methods, the dictionary a trait object carries; code that is generic over an engine takes
  the record as a parameter. A scan is the list its iterator yields, in order, each item a
  result of its own, as in the source. Reads do not change the engine. What the trait promises is
  the locale \<open>kv_engine\<close>: the engine holds an ordered map. The in-memory engine is interpreted
  here; BitCask in its own theory.
\<close>

section \<open>The engine trait\<close>

record status =
  st_name :: string
  st_keys :: nat
  st_size :: nat
  st_disk_size :: nat
  st_live_disk_size :: nat

type_synonym brange = "bytes bound \<times> bytes bound"

record 'e engine_ops =
  e_delete :: "bytes \<Rightarrow> ('e, unit) op"
  e_flush :: "('e, unit) op"
  e_get :: "bytes \<Rightarrow> 'e \<Rightarrow> bytes option result"
  e_scan :: "brange \<Rightarrow> 'e \<Rightarrow> (bytes \<times> bytes) result list result"
  e_set :: "bytes \<Rightarrow> bytes \<Rightarrow> ('e, unit) op"
  e_status :: "'e \<Rightarrow> status result"

definition e_scan_prefix :: "'e engine_ops \<Rightarrow> bytes \<Rightarrow> 'e \<Rightarrow> (bytes \<times> bytes) result list result" where
  "e_scan_prefix E p = e_scan E (prefix_range p)"

text \<open>\<^verbatim>\<open>u64\<close> subtraction: it wraps when the live size exceeds the file size.\<close>

definition garbage_disk_size :: "status \<Rightarrow> nat" where
  "garbage_disk_size s = nat ((int (st_disk_size s) - int (st_live_disk_size s)) mod 2 ^ 64)"

text \<open>A client of the trait: any sequence of calls, with the answers they give.\<close>

datatype engine_call = CSet bytes bytes | CDelete bytes | CFlush | CGet bytes | CScan brange

datatype engine_answer =
    AUnit "unit result"
  | AGet "bytes option result"
  | AScan "(bytes \<times> bytes) result list result"

fun engine_step :: "'e engine_ops \<Rightarrow> engine_call \<Rightarrow> 'e \<Rightarrow> engine_answer \<times> 'e" where
  "engine_step E (CSet k v) e = apfst AUnit (e_set E k v e)"
| "engine_step E (CDelete k) e = apfst AUnit (e_delete E k e)"
| "engine_step E CFlush e = apfst AUnit (e_flush E e)"
| "engine_step E (CGet k) e = (AGet (e_get E k e), e)"
| "engine_step E (CScan r) e = (AScan (e_scan E r e), e)"

fun engine_run :: "'e engine_ops \<Rightarrow> engine_call list \<Rightarrow> 'e \<Rightarrow> engine_answer list \<times> 'e" where
  "engine_run E [] e = ([], e)"
| "engine_run E (c # cs) e =
     (case engine_step E c e of (a, e') \<Rightarrow> apfst (\<lambda>as. a # as) (engine_run E cs e'))"

section \<open>The in-memory engine\<close>

type_synonym memory = "(bytes, bytes) btree"

definition mem_delete :: "bytes \<Rightarrow> (memory, unit) op" where
  "mem_delete k m = (Ok (), bt_remove k m)"

definition mem_flush :: "(memory, unit) op" where
  "mem_flush m = (Ok (), m)"

definition mem_get :: "bytes \<Rightarrow> memory \<Rightarrow> bytes option result" where
  "mem_get k m = Ok (map_of m k)"

definition mem_scan :: "brange \<Rightarrow> memory \<Rightarrow> (bytes \<times> bytes) result list result" where
  "mem_scan r m = rbind (bt_range r m) (\<lambda>kvs. Ok (map Ok kvs))"

definition mem_set :: "bytes \<Rightarrow> bytes \<Rightarrow> (memory, unit) op" where
  "mem_set k v m = (Ok (), bt_insert k v m)"

definition mem_status :: "memory \<Rightarrow> status result" where
  "mem_status m = Ok \<lparr>st_name = ''memory'', st_keys = length m,
     st_size = sum_list (map (\<lambda>(k, v). length k + length v) m),
     st_disk_size = 0, st_live_disk_size = 0\<rparr>"

definition memory_engine :: "memory engine_ops" where
  "memory_engine = \<lparr>e_delete = mem_delete, e_flush = mem_flush, e_get = mem_get,
     e_scan = mem_scan, e_set = mem_set, e_status = mem_status\<rparr>"

section \<open>The contract\<close>

locale kv_engine =
  fixes E :: "'e engine_ops"
    and contents :: "'e \<Rightarrow> (bytes, bytes) btree"
    and invar :: "'e \<Rightarrow> bool"
  assumes contents_wf: "invar e \<Longrightarrow> bt_wf (contents e)"
    and get_law: "invar e \<Longrightarrow> e_get E k e = Ok (map_of (contents e) k)"
    and set_law: "invar e \<Longrightarrow>
      \<exists>e'. e_set E k v e = (Ok (), e') \<and> invar e' \<and> contents e' = bt_insert k v (contents e)"
    and delete_law: "invar e \<Longrightarrow>
      \<exists>e'. e_delete E k e = (Ok (), e') \<and> invar e' \<and> contents e' = bt_remove k (contents e)"
    and flush_law: "invar e \<Longrightarrow>
      \<exists>e'. e_flush E e = (Ok (), e') \<and> invar e' \<and> contents e' = contents e"
    and scan_law: "invar e \<Longrightarrow>
      e_scan E r e = rbind (bt_range r (contents e)) (\<lambda>m. Ok (map Ok m))"
begin

text \<open>The successor states the laws speak of, as functions.\<close>

lemma set_Ok:
  assumes "invar e"
  obtains e' where "e_set E k v e = (Ok (), e')" "invar e'"
    "contents e' = bt_insert k v (contents e)"
    "map_of (contents e') = (map_of (contents e))(k \<mapsto> v)"
  using set_law [OF assms, of k v] map_of_bt_insert [of k v "contents e"] by auto

lemma delete_Ok:
  assumes "invar e"
  obtains e' where "e_delete E k e = (Ok (), e')" "invar e'"
    "contents e' = bt_remove k (contents e)"
    "map_of (contents e') = (map_of (contents e))(k := None)"
  using delete_law [OF assms, of k] map_of_bt_remove [of k "contents e"] by auto

lemma flush_Ok:
  assumes "invar e"
  obtains e' where "e_flush E e = (Ok (), e')" "invar e'" "contents e' = contents e"
  using flush_law [OF assms] by auto

lemma scan_Ok:
  assumes "invar e" "range_valid r"
  shows "e_scan E r e = Ok (map Ok (filter (\<lambda>x. in_range r (fst x)) (contents e)))"
  using assms by (simp add: scan_law bt_range_def)

lemma scan_prefix_Ok:
  assumes "invar e"
  shows "e_scan_prefix E p e = Ok (map Ok (filter (\<lambda>x. \<exists>r. fst x = p @ r) (contents e)))"
  using scan_Ok [OF assms range_valid_prefix]
  by (simp add: e_scan_prefix_def in_prefix_range)

text \<open>A client cannot tell an engine from the in-memory one holding the same map.\<close>

lemma step_as_memory:
  assumes "invar e"
  shows "fst (engine_step E c e) = fst (engine_step memory_engine c (contents e))"
    and "contents (snd (engine_step E c e)) = snd (engine_step memory_engine c (contents e))"
    and "invar (snd (engine_step E c e))"
proof -
  note [simp] = memory_engine_def mem_delete_def mem_flush_def mem_get_def mem_scan_def mem_set_def
  have "fst (engine_step E c e) = fst (engine_step memory_engine c (contents e)) \<and>
      contents (snd (engine_step E c e)) = snd (engine_step memory_engine c (contents e)) \<and>
      invar (snd (engine_step E c e))"
  proof (cases c)
    case (CSet k v)
    then show ?thesis using set_law [OF assms, of k v] by auto
  next
    case (CDelete k)
    then show ?thesis using delete_law [OF assms, of k] by auto
  next
    case CFlush
    then show ?thesis using flush_law [OF assms] by auto
  qed (use assms in \<open>simp_all add: get_law scan_law\<close>)
  then show "fst (engine_step E c e) = fst (engine_step memory_engine c (contents e))"
    and "contents (snd (engine_step E c e)) = snd (engine_step memory_engine c (contents e))"
    and "invar (snd (engine_step E c e))"
    by blast+
qed

lemma run_as_memory:
  assumes "invar e"
  shows "fst (engine_run E cs e) = fst (engine_run memory_engine cs (contents e)) \<and>
    contents (snd (engine_run E cs e)) = snd (engine_run memory_engine cs (contents e))"
  using assms
proof (induction cs arbitrary: e)
  case (Cons c cs)
  note step = step_as_memory [OF Cons.prems, of c]
  show ?case
    using Cons.IH [OF step(3)] step by (simp add: case_prod_beta)
qed simp

end

interpretation mem: kv_engine memory_engine "\<lambda>m. m" bt_wf
  by unfold_locales
    (simp_all add: memory_engine_def mem_delete_def mem_flush_def mem_get_def mem_scan_def mem_set_def)

end
