(* ===== verification/BitCask.thy ===== *)
theory BitCask
  imports Engine
begin

text \<open>
  \<^verbatim>\<open>src/storage/bitcask.rs\<close>: the log-structured engine. The log file is its bytes; every read
  and write of the source first seeks to an absolute position, so the file position is not part
  of the state. The operating system's own failures (a full disk, a lock held by another process)
  are not modelled, a read past the end of the file is. The theory interprets the engine contract
  for BitCask, and proves that reopening a log, also one cut off at any byte, restores the state
  after a prefix of its writes, and that compaction keeps the data and drops all garbage.
\<close>

section \<open>The log file\<close>

record value_location =
  vl_offset :: nat
  vl_length :: nat

type_synonym keydir = "(bytes, value_location) btree"

definition vl_end :: "value_location \<Rightarrow> nat" where
  "vl_end l = vl_offset l + vl_length l"

text \<open>
  An entry: the key length as \<^verbatim>\<open>u32\<close>, the value length as \<^verbatim>\<open>i32\<close> with \<open>-1\<close> for a tombstone, the
  key and the value. The casts \<^verbatim>\<open>as u32\<close> and \<^verbatim>\<open>as i32\<close> keep the low 32 bits.
\<close>

definition encode_entry :: "bytes \<Rightarrow> bytes option \<Rightarrow> bytes" where
  "encode_entry key v =
     be_bytes 4 (length key mod 2 ^ 32) @
     be_bytes 4 (case v of None \<Rightarrow> 2 ^ 32 - 1 | Some b \<Rightarrow> length b mod 2 ^ 32) @
     key @ (case v of None \<Rightarrow> [] | Some b \<Rightarrow> b)"

definition write_entry :: "bytes \<Rightarrow> bytes option \<Rightarrow> (bytes, value_location) op" where
  "write_entry key v file =
     (Ok \<lparr>vl_offset = length file + 8 + length key,
          vl_length = (case v of None \<Rightarrow> 0 | Some b \<Rightarrow> length b)\<rparr>,
      file @ encode_entry key v)"

definition read_exact :: "nat \<Rightarrow> bytes \<Rightarrow> nat \<Rightarrow> bytes option" where
  "read_exact n file pos = (if pos + n \<le> length file then Some (take n (drop pos file)) else None)"

definition read_value :: "bytes \<Rightarrow> value_location \<Rightarrow> bytes result" where
  "read_value file l =
     (case read_exact (vl_length l) file (vl_offset l) of
        None \<Rightarrow> Err (IO ''failed to fill whole buffer'')
      | Some v \<Rightarrow> Ok v)"

text \<open>
  The closure inside \<^verbatim>\<open>build_keydir\<close>: the entry at an offset and the offset after it, or \<open>None\<close>
  for an unexpected end of file.
\<close>

definition read_entry :: "bytes \<Rightarrow> nat \<Rightarrow> (bytes \<times> value_location option \<times> nat) option" where
  "read_entry file offset =
     Option.bind (read_exact 4 file offset) (\<lambda>kl.
     Option.bind (read_exact 4 file (offset + 4)) (\<lambda>vl.
     let key_len = be_nat kl;
         value_loc = (if 2 ^ 31 \<le> be_nat vl then None
                      else Some \<lparr>vl_offset = offset + 8 + key_len, vl_length = be_nat vl\<rparr>)
     in Option.bind (read_exact key_len file (offset + 8)) (\<lambda>key.
        case value_loc of
          Some l \<Rightarrow>
            if vl_end l > length file then None
            else Some (key, Some l, offset + 8 + key_len + vl_length l)
        | None \<Rightarrow> Some (key, None, offset + 8 + key_len))))"

lemma read_entry_progress: "read_entry file offset = Some (key, l, next) \<Longrightarrow> offset < next"
  by (auto simp: read_entry_def Let_def bind_eq_Some_conv split: if_splits option.splits)

text \<open>The scan of the whole file. A torn entry ends it, and the file is truncated there.\<close>

function build_keydir :: "bytes \<Rightarrow> nat \<Rightarrow> keydir \<Rightarrow> keydir \<times> bytes" where
  "build_keydir file offset kd =
     (if offset < length file then
        (case read_entry file offset of
           Some (key, Some l, next) \<Rightarrow> build_keydir file next (bt_insert key l kd)
         | Some (key, None, next) \<Rightarrow> build_keydir file next (bt_remove key kd)
         | None \<Rightarrow> (kd, take offset file))
      else (kd, file))"
  by pat_completeness auto
termination
  by (relation "measure (\<lambda>(file, offset, kd). length file - offset)")
    (auto dest: read_entry_progress)

declare build_keydir.simps [simp del]

section \<open>The engine\<close>

record bitcask =
  bc_log :: bytes
  bc_keydir :: keydir

definition bitcask_new :: "bytes \<Rightarrow> bitcask" where
  "bitcask_new file = (case build_keydir file 0 [] of (kd, file') \<Rightarrow> \<lparr>bc_log = file', bc_keydir = kd\<rparr>)"

definition bc_delete :: "bytes \<Rightarrow> (bitcask, unit) op" where
  "bc_delete key s =
     (case write_entry key None (bc_log s) of
        (Ok _, file) \<Rightarrow> (Ok (), \<lparr>bc_log = file, bc_keydir = bt_remove key (bc_keydir s)\<rparr>)
      | (Err e, file) \<Rightarrow> (Err e, s\<lparr>bc_log := file\<rparr>)
      | (Panic p, file) \<Rightarrow> (Panic p, s\<lparr>bc_log := file\<rparr>))"

definition bc_flush :: "(bitcask, unit) op" where
  "bc_flush s = (Ok (), s)"

definition bc_get :: "bytes \<Rightarrow> bitcask \<Rightarrow> bytes option result" where
  "bc_get key s =
     (case map_of (bc_keydir s) key of
        None \<Rightarrow> Ok None
      | Some l \<Rightarrow> rbind (read_value (bc_log s) l) (\<lambda>v. Ok (Some v)))"

definition bc_scan :: "brange \<Rightarrow> bitcask \<Rightarrow> (bytes \<times> bytes) result list result" where
  "bc_scan r s =
     rbind (bt_range r (bc_keydir s)) (\<lambda>items.
       Ok (map (\<lambda>(key, l). rbind (read_value (bc_log s) l) (\<lambda>v. Ok (key, v))) items))"

definition bc_set :: "bytes \<Rightarrow> bytes \<Rightarrow> (bitcask, unit) op" where
  "bc_set key v s =
     (case write_entry key (Some v) (bc_log s) of
        (Ok l, file) \<Rightarrow> (Ok (), \<lparr>bc_log = file, bc_keydir = bt_insert key l (bc_keydir s)\<rparr>)
      | (Err e, file) \<Rightarrow> (Err e, s\<lparr>bc_log := file\<rparr>)
      | (Panic p, file) \<Rightarrow> (Panic p, s\<lparr>bc_log := file\<rparr>))"

definition bc_status :: "bitcask \<Rightarrow> status result" where
  "bc_status s =
     (let keys = length (bc_keydir s);
          sz = sum_list (map (\<lambda>(key, l). length key + vl_length l) (bc_keydir s))
      in Ok \<lparr>st_name = ''bitcask'', st_keys = keys, st_size = sz,
             st_disk_size = length (bc_log s), st_live_disk_size = sz + 8 * keys\<rparr>)"

fun compact_entries :: "bytes \<Rightarrow> keydir \<Rightarrow> bytes \<Rightarrow> keydir \<Rightarrow> (bytes \<times> keydir) result" where
  "compact_entries file [] new_file new_kd = Ok (new_file, new_kd)"
| "compact_entries file ((key, l) # kd) new_file new_kd =
     rbind (read_value file l) (\<lambda>v.
       case write_entry key (Some v) new_file of
         (Ok l', new_file') \<Rightarrow> compact_entries file kd new_file' (bt_insert key l' new_kd)
       | (Err e, _) \<Rightarrow> Err e
       | (Panic p, _) \<Rightarrow> Panic p)"

definition compact :: "(bitcask, unit) op" where
  "compact s =
     (case compact_entries (bc_log s) (bc_keydir s) [] [] of
        Ok (file, kd) \<Rightarrow> (Ok (), \<lparr>bc_log = file, bc_keydir = kd\<rparr>)
      | Err e \<Rightarrow> (Err e, s)
      | Panic p \<Rightarrow> (Panic p, s))"

text \<open>
  \<^verbatim>\<open>new_maybe_compact\<close>: the floating-point test of the garbage fraction is the parameter
  \<open>fraction_ok\<close>, a function of the garbage size and the total size.
\<close>

definition new_maybe_compact :: "(nat \<Rightarrow> nat \<Rightarrow> bool) \<Rightarrow> nat \<Rightarrow> bytes \<Rightarrow> bitcask result" where
  "new_maybe_compact fraction_ok garbage_min_bytes file =
     (let engine = bitcask_new file
      in rbind (bc_status engine) (\<lambda>st.
         let garbage = garbage_disk_size st
         in if garbage > 0 \<and> garbage \<ge> garbage_min_bytes \<and> fraction_ok garbage (st_disk_size st)
            then (case compact engine of
                    (Ok _, engine') \<Rightarrow> Ok engine'
                  | (Err e, _) \<Rightarrow> Err e
                  | (Panic p, _) \<Rightarrow> Panic p)
            else Ok engine))"

definition bitcask_engine :: "bitcask engine_ops" where
  "bitcask_engine = \<lparr>e_delete = bc_delete, e_flush = bc_flush, e_get = bc_get,
     e_scan = bc_scan, e_set = bc_set, e_status = bc_status\<rparr>"

section \<open>The engine contract\<close>

definition bc_value :: "bytes \<Rightarrow> value_location \<Rightarrow> bytes" where
  "bc_value file l = take (vl_length l) (drop (vl_offset l) file)"

definition bc_contents :: "bitcask \<Rightarrow> (bytes, bytes) btree" where
  "bc_contents s = map (\<lambda>(key, l). (key, bc_value (bc_log s) l)) (bc_keydir s)"

definition bc_invar :: "bitcask \<Rightarrow> bool" where
  "bc_invar s = (bt_wf (bc_keydir s) \<and> (\<forall>(key, l) \<in> set (bc_keydir s). vl_end l \<le> length (bc_log s)))"

lemma bt_wf_map_values [simp]: "bt_wf (map (\<lambda>(k, l). (k, f l)) m) \<longleftrightarrow> bt_wf m"
  by (simp add: bt_wf_def comp_def case_prod_beta)

lemma map_values_insert: "map (\<lambda>(k, l). (k, f l)) (bt_insert key x m) = bt_insert key (f x) (map (\<lambda>(k, l). (k, f l)) m)"
  by (induction m) auto

lemma map_values_remove: "map (\<lambda>(k, l). (k, f l)) (bt_remove key m) = bt_remove key (map (\<lambda>(k, l). (k, f l)) m)"
  by (induction m) (auto simp: bt_remove_def)

lemma map_values_filter:
  "filter (\<lambda>e. P (fst e)) (map (\<lambda>(k, l). (k, f l)) m) = map (\<lambda>(k, l). (k, f l)) (filter (\<lambda>e. P (fst e)) m)"
  by (induction m) auto

lemma map_of_map_values: "map_of (map (\<lambda>(k, l). (k, f l)) m) k = map_option f (map_of m k)"
  by (induction m) auto

lemma read_value_Ok: "vl_end l \<le> length file \<Longrightarrow> read_value file l = Ok (bc_value file l)"
  by (simp add: read_value_def read_exact_def bc_value_def vl_end_def)

lemma bc_value_append [simp]: "vl_end l \<le> length file \<Longrightarrow> bc_value (file @ x) l = bc_value file l"
  by (simp add: bc_value_def vl_end_def)

lemma length_encode_entry [simp]:
  "length (encode_entry key v) = 8 + length key + (case v of None \<Rightarrow> 0 | Some b \<Rightarrow> length b)"
  by (simp add: encode_entry_def split: option.splits)

lemma bc_value_written:
  "bc_value (file @ encode_entry key (Some v) @ rest)
     \<lparr>vl_offset = length file + 8 + length key, vl_length = length v\<rparr> = v"
  by (simp add: bc_value_def encode_entry_def)

lemma set_bt_insert: "x \<in> set (bt_insert k v m) \<Longrightarrow> x = (k, v) \<or> x \<in> set m"
  by (induction m) (auto split: if_splits)

lemma set_bt_remove: "x \<in> set (bt_remove k m) \<Longrightarrow> x \<in> set m"
  by (simp add: bt_remove_def)

lemma bc_contents_append:
  assumes "bc_invar s"
  shows "map (\<lambda>(key, l). (key, bc_value (bc_log s @ x) l)) (bc_keydir s) = bc_contents s"
  unfolding bc_contents_def using assms by (intro map_cong) (auto simp: bc_invar_def)

lemma bc_set_law:
  assumes "bc_invar s"
  shows "\<exists>s'. bc_set k v s = (Ok (), s') \<and> bc_invar s' \<and> bc_contents s' = bt_insert k v (bc_contents s)"
proof -
  let ?file = "bc_log s @ encode_entry k (Some v)"
  let ?l = "\<lparr>vl_offset = length (bc_log s) + 8 + length k, vl_length = length v\<rparr>"
  have "bc_value ?file ?l = v"
    using bc_value_written [of "bc_log s" k v "[]"] by simp
  then have "map (\<lambda>(key, l). (key, bc_value ?file l)) (bt_insert k ?l (bc_keydir s)) = bt_insert k v (bc_contents s)"
    by (simp only: map_values_insert bc_contents_append [OF assms])
  moreover have "bc_invar \<lparr>bc_log = ?file, bc_keydir = bt_insert k ?l (bc_keydir s)\<rparr>"
    using assms by (auto simp: bc_invar_def vl_end_def dest!: set_bt_insert)
  ultimately show ?thesis
    by (simp add: bc_set_def write_entry_def bc_contents_def)
qed

lemma bc_delete_law:
  assumes "bc_invar s"
  shows "\<exists>s'. bc_delete k s = (Ok (), s') \<and> bc_invar s' \<and> bc_contents s' = bt_remove k (bc_contents s)"
proof -
  let ?file = "bc_log s @ encode_entry k None"
  have "map (\<lambda>(key, l). (key, bc_value ?file l)) (bt_remove k (bc_keydir s)) = bt_remove k (bc_contents s)"
    by (simp only: map_values_remove bc_contents_append [OF assms])
  moreover have "bc_invar \<lparr>bc_log = ?file, bc_keydir = bt_remove k (bc_keydir s)\<rparr>"
    using assms by (auto simp: bc_invar_def dest!: set_bt_remove)
  ultimately show ?thesis
    by (simp add: bc_delete_def write_entry_def bc_contents_def)
qed

lemma bc_get_law:
  assumes "bc_invar s"
  shows "bc_get k s = Ok (map_of (bc_contents s) k)"
proof (cases "map_of (bc_keydir s) k")
  case (Some l)
  then have "vl_end l \<le> length (bc_log s)"
    using assms map_of_SomeD [OF Some] by (auto simp: bc_invar_def)
  with Some show ?thesis
    by (simp add: bc_get_def bc_contents_def map_of_map_values read_value_Ok)
qed (simp add: bc_get_def bc_contents_def map_of_map_values)

lemma bc_scan_law:
  assumes "bc_invar s"
  shows "bc_scan r s = rbind (bt_range r (bc_contents s)) (\<lambda>m. Ok (map Ok m))"
proof -
  have "rbind (read_value (bc_log s) l) (\<lambda>v. Ok (key, v)) = Ok (key, bc_value (bc_log s) l)"
    if "(key, l) \<in> set (bc_keydir s)" for key l
    using that assms by (fastforce simp: bc_invar_def read_value_Ok)
  then show ?thesis
    by (simp add: bc_scan_def bt_range_def bc_contents_def map_values_filter)
qed

interpretation bc: kv_engine bitcask_engine bc_contents bc_invar
  by unfold_locales
    (simp_all add: bitcask_engine_def bc_set_law bc_delete_law bc_get_law bc_scan_law bc_flush_def,
      simp add: bc_invar_def bc_contents_def)

section \<open>Replaying a log\<close>

text \<open>
  \<open>log_of es\<close> is the file after the writes \<open>es\<close>, \<open>replay\<close> the key directory they leave, and
  \<open>apply_writes\<close> what they mean for the stored map. A write fits when the two length fields can
  hold its sizes.
\<close>

type_synonym bc_write = "bytes \<times> bytes option"

definition fits :: "bc_write \<Rightarrow> bool" where
  "fits e = (length (fst e) < 2 ^ 32 \<and> (case snd e of None \<Rightarrow> True | Some v \<Rightarrow> length v < 2 ^ 31))"

definition log_of :: "bc_write list \<Rightarrow> bytes" where
  "log_of es = concat (map (\<lambda>(key, v). encode_entry key v) es)"

definition replay_step :: "nat \<Rightarrow> bc_write \<Rightarrow> keydir \<Rightarrow> keydir" where
  "replay_step offset e kd =
     (case snd e of
        None \<Rightarrow> bt_remove (fst e) kd
      | Some v \<Rightarrow> bt_insert (fst e)
          \<lparr>vl_offset = offset + 8 + length (fst e), vl_length = length v\<rparr> kd)"

fun replay :: "nat \<Rightarrow> keydir \<Rightarrow> bc_write list \<Rightarrow> keydir" where
  "replay offset kd [] = kd"
| "replay offset kd (e # es) =
     replay (offset + length (encode_entry (fst e) (snd e))) (replay_step offset e kd) es"

definition apply_write :: "bc_write \<Rightarrow> (bytes, bytes) btree \<Rightarrow> (bytes, bytes) btree" where
  "apply_write e m = (case snd e of None \<Rightarrow> bt_remove (fst e) m | Some v \<Rightarrow> bt_insert (fst e) v m)"

definition apply_writes :: "bc_write list \<Rightarrow> (bytes, bytes) btree" where
  "apply_writes es = fold apply_write es []"

lemma log_of_simps [simp]:
  "log_of [] = []" "log_of (e # es) = encode_entry (fst e) (snd e) @ log_of es"
  "log_of (es @ es') = log_of es @ log_of es'"
  by (simp_all add: log_of_def case_prod_beta)

lemma read_exact_at [simp]:
  "length pre = pos \<Longrightarrow> n \<le> length x \<Longrightarrow> read_exact n (pre @ x) pos = Some (take n x)"
  by (simp add: read_exact_def)

lemma be_nat_take_length: "x < 256 ^ n \<Longrightarrow> be_nat (take n (be_bytes n x @ r)) = x"
  by simp

lemma read_entry_encoded:
  assumes "fits e"
  shows "read_entry (pre @ encode_entry (fst e) (snd e) @ rest) (length pre) =
    Some (fst e,
      (case snd e of None \<Rightarrow> None
       | Some v \<Rightarrow> Some \<lparr>vl_offset = length pre + 8 + length (fst e), vl_length = length v\<rparr>),
      length pre + length (encode_entry (fst e) (snd e)))"
proof -
  obtain key v where e: "e = (key, v)" by (cases e)
  let ?v = "case v of None \<Rightarrow> 2 ^ 32 - 1 | Some b \<Rightarrow> length b"
  let ?b = "case v of None \<Rightarrow> [] | Some b \<Rightarrow> b"
  have v: "?v < 256 ^ 4" "length key < 256 ^ 4"
    using assms e by (auto simp: fits_def split: option.splits)
  have enc: "encode_entry key v = be_bytes 4 (length key) @ be_bytes 4 ?v @ key @ ?b"
    using assms e by (auto simp: encode_entry_def fits_def split: option.splits)
  let ?file = "pre @ encode_entry key v @ rest"
  have kl: "read_exact 4 ?file (length pre) = Some (be_bytes 4 (length key))"
    by (simp add: enc)
  have vl: "read_exact 4 ?file (length pre + 4) = Some (be_bytes 4 ?v)"
    using read_exact_at [of "pre @ be_bytes 4 (length key)" "length pre + 4" 4
        "be_bytes 4 ?v @ key @ ?b @ rest"]
    by (simp add: enc)
  have ky: "read_exact (length key) ?file (length pre + 8) = Some key"
    using read_exact_at [of "pre @ be_bytes 4 (length key) @ be_bytes 4 ?v" "length pre + 8" "length key"
        "key @ ?b @ rest"]
    by (simp add: enc)
  show ?thesis
    using assms v by (auto simp: e read_entry_def kl vl ky Let_def vl_end_def fits_def simp del: be_bytes.simps
        split: option.splits)
qed

lemma build_keydir_at_end: "build_keydir file (length file) kd = (kd, file)"
  by (simp add: build_keydir.simps)

lemma build_keydir_step:
  assumes "fits e"
  shows "build_keydir (pre @ encode_entry (fst e) (snd e) @ rest) (length pre) kd =
    build_keydir (pre @ encode_entry (fst e) (snd e) @ rest)
      (length pre + length (encode_entry (fst e) (snd e))) (replay_step (length pre) e kd)"
  using read_entry_encoded [OF assms, of pre rest]
  by (subst build_keydir.simps) (auto simp: replay_step_def split: option.splits)

text \<open>Complete entries are replayed; what follows is scanned from the resulting directory.\<close>

lemma build_keydir_entries:
  assumes "\<forall>e \<in> set es. fits e"
  shows "build_keydir (pre @ log_of es @ rest) (length pre) kd =
    build_keydir (pre @ log_of es @ rest) (length pre + length (log_of es)) (replay (length pre) kd es)"
  using assms
proof (induction es arbitrary: pre kd)
  case (Cons e es)
  let ?x = "encode_entry (fst e) (snd e)"
  have "build_keydir (pre @ log_of (e # es) @ rest) (length pre) kd =
      build_keydir ((pre @ ?x) @ log_of es @ rest) (length (pre @ ?x)) (replay_step (length pre) e kd)"
    using build_keydir_step [of e pre "log_of es @ rest" kd] Cons.prems by (simp del: length_encode_entry)
  also have "\<dots> = build_keydir ((pre @ ?x) @ log_of es @ rest) (length (pre @ ?x) + length (log_of es))
      (replay (length (pre @ ?x)) (replay_step (length pre) e kd) es)"
    using Cons by (intro Cons.IH) simp
  finally show ?case
    by (simp add: add.assoc del: length_encode_entry)
qed simp

lemma read_exact_torn:
  "m \<le> length x \<Longrightarrow> read_exact n (pre @ take m x) (length pre + k) =
     (if k + n \<le> m then Some (take n (drop k x)) else None)"
  by (auto simp: read_exact_def drop_take take_take min_def)

lemma read_entry_torn:
  assumes "fits e" "m < length (encode_entry (fst e) (snd e))"
  shows "read_entry (pre @ take m (encode_entry (fst e) (snd e))) (length pre) = None"
proof -
  obtain key v where e: "e = (key, v)" by (cases e)
  let ?v = "case v of None \<Rightarrow> 2 ^ 32 - 1 | Some b \<Rightarrow> length b"
  let ?b = "case v of None \<Rightarrow> [] | Some b \<Rightarrow> b"
  have v: "?v < 256 ^ 4" "length key < 256 ^ 4"
    using assms e by (auto simp: fits_def split: option.splits)
  have enc: "encode_entry key v = be_bytes 4 (length key) @ be_bytes 4 ?v @ key @ ?b"
    using assms e by (auto simp: encode_entry_def fits_def split: option.splits)
  let ?x = "take m (encode_entry key v)"
  have len: "length ?x = m" and m: "m \<le> length (encode_entry key v)"
    using assms e by simp_all
  have kl: "read_exact 4 (pre @ ?x) (length pre) = (if 4 \<le> m then Some (be_bytes 4 (length key)) else None)"
    using read_exact_torn [OF m, of 4 pre 0] by (simp only: enc) simp
  have vl: "read_exact 4 (pre @ ?x) (length pre + 4) = (if 8 \<le> m then Some (be_bytes 4 ?v) else None)"
    using read_exact_torn [OF m, of 4 pre 4] by (simp only: enc) simp
  have ky: "read_exact (length key) (pre @ ?x) (length pre + 8) = (if 8 + length key \<le> m then Some key else None)"
    using read_exact_torn [OF m, of "length key" pre 8] by (simp only: enc) simp
  show ?thesis
    using assms v len
    by (auto simp: e read_entry_def kl vl ky Let_def vl_end_def fits_def simp del: be_bytes.simps length_take
        split: option.splits)
qed

section \<open>States that come from writes\<close>

definition bc_writes :: "bc_write list \<Rightarrow> (bitcask, unit) op" where
  "bc_writes es = sfor es (\<lambda>(k, v). case v of None \<Rightarrow> bc_delete k | Some b \<Rightarrow> bc_set k b)"

definition state_of :: "bc_write list \<Rightarrow> bitcask" where
  "state_of es = \<lparr>bc_log = log_of es, bc_keydir = replay 0 [] es\<rparr>"

lemma replay_append:
  "replay n kd (es @ [e]) = replay_step (n + length (log_of es)) e (replay n kd es)"
  by (induction es arbitrary: n kd) (simp_all add: add.assoc)

lemma bc_set_state_of: "bc_set k v (state_of es) = (Ok (), state_of (es @ [(k, Some v)]))"
  by (simp add: bc_set_def state_of_def write_entry_def replay_append replay_step_def)

lemma bc_delete_state_of: "bc_delete k (state_of es) = (Ok (), state_of (es @ [(k, None)]))"
  by (simp add: bc_delete_def state_of_def write_entry_def replay_append replay_step_def)

lemma state_of_contents: "bc_invar (state_of es) \<and> bc_contents (state_of es) = apply_writes es"
proof (induction es rule: rev_induct)
  case Nil
  show ?case by (simp add: state_of_def bc_invar_def bc_contents_def apply_writes_def)
next
  case (snoc e es)
  obtain k v where e: "e = (k, v)" by (cases e)
  show ?case
  proof (cases v)
    case None
    then show ?thesis
      using bc_delete_law [of "state_of es" k] snoc e
      by (simp add: bc_delete_state_of apply_writes_def apply_write_def)
  next
    case (Some b)
    then show ?thesis
      using bc_set_law [of "state_of es" k b] snoc e
      by (simp add: bc_set_state_of apply_writes_def apply_write_def)
  qed
qed

lemma bitcask_new_empty: "bitcask_new [] = state_of []"
  by (simp add: bitcask_new_def build_keydir.simps state_of_def)

lemma bc_writes_state_of: "bc_writes es (state_of es0) = (Ok (), state_of (es0 @ es))"
proof (induction es arbitrary: es0)
  case (Cons e es)
  obtain k v where "e = (k, v)" by (cases e)
  with Cons [of "es0 @ [e]"] show ?case
    by (cases v) (simp_all add: bc_writes_def sbind_def bc_set_state_of bc_delete_state_of)
qed (simp add: bc_writes_def)

lemma bc_writes_new: "bc_writes es (bitcask_new []) = (Ok (), state_of es)"
  using bc_writes_state_of [of es "[]"] by (simp add: bitcask_new_empty)

lemma longest_prefix:
  assumes "n \<le> length (log_of es)"
  shows "\<exists>es1 es2 m. es = es1 @ es2 \<and> n = length (log_of es1) + m \<and>
    (es2 = [] \<and> m = 0 \<or> (\<exists>e es3. es2 = e # es3 \<and> m < length (encode_entry (fst e) (snd e))))"
  using assms
proof (induction es arbitrary: n)
  case (Cons e es)
  let ?l = "length (encode_entry (fst e) (snd e))"
  show ?case
  proof (cases "n < ?l")
    case True
    then show ?thesis
      by (intro exI [of _ "[]"] exI [of _ "e # es"] exI [of _ n]) simp
  next
    case False
    with Cons.prems have "n - ?l \<le> length (log_of es)" by (simp del: length_encode_entry)
    from Cons.IH [OF this] obtain es1 es2 m where "es = es1 @ es2" "n - ?l = length (log_of es1) + m"
      "es2 = [] \<and> m = 0 \<or> (\<exists>e es3. es2 = e # es3 \<and> m < length (encode_entry (fst e) (snd e)))"
      by blast
    with False show ?thesis
      by (intro exI [of _ "e # es1"] exI [of _ es2] exI [of _ m]) (auto simp del: length_encode_entry)
  qed
qed simp

lemma bitcask_new_prefix:
  assumes "\<forall>e \<in> set es. fits e" "n \<le> length (log_of es)"
  obtains es1 es2 where "es = es1 @ es2" "length (log_of es1) \<le> n"
    "es2 = [] \<or> n < length (log_of (es1 @ [hd es2]))"
    "bitcask_new (take n (log_of es)) = state_of es1"
proof -
  obtain es1 es2 m where es: "es = es1 @ es2" "n = length (log_of es1) + m"
    and tail: "es2 = [] \<and> m = 0 \<or> (\<exists>e es3. es2 = e # es3 \<and> m < length (encode_entry (fst e) (snd e)))"
    using longest_prefix [OF assms(2)] by blast
  let ?rest = "take m (log_of es2)"
  have cut: "take n (log_of es) = log_of es1 @ ?rest"
    using es by simp
  have scan: "build_keydir (take n (log_of es)) 0 [] =
      build_keydir (log_of es1 @ ?rest) (length (log_of es1)) (replay 0 [] es1)"
    using build_keydir_entries [of es1 "[]" ?rest "[]"] assms(1) es cut by simp
  have "build_keydir (log_of es1 @ ?rest) (length (log_of es1)) (replay 0 [] es1) =
      (replay 0 [] es1, log_of es1)"
  proof (cases "m = 0")
    case True
    then show ?thesis by (simp add: build_keydir_at_end)
  next
    case False
    with tail obtain e es3 where e: "es2 = e # es3" "m < length (encode_entry (fst e) (snd e))" by blast
    then have "?rest = take m (encode_entry (fst e) (snd e))"
      by (simp del: length_encode_entry)
    moreover have "fits e" using assms(1) es e by simp
    ultimately have "read_entry (log_of es1 @ ?rest) (length (log_of es1)) = None"
      using read_entry_torn [of e m "log_of es1"] e by simp
    then show ?thesis
      using False e by (subst build_keydir.simps) (auto simp del: length_encode_entry)
  qed
  with scan have "bitcask_new (take n (log_of es)) = state_of es1"
    by (simp add: bitcask_new_def state_of_def)
  with that es tail show ?thesis
    by (metis (no_types, lifting) add_less_cancel_left length_append le_add1 list.sel(1) log_of_simps(1,2,3)
        append_Nil2)
qed

section \<open>Compaction\<close>

definition live_writes :: "(bytes, bytes) btree \<Rightarrow> bc_write list" where
  "live_writes m = map (\<lambda>(k, v). (k, Some v)) m"

lemma compact_entries_state:
  assumes "\<forall>(key, l) \<in> set kd. vl_end l \<le> length file"
  shows "compact_entries file kd (log_of es) (replay 0 [] es) =
    Ok (log_of (es @ live_writes (map (\<lambda>(key, l). (key, bc_value file l)) kd)),
        replay 0 [] (es @ live_writes (map (\<lambda>(key, l). (key, bc_value file l)) kd)))"
  using assms
proof (induction kd arbitrary: es)
  case Nil
  show ?case by (simp add: live_writes_def)
next
  case (Cons x kd)
  obtain key l where x: "x = (key, l)" by (cases x)
  have "write_entry key (Some (bc_value file l)) (log_of es) =
      (Ok \<lparr>vl_offset = length (log_of es) + 8 + length key, vl_length = length (bc_value file l)\<rparr>,
       log_of (es @ [(key, Some (bc_value file l))]))"
    by (simp add: write_entry_def)
  moreover have "bt_insert key \<lparr>vl_offset = length (log_of es) + 8 + length key,
      vl_length = length (bc_value file l)\<rparr> (replay 0 [] es) = replay 0 [] (es @ [(key, Some (bc_value file l))])"
    by (simp add: replay_append replay_step_def)
  ultimately show ?case
    using Cons.IH [of "es @ [(key, Some (bc_value file l))]"] Cons.prems x
    by (simp add: read_value_Ok live_writes_def)
qed

lemma compact_state:
  assumes "bc_invar s"
  shows "compact s = (Ok (), state_of (live_writes (bc_contents s)))"
  using compact_entries_state [of "bc_keydir s" "bc_log s" "[]"] assms
  by (simp add: compact_def bc_invar_def bc_contents_def state_of_def)

lemma fold_live_writes:
  assumes "bt_wf (m @ m')"
  shows "fold apply_write (live_writes m') m = m @ m'"
  using assms
proof (induction m' arbitrary: m)
  case (Cons x m')
  obtain k v where x: "x = (k, v)" by (cases x)
  have "bt_insert k v m = m @ [(k, v)]"
    using Cons.prems x
  proof (induction m)
    case (Cons e m)
    then show ?case by (auto simp: bt_wf_def)
  qed simp
  then show ?case
    using Cons.IH [of "m @ [x]"] Cons.prems x by (simp add: live_writes_def apply_write_def)
qed (simp add: live_writes_def)

lemma apply_live_writes: "bt_wf m \<Longrightarrow> apply_writes (live_writes m) = m"
  using fold_live_writes [of "[]" m] by (simp add: apply_writes_def)

section \<open>Sizes\<close>

definition live_size :: "(bytes, bytes) btree \<Rightarrow> nat" where
  "live_size m = sum_list (map (\<lambda>(k, v). length k + length v + 8) m)"

lemma bc_status_live_size:
  assumes "bc_invar s"
  shows "bc_status s = Ok st \<Longrightarrow> st_live_disk_size st = live_size (bc_contents s)"
proof -
  have "sum_list (map (\<lambda>(key, l). length key + vl_length l) kd) + 8 * length kd =
      live_size (map (\<lambda>(key, l). (key, bc_value (bc_log s) l)) kd)"
    if "set kd \<subseteq> set (bc_keydir s)" for kd
    using that
  proof (induction kd)
    case (Cons x kd)
    then have "length (bc_value (bc_log s) (snd x)) = vl_length (snd x)"
      using assms by (auto simp: bc_invar_def bc_value_def vl_end_def)
    with Cons show ?case by (auto simp: live_size_def case_prod_beta)
  qed (simp add: live_size_def)
  from this [of "bc_keydir s"]
  show "bc_status s = Ok st \<Longrightarrow> st_live_disk_size st = live_size (bc_contents s)"
    by (auto simp: bc_status_def Let_def bc_contents_def)
qed

lemma live_size_Cons: "live_size (x # m) = length (fst x) + length (snd x) + 8 + live_size m"
  by (simp add: live_size_def case_prod_beta)

lemma live_size_insert: "live_size (bt_insert k v m) \<le> live_size m + length k + length v + 8"
  by (induction m) (auto simp: live_size_Cons live_size_def)

lemma live_size_remove: "live_size (bt_remove k m) \<le> live_size m"
  by (induction m) (auto simp: live_size_Cons live_size_def bt_remove_def)

lemma live_size_le_log: "live_size (apply_writes es) \<le> length (log_of es)"
proof (induction es rule: rev_induct)
  case (snoc e es)
  show ?case
    using snoc live_size_insert [of "fst e" _ "apply_writes es"] live_size_remove [of "fst e" "apply_writes es"]
    by (cases "snd e") (fastforce simp: apply_writes_def apply_write_def intro: order_trans)+
qed (simp add: apply_writes_def live_size_def)

lemma live_size_eq_log: "length (log_of (live_writes m)) = live_size m"
  by (induction m) (auto simp: live_writes_def live_size_def)

section \<open>Properties\<close>

text \<open>
  Property C3. A client that makes any sequence of engine calls (set, delete, get, scan, flush)
  on a new BitCask database gets the same answers as from the in-memory engine, and the two hold
  the same ordered map at the end.
\<close>

theorem bitcask_equals_memory:
  "fst (engine_run bitcask_engine cs (bitcask_new [])) = fst (engine_run memory_engine cs []) \<and>
   bc_contents (snd (engine_run bitcask_engine cs (bitcask_new []))) = snd (engine_run memory_engine cs [])"
  using bc.run_as_memory [of "bitcask_new []" cs] state_of_contents [of "[]"]
  by (simp add: bitcask_new_empty apply_writes_def)

text \<open>
  Property C4. Crash recovery: cut the log of any sequence of (size-limited) writes at any byte
  and reopen it. The database then equals the one after some prefix of the writes, the longest
  prefix whose entries are complete in the remaining file, and the torn tail is gone.
\<close>

theorem bitcask_recovers:
  assumes "\<forall>e \<in> set es. fits e"
    and "bc_writes es (bitcask_new []) = (Ok (), s)" and "n \<le> length (bc_log s)"
  shows "\<exists>es1 es2 s1. es = es1 @ es2 \<and> bc_writes es1 (bitcask_new []) = (Ok (), s1) \<and>
    bitcask_new (take n (bc_log s)) = s1 \<and> length (bc_log s1) \<le> n \<and>
    (es2 = [] \<or> n < length (bc_log (snd (bc_writes (es1 @ [hd es2]) (bitcask_new [])))))"
proof -
  have s: "bc_log s = log_of es"
    using assms(2) by (auto simp: bc_writes_new state_of_def)
  then obtain es1 es2 where "es = es1 @ es2" "length (log_of es1) \<le> n"
    "es2 = [] \<or> n < length (log_of (es1 @ [hd es2]))" "bitcask_new (take n (log_of es)) = state_of es1"
    using bitcask_new_prefix [OF assms(1)] assms(3) by metis
  then show ?thesis
    by (intro exI [of _ es1] exI [of _ es2] exI [of _ "state_of es1"])
      (simp add: bc_writes_new s state_of_def)
qed

text \<open>
  Property C5. Compaction succeeds on every consistent database, keeps exactly the stored map,
  and leaves no garbage: the file then holds just the live entries.
\<close>

theorem compact_correct:
  assumes "bc_invar s"
  shows "\<exists>s' st. compact s = (Ok (), s') \<and> bc_invar s' \<and> bc_contents s' = bc_contents s \<and>
    bc_status s' = Ok st \<and> st_disk_size st = st_live_disk_size st \<and> garbage_disk_size st = 0"
proof -
  let ?s = "state_of (live_writes (bc_contents s))"
  have c: "compact s = (Ok (), ?s)"
    by (rule compact_state [OF assms])
  have "bt_wf (bc_contents s)"
    using assms by (simp add: bc_invar_def bc_contents_def)
  then have m: "bc_invar ?s" "bc_contents ?s = bc_contents s"
    using state_of_contents [of "live_writes (bc_contents s)"] apply_live_writes by auto
  obtain st where st: "bc_status ?s = Ok st" "st_disk_size st = length (bc_log ?s)"
    by (simp add: bc_status_def Let_def)
  then have "st_disk_size st = st_live_disk_size st"
    using bc_status_live_size [OF m(1) st(1)] m(2) live_size_eq_log by (simp add: state_of_def)
  with c m st show ?thesis
    by (intro exI [of _ ?s] exI [of _ st]) (simp add: garbage_disk_size_def)
qed

text \<open>
  The status of a database that any sequence of writes produced never reports more
  live than total bytes, so the subtraction behind the garbage size does not wrap around.
\<close>

theorem garbage_size_no_underflow:
  assumes "bc_writes es (bitcask_new []) = (Ok (), s)" "bc_status s = Ok st"
    and "length (bc_log s) < 2 ^ 64"
  shows "st_live_disk_size st \<le> st_disk_size st \<and>
    garbage_disk_size st = st_disk_size st - st_live_disk_size st"
proof -
  have s: "s = state_of es"
    using assms(1) by (simp add: bc_writes_new)
  then have "st_live_disk_size st = live_size (apply_writes es)"
    using bc_status_live_size assms(2) state_of_contents by metis
  moreover have "st_disk_size st = length (log_of es)"
    using assms(2) s by (auto simp: bc_status_def Let_def state_of_def)
  ultimately have le: "st_live_disk_size st \<le> st_disk_size st" and "st_disk_size st < 2 ^ 64"
    using live_size_le_log [of es] assms(3) s by (simp_all add: state_of_def)
  then have "(int (st_disk_size st) - int (st_live_disk_size st)) mod 2 ^ 64 =
      int (st_disk_size st - st_live_disk_size st)"
    by (simp flip: of_nat_diff zless_nat_eq_int_zless)
  with le show ?thesis
    by (simp only: garbage_disk_size_def nat_int)
qed

section \<open>Witnesses\<close>

text \<open>A log of a write, an overwrite and a tombstone, cut inside its second entry.\<close>

theorem bitcask_recovers_witness:
  "\<exists>es1 es2 s1. [([1], Some [2, 3]), ([1], Some [4]), ([1], None)] = es1 @ es2 \<and>
    bc_writes es1 (bitcask_new []) = (Ok (), s1) \<and>
    bitcask_new (take 15 (bc_log (snd (bc_writes
      [([1], Some [2, 3]), ([1], Some [4]), ([1], None)] (bitcask_new []))))) = s1 \<and>
    length (bc_log s1) \<le> 15 \<and>
    (es2 = [] \<or> 15 < length (bc_log (snd (bc_writes (es1 @ [hd es2]) (bitcask_new [])))))"
  using bitcask_recovers [of "[([1], Some [2, 3]), ([1], Some [4]), ([1], None)]"
      "snd (bc_writes [([1], Some [2, 3]), ([1], Some [4]), ([1], None)] (bitcask_new []))" 15]
  by (simp add: bc_writes_new state_of_def fits_def)

text \<open>A database that holds one live entry and twenty bytes of garbage.\<close>

theorem compact_correct_witness:
  "\<exists>s' st. compact (snd (bc_writes [([1], Some [2]), ([1], Some [3])] (bitcask_new []))) = (Ok (), s') \<and>
    bc_invar s' \<and> bc_contents s' = [([1], [3])] \<and>
    bc_status s' = Ok st \<and> st_disk_size st = st_live_disk_size st \<and> garbage_disk_size st = 0"
proof -
  let ?es = "[([1], Some [2]), ([1], Some [3])] :: bc_write list"
  have "bc_contents (state_of ?es) = [([1], [3])]"
    using state_of_contents [of ?es] by (simp add: apply_writes_def apply_write_def)
  then show ?thesis
    using compact_correct [of "state_of ?es"] state_of_contents [of ?es] by (simp add: bc_writes_new)
qed

theorem garbage_size_no_underflow_witness:
  "\<exists>st. bc_status (snd (bc_writes [([1], Some [2]), ([1], Some [3])] (bitcask_new []))) = Ok st \<and>
    st_live_disk_size st \<le> st_disk_size st \<and> garbage_disk_size st = 10"
proof -
  let ?es = "[([1], Some [2]), ([1], Some [3])] :: bc_write list"
  have log: "length (bc_log (state_of ?es)) = 20" and live: "live_size (apply_writes ?es) = 10"
    by (simp_all add: state_of_def apply_writes_def apply_write_def live_size_def)
  obtain st where st: "bc_status (state_of ?es) = Ok st" "st_disk_size st = 20"
    using log by (simp add: bc_status_def Let_def)
  moreover have "st_live_disk_size st = 10"
    using bc_status_live_size [OF _ st(1)] state_of_contents [of ?es] live by simp
  ultimately show ?thesis
    using garbage_size_no_underflow [of ?es "state_of ?es" st] log by (simp add: bc_writes_new)
qed

end
