(* ===== verification/KeySpace.thy ===== *)
theory KeySpace
  imports BitCask
begin

text \<open>
  Structured keys in a storage engine. The MVCC layer and the Raft log both keep a keyspace of
  their own in an engine, addressed by an enum that is encoded to bytes. \<open>key_space\<close> is what
  they need of the encoding, \<open>keyed_engine\<close> puts it on top of an engine: the contents are then a
  partial map on the structured keys, and the lemmas say how each engine call acts on that map.
\<close>

section \<open>Structured keys\<close>

definition kmap :: "('k \<Rightarrow> bytes) \<Rightarrow> (bytes, bytes) btree \<Rightarrow> 'k \<Rightarrow> bytes option" where
  "kmap enc m k = map_of m (enc k)"

definition only_keys :: "('k \<Rightarrow> bytes) \<Rightarrow> (bytes, bytes) btree \<Rightarrow> bool" where
  "only_keys enc m = (\<forall>b \<in> fst ` set m. \<exists>k. b = enc k)"

lemma kmap_Nil [simp]: "kmap enc [] = (\<lambda>_. None)"
  by (simp add: kmap_def fun_eq_iff)

lemma only_keys_Nil [simp]: "only_keys enc []"
  by (simp add: only_keys_def)

lemma only_keys_insert [simp]: "only_keys enc m \<Longrightarrow> only_keys enc (bt_insert (enc k) v m)"
  by (auto simp: only_keys_def keys_bt_insert)

lemma only_keys_remove [simp]: "only_keys enc m \<Longrightarrow> only_keys enc (bt_remove b m)"
  by (auto simp: only_keys_def bt_remove_def)

locale key_space =
  fixes enc :: "'k \<Rightarrow> bytes"
  assumes enc_inject: "enc k = enc k' \<longleftrightarrow> k = k'"
begin

lemma kmap_insert [simp]: "kmap enc (bt_insert (enc k) v m) = (kmap enc m)(k \<mapsto> v)"
  by (auto simp: kmap_def fun_eq_iff map_of_bt_insert enc_inject)

lemma kmap_remove [simp]: "kmap enc (bt_remove (enc k) m) = (kmap enc m)(k := None)"
  by (auto simp: kmap_def fun_eq_iff map_of_bt_remove enc_inject)

text \<open>The entries of a scan, as a sorted list of keys.\<close>

lemma kmap_filter:
  assumes "bt_wf m" "only_keys enc m"
    and "sorted_wrt (\<lambda>k k'. enc k < enc k') ks"
    and "set ks = {k. Q (enc k) \<and> kmap enc m k \<noteq> None}"
  shows "filter (\<lambda>x. Q (fst x)) m = map (\<lambda>k. (enc k, the (kmap enc m k))) ks"
proof (rule bt_wf_ext)
  let ?r = "map (\<lambda>k. (enc k, the (kmap enc m k))) ks"
  show "bt_wf (filter (\<lambda>x. Q (fst x)) m)" using assms(1) by simp
  show wf: "bt_wf ?r" using assms(3) by (simp add: bt_wf_def comp_def sorted_wrt_map)
  show "map_of (filter (\<lambda>x. Q (fst x)) m) = map_of ?r"
  proof
    fix b
    show "map_of (filter (\<lambda>x. Q (fst x)) m) b = map_of ?r b"
    proof (cases "Q b \<and> map_of m b \<noteq> None")
      case True
      then obtain k where k: "b = enc k"
        using assms(2) by (force simp: only_keys_def dest: map_of_SomeD)
      with True assms(4) have "k \<in> set ks" by (auto simp: kmap_def)
      then have "(b, the (map_of m b)) \<in> set ?r" by (auto simp: k kmap_def)
      with True show ?thesis
        using set_bt_wf [OF wf] by (auto simp: map_of_filter_key)
    next
      case False
      then have "b \<notin> fst ` set ?r" using assms(4) by (auto simp: kmap_def)
      with False show ?thesis
        using map_of_eq_None_iff [of ?r b] by (auto simp: map_of_filter_key)
    qed
  qed
qed

end

section \<open>Engines that hold structured keys\<close>

locale keyed_engine = kv_engine E contents invar + key_space enc
  for E :: "'e engine_ops" and contents :: "'e \<Rightarrow> (bytes, bytes) btree" and invar :: "'e \<Rightarrow> bool"
    and enc :: "'k \<Rightarrow> bytes"
begin

definition repr :: "'e \<Rightarrow> ('k \<Rightarrow> bytes option) \<Rightarrow> bool" where
  "repr e K = (invar e \<and> only_keys enc (contents e) \<and> kmap enc (contents e) = K)"

lemma repr_stored: "repr e K \<Longrightarrow> kmap enc (contents e) = K"
  by (simp add: repr_def)

lemma repr_set:
  assumes "repr e K"
  shows "\<exists>e'. e_set E (enc k) v e = (Ok (), e') \<and> repr e' (K(k \<mapsto> v))"
  using assms set_law [of e "enc k" v] by (auto simp: repr_def)

lemma repr_delete:
  assumes "repr e K"
  shows "\<exists>e'. e_delete E (enc k) e = (Ok (), e') \<and> repr e' (K(k := None))"
  using assms delete_law [of e "enc k"] by (auto simp: repr_def)

lemma repr_flush:
  assumes "repr e K"
  shows "\<exists>e'. e_flush E e = (Ok (), e') \<and> repr e' K"
  using assms flush_law [of e] by (auto simp: repr_def)

lemma repr_get: "repr e K \<Longrightarrow> e_get E (enc k) e = Ok (K k)"
  by (auto simp: repr_def get_law kmap_def)

lemma repr_scan:
  assumes "repr e K" "range_valid r" "sorted_wrt (\<lambda>k k'. enc k < enc k') ks"
    and "set ks = {k. in_range r (enc k) \<and> K k \<noteq> None}"
  shows "e_scan E r e = Ok (map (\<lambda>k. Ok (enc k, the (K k))) ks)"
  using assms kmap_filter [OF contents_wf _ assms(3), of e "in_range r"]
  by (auto simp: repr_def scan_Ok)

lemma repr_prefix:
  assumes "repr e K" "sorted_wrt (\<lambda>k k'. enc k < enc k') ks"
    and "set ks = {k. (\<exists>r. enc k = p @ r) \<and> K k \<noteq> None}"
  shows "e_scan_prefix E p e = Ok (map (\<lambda>k. Ok (enc k, the (K k))) ks)"
  unfolding e_scan_prefix_def
  using assms by (intro repr_scan) (simp_all add: in_prefix_range)

lemma repr_delete_all:
  assumes "repr e K"
  shows "\<exists>e'. sfor (map enc ks) (e_delete E) e = (Ok (), e') \<and>
    repr e' (\<lambda>k. if k \<in> set ks then None else K k)"
  using assms
proof (induction ks arbitrary: e K)
  case (Cons k ks)
  obtain e1 where e1: "e_delete E (enc k) e = (Ok (), e1)" "repr e1 (K(k := None))"
    using repr_delete [OF Cons.prems] by blast
  obtain e2 where e2: "sfor (map enc ks) (e_delete E) e1 = (Ok (), e2)"
    "repr e2 (\<lambda>j. if j \<in> set ks then None else (K(k := None)) j)"
    using Cons.IH [OF e1(2)] by blast
  have "(\<lambda>j. if j \<in> set ks then None else (K(k := None)) j) = (\<lambda>j. if j \<in> set (k # ks) then None else K j)"
    by auto
  with e1 e2 show ?case by (simp add: sbind_def)
qed simp

end

end
