(* ===== verification/RaftLog.thy ===== *)
theory RaftLog
  imports KeySpace
begin

text \<open>
  \<^verbatim>\<open>src/raft/log.rs\<close>: the Raft log on a storage engine. The in-memory fields of \<^verbatim>\<open>Log\<close> and the
  engine it owns are one record; every method is an operation on it, with its assertions. The
  abstract log is the list of entries; \<open>RaftLogProps\<close> relates the two.
\<close>

section \<open>Entries and keys\<close>

type_synonym node_id = "8 word"
type_synonym raft_term = u64
type_synonym raft_index = u64

record raft_entry =
  re_index :: raft_index
  re_term :: raft_term
  re_command :: "bytes option"

datatype rkey = REntry raft_index | RTermVote | RCommitIndex

fun rkey_kval :: "rkey \<Rightarrow> kval" where
  "rkey_kval (REntry i) = KNewVar 0 (KU64 i)"
| "rkey_kval RTermVote = KUnitVar 1"
| "rkey_kval RCommitIndex = KUnitVar 2"

definition rkey_encode :: "rkey \<Rightarrow> bytes" where
  "rkey_encode k = unwrap (serialize (rkey_kval k))"

text \<open>The Bincode encodings of the values the log stores.\<close>

record log_codec =
  enc_entry :: "raft_entry \<Rightarrow> bytes"
  dec_entry :: "bytes \<Rightarrow> raft_entry result"
  enc_term_vote :: "raft_term \<times> node_id option \<Rightarrow> bytes"
  dec_term_vote :: "bytes \<Rightarrow> (raft_term \<times> node_id option) result"
  enc_commit :: "raft_index \<times> raft_term \<Rightarrow> bytes"
  dec_commit :: "bytes \<Rightarrow> (raft_index \<times> raft_term) result"

definition log_codec_ok :: "log_codec \<Rightarrow> bool" where
  "log_codec_ok c = ((\<forall>x. dec_entry c (enc_entry c x) = Ok x) \<and>
     (\<forall>x. dec_term_vote c (enc_term_vote c x) = Ok x) \<and>
     (\<forall>x. dec_commit c (enc_commit c x) = Ok x))"

section \<open>The log\<close>

record 'e raft_log =
  rl_engine :: 'e
  rl_term :: raft_term
  rl_vote :: "node_id option"
  rl_last_index :: raft_index
  rl_last_term :: raft_term
  rl_commit_index :: raft_index
  rl_commit_term :: raft_term
  rl_fsync :: bool

definition on_engine :: "('e, 'a) op \<Rightarrow> ('e raft_log, 'a) op" where
  "on_engine f l = (case f (rl_engine l) of (r, e) \<Rightarrow> (r, l\<lparr>rl_engine := e\<rparr>))"

definition log_new :: "'e engine_ops \<Rightarrow> log_codec \<Rightarrow> 'e \<Rightarrow> 'e raft_log result" where
  "log_new E c e =
     rbind (e_get E (rkey_encode RTermVote) e) (\<lambda>tv.
     rbind (case tv of Some b \<Rightarrow> dec_term_vote c b | None \<Rightarrow> Ok (0, None)) (\<lambda>(t, v).
     rbind (e_scan E (Included (rkey_encode (REntry 0)), Included (rkey_encode (REntry u64_max))) e) (\<lambda>items.
     rbind (if items = [] then Ok (0, 0)
            else rbind (last items) (\<lambda>(_, b). rbind (dec_entry c b) (\<lambda>x. Ok (re_index x, re_term x)))) (\<lambda>(li, lt).
     rbind (e_get E (rkey_encode RCommitIndex) e) (\<lambda>cm.
     rbind (case cm of Some b \<Rightarrow> dec_commit c b | None \<Rightarrow> Ok (0, 0)) (\<lambda>(ci, ct).
     Ok \<lparr>rl_engine = e, rl_term = t, rl_vote = v, rl_last_index = li, rl_last_term = lt,
         rl_commit_index = ci, rl_commit_term = ct, rl_fsync = True\<rparr>))))))"

definition enable_fsync :: "bool \<Rightarrow> 'e raft_log \<Rightarrow> 'e raft_log" where
  "enable_fsync b l = l\<lparr>rl_fsync := b\<rparr>"

definition get_commit_index :: "'e raft_log \<Rightarrow> raft_index \<times> raft_term" where
  "get_commit_index l = (rl_commit_index l, rl_commit_term l)"

definition get_last_index :: "'e raft_log \<Rightarrow> raft_index \<times> raft_term" where
  "get_last_index l = (rl_last_index l, rl_last_term l)"

definition get_term_vote :: "'e raft_log \<Rightarrow> raft_term \<times> node_id option" where
  "get_term_vote l = (rl_term l, rl_vote l)"

definition set_term_vote ::
  "'e engine_ops \<Rightarrow> log_codec \<Rightarrow> raft_term \<Rightarrow> node_id option \<Rightarrow> ('e raft_log, unit) op" where
  "set_term_vote E c t v =
     sbind (sread (\<lambda>l. rassert (t > 0) ''can't set term 0'')) (\<lambda>_.
     sbind (sread (\<lambda>l. rassert (t \<ge> rl_term l) ''term regression {} -> {}'')) (\<lambda>_.
     sbind (sread (\<lambda>l. rassert (t > rl_term l \<or> rl_vote l = None \<or> v = rl_vote l) ''can't change vote'')) (\<lambda>_.
     (\<lambda>l. if t = rl_term l \<and> v = rl_vote l then (Ok (), l)
          else sbind (on_engine (e_set E (rkey_encode RTermVote) (enc_term_vote c (t, v)))) (\<lambda>_.
               sbind (on_engine (e_flush E)) (\<lambda>_.
               (\<lambda>l. (Ok (), l\<lparr>rl_term := t, rl_vote := v\<rparr>)))) l))))"

definition log_append :: "'e engine_ops \<Rightarrow> log_codec \<Rightarrow> bytes option \<Rightarrow> ('e raft_log, raft_index) op" where
  "log_append E c command l =
     (let x = \<lparr>re_index = rl_last_index l + 1, re_term = rl_term l, re_command = command\<rparr>
      in sbind (slift (rassert (rl_term l > 0) ''can't append entry in term 0'')) (\<lambda>_.
         sbind (on_engine (e_set E (rkey_encode (REntry (re_index x))) (enc_entry c x))) (\<lambda>_.
         sbind (if rl_fsync l then on_engine (e_flush E) else sreturn ()) (\<lambda>_.
         (\<lambda>l. (Ok (re_index x), l\<lparr>rl_last_index := re_index x, rl_last_term := re_term x\<rparr>))))) l)"

definition log_get :: "'e engine_ops \<Rightarrow> log_codec \<Rightarrow> raft_index \<Rightarrow> 'e raft_log \<Rightarrow> raft_entry option result" where
  "log_get E c i l =
     rbind (e_get E (rkey_encode (REntry i)) (rl_engine l)) (\<lambda>v.
       case v of None \<Rightarrow> Ok None | Some b \<Rightarrow> rbind (dec_entry c b) (\<lambda>x. Ok (Some x)))"

definition log_commit :: "'e engine_ops \<Rightarrow> log_codec \<Rightarrow> raft_index \<Rightarrow> ('e raft_log, raft_index) op" where
  "log_commit E c i =
     sbind (sread (log_get E c i)) (\<lambda>x l.
       case x of
         None \<Rightarrow> (Panic ''commit index {index} does not exist'', l)
       | Some x \<Rightarrow>
           if re_index x < rl_commit_index l then (Panic ''commit index regression {} -> {}'', l)
           else if re_index x = rl_commit_index l then (Ok i, l)
           else sbind (on_engine (e_set E (rkey_encode RCommitIndex) (enc_commit c (i, re_term x)))) (\<lambda>_ l.
                  (Ok i, l\<lparr>rl_commit_index := i, rl_commit_term := re_term x\<rparr>)) l)"

definition log_has :: "'e engine_ops \<Rightarrow> log_codec \<Rightarrow> raft_index \<Rightarrow> raft_term \<Rightarrow> 'e raft_log \<Rightarrow> bool result" where
  "log_has E c i t l =
     (if i = 0 \<or> i > rl_last_index l then Ok False
      else if (i, t) = (rl_last_index l, rl_last_term l) then Ok True
      else rbind (log_get E c i l) (\<lambda>x. Ok (case x of Some x \<Rightarrow> re_term x = t | None \<Rightarrow> False)))"

definition entry_bounds :: "raft_index bound \<times> raft_index bound \<Rightarrow> brange" where
  "entry_bounds r =
     ((case fst r of
         Excluded i \<Rightarrow> Excluded (rkey_encode (REntry i))
       | Included i \<Rightarrow> Included (rkey_encode (REntry i))
       | Unbounded \<Rightarrow> Included (rkey_encode (REntry 0))),
      (case snd r of
         Excluded i \<Rightarrow> Excluded (rkey_encode (REntry i))
       | Included i \<Rightarrow> Included (rkey_encode (REntry i))
       | Unbounded \<Rightarrow> Included (rkey_encode (REntry u64_max))))"

definition log_scan ::
  "'e engine_ops \<Rightarrow> log_codec \<Rightarrow> raft_index bound \<times> raft_index bound \<Rightarrow> 'e raft_log \<Rightarrow> raft_entry result list result" where
  "log_scan E c r l =
     rbind (e_scan E (entry_bounds r) (rl_engine l)) (\<lambda>items.
       Ok (map (\<lambda>item. rbind item (\<lambda>(_, b). dec_entry c b)) items))"

definition log_scan_apply ::
  "'e engine_ops \<Rightarrow> log_codec \<Rightarrow> raft_index \<Rightarrow> 'e raft_log \<Rightarrow> raft_entry result list result" where
  "log_scan_apply E c applied l =
     (if applied \<ge> rl_commit_index l then Ok []
      else log_scan E c (Included (applied + 1), Included (rl_commit_index l)) l)"

fun windows_all :: "('a \<Rightarrow> 'a \<Rightarrow> bool) \<Rightarrow> 'a list \<Rightarrow> bool" where
  "windows_all p (x # y # r) = (p x y \<and> windows_all p (y # r))"
| "windows_all p _ = True"

fun splice_skip :: "raft_entry result list \<Rightarrow> raft_entry list \<Rightarrow> raft_entry list result" where
  "splice_skip [] es = Ok es"
| "splice_skip (r # rs) es = rbind r (\<lambda>x.
     case es of
       [] \<Rightarrow> Panic ''index out of bounds''
     | e # es' \<Rightarrow>
         if re_index x \<noteq> re_index e then Panic ''index mismatch at {entry:?}''
         else if re_term x \<noteq> re_term e then Ok es
         else if re_command x \<noteq> re_command e then Panic ''command mismatch at {entry:?}''
         else splice_skip rs es')"

definition u64_range :: "u64 \<Rightarrow> u64 \<Rightarrow> u64 list" where
  "u64_range a b = map word_of_nat [unat a..<Suc (unat b)]"

text \<open>
  \<^verbatim>\<open>splice\<close> in three parts: the checks of the entries against each other and the base entry, the
  loop that skips entries the log already has, and the writes.
\<close>

definition splice_check :: "'e engine_ops \<Rightarrow> log_codec \<Rightarrow> raft_entry list \<Rightarrow> 'e raft_log \<Rightarrow> unit result" where
  "splice_check E c es l =
     (let first_entry = hd es; last_entry = last es in
      rbind (rassert (re_index first_entry > 0 \<and> re_term first_entry > 0) ''spliced entry has index or term 0'') (\<lambda>_.
      rbind (rassert (windows_all (\<lambda>x y. re_index x + 1 = re_index y) es) ''spliced entries are not contiguous'') (\<lambda>_.
      rbind (rassert (windows_all (\<lambda>x y. re_term x \<le> re_term y) es) ''spliced entries have term regression'') (\<lambda>_.
      rbind (rassert (re_term last_entry \<le> rl_term l) ''splice term {} beyond current {}'') (\<lambda>_.
      rbind (log_get E c (re_index first_entry - 1) l) (\<lambda>base.
        case base of
          Some b \<Rightarrow> rassert (\<not> re_term first_entry < re_term b) ''splice term regression {} -> {}''
        | None \<Rightarrow> rassert (re_index first_entry = 1) ''first index {} must touch existing log''))))))"

definition splice_rest :: "'e engine_ops \<Rightarrow> log_codec \<Rightarrow> raft_entry list \<Rightarrow> 'e raft_log \<Rightarrow> raft_entry list result" where
  "splice_rest E c es l =
     rbind (log_scan E c (Included (re_index (hd es)), Included (re_index (last es))) l)
       (\<lambda>items. splice_skip items es)"

definition splice_write ::
  "'e engine_ops \<Rightarrow> log_codec \<Rightarrow> raft_entry list \<Rightarrow> raft_entry \<Rightarrow> ('e raft_log, raft_index) op" where
  "splice_write E c rest last_entry l =
     sbind (slift (rassert (re_index (hd rest) > rl_commit_index l) ''spliced entries below commit index'')) (\<lambda>_.
     sbind (on_engine (sfor rest (\<lambda>x. e_set E (rkey_encode (REntry (re_index x))) (enc_entry c x)))) (\<lambda>_.
     sbind (on_engine (sfor (u64_range (re_index last_entry + 1) (rl_last_index l))
       (\<lambda>i. e_delete E (rkey_encode (REntry i))))) (\<lambda>_.
     sbind (if rl_fsync l then on_engine (e_flush E) else sreturn ()) (\<lambda>_ l.
     (Ok (re_index last_entry), l\<lparr>rl_last_index := re_index last_entry, rl_last_term := re_term last_entry\<rparr>))))) l"

definition log_splice :: "'e engine_ops \<Rightarrow> log_codec \<Rightarrow> raft_entry list \<Rightarrow> ('e raft_log, raft_index) op" where
  "log_splice E c es l =
     (if es = [] then (Ok (rl_last_index l), l)
      else sbind (sread (splice_check E c es)) (\<lambda>_.
           sbind (sread (splice_rest E c es)) (\<lambda>rest.
           if rest = [] then sread (\<lambda>l. Ok (rl_last_index l))
           else splice_write E c rest (last es))) l)"

definition log_status :: "'e engine_ops \<Rightarrow> 'e raft_log \<Rightarrow> status result" where
  "log_status E l = e_status E (rl_engine l)"

end
