(* ===== verification/RaftLogProps.thy ===== *)
theory RaftLogProps
  imports RaftLog
begin

text \<open>
  The Raft log refines a list of entries. \<open>log_repr\<close> relates a log to its list: the engine holds
  exactly these entries and the metadata, the in-memory fields agree with them, indexes are
  contiguous from one, and terms never decrease or exceed the current term. Each operation is
  characterised on the list; the properties follow for every sequence of operations on a new log.
\<close>

section \<open>Keys\<close>

definition rkey_type :: kty where
  "rkey_type = TEnum [VNew TU64, VUnit, VUnit]"

lemma rkey_typed: "key_type rkey_type" "has_type rkey_type (rkey_kval k)"
  by (auto simp: rkey_type_def) (cases k; simp)

lemma rkey_serialize: "serialize (rkey_kval k) = Ok (rkey_encode k)"
  using deserialize_serialize [OF rkey_typed, of k] by (auto simp: rkey_encode_def)

lemma rkey_encode_less: "rkey_encode k < rkey_encode k' \<longleftrightarrow> kv_less (rkey_kval k) (rkey_kval k')"
  by (rule serialize_less [OF rkey_typed(1) rkey_typed(2) rkey_typed(2) rkey_serialize rkey_serialize])

lemma rkey_kval_inject: "rkey_kval k = rkey_kval k' \<longleftrightarrow> k = k'"
  by (cases k; cases k') auto

lemma rkey_encode_inject [simp]: "rkey_encode k = rkey_encode k' \<longleftrightarrow> k = k'"
  using deserialize_serialize [OF rkey_typed, of k] deserialize_serialize [OF rkey_typed, of k']
  by (metis result.inject(1) rkey_serialize rkey_kval_inject)

lemma entry_range:
  "in_range (Included (rkey_encode (REntry a)), Included (rkey_encode (REntry b))) (rkey_encode k) \<longleftrightarrow>
   (\<exists>i. k = REntry i \<and> a \<le> i \<and> i \<le> b)"
  by (cases k) (auto simp: in_range_def order_le_less rkey_encode_less)

lemma entry_range_valid: "a \<le> b \<Longrightarrow> range_valid (Included (rkey_encode (REntry a)), Included (rkey_encode (REntry b)))"
  by (auto simp: order_le_less rkey_encode_less)

interpretation rkey: key_space rkey_encode
  by unfold_locales simp

sublocale kv_engine \<subseteq> rk: keyed_engine E contents invar rkey_encode
  by unfold_locales

section \<open>The abstract log\<close>

definition entry_at :: "raft_entry list \<Rightarrow> raft_index \<Rightarrow> raft_entry option" where
  "entry_at xs i = (if 0 < unat i \<and> unat i \<le> length xs then Some (xs ! (unat i - 1)) else None)"

definition entries_wf :: "raft_entry list \<Rightarrow> bool" where
  "entries_wf xs = ((\<forall>n < length xs. unat (re_index (xs ! n)) = Suc n) \<and>
     sorted (map re_term xs) \<and> (\<forall>x \<in> set xs. 0 < re_term x))"

definition term_at :: "raft_entry list \<Rightarrow> raft_index \<Rightarrow> raft_term" where
  "term_at xs i = (case entry_at xs i of None \<Rightarrow> 0 | Some x \<Rightarrow> re_term x)"

definition log_wf :: "'e raft_log \<Rightarrow> raft_entry list \<Rightarrow> bool" where
  "log_wf l xs = (entries_wf xs \<and> (\<forall>x \<in> set xs. re_term x \<le> rl_term l) \<and>
     unat (rl_last_index l) = length xs \<and> rl_last_term l = term_at xs (rl_last_index l) \<and>
     unat (rl_commit_index l) \<le> length xs \<and> rl_commit_term l = term_at xs (rl_commit_index l))"

definition log_keys :: "log_codec \<Rightarrow> 'e raft_log \<Rightarrow> raft_entry list \<Rightarrow> (rkey \<Rightarrow> bytes option) \<Rightarrow> bool" where
  "log_keys c l xs K = ((\<forall>i. K (REntry i) = map_option (enc_entry c) (entry_at xs i)) \<and>
     (K RTermVote = Some (enc_term_vote c (rl_term l, rl_vote l)) \<or>
      K RTermVote = None \<and> rl_term l = 0 \<and> rl_vote l = None) \<and>
     (K RCommitIndex = Some (enc_commit c (rl_commit_index l, rl_commit_term l)) \<or>
      K RCommitIndex = None \<and> rl_commit_index l = 0))"

lemma entry_at_0 [simp]: "entry_at xs 0 = None"
  by (simp add: entry_at_def)

lemma entry_at_index:
  assumes "entries_wf xs" "entry_at xs i = Some x"
  shows "re_index x = i" "x \<in> set xs" "0 < unat i" "unat i \<le> length xs"
proof -
  have i: "0 < unat i" "unat i \<le> length xs" "x = xs ! (unat i - 1)"
    using assms(2) by (auto simp: entry_at_def split: if_splits)
  then have "unat (re_index x) = unat i"
    using assms(1) by (auto simp: entries_wf_def)
  then show "re_index x = i" "0 < unat i" "unat i \<le> length xs" using i by (simp_all add: word_unat_eq_iff)
  show "x \<in> set xs" using i by auto
qed

lemma term_at_mono:
  assumes "entries_wf xs" "i \<le> j" "unat j \<le> length xs"
  shows "term_at xs i \<le> term_at xs j"
proof (cases "i = 0")
  case False
  then have "0 < unat i" "unat i \<le> unat j" using assms(2) by (simp_all add: word_le_nat_alt unat_gt_0)
  then have "re_term (xs ! (unat i - 1)) \<le> re_term (xs ! (unat j - 1))"
    using assms sorted_nth_mono [of "map re_term xs" "unat i - 1" "unat j - 1"] by (simp add: entries_wf_def)
  then show ?thesis
    using assms(3) \<open>0 < unat i\<close> \<open>unat i \<le> unat j\<close> by (simp add: term_at_def entry_at_def)
qed (simp add: term_at_def)

text \<open>The keys of a range of entries, in order.\<close>

lemma entry_keys:
  fixes xs :: "raft_entry list" and a b :: u64
  assumes "length xs < 2 ^ 64"
  defines "ks \<equiv> map (\<lambda>n. REntry (word_of_nat (Suc n))) [unat a - 1..<min (unat b) (length xs)]"
  shows "sorted_wrt (\<lambda>k k'. rkey_encode k < rkey_encode k') ks"
    and "set ks = {k. \<exists>i. k = REntry i \<and> a \<le> i \<and> i \<le> b \<and> entry_at xs i \<noteq> None}"
proof -
  let ?ns = "[unat a - 1..<min (unat b) (length xs)]"
  have small: "Suc n < 2 ^ 64" if "n \<in> set ?ns" for n using that assms(1) by auto
  have "sorted_wrt (<) ?ns" by simp
  then show "sorted_wrt (\<lambda>k k'. rkey_encode k < rkey_encode k') ks"
    unfolding ks_def sorted_wrt_map rkey_encode_less
    by (rule sorted_wrt_mono_rel [rotated]) (use small in \<open>simp add: u64_of_nat_less_iff del: of_nat_Suc\<close>)
  show "set ks = {k. \<exists>i. k = REntry i \<and> a \<le> i \<and> i \<le> b \<and> entry_at xs i \<noteq> None}"
  proof (intro set_eqI iffI)
    fix k assume "k \<in> set ks"
    then obtain n where n: "n \<in> set ?ns" "k = REntry (word_of_nat (Suc n))" by (auto simp: ks_def)
    have "unat (word_of_nat (Suc n) :: u64) = Suc n" by (rule unat_u64_of_nat [OF small [OF n(1)]])
    then show "k \<in> {k. \<exists>i. k = REntry i \<and> a \<le> i \<and> i \<le> b \<and> entry_at xs i \<noteq> None}"
      using n by (auto simp: word_le_nat_alt entry_at_def simp del: of_nat_Suc)
  next
    fix k assume "k \<in> {k. \<exists>i. k = REntry i \<and> a \<le> i \<and> i \<le> b \<and> entry_at xs i \<noteq> None}"
    then obtain i where i: "k = REntry i" "a \<le> i" "i \<le> b" "0 < unat i" "unat i \<le> length xs"
      by (auto simp: entry_at_def split: if_splits)
    then have "unat i - 1 \<in> set ?ns" by (auto simp: word_le_nat_alt)
    moreover have "REntry i = REntry (word_of_nat (Suc (unat i - 1)))" using i(4) by simp
    ultimately show "k \<in> set ks" unfolding ks_def i(1) set_map by (rule rev_image_eqI)
  qed
qed

lemma map_nth_drop_take: "map (\<lambda>n. xs ! n) [i..<min j (length xs)] = drop i (take j xs)"
  by (rule nth_equalityI) (auto simp: less_diff_conv add.commute)

section \<open>Reads\<close>

lemma log_wf_length: "log_wf l xs \<Longrightarrow> length xs < 2 ^ 64"
  using unat_u64 [of "rl_last_index l"] by (simp add: log_wf_def)

context kv_engine
begin

definition log_repr :: "log_codec \<Rightarrow> 'e raft_log \<Rightarrow> raft_entry list \<Rightarrow> bool" where
  "log_repr c l xs = (log_wf l xs \<and> (\<exists>K. rk.repr (rl_engine l) K \<and> log_keys c l xs K))"

lemma log_get_at:
  assumes "log_codec_ok c" "log_repr c l xs"
  shows "log_get E c i l = Ok (entry_at xs i)"
  using assms by (auto simp: log_repr_def log_get_def rk.repr_get log_keys_def log_codec_ok_def split: option.split)

lemma raw_scan_at:
  assumes "log_repr c l xs" "a \<le> b"
  shows "e_scan E (Included (rkey_encode (REntry a)), Included (rkey_encode (REntry b))) (rl_engine l) =
    Ok (map (\<lambda>n. Ok (rkey_encode (REntry (word_of_nat (Suc n))), enc_entry c (xs ! n)))
      [unat a - 1..<min (unat b) (length xs)])"
proof -
  obtain K where K: "rk.repr (rl_engine l) K" "log_keys c l xs K" and wf: "log_wf l xs"
    using assms(1) by (auto simp: log_repr_def)
  let ?ks = "map (\<lambda>n. REntry (word_of_nat (Suc n))) [unat a - 1..<min (unat b) (length xs)]"
  have len: "length xs < 2 ^ 64" by (rule log_wf_length [OF wf])
  have set: "set ?ks = {k. in_range (Included (rkey_encode (REntry a)), Included (rkey_encode (REntry b))) (rkey_encode k) \<and>
      K k \<noteq> None}"
    using K(2) unfolding entry_keys(2) [OF len, of a b] entry_range by (auto simp: log_keys_def)
  have scan: "e_scan E (Included (rkey_encode (REntry a)), Included (rkey_encode (REntry b))) (rl_engine l) =
      Ok (map (\<lambda>k. Ok (rkey_encode k, the (K k))) ?ks)"
    by (rule rk.repr_scan [OF K(1) entry_range_valid [OF assms(2)] entry_keys(1) [OF len] set])
  have "the (K (REntry (word_of_nat (Suc n)))) = enc_entry c (xs ! n)" if "n < length xs" for n
  proof -
    have "unat (word_of_nat (Suc n) :: u64) = Suc n"
      using that len by (intro unat_u64_of_nat) simp
    then have "entry_at xs (word_of_nat (Suc n)) = Some (xs ! n)"
      using that by (simp add: entry_at_def del: of_nat_Suc)
    then show ?thesis using K(2) by (simp add: log_keys_def del: of_nat_Suc)
  qed
  with scan show ?thesis by (simp add: comp_def del: of_nat_Suc)
qed

lemma log_scan_at:
  assumes "log_codec_ok c" "log_repr c l xs" "a \<le> b"
  shows "log_scan E c (Included a, Included b) l = Ok (map Ok (drop (unat a - 1) (take (unat b) xs)))"
  using assms(1) raw_scan_at [OF assms(2,3)]
  by (simp add: log_scan_def entry_bounds_def log_codec_ok_def comp_def flip: map_nth_drop_take)

lemma log_has_at:
  assumes "log_codec_ok c" "log_repr c l xs"
  shows "log_has E c i t l = Ok (\<exists>x. entry_at xs i = Some x \<and> re_term x = t)"
proof -
  have wf: "unat (rl_last_index l) = length xs" "rl_last_term l = term_at xs (rl_last_index l)"
    using assms(2) by (auto simp: log_repr_def log_wf_def)
  consider "i = 0 \<or> i > rl_last_index l" | "i = rl_last_index l" "0 < unat i" | "0 < unat i" "i < rl_last_index l"
    using linorder_less_linear [of i "rl_last_index l"] by (cases "i = 0") (auto simp: unat_gt_0)
  then show ?thesis
  proof cases
    case 1
    then have "entry_at xs i = None" using wf(1) by (auto simp: entry_at_def word_less_nat_alt)
    with 1 show ?thesis by (simp add: log_has_def)
  next
    case 2
    then obtain x where "entry_at xs i = Some x" using wf(1) by (simp add: entry_at_def)
    with 2 wf(2) show ?thesis
      by (auto simp: log_has_def log_get_at [OF assms] term_at_def)
  next
    case 3
    then show ?thesis
      by (auto simp: log_has_def log_get_at [OF assms] split: option.split)
  qed
qed

lemma scan_apply_at:
  assumes "log_codec_ok c" "log_repr c l xs"
  shows "log_scan_apply E c applied l = Ok (map Ok (drop (unat applied) (take (unat (rl_commit_index l)) xs)))"
proof (cases "applied \<ge> rl_commit_index l")
  case True
  then show ?thesis by (simp add: log_scan_apply_def word_le_nat_alt)
next
  case False
  then have "applied < - 1" using word_order.extremum [of "rl_commit_index l"] by (auto simp: not_le dest: less_le_trans)
  then have a: "unat (applied + 1) = Suc (unat applied)" by (rule unat_plus_one)
  with False have "applied + 1 \<le> rl_commit_index l" by (simp add: word_le_nat_alt)
  from log_scan_at [OF assms this] False a show ?thesis by (simp add: log_scan_apply_def)
qed

text \<open>Opening the engine of a log again restores the log.\<close>

lemma log_new_restores:
  assumes "log_codec_ok c" "log_repr c l xs"
  shows "log_new E c (rl_engine l) = Ok (l\<lparr>rl_fsync := True\<rparr>)"
proof -
  obtain K where K: "rk.repr (rl_engine l) K" "log_keys c l xs K" and wf: "log_wf l xs"
    using assms(2) by (auto simp: log_repr_def)
  let ?items = "map (\<lambda>n. Ok (rkey_encode (REntry (word_of_nat (Suc n))), enc_entry c (xs ! n))) [0..<length xs]"
  have "min (unat u64_max) (length xs) = length xs"
    using wf u64_le_max [of "rl_last_index l"] by (simp add: log_wf_def word_le_nat_alt)
  then have items: "e_scan E (Included (rkey_encode (REntry 0)), Included (rkey_encode (REntry u64_max))) (rl_engine l) = Ok ?items"
    using raw_scan_at [OF assms(2), of 0 u64_max] by simp
  have tv: "rbind (e_get E (rkey_encode RTermVote) (rl_engine l)) (\<lambda>tv. case tv of
      Some b \<Rightarrow> dec_term_vote c b | None \<Rightarrow> Ok (0, None)) = Ok (rl_term l, rl_vote l)"
    using K assms(1) by (auto simp: rk.repr_get log_keys_def log_codec_ok_def)
  have ci: "rbind (e_get E (rkey_encode RCommitIndex) (rl_engine l)) (\<lambda>cm. case cm of
      Some b \<Rightarrow> dec_commit c b | None \<Rightarrow> Ok (0, 0)) = Ok (rl_commit_index l, rl_commit_term l)"
    using K assms(1) wf by (auto simp: rk.repr_get log_keys_def log_codec_ok_def log_wf_def term_at_def)
  have last: "(if ?items = [] then Ok (0, 0)
      else rbind (last ?items) (\<lambda>(_, b). rbind (dec_entry c b) (\<lambda>x. Ok (re_index x, re_term x)))) =
      Ok (rl_last_index l, rl_last_term l)"
  proof (cases "xs = []")
    case True
    then show ?thesis using wf by (simp add: log_wf_def term_at_def unat_eq_0)
  next
    case False
    let ?n = "length xs - 1"
    have "last [0..<length xs] = ?n" using False by (simp add: last_conv_nth)
    then have "last ?items = Ok (rkey_encode (REntry (word_of_nat (Suc ?n))), enc_entry c (xs ! ?n))"
      using False by (simp add: last_map del: of_nat_Suc)
    moreover have "unat (re_index (xs ! ?n)) = unat (rl_last_index l)"
      using wf False by (simp add: log_wf_def entries_wf_def)
    moreover have "rl_last_term l = re_term (xs ! ?n)"
      using wf False by (simp add: log_wf_def term_at_def entry_at_def)
    ultimately show ?thesis
      using False assms(1) by (simp add: log_codec_ok_def word_unat_eq_iff)
  qed
  show ?thesis
    unfolding log_new_def
    by (subst rbind_assoc [symmetric], subst tv, simp only: rbind_simps prod.case, subst items,
        simp only: rbind_simps, subst last, simp only: rbind_simps prod.case,
        subst rbind_assoc [symmetric], subst ci) simp
qed

section \<open>Writes\<close>

lemma on_engine_Ok: "f (rl_engine l) = (Ok x, e') \<Longrightarrow> on_engine f l = (Ok x, l\<lparr>rl_engine := e'\<rparr>)"
  by (simp add: on_engine_def)

lemma maybe_flush:
  assumes "rk.repr e K"
  obtains e' where "\<forall>l. (if b then on_engine (e_flush E) else sreturn ()) (l\<lparr>rl_engine := e\<rparr>) = (Ok (), l\<lparr>rl_engine := e'\<rparr>)"
    "rk.repr e' K"
proof (cases b)
  case True
  obtain e' where "e_flush E e = (Ok (), e')" "rk.repr e' K" using rk.repr_flush [OF assms] by blast
  with True that [of e'] show ?thesis by (simp add: on_engine_def)
next
  case False
  with assms that [of e] show ?thesis by simp
qed

lemma set_term_vote_effect:
  assumes "log_repr c l xs"
  shows "if 0 < t \<and> rl_term l \<le> t \<and> (rl_term l < t \<or> rl_vote l = None \<or> v = rl_vote l)
    then \<exists>l'. set_term_vote E c t v l = (Ok (), l') \<and> log_repr c l' xs \<and>
      l' = l\<lparr>rl_engine := rl_engine l', rl_term := t, rl_vote := v\<rparr>
    else \<exists>p. set_term_vote E c t v l = (Panic p, l)"
proof (cases "0 < t \<and> rl_term l \<le> t \<and> (rl_term l < t \<or> rl_vote l = None \<or> v = rl_vote l)")
  case True
  obtain K where K: "rk.repr (rl_engine l) K" "log_keys c l xs K" and wf: "log_wf l xs"
    using assms by (auto simp: log_repr_def)
  show ?thesis
  proof (cases "t = rl_term l \<and> v = rl_vote l")
    case same: True
    then show ?thesis
      using True assms by (auto simp: set_term_vote_def sbind_def rassert_def)
  next
    case False
    let ?K = "K(RTermVote \<mapsto> enc_term_vote c (t, v))"
    obtain e1 where e1: "e_set E (rkey_encode RTermVote) (enc_term_vote c (t, v)) (rl_engine l) = (Ok (), e1)" "rk.repr e1 ?K"
      using rk.repr_set [OF K(1)] by blast
    obtain e2 where e2: "e_flush E e1 = (Ok (), e2)" "rk.repr e2 ?K"
      using rk.repr_flush [OF e1(2)] by blast
    let ?l = "l\<lparr>rl_engine := e2, rl_term := t, rl_vote := v\<rparr>"
    have "set_term_vote E c t v l = (Ok (), ?l)"
      using True False e1(1) e2(1) by (auto simp: set_term_vote_def sbind_def rassert_def on_engine_def)
    moreover have "log_repr c ?l xs"
      using wf K(2) e2(2) True by (fastforce simp: log_repr_def log_wf_def log_keys_def)
    ultimately show ?thesis using True by auto
  qed
next
  case False
  then show ?thesis by (auto simp: set_term_vote_def sbind_def rassert_def not_le not_less)
qed

lemma append_effect:
  fixes l xs command
  defines "x \<equiv> \<lparr>re_index = rl_last_index l + 1, re_term = rl_term l, re_command = command\<rparr>"
  assumes "log_repr c l xs" "0 < rl_term l" "rl_last_index l \<noteq> u64_max"
  shows "\<exists>l'. log_append E c command l = (Ok (rl_last_index l + 1), l') \<and> log_repr c l' (xs @ [x]) \<and>
    l' = l\<lparr>rl_engine := rl_engine l', rl_last_index := rl_last_index l + 1, rl_last_term := rl_term l\<rparr>"
proof -
  let ?i = "rl_last_index l + 1"
  obtain K where K: "rk.repr (rl_engine l) K" "log_keys c l xs K" and wf: "log_wf l xs"
    using assms by (auto simp: log_repr_def)
  have n: "unat ?i = Suc (length xs)"
    using unat_plus_one [of "rl_last_index l"] assms(4) wf by (simp add: u64_max_def word_order.not_eq_extremum log_wf_def)
  let ?K = "K(REntry ?i \<mapsto> enc_entry c x)"
  obtain e1 where e1: "e_set E (rkey_encode (REntry ?i)) (enc_entry c x) (rl_engine l) = (Ok (), e1)" "rk.repr e1 ?K"
    using rk.repr_set [OF K(1)] by blast
  obtain e2 where e2: "\<forall>l'. (if rl_fsync l then on_engine (e_flush E) else sreturn ()) (l'\<lparr>rl_engine := e1\<rparr>) =
      (Ok (), l'\<lparr>rl_engine := e2\<rparr>)" "rk.repr e2 ?K"
    by (rule maybe_flush [OF e1(2), of "rl_fsync l"])
  let ?l = "l\<lparr>rl_engine := e2, rl_last_index := ?i, rl_last_term := rl_term l\<rparr>"
  have run: "log_append E c command l = (Ok ?i, ?l)"
    using assms(3) e1(1) e2(1) unfolding log_append_def Let_def x_def [symmetric]
    by (simp add: sbind_def rassert_def on_engine_Ok x_def)
  have at: "entry_at (xs @ [x]) i = (if i = ?i then Some x else entry_at xs i)" for i
    using n by (auto simp: entry_at_def nth_append word_unat_eq_iff)
  have "entries_wf (xs @ [x])"
    using wf n assms(3) by (auto simp: log_wf_def entries_wf_def nth_append less_Suc_eq sorted_append x_def)
  moreover have "re_term x = rl_term l" by (simp add: x_def)
  ultimately have "log_wf ?l (xs @ [x])"
    using wf n by (auto simp: log_wf_def term_at_def at)
  moreover have "log_keys c ?l (xs @ [x]) ?K"
    using K(2) by (auto simp: log_keys_def at)
  ultimately have "log_repr c ?l (xs @ [x])"
    using e2(2) by (auto simp: log_repr_def)
  with run show ?thesis by auto
qed

lemma commit_effect_log:
  assumes "log_codec_ok c" "log_repr c l xs"
  shows "if rl_commit_index l \<le> i \<and> entry_at xs i \<noteq> None
    then \<exists>l'. log_commit E c i l = (Ok i, l') \<and> log_repr c l' xs \<and>
      l' = l\<lparr>rl_engine := rl_engine l', rl_commit_index := i, rl_commit_term := term_at xs i\<rparr>
    else \<exists>p. log_commit E c i l = (Panic p, l)"
proof (cases "entry_at xs i")
  case None
  then show ?thesis by (simp add: log_commit_def sbind_def log_get_at [OF assms])
next
  case (Some x)
  obtain K where K: "rk.repr (rl_engine l) K" "log_keys c l xs K" and wf: "log_wf l xs"
    using assms by (auto simp: log_repr_def)
  have x: "re_index x = i" "unat i \<le> length xs"
    using wf entry_at_index [OF _ Some] by (auto simp: log_wf_def)
  consider "i < rl_commit_index l" | "i = rl_commit_index l" | "rl_commit_index l < i"
    using linorder_less_linear by blast
  then show ?thesis
  proof cases
    case 3
    let ?K = "K(RCommitIndex \<mapsto> enc_commit c (i, re_term x))"
    obtain e1 where e1: "e_set E (rkey_encode RCommitIndex) (enc_commit c (i, re_term x)) (rl_engine l) = (Ok (), e1)"
      "rk.repr e1 ?K"
      using rk.repr_set [OF K(1)] by blast
    let ?l = "l\<lparr>rl_engine := e1, rl_commit_index := i, rl_commit_term := re_term x\<rparr>"
    have "log_commit E c i l = (Ok i, ?l)"
      using 3 Some x e1(1) by (auto simp: log_commit_def sbind_def log_get_at [OF assms] on_engine_Ok)
    moreover have "log_repr c ?l xs"
      using wf K(2) e1(2) x Some by (auto simp: log_repr_def log_wf_def log_keys_def term_at_def)
    ultimately show ?thesis using 3 Some by (auto simp: term_at_def)
  next
    case 2
    then show ?thesis
      using Some x assms(2) wf by (auto simp: log_commit_def sbind_def log_get_at [OF assms] term_at_def log_wf_def)
  next
    case 1
    then show ?thesis using Some x by (simp add: log_commit_def sbind_def log_get_at [OF assms])
  qed
qed

end

section \<open>Splicing\<close>

text \<open>
  \<open>existing\<close> are the log's entries at the indexes of the spliced ones, \<open>agree\<close> counts how many of
  them have the same terms. \<open>splice_guard\<close> is the conjunction of all the assertions.
\<close>

definition first_pos :: "raft_entry list \<Rightarrow> nat" where
  "first_pos es = unat (re_index (hd es)) - 1"

definition existing :: "raft_entry list \<Rightarrow> raft_entry list \<Rightarrow> raft_entry list" where
  "existing xs es = take (length es) (drop (first_pos es) xs)"

fun agree :: "raft_entry list \<Rightarrow> raft_entry list \<Rightarrow> nat" where
  "agree (y # ys) (e # es) = (if re_term y = re_term e then Suc (agree ys es) else 0)"
| "agree _ _ = 0"

definition splice_guard :: "'e raft_log \<Rightarrow> raft_entry list \<Rightarrow> raft_entry list \<Rightarrow> bool" where
  "splice_guard l xs es =
     (0 < re_index (hd es) \<and> 0 < re_term (hd es) \<and>
      windows_all (\<lambda>x y. re_index x + 1 = re_index y) es \<and> windows_all (\<lambda>x y. re_term x \<le> re_term y) es \<and>
      re_term (last es) \<le> rl_term l \<and>
      first_pos es \<le> length xs \<and> term_at xs (re_index (hd es) - 1) \<le> re_term (hd es) \<and>
      (let m = agree (existing xs es) es
       in take m (existing xs es) = take m es \<and>
          (m = length es \<or> unat (rl_commit_index l) \<le> first_pos es + m)))"

definition splice_result :: "raft_entry list \<Rightarrow> raft_entry list \<Rightarrow> raft_entry list" where
  "splice_result xs es =
     (if agree (existing xs es) es = length es then xs else take (first_pos es) xs @ es)"

lemma windows_sorted: "windows_all (\<lambda>x y. re_term x \<le> re_term y) es \<longleftrightarrow> sorted (map re_term es)"
proof (induction es rule: induct_list012)
  case (3 x y r)
  then show ?case by (auto intro: order_trans)
qed simp_all

lemma windows_index:
  assumes "windows_all (\<lambda>x y. re_index x + 1 = re_index y) es" "unat (re_index (hd es)) + length es \<le> 2 ^ 64"
    and "n < length es"
  shows "unat (re_index (es ! n)) = unat (re_index (hd es)) + n"
  using assms
proof (induction es arbitrary: n rule: induct_list012)
  case (3 x y r)
  have "unat (re_index y) = Suc (unat (re_index x))"
  proof -
    have "re_index x \<noteq> - 1"
    proof
      assume "re_index x = - 1"
      then have "unat (re_index x) = 2 ^ 64 - 1" by (simp add: unsigned_minus_1_eq_mask mask_eq_exp_minus_1)
      with "3.prems"(2) show False by simp
    qed
    then have "re_index x < - 1" by (simp add: word_order.not_eq_extremum)
    moreover have "re_index y = re_index x + 1" using "3.prems"(1) by simp
    ultimately show ?thesis by (simp add: unat_plus_one)
  qed
  with 3 show ?case by (cases n) auto
qed auto

lemma agree_le: "agree ys es \<le> length ys" "agree ys es \<le> length es"
  by (induction ys es rule: agree.induct) auto

lemma splice_skip_agree:
  assumes "length ys \<le> length es" "\<forall>n < length ys. re_index (ys ! n) = re_index (es ! n)"
  shows "splice_skip (map Ok ys) es =
    (if take (agree ys es) ys = take (agree ys es) es then Ok (drop (agree ys es) es)
     else Panic ''command mismatch at {entry:?}'')"
  using assms
proof (induction ys es rule: agree.induct)
  case (1 y ys e es)
  have i: "re_index y = re_index e" "\<forall>n < length ys. re_index (ys ! n) = re_index (es ! n)"
    using "1.prems"(2) by auto
  have "y = e \<longleftrightarrow> re_command y = re_command e" if "re_term y = re_term e"
    using i(1) that by (cases y; cases e) auto
  with i 1 show ?case by auto
qed (auto simp: neq_Nil_conv)

lemma existing_index:
  assumes "entries_wf xs" "\<And>n. n < length es \<Longrightarrow> unat (re_index (es ! n)) = Suc (first_pos es) + n"
  shows "\<forall>n < length (existing xs es). re_index (existing xs es ! n) = re_index (es ! n)"
proof (intro allI impI)
  fix n assume n: "n < length (existing xs es)"
  then have "existing xs es ! n = xs ! (first_pos es + n)" "first_pos es + n < length xs" "n < length es"
    by (auto simp: existing_def)
  with assms show "re_index (existing xs es ! n) = re_index (es ! n)"
    by (auto simp: entries_wf_def word_unat_eq_iff)
qed

text \<open>The list after a splice, position by position.\<close>

lemma splice_result_at:
  assumes "first_pos es \<le> length xs" "0 < unat (re_index (hd es))"
    and "agree (existing xs es) es = m" "take m (existing xs es) = take m es" "m \<noteq> length es"
  shows "entry_at (splice_result xs es) i =
    (if unat i \<le> first_pos es + m then entry_at xs i
     else if unat i \<le> first_pos es + length es then Some (es ! (unat i - Suc (first_pos es)))
     else None)"
proof -
  let ?f = "first_pos es"
  have m: "m \<le> length es" "m \<le> length (existing xs es)" using agree_le assms(3) by blast+
  have res: "splice_result xs es = take ?f xs @ es" using assms(3,5) by (simp add: splice_result_def)
  have same: "es ! n = xs ! (?f + n)" if "n < m" for n
  proof -
    have "es ! n = take m es ! n" using that by simp
    also have "... = existing xs es ! n" using that assms(4) by (metis nth_take)
    also have "... = xs ! (?f + n)" using that m by (simp add: existing_def)
    finally show ?thesis .
  qed
  have len: "?f + m \<le> length xs" using m(2) assms(1) by (auto simp: existing_def)
  consider "unat i = 0" | "0 < unat i" "unat i \<le> ?f" | "?f < unat i" "unat i \<le> ?f + m" | "?f + m < unat i" by linarith
  then show ?thesis
  proof cases
    case 3
    then have "unat i - 1 = ?f + (unat i - Suc ?f)" "unat i - Suc ?f < m" by auto
    with 3 same [of "unat i - Suc ?f"] m len assms(1) show ?thesis
      by (auto simp: entry_at_def res nth_append)
  qed (use assms(1) m len in \<open>auto simp: entry_at_def res nth_append\<close>)
qed

lemma splice_result_wf:
  assumes "entries_wf xs" "es \<noteq> []" "splice_guard l xs es" "first_pos es + length es < 2 ^ 64"
  shows "entries_wf (splice_result xs es)"
proof (cases "agree (existing xs es) es = length es")
  case False
  let ?f = "first_pos es"
  note g = assms(3) [unfolded splice_guard_def]
  have f: "unat (re_index (hd es)) = Suc ?f" using g by (simp add: first_pos_def word_less_nat_alt)
  have idx: "unat (re_index (es ! n)) = Suc ?f + n" if "n < length es" for n
    using windows_index [of es n] g that assms(4) f by simp
  have "?f \<le> length xs" using g by simp
  then have "unat (re_index ((take ?f xs @ es) ! n)) = Suc n" if "n < length (take ?f xs @ es)" for n
    using that assms(1) idx [of "n - ?f"] by (auto simp: nth_append entries_wf_def)
  moreover have "sorted (map re_term (take ?f xs @ es))"
  proof -
    have "sorted (map re_term es)" using g windows_sorted by blast
    moreover have "sorted (map re_term (take ?f xs))"
      using assms(1) by (simp add: entries_wf_def sorted_wrt_take flip: take_map)
    moreover have "re_term x \<le> re_term y" if x: "x \<in> set (take ?f xs)" and y: "y \<in> set es" for x y
    proof -
      obtain n where n: "n < ?f" "n < length xs" "x = xs ! n" using x by (auto simp: in_set_conv_nth)
      have "re_term x \<le> re_term (xs ! (?f - 1))"
        using n \<open>?f \<le> length xs\<close> assms(1) sorted_nth_mono [of "map re_term xs" n "?f - 1"] by (simp add: entries_wf_def)
      also have "... = term_at xs (re_index (hd es) - 1)"
      proof -
        have "unat (re_index (hd es) - 1) = ?f" using f by (simp add: unat_sub_if')
        then show ?thesis using n \<open>?f \<le> length xs\<close> by (simp add: term_at_def entry_at_def)
      qed
      also have "... \<le> re_term (hd es)" using g by simp
      also have "... \<le> re_term y"
        using \<open>sorted (map re_term es)\<close> y by (cases es) auto
      finally show ?thesis .
    qed
    ultimately show ?thesis by (auto simp: sorted_append)
  qed
  moreover have "0 < re_term x" if "x \<in> set (take ?f xs @ es)" for x
  proof -
    have "re_term (hd es) \<le> re_term y" if "y \<in> set es" for y
      using g windows_sorted [of es] that by (cases es) auto
    moreover have "0 < re_term (hd es)" using g by simp
    ultimately show ?thesis
      using that assms(1) by (auto simp: entries_wf_def dest: in_set_takeD order.strict_trans2)
  qed
  ultimately show ?thesis using False by (simp add: entries_wf_def splice_result_def)
qed (use assms(1) in \<open>simp add: splice_result_def\<close>)

lemma set_u64_range: "set (u64_range a b) = {i. a \<le> i \<and> i \<le> b}"
proof (intro set_eqI iffI)
  fix i assume "i \<in> set (u64_range a b)"
  then obtain n where "unat a \<le> n" "n \<le> unat b" "i = word_of_nat n" by (auto simp: u64_range_def)
  moreover from this(2) have "unat (word_of_nat n :: u64) = n"
    using unat_u64 [of b] by (intro unat_u64_of_nat) linarith
  ultimately show "i \<in> {i. a \<le> i \<and> i \<le> b}" by (simp add: word_le_nat_alt)
next
  fix i assume "i \<in> {i. a \<le> i \<and> i \<le> b}"
  then have "unat i \<in> set [unat a..<Suc (unat b)]" by (auto simp: word_le_nat_alt order_le_less)
  then have "word_of_nat (unat i) \<in> set (u64_range a b)"
    unfolding u64_range_def set_map by (rule imageI)
  then show "i \<in> set (u64_range a b)" by simp
qed

lemma find_contiguous:
  assumes "\<And>n. n < length es \<Longrightarrow> unat (re_index (es ! n)) = Suc f + n"
  shows "find (\<lambda>x. re_index x = i) (drop m es) =
    (if f + m < unat i \<and> unat i \<le> f + length es then Some (es ! (unat i - Suc f)) else None)"
proof (cases "f + m < unat i \<and> unat i \<le> f + length es")
  case True
  let ?k = "unat i - Suc f - m"
  have k: "?k < length (drop m es)" "m + ?k = unat i - Suc f" using True by auto
  have "re_index (drop m es ! j) \<noteq> i" if "j < ?k" for j
  proof -
    have "m + j < length es" using that True by linarith
    with that True assms [of "m + j"] show ?thesis by auto
  qed
  moreover have "re_index (drop m es ! ?k) = i"
    using k True assms [of "m + ?k"] by (simp add: word_unat_eq_iff)
  ultimately have "find (\<lambda>x. re_index x = i) (drop m es) = Some (drop m es ! ?k)"
    using k(1) unfolding find_Some_iff by blast
  with True k show ?thesis by simp
next
  case False
  have "re_index x \<noteq> i" if x: "x \<in> set (drop m es)" for x
  proof -
    obtain j where "j < length es - m" "x = es ! (m + j)" using x by (auto simp: in_set_conv_nth)
    moreover from this(1) have "m + j < length es" by linarith
    ultimately show ?thesis using False assms [of "m + j"] by auto
  qed
  then have "find (\<lambda>x. re_index x = i) (drop m es) = None" by (simp add: find_None_iff)
  with False show ?thesis by simp
qed

text \<open>The in-memory fields after a splice that writes.\<close>

lemma splice_log_wf:
  assumes "log_wf l xs" "es \<noteq> []" "splice_guard l xs es" "length xs + length es + 1 < 2 ^ 64"
    and "m = agree (existing xs es) es" "m \<noteq> length es"
  shows "log_wf (l\<lparr>rl_engine := e, rl_last_index := re_index (last es), rl_last_term := re_term (last es)\<rparr>)
      (splice_result xs es)"
    and "\<And>n. n < length es \<Longrightarrow> unat (re_index (es ! n)) = Suc (first_pos es) + n"
    and "unat (re_index (last es)) = first_pos es + length es"
proof -
  let ?f = "first_pos es"
  note g = assms(3) [unfolded splice_guard_def Let_def, folded assms(5)]
  have f: "unat (re_index (hd es)) = Suc ?f" using g by (simp add: first_pos_def word_less_nat_alt)
  show idx: "unat (re_index (es ! n)) = Suc ?f + n" if "n < length es" for n
    using windows_index [of es n] g that assms(4) f by simp
  show last: "unat (re_index (last es)) = ?f + length es"
    using idx [of "length es - 1"] assms(2) by (simp add: last_conv_nth)
  have at: "entry_at (splice_result xs es) i =
    (if unat i \<le> ?f + m then entry_at xs i
     else if unat i \<le> ?f + length es then Some (es ! (unat i - Suc ?f)) else None)" for i
    using g f assms(5,6) by (intro splice_result_at) auto
  have m: "m < length es" using assms(5,6) agree_le(2) [of "existing xs es" es] by simp
  have res: "splice_result xs es = take ?f xs @ es" using assms(5,6) by (simp add: splice_result_def)
  have "entries_wf (splice_result xs es)"
    using assms(1,4) g by (intro splice_result_wf [OF _ assms(2,3)]) (auto simp: log_wf_def)
  moreover have "re_term x \<le> rl_term l" if "x \<in> set es" for x
  proof -
    have "sorted (map re_term es)" using g windows_sorted by blast
    then have "re_term x \<le> re_term (last es)"
      using that sorted_nth_mono [of "map re_term es" _ "length es - 1"] assms(2)
      by (fastforce simp: in_set_conv_nth last_conv_nth)
    with g show ?thesis by (meson order_trans)
  qed
  then have "\<forall>x \<in> set (splice_result xs es). re_term x \<le> rl_term l"
    using assms(1) by (auto simp: res log_wf_def dest: in_set_takeD)
  moreover have "length (splice_result xs es) = ?f + length es" using g by (simp add: res)
  moreover have "term_at (splice_result xs es) (re_index (last es)) = re_term (last es)"
    using m last assms(2) by (simp add: term_at_def at last_conv_nth)
  moreover have "unat (rl_commit_index l) \<le> ?f + m" using g assms(6) by simp
  moreover from this have "term_at (splice_result xs es) (rl_commit_index l) = term_at xs (rl_commit_index l)"
    by (simp add: term_at_def at)
  ultimately show "log_wf (l\<lparr>rl_engine := e, rl_last_index := re_index (last es), rl_last_term := re_term (last es)\<rparr>)
      (splice_result xs es)"
    using assms(1) last m by (simp add: log_wf_def)
qed

lemma splice_dels:
  assumes "unat (re_index (last es)) = f + length es" "length xs + length es + 1 < 2 ^ 64" "f \<le> length xs"
    and "unat n = length xs"
  shows "i \<in> set (u64_range (re_index (last es) + 1) n) \<longleftrightarrow> f + length es < unat i \<and> unat i \<le> length xs"
proof -
  have "re_index (last es) \<noteq> - 1"
  proof
    assume "re_index (last es) = - 1"
    then have "unat (re_index (last es)) = 2 ^ 64 - 1" by (simp add: unsigned_minus_1_eq_mask mask_eq_exp_minus_1)
    with assms show False by simp
  qed
  then have "unat (re_index (last es) + 1) = Suc (f + length es)"
    using assms(1) unat_plus_one [of "re_index (last es)"] by (simp add: word_order.not_eq_extremum)
  then show ?thesis
    using assms(4) by (auto simp: set_u64_range word_le_nat_alt)
qed

context kv_engine
begin

lemma set_entries:
  assumes "rk.repr e K"
  shows "\<exists>e'. sfor es (\<lambda>x. e_set E (rkey_encode (REntry (re_index x))) (enc_entry c x)) e = (Ok (), e') \<and>
    rk.repr e' (fold (\<lambda>x K. K(REntry (re_index x) \<mapsto> enc_entry c x)) es K)"
  using assms
proof (induction es arbitrary: e K)
  case (Cons x es)
  obtain e1 where e1: "e_set E (rkey_encode (REntry (re_index x))) (enc_entry c x) e = (Ok (), e1)"
    "rk.repr e1 (K(REntry (re_index x) \<mapsto> enc_entry c x))"
    using rk.repr_set [OF Cons.prems] by blast
  from Cons.IH [OF e1(2)] e1(1) show ?case by (auto simp: sbind_def)
qed simp

lemma fold_set_entries:
  assumes "distinct (map re_index es)"
  shows "fold (\<lambda>x K. K(REntry (re_index x) \<mapsto> enc_entry c x)) es K (REntry i) =
      (case find (\<lambda>x. re_index x = i) es of Some x \<Rightarrow> Some (enc_entry c x) | None \<Rightarrow> K (REntry i))"
    and "fold (\<lambda>x K. K(REntry (re_index x) \<mapsto> enc_entry c x)) es K RTermVote = K RTermVote"
    and "fold (\<lambda>x K. K(REntry (re_index x) \<mapsto> enc_entry c x)) es K RCommitIndex = K RCommitIndex"
proof -
  have "find (\<lambda>x. re_index x = i) es = None" if "i \<notin> re_index ` set es" for es :: "raft_entry list" and i
    using that by (auto simp: find_None_iff)
  with assms show "fold (\<lambda>x K. K(REntry (re_index x) \<mapsto> enc_entry c x)) es K (REntry i) =
      (case find (\<lambda>x. re_index x = i) es of Some x \<Rightarrow> Some (enc_entry c x) | None \<Rightarrow> K (REntry i))"
    by (induction es arbitrary: K) (auto split: option.split)
  show "fold (\<lambda>x K. K(REntry (re_index x) \<mapsto> enc_entry c x)) es K RTermVote = K RTermVote"
    "fold (\<lambda>x K. K(REntry (re_index x) \<mapsto> enc_entry c x)) es K RCommitIndex = K RCommitIndex"
    by (induction es arbitrary: K) auto
qed

text \<open>The assertions before the first write.\<close>

lemma splice_check_outcome:
  assumes "log_codec_ok c" "log_repr c l xs"
  shows "if 0 < re_index (hd es) \<and> 0 < re_term (hd es) \<and>
      windows_all (\<lambda>x y. re_index x + 1 = re_index y) es \<and> windows_all (\<lambda>x y. re_term x \<le> re_term y) es \<and>
      re_term (last es) \<le> rl_term l \<and>
      first_pos es \<le> length xs \<and> term_at xs (re_index (hd es) - 1) \<le> re_term (hd es)
    then splice_check E c es l = Ok () else \<exists>p. splice_check E c es l = Panic p"
proof (cases "0 < re_index (hd es)")
  case True
  then have f: "unat (re_index (hd es) - 1) = first_pos es"
    by (simp add: first_pos_def unat_minus_one unat_gt_0)
  show ?thesis
  proof (cases "re_index (hd es) = 1")
    case True
    then show ?thesis
      by (auto simp: splice_check_def Let_def log_get_at [OF assms] term_at_def first_pos_def rassert_def)
  next
    case False
    then have "0 < first_pos es"
      using True f by (metis diff_eq_eq gr0I unat_eq_0 add_0)
    then show ?thesis
      using False True f
      by (auto simp: splice_check_def Let_def log_get_at [OF assms] term_at_def entry_at_def not_less rassert_def)
  qed
next
  case False
  then show ?thesis by (simp add: splice_check_def rassert_def)
qed

lemma splice_scan:
  assumes "log_codec_ok c" "log_repr c l xs" "es \<noteq> []" "length xs + length es + 1 < 2 ^ 64"
    and "0 < re_index (hd es)" "windows_all (\<lambda>x y. re_index x + 1 = re_index y) es" "first_pos es \<le> length xs"
  shows "splice_rest E c es l =
    (let m = agree (existing xs es) es
     in if take m (existing xs es) = take m es then Ok (drop m es) else Panic ''command mismatch at {entry:?}'')"
proof -
  have f: "unat (re_index (hd es)) = Suc (first_pos es)" using assms(5) by (simp add: first_pos_def word_less_nat_alt)
  have idx: "unat (re_index (es ! n)) = Suc (first_pos es) + n" if "n < length es" for n
    using windows_index [of es n] assms(4,6,7) that f by simp
  then have last: "unat (re_index (last es)) = first_pos es + length es"
    using idx [of "length es - 1"] assms(3) by (simp add: last_conv_nth)
  then have "re_index (hd es) \<le> re_index (last es)"
    using f assms(3) by (simp add: word_le_nat_alt Suc_le_eq)
  from log_scan_at [OF assms(1,2) this]
  have "log_scan E c (Included (re_index (hd es)), Included (re_index (last es))) l = Ok (map Ok (existing xs es))"
    by (simp add: f last existing_def take_drop add.commute)
  moreover have "entries_wf xs" using assms(2) by (simp add: log_repr_def log_wf_def)
  ultimately show ?thesis
    using splice_skip_agree [OF _ existing_index [OF _ idx]] by (simp add: splice_rest_def Let_def existing_def)
qed

text \<open>The effect of the writes: the engine then holds the spliced list.\<close>

lemma splice_writes:
  assumes "log_repr c l xs" "es \<noteq> []" "splice_guard l xs es" "length xs + length es + 1 < 2 ^ 64"
    and "m = agree (existing xs es) es" "m \<noteq> length es"
  obtains e1 e2 e3 where
    "sfor (drop m es) (\<lambda>x. e_set E (rkey_encode (REntry (re_index x))) (enc_entry c x)) (rl_engine l) = (Ok (), e1)"
    "sfor (u64_range (re_index (last es) + 1) (rl_last_index l)) (\<lambda>i. e_delete E (rkey_encode (REntry i))) e1 = (Ok (), e2)"
    "\<forall>l'. (if rl_fsync l then on_engine (e_flush E) else sreturn ()) (l'\<lparr>rl_engine := e2\<rparr>) = (Ok (), l'\<lparr>rl_engine := e3\<rparr>)"
    "log_repr c (l\<lparr>rl_engine := e3, rl_last_index := re_index (last es), rl_last_term := re_term (last es)\<rparr>)
      (splice_result xs es)"
proof -
  let ?f = "first_pos es"
  note g = assms(3) [unfolded splice_guard_def Let_def, folded assms(5)]
  obtain K where K: "rk.repr (rl_engine l) K" "log_keys c l xs K" and wf: "log_wf l xs"
    using assms(1) by (auto simp: log_repr_def)
  note wf' = splice_log_wf [OF wf assms(2-6)]
  have f: "0 < unat (re_index (hd es))" "?f \<le> length xs" using g by (auto simp: word_less_nat_alt)
  have dist: "distinct (map re_index (drop m es))"
    by (rule distinct_conv_nth [THEN iffD2]) (use wf'(2) in \<open>fastforce simp: word_unat_eq_iff\<close>)
  obtain e1 where e1: "sfor (drop m es) (\<lambda>x. e_set E (rkey_encode (REntry (re_index x))) (enc_entry c x)) (rl_engine l) = (Ok (), e1)"
    "rk.repr e1 (fold (\<lambda>x K. K(REntry (re_index x) \<mapsto> enc_entry c x)) (drop m es) K)" (is "rk.repr e1 ?K1")
    using set_entries [OF K(1)] by blast
  let ?del = "u64_range (re_index (last es) + 1) (rl_last_index l)"
  have sfor_map: "sfor (map f ys) g = sfor ys (\<lambda>y. g (f y))" for f ys and g :: "bytes \<Rightarrow> ('e, unit) op"
    by (induction ys) auto
  obtain e2 where e2: "sfor ?del (\<lambda>i. e_delete E (rkey_encode (REntry i))) e1 = (Ok (), e2)"
    "rk.repr e2 (\<lambda>k. if k \<in> set (map REntry ?del) then None else ?K1 k)" (is "rk.repr e2 ?K2")
    using rk.repr_delete_all [OF e1(2), of "map REntry ?del"] by (auto simp: sfor_map)
  obtain e3 where e3: "\<forall>l'. (if rl_fsync l then on_engine (e_flush E) else sreturn ()) (l'\<lparr>rl_engine := e2\<rparr>) = (Ok (), l'\<lparr>rl_engine := e3\<rparr>)"
    "rk.repr e3 ?K2"
    by (rule maybe_flush [OF e2(2), of "rl_fsync l"])
  let ?l = "l\<lparr>rl_engine := e3, rl_last_index := re_index (last es), rl_last_term := re_term (last es)\<rparr>"
  have at: "entry_at (splice_result xs es) i =
    (if unat i \<le> ?f + m then entry_at xs i
     else if unat i \<le> ?f + length es then Some (es ! (unat i - Suc ?f)) else None)" for i
    using g f assms(5,6) by (intro splice_result_at) auto
  have m: "m \<le> length es" "m \<le> length (existing xs es)" unfolding assms(5) by (rule agree_le)+
  have fm: "?f + m \<le> length xs" using m(2) f(2) by (auto simp: existing_def)
  have "?K2 (REntry i) = map_option (enc_entry c) (entry_at (splice_result xs es) i)" for i
  proof -
    have "REntry i \<in> set (map REntry ?del) \<longleftrightarrow> ?f + length es < unat i \<and> unat i \<le> length xs"
      using splice_dels [OF wf'(3) assms(4) f(2), of "rl_last_index l" i] wf by (auto simp: log_wf_def)
    moreover have "?K1 (REntry i) =
        (if ?f + m < unat i \<and> unat i \<le> ?f + length es then Some (enc_entry c (es ! (unat i - Suc ?f)))
         else map_option (enc_entry c) (entry_at xs i))"
      using K(2) by (simp add: fold_set_entries(1) [OF dist] find_contiguous [OF wf'(2)] log_keys_def)
    ultimately have K2: "?K2 (REntry i) = (if ?f + length es < unat i \<and> unat i \<le> length xs then None
        else if ?f + m < unat i \<and> unat i \<le> ?f + length es then Some (enc_entry c (es ! (unat i - Suc ?f)))
        else map_option (enc_entry c) (entry_at xs i))"
      by (simp only:)
    have "entry_at xs i = None" if "length xs < unat i" using that by (simp add: entry_at_def)
    then show ?thesis
      unfolding K2 at using m(1) fm by auto
  qed
  moreover have "?K2 RTermVote = K RTermVote" "?K2 RCommitIndex = K RCommitIndex"
    using fold_set_entries(2,3) [OF dist] by auto
  ultimately have "log_keys c ?l (splice_result xs es) ?K2"
    using K(2) by (simp add: log_keys_def)
  then have "log_repr c ?l (splice_result xs es)"
    using wf'(1) e3(2) by (auto simp: log_repr_def)
  with that e1(1) e2(1) e3(1) show ?thesis by blast
qed

lemma splice_effect:
  assumes "log_codec_ok c" "log_repr c l xs" "es \<noteq> []" "length xs + length es + 1 < 2 ^ 64"
  shows "if splice_guard l xs es
    then \<exists>l'. log_splice E c es l = (Ok (rl_last_index l'), l') \<and> log_repr c l' (splice_result xs es) \<and>
      l' = l\<lparr>rl_engine := rl_engine l', rl_last_index := rl_last_index l', rl_last_term := rl_last_term l'\<rparr>
    else \<exists>p. log_splice E c es l = (Panic p, l)"
proof -
  let ?m = "agree (existing xs es) es"
  let ?pre = "0 < re_index (hd es) \<and> 0 < re_term (hd es) \<and>
      windows_all (\<lambda>x y. re_index x + 1 = re_index y) es \<and> windows_all (\<lambda>x y. re_term x \<le> re_term y) es \<and>
      re_term (last es) \<le> rl_term l \<and>
      first_pos es \<le> length xs \<and> term_at xs (re_index (hd es) - 1) \<le> re_term (hd es)"
  show ?thesis
  proof (cases ?pre)
    case False
    then have "\<not> splice_guard l xs es" by (auto simp: splice_guard_def)
    moreover have "\<exists>p. splice_check E c es l = Panic p"
      using splice_check_outcome [OF assms(1,2), of es] by (simp only: False if_False)
    ultimately show ?thesis using assms(3) by (auto simp: log_splice_def sbind_def)
  next
    case True
    have check: "splice_check E c es l = Ok ()"
      using splice_check_outcome [OF assms(1,2), of es] by (simp only: True if_True)
    have scan: "splice_rest E c es l =
      (if take ?m (existing xs es) = take ?m es then Ok (drop ?m es) else Panic ''command mismatch at {entry:?}'')"
      using splice_scan [OF assms] True unfolding Let_def by blast
    note run = log_splice_def [of E c es l] sbind_def check scan splice_write_def rassert_def
    have guard: "splice_guard l xs es \<longleftrightarrow> take ?m (existing xs es) = take ?m es \<and>
        (?m = length es \<or> unat (rl_commit_index l) \<le> first_pos es + ?m)"
      using True unfolding splice_guard_def Let_def by blast
    have m: "?m \<le> length es" by (rule agree_le)
    consider "take ?m (existing xs es) \<noteq> take ?m es" | "take ?m (existing xs es) = take ?m es" "?m = length es"
      | "take ?m (existing xs es) = take ?m es" "?m < length es" using m by linarith
    then show ?thesis
    proof cases
      case 1
      then show ?thesis using True assms(3) by (simp add: guard run)
    next
      case 2
      then show ?thesis using True assms(2,3) by (simp add: guard run splice_result_def)
    next
      case 3
      have "unat (re_index (hd (drop ?m es))) = Suc (first_pos es) + ?m"
      proof -
        have f: "unat (re_index (hd es)) = Suc (first_pos es)" using True by (simp add: first_pos_def word_less_nat_alt)
        then show ?thesis
          using windows_index [of es ?m] True 3(2) assms(4) by (simp add: hd_drop_conv_nth)
      qed
      then have commit: "re_index (hd (drop ?m es)) > rl_commit_index l \<longleftrightarrow> unat (rl_commit_index l) \<le> first_pos es + ?m"
        by (auto simp: word_less_nat_alt)
      show ?thesis
      proof (cases "splice_guard l xs es")
        case False
        then show ?thesis using 3 True assms(3) commit guard by (simp add: run)
      next
        case ok: True
        obtain e1 e2 e3 where
          w: "sfor (drop ?m es) (\<lambda>x. e_set E (rkey_encode (REntry (re_index x))) (enc_entry c x)) (rl_engine l) = (Ok (), e1)"
          "sfor (u64_range (re_index (last es) + 1) (rl_last_index l)) (\<lambda>i. e_delete E (rkey_encode (REntry i))) e1 = (Ok (), e2)"
          "\<forall>l'. (if rl_fsync l then on_engine (e_flush E) else sreturn ()) (l'\<lparr>rl_engine := e2\<rparr>) = (Ok (), l'\<lparr>rl_engine := e3\<rparr>)"
          "log_repr c (l\<lparr>rl_engine := e3, rl_last_index := re_index (last es), rl_last_term := re_term (last es)\<rparr>)
            (splice_result xs es)"
          using splice_writes [OF assms(2,3) ok assms(4) refl] 3(2) by auto
        then have "log_splice E c es l =
            (Ok (re_index (last es)), l\<lparr>rl_engine := e3, rl_last_index := re_index (last es), rl_last_term := re_term (last es)\<rparr>)"
          using 3 True ok assms(3) commit guard by (simp add: run on_engine_Ok)
        with ok w(4) show ?thesis by simp
      qed
    qed
  qed
qed

end

section \<open>Runs\<close>

text \<open>
  Any sequence of operations that succeed, restarts included. The log holds fewer than
  \<open>2 ^ 64 - 1\<close> entries, so that its indexes do not wrap around.
\<close>

inductive log_step :: "'e engine_ops \<Rightarrow> log_codec \<Rightarrow> 'e raft_log \<Rightarrow> 'e raft_log \<Rightarrow> bool" for E c where
  step_term_vote: "set_term_vote E c t v l = (Ok (), l') \<Longrightarrow> log_step E c l l'"
| step_append: "unat (rl_last_index l) + 2 < 2 ^ 64 \<Longrightarrow> log_append E c command l = (Ok i, l') \<Longrightarrow> log_step E c l l'"
| step_log_commit: "log_commit E c i l = (Ok j, l') \<Longrightarrow> log_step E c l l'"
| step_splice: "unat (rl_last_index l) + length es + 1 < 2 ^ 64 \<Longrightarrow> log_splice E c es l = (Ok i, l') \<Longrightarrow> log_step E c l l'"
| step_fsync: "log_step E c l (enable_fsync b l)"
| step_restart: "log_new E c (rl_engine l) = Ok l' \<Longrightarrow> log_step E c l l'"

inductive log_run :: "'e engine_ops \<Rightarrow> log_codec \<Rightarrow> 'e \<Rightarrow> 'e raft_log \<Rightarrow> bool" for E c e where
  run_new: "log_new E c e = Ok l \<Longrightarrow> log_run E c e l"
| run_step: "log_run E c e l \<Longrightarrow> log_step E c l l' \<Longrightarrow> log_run E c e l'"

text \<open>What a step may do to the list: keep it up to the commit index, which never decreases.\<close>

definition log_extends :: "'e raft_log \<Rightarrow> raft_entry list \<Rightarrow> 'e raft_log \<Rightarrow> raft_entry list \<Rightarrow> bool" where
  "log_extends l xs l' xs' = (rl_commit_index l \<le> rl_commit_index l' \<and>
     (\<forall>i \<le> rl_commit_index l. entry_at xs' i = entry_at xs i))"

lemma append_keeps: "unat i \<le> length xs \<Longrightarrow> entry_at (xs @ [x]) i = entry_at xs i"
  by (auto simp: entry_at_def nth_append)

lemma splice_keeps:
  assumes "splice_guard l xs es" "es \<noteq> []" "i \<le> rl_commit_index l"
  shows "entry_at (splice_result xs es) i = entry_at xs i"
proof (cases "agree (existing xs es) es = length es")
  case True
  then show ?thesis by (simp add: splice_result_def)
next
  case False
  note g = assms(1) [unfolded splice_guard_def Let_def]
  have "unat i \<le> first_pos es + agree (existing xs es) es"
    using g False assms(3) by (simp add: word_le_nat_alt)
  then show ?thesis
    using splice_result_at [of es xs "agree (existing xs es) es" i] g False by (simp add: word_less_nat_alt)
qed

context kv_engine
begin

lemma step_refines:
  assumes "log_step E c l l'" "log_codec_ok c" "log_repr c l xs"
  shows "\<exists>xs'. log_repr c l' xs' \<and> log_extends l xs l' xs'"
  using assms(1)
proof (cases rule: log_step.cases)
  case (step_term_vote t v)
  with set_term_vote_effect [OF assms(3), of t v]
  have l': "log_repr c l' xs" "l' = l\<lparr>rl_engine := rl_engine l', rl_term := t, rl_vote := v\<rparr>"
    by (auto split: if_splits)
  from arg_cong [OF l'(2), of rl_commit_index] l'(1) show ?thesis
    by (auto simp: log_extends_def)
next
  case (step_append command i)
  have "rl_last_index l \<noteq> u64_max"
  proof
    assume "rl_last_index l = u64_max"
    then have "unat (rl_last_index l) = 2 ^ 64 - 1"
      by (simp add: u64_max_def unsigned_minus_1_eq_mask mask_eq_exp_minus_1)
    with step_append(1) show False by simp
  qed
  moreover have "0 < rl_term l"
    using step_append(2) by (auto simp: log_append_def sbind_def rassert_def Let_def split: if_splits)
  ultimately obtain x where
    l': "log_repr c l' (xs @ [x])" "l' = l\<lparr>rl_engine := rl_engine l', rl_last_index := rl_last_index l + 1, rl_last_term := rl_term l\<rparr>"
    using append_effect [OF assms(3), of command] step_append(2) by auto
  moreover have "unat (rl_commit_index l) \<le> length xs" using assms(3) by (simp add: log_repr_def log_wf_def)
  moreover have "rl_commit_index l' = rl_commit_index l" by (subst l'(2)) simp
  ultimately show ?thesis
    by (intro exI [of _ "xs @ [x]"]) (simp add: log_extends_def append_keeps word_le_nat_alt)
next
  case (step_log_commit i j)
  with commit_effect_log [OF assms(2,3), of i]
  have l': "log_repr c l' xs" "rl_commit_index l \<le> i"
    "l' = l\<lparr>rl_engine := rl_engine l', rl_commit_index := i, rl_commit_term := term_at xs i\<rparr>"
    by (auto split: if_splits)
  from arg_cong [OF l'(3), of rl_commit_index] l'(1,2) show ?thesis
    by (auto simp: log_extends_def)
next
  case (step_splice es i)
  show ?thesis
  proof (cases "es = []")
    case True
    with step_splice assms(3) show ?thesis by (auto simp: log_splice_def log_extends_def)
  next
    case False
    have "length xs + length es + 1 < 2 ^ 64"
      using step_splice(1) assms(3) by (simp add: log_repr_def log_wf_def)
    from splice_effect [OF assms(2,3) False this] step_splice(2)
    have l': "splice_guard l xs es" "log_repr c l' (splice_result xs es)"
      "l' = l\<lparr>rl_engine := rl_engine l', rl_last_index := rl_last_index l', rl_last_term := rl_last_term l'\<rparr>"
      by (auto split: if_splits)
    from arg_cong [OF l'(3), of rl_commit_index] l'(2) splice_keeps [OF l'(1) False] show ?thesis
      by (auto simp: log_extends_def)
  qed
next
  case (step_fsync b)
  then show ?thesis
    using assms(3) by (intro exI [of _ xs]) (auto simp: log_extends_def enable_fsync_def log_repr_def log_wf_def log_keys_def)
next
  case step_restart
  then have "l' = l\<lparr>rl_fsync := True\<rparr>" using log_new_restores [OF assms(2,3)] by simp
  then show ?thesis
    using assms(3) by (intro exI [of _ xs]) (auto simp: log_extends_def log_repr_def log_wf_def log_keys_def)
qed

lemma new_refines:
  assumes "log_codec_ok c" "rk.repr e (\<lambda>_. None)" "log_new E c e = Ok l"
  shows "log_repr c l []"
proof -
  let ?l = "\<lparr>rl_engine = e, rl_term = 0, rl_vote = None, rl_last_index = 0, rl_last_term = 0,
    rl_commit_index = 0, rl_commit_term = 0, rl_fsync = True\<rparr>"
  have "log_repr c ?l []"
    using assms(2) by (auto simp: log_repr_def log_wf_def log_keys_def entries_wf_def term_at_def entry_at_def)
  with log_new_restores [OF assms(1) this] assms(3) show ?thesis by simp
qed

lemma run_refines:
  assumes "log_run E c e l" "log_codec_ok c" "rk.repr e (\<lambda>_. None)"
  shows "\<exists>xs. log_repr c l xs"
  using assms by (induction rule: log_run.induct) (blast intro: new_refines dest: step_refines)+

text \<open>The list is determined by what reads return.\<close>

lemma repr_unique:
  assumes "log_codec_ok c" "log_repr c l xs" "\<And>i. log_get E c i l = Ok (entry_at ys i)" "length ys = length xs"
  shows "ys = xs"
proof (rule nth_equalityI)
  fix n assume n: "n < length ys"
  have "length xs < 2 ^ 64" using assms(2) log_wf_length by (auto simp: log_repr_def)
  then have u: "unat (word_of_nat (Suc n) :: u64) = Suc n"
    using n assms(4) by (intro unat_u64_of_nat) simp
  have "entry_at ys (word_of_nat (Suc n)) = entry_at xs (word_of_nat (Suc n))"
    using assms(3) [of "word_of_nat (Suc n)"] log_get_at [OF assms(1,2)] by simp
  with u n assms(4) show "ys ! n = xs ! n" by (simp add: entry_at_def del: of_nat_Suc)
qed (use assms(4) in simp)

end

section \<open>Properties\<close>

lemma rk_repr_new: "bc.rk.repr (bitcask_new []) (\<lambda>_. None)"
  using state_of_contents [of "[]"] by (simp add: bc.rk.repr_def bitcask_new_empty apply_writes_def)

text \<open>
  Property C21. The documented invariants of the log hold after any sequence of operations and
  restarts: it is a list of entries with contiguous indexes from one and terms that never
  decrease and never exceed the current term, reads return the entries of the list, and the
  cached last and commit positions are those of the list.
\<close>

theorem log_well_formed:
  assumes "log_codec_ok c" "log_run bitcask_engine c (bitcask_new []) l"
  shows "\<exists>xs. (\<forall>i. log_get bitcask_engine c i l = Ok (entry_at xs i)) \<and>
    (\<forall>n < length xs. unat (re_index (xs ! n)) = Suc n) \<and> sorted (map re_term xs) \<and>
    (\<forall>x \<in> set xs. 0 < re_term x \<and> re_term x \<le> fst (get_term_vote l)) \<and>
    unat (fst (get_last_index l)) = length xs \<and> snd (get_last_index l) = term_at xs (fst (get_last_index l)) \<and>
    unat (fst (get_commit_index l)) \<le> length xs \<and> snd (get_commit_index l) = term_at xs (fst (get_commit_index l))"
proof -
  obtain xs where xs: "bc.log_repr c l xs"
    using bc.run_refines [OF assms(2,1) rk_repr_new] by blast
  then have "log_wf l xs" by (simp add: bc.log_repr_def)
  with bc.log_get_at [OF assms(1) xs] show ?thesis
    by (intro exI [of _ xs])
      (auto simp: log_wf_def entries_wf_def get_term_vote_def get_last_index_def get_commit_index_def)
qed

text \<open>
  Property C22. Committed entries are immutable: no operation changes or removes an entry up to
  the commit index, and the commit index never moves back.
\<close>

theorem committed_immutable:
  assumes "log_codec_ok c" "log_run bitcask_engine c (bitcask_new []) l" "log_step bitcask_engine c l l'"
    and "i \<le> fst (get_commit_index l)"
  shows "log_get bitcask_engine c i l' = log_get bitcask_engine c i l \<and>
    fst (get_commit_index l) \<le> fst (get_commit_index l')"
proof -
  obtain xs where xs: "bc.log_repr c l xs"
    using bc.run_refines [OF assms(2,1) rk_repr_new] by blast
  obtain xs' where "bc.log_repr c l' xs'" "log_extends l xs l' xs'"
    using bc.step_refines [OF assms(3,1) xs] by blast
  with assms(4) show ?thesis
    by (simp add: bc.log_get_at [OF assms(1)] bc.log_get_at [OF assms(1) xs] log_extends_def get_commit_index_def)
qed

text \<open>
  Property C23. The outcome of a splice, in full: when the entries pass every check, the log
  becomes the old list if it already agrees with all of them, and otherwise the old list up to the
  first spliced index followed by the spliced entries; when a check fails the call panics and
  the log is unchanged. Agreement is judged by terms, and equal terms must mean equal commands.
\<close>

theorem splice_outcome:
  assumes "log_codec_ok c" "log_run bitcask_engine c (bitcask_new []) l" "es \<noteq> []"
    and "\<And>i. log_get bitcask_engine c i l = Ok (entry_at xs i)" "length xs = unat (rl_last_index l)"
    and "length xs + length es + 1 < 2 ^ 64"
  shows "if splice_guard l xs es
    then \<exists>l'. log_splice bitcask_engine c es l = (Ok (rl_last_index l'), l') \<and>
      unat (rl_last_index l') = length (splice_result xs es) \<and>
      (\<forall>i. log_get bitcask_engine c i l' = Ok (entry_at (splice_result xs es) i)) \<and>
      get_term_vote l' = get_term_vote l \<and> get_commit_index l' = get_commit_index l
    else \<exists>p. log_splice bitcask_engine c es l = (Panic p, l)"
proof -
  obtain ys where ys: "bc.log_repr c l ys"
    using bc.run_refines [OF assms(2,1) rk_repr_new] by blast
  then have "length ys = unat (rl_last_index l)" by (simp add: bc.log_repr_def log_wf_def)
  with bc.repr_unique [OF assms(1) ys assms(4)] assms(5) have "xs = ys" by simp
  with ys have xs: "bc.log_repr c l xs" by simp
  show ?thesis
  proof (cases "splice_guard l xs es")
    case True
    then obtain l' where l': "log_splice bitcask_engine c es l = (Ok (rl_last_index l'), l')"
      "bc.log_repr c l' (splice_result xs es)"
      "l' = l\<lparr>rl_engine := rl_engine l', rl_last_index := rl_last_index l', rl_last_term := rl_last_term l'\<rparr>"
      using bc.splice_effect [OF assms(1) xs assms(3,6)] by auto
    have "rl_term l' = rl_term l" "rl_vote l' = rl_vote l" "rl_commit_index l' = rl_commit_index l"
      "rl_commit_term l' = rl_commit_term l"
      by (subst l'(3), simp)+
    moreover have "unat (rl_last_index l') = length (splice_result xs es)"
      using l'(2) by (simp add: bc.log_repr_def log_wf_def)
    ultimately show ?thesis
      using True l'(1) bc.log_get_at [OF assms(1) l'(2)] by (auto simp: get_term_vote_def get_commit_index_def)
  next
    case False
    then show ?thesis using bc.splice_effect [OF assms(1) xs assms(3,6)] by simp
  qed
qed

text \<open>
  A restart loses nothing: opening the engine of a log restores its term, vote,
  last and commit positions exactly.
\<close>

theorem log_restart:
  assumes "log_codec_ok c" "log_run bitcask_engine c (bitcask_new []) l"
  shows "log_new bitcask_engine c (rl_engine l) = Ok (l\<lparr>rl_fsync := True\<rparr>)"
  using bc.run_refines [OF assms(2,1) rk_repr_new] bc.log_new_restores [OF assms(1)] by blast

text \<open>
  \<^verbatim>\<open>has\<close> answers, with its shortcuts, whether the entry read at the index has the
  term, and the entries handed out for application are exactly those after the applied index up
  to the commit index, in order.
\<close>

theorem has_and_scan_apply:
  assumes "log_codec_ok c" "log_run bitcask_engine c (bitcask_new []) l"
  shows "log_has bitcask_engine c i t l =
      Ok (\<exists>x. log_get bitcask_engine c i l = Ok (Some x) \<and> re_term x = t) \<and>
    (\<exists>xs. (\<forall>i. log_get bitcask_engine c i l = Ok (entry_at xs i)) \<and>
      log_scan_apply bitcask_engine c applied l =
        Ok (map Ok (drop (unat applied) (take (unat (fst (get_commit_index l))) xs))))"
proof -
  obtain xs where xs: "bc.log_repr c l xs"
    using bc.run_refines [OF assms(2,1) rk_repr_new] by blast
  note get = bc.log_get_at [OF assms(1) xs]
  show ?thesis
    using get bc.log_has_at [OF assms(1) xs, of i t] bc.scan_apply_at [OF assms(1) xs, of applied]
    by (auto simp: get_commit_index_def)
qed

section \<open>Witnesses\<close>

text \<open>A codec for entries, terms and positions: tag bytes and eight bytes per number.\<close>

definition plain_log_codec :: log_codec where
  "plain_log_codec = \<lparr>
     enc_entry = (\<lambda>x. u64_to_be (re_index x) @ u64_to_be (re_term x) @
       (case re_command x of None \<Rightarrow> [0] | Some b \<Rightarrow> 1 # b)),
     dec_entry = (\<lambda>b. case drop 16 b of [] \<Rightarrow> Err (InvalidData ''short entry'')
       | tag # r \<Rightarrow> Ok \<lparr>re_index = u64_from_be (take 8 b), re_term = u64_from_be (take 8 (drop 8 b)),
           re_command = (if tag = 0 then None else Some r)\<rparr>),
     enc_term_vote = (\<lambda>(t, v). u64_to_be t @ (case v of None \<Rightarrow> [] | Some n \<Rightarrow> [n])),
     dec_term_vote = (\<lambda>b. Ok (u64_from_be (take 8 b), case drop 8 b of [] \<Rightarrow> None | n # _ \<Rightarrow> Some n)),
     enc_commit = (\<lambda>(i, t). u64_to_be i @ u64_to_be t),
     dec_commit = (\<lambda>b. Ok (u64_from_be (take 8 b), u64_from_be (drop 8 b)))\<rparr>"

lemma plain_log_codec_ok: "log_codec_ok plain_log_codec"
  by (auto simp: log_codec_ok_def plain_log_codec_def split: option.split)

text \<open>A new log, its first term, two appended entries, and the commit of the first.\<close>

definition demo_l1 :: "bitcask raft_log" where
  "demo_l1 = snd (set_term_vote bitcask_engine plain_log_codec 1 None
     (unwrap (log_new bitcask_engine plain_log_codec (bitcask_new []))))"

definition demo_l2 :: "bitcask raft_log" where
  "demo_l2 = snd (log_append bitcask_engine plain_log_codec None demo_l1)"

definition demo_l3 :: "bitcask raft_log" where
  "demo_l3 = snd (log_append bitcask_engine plain_log_codec (Some [7]) demo_l2)"

definition demo_l4 :: "bitcask raft_log" where
  "demo_l4 = snd (log_commit bitcask_engine plain_log_codec 1 demo_l3)"

definition demo_entries :: "raft_entry list" where
  "demo_entries = [\<lparr>re_index = 1, re_term = 1, re_command = None\<rparr>, \<lparr>re_index = 2, re_term = 1, re_command = Some [7]\<rparr>]"

lemma demo_log_new:
  obtains l where "log_new bitcask_engine plain_log_codec (bitcask_new []) = Ok l" "bc.log_repr plain_log_codec l []"
    "rl_term l = 0" "rl_vote l = None" "rl_last_index l = 0" "rl_commit_index l = 0"
proof -
  let ?l = "\<lparr>rl_engine = bitcask_new [], rl_term = 0, rl_vote = None, rl_last_index = 0, rl_last_term = 0,
    rl_commit_index = 0, rl_commit_term = 0, rl_fsync = True\<rparr>"
  have r: "bc.log_repr plain_log_codec ?l []"
    using rk_repr_new by (auto simp: bc.log_repr_def log_wf_def log_keys_def entries_wf_def term_at_def entry_at_def)
  with bc.log_new_restores [OF plain_log_codec_ok r] that [of ?l] show ?thesis by simp
qed

lemma demo_log_term:
  "log_run bitcask_engine plain_log_codec (bitcask_new []) demo_l1" "bc.log_repr plain_log_codec demo_l1 []"
  "rl_term demo_l1 = 1" "rl_last_index demo_l1 = 0" "rl_commit_index demo_l1 = 0"
proof -
  obtain l where l: "log_new bitcask_engine plain_log_codec (bitcask_new []) = Ok l" "bc.log_repr plain_log_codec l []"
    "rl_term l = 0" "rl_vote l = None" "rl_last_index l = 0" "rl_commit_index l = 0"
    by (rule demo_log_new)
  obtain l' where l': "set_term_vote bitcask_engine plain_log_codec 1 None l = (Ok (), l')"
    "bc.log_repr plain_log_codec l' []" "l' = l\<lparr>rl_engine := rl_engine l', rl_term := 1, rl_vote := None\<rparr>"
    using bc.set_term_vote_effect [OF l(2), of 1 None] l(3,4) by auto
  have d: "demo_l1 = l'" by (simp add: demo_l1_def l(1) l'(1))
  show "log_run bitcask_engine plain_log_codec (bitcask_new []) demo_l1"
    unfolding d by (rule run_step [OF run_new [OF l(1)] step_term_vote [OF l'(1)]])
  show "bc.log_repr plain_log_codec demo_l1 []" unfolding d by (rule l'(2))
  show "rl_term demo_l1 = 1" "rl_last_index demo_l1 = 0" "rl_commit_index demo_l1 = 0"
    unfolding d using l by (subst l'(3), simp)+
qed

lemma demo_log_append:
  fixes command :: "bytes option"
  assumes "log_run bitcask_engine plain_log_codec (bitcask_new []) l" "bc.log_repr plain_log_codec l xs"
    and "rl_term l = 1" "length xs < 5" "rl_commit_index l = 0"
  defines "l' \<equiv> snd (log_append bitcask_engine plain_log_codec command l)"
  shows "log_run bitcask_engine plain_log_codec (bitcask_new []) l'"
    "bc.log_repr plain_log_codec l' (xs @ [\<lparr>re_index = rl_last_index l + 1, re_term = 1, re_command = command\<rparr>])"
    "rl_term l' = 1" "rl_last_index l' = rl_last_index l + 1" "rl_commit_index l' = 0"
proof -
  have n: "unat (rl_last_index l) = length xs" using assms(2) by (simp add: bc.log_repr_def log_wf_def)
  then have "rl_last_index l \<noteq> u64_max"
    using assms(4) by (auto simp: u64_max_def unsigned_minus_1_eq_mask mask_eq_exp_minus_1)
  then obtain k where k: "log_append bitcask_engine plain_log_codec command l = (Ok (rl_last_index l + 1), k)"
    "bc.log_repr plain_log_codec k (xs @ [\<lparr>re_index = rl_last_index l + 1, re_term = 1, re_command = command\<rparr>])"
    "k = l\<lparr>rl_engine := rl_engine k, rl_last_index := rl_last_index l + 1, rl_last_term := rl_term l\<rparr>"
    using bc.append_effect [OF assms(2), of command] assms(3) by auto
  have d: "l' = k" by (simp add: l'_def k(1))
  show "log_run bitcask_engine plain_log_codec (bitcask_new []) l'"
    unfolding d by (rule run_step [OF assms(1) step_append [OF _ k(1)]]) (use n assms(4) in simp)
  show "bc.log_repr plain_log_codec l' (xs @ [\<lparr>re_index = rl_last_index l + 1, re_term = 1, re_command = command\<rparr>])"
    unfolding d by (rule k(2))
  show "rl_term l' = 1" "rl_last_index l' = rl_last_index l + 1" "rl_commit_index l' = 0"
    unfolding d using assms(3,5) by (subst k(3), simp)+
qed

lemma demo_log2:
  "log_run bitcask_engine plain_log_codec (bitcask_new []) demo_l2"
  "bc.log_repr plain_log_codec demo_l2 [\<lparr>re_index = 1, re_term = 1, re_command = None\<rparr>]"
  "rl_term demo_l2 = 1" "rl_last_index demo_l2 = 1" "rl_commit_index demo_l2 = 0"
  using demo_log_append [OF demo_log_term(1-3) _ demo_log_term(5), of None] demo_log_term(4)
  unfolding demo_l2_def [symmetric] by simp_all

lemma demo_log3:
  "log_run bitcask_engine plain_log_codec (bitcask_new []) demo_l3"
  "bc.log_repr plain_log_codec demo_l3 demo_entries"
  "rl_term demo_l3 = 1" "rl_last_index demo_l3 = 2" "rl_commit_index demo_l3 = 0"
  using demo_log_append [OF demo_log2(1-3) _ demo_log2(5), of "Some [7]"] demo_log2(4)
  unfolding demo_l3_def [symmetric] by (simp_all add: demo_entries_def)

lemma demo_log_commit:
  "log_step bitcask_engine plain_log_codec demo_l3 demo_l4" "bc.log_repr plain_log_codec demo_l4 demo_entries"
  "rl_commit_index demo_l4 = 1" "rl_last_index demo_l4 = 2" "rl_term demo_l4 = 1"
proof -
  have at: "entry_at demo_entries 1 \<noteq> None" by (simp add: entry_at_def demo_entries_def)
  obtain l' where l': "log_commit bitcask_engine plain_log_codec 1 demo_l3 = (Ok 1, l')"
    "bc.log_repr plain_log_codec l' demo_entries"
    "l' = demo_l3\<lparr>rl_engine := rl_engine l', rl_commit_index := 1, rl_commit_term := term_at demo_entries 1\<rparr>"
    using bc.commit_effect_log [OF plain_log_codec_ok demo_log3(2), of 1] at demo_log3(5) by auto
  have d: "demo_l4 = l'" by (simp add: demo_l4_def l'(1))
  show "log_step bitcask_engine plain_log_codec demo_l3 demo_l4" unfolding d by (rule step_log_commit [OF l'(1)])
  show "bc.log_repr plain_log_codec demo_l4 demo_entries" unfolding d by (rule l'(2))
  show "rl_commit_index demo_l4 = 1" "rl_last_index demo_l4 = 2" "rl_term demo_l4 = 1"
    unfolding d using demo_log3(3,4) by (subst l'(3), simp)+
qed

lemmas demo_run4 = run_step [OF demo_log3(1) demo_log_commit(1)]

theorem log_well_formed_witness:
  "\<exists>xs. (\<forall>i. log_get bitcask_engine plain_log_codec i demo_l4 = Ok (entry_at xs i)) \<and>
    unat (fst (get_last_index demo_l4)) = length xs \<and> sorted (map re_term xs)"
  using log_well_formed [OF plain_log_codec_ok demo_run4] by blast

theorem committed_immutable_witness:
  "log_get bitcask_engine plain_log_codec 1 (enable_fsync False demo_l4) = log_get bitcask_engine plain_log_codec 1 demo_l4 \<and>
   fst (get_commit_index demo_l4) \<le> fst (get_commit_index (enable_fsync False demo_l4))"
  using committed_immutable [OF plain_log_codec_ok demo_run4 step_fsync, of 1 False] demo_log_commit(3)
  by (simp add: get_commit_index_def)

text \<open>A splice of the second entry, which the log has, and a new third one.\<close>

definition demo_splice :: "raft_entry list" where
  "demo_splice = [\<lparr>re_index = 2, re_term = 1, re_command = Some [7]\<rparr>, \<lparr>re_index = 3, re_term = 1, re_command = Some [9]\<rparr>]"

lemma demo_splice_facts:
  "splice_guard demo_l4 demo_entries demo_splice" "demo_splice \<noteq> []"
  "splice_result demo_entries demo_splice = hd demo_entries # demo_splice"
  "length demo_entries = unat (rl_last_index demo_l4)" "length demo_entries + length demo_splice + 1 < 2 ^ 64"
proof -
  have f: "first_pos demo_splice = 1" by (simp add: first_pos_def demo_splice_def)
  have x: "existing demo_entries demo_splice = [hd demo_splice]"
    by (simp add: existing_def f) (simp add: demo_entries_def demo_splice_def)
  show "splice_guard demo_l4 demo_entries demo_splice"
    by (simp add: splice_guard_def f x Let_def demo_log_commit)
      (simp add: demo_splice_def demo_entries_def term_at_def entry_at_def)
  show "splice_result demo_entries demo_splice = hd demo_entries # demo_splice"
    by (simp add: splice_result_def f x) (simp add: demo_splice_def demo_entries_def)
qed (simp_all add: demo_splice_def demo_entries_def demo_log_commit)

theorem splice_outcome_witness:
  "\<exists>l'. log_splice bitcask_engine plain_log_codec demo_splice demo_l4 = (Ok (rl_last_index l'), l') \<and>
     (\<forall>i. log_get bitcask_engine plain_log_codec i l' = Ok (entry_at (hd demo_entries # demo_splice) i))"
  using splice_outcome [OF plain_log_codec_ok demo_run4 demo_splice_facts(2)
    bc.log_get_at [OF plain_log_codec_ok demo_log_commit(2)] demo_splice_facts(4,5)] demo_splice_facts(1,3)
  by auto

theorem log_restart_witness:
  "log_new bitcask_engine plain_log_codec (rl_engine demo_l4) = Ok (demo_l4\<lparr>rl_fsync := True\<rparr>)"
  by (rule log_restart [OF plain_log_codec_ok demo_run4])

theorem has_and_scan_apply_witness:
  "log_has bitcask_engine plain_log_codec 1 1 demo_l4 =
     Ok (\<exists>x. log_get bitcask_engine plain_log_codec 1 demo_l4 = Ok (Some x) \<and> re_term x = 1) \<and>
   (\<exists>xs. (\<forall>i. log_get bitcask_engine plain_log_codec i demo_l4 = Ok (entry_at xs i)) \<and>
     log_scan_apply bitcask_engine plain_log_codec 0 demo_l4 =
       Ok (map Ok (drop (unat (0 :: raft_index)) (take (unat (fst (get_commit_index demo_l4))) xs))))"
  by (rule has_and_scan_apply [OF plain_log_codec_ok demo_run4])

end
