(* ===== verification/RaftMessage.thy ===== *)
theory RaftMessage
  imports RaftLog
begin

text \<open>
  \<^verbatim>\<open>src/raft/message.rs\<close>, the \<^verbatim>\<open>State\<close> trait of \<^verbatim>\<open>src/raft/state.rs\<close> and the constants of
  \<^verbatim>\<open>src/raft/mod.rs\<close>: what Raft nodes exchange and what they call. The state machine is a record
  of the trait's methods, as the storage engine is. A request id is a UUID: 128 bits, ordered as
  the number they spell.
\<close>

section \<open>Messages\<close>

type_synonym request_id = "128 word"
type_synonym read_sequence = u64
type_synonym ticks = "8 word"

datatype request = ReadRequest bytes | WriteRequest bytes | StatusRequest

record raft_status =
  rs_leader :: node_id
  rs_term :: raft_term
  rs_match_index :: "(node_id, raft_index) btree"
  rs_commit_index :: raft_index
  rs_applied_index :: raft_index
  rs_storage :: status

datatype response = ReadResponseOf bytes | WriteResponseOf bytes | StatusResponseOf raft_status

datatype message =
    Campaign raft_index raft_term
  | CampaignResponse bool
  | Heartbeat raft_index raft_index read_sequence
  | HeartbeatResponse raft_index read_sequence
  | Append raft_index raft_term "raft_entry list"
  | AppendResponse raft_index raft_index
  | Read read_sequence
  | ReadResponse read_sequence
  | ClientRequest request_id request
  | ClientResponse request_id "response result"

record envelope =
  ev_from :: node_id
  ev_term :: raft_term
  ev_to :: node_id
  ev_message :: message

section \<open>The state machine\<close>

record 's state_ops =
  sm_get_applied_index :: "'s \<Rightarrow> raft_index"
  sm_apply :: "raft_entry \<Rightarrow> ('s, bytes) op"
  sm_read :: "bytes \<Rightarrow> 's \<Rightarrow> bytes result"

section \<open>Options\<close>

record options =
  op_heartbeat_interval :: ticks
  op_election_timeout_range :: "ticks \<times> ticks"
  op_max_append_entries :: nat

definition HEARTBEAT_INTERVAL :: ticks where
  "HEARTBEAT_INTERVAL = 4"

definition ELECTION_TIMEOUT_RANGE :: "ticks \<times> ticks" where
  "ELECTION_TIMEOUT_RANGE = (10, 20)"

definition MAX_APPEND_ENTRIES :: nat where
  "MAX_APPEND_ENTRIES = 100"

definition default_options :: options where
  "default_options = \<lparr>op_heartbeat_interval = HEARTBEAT_INTERVAL,
     op_election_timeout_range = ELECTION_TIMEOUT_RANGE, op_max_append_entries = MAX_APPEND_ENTRIES\<rparr>"

end
