(* ===== verification/RaftNode.thy ===== *)
theory RaftNode
  imports RaftMessage "HOL-Library.AList"
begin

text \<open>
  \<^verbatim>\<open>src/raft/node.rs\<close>: a Raft node. The source keeps a \<^verbatim>\<open>RawNode<R>\<close> for each role \<^verbatim>\<open>R\<close>; here
  the fields the roles share are the record \<open>raw_node\<close>, the state of every operation, and the
  \<^verbatim>\<open>role\<close> field is passed to a method and returned by it, so that a role transition returns
  a role of another type and a method that fails still leaves the durable log it wrote. The \<^verbatim>\<open>Node\<close>
  enum is the datatype \<open>node_role\<close>.

  Three things come from outside: the storage engine and its encodings, the state machine, and the
  random number generator, whose state is a field of the node. The outbound channel
  records what was sent, or is disconnected and refuses. Unsigned arithmetic wraps, as in a
  release build. A \<^verbatim>\<open>HashMap\<close> is an association list, a \<^verbatim>\<open>HashSet\<close> a set; where the source
  iterates over one it sorts first or the order does not matter.
\<close>

section \<open>Nodes\<close>

record channel =
  ch_open :: bool
  ch_sent :: "envelope list"

record ('e, 's, 'g) node_env =
  ne_engine :: "'e engine_ops"
  ne_codec :: log_codec
  ne_state :: "'s state_ops"
  ne_random_range :: "ticks \<times> ticks \<Rightarrow> 'g \<Rightarrow> ticks \<times> 'g"

record ('e, 's, 'g) raw_node =
  rn_id :: node_id
  rn_peers :: "node_id set"
  rn_log :: "'e raft_log"
  rn_state :: 's
  rn_tx :: channel
  rn_opts :: options
  rn_rng :: 'g

record follower =
  fo_leader :: "node_id option"
  fo_leader_seen :: ticks
  fo_election_timeout :: ticks
  fo_forwarded :: "request_id set"

record candidate =
  ca_votes :: "node_id set"
  ca_election_duration :: ticks
  ca_election_timeout :: ticks

record progress =
  pr_match_index :: raft_index
  pr_next_index :: raft_index
  pr_read_seq :: read_sequence

record pending_write =
  wr_from :: node_id
  wr_id :: request_id

record pending_read =
  rd_seq :: read_sequence
  rd_from :: node_id
  rd_id :: request_id
  rd_command :: bytes

record leader =
  le_progress :: "(node_id \<times> progress) list"
  le_writes :: "(raft_index \<times> pending_write) list"
  le_reads :: "pending_read list"
  le_read_seq :: read_sequence
  le_since_heartbeat :: ticks

datatype node_role = Candidate candidate | Follower follower | Leader leader

text \<open>Operations on the log and on the state machine.\<close>

definition on_log :: "('e raft_log, 'a) op \<Rightarrow> (('e, 's, 'g) raw_node, 'a) op" where
  "on_log f n = (case f (rn_log n) of (r, l) \<Rightarrow> (r, n\<lparr>rn_log := l\<rparr>))"

definition on_state :: "('s, 'a) op \<Rightarrow> (('e, 's, 'g) raw_node, 'a) op" where
  "on_state f n = (case f (rn_state n) of (r, s) \<Rightarrow> (r, n\<lparr>rn_state := s\<rparr>))"

section \<open>Every role\<close>

definition node_term :: "('e, 's, 'g) raw_node \<Rightarrow> raft_term" where
  "node_term n = fst (get_term_vote (rn_log n))"

definition cluster_size :: "('e, 's, 'g) raw_node \<Rightarrow> nat" where
  "cluster_size n = card (rn_peers n) + 1"

definition quorum_size :: "('e, 's, 'g) raw_node \<Rightarrow> nat" where
  "quorum_size n = cluster_size n div 2 + 1"

definition quorum_value :: "'a::linorder list \<Rightarrow> ('e, 's, 'g) raw_node \<Rightarrow> 'a result" where
  "quorum_value values n =
     rbind (rassert (length values = cluster_size n) ''vector size must match cluster size'') (\<lambda>_.
       Ok (rev (sort values) ! (quorum_size n - 1)))"

definition random_election_timeout :: "('e, 's, 'g) node_env \<Rightarrow> (('e, 's, 'g) raw_node, ticks) op" where
  "random_election_timeout V n =
     (let r = op_election_timeout_range (rn_opts n) in
      if fst r < snd r
      then (case ne_random_range V r (rn_rng n) of (t, g) \<Rightarrow> (Ok t, n\<lparr>rn_rng := g\<rparr>))
      else (Panic ''cannot sample empty range'', n))"

definition send_via :: "envelope \<Rightarrow> (('e, 's, 'g) raw_node, unit) op" where
  "send_via msg n =
     (if ch_open (rn_tx n)
      then (Ok (), n\<lparr>rn_tx := (rn_tx n)\<lparr>ch_sent := ch_sent (rn_tx n) @ [msg]\<rparr>\<rparr>)
      else (Err (IO ''sending on a disconnected channel''), n))"

definition send :: "node_id \<Rightarrow> message \<Rightarrow> (('e, 's, 'g) raw_node, unit) op" where
  "send to msg n = send_via \<lparr>ev_from = rn_id n, ev_term = node_term n, ev_to = to, ev_message = msg\<rparr> n"

definition broadcast :: "message \<Rightarrow> (('e, 's, 'g) raw_node, unit) op" where
  "broadcast msg n = sfor (sorted_list_of_set (rn_peers n)) (\<lambda>i. send i msg) n"

section \<open>Followers\<close>

definition follower_new :: "node_id option \<Rightarrow> ticks \<Rightarrow> follower" where
  "follower_new ldr timeout =
     \<lparr>fo_leader = ldr, fo_leader_seen = 0, fo_election_timeout = timeout, fo_forwarded = {}\<rparr>"

definition abort_forwarded :: "follower \<Rightarrow> (('e, 's, 'g) raw_node, follower) op" where
  "abort_forwarded r n =
     sbind (sfor (sorted_list_of_set (fo_forwarded r)) (\<lambda>i. send (rn_id n) (ClientResponse i (Err Abort))))
       (\<lambda>_. sreturn (r\<lparr>fo_forwarded := {}\<rparr>)) n"

definition maybe_apply :: "('e, 's, 'g) node_env \<Rightarrow> (('e, 's, 'g) raw_node, unit) op" where
  "maybe_apply V =
     sbind (sread (\<lambda>n. log_scan_apply (ne_engine V) (ne_codec V) (sm_get_applied_index (ne_state V) (rn_state n)) (rn_log n)))
       (\<lambda>items. sfor items (\<lambda>item. sbind (slift item) (\<lambda>x.
          sbind (sresult (on_state (sm_apply (ne_state V) x))) (\<lambda>_. sreturn ()))))"

definition raw_node_new ::
  "('e, 's, 'g) node_env \<Rightarrow> node_id \<Rightarrow> node_id set \<Rightarrow> (('e, 's, 'g) raw_node, follower) op" where
  "raw_node_new V i peers =
     (if i \<in> peers then slift (Err (InvalidInput ''node ID {id} can't be in peers''))
      else sbind (random_election_timeout V) (\<lambda>t.
           sbind (maybe_apply V) (\<lambda>_.
           sreturn ((follower_new None 0)\<lparr>fo_election_timeout := t\<rparr>))))"

definition follower_into_follower ::
  "('e, 's, 'g) node_env \<Rightarrow> raft_term \<Rightarrow> node_id option \<Rightarrow> follower \<Rightarrow> (('e, 's, 'g) raw_node, follower) op" where
  "follower_into_follower V t ldr r =
     sbind (slift (rassert (t \<noteq> 0) ''can't become follower in term 0'')) (\<lambda>_.
     sbind (abort_forwarded r) (\<lambda>r.
       case ldr of
         Some ld \<Rightarrow>
           sbind (sread (\<lambda>n. rassert (ld \<in> rn_peers n) ''leader is not a peer'')) (\<lambda>_.
           sbind (slift (rassert (fo_leader r = None) ''already have leader in term'')) (\<lambda>_.
           sbind (sread (\<lambda>n. rassert (t = node_term n) ''can't follow leader in different term'')) (\<lambda>_.
           sreturn (follower_new (Some ld) (fo_election_timeout r)))))
       | None \<Rightarrow>
           sbind (sread (\<lambda>n. rassert (t \<noteq> node_term n) ''can't become leaderless follower in current term'')) (\<lambda>_.
           sbind (on_log (set_term_vote (ne_engine V) (ne_codec V) t None)) (\<lambda>_.
           sbind (random_election_timeout V) (\<lambda>e.
           sreturn (follower_new None e))))))"

text \<open>Messages only a leader sends: it must be the leader we follow, or we follow it.\<close>

definition check_leader ::
  "('e, 's, 'g) node_env \<Rightarrow> envelope \<Rightarrow> follower \<Rightarrow> (('e, 's, 'g) raw_node, follower) op" where
  "check_leader V msg r =
     (case fo_leader r of
        Some ld \<Rightarrow> sbind (slift (rassert (ev_from msg = ld) ''multiple leaders in term'')) (\<lambda>_. sreturn r)
      | None \<Rightarrow> follower_into_follower V (ev_term msg) (Some (ev_from msg)) r)"

definition recv_heartbeat ::
  "('e, 's, 'g) node_env \<Rightarrow> envelope \<Rightarrow> raft_index \<Rightarrow> raft_index \<Rightarrow> read_sequence \<Rightarrow> follower \<Rightarrow>
     (('e, 's, 'g) raw_node, follower) op" where
  "recv_heartbeat V msg li ci seq r =
     sbind (slift (rassert (ci \<le> li) ''commit_index after last_index'')) (\<lambda>_.
     sbind (check_leader V msg r) (\<lambda>r.
     sbind (sread (\<lambda>n. log_has (ne_engine V) (ne_codec V) li (ev_term msg) (rn_log n))) (\<lambda>h.
     let mi = (if h then li else 0) in
     sbind (send (ev_from msg) (HeartbeatResponse mi seq)) (\<lambda>_ n.
       if mi \<noteq> 0 \<and> ci > fst (get_commit_index (rn_log n))
       then sbind (on_log (log_commit (ne_engine V) (ne_codec V) ci)) (\<lambda>_.
            sbind (maybe_apply V) (\<lambda>_. sreturn r)) n
       else (Ok r, n)))))"

definition recv_append ::
  "('e, 's, 'g) node_env \<Rightarrow> envelope \<Rightarrow> raft_index \<Rightarrow> raft_term \<Rightarrow> raft_entry list \<Rightarrow> follower \<Rightarrow>
     (('e, 's, 'g) raw_node, follower) op" where
  "recv_append V msg bi bt es r =
     sbind (slift (rassert (es \<noteq> [] \<longrightarrow> bi = re_index (hd es) - 1) ''base index mismatch'')) (\<lambda>_.
     sbind (check_leader V msg r) (\<lambda>r.
     sbind (if bi = 0 then sreturn True
            else sread (\<lambda>n. log_has (ne_engine V) (ne_codec V) bi bt (rn_log n))) (\<lambda>h.
     if h then
       let mi = (if es = [] then bi else re_index (last es)) in
       sbind (on_log (log_splice (ne_engine V) (ne_codec V) es)) (\<lambda>_.
       sbind (send (ev_from msg) (AppendResponse mi 0)) (\<lambda>_. sreturn r))
     else
       (\<lambda>n. let ri = min bi (fst (get_last_index (rn_log n)) + 1) in
         sbind (send (ev_from msg) (AppendResponse 0 ri)) (\<lambda>_. sreturn r) n))))"

definition recv_read ::
  "('e, 's, 'g) node_env \<Rightarrow> envelope \<Rightarrow> read_sequence \<Rightarrow> follower \<Rightarrow> (('e, 's, 'g) raw_node, follower) op" where
  "recv_read V msg seq r =
     sbind (check_leader V msg r) (\<lambda>r.
     sbind (send (ev_from msg) (ReadResponse seq)) (\<lambda>_. sreturn r))"

definition recv_campaign ::
  "('e, 's, 'g) node_env \<Rightarrow> envelope \<Rightarrow> raft_index \<Rightarrow> raft_term \<Rightarrow> follower \<Rightarrow> (('e, 's, 'g) raw_node, follower) op" where
  "recv_campaign V msg li lt r n =
     (let v = snd (get_term_vote (rn_log n)); (log_index, log_term) = get_last_index (rn_log n) in
      if v \<noteq> None \<and> v \<noteq> Some (ev_from msg)
      then sbind (send (ev_from msg) (CampaignResponse False)) (\<lambda>_. sreturn r) n
      else if log_term > lt \<or> log_term = lt \<and> log_index > li
      then sbind (send (ev_from msg) (CampaignResponse False)) (\<lambda>_. sreturn r) n
      else sbind (on_log (set_term_vote (ne_engine V) (ne_codec V) (ev_term msg) (Some (ev_from msg)))) (\<lambda>_.
           sbind (send (ev_from msg) (CampaignResponse True)) (\<lambda>_. sreturn r)) n)"

definition recv_client_request ::
  "envelope \<Rightarrow> request_id \<Rightarrow> follower \<Rightarrow> (('e, 's, 'g) raw_node, follower) op" where
  "recv_client_request msg i r =
     sbind (sread (\<lambda>n. rassert (ev_from msg = rn_id n) ''client request from other node'')) (\<lambda>_.
       case fo_leader r of
         Some ld \<Rightarrow>
           let r' = r\<lparr>fo_forwarded := insert i (fo_forwarded r)\<rparr> in
           sbind (send ld (ev_message msg)) (\<lambda>_. sreturn r')
       | None \<Rightarrow> sbind (send (ev_from msg) (ClientResponse i (Err Abort))) (\<lambda>_. sreturn r))"

definition recv_client_response ::
  "envelope \<Rightarrow> request_id \<Rightarrow> response result \<Rightarrow> follower \<Rightarrow> (('e, 's, 'g) raw_node, follower) op" where
  "recv_client_response msg i resp r =
     sbind (slift (rassert (Some (ev_from msg) = fo_leader r) ''client response from non-leader'')) (\<lambda>_.
       if i \<in> fo_forwarded r
       then (\<lambda>n. sbind (send (rn_id n) (ClientResponse i resp))
              (\<lambda>_. sreturn (r\<lparr>fo_forwarded := fo_forwarded r - {i}\<rparr>)) n)
       else sreturn r)"

text \<open>The part of \<^verbatim>\<open>RawNode<Follower>::step\<close> after the term checks.\<close>

definition follower_receive ::
  "('e, 's, 'g) node_env \<Rightarrow> envelope \<Rightarrow> follower \<Rightarrow> (('e, 's, 'g) raw_node, node_role) op" where
  "follower_receive V msg r =
     (let r = (if Some (ev_from msg) = fo_leader r then r\<lparr>fo_leader_seen := 0\<rparr> else r) in
      sbind (case ev_message msg of
          Heartbeat li ci seq \<Rightarrow> recv_heartbeat V msg li ci seq r
        | Append bi bt es \<Rightarrow> recv_append V msg bi bt es r
        | Read seq \<Rightarrow> recv_read V msg seq r
        | Campaign li lt \<Rightarrow> recv_campaign V msg li lt r
        | ClientRequest i _ \<Rightarrow> recv_client_request msg i r
        | ClientResponse i resp \<Rightarrow> recv_client_response msg i resp r
        | CampaignResponse _ \<Rightarrow> sreturn r
        | HeartbeatResponse _ _ \<Rightarrow> slift (Panic ''follower received unexpected message {msg:?}'')
        | AppendResponse _ _ \<Rightarrow> slift (Panic ''follower received unexpected message {msg:?}'')
        | ReadResponse _ \<Rightarrow> slift (Panic ''follower received unexpected message {msg:?}''))
      (\<lambda>r. sreturn (Follower r)))"

text \<open>
  The source calls \<^verbatim>\<open>step\<close> again after it moved to the message's term. The second call finds the
  terms equal, so it is unrolled here; the recursive equation is a lemma of \<open>RaftElection\<close>.
\<close>

definition follower_step ::
  "('e, 's, 'g) node_env \<Rightarrow> envelope \<Rightarrow> follower \<Rightarrow> (('e, 's, 'g) raw_node, node_role) op" where
  "follower_step V msg r n =
     (if ev_term msg < node_term n then (Ok (Follower r), n)
      else if ev_term msg > node_term n
      then sbind (follower_into_follower V (ev_term msg) None r) (follower_receive V msg) n
      else follower_receive V msg r n)"

section \<open>Candidates\<close>

definition candidate_new :: "ticks \<Rightarrow> candidate" where
  "candidate_new timeout = \<lparr>ca_votes = {}, ca_election_duration = 0, ca_election_timeout = timeout\<rparr>"

definition campaign :: "('e, 's, 'g) node_env \<Rightarrow> candidate \<Rightarrow> (('e, 's, 'g) raw_node, candidate) op" where
  "campaign V r n =
     (let t = node_term n + 1 in
      sbind (random_election_timeout V) (\<lambda>e.
      let r = (candidate_new e)\<lparr>ca_votes := {rn_id n}\<rparr> in
      sbind (on_log (set_term_vote (ne_engine V) (ne_codec V) t (Some (rn_id n)))) (\<lambda>_ n.
      let (li, lt) = get_last_index (rn_log n) in
      sbind (broadcast (Campaign li lt)) (\<lambda>_. sreturn r) n)) n)"

definition into_candidate :: "('e, 's, 'g) node_env \<Rightarrow> follower \<Rightarrow> (('e, 's, 'g) raw_node, candidate) op" where
  "into_candidate V r =
     sbind (abort_forwarded r) (\<lambda>r.
     sbind (maybe_apply V) (\<lambda>_.
     sbind (random_election_timeout V) (\<lambda>e.
     sbind (campaign V (candidate_new e)) (\<lambda>c.
     sbind (sread (\<lambda>n. rassert (rn_id n \<in> ca_votes c) ''candidate did not vote for self'')) (\<lambda>_.
     sbind (sread (\<lambda>n. rassert (fst (get_term_vote (rn_log n)) \<noteq> 0) ''candidate can't have term 0'')) (\<lambda>_.
     sbind (sread (\<lambda>n. rassert (snd (get_term_vote (rn_log n)) = Some (rn_id n)) ''log vote does not match self'')) (\<lambda>_.
     sreturn c)))))))"

definition follower_tick :: "('e, 's, 'g) node_env \<Rightarrow> follower \<Rightarrow> (('e, 's, 'g) raw_node, node_role) op" where
  "follower_tick V r =
     (let r = r\<lparr>fo_leader_seen := fo_leader_seen r + 1\<rparr> in
      if fo_leader_seen r \<ge> fo_election_timeout r
      then sbind (into_candidate V r) (\<lambda>c. sreturn (Candidate c))
      else sreturn (Follower r))"

definition candidate_into_follower ::
  "('e, 's, 'g) node_env \<Rightarrow> raft_term \<Rightarrow> node_id option \<Rightarrow> candidate \<Rightarrow> (('e, 's, 'g) raw_node, follower) op" where
  "candidate_into_follower V t ldr r =
     sbind (random_election_timeout V) (\<lambda>e.
       case ldr of
         Some ld \<Rightarrow>
           sbind (sread (\<lambda>n. rassert (t = node_term n) ''can't follow leader in different term'')) (\<lambda>_.
           sreturn (follower_new (Some ld) e))
       | None \<Rightarrow>
           sbind (sread (\<lambda>n. rassert (t \<noteq> node_term n) ''can't become leaderless follower in current term'')) (\<lambda>_.
           sbind (on_log (set_term_vote (ne_engine V) (ne_codec V) t None)) (\<lambda>_.
           sreturn (follower_new None e))))"

definition candidate_tick :: "('e, 's, 'g) node_env \<Rightarrow> candidate \<Rightarrow> (('e, 's, 'g) raw_node, node_role) op" where
  "candidate_tick V r =
     (let r = r\<lparr>ca_election_duration := ca_election_duration r + 1\<rparr> in
      if ca_election_duration r \<ge> ca_election_timeout r
      then sbind (campaign V r) (\<lambda>c. sreturn (Candidate c))
      else sreturn (Candidate r))"

section \<open>Leaders\<close>

fun advance :: "raft_index \<Rightarrow> progress \<Rightarrow> bool \<times> progress" where
  "advance mi p =
     (if mi \<le> pr_match_index p then (False, p)
      else (True, p\<lparr>pr_match_index := mi, pr_next_index := max (pr_next_index p) (mi + 1)\<rparr>))"

fun advance_read :: "read_sequence \<Rightarrow> progress \<Rightarrow> bool \<times> progress" where
  "advance_read seq p = (if seq \<le> pr_read_seq p then (False, p) else (True, p\<lparr>pr_read_seq := seq\<rparr>))"

fun regress_next :: "raft_index \<Rightarrow> progress \<Rightarrow> bool \<times> progress" where
  "regress_next ni p =
     (if ni \<ge> pr_next_index p \<or> pr_next_index p \<le> pr_match_index p + 1 then (False, p)
      else (True, p\<lparr>pr_next_index := max ni (pr_match_index p + 1)\<rparr>))"

definition leader_new :: "node_id set \<Rightarrow> raft_index \<Rightarrow> leader" where
  "leader_new peers li =
     \<lparr>le_progress = map (\<lambda>p. (p, \<lparr>pr_match_index = 0, pr_next_index = li + 1, pr_read_seq = 0\<rparr>)) (sorted_list_of_set peers),
      le_writes = [], le_reads = [], le_read_seq = 0, le_since_heartbeat = 0\<rparr>"

definition get_progress :: "node_id \<Rightarrow> leader \<Rightarrow> progress result" where
  "get_progress i r = (case map_of (le_progress r) i of Some p \<Rightarrow> Ok p | None \<Rightarrow> Panic ''unknown node'')"

definition set_progress :: "node_id \<Rightarrow> progress \<Rightarrow> leader \<Rightarrow> leader" where
  "set_progress i p r = r\<lparr>le_progress := AList.update i p (le_progress r)\<rparr>"

text \<open>A call of a \<^verbatim>\<open>Progress\<close> method on a node's progress, in place.\<close>

definition on_progress ::
  "node_id \<Rightarrow> (progress \<Rightarrow> bool \<times> progress) \<Rightarrow> leader \<Rightarrow> (('e, 's, 'g) raw_node, bool \<times> leader) op" where
  "on_progress i f r = slift (rbind (get_progress i r) (\<lambda>p. case f p of (b, p') \<Rightarrow> Ok (b, set_progress i p' r)))"

definition heartbeat :: "leader \<Rightarrow> (('e, 's, 'g) raw_node, leader) op" where
  "heartbeat r n =
     (let (li, lt) = get_last_index (rn_log n); (ci, _) = get_commit_index (rn_log n) in
      sbind (slift (rassert (lt = node_term n) ''leader's last_term not in current term'')) (\<lambda>_.
      sbind (broadcast (Heartbeat li ci (le_read_seq r))) (\<lambda>_.
      sreturn (r\<lparr>le_since_heartbeat := 0\<rparr>))) n)"

definition send_checks :: "progress \<Rightarrow> raft_index \<Rightarrow> unit result" where
  "send_checks p li =
     rbind (rassert (pr_next_index p \<noteq> 0) ''invalid next_index'') (\<lambda>_.
     rbind (rassert (pr_next_index p > pr_match_index p) ''invalid next_index <= match_index'') (\<lambda>_.
     rbind (rassert (pr_match_index p \<le> li) ''invalid match_index > last_index'') (\<lambda>_.
     rassert (pr_next_index p \<le> li + 1) ''invalid next_index > last_index + 1'')))"

text \<open>The index and term before the next entry, and the entries of a batch.\<close>

definition base_entry :: "('e, 's, 'g) node_env \<Rightarrow> raft_index \<Rightarrow> 'e raft_log \<Rightarrow> (raft_index \<times> raft_term) result" where
  "base_entry V next_index l =
     (if next_index = 0 then Panic ''next_index=0 for node {peer}''
      else if next_index = 1 then Ok (0, 0)
      else rbind (log_get (ne_engine V) (ne_codec V) (next_index - 1) l) (\<lambda>x.
        case x of Some x \<Rightarrow> Ok (re_index x, re_term x) | None \<Rightarrow> Panic ''missing base entry''))"

definition batch_entries :: "('e, 's, 'g) node_env \<Rightarrow> nat \<Rightarrow> raft_index \<Rightarrow> 'e raft_log \<Rightarrow> raft_entry list result" where
  "batch_entries V k next_index l =
     rbind (log_scan (ne_engine V) (ne_codec V) (Included next_index, Unbounded) l) (\<lambda>items.
       map_list_result (\<lambda>item. item) (take k items))"

definition maybe_send_append ::
  "('e, 's, 'g) node_env \<Rightarrow> node_id \<Rightarrow> bool \<Rightarrow> leader \<Rightarrow> (('e, 's, 'g) raw_node, leader) op" where
  "maybe_send_append V peer probe r n =
     (let li = fst (get_last_index (rn_log n)) in
      sbind (slift (get_progress peer r)) (\<lambda>p.
      sbind (slift (send_checks p li)) (\<lambda>_.
        if pr_match_index p = li then sreturn r
        else
          let probe = (probe \<and> pr_next_index p > pr_match_index p + 1) in
          if pr_next_index p > li \<and> \<not> probe then sreturn r
          else
            sbind (sread (\<lambda>n. base_entry V (pr_next_index p) (rn_log n))) (\<lambda>(bi, bt).
            sbind (if probe then sreturn []
                   else sread (\<lambda>n. batch_entries V (op_max_append_entries (rn_opts n)) (pr_next_index p) (rn_log n))) (\<lambda>es.
            let p = (if es = [] then p else p\<lparr>pr_next_index := re_index (last es) + 1\<rparr>) in
            sbind (send peer (Append bi bt es)) (\<lambda>_.
            sreturn (set_progress peer p r)))))) n)"

definition propose ::
  "('e, 's, 'g) node_env \<Rightarrow> bytes option \<Rightarrow> leader \<Rightarrow> (('e, 's, 'g) raw_node, raft_index \<times> leader) op" where
  "propose V command r =
     sbind (on_log (log_append (ne_engine V) (ne_codec V) command)) (\<lambda>i n.
     sbind (sfold (sorted_list_of_set (rn_peers n)) (\<lambda>peer r.
       sbind (slift (get_progress peer r)) (\<lambda>p.
         if i = pr_next_index p then maybe_send_append V peer False r else sreturn r)) r) (\<lambda>r.
     sreturn (i, r)) n)"

text \<open>The loop that executes the reads a quorum confirmed, and the one that applies entries.\<close>

fun read_loop :: "('e, 's, 'g) node_env \<Rightarrow> read_sequence \<Rightarrow> pending_read list \<Rightarrow> (('e, 's, 'g) raw_node, pending_read list) op" where
  "read_loop V q [] = sreturn []"
| "read_loop V q (rd # rds) =
     (if rd_seq rd > q then sreturn (rd # rds)
      else sbind (sresult (sread (\<lambda>n. sm_read (ne_state V) (rd_command rd) (rn_state n)))) (\<lambda>resp.
           sbind (send (rd_from rd) (ClientResponse (rd_id rd) (result_map ReadResponseOf resp))) (\<lambda>_.
           read_loop V q rds)))"

definition maybe_read :: "('e, 's, 'g) node_env \<Rightarrow> leader \<Rightarrow> (('e, 's, 'g) raw_node, leader) op" where
  "maybe_read V r n =
     (if le_reads r = [] then (Ok r, n)
      else
        let (ci, ct) = get_commit_index (rn_log n); applied = sm_get_applied_index (ne_state V) (rn_state n) in
        if ct < node_term n \<or> applied < ci then (Ok r, n)
        else sbind (sread (quorum_value (map (\<lambda>(_, p). pr_read_seq p) (le_progress r) @ [le_read_seq r]))) (\<lambda>q.
             sbind (read_loop V q (le_reads r)) (\<lambda>rds.
             sreturn (r\<lparr>le_reads := rds\<rparr>))) n)"

fun apply_loop ::
  "('e, 's, 'g) node_env \<Rightarrow> raft_term \<Rightarrow> raft_entry result list \<Rightarrow> leader \<Rightarrow> (('e, 's, 'g) raw_node, leader) op" where
  "apply_loop V t [] r = sreturn r"
| "apply_loop V t (item # items) r =
     sbind (slift item) (\<lambda>x.
     let w = map_of (le_writes r) (re_index x);
         r = r\<lparr>le_writes := AList.delete (re_index x) (le_writes r)\<rparr> in
     sbind (sresult (on_state (sm_apply (ne_state V) x))) (\<lambda>res.
     sbind (case w of
         Some w \<Rightarrow> (\<lambda>n. send_via \<lparr>ev_from = rn_id n, ev_term = t, ev_to = wr_from w,
           ev_message = ClientResponse (wr_id w) (result_map WriteResponseOf res)\<rparr> n)
       | None \<Rightarrow> sreturn ()) (\<lambda>_.
     apply_loop V t items r)))"

definition maybe_commit_and_apply ::
  "('e, 's, 'g) node_env \<Rightarrow> leader \<Rightarrow> (('e, 's, 'g) raw_node, raft_index \<times> leader) op" where
  "maybe_commit_and_apply V r n =
     (let (li, _) = get_last_index (rn_log n); (old_index, old_term) = get_commit_index (rn_log n) in
      sbind (sread (quorum_value (map (\<lambda>(_, p). pr_match_index p) (le_progress r) @ [li]))) (\<lambda>ci.
        if ci \<le> old_index then sreturn (old_index, r)
        else
          sbind (sread (\<lambda>n. log_get (ne_engine V) (ne_codec V) ci (rn_log n))) (\<lambda>x.
            case x of
              None \<Rightarrow> slift (Panic ''commit index {commit_index} missing'')
            | Some x \<Rightarrow>
                if re_term x \<noteq> node_term n then sreturn (old_index, r)
                else
                  sbind (on_log (log_commit (ne_engine V) (ne_codec V) ci)) (\<lambda>_.
                  sbind (sread (\<lambda>n. log_scan_apply (ne_engine V) (ne_codec V)
                    (sm_get_applied_index (ne_state V) (rn_state n)) (rn_log n))) (\<lambda>items.
                  sbind (apply_loop V (node_term n) items r) (\<lambda>r.
                  sbind (if old_term \<noteq> node_term n then maybe_read V r else sreturn r) (\<lambda>r.
                  sreturn (ci, r))))))) n)"

definition raft_status_of :: "('e, 's, 'g) node_env \<Rightarrow> leader \<Rightarrow> ('e, 's, 'g) raw_node \<Rightarrow> raft_status result" where
  "raft_status_of V r n =
     rbind (log_status (ne_engine V) (rn_log n)) (\<lambda>st.
     Ok \<lparr>rs_leader = rn_id n, rs_term = node_term n,
       rs_match_index = foldl (\<lambda>m (i, x). bt_insert i x m) []
         (map (\<lambda>(i, p). (i, pr_match_index p)) (le_progress r) @ [(rn_id n, fst (get_last_index (rn_log n)))]),
       rs_commit_index = fst (get_commit_index (rn_log n)),
       rs_applied_index = sm_get_applied_index (ne_state V) (rn_state n),
       rs_storage = st\<rparr>)"

definition leader_into_follower ::
  "('e, 's, 'g) node_env \<Rightarrow> raft_term \<Rightarrow> leader \<Rightarrow> (('e, 's, 'g) raw_node, follower) op" where
  "leader_into_follower V t r =
     sbind (sread (\<lambda>n. rassert (t > node_term n) ''leader can only become follower in later term'')) (\<lambda>_.
     sbind (sfor (sort_key wr_id (map snd (le_writes r))) (\<lambda>w. send (wr_from w) (ClientResponse (wr_id w) (Err Abort)))) (\<lambda>_.
     sbind (sfor (sort_key rd_id (le_reads r)) (\<lambda>rd. send (rd_from rd) (ClientResponse (rd_id rd) (Err Abort)))) (\<lambda>_.
     sbind (on_log (set_term_vote (ne_engine V) (ne_codec V) t None)) (\<lambda>_.
     sbind (random_election_timeout V) (\<lambda>e.
     sreturn (follower_new None e))))))"

definition into_leader :: "('e, 's, 'g) node_env \<Rightarrow> candidate \<Rightarrow> (('e, 's, 'g) raw_node, leader) op" where
  "into_leader V c n =
     (let (t, v) = get_term_vote (rn_log n); (li, _) = get_last_index (rn_log n) in
      sbind (slift (rassert (t \<noteq> 0) ''leaders can't have term 0'')) (\<lambda>_.
      sbind (slift (rassert (v = Some (rn_id n)) ''leader did not vote for self'')) (\<lambda>_.
      sbind (propose V None (leader_new (rn_peers n) li)) (\<lambda>(_, r).
      sbind (maybe_commit_and_apply V r) (\<lambda>(_, r).
      heartbeat r)))) n)"

definition recv_heartbeat_response ::
  "('e, 's, 'g) node_env \<Rightarrow> node_id \<Rightarrow> raft_index \<Rightarrow> read_sequence \<Rightarrow> leader \<Rightarrow> (('e, 's, 'g) raw_node, leader) op" where
  "recv_heartbeat_response V from mi seq r n =
     (let li = fst (get_last_index (rn_log n)) in
      sbind (slift (rassert (mi \<le> li) ''future match index'')) (\<lambda>_.
      sbind (slift (rassert (seq \<le> le_read_seq r) ''future read sequence number'')) (\<lambda>_.
      sbind (on_progress from (advance_read seq) r) (\<lambda>(b, r).
      sbind (if b then maybe_read V r else sreturn r) (\<lambda>r.
      sbind (if mi = 0
             then sbind (on_progress from (regress_next li) r) (\<lambda>(_, r). maybe_send_append V from True r)
             else sreturn r) (\<lambda>r.
      sbind (on_progress from (advance mi) r) (\<lambda>(b, r).
      if b then sbind (maybe_commit_and_apply V r) (\<lambda>(_, r). sreturn r) else sreturn r)))))) n)"

definition recv_append_ok ::
  "('e, 's, 'g) node_env \<Rightarrow> node_id \<Rightarrow> raft_index \<Rightarrow> leader \<Rightarrow> (('e, 's, 'g) raw_node, leader) op" where
  "recv_append_ok V from mi r n =
     (let li = fst (get_last_index (rn_log n)) in
      sbind (slift (rassert (mi \<le> li) ''future match index'')) (\<lambda>_.
      sbind (on_progress from (advance mi) r) (\<lambda>(b, r).
      sbind (if b then sbind (maybe_commit_and_apply V r) (\<lambda>(_, r). sreturn r) else sreturn r) (\<lambda>r.
      maybe_send_append V from False r))) n)"

definition recv_append_reject ::
  "('e, 's, 'g) node_env \<Rightarrow> node_id \<Rightarrow> raft_index \<Rightarrow> leader \<Rightarrow> (('e, 's, 'g) raw_node, leader) op" where
  "recv_append_reject V from ri r n =
     (let li = fst (get_last_index (rn_log n)) in
      sbind (slift (rassert (ri \<le> li) ''future reject index'')) (\<lambda>_.
      sbind (slift (get_progress from r)) (\<lambda>p.
        if ri \<le> pr_match_index p then sreturn r
        else sbind (on_progress from (regress_next ri) r) (\<lambda>(b, r).
             if b then maybe_send_append V from True r else sreturn r))) n)"

definition recv_read_response ::
  "('e, 's, 'g) node_env \<Rightarrow> node_id \<Rightarrow> read_sequence \<Rightarrow> leader \<Rightarrow> (('e, 's, 'g) raw_node, leader) op" where
  "recv_read_response V from seq r =
     sbind (on_progress from (advance_read seq) r) (\<lambda>(b, r). if b then maybe_read V r else sreturn r)"

definition leader_client_request ::
  "('e, 's, 'g) node_env \<Rightarrow> node_id \<Rightarrow> request_id \<Rightarrow> request \<Rightarrow> leader \<Rightarrow> (('e, 's, 'g) raw_node, leader) op" where
  "leader_client_request V from i req r =
     (case req of
        WriteRequest command \<Rightarrow>
          sbind (propose V (Some command) r) (\<lambda>(j, r) n.
          let r = r\<lparr>le_writes := AList.update j \<lparr>wr_from = from, wr_id = i\<rparr> (le_writes r)\<rparr> in
          if cluster_size n = 1 then sbind (maybe_commit_and_apply V r) (\<lambda>(_, r). sreturn r) n else (Ok r, n))
      | ReadRequest command \<Rightarrow>
          let seq = le_read_seq r + 1;
              r = r\<lparr>le_read_seq := seq,
                le_reads := le_reads r @ [\<lparr>rd_seq = seq, rd_from = from, rd_id = i, rd_command = command\<rparr>]\<rparr> in
          sbind (broadcast (Read seq)) (\<lambda>_ n.
          if cluster_size n = 1 then maybe_read V r n else (Ok r, n))
      | StatusRequest \<Rightarrow>
          sbind (sresult (sread (raft_status_of V r))) (\<lambda>resp.
          sbind (send from (ClientResponse i (result_map StatusResponseOf resp))) (\<lambda>_. sreturn r)))"

definition leader_receive ::
  "('e, 's, 'g) node_env \<Rightarrow> envelope \<Rightarrow> leader \<Rightarrow> (('e, 's, 'g) raw_node, leader) op" where
  "leader_receive V msg r =
     (case ev_message msg of
        HeartbeatResponse mi seq \<Rightarrow> recv_heartbeat_response V (ev_from msg) mi seq r
      | AppendResponse mi ri \<Rightarrow>
          if ri = 0 \<and> mi > 0 then recv_append_ok V (ev_from msg) mi r
          else if mi = 0 \<and> ri > 0 then recv_append_reject V (ev_from msg) ri r
          else slift (Panic ''invalid message {msg:?}'')
      | ReadResponse seq \<Rightarrow> recv_read_response V (ev_from msg) seq r
      | ClientRequest i req \<Rightarrow> leader_client_request V (ev_from msg) i req r
      | Campaign _ _ \<Rightarrow> sbind (send (ev_from msg) (CampaignResponse False)) (\<lambda>_. sreturn r)
      | CampaignResponse _ \<Rightarrow> sreturn r
      | Heartbeat _ _ _ \<Rightarrow> slift (Panic ''saw other leader {} in term {}'')
      | Append _ _ _ \<Rightarrow> slift (Panic ''saw other leader {} in term {}'')
      | Read _ \<Rightarrow> slift (Panic ''saw other leader {} in term {}'')
      | ClientResponse _ _ \<Rightarrow> slift (Panic ''unexpected message {msg:?}''))"

definition leader_step ::
  "('e, 's, 'g) node_env \<Rightarrow> envelope \<Rightarrow> leader \<Rightarrow> (('e, 's, 'g) raw_node, node_role) op" where
  "leader_step V msg r n =
     (if ev_term msg < node_term n then (Ok (Leader r), n)
      else if ev_term msg > node_term n
      then sbind (leader_into_follower V (ev_term msg) r) (follower_step V msg) n
      else sbind (leader_receive V msg r) (\<lambda>r. sreturn (Leader r)) n)"

definition leader_tick :: "leader \<Rightarrow> (('e, 's, 'g) raw_node, node_role) op" where
  "leader_tick r n =
     (let r = r\<lparr>le_since_heartbeat := le_since_heartbeat r + 1\<rparr> in
      if le_since_heartbeat r \<ge> op_heartbeat_interval (rn_opts n)
      then sbind (heartbeat r) (\<lambda>r. sreturn (Leader r)) n
      else (Ok (Leader r), n))"

section \<open>The step of a candidate, and the node\<close>

definition candidate_receive ::
  "('e, 's, 'g) node_env \<Rightarrow> envelope \<Rightarrow> candidate \<Rightarrow> (('e, 's, 'g) raw_node, node_role) op" where
  "candidate_receive V msg r =
     (case ev_message msg of
        CampaignResponse True \<Rightarrow>
          (let r = r\<lparr>ca_votes := insert (ev_from msg) (ca_votes r)\<rparr> in
           (\<lambda>n. if card (ca_votes r) \<ge> quorum_size n
                then sbind (into_leader V r) (\<lambda>l. sreturn (Leader l)) n
                else (Ok (Candidate r), n)))
      | CampaignResponse False \<Rightarrow> sreturn (Candidate r)
      | Campaign _ _ \<Rightarrow> sbind (send (ev_from msg) (CampaignResponse False)) (\<lambda>_. sreturn (Candidate r))
      | Heartbeat _ _ _ \<Rightarrow> sbind (candidate_into_follower V (ev_term msg) (Some (ev_from msg)) r) (follower_step V msg)
      | Append _ _ _ \<Rightarrow> sbind (candidate_into_follower V (ev_term msg) (Some (ev_from msg)) r) (follower_step V msg)
      | Read _ \<Rightarrow> sbind (candidate_into_follower V (ev_term msg) (Some (ev_from msg)) r) (follower_step V msg)
      | ClientRequest i _ \<Rightarrow>
          sbind (send (ev_from msg) (ClientResponse i (Err Abort))) (\<lambda>_. sreturn (Candidate r))
      | HeartbeatResponse _ _ \<Rightarrow> slift (Panic ''unexpected message {msg:?}'')
      | AppendResponse _ _ \<Rightarrow> slift (Panic ''unexpected message {msg:?}'')
      | ReadResponse _ \<Rightarrow> slift (Panic ''unexpected message {msg:?}'')
      | ClientResponse _ _ \<Rightarrow> slift (Panic ''unexpected message {msg:?}''))"

definition candidate_step ::
  "('e, 's, 'g) node_env \<Rightarrow> envelope \<Rightarrow> candidate \<Rightarrow> (('e, 's, 'g) raw_node, node_role) op" where
  "candidate_step V msg r n =
     (if ev_term msg < node_term n then (Ok (Candidate r), n)
      else if ev_term msg > node_term n
      then sbind (candidate_into_follower V (ev_term msg) None r) (follower_step V msg) n
      else candidate_receive V msg r n)"

definition node_new ::
  "('e, 's, 'g) node_env \<Rightarrow> node_id \<Rightarrow> node_id set \<Rightarrow> 'e raft_log \<Rightarrow> 's \<Rightarrow> channel \<Rightarrow> options \<Rightarrow> 'g \<Rightarrow>
     node_role result \<times> ('e, 's, 'g) raw_node" where
  "node_new V i peers l s tx opts g =
     sbind (raw_node_new V i peers) (\<lambda>r n.
       if cluster_size n = 1
       then sbind (into_candidate V r) (\<lambda>c. sbind (into_leader V c) (\<lambda>ld. sreturn (Leader ld))) n
       else (Ok (Follower r), n))
     \<lparr>rn_id = i, rn_peers = peers, rn_log = l, rn_state = s, rn_tx = tx, rn_opts = opts, rn_rng = g\<rparr>"

definition node_step ::
  "('e, 's, 'g) node_env \<Rightarrow> envelope \<Rightarrow> node_role \<Rightarrow> (('e, 's, 'g) raw_node, node_role) op" where
  "node_step V msg r =
     sbind (sread (\<lambda>n. rassert (ev_to msg = rn_id n) ''message to other node: {msg:?}'')) (\<lambda>_.
     sbind (sread (\<lambda>n. rassert (ev_from msg \<in> rn_peers n \<or> ev_from msg = rn_id n) ''unknown sender: {msg:?}'')) (\<lambda>_.
       case r of
         Candidate c \<Rightarrow> candidate_step V msg c
       | Follower f \<Rightarrow> follower_step V msg f
       | Leader ld \<Rightarrow> leader_step V msg ld))"

definition node_tick :: "('e, 's, 'g) node_env \<Rightarrow> node_role \<Rightarrow> (('e, 's, 'g) raw_node, node_role) op" where
  "node_tick V r =
     (case r of
        Candidate c \<Rightarrow> candidate_tick V c
      | Follower f \<Rightarrow> follower_tick V f
      | Leader ld \<Rightarrow> leader_tick ld)"

end
