(* ===== verification/StateOrder.thy ===== *)
theory StateOrder
  imports DbError
begin

text \<open>
  Operations that keep a preorder on their state. Many facts about a handler say how the state it
  leaves relates to the state it found, whichever branch it took and whether it failed or not:
  a term never decreases, a field does not change, a set only grows. The locale proves once that
  such a fact passes through the combinators the handlers are built from.
\<close>

named_theorems keeps_rules \<open>operations that keep a preorder\<close>

locale state_preorder =
  fixes R :: "'s \<Rightarrow> 's \<Rightarrow> bool"
  assumes le_refl: "R s s"
    and le_trans: "R s t \<Longrightarrow> R t u \<Longrightarrow> R s u"
begin

declare le_refl [simp]

definition keeps :: "('s, 'a) op \<Rightarrow> bool" where
  "keeps m = (\<forall>s. R s (snd (m s)))"

lemma keepsI: "(\<And>s. R s (snd (m s))) \<Longrightarrow> keeps m"
  by (simp add: keeps_def)

lemma keepsD: "keeps m \<Longrightarrow> m s = (x, t) \<Longrightarrow> R s t"
  by (metis keeps_def snd_conv)

lemma keeps_at: "keeps m \<Longrightarrow> R s (snd (m s))"
  by (simp add: keeps_def)

lemma at_bind: "R s (snd (m s)) \<Longrightarrow> (\<And>x t. m s = (Ok x, t) \<Longrightarrow> R t (snd (f x t))) \<Longrightarrow> R s (snd (sbind m f s))"
  by (auto simp: sbind_def split: prod.splits result.splits intro: le_trans)

lemma keeps_bind [keeps_rules]: "keeps m \<Longrightarrow> (\<And>x. keeps (f x)) \<Longrightarrow> keeps (sbind m f)"
  by (auto simp: keeps_def intro: at_bind)

lemma at_keeps_bind [keeps_rules]: "keeps m \<Longrightarrow> (\<And>x. keeps (f x)) \<Longrightarrow> R s (snd (sbind m f s))"
  by (rule keeps_at [OF keeps_bind])

lemma keeps_return [keeps_rules]: "keeps (sreturn x)" "keeps (slift r)" "keeps (sread f)" "keeps (Pair r)"
  by (simp_all add: keeps_def le_refl)

lemma at_return [keeps_rules]: "R s (snd (r, s))"
  by (simp add: le_refl)

lemma keeps_result [keeps_rules]: "keeps m \<Longrightarrow> keeps (sresult m)"
  by (rule keepsI) (auto simp: sresult_def split: prod.splits result.splits dest: keepsD)

lemma keeps_for [keeps_rules]: "(\<And>x. x \<in> set xs \<Longrightarrow> keeps (body x)) \<Longrightarrow> keeps (sfor xs body)"
  by (induction xs) (auto intro!: keeps_rules)

lemma keeps_fold [keeps_rules]: "(\<And>x r. x \<in> set xs \<Longrightarrow> keeps (body x r)) \<Longrightarrow> keeps (sfold xs body r)"
  by (induction xs arbitrary: r) (auto intro!: keeps_rules)

lemma at_for [keeps_rules]: "(\<And>x. x \<in> set xs \<Longrightarrow> keeps (body x)) \<Longrightarrow> R s (snd (sfor xs body s))"
  by (rule keeps_at [OF keeps_for])

lemma keeps_if [keeps_rules]: "(b \<Longrightarrow> keeps m) \<Longrightarrow> (\<not> b \<Longrightarrow> keeps m') \<Longrightarrow> keeps (if b then m else m')"
  by simp

lemma keeps_option [keeps_rules]:
  "(x = None \<Longrightarrow> keeps m) \<Longrightarrow> (\<And>y. x = Some y \<Longrightarrow> keeps (f y)) \<Longrightarrow> keeps (case x of None \<Rightarrow> m | Some y \<Rightarrow> f y)"
  by (simp split: option.split)

lemma keeps_prod [keeps_rules]: "(\<And>a b. x = (a, b) \<Longrightarrow> keeps (f a b)) \<Longrightarrow> keeps (case x of (a, b) \<Rightarrow> f a b)"
  by (simp split: prod.split)

text \<open>An operation written as a function of its state: go to the state and look at its body.\<close>

lemma at_if [keeps_rules]:
  "(b \<Longrightarrow> R s (snd x)) \<Longrightarrow> (\<not> b \<Longrightarrow> R s (snd y)) \<Longrightarrow> R s (snd (if b then x else y))"
  by simp

lemma at_let [keeps_rules]: "R s (snd (f e)) \<Longrightarrow> R s (snd (let x = e in f x))"
  by simp

lemma at_prod [keeps_rules]: "(\<And>a b. x = (a, b) \<Longrightarrow> R s (snd (f a b))) \<Longrightarrow> R s (snd (case x of (a, b) \<Rightarrow> f a b))"
  by (simp split: prod.split)

lemma at_option [keeps_rules]:
  "(x = None \<Longrightarrow> R s (snd a)) \<Longrightarrow> (\<And>y. x = Some y \<Longrightarrow> R s (snd (f y))) \<Longrightarrow>
   R s (snd (case x of None \<Rightarrow> a | Some y \<Rightarrow> f y))"
  by (simp split: option.split)

lemma at_prod_op [keeps_rules]:
  "(\<And>a b. x = (a, b) \<Longrightarrow> R s (snd (f a b s))) \<Longrightarrow> R s (snd ((case x of (a, b) \<Rightarrow> f a b) s))"
  by (simp split: prod.split)

lemma keeps_let [keeps_rules]: "keeps (f e) \<Longrightarrow> keeps (let x = e in f x)"
  by simp

lemma keeps_lam [keeps_rules]:
  "(\<And>s. R s (snd (if b s then x s else y s))) \<Longrightarrow> keeps (\<lambda>s. if b s then x s else y s)"
  "(\<And>s. R s (snd (Let (e s) (f s)))) \<Longrightarrow> keeps (\<lambda>s. Let (e s) (f s))"
  "(\<And>s. R s (snd (sbind (m s) (g s) s))) \<Longrightarrow> keeps (\<lambda>s. sbind (m s) (g s) s)"
  "(\<And>s. R s (snd (case z s of (i, j) \<Rightarrow> h i j s))) \<Longrightarrow> keeps (\<lambda>s. case z s of (i, j) \<Rightarrow> h i j s)"
  by (simp_all add: keeps_def)

end

end
