(* ===== verification/RaftOrder.thy ===== *)
theory RaftOrder
  imports RaftLogProps RaftNode StateOrder
begin

text \<open>
  What every operation of a Raft node does to its term, its vote and the votes it grants, whether
  it succeeds or fails: the preorders \<open>steady\<close> (term and vote stay) and \<open>calm\<close> (the term never
  decreases and a vote never changes within a term; no vote is granted), with the storage engine
  and the log below them. The term and vote are durable: reopening the log from its engine
  finds them.
\<close>

section \<open>Term and vote\<close>

definition tv_le :: "'e raft_log \<Rightarrow> 'e raft_log \<Rightarrow> bool" where
  "tv_le l l' = (rl_term l < rl_term l' \<or>
     rl_term l = rl_term l' \<and> (rl_vote l = None \<or> rl_vote l' = rl_vote l))"

definition grants :: "('e, 's, 'g) raw_node \<Rightarrow> envelope set" where
  "grants n = {m \<in> set (ch_sent (rn_tx n)). ev_message m = CampaignResponse True}"

definition same_node :: "('e, 's, 'g) raw_node \<Rightarrow> ('e, 's, 'g) raw_node \<Rightarrow> bool" where
  "same_node n n' = (rn_id n' = rn_id n \<and> rn_peers n' = rn_peers n \<and> rn_opts n' = rn_opts n)"

context kv_engine
begin

definition durable :: "log_codec \<Rightarrow> 'e raft_log \<Rightarrow> bool" where
  "durable c l = ((\<exists>K. rk.repr (rl_engine l) K \<and>
      K RTermVote = (if rl_term l = 0 then None else Some (enc_term_vote c (rl_term l, rl_vote l)))) \<and>
     (rl_term l = 0 \<longrightarrow> rl_vote l = None))"

definition eng_steady :: "'e \<Rightarrow> 'e \<Rightarrow> bool" where
  "eng_steady e e' = (\<forall>K. rk.repr e K \<longrightarrow> (\<exists>K'. rk.repr e' K' \<and> K' RTermVote = K RTermVote))"

definition log_steady :: "log_codec \<Rightarrow> 'e raft_log \<Rightarrow> 'e raft_log \<Rightarrow> bool" where
  "log_steady c l l' = (rl_term l' = rl_term l \<and> rl_vote l' = rl_vote l \<and> (durable c l \<longrightarrow> durable c l'))"

definition log_calm :: "log_codec \<Rightarrow> 'e raft_log \<Rightarrow> 'e raft_log \<Rightarrow> bool" where
  "log_calm c l l' = (tv_le l l' \<and> (durable c l \<longrightarrow> durable c l'))"

definition steady :: "log_codec \<Rightarrow> ('e, 's, 'g) raw_node \<Rightarrow> ('e, 's, 'g) raw_node \<Rightarrow> bool" where
  "steady c n n' = (same_node n n' \<and> log_steady c (rn_log n) (rn_log n') \<and> grants n' = grants n)"

definition calm :: "log_codec \<Rightarrow> ('e, 's, 'g) raw_node \<Rightarrow> ('e, 's, 'g) raw_node \<Rightarrow> bool" where
  "calm c n n' = (same_node n n' \<and> log_calm c (rn_log n) (rn_log n') \<and> grants n' = grants n)"

end

sublocale kv_engine \<subseteq> es: state_preorder eng_steady
  by unfold_locales (auto simp: eng_steady_def, metis)

sublocale kv_engine \<subseteq> ls: state_preorder "log_steady c" for c
  by unfold_locales (auto simp: log_steady_def)

sublocale kv_engine \<subseteq> lc: state_preorder "log_calm c" for c
  by unfold_locales (auto simp: log_calm_def tv_le_def)

sublocale kv_engine \<subseteq> st: state_preorder "steady c :: ('e, 's, 'g) raw_node \<Rightarrow> _" for c
  by unfold_locales (auto simp: steady_def same_node_def intro: ls.le_refl ls.le_trans)

sublocale kv_engine \<subseteq> ca: state_preorder "calm c :: ('e, 's, 'g) raw_node \<Rightarrow> _" for c
  by unfold_locales (auto simp: calm_def same_node_def intro: lc.le_refl lc.le_trans)

section \<open>The log\<close>

context kv_engine
begin

lemma engine_keeps [keeps_rules]:
  "k \<noteq> RTermVote \<Longrightarrow> es.keeps (e_set E (rkey_encode k) v)"
  "k \<noteq> RTermVote \<Longrightarrow> es.keeps (e_delete E (rkey_encode k))"
  "es.keeps (e_flush E)"
proof -
  show "es.keeps (e_set E (rkey_encode k) v)" if "k \<noteq> RTermVote"
  proof (rule es.keepsI)
    fix e
    show "eng_steady e (snd (e_set E (rkey_encode k) v e))"
      using rk.repr_set [of e _ k v] that by (fastforce simp: eng_steady_def)
  qed
  show "es.keeps (e_delete E (rkey_encode k))" if "k \<noteq> RTermVote"
  proof (rule es.keepsI)
    fix e
    show "eng_steady e (snd (e_delete E (rkey_encode k) e))"
      using rk.repr_delete [of e _ k] that by (fastforce simp: eng_steady_def)
  qed
  show "es.keeps (e_flush E)"
  proof (rule es.keepsI)
    fix e
    show "eng_steady e (snd (e_flush E e))"
      using rk.repr_flush [of e] by (fastforce simp: eng_steady_def)
  qed
qed

lemma log_steady_engine:
  "eng_steady (rl_engine l) (rl_engine l') \<Longrightarrow> rl_term l' = rl_term l \<Longrightarrow> rl_vote l' = rl_vote l \<Longrightarrow> log_steady c l l'"
  by (auto simp: log_steady_def durable_def eng_steady_def) metis+

lemma on_engine_keeps [keeps_rules]: "es.keeps m \<Longrightarrow> ls.keeps c (on_engine m)"
  by (rule ls.keepsI) (auto simp: on_engine_def split: prod.split intro!: log_steady_engine dest: es.keepsD)

lemma fields_keep [keeps_rules]:
  "ls.keeps c (\<lambda>l. (Ok x, l\<lparr>rl_last_index := i, rl_last_term := t\<rparr>))"
  "ls.keeps c (\<lambda>l. (Ok x, l\<lparr>rl_commit_index := i, rl_commit_term := t\<rparr>))"
  by (auto intro!: ls.keepsI log_steady_engine es.le_refl)

lemma log_append_keeps [keeps_rules]: "E' = E \<Longrightarrow> ls.keeps c (log_append E' c' command)"
  by (rule ls.keepsI) (auto simp: log_append_def Let_def intro!: keeps_rules)

lemma log_commit_keeps [keeps_rules]: "E' = E \<Longrightarrow> ls.keeps c (log_commit E' c' i)"
  unfolding log_commit_def
  by (simp, intro keeps_rules, rule ls.keepsI) (auto split: option.split intro!: keeps_rules)

lemma log_splice_keeps [keeps_rules]:
  assumes "E' = E"
  shows "ls.keeps c (log_splice E' c' es)"
proof -
  have "ls.keeps c (splice_write E c' rest x)" for rest x
    by (rule ls.keepsI) (auto simp: splice_write_def intro!: keeps_rules)
  then show ?thesis
    by (intro ls.keepsI) (auto simp: assms log_splice_def intro!: keeps_rules)
qed

lemma log_calm_steady: "ls.keeps c m \<Longrightarrow> lc.keeps c m"
  by (auto simp: ls.keeps_def lc.keeps_def log_steady_def log_calm_def tv_le_def)

lemma set_term_vote_durable:
  assumes "durable c l"
  shows "durable c (snd (set_term_vote E c t v l))"
proof -
  obtain K where K: "rk.repr (rl_engine l) K" using assms by (auto simp: durable_def)
  let ?K = "K(RTermVote \<mapsto> enc_term_vote c (t, v))"
  obtain e1 where e1: "e_set E (rkey_encode RTermVote) (enc_term_vote c (t, v)) (rl_engine l) = (Ok (), e1)" "rk.repr e1 ?K"
    using rk.repr_set [OF K] by blast
  obtain e2 where e2: "e_flush E e1 = (Ok (), e2)" "rk.repr e2 ?K"
    using rk.repr_flush [OF e1(2)] by blast
  have "durable c (l\<lparr>rl_engine := e2, rl_term := t, rl_vote := v\<rparr>)" if "t > 0"
    using e2(2) that by (auto simp: durable_def intro!: exI [of _ ?K])
  then show ?thesis
    using e1(1) e2(1) assms by (auto simp: set_term_vote_def sbind_def rassert_def on_engine_def)
qed

lemma set_term_vote_tv_le: "tv_le l (snd (set_term_vote E c t v l))"
proof (cases "0 < t \<and> rl_term l \<le> t \<and> (rl_term l < t \<or> rl_vote l = None \<or> v = rl_vote l)")
  case True
  obtain r1 e1 where 1: "e_set E (rkey_encode RTermVote) (enc_term_vote c (t, v)) (rl_engine l) = (r1, e1)" by fastforce
  obtain r2 e2 where 2: "e_flush E e1 = (r2, e2)" by fastforce
  show ?thesis
    using True by (cases r1; cases r2) (auto simp: set_term_vote_def sbind_def rassert_def on_engine_def 1 2 tv_le_def)
next
  case False
  then have "snd (set_term_vote E c t v l) = l"
    by (auto simp: set_term_vote_def sbind_def rassert_def not_le not_less)
  then show ?thesis by (simp add: tv_le_def)
qed

lemma set_term_vote_keeps [keeps_rules]: "E' = E \<Longrightarrow> c' = c \<Longrightarrow> lc.keeps c (set_term_vote E' c' t v)"
  by (rule lc.keepsI) (simp add: log_calm_def set_term_vote_durable set_term_vote_tv_le)

section \<open>The node\<close>

lemma on_log_steady [keeps_rules]: "ls.keeps c m \<Longrightarrow> st.keeps c (on_log m)"
  by (rule st.keepsI)
    (auto simp: on_log_def steady_def same_node_def grants_def split: prod.split dest: ls.keepsD)

lemma on_log_calm [keeps_rules]: "lc.keeps c m \<Longrightarrow> ca.keeps c (on_log m)"
  by (rule ca.keepsI)
    (auto simp: on_log_def calm_def same_node_def grants_def split: prod.split dest: lc.keepsD)

lemma on_state_keeps [keeps_rules]: "st.keeps c (on_state m)"
  by (rule st.keepsI) (auto simp: on_state_def steady_def same_node_def grants_def split: prod.split)

lemma random_keeps [keeps_rules]: "st.keeps c (random_election_timeout V)"
  by (rule st.keepsI)
    (auto simp: random_election_timeout_def steady_def same_node_def grants_def Let_def split: prod.split)

lemma send_via_at [keeps_rules]:
  "ev_message m \<noteq> CampaignResponse True \<Longrightarrow> steady c n (snd (send_via m n))"
  by (auto simp: send_via_def steady_def same_node_def grants_def)

lemma send_keeps [keeps_rules]: "m \<noteq> CampaignResponse True \<Longrightarrow> st.keeps c (send i m)"
  by (rule st.keepsI) (auto simp: send_def intro!: keeps_rules)

lemma broadcast_keeps [keeps_rules]: "m \<noteq> CampaignResponse True \<Longrightarrow> st.keeps c (broadcast m)"
  by (rule st.keepsI) (auto simp: broadcast_def intro!: keeps_rules)

lemma calm_steady: "st.keeps c m \<Longrightarrow> ca.keeps c m"
  by (auto simp: st.keeps_def ca.keeps_def steady_def calm_def log_steady_def log_calm_def tv_le_def)

lemma abort_forwarded_keeps [keeps_rules]: "st.keeps c (abort_forwarded r)"
  by (rule st.keepsI) (auto simp: abort_forwarded_def intro!: keeps_rules)

lemma maybe_apply_keeps [keeps_rules]: "st.keeps c (maybe_apply V)"
  unfolding maybe_apply_def by (intro keeps_rules)

lemma raw_node_new_keeps [keeps_rules]: "st.keeps c (raw_node_new V i peers)"
  unfolding raw_node_new_def by (intro keeps_rules)

lemma follow_leader_keeps [keeps_rules]: "st.keeps c (follower_into_follower V t (Some ld) r)"
  unfolding follower_into_follower_def by (simp, intro keeps_rules)

lemma check_leader_keeps [keeps_rules]: "st.keeps c (check_leader V msg r)"
  unfolding check_leader_def by (intro keeps_rules)

lemma recv_heartbeat_keeps [keeps_rules]:
  "ne_engine V = E \<Longrightarrow> st.keeps c (recv_heartbeat V msg li ci seq r)"
  unfolding recv_heartbeat_def by (intro keeps_rules) simp_all

lemma recv_append_keeps [keeps_rules]:
  "ne_engine V = E \<Longrightarrow> st.keeps c (recv_append V msg bi bt es r)"
  unfolding recv_append_def by (intro keeps_rules) simp_all

lemma recv_read_keeps [keeps_rules]: "st.keeps c (recv_read V msg seq r)"
  unfolding recv_read_def by (intro keeps_rules) simp_all

lemma recv_client_keeps [keeps_rules]:
  "ev_message msg \<noteq> CampaignResponse True \<Longrightarrow> st.keeps c (recv_client_request msg i r)"
  "st.keeps c (recv_client_response msg i resp r)"
  unfolding recv_client_request_def recv_client_response_def by (intro keeps_rules; simp)+

section \<open>Leaders\<close>

lemma on_progress_keeps [keeps_rules]: "st.keeps c (on_progress i f r)"
  unfolding on_progress_def by (intro keeps_rules)

lemma heartbeat_keeps [keeps_rules]: "st.keeps c (heartbeat r)"
  by (rule st.keepsI) (auto simp: heartbeat_def intro!: keeps_rules)

lemma maybe_send_append_keeps [keeps_rules]: "st.keeps c (maybe_send_append V peer probe r)"
  by (rule st.keepsI) (unfold maybe_send_append_def, intro keeps_rules, simp_all)

lemma propose_keeps [keeps_rules]: "ne_engine V = E \<Longrightarrow> st.keeps c (propose V command r)"
  unfolding propose_def by (intro keeps_rules)

lemma read_loop_keeps [keeps_rules]: "st.keeps c (read_loop V q rds)"
  by (induction rds) (auto intro!: keeps_rules)

lemma maybe_read_keeps [keeps_rules]: "st.keeps c (maybe_read V r)"
  by (rule st.keepsI) (unfold maybe_read_def, intro keeps_rules)

lemma apply_loop_keeps [keeps_rules]: "st.keeps c (apply_loop V t items r)"
proof (induction items arbitrary: r)
  case (Cons item items)
  have "st.keeps c (\<lambda>n. send_via \<lparr>ev_from = rn_id n, ev_term = t, ev_to = wr_from w,
      ev_message = ClientResponse i resp\<rparr> n)" for w i resp
    by (rule st.keepsI) (simp add: keeps_rules)
  with Cons show ?case by (simp only: apply_loop.simps) (intro keeps_rules)
qed (simp add: keeps_rules)

lemma maybe_commit_and_apply_keeps [keeps_rules]:
  "ne_engine V = E \<Longrightarrow> st.keeps c (maybe_commit_and_apply V r)"
  by (rule st.keepsI) (unfold maybe_commit_and_apply_def, intro keeps_rules)

lemma into_leader_keeps [keeps_rules]: "ne_engine V = E \<Longrightarrow> st.keeps c (into_leader V r)"
  by (rule st.keepsI) (unfold into_leader_def, intro keeps_rules)

lemma recv_responses_keep [keeps_rules]:
  assumes "ne_engine V = E"
  shows "st.keeps c (recv_heartbeat_response V i mi seq r)" "st.keeps c (recv_append_ok V i mi r)"
    "st.keeps c (recv_append_reject V i mi r)" "st.keeps c (recv_read_response V i seq r)"
    "st.keeps c (leader_client_request V i j req r)"
proof -
  show "st.keeps c (recv_heartbeat_response V i mi seq r)"
    by (rule st.keepsI) (unfold recv_heartbeat_response_def, intro keeps_rules assms)
  show "st.keeps c (recv_append_ok V i mi r)"
    by (rule st.keepsI) (unfold recv_append_ok_def, intro keeps_rules assms)
  show "st.keeps c (recv_append_reject V i mi r)"
    by (rule st.keepsI) (unfold recv_append_reject_def, intro keeps_rules assms)
  show "st.keeps c (recv_read_response V i seq r)"
    unfolding recv_read_response_def by (intro keeps_rules)
  show "st.keeps c (leader_client_request V i j req r)"
  proof (cases req)
    case (ReadRequest x)
    show ?thesis
      unfolding leader_client_request_def ReadRequest request.case Let_def
      by (intro keeps_rules) (simp_all add: st.keeps_at [OF maybe_read_keeps])
  next
    case (WriteRequest x)
    show ?thesis
      unfolding leader_client_request_def WriteRequest request.case by (intro keeps_rules assms)
  next
    case StatusRequest
    show ?thesis
      unfolding leader_client_request_def StatusRequest request.case by (intro keeps_rules) simp
  qed
qed

lemma leader_receive_keeps [keeps_rules]: "ne_engine V = E \<Longrightarrow> st.keeps c (leader_receive V msg r)"
  unfolding leader_receive_def
  by (cases "ev_message msg"; simp only: message.case) (intro keeps_rules; simp)+

lemma leader_tick_keeps [keeps_rules]: "st.keeps c (leader_tick r)"
  by (rule st.keepsI) (unfold leader_tick_def, intro keeps_rules)

section \<open>Changes of term\<close>

lemmas calm_leaves [keeps_rules] =
  calm_steady [OF abort_forwarded_keeps] calm_steady [OF maybe_apply_keeps]
  calm_steady [OF random_keeps] calm_steady [OF broadcast_keeps] calm_steady [OF send_keeps]

lemma new_term_keeps [keeps_rules]:
  assumes "ne_engine V = E" "c = ne_codec V"
  shows "ca.keeps c (follower_into_follower V t ldr r)" "ca.keeps c (candidate_into_follower V t ldr cd)"
    "ca.keeps c (leader_into_follower V t ld)" "ca.keeps c (campaign V cd)" "ca.keeps c (into_candidate V r)"
proof -
  show "ca.keeps c (follower_into_follower V t ldr r)"
    unfolding follower_into_follower_def by (intro keeps_rules) (simp_all add: assms)
  show "ca.keeps c (candidate_into_follower V t ldr cd)"
    unfolding candidate_into_follower_def by (intro keeps_rules) (simp_all add: assms)
  show "ca.keeps c (leader_into_follower V t ld)"
    unfolding leader_into_follower_def by (intro keeps_rules) (simp_all add: assms)
  show camp: "ca.keeps c (campaign V cd)" for cd
    by (rule ca.keepsI) (unfold campaign_def, intro keeps_rules, simp_all add: assms)
  show "ca.keeps c (into_candidate V r)"
    unfolding into_candidate_def by (intro keeps_rules camp)
qed

end

end
