(* ===== verification/RaftElection.thy ===== *)
theory RaftElection
  imports RaftOrder
begin

text \<open>
  Elections in a cluster. A cluster is a set of nodes that run or are down, the messages ever
  sent, and two history variables: the votes nodes stored and the nodes that became leader.
  Messages may be lost, reordered and delivered twice, nodes may crash at any time and restart
  from their storage engine. The theorem is election safety: at most one leader per term.
\<close>

section \<open>Grants and roles\<close>

lemma on_log_eq: "on_log f n = (r, n') \<longleftrightarrow> (\<exists>l. f (rn_log n) = (r, l) \<and> n' = n\<lparr>rn_log := l\<rparr>)"
  by (auto simp: on_log_def split: prod.split)

lemma random_log: "random_election_timeout V n = (r, n') \<Longrightarrow> rn_log n' = rn_log n \<and> rn_id n' = rn_id n"
  by (auto simp: random_election_timeout_def Let_def split: if_splits prod.splits)

lemma set_term_vote_Ok:
  "set_term_vote E c t v l = (Ok u, l') \<Longrightarrow> rl_term l' = t \<and> rl_vote l' = v"
  by (auto simp: set_term_vote_def sbind_eq_Ok on_engine_def split: if_splits prod.splits)

context kv_engine
begin

definition granting :: "log_codec \<Rightarrow> ('e, 's, 'g) raw_node \<Rightarrow> ('e, 's, 'g) raw_node \<Rightarrow> bool" where
  "granting c n n' = (same_node n n' \<and> log_calm c (rn_log n) (rn_log n') \<and>
     (\<forall>m \<in> grants n' - grants n. ev_from m = rn_id n' \<and> ev_term m = rl_term (rn_log n') \<and>
        rl_vote (rn_log n') = Some (ev_to m)))"

lemma calm_granting: "calm c n n' \<Longrightarrow> granting c n n'"
  by (auto simp: calm_def granting_def)

lemma steady_calm: "steady c n n' \<Longrightarrow> calm c n n'"
  by (auto simp: steady_def calm_def log_steady_def log_calm_def tv_le_def)

lemma calm_granting_trans: "calm c n n1 \<Longrightarrow> granting c n1 n2 \<Longrightarrow> granting c n n2"
  using lc.le_trans by (fastforce simp: calm_def granting_def same_node_def)

lemma granting_bind:
  assumes "ca.keeps c m" "\<And>x n1. granting c n1 (snd (f x n1))"
  shows "granting c n (snd (sbind m f n))"
proof -
  obtain r n1 where m: "m n = (r, n1)" by fastforce
  have n1: "calm c n n1" using ca.keepsD [OF assms(1) m] .
  show ?thesis
    by (cases r) (use m n1 assms(2) in \<open>auto simp: sbind_def intro: calm_granting calm_granting_trans\<close>)
qed

lemma granting_steady: "st.keeps c m \<Longrightarrow> granting c n (snd (m n))"
  using calm_granting [OF steady_calm [OF st.keeps_at]] .

lemma recv_campaign_granting:
  assumes "ne_engine V = E" "c = ne_codec V"
  shows "granting c n (snd (recv_campaign V msg li lt r n))"
proof -
  have refuse: "granting c n (snd (sbind (send (ev_from msg) (CampaignResponse False)) (\<lambda>_. sreturn r) n))"
    by (rule granting_steady) (intro keeps_rules, simp)
  obtain r1 l1 where 1: "set_term_vote E c (ev_term msg) (Some (ev_from msg)) (rn_log n) = (r1, l1)" by fastforce
  have calm: "log_calm c (rn_log n) l1"
    using lc.keepsD [OF set_term_vote_keeps 1] by simp
  have tv: "rl_term l1 = ev_term msg \<and> rl_vote l1 = Some (ev_from msg)" if "r1 = Ok ()"
    using set_term_vote_Ok [of E c "ev_term msg" "Some (ev_from msg)" "rn_log n" "()" l1] 1 that by simp
  have grant: "granting c n (snd (sbind (on_log (set_term_vote E c (ev_term msg) (Some (ev_from msg)))) (\<lambda>_.
      sbind (send (ev_from msg) (CampaignResponse True)) (\<lambda>_. sreturn r)) n))"
    by (cases r1) (use calm tv 1 in
      \<open>auto simp: sbind_def on_log_def send_def send_via_def node_term_def get_term_vote_def granting_def
        same_node_def grants_def\<close>)
  show ?thesis
    using refuse grant unfolding recv_campaign_def assms by (simp add: Let_def split: prod.split)
qed

lemma follower_receive_granting:
  assumes "ne_engine V = E" "c = ne_codec V"
  shows "granting c n (snd (follower_receive V msg r n))"
proof -
  let ?r = "if Some (ev_from msg) = fo_leader r then r\<lparr>fo_leader_seen := 0\<rparr> else r"
  show ?thesis
  proof (cases "\<exists>li lt. ev_message msg = Campaign li lt")
    case True
    then obtain li lt where m: "ev_message msg = Campaign li lt" by blast
    have "snd (follower_receive V msg r n) = snd (recv_campaign V msg li lt ?r n)"
      by (auto simp: follower_receive_def m sbind_def split: prod.splits result.splits)
    with recv_campaign_granting [OF assms] show ?thesis by simp
  next
    case False
    then have "st.keeps c (follower_receive V msg r)"
      unfolding follower_receive_def Let_def
      by (cases "ev_message msg"; simp only: message.case; intro keeps_rules) (simp_all add: assms(1))
    then show ?thesis by (rule granting_steady)
  qed
qed

lemma follower_step_granting:
  assumes "ne_engine V = E" "c = ne_codec V"
  shows "granting c n (snd (follower_step V msg r n))"
proof -
  have "granting c n n" by (intro calm_granting) simp
  moreover have "granting c n (snd (sbind (follower_into_follower V (ev_term msg) None r) (follower_receive V msg) n))"
    by (intro granting_bind new_term_keeps follower_receive_granting assms)
  ultimately show ?thesis
    using follower_receive_granting [OF assms] by (simp add: follower_step_def)
qed

text \<open>The recursive equation of the source for a follower's step.\<close>

lemma into_follower_term:
  "follower_into_follower V t None r n = (Ok r', n') \<Longrightarrow> ne_engine V = E \<Longrightarrow> node_term n' = t"
  by (auto simp: follower_into_follower_def sbind_eq_Ok on_log_eq node_term_def get_term_vote_def
      dest!: set_term_vote_Ok random_log)

lemma follower_step_rec:
  assumes "ne_engine V = E"
  shows "follower_step V msg r n =
     (if ev_term msg < node_term n then (Ok (Follower r), n)
      else if ev_term msg > node_term n
      then sbind (follower_into_follower V (ev_term msg) None r) (follower_step V msg) n
      else follower_receive V msg r n)"
proof -
  have "sbind (follower_into_follower V (ev_term msg) None r) (follower_receive V msg) n =
      sbind (follower_into_follower V (ev_term msg) None r) (follower_step V msg) n"
    using into_follower_term [OF _ assms, of "ev_term msg" r n]
    by (auto simp: sbind_def follower_step_def split: prod.splits result.splits)
  then show ?thesis by (simp add: follower_step_def)
qed

lemma candidate_step_granting:
  assumes "ne_engine V = E" "c = ne_codec V"
  shows "granting c n (snd (candidate_step V msg r n))"
proof -
  have follow: "granting c n (snd (sbind (candidate_into_follower V (ev_term msg) ldr r) (follower_step V msg) n))" for ldr
    by (intro granting_bind new_term_keeps follower_step_granting assms)
  have refl: "granting c n n" by (intro calm_granting) simp
  have lead: "granting c n (snd (sbind (into_leader V r') (\<lambda>l. sreturn (Leader l)) n))" for r'
    by (intro granting_steady keeps_rules) (simp add: assms)
  have "granting c n (snd (sbind (send i m) (\<lambda>_. sreturn x) n))" if "m \<noteq> CampaignResponse True"
    for i m and x :: node_role by (rule granting_steady) (intro keeps_rules that)
  then show ?thesis
    using follow refl lead
    by (auto simp: candidate_step_def candidate_receive_def Let_def split: message.split bool.split)
qed

lemma leader_step_granting:
  assumes "ne_engine V = E" "c = ne_codec V"
  shows "granting c n (snd (leader_step V msg r n))"
proof -
  have "granting c n (snd (sbind (leader_into_follower V (ev_term msg) r) (follower_step V msg) n))"
    by (intro granting_bind new_term_keeps follower_step_granting assms)
  moreover have "granting c n (snd (sbind (leader_receive V msg r) (\<lambda>r. sreturn (Leader r)) n))"
    by (intro granting_steady keeps_rules) (simp add: assms)
  moreover have "granting c n n" by (intro calm_granting) simp
  ultimately show ?thesis by (simp add: leader_step_def)
qed

lemma node_step_granting:
  assumes "ne_engine V = E" "c = ne_codec V"
  shows "granting c n (snd (node_step V msg r n))"
proof -
  have "granting c n n" by (intro calm_granting) simp
  then show ?thesis
    using candidate_step_granting [OF assms] follower_step_granting [OF assms] leader_step_granting [OF assms]
    by (auto simp: node_step_def sbind_def rassert_def split: node_role.split)
qed

lemma node_tick_calm:
  assumes "ne_engine V = E" "c = ne_codec V"
  shows "ca.keeps c (node_tick V r)"
proof (cases r)
  case (Candidate cd)
  show ?thesis
    unfolding node_tick_def Candidate node_role.case candidate_tick_def by (intro keeps_rules assms)
next
  case (Follower f)
  show ?thesis
    unfolding node_tick_def Follower node_role.case follower_tick_def by (intro keeps_rules assms)
next
  case (Leader l)
  show ?thesis
    unfolding node_tick_def Leader node_role.case by (rule calm_steady [OF leader_tick_keeps])
qed

lemma node_new_calm:
  assumes "ne_engine V = E" "c = ne_codec V"
  shows "calm c \<lparr>rn_id = i, rn_peers = peers, rn_log = l, rn_state = s, rn_tx = tx, rn_opts = opts, rn_rng = g\<rparr>
    (snd (node_new V i peers l s tx opts g))"
  unfolding node_new_def
  by (intro keeps_rules calm_steady [OF raw_node_new_keeps] calm_steady [OF into_leader_keeps] assms)

text \<open>Which role a successful call ends in.\<close>

lemma follower_step_role: "follower_step V msg r n = (Ok r', n') \<Longrightarrow> \<exists>f. r' = Follower f"
  by (auto simp: follower_step_def follower_receive_def Let_def sbind_eq_Ok split: if_splits)

lemma campaign_Ok:
  fixes V :: "('e, 's, 'g) node_env"
  assumes "campaign V r n = (Ok cd, n')"
  shows "ca_votes cd = {rn_id n} \<and> rl_vote (rn_log n') = Some (rn_id n) \<and> rn_id n' = rn_id n"
proof -
  obtain e n1 l2 n3 li lt where 1: "random_election_timeout V n = (Ok e, n1)"
    and 2: "set_term_vote (ne_engine V) (ne_codec V) (node_term n + 1) (Some (rn_id n)) (rn_log n1) = (Ok (), l2)"
    and 3: "broadcast (Campaign li lt) (n1\<lparr>rn_log := l2\<rparr>) = (Ok (), n')"
    and cd: "cd = (candidate_new e)\<lparr>ca_votes := {rn_id n}\<rparr>"
    using assms by (auto simp: campaign_def Let_def sbind_eq_Ok on_log_eq case_prod_beta)
  have "steady (ne_codec V) (n1\<lparr>rn_log := l2\<rparr>) n'"
    using st.keepsD [OF broadcast_keeps 3] by simp
  then show ?thesis
    using set_term_vote_Ok [OF 2] random_log [OF 1] cd by (simp add: steady_def log_steady_def same_node_def)
qed

lemma into_candidate_Ok:
  fixes V :: "('e, 's, 'g) node_env"
  assumes "into_candidate V r n = (Ok cd, n')"
  shows "ca_votes cd = {rn_id n'} \<and> rl_vote (rn_log n') = Some (rn_id n')"
  using assms by (auto simp: into_candidate_def sbind_eq_Ok dest!: campaign_Ok)

lemma into_leader_vote: "into_leader V cd n = (Ok ld, n') \<Longrightarrow> rl_vote (rn_log n) = Some (rn_id n)"
  by (auto simp: into_leader_def sbind_eq_Ok get_term_vote_def split: prod.splits)

lemma node_tick_role:
  fixes V :: "('e, 's, 'g) node_env"
  assumes "node_tick V r n = (Ok r', n')"
  shows "case r' of
      Follower f \<Rightarrow> True
    | Candidate cd \<Rightarrow> (\<exists>cd0. r = Candidate cd0 \<and> ca_votes cd = ca_votes cd0 \<and> n' = n) \<or>
        ca_votes cd = {rn_id n'} \<and> rl_vote (rn_log n') = Some (rn_id n')
    | Leader ld \<Rightarrow> (\<exists>ld0. r = Leader ld0) \<and> steady c n n'"
proof (cases r)
  case (Candidate cd)
  then show ?thesis
    using assms by (auto simp: node_tick_def candidate_tick_def Let_def sbind_eq_Ok split: if_splits dest!: campaign_Ok)
next
  case (Follower f)
  then show ?thesis
    using assms by (auto simp: node_tick_def follower_tick_def Let_def sbind_eq_Ok split: if_splits dest!: into_candidate_Ok)
next
  case (Leader ld)
  then have run: "leader_tick ld n = (Ok r', n')" using assms by (simp add: node_tick_def)
  moreover have "\<exists>ld'. r' = Leader ld'"
    using run by (auto simp: leader_tick_def Let_def sbind_eq_Ok split: if_splits)
  ultimately show ?thesis
    using st.keepsD [OF leader_tick_keeps run, of c] Leader by auto
qed

lemma node_step_role:
  assumes V: "ne_engine V = E" and run: "node_step V msg r n = (Ok r', n')"
  shows "ev_to msg = rn_id n \<and> (ev_from msg \<in> rn_peers n \<or> ev_from msg = rn_id n)"
    and "case r' of
      Follower f \<Rightarrow> True
    | Candidate cd \<Rightarrow> (\<exists>cd0. r = Candidate cd0 \<and> steady c n n' \<and> (ca_votes cd = ca_votes cd0 \<or>
        ca_votes cd = insert (ev_from msg) (ca_votes cd0) \<and> ev_message msg = CampaignResponse True \<and>
        ev_term msg = rl_term (rn_log n)))
    | Leader ld \<Rightarrow> steady c n n' \<and> ((\<exists>ld0. r = Leader ld0) \<or>
        (\<exists>cd. r = Candidate cd \<and> ev_message msg = CampaignResponse True \<and> ev_term msg = rl_term (rn_log n) \<and>
          card (insert (ev_from msg) (ca_votes cd)) \<ge> quorum_size n))"
proof -
  show a: "ev_to msg = rn_id n \<and> (ev_from msg \<in> rn_peers n \<or> ev_from msg = rn_id n)"
    using run by (auto simp: node_step_def sbind_eq_Ok)
  have t: "node_term n = rl_term (rn_log n)" by (simp add: node_term_def get_term_vote_def)
  show "case r' of
      Follower f \<Rightarrow> True
    | Candidate cd \<Rightarrow> (\<exists>cd0. r = Candidate cd0 \<and> steady c n n' \<and> (ca_votes cd = ca_votes cd0 \<or>
        ca_votes cd = insert (ev_from msg) (ca_votes cd0) \<and> ev_message msg = CampaignResponse True \<and>
        ev_term msg = rl_term (rn_log n)))
    | Leader ld \<Rightarrow> steady c n n' \<and> ((\<exists>ld0. r = Leader ld0) \<or>
        (\<exists>cd. r = Candidate cd \<and> ev_message msg = CampaignResponse True \<and> ev_term msg = rl_term (rn_log n) \<and>
          card (insert (ev_from msg) (ca_votes cd)) \<ge> quorum_size n))"
  proof (cases r)
    case (Follower f)
    then have "follower_step V msg f n = (Ok r', n')" using run a by (simp add: node_step_def sbind_def rassert_def)
    from follower_step_role [OF this] show ?thesis by auto
  next
    case (Leader ld)
    then have "leader_step V msg ld n = (Ok r', n')" using run a by (simp add: node_step_def sbind_def rassert_def)
    then show ?thesis
      using st.keepsD [OF leader_receive_keeps [OF V], of msg ld n _ _ c] Leader
      by (auto simp: leader_step_def sbind_eq_Ok split: if_splits dest!: follower_step_role)
  next
    case (Candidate cd)
    then have "candidate_step V msg cd n = (Ok r', n')" using run a by (simp add: node_step_def sbind_def rassert_def)
    then show ?thesis
      using st.keepsD [OF into_leader_keeps [OF V], of _ n _ _ c] st.keepsD [OF send_keeps, of _ _ n _ _ c] Candidate
      by (auto simp: candidate_step_def candidate_receive_def Let_def t sbind_eq_Ok
        split: if_splits message.splits bool.splits dest!: follower_step_role) blast+
  qed
qed

lemma node_new_role:
  assumes "ne_engine V = E" "c = ne_codec V" "node_new V i peers l s tx opts g = (Ok r', n')"
  shows "case r' of
      Follower f \<Rightarrow> True
    | Candidate cd \<Rightarrow> False
    | Leader ld \<Rightarrow> rl_vote (rn_log n') = Some (rn_id n') \<and> peers = {}"
proof -
  have peers: "rn_peers n1 = peers" if "raw_node_new V i peers
      \<lparr>rn_id = i, rn_peers = peers, rn_log = l, rn_state = s, rn_tx = tx, rn_opts = opts, rn_rng = g\<rparr> = (Ok f, n1)" for f n1
    using st.keepsD [OF raw_node_new_keeps that, of c] by (simp add: steady_def same_node_def)
  have vote: "rl_vote (rn_log n2) = Some (rn_id n2)" if "into_leader V cd n1 = (Ok ld, n2)" for cd n1 ld n2
    using into_leader_vote [OF that] st.keepsD [OF into_leader_keeps [OF assms(1)] that, of c]
    by (simp add: steady_def log_steady_def same_node_def)
  show ?thesis
    using assms(3) vote peers by (fastforce simp: node_new_def sbind_eq_Ok cluster_size_def split: if_splits)
qed

end

end
