(* ===== verification/RaftCluster.thy ===== *)
theory RaftCluster
  imports RaftElection
begin

text \<open>
  A cluster of Raft nodes and its executions, and election safety. A node runs or is down; a step
  that returns an error or panics takes it down, since \<^verbatim>\<open>Server::raft_route\<close> calls
  \<^verbatim>\<open>expect\<close> on the result. A node that is down keeps its storage engine only, and a restart
  reopens the log from it with any state machine and any random number generator. Two history
  variables record what the argument is about: every vote a node stored and every leader.
\<close>

section \<open>Clusters\<close>

datatype ('e, 's, 'g) proc = Up node_role "('e, 's, 'g) raw_node" | Down 'e

record ('e, 's, 'g) cluster =
  cl_proc :: "node_id \<Rightarrow> ('e, 's, 'g) proc"
  cl_net :: "envelope set"
  cl_votes :: "(node_id \<times> raft_term \<times> node_id) set"
  cl_leaders :: "(raft_term \<times> node_id) set"

definition proc_of :: "node_role result \<times> ('e, 's, 'g) raw_node \<Rightarrow> ('e, 's, 'g) proc" where
  "proc_of x = (case fst x of Ok r \<Rightarrow> Up r (snd x) | _ \<Rightarrow> Down (rl_engine (rn_log (snd x))))"

text \<open>The cluster after a call on node \<open>a\<close> that gave result \<open>fst x\<close> and left node \<open>snd x\<close>.\<close>

definition absorb ::
  "node_id \<Rightarrow> node_role result \<times> ('e, 's, 'g) raw_node \<Rightarrow> ('e, 's, 'g) cluster \<Rightarrow> ('e, 's, 'g) cluster" where
  "absorb a x s =
     (let (t, v) = get_term_vote (rn_log (snd x)) in
      s\<lparr>cl_proc := (cl_proc s)(a := proc_of x),
        cl_net := cl_net s \<union> set (ch_sent (rn_tx (snd x))),
        cl_votes := (case v of Some b \<Rightarrow> insert (a, t, b) (cl_votes s) | None \<Rightarrow> cl_votes s),
        cl_leaders := (case fst x of Ok (Leader _) \<Rightarrow> insert (t, a) (cl_leaders s) | _ \<Rightarrow> cl_leaders s)\<rparr>)"

definition client_envelope :: "node_id \<Rightarrow> raft_term \<Rightarrow> request_id \<Rightarrow> request \<Rightarrow> envelope" where
  "client_envelope a t i req = \<lparr>ev_from = a, ev_term = t, ev_to = a, ev_message = ClientRequest i req\<rparr>"

definition set_proc :: "node_id \<Rightarrow> ('e, 's, 'g) proc \<Rightarrow> ('e, 's, 'g) cluster \<Rightarrow> ('e, 's, 'g) cluster" where
  "set_proc a p s = s\<lparr>cl_proc := (cl_proc s)(a := p)\<rparr>"

inductive cluster_step ::
  "('e, 's, 'g) node_env \<Rightarrow> node_id set \<Rightarrow> options \<Rightarrow> ('e, 's, 'g) cluster \<Rightarrow> ('e, 's, 'g) cluster \<Rightarrow> bool"
  for V S opts where
  deliver: "a \<in> S \<Longrightarrow> cl_proc s a = Up r n \<Longrightarrow> msg \<in> cl_net s \<Longrightarrow> ev_to msg = a \<Longrightarrow>
    cluster_step V S opts s (absorb a (node_step V msg r n) s)"
| client: "a \<in> S \<Longrightarrow> cl_proc s a = Up r n \<Longrightarrow>
    cluster_step V S opts s (absorb a (node_step V (client_envelope a (node_term n) i req) r n) s)"
| tick: "a \<in> S \<Longrightarrow> cl_proc s a = Up r n \<Longrightarrow> cluster_step V S opts s (absorb a (node_tick V r n) s)"
| crash: "a \<in> S \<Longrightarrow> cl_proc s a = Up r n \<Longrightarrow>
    cluster_step V S opts s (set_proc a (Down (rl_engine (rn_log n))) s)"
| disconnect: "a \<in> S \<Longrightarrow> cl_proc s a = Up r n \<Longrightarrow>
    cluster_step V S opts s (set_proc a (Up r (n\<lparr>rn_tx := (rn_tx n)\<lparr>ch_open := False\<rparr>\<rparr>)) s)"
| restart: "a \<in> S \<Longrightarrow> cl_proc s a = Down e \<Longrightarrow> log_new (ne_engine V) (ne_codec V) e = Ok l \<Longrightarrow>
    cluster_step V S opts s
      (absorb a (node_new V a (S - {a}) l sm \<lparr>ch_open = True, ch_sent = []\<rparr> opts g) s)"

definition cluster_init :: "'e \<Rightarrow> ('e, 's, 'g) cluster" where
  "cluster_init e = \<lparr>cl_proc = (\<lambda>_. Down e), cl_net = {}, cl_votes = {}, cl_leaders = {}\<rparr>"

inductive cluster_run ::
  "('e, 's, 'g) node_env \<Rightarrow> node_id set \<Rightarrow> options \<Rightarrow> 'e \<Rightarrow> ('e, 's, 'g) cluster \<Rightarrow> bool"
  for V S opts e where
  run_init: "cluster_run V S opts e (cluster_init e)"
| run_step: "cluster_run V S opts e s \<Longrightarrow> cluster_step V S opts s s' \<Longrightarrow> cluster_run V S opts e s'"

section \<open>Quorums\<close>

locale quorums =
  fixes is_quorum :: "'n set \<Rightarrow> bool"
  assumes quorums_meet: "is_quorum Q \<Longrightarrow> is_quorum Q' \<Longrightarrow> \<exists>x \<in> Q. x \<in> Q'"
begin

text \<open>If nobody votes twice in a term, two nodes that have the votes of a quorum are the same.\<close>

lemma unique_winner:
  assumes "\<And>x v v'. (x, t, v) \<in> votes \<Longrightarrow> (x, t, v') \<in> votes \<Longrightarrow> v = v'"
    and "is_quorum Q" "\<And>x. x \<in> Q \<Longrightarrow> (x, t, a) \<in> votes"
    and "is_quorum Q'" "\<And>x. x \<in> Q' \<Longrightarrow> (x, t, b) \<in> votes"
  shows "a = b"
  using assms quorums_meet [OF assms(2,4)] by blast

end

definition node_majority :: "node_id set \<Rightarrow> node_id set \<Rightarrow> bool" where
  "node_majority S Q = (Q \<subseteq> S \<and> card S < 2 * card Q)"

interpretation nodes: quorums "node_majority S" for S
proof
  fix Q Q'
  assume q: "node_majority S Q" "node_majority S Q'"
  show "\<exists>x \<in> Q. x \<in> Q'"
  proof (rule ccontr)
    assume "\<not> (\<exists>x \<in> Q. x \<in> Q')"
    then have "card (Q \<union> Q') = card Q + card Q'" by (intro card_Un_disjoint) auto
    moreover have "card (Q \<union> Q') \<le> card S" using q by (intro card_mono) (auto simp: node_majority_def)
    ultimately show False using q by (simp add: node_majority_def)
  qed
qed

lemma quorum_size_majority:
  assumes "rn_peers n = S - {rn_id n}" "rn_id n \<in> S" "Q \<subseteq> S" "quorum_size n \<le> card Q"
  shows "node_majority S Q"
proof -
  have "card S = card (rn_peers n) + 1"
    using assms(1,2) card_Suc_Diff1 [of S "rn_id n"] by simp
  then show ?thesis using assms(3,4) by (simp add: node_majority_def quorum_size_def cluster_size_def)
qed

section \<open>The invariant\<close>

definition votes_below :: "(node_id \<times> raft_term \<times> node_id) set \<Rightarrow> node_id \<Rightarrow> raft_term \<Rightarrow> node_id option \<Rightarrow> bool" where
  "votes_below H a t v = (\<forall>t' v'. (a, t', v') \<in> H \<longrightarrow> t' < t \<or> t' = t \<and> v = Some v')"

text \<open>What is required of a running node, given the messages, votes and leaders so far.\<close>

definition node_inv ::
  "node_id set \<Rightarrow> envelope set \<Rightarrow> (node_id \<times> raft_term \<times> node_id) set \<Rightarrow> (raft_term \<times> node_id) set \<Rightarrow>
     node_id \<Rightarrow> node_role \<Rightarrow> ('e, 's, 'g) raw_node \<Rightarrow> bool" where
  "node_inv S net H L a r n = (rn_id n = a \<and> rn_peers n = S - {a} \<and> set (ch_sent (rn_tx n)) \<subseteq> net \<and>
     (case r of
        Candidate cd \<Rightarrow> (\<forall>x \<in> ca_votes cd. x \<in> S \<and> (x, rl_term (rn_log n), a) \<in> H)
      | Follower f \<Rightarrow> True
      | Leader ld \<Rightarrow> (rl_term (rn_log n), a) \<in> L))"

context kv_engine
begin

definition stored_tv :: "log_codec \<Rightarrow> 'e \<Rightarrow> raft_term \<Rightarrow> node_id option \<Rightarrow> bool" where
  "stored_tv c e t v = ((\<exists>K. rk.repr e K \<and>
      K RTermVote = (if t = 0 then None else Some (enc_term_vote c (t, v)))) \<and> (t = 0 \<longrightarrow> v = None))"

lemma durable_stored: "durable c l \<longleftrightarrow> stored_tv c (rl_engine l) (rl_term l) (rl_vote l)"
  by (simp add: durable_def stored_tv_def)

lemma log_new_stored:
  assumes "log_codec_ok c" "stored_tv c e t v" "log_new E c e = Ok l"
  shows "rl_term l = t \<and> rl_vote l = v \<and> rl_engine l = e"
proof -
  obtain K where K: "rk.repr e K" "K RTermVote = (if t = 0 then None else Some (enc_term_vote c (t, v)))" "t = 0 \<longrightarrow> v = None"
    using assms(2) by (auto simp: stored_tv_def)
  show ?thesis
    using assms(1,3) K(2,3) unfolding log_new_def rk.repr_get [OF K(1)]
    by (auto simp: rbind_eq_Ok log_codec_ok_def split: if_splits prod.splits)
qed

definition proc_tv :: "log_codec \<Rightarrow> ('e, 's, 'g) proc \<Rightarrow> raft_term \<Rightarrow> node_id option \<Rightarrow> bool" where
  "proc_tv c p t v = (case p of
      Up r n \<Rightarrow> durable c (rn_log n) \<and> t = rl_term (rn_log n) \<and> v = rl_vote (rn_log n)
    | Down e \<Rightarrow> stored_tv c e t v)"

definition cluster_inv :: "log_codec \<Rightarrow> node_id set \<Rightarrow> ('e, 's, 'g) cluster \<Rightarrow> bool" where
  "cluster_inv c S s =
     ((\<forall>a \<in> S. \<exists>t v. proc_tv c (cl_proc s a) t v \<and> votes_below (cl_votes s) a t v) \<and>
      (\<forall>a \<in> S. \<forall>r n. cl_proc s a = Up r n \<longrightarrow> node_inv S (cl_net s) (cl_votes s) (cl_leaders s) a r n) \<and>
      (\<forall>a t v v'. (a, t, v) \<in> cl_votes s \<longrightarrow> (a, t, v') \<in> cl_votes s \<longrightarrow> v = v') \<and>
      (\<forall>m \<in> cl_net s. ev_message m = CampaignResponse True \<longrightarrow> (ev_from m, ev_term m, ev_to m) \<in> cl_votes s) \<and>
      (\<forall>t a. (t, a) \<in> cl_leaders s \<longrightarrow> (\<exists>Q. node_majority S Q \<and> (\<forall>x \<in> Q. (x, t, a) \<in> cl_votes s))))"

lemma inv_up:
  assumes "cluster_inv c S s" "a \<in> S" "cl_proc s a = Up r n"
  shows "durable c (rn_log n)" "votes_below (cl_votes s) a (rl_term (rn_log n)) (rl_vote (rn_log n))"
    "node_inv S (cl_net s) (cl_votes s) (cl_leaders s) a r n"
proof -
  obtain t v where "proc_tv c (cl_proc s a) t v" "votes_below (cl_votes s) a t v"
    using assms(1,2) unfolding cluster_inv_def by blast
  then show "durable c (rn_log n)" "votes_below (cl_votes s) a (rl_term (rn_log n)) (rl_vote (rn_log n))"
    by (simp_all add: proc_tv_def assms(3))
  show "node_inv S (cl_net s) (cl_votes s) (cl_leaders s) a r n"
    using assms unfolding cluster_inv_def by blast
qed

lemma inv_leader:
  assumes "cluster_inv c S s" "(t, a) \<in> cl_leaders s"
  obtains Q where "node_majority S Q" "\<forall>x \<in> Q. (x, t, a) \<in> cl_votes s"
proof -
  have "\<exists>Q. node_majority S Q \<and> (\<forall>x \<in> Q. (x, t, a) \<in> cl_votes s)"
    using assms unfolding cluster_inv_def by simp
  with that show ?thesis by blast
qed

text \<open>The obligations of a call on node \<open>a\<close>, whose stored term and vote were \<open>t\<close> and \<open>v\<close>.\<close>

definition call_ok ::
  "log_codec \<Rightarrow> node_id set \<Rightarrow> ('e, 's, 'g) cluster \<Rightarrow> node_id \<Rightarrow> raft_term \<Rightarrow> node_id option \<Rightarrow>
     node_role result \<times> ('e, 's, 'g) raw_node \<Rightarrow> bool" where
  "call_ok c S s a t v x =
     (let n = snd x; t' = rl_term (rn_log n); v' = rl_vote (rn_log n);
          voted = (\<lambda>y. (y, t', a) \<in> cl_votes s \<or> y = a \<and> v' = Some a) in
      rn_id n = a \<and> rn_peers n = S - {a} \<and> durable c (rn_log n) \<and>
      (t < t' \<or> t = t' \<and> (v = None \<or> v' = v)) \<and>
      (\<forall>m \<in> grants n. m \<in> cl_net s \<or> ev_from m = a \<and> ev_term m = t' \<and> v' = Some (ev_to m)) \<and>
      (case fst x of
         Ok (Candidate cd) \<Rightarrow> (\<forall>y \<in> ca_votes cd. y \<in> S \<and> voted y)
       | Ok (Leader ld) \<Rightarrow> (t', a) \<in> cl_leaders s \<or> (\<exists>Q. node_majority S Q \<and> (\<forall>y \<in> Q. voted y))
       | _ \<Rightarrow> True))"

lemma node_inv_mono:
  "node_inv S net H L a r n \<Longrightarrow> net \<subseteq> net' \<Longrightarrow> H \<subseteq> H' \<Longrightarrow> L \<subseteq> L' \<Longrightarrow> node_inv S net' H' L' a r n"
  by (cases r) (auto simp: node_inv_def)

lemma absorb_fields:
  fixes x :: "node_role result \<times> ('e, 's, 'g) raw_node"
  defines "l \<equiv> rn_log (snd x)"
  shows "cl_proc (absorb a x s) = (cl_proc s)(a := proc_of x)"
    "cl_net (absorb a x s) = cl_net s \<union> set (ch_sent (rn_tx (snd x)))"
    "(b, t, w) \<in> cl_votes (absorb a x s) \<longleftrightarrow> (b, t, w) \<in> cl_votes s \<or> b = a \<and> t = rl_term l \<and> rl_vote l = Some w"
    "(t, b) \<in> cl_leaders (absorb a x s) \<longleftrightarrow>
       (t, b) \<in> cl_leaders s \<or> b = a \<and> t = rl_term l \<and> (\<exists>ld. fst x = Ok (Leader ld))"
  by (auto simp: absorb_def Let_def get_term_vote_def l_def split: option.split result.split node_role.split)

lemma absorb_inv:
  assumes inv: "cluster_inv c S s" and a: "a \<in> S"
    and below: "votes_below (cl_votes s) a t v" and ok: "call_ok c S s a t v x"
  shows "cluster_inv c S (absorb a x s)"
proof -
  define n t' v' where d: "n = snd x" "t' = rl_term (rn_log n)" "v' = rl_vote (rn_log n)"
  let ?s = "absorb a x s"
  note ok' = ok [unfolded call_ok_def Let_def, folded d(1), folded d(2,3)]
  have below': "votes_below (cl_votes s) a t' v'"
    using below ok' unfolding votes_below_def by (auto dest: order.strict_trans)
  have mono: "cl_net s \<subseteq> cl_net ?s" "cl_votes s \<subseteq> cl_votes ?s" "cl_leaders s \<subseteq> cl_leaders ?s"
    by (auto simp: absorb_fields)
  note votes = absorb_fields(3) [of _ _ _ a x s, folded d(1), folded d(2,3)]
  note leaders = absorb_fields(4) [of _ _ a x s, folded d(1), folded d(2,3)]
  have voted: "(y, t', a) \<in> cl_votes ?s" if "(y, t', a) \<in> cl_votes s \<or> y = a \<and> v' = Some a" for y
    using that by (auto simp: votes)
  have 1: "\<exists>t v. proc_tv c (cl_proc ?s b) t v \<and> votes_below (cl_votes ?s) b t v" if "b \<in> S" for b
  proof (cases "b = a")
    case True
    have "votes_below (cl_votes ?s) a t' v'" using below' by (auto simp: votes_below_def votes)
    moreover have "proc_tv c (proc_of x) t' v'"
      using ok' by (auto simp: proc_tv_def proc_of_def d durable_stored split: result.split)
    ultimately show ?thesis using True by (auto simp: absorb_fields(1))
  next
    case False
    then show ?thesis
      using inv that by (auto simp: cluster_inv_def absorb_fields(1) votes_below_def votes)
  qed
  have 2: "node_inv S (cl_net ?s) (cl_votes ?s) (cl_leaders ?s) b r m" if b: "b \<in> S" and up: "cl_proc ?s b = Up r m" for b r m
  proof (cases "b = a")
    case True
    then have "fst x = Ok r" "m = n"
      using up by (auto simp: absorb_fields(1) proc_of_def d split: result.splits)
    then show ?thesis
      using ok' True voted by (cases r) (auto simp: node_inv_def absorb_fields(2) leaders d)
  next
    case False
    then show ?thesis
      using inv b up by (intro node_inv_mono [OF _ mono]) (auto simp: cluster_inv_def absorb_fields(1))
  qed
  have 3: "w = w'" if "(b, u, w) \<in> cl_votes ?s" "(b, u, w') \<in> cl_votes ?s" for b u w w'
    using that below' inv unfolding votes cluster_inv_def votes_below_def by fastforce
  have 4: "(ev_from m, ev_term m, ev_to m) \<in> cl_votes ?s"
    if "m \<in> cl_net ?s" "ev_message m = CampaignResponse True" for m
  proof -
    from that have "m \<in> cl_net s \<or> m \<in> grants n" by (auto simp: absorb_fields(2) grants_def d)
    then have "m \<in> cl_net s \<or> ev_from m = a \<and> ev_term m = t' \<and> v' = Some (ev_to m)" using ok' by auto
    then show ?thesis using inv that(2) by (auto simp: cluster_inv_def votes)
  qed
  have 5: "\<exists>Q. node_majority S Q \<and> (\<forall>y \<in> Q. (y, u, b) \<in> cl_votes ?s)" if lead: "(u, b) \<in> cl_leaders ?s" for u b
  proof (cases "(u, b) \<in> cl_leaders s")
    case True
    then show ?thesis using inv mono(2) unfolding cluster_inv_def by blast
  next
    case False
    then obtain ld where ld: "b = a" "u = t'" "fst x = Ok (Leader ld)" using lead by (auto simp: leaders)
    then obtain Q where "node_majority S Q" "\<forall>y \<in> Q. (y, t', a) \<in> cl_votes s \<or> y = a \<and> v' = Some a"
      using ok' False by auto
    then show ?thesis using ld voted by blast
  qed
  show ?thesis using 1 2 3 4 5 unfolding cluster_inv_def by blast
qed

lemma step_call_ok:
  assumes V: "ne_engine V = E" "ne_codec V = c" and inv: "cluster_inv c S s" and a: "a \<in> S"
    and up: "cl_proc s a = Up r n" and msg: "msg \<in> cl_net s \<or> ev_message msg \<noteq> CampaignResponse True"
  shows "call_ok c S s a (rl_term (rn_log n)) (rl_vote (rn_log n)) (node_step V msg r n)"
proof -
  obtain res n' where run: "node_step V msg r n = (res, n')" by fastforce
  note dur = inv_up(1) [OF inv a up] and id = inv_up(3) [OF inv a up, unfolded node_inv_def]
  have g: "granting c n n'" using node_step_granting [of V c n msg r] V run by simp
  have role: "case res of
       Ok (Candidate cd) \<Rightarrow> (\<forall>y \<in> ca_votes cd. y \<in> S \<and> (y, rl_term (rn_log n'), a) \<in> cl_votes s)
     | Ok (Leader ld) \<Rightarrow> (rl_term (rn_log n'), a) \<in> cl_leaders s \<or>
         (\<exists>Q. node_majority S Q \<and> (\<forall>y \<in> Q. (y, rl_term (rn_log n'), a) \<in> cl_votes s))
     | _ \<Rightarrow> True"
  proof (cases res)
    case (Ok r')
    note R1 = node_step_role(1) [OF V(1) run [unfolded Ok]] and R2 = node_step_role(2) [OF V(1) run [unfolded Ok], of c]
    have sender: "ev_from msg \<in> S" using R1 id a by auto
    have vote: "(ev_from msg, rl_term (rn_log n), a) \<in> cl_votes s"
      if "ev_message msg = CampaignResponse True" "ev_term msg = rl_term (rn_log n)"
      using inv msg that R1 id by (auto simp: cluster_inv_def)
    have "node_majority S (insert (ev_from msg) (ca_votes cd))"
      if "r = Candidate cd" "quorum_size n \<le> card (insert (ev_from msg) (ca_votes cd))" for cd
      using that id a sender by (intro quorum_size_majority) auto
    then show ?thesis
      using R2 id vote sender Ok by (fastforce simp: steady_def log_steady_def split: node_role.splits)
  qed auto
  have "\<forall>m \<in> grants n'. m \<in> cl_net s \<or>
      ev_from m = a \<and> ev_term m = rl_term (rn_log n') \<and> rl_vote (rn_log n') = Some (ev_to m)"
    using g id by (auto simp: granting_def same_node_def grants_def)
  then show ?thesis
    using g id dur role unfolding call_ok_def run Let_def
    by (auto simp: granting_def same_node_def log_calm_def tv_le_def split: result.splits node_role.splits)
qed

lemma tick_call_ok:
  assumes V: "ne_engine V = E" "ne_codec V = c" and inv: "cluster_inv c S s" and a: "a \<in> S"
    and up: "cl_proc s a = Up r n"
  shows "call_ok c S s a (rl_term (rn_log n)) (rl_vote (rn_log n)) (node_tick V r n)"
proof -
  obtain res n' where run: "node_tick V r n = (res, n')" by fastforce
  note dur = inv_up(1) [OF inv a up] and id = inv_up(3) [OF inv a up, unfolded node_inv_def]
  have calm: "calm c n n'" using ca.keepsD [OF node_tick_calm [OF V(1) V(2) [symmetric]] run] .
  have role: "case res of
       Ok (Candidate cd) \<Rightarrow> (\<forall>y \<in> ca_votes cd. y \<in> S \<and>
         ((y, rl_term (rn_log n'), a) \<in> cl_votes s \<or> y = a \<and> rl_vote (rn_log n') = Some a))
     | Ok (Leader ld) \<Rightarrow> (rl_term (rn_log n'), a) \<in> cl_leaders s
     | _ \<Rightarrow> True"
  proof (cases res)
    case (Ok r')
    show ?thesis
      using node_tick_role [OF run [unfolded Ok], of c] id a calm Ok
      by (fastforce simp: steady_def calm_def same_node_def log_steady_def split: node_role.splits)
  qed auto
  show ?thesis
    using calm id dur role unfolding call_ok_def run Let_def
    by (auto simp: calm_def same_node_def log_calm_def tv_le_def grants_def split: result.splits node_role.splits)
qed

lemma restart_call_ok:
  assumes V: "ne_engine V = E" "ne_codec V = c" and a: "a \<in> S"
    and stored: "stored_tv c e t v" "log_new E c e = Ok l" "log_codec_ok c"
  shows "call_ok c S s a t v (node_new V a (S - {a}) l sm \<lparr>ch_open = True, ch_sent = []\<rparr> opts g)"
proof -
  obtain res n' where run: "node_new V a (S - {a}) l sm \<lparr>ch_open = True, ch_sent = []\<rparr> opts g = (res, n')" by fastforce
  let ?n = "\<lparr>rn_id = a, rn_peers = S - {a}, rn_log = l, rn_state = sm, rn_tx = \<lparr>ch_open = True, ch_sent = []\<rparr>,
    rn_opts = opts, rn_rng = g\<rparr>"
  have l: "rl_term l = t" "rl_vote l = v" "durable c l"
    using log_new_stored [OF stored(3,1,2)] stored(1) by (simp_all add: durable_stored)
  have calm: "calm c ?n n'" using node_new_calm [OF V(1) V(2) [symmetric], of a "S - {a}" l sm _ opts g] run by (metis snd_conv)
  have single: "node_majority S {a}" if "S - {a} = {}"
  proof -
    have "S = {a}" using that a by auto
    then show ?thesis by (simp add: node_majority_def)
  qed
  have role: "case res of
       Ok (Candidate cd) \<Rightarrow> False
     | Ok (Leader ld) \<Rightarrow> node_majority S {a} \<and> rl_vote (rn_log n') = Some a
     | _ \<Rightarrow> True"
  proof (cases res)
    case (Ok r')
    show ?thesis
      using node_new_role [OF V(1) V(2) [symmetric] run [unfolded Ok]] single calm Ok
      by (auto simp: calm_def same_node_def split: node_role.splits)
  qed auto
  have "\<exists>Q. node_majority S Q \<and> (\<forall>y \<in> Q. (y, rl_term (rn_log n'), a) \<in> cl_votes s \<or> y = a \<and> rl_vote (rn_log n') = Some a)"
    if "node_majority S {a} \<and> rl_vote (rn_log n') = Some a"
    using that by (intro exI [of _ "{a}"]) simp
  then show ?thesis
    using calm role l unfolding call_ok_def run Let_def
    by (auto simp: calm_def same_node_def log_calm_def tv_le_def grants_def split: result.splits node_role.splits)
qed

lemma step_inv:
  assumes "cluster_step V S opts s s'" and V: "ne_engine V = E" "ne_codec V = c" and "log_codec_ok c"
    and inv: "cluster_inv c S s"
  shows "cluster_inv c S s'"
  using assms(1)
proof (cases rule: cluster_step.cases)
  case (deliver a r n msg)
  show ?thesis
    unfolding deliver(1) using absorb_inv [OF inv deliver(2) inv_up(2) [OF inv deliver(2,3)]] step_call_ok [OF V inv deliver(2,3)] deliver(4) by blast
next
  case (client a r n i req)
  show ?thesis
    unfolding client(1) using absorb_inv [OF inv client(2) inv_up(2) [OF inv client(2,3)]] step_call_ok [OF V inv client(2,3)]
    by (simp add: client_envelope_def)
next
  case (tick a r n)
  show ?thesis
    unfolding tick(1) using absorb_inv [OF inv tick(2) inv_up(2) [OF inv tick(2,3)]] tick_call_ok [OF V inv tick(2,3)] by blast
next
  case (crash a r n)
  have "\<exists>t v. proc_tv c (Down (rl_engine (rn_log n)) :: ('e, 'a, 'b) proc) t v \<and> votes_below (cl_votes s) a t v"
    using inv_up(1,2) [OF inv crash(2,3)] by (auto simp: proc_tv_def durable_stored)
  then show ?thesis
    unfolding crash(1) using inv by (auto simp: cluster_inv_def set_proc_def)
next
  case (disconnect a r n)
  let ?n = "n\<lparr>rn_tx := (rn_tx n)\<lparr>ch_open := False\<rparr>\<rparr>"
  have "node_inv S (cl_net s) (cl_votes s) (cl_leaders s) a r ?n"
    using inv_up(3) [OF inv disconnect(2,3)] by (cases r) (auto simp: node_inv_def)
  moreover have "\<exists>t v. proc_tv c (Up r ?n) t v \<and> votes_below (cl_votes s) a t v"
    using inv_up(1,2) [OF inv disconnect(2,3)] by (auto simp: proc_tv_def)
  ultimately show ?thesis
    unfolding disconnect(1) using inv by (auto simp: cluster_inv_def set_proc_def)
next
  case (restart a e l sm g)
  obtain t v where tv: "stored_tv c e t v" "votes_below (cl_votes s) a t v"
    using inv restart(2,3) by (fastforce simp: cluster_inv_def proc_tv_def)
  show ?thesis
    unfolding restart(1)
    by (rule absorb_inv [OF inv restart(2) tv(2) restart_call_ok [OF V restart(2) tv(1) restart(4) [unfolded V] assms(4)]])
qed

lemma run_inv:
  assumes "cluster_run V S opts e s" "ne_engine V = E" "ne_codec V = c" "log_codec_ok c" "rk.repr e (\<lambda>_. None)"
  shows "cluster_inv c S s"
  using assms(1)
proof induction
  case run_init
  have "stored_tv c e 0 None" using assms(5) by (auto simp: stored_tv_def)
  then show ?case by (auto simp: cluster_inv_def cluster_init_def proc_tv_def votes_below_def)
next
  case (run_step s s')
  then show ?case using step_inv assms(2-4) by blast
qed

lemma one_leader_per_term:
  assumes "cluster_inv c S s" "(t, a) \<in> cl_leaders s" "(t, b) \<in> cl_leaders s"
  shows "a = b"
proof -
  obtain Q where Q: "node_majority S Q" "\<forall>x \<in> Q. (x, t, a) \<in> cl_votes s" by (rule inv_leader [OF assms(1,2)])
  obtain Q' where Q': "node_majority S Q'" "\<forall>x \<in> Q'. (x, t, b) \<in> cl_votes s" by (rule inv_leader [OF assms(1,3)])
  have "v = v'" if "(x, t, v) \<in> cl_votes s" "(x, t, v') \<in> cl_votes s" for x v v'
    using assms(1) that unfolding cluster_inv_def by blast
  then show ?thesis
    using Q Q' by (intro nodes.unique_winner [of t "cl_votes s" S Q a Q' b]) auto
qed

end

end
