(* ===== verification/RaftElectionProps.thy ===== *)
theory RaftElectionProps
  imports RaftCluster "HOL-Library.Code_Target_Nat"
begin

text \<open>
  The properties of elections on the BitCask engine, and a run of a cluster of three nodes in which
  one of them is elected, evaluated step by step: node 1 times out and campaigns, node 2 grants
  its vote, and node 1 becomes leader of term 1.
\<close>

section \<open>Properties\<close>

text \<open>
  Property C17. Election safety: in every execution of a cluster, whatever messages are lost,
  duplicated or reordered and whichever nodes crash and restart from their disk, at most one
  node ever becomes leader of a term; in particular two running leaders of the same
  term are the same node.
\<close>

theorem election_safety:
  assumes "ne_engine V = bitcask_engine" "log_codec_ok (ne_codec V)"
    and "cluster_run V S opts (bitcask_new []) s"
  shows "((t, a) \<in> cl_leaders s \<longrightarrow> (t, b) \<in> cl_leaders s \<longrightarrow> a = b) \<and>
    (a \<in> S \<and> cl_proc s a = Up (Leader ld) n \<and> b \<in> S \<and> cl_proc s b = Up (Leader ld') n' \<and>
       node_term n = node_term n' \<longrightarrow> a = b)"
proof -
  have inv: "bc.cluster_inv (ne_codec V) S s"
    using bc.run_inv [OF assms(3,1) refl assms(2) rk_repr_new] .
  have "(node_term n, a) \<in> cl_leaders s" if "a \<in> S" "cl_proc s a = Up (Leader ld) n" for a ld n
    using bc.inv_up(3) [OF inv that] by (simp add: node_inv_def node_term_def get_term_vote_def)
  with bc.one_leader_per_term [OF inv] show ?thesis by metis
qed

text \<open>
  A node votes at most once per term, and a vote survives a crash: no two
  votes of a node for different candidates in the same term are ever stored, and every
  vote granted in a message is one of them.
\<close>

theorem one_vote_per_term:
  assumes "ne_engine V = bitcask_engine" "log_codec_ok (ne_codec V)"
    and "cluster_run V S opts (bitcask_new []) s"
    and "m \<in> cl_net s" "ev_message m = CampaignResponse True"
    and "m' \<in> cl_net s" "ev_message m' = CampaignResponse True"
    and "ev_from m = ev_from m'" "ev_term m = ev_term m'"
  shows "ev_to m = ev_to m' \<and> (ev_from m, ev_term m, ev_to m) \<in> cl_votes s"
proof -
  have "bc.cluster_inv (ne_codec V) S s"
    using bc.run_inv [OF assms(3,1) refl assms(2) rk_repr_new] .
  with assms(4-) show ?thesis unfolding bc.cluster_inv_def by metis
qed

section \<open>An election\<close>

definition demo_env :: "(bitcask, raft_index, unit) node_env" where
  "demo_env = \<lparr>ne_engine = bitcask_engine, ne_codec = plain_log_codec,
     ne_state = \<lparr>sm_get_applied_index = (\<lambda>s. s), sm_apply = (\<lambda>x s. (Ok [], re_index x)), sm_read = (\<lambda>b s. Ok b)\<rparr>,
     ne_random_range = (\<lambda>r g. (fst r, g))\<rparr>"

definition demo_opts :: options where
  "demo_opts = default_options\<lparr>op_election_timeout_range := (1, 2)\<rparr>"

definition demo_members :: "node_id set" where
  "demo_members = {1, 2, 3}"

definition demo_start :: "node_id \<Rightarrow> node_role result \<times> (bitcask, raft_index, unit) raw_node" where
  "demo_start a = node_new demo_env a (demo_members - {a})
     (unwrap (log_new bitcask_engine plain_log_codec (bitcask_new []))) 0 \<lparr>ch_open = True, ch_sent = []\<rparr> demo_opts ()"

definition demo_candidate :: "node_role result \<times> (bitcask, raft_index, unit) raw_node" where
  "demo_candidate = (let x = demo_start 1 in node_tick demo_env (unwrap (fst x)) (snd x))"

definition demo_campaign :: envelope where
  "demo_campaign = \<lparr>ev_from = 1, ev_term = 1, ev_to = 2, ev_message = Campaign 0 0\<rparr>"

definition demo_voter :: "node_role result \<times> (bitcask, raft_index, unit) raw_node" where
  "demo_voter = (let x = demo_start 2 in node_step demo_env demo_campaign (unwrap (fst x)) (snd x))"

definition demo_vote :: envelope where
  "demo_vote = \<lparr>ev_from = 2, ev_term = 1, ev_to = 1, ev_message = CampaignResponse True\<rparr>"

definition demo_leader :: "node_role result \<times> (bitcask, raft_index, unit) raw_node" where
  "demo_leader = (let x = demo_candidate in node_step demo_env demo_vote (unwrap (fst x)) (snd x))"

definition is_leader :: "node_role result \<Rightarrow> bool" where
  "is_leader r = (case r of Ok (Leader _) \<Rightarrow> True | _ \<Rightarrow> False)"

lemma demo_start_ok: "is_ok (log_new bitcask_engine plain_log_codec (bitcask_new []))"
  "is_ok (fst (demo_start 1)) \<and> is_ok (fst (demo_start 2))"
  by code_simp+
lemma demo_candidate_ok: "is_ok (fst demo_candidate) \<and> demo_campaign \<in> set (ch_sent (rn_tx (snd demo_candidate)))"
  by code_simp
lemma demo_voter_ok: "demo_vote \<in> set (ch_sent (rn_tx (snd demo_voter)))"
  by code_simp
lemma demo_leader_ok: "is_leader (fst demo_leader) \<and> rl_term (rn_log (snd demo_leader)) = 1"
  by code_simp

lemma proc_of_ok: "is_ok (fst x) \<Longrightarrow> proc_of x = Up (unwrap (fst x)) (snd x)"
  by (cases "fst x") (auto simp: proc_of_def)

definition demo_cluster1 :: "(bitcask, raft_index, unit) cluster" where
  "demo_cluster1 = absorb 2 (demo_start 2) (absorb 1 (demo_start 1) (cluster_init (bitcask_new [])))"

definition demo_cluster2 :: "(bitcask, raft_index, unit) cluster" where
  "demo_cluster2 = absorb 2 demo_voter (absorb 1 demo_candidate demo_cluster1)"

definition demo_cluster3 :: "(bitcask, raft_index, unit) cluster" where
  "demo_cluster3 = absorb 1 demo_leader demo_cluster2"

lemma absorb_proc: "cl_proc (absorb a x s) b = (if b = a then proc_of x else cl_proc s b)"
  by (simp add: absorb_def split: prod.split)

lemma absorb_net: "m \<in> cl_net (absorb a x s) \<longleftrightarrow> m \<in> cl_net s \<or> m \<in> set (ch_sent (rn_tx (snd x)))"
  by (simp add: absorb_def split: prod.split)

lemma demo_restart:
  assumes "a \<in> demo_members" "cl_proc s a = Down (bitcask_new [])"
  shows "cluster_step demo_env demo_members demo_opts s (absorb a (demo_start a) s)"
proof -
  obtain l where l: "log_new bitcask_engine plain_log_codec (bitcask_new []) = Ok l"
    using demo_start_ok(1) by (cases "log_new bitcask_engine plain_log_codec (bitcask_new [])") auto
  show ?thesis
    using restart [OF assms, of demo_env l demo_opts 0 "()"] l
    by (simp add: demo_start_def demo_env_def)
qed

lemma demo_run:
  "cluster_run demo_env demo_members demo_opts (bitcask_new []) demo_cluster1"
  "cluster_run demo_env demo_members demo_opts (bitcask_new []) demo_cluster2"
  "cluster_run demo_env demo_members demo_opts (bitcask_new []) demo_cluster3"
proof -
  let ?run = "cluster_run demo_env demo_members demo_opts (bitcask_new [])"
  have mem: "1 \<in> demo_members" "2 \<in> demo_members" by (simp_all add: demo_members_def)
  have "?run (absorb 1 (demo_start 1) (cluster_init (bitcask_new [])))"
    by (rule run_step [OF run_init demo_restart [OF mem(1)]]) (simp add: cluster_init_def)
  then show 1: "?run demo_cluster1"
    unfolding demo_cluster1_def
    by (rule run_step [OF _ demo_restart [OF mem(2)]]) (simp add: absorb_proc cluster_init_def)
  have up1: "cl_proc demo_cluster1 1 = Up (unwrap (fst (demo_start 1))) (snd (demo_start 1))"
    and up2: "cl_proc demo_cluster1 2 = Up (unwrap (fst (demo_start 2))) (snd (demo_start 2))"
    using demo_start_ok(2) by (simp_all add: demo_cluster1_def absorb_proc proc_of_ok)
  have c: "?run (absorb 1 demo_candidate demo_cluster1)"
    unfolding demo_candidate_def Let_def by (rule run_step [OF 1 tick [OF mem(1) up1]])
  show 2: "?run demo_cluster2"
    unfolding demo_cluster2_def demo_voter_def Let_def
    by (rule run_step [OF c deliver [OF mem(2)]])
      (use up2 demo_candidate_ok in \<open>simp_all add: absorb_proc absorb_net demo_campaign_def\<close>)
  show "?run demo_cluster3"
    unfolding demo_cluster3_def demo_leader_def Let_def
    by (rule run_step [OF 2 deliver [OF mem(1)]])
      (use demo_candidate_ok demo_voter_ok in
        \<open>simp_all add: demo_cluster2_def absorb_proc absorb_net proc_of_ok demo_vote_def\<close>)
qed

lemma demo_elected: "(1, 1) \<in> cl_leaders demo_cluster3"
  using demo_leader_ok
  by (auto simp: demo_cluster3_def absorb_def get_term_vote_def is_leader_def split: result.splits node_role.splits)

theorem election_safety_witness: "{b. (1, b) \<in> cl_leaders demo_cluster3} = {1}"
proof -
  have "(1, b) \<in> cl_leaders demo_cluster3 \<Longrightarrow> 1 = b" for b
    using election_safety [OF _ _ demo_run(3), of 1 1 b] demo_elected plain_log_codec_ok by (simp add: demo_env_def)
  with demo_elected show ?thesis by auto
qed

theorem one_vote_per_term_witness:
  "demo_vote \<in> cl_net demo_cluster3 \<and> (2, 1, 1) \<in> cl_votes demo_cluster3"
proof -
  have "demo_vote \<in> cl_net demo_cluster3"
    using demo_voter_ok by (simp add: demo_cluster3_def demo_cluster2_def absorb_net)
  then show ?thesis
    using one_vote_per_term [OF _ _ demo_run(3), of demo_vote demo_vote] plain_log_codec_ok
    by (simp add: demo_env_def demo_vote_def)
qed

end
