(* ===== verification/RaftQuorum.thy ===== *)
theory RaftQuorum
  imports RaftElectionProps
begin

text \<open>
  What a leader does with the confirmations of its peers: the quorum value, commits, reads and
  replication progress; and the clock of a follower. Most operations of a node leave its log
  alone: the preorder \<open>quiet\<close>.
\<close>

section \<open>Operations that leave the log alone\<close>

definition quiet :: "('e, 's, 'g) raw_node \<Rightarrow> ('e, 's, 'g) raw_node \<Rightarrow> bool" where
  "quiet n n' = (rn_log n' = rn_log n \<and> same_node n n')"

interpretation qu: state_preorder "quiet :: ('e, 's, 'g) raw_node \<Rightarrow> _"
  by unfold_locales (auto simp: quiet_def same_node_def)

lemma quiet_leaves [keeps_rules]:
  "qu.keeps (on_state m)" "qu.keeps (random_election_timeout V)" "quiet n (snd (send_via msg n))" "qu.keeps (send_via msg)"
  by (auto simp: qu.keeps_def quiet_def same_node_def on_state_def random_election_timeout_def send_via_def Let_def
    split: prod.split)

lemma quiet_send [keeps_rules]: "qu.keeps (send i m)"
  by (rule qu.keepsI) (unfold send_def, intro keeps_rules)

lemma quiet_broadcast [keeps_rules]: "qu.keeps (broadcast m)"
  by (rule qu.keepsI) (unfold broadcast_def, intro keeps_rules)

lemma quiet_read_loop [keeps_rules]: "qu.keeps (read_loop V q rds)"
  by (induction rds) (auto intro!: keeps_rules)

lemma quiet_maybe_read [keeps_rules]: "qu.keeps (maybe_read V r)"
  by (rule qu.keepsI) (unfold maybe_read_def, intro keeps_rules)

lemma quiet_apply_loop [keeps_rules]: "qu.keeps (apply_loop V t items r)"
proof (induction items arbitrary: r)
  case (Cons item items)
  have "qu.keeps (\<lambda>n :: ('a, 'b, 'c) raw_node. send_via \<lparr>ev_from = rn_id n, ev_term = t, ev_to = wr_from w,
      ev_message = ClientResponse i resp\<rparr> n)" for w i resp
    by (rule qu.keepsI) (intro keeps_rules)
  with Cons show ?case by (simp only: apply_loop.simps) (intro keeps_rules)
qed (simp add: keeps_rules)

lemma quiet_heartbeat [keeps_rules]: "qu.keeps (heartbeat r)"
  by (rule qu.keepsI) (unfold heartbeat_def, intro keeps_rules)

lemma quiet_maybe_send_append [keeps_rules]: "qu.keeps (maybe_send_append V peer probe r)"
  by (rule qu.keepsI) (unfold maybe_send_append_def, intro keeps_rules)

lemma quiet_abort_forwarded [keeps_rules]: "qu.keeps (abort_forwarded r)"
  by (rule qu.keepsI) (unfold abort_forwarded_def, intro keeps_rules)

lemma quiet_maybe_apply [keeps_rules]: "qu.keeps (maybe_apply V)"
  unfolding maybe_apply_def by (intro keeps_rules)

lemma sbind_sread:
  "sbind (sread f) g s = (case f s of Ok x \<Rightarrow> g x s | Err e \<Rightarrow> (Err e, s) | Panic p \<Rightarrow> (Panic p, s))"
  by (simp add: sbind_def split: result.split)

section \<open>Quorum values\<close>

definition reached :: "'a::linorder \<Rightarrow> 'a list \<Rightarrow> nat" where
  "reached v vs = length (filter (\<lambda>x. v \<le> x) vs)"

lemma reached_sort: "reached v (sort vs) = reached v vs"
  by (simp add: reached_def filter_sort)

lemma quorum_value_reached:
  assumes "k < length vs"
  defines "v \<equiv> rev (sort vs) ! k"
  shows "v \<in> set vs" "Suc k \<le> reached v vs" "v < w \<Longrightarrow> reached w vs \<le> k"
proof -
  let ?s = "rev (sort vs)"
  have len: "length ?s = length vs" by simp
  show "v \<in> set vs" unfolding v_def using nth_mem [of k ?s] assms(1) by simp
  have dec: "?s ! j \<le> ?s ! i" if "i \<le> j" "j < length vs" for i j
    using that by (simp add: rev_nth sorted_nth_mono)
  have card: "reached u vs = card {i. i < length vs \<and> u \<le> ?s ! i}" for u
  proof -
    have "reached u vs = length (filter (\<lambda>x. u \<le> x) ?s)"
      using reached_sort [of u vs] by (simp add: reached_def flip: rev_filter)
    then show ?thesis by (simp add: length_filter_conv_card)
  qed
  have "{..k} \<subseteq> {i. i < length vs \<and> v \<le> ?s ! i}" using dec assms(1) by (auto simp: v_def)
  then have "card {..k} \<le> card {i. i < length vs \<and> v \<le> ?s ! i}" by (intro card_mono) auto
  then show "Suc k \<le> reached v vs" by (simp add: card)
  assume w: "v < w"
  have "i < k" if "i < length vs" "w \<le> ?s ! i" for i
  proof (rule ccontr)
    assume "\<not> i < k"
    then have "?s ! i \<le> v" using dec [of k i] that(1) by (simp add: v_def)
    with that(2) w show False by simp
  qed
  then have "card {i. i < length vs \<and> w \<le> ?s ! i} \<le> card {..<k}" by (intro card_mono) auto
  then show "reached w vs \<le> k" by (simp add: card)
qed

text \<open>
  The quorum value of a vector with one value per node is the largest of its values that a
  strict majority of the nodes has reached.
\<close>

theorem quorum_value_correct:
  assumes "length vs = cluster_size n"
  shows "\<exists>v. quorum_value vs n = Ok v \<and> v \<in> set vs \<and> quorum_size n \<le> reached v vs \<and>
    (\<forall>w \<in> set vs. quorum_size n \<le> reached w vs \<longrightarrow> w \<le> v)"
proof -
  let ?k = "quorum_size n - 1"
  have k: "?k < length vs" "Suc ?k = quorum_size n"
    using assms by (simp_all add: quorum_size_def cluster_size_def)
  let ?v = "rev (sort vs) ! ?k"
  have "w \<le> ?v" if "quorum_size n \<le> reached w vs" for w
    using quorum_value_reached(3) [OF k(1), of w] k(2) that by (cases "w \<le> ?v") (auto simp: not_le)
  then show ?thesis
    using quorum_value_reached(1,2) [OF k(1)] k(2) assms
    by (intro exI [of _ ?v]) (auto simp: quorum_value_def rassert_def)
qed

lemma quorum_value_Ok:
  assumes "quorum_value vs n = Ok v"
  shows "quorum_size n \<le> reached v vs"
proof -
  have "length vs = cluster_size n" "v = rev (sort vs) ! (quorum_size n - 1)"
    using assms by (auto simp: quorum_value_def rbind_eq_Ok)
  moreover have "quorum_size n - 1 < cluster_size n" "Suc (quorum_size n - 1) = quorum_size n"
    by (simp_all add: quorum_size_def cluster_size_def)
  ultimately show ?thesis using quorum_value_reached(2) [of "quorum_size n - 1" vs] by simp
qed

section \<open>Commits and reads of a leader\<close>

lemma log_commit_index: "log_commit E c i l = (r, l') \<Longrightarrow> rl_commit_index l' = rl_commit_index l \<or> rl_commit_index l' = i"
  by (auto simp: log_commit_def sbind_def on_engine_def split: prod.splits result.splits option.splits if_splits)

text \<open>
  Property C18. A leader moves its commit index only to an index that a strict majority of the nodes,
  itself included, is known to have in its log, that lies beyond the old one, and that holds
  an entry of the leader's own term.
\<close>

theorem commit_needs_quorum:
  assumes "maybe_commit_and_apply V r n = (res, n')"
    and "fst (get_commit_index (rn_log n')) \<noteq> fst (get_commit_index (rn_log n))"
  shows "\<exists>ci x. fst (get_commit_index (rn_log n')) = ci \<and> fst (get_commit_index (rn_log n)) < ci \<and>
    log_get (ne_engine V) (ne_codec V) ci (rn_log n) = Ok (Some x) \<and> re_term x = node_term n \<and>
    quorum_size n \<le> reached ci (map (\<lambda>(_, p). pr_match_index p) (le_progress r) @ [fst (get_last_index (rn_log n))])"
proof -
  let ?vs = "map (\<lambda>(_, p). pr_match_index p) (le_progress r) @ [rl_last_index (rn_log n)]"
  let ?later = "\<lambda>ci. sbind (sread (\<lambda>n. log_scan_apply (ne_engine V) (ne_codec V)
      (sm_get_applied_index (ne_state V) (rn_state n)) (rn_log n))) (\<lambda>items.
    sbind (apply_loop V (node_term n) items r) (\<lambda>r.
    sbind (if rl_commit_term (rn_log n) \<noteq> node_term n then maybe_read V r else sreturn r) (\<lambda>r. sreturn (ci, r))))"
  have later: "rn_log (snd (?later ci m)) = rn_log m" for ci m
  proof -
    have "qu.keeps (?later ci)" by (intro keeps_rules)
    from qu.keeps_at [OF this, of m] show ?thesis by (simp add: quiet_def)
  qed
  note run = assms(1) [unfolded maybe_commit_and_apply_def get_last_index_def get_commit_index_def Let_def prod.case]
  have changed: "n' \<noteq> n" using assms(2) by auto
  obtain ci where ci: "quorum_value ?vs n = Ok ci" "rl_commit_index (rn_log n) < ci"
    using run changed by (cases "quorum_value ?vs n") (auto simp: sbind_def not_le [symmetric] split: if_splits)
  obtain x where x: "log_get (ne_engine V) (ne_codec V) ci (rn_log n) = Ok (Some x)" "re_term x = node_term n"
    using run changed ci by (cases "log_get (ne_engine V) (ne_codec V) ci (rn_log n)")
      (auto simp: sbind_def split: if_splits option.splits)
  obtain rc l1 where l1: "log_commit (ne_engine V) (ne_codec V) ci (rn_log n) = (rc, l1)" by fastforce
  have "sbind (on_log (log_commit (ne_engine V) (ne_codec V) ci)) (\<lambda>_. ?later ci) n = (res, n')"
    using run ci x by (simp only: sbind_sread result.case option.case not_le [symmetric] if_False simp_thms)
  then have "rn_log n' = l1"
    using later [of ci "n\<lparr>rn_log := l1\<rparr>"] l1 by (cases rc) (auto simp: sbind_def [of "on_log _"] on_log_def)
  then have "rl_commit_index (rn_log n') = ci"
    using log_commit_index [OF l1] assms(2) by (auto simp: get_commit_index_def)
  then show ?thesis
    using ci x quorum_value_Ok [OF ci(1)] by (auto simp: get_commit_index_def get_last_index_def)
qed

text \<open>What a read of the state machine answers to the node that asked.\<close>

definition read_answer :: "('e, 's, 'g) node_env \<Rightarrow> ('e, 's, 'g) raw_node \<Rightarrow> pending_read \<Rightarrow> envelope" where
  "read_answer V n rd = \<lparr>ev_from = rn_id n, ev_term = node_term n, ev_to = rd_from rd,
     ev_message = ClientResponse (rd_id rd) (result_map ReadResponseOf (sm_read (ne_state V) (rd_command rd) (rn_state n)))\<rparr>"

lemma send_Ok:
  "send i m n = (Ok u, n') \<longleftrightarrow> ch_open (rn_tx n) \<and> n' = n\<lparr>rn_tx := (rn_tx n)\<lparr>ch_sent := ch_sent (rn_tx n) @
     [\<lparr>ev_from = rn_id n, ev_term = node_term n, ev_to = i, ev_message = m\<rparr>]\<rparr>\<rparr>"
  by (auto simp: send_def send_via_def)

lemma read_loop_served:
  assumes "read_loop V q rds n = (Ok rest, n')"
  shows "\<exists>served. rds = served @ rest \<and> (\<forall>rd \<in> set served. rd_seq rd \<le> q) \<and>
    (case rest of [] \<Rightarrow> True | rd # _ \<Rightarrow> q < rd_seq rd) \<and>
    ch_sent (rn_tx n') = ch_sent (rn_tx n) @ map (read_answer V n) served"
  using assms
proof (induction rds arbitrary: n)
  case (Cons rd rds)
  show ?case
  proof (cases "rd_seq rd > q")
    case True
    with Cons.prems show ?thesis by (intro exI [of _ "[]"]) auto
  next
    case False
    let ?n = "n\<lparr>rn_tx := (rn_tx n)\<lparr>ch_sent := ch_sent (rn_tx n) @ [read_answer V n rd]\<rparr>\<rparr>"
    have rest: "read_loop V q rds ?n = (Ok rest, n')"
      using Cons.prems False
      by (cases "sm_read (ne_state V) (rd_command rd) (rn_state n)")
        (auto simp: sbind_eq_Ok sresult_def send_Ok read_answer_def)
    have "read_answer V ?n = read_answer V n" by (simp add: fun_eq_iff read_answer_def node_term_def)
    then obtain served where "rds = served @ rest" "\<forall>rd \<in> set served. rd_seq rd \<le> q"
      "case rest of [] \<Rightarrow> True | rd # _ \<Rightarrow> q < rd_seq rd"
      "ch_sent (rn_tx n') = ch_sent (rn_tx n) @ read_answer V n rd # map (read_answer V n) served"
      using Cons.IH [OF rest] by auto
    with False show ?thesis by (intro exI [of _ "rd # served"]) auto
  qed
qed simp

lemma reached_mono: "v \<le> w \<Longrightarrow> reached w vs \<le> reached v vs"
  by (induction vs) (auto simp: reached_def)

text \<open>
  Property C19. Linearizable reads: a leader answers pending reads in order, each with what the state machine
  returns, and only those whose sequence number a strict majority of the nodes has confirmed,
  and only once it has committed and applied an entry of its own term.
\<close>

theorem reads_need_quorum:
  assumes "maybe_read V r n = (Ok r', n')"
  shows "\<exists>served. le_reads r = served @ le_reads r' \<and>
    ch_sent (rn_tx n') = ch_sent (rn_tx n) @ map (read_answer V n) served \<and>
    (served = [] \<or> node_term n \<le> snd (get_commit_index (rn_log n)) \<and>
      fst (get_commit_index (rn_log n)) \<le> sm_get_applied_index (ne_state V) (rn_state n)) \<and>
    (\<forall>rd \<in> set served.
      quorum_size n \<le> reached (rd_seq rd) (map (\<lambda>(_, p). pr_read_seq p) (le_progress r) @ [le_read_seq r]))"
proof (cases "le_reads r = [] \<or> rl_commit_term (rn_log n) < node_term n \<or>
    sm_get_applied_index (ne_state V) (rn_state n) < rl_commit_index (rn_log n)")
  case True
  then have "r' = r" "n' = n"
    using assms by (auto simp: maybe_read_def get_commit_index_def Let_def split: if_splits)
  then show ?thesis by (intro exI [of _ "[]"]) simp
next
  case False
  then obtain q rds where q: "quorum_value (map (\<lambda>(_, p). pr_read_seq p) (le_progress r) @ [le_read_seq r]) n = Ok q"
    "read_loop V q (le_reads r) n = (Ok rds, n')" "r' = r\<lparr>le_reads := rds\<rparr>"
    using assms by (auto simp: maybe_read_def get_commit_index_def Let_def sbind_eq_Ok)
  obtain served where s: "le_reads r = served @ rds" "\<forall>rd \<in> set served. rd_seq rd \<le> q"
    "ch_sent (rn_tx n') = ch_sent (rn_tx n) @ map (read_answer V n) served"
    using read_loop_served [OF q(2)] by blast
  have "quorum_size n \<le> reached (rd_seq rd) (map (\<lambda>(_, p). pr_read_seq p) (le_progress r) @ [le_read_seq r])"
    if "rd \<in> set served" for rd
    using order_trans [OF quorum_value_Ok [OF q(1)] reached_mono] s(2) that by blast
  with s q(3) False show ?thesis by (intro exI [of _ served]) (auto simp: get_commit_index_def)
qed

end
