(* ===== verification/RaftTicks.thy ===== *)
theory RaftTicks
  imports RaftQuorum
begin

text \<open>
  The logical clock: a follower that hears nothing campaigns after exactly its election timeout,
  and the tick counters never wrap around.
\<close>

fun node_ticks :: "('e, 's, 'g) node_env \<Rightarrow> nat \<Rightarrow> node_role \<Rightarrow> (('e, 's, 'g) raw_node, node_role) op" where
  "node_ticks V 0 r = sreturn r"
| "node_ticks V (Suc k) r = sbind (node_tick V r) (node_ticks V k)"

lemma node_ticks_last: "node_ticks V (Suc k) r = sbind (node_ticks V k r) (node_tick V)"
proof (induction k arbitrary: r)
  case 0
  have "sbind (node_tick V r) sreturn = node_tick V r"
    by (auto simp: fun_eq_iff sbind_def split: prod.splits result.splits)
  moreover have "node_ticks V 0 = sreturn" by (simp add: fun_eq_iff)
  ultimately show ?case by (simp del: node_ticks.simps(1))
next
  case (Suc k)
  then have "node_ticks V (Suc k) = (\<lambda>r. sbind (node_ticks V k r) (node_tick V))" by (simp add: fun_eq_iff)
  then show ?case by (subst node_ticks.simps(2)) (simp add: sbind_assoc)
qed

lemma tick_no_wrap:
  fixes seen timeout :: ticks
  assumes "unat seen + Suc k \<le> unat timeout"
  shows "unat (seen + 1) = Suc (unat seen)" "unat (seen + word_of_nat (Suc k)) = unat seen + Suc k"
proof -
  have "unat timeout < 256" using unsigned_less [of timeout] by simp
  then have t: "Suc (unat seen) < 256" "Suc k < 256" "unat seen + Suc k < 256" using assms by linarith+
  then show "unat (seen + 1) = Suc (unat seen)"
    by (simp add: unat_word_ariths)
  show "unat (seen + word_of_nat (Suc k)) = unat seen + Suc k"
    using t by (simp add: unat_word_ariths unat_of_nat del: of_nat_Suc)
qed

lemma follower_ticks:
  assumes "unat (fo_leader_seen r) + k < unat (fo_election_timeout r)"
  shows "node_ticks V k (Follower r) n =
    (Ok (Follower (r\<lparr>fo_leader_seen := fo_leader_seen r + word_of_nat k\<rparr>)), n)"
  using assms
proof (induction k arbitrary: r)
  case (Suc k)
  let ?r = "r\<lparr>fo_leader_seen := fo_leader_seen r + 1\<rparr>"
  have u: "unat (fo_leader_seen r + 1) = Suc (unat (fo_leader_seen r))"
    using tick_no_wrap(1) [of "fo_leader_seen r" 0 "fo_election_timeout r"] Suc.prems by simp
  have "node_tick V (Follower r) n = (Ok (Follower ?r), n)"
    using Suc.prems u by (simp add: node_tick_def follower_tick_def Let_def word_le_nat_alt)
  moreover have "node_ticks V k (Follower ?r) n =
      (Ok (Follower (?r\<lparr>fo_leader_seen := fo_leader_seen ?r + word_of_nat k\<rparr>)), n)"
    using Suc.prems u by (intro Suc.IH) simp
  ultimately show ?case by (simp add: sbind_def algebra_simps)
qed simp

section \<open>Starting a campaign\<close>

lemma sends_Ok:
  "ch_open (rn_tx n) \<Longrightarrow> \<exists>n'. sfor xs (\<lambda>x. send (f x) (m x)) n = (Ok (), n') \<and> quiet n n' \<and> ch_open (rn_tx n') \<and>
    rn_state n' = rn_state n \<and> rn_rng n' = rn_rng n \<and>
    ch_sent (rn_tx n') = ch_sent (rn_tx n) @
      map (\<lambda>x. \<lparr>ev_from = rn_id n, ev_term = node_term n, ev_to = f x, ev_message = m x\<rparr>) xs"
proof (induction xs arbitrary: n)
  case (Cons x xs)
  let ?n = "n\<lparr>rn_tx := (rn_tx n)\<lparr>ch_sent := ch_sent (rn_tx n) @
    [\<lparr>ev_from = rn_id n, ev_term = node_term n, ev_to = f x, ev_message = m x\<rparr>]\<rparr>\<rparr>"
  have "send (f x) (m x) n = (Ok (), ?n)" using Cons.prems by (simp add: send_Ok)
  with Cons.IH [of ?n] Cons.prems show ?case
    by (auto simp: sbind_def quiet_def same_node_def node_term_def)
qed (simp add: quiet_def same_node_def)

definition never_panics :: "'s state_ops \<Rightarrow> bool" where
  "never_panics sm = (\<forall>x s p. fst (sm_apply sm x s) \<noteq> Panic p)"

lemma apply_all_Ok:
  assumes "never_panics (ne_state V)"
  shows "\<exists>n'. sfor (map Ok xs) (\<lambda>item. sbind (slift item) (\<lambda>x.
      sbind (sresult (on_state (sm_apply (ne_state V) x))) (\<lambda>_. sreturn ()))) n = (Ok (), n') \<and>
    quiet n n' \<and> rn_tx n' = rn_tx n \<and> rn_rng n' = rn_rng n"
proof (induction xs arbitrary: n)
  case (Cons x xs)
  obtain res s' where a: "sm_apply (ne_state V) x (rn_state n) = (res, s')" by fastforce
  then have "\<And>p. res \<noteq> Panic p" using assms unfolding never_panics_def by (metis fst_conv)
  then have one: "sbind (sresult (on_state (sm_apply (ne_state V) x))) (\<lambda>_. sreturn ()) n = (Ok (), n\<lparr>rn_state := s'\<rparr>)"
    by (cases res) (auto simp: sbind_def sresult_def on_state_def a)
  have "sbind (sbind (sresult (on_state (sm_apply (ne_state V) x))) (\<lambda>_. sreturn ())) f n = f () (n\<lparr>rn_state := s'\<rparr>)"
    for f :: "unit \<Rightarrow> (_, unit) op" by (rule sbind_Ok, rule one)
  with Cons.IH [of "n\<lparr>rn_state := s'\<rparr>"] show ?case
    by (auto simp: quiet_def same_node_def simp del: sreturn_eq slift_eq)
qed (simp add: quiet_def same_node_def)

context kv_engine
begin

lemma into_candidate_succeeds:
  assumes V: "ne_engine V = E" "log_codec_ok (ne_codec V)" "never_panics (ne_state V)"
    and n: "log_repr (ne_codec V) (rn_log n) xs" "ch_open (rn_tx n)" "rl_term (rn_log n) \<noteq> u64_max"
      "fst (op_election_timeout_range (rn_opts n)) < snd (op_election_timeout_range (rn_opts n))"
  shows "\<exists>cd n'. into_candidate V r n = (Ok cd, n') \<and> node_term n' = node_term n + 1 \<and> ca_votes cd = {rn_id n} \<and>
    (\<forall>p \<in> rn_peers n. \<lparr>ev_from = rn_id n, ev_term = node_term n + 1, ev_to = p,
      ev_message = Campaign (rl_last_index (rn_log n)) (rl_last_term (rn_log n))\<rparr> \<in> set (ch_sent (rn_tx n')))"
proof -
  obtain n1 where n1: "abort_forwarded r n = (Ok (r\<lparr>fo_forwarded := {}\<rparr>), n1)" "quiet n n1" "ch_open (rn_tx n1)"
    using sends_Ok [OF n(2), of "sorted_list_of_set (fo_forwarded r)" "\<lambda>_. rn_id n" "\<lambda>i. ClientResponse i (Err Abort)"]
    by (auto simp: abort_forwarded_def sbind_def)
  let ?applied = "sm_get_applied_index (ne_state V) (rn_state n1)"
  obtain n2 where n2: "maybe_apply V n1 = (Ok (), n2)" "quiet n1 n2" "rn_tx n2 = rn_tx n1"
    using apply_all_Ok [OF V(3), of "drop (unat ?applied) (take (unat (rl_commit_index (rn_log n))) xs)" n1]
      scan_apply_at [OF V(2) n(1), of ?applied] n1(2)
    by (auto simp: maybe_apply_def sbind_sread V(1) quiet_def)
  have q2: "rn_log n2 = rn_log n" "same_node n n2" using n1(2) n2(2) by (auto simp: quiet_def same_node_def)
  define g where "g = op_election_timeout_range (rn_opts n)"
  have rnd: "\<exists>e k. random_election_timeout V m = (Ok e, m\<lparr>rn_rng := k\<rparr>)" if "rn_opts m = rn_opts n" for m
    using that n(4) by (cases "ne_random_range V g (rn_rng m)") (auto simp: random_election_timeout_def g_def)
  obtain e3 k3 where n3: "random_election_timeout V n2 = (Ok e3, n2\<lparr>rn_rng := k3\<rparr>)"
    using rnd [of n2] q2(2) by (auto simp: same_node_def)
  let ?n3 = "n2\<lparr>rn_rng := k3\<rparr>"
  obtain e4 k4 where n4: "random_election_timeout V ?n3 = (Ok e4, n2\<lparr>rn_rng := k4\<rparr>)"
    using rnd [of ?n3] q2(2) by (auto simp: same_node_def)
  have t: "0 < rl_term (rn_log n) + 1" "rl_term (rn_log n) < rl_term (rn_log n) + 1"
    using n(3) less_plus_one [of "rl_term (rn_log n)"] u64_le_max [of "rl_term (rn_log n)"]
    by (auto simp: u64_max_def word_order.not_eq_extremum dest: le_less_trans [OF word_zero_le])
  obtain l5 where l5: "set_term_vote E (ne_codec V) (rl_term (rn_log n) + 1) (Some (rn_id n)) (rn_log n) = (Ok (), l5)"
    "l5 = (rn_log n)\<lparr>rl_engine := rl_engine l5, rl_term := rl_term (rn_log n) + 1, rl_vote := Some (rn_id n)\<rparr>"
    using set_term_vote_effect [OF n(1), of "rl_term (rn_log n) + 1" "Some (rn_id n)"] t less_imp_le [OF t(2)] by auto
  let ?n5 = "n2\<lparr>rn_rng := k4, rn_log := l5\<rparr>"
  have last5: "get_last_index l5 = (rl_last_index (rn_log n), rl_last_term (rn_log n))"
    "rl_term l5 = rl_term (rn_log n) + 1" "rl_vote l5 = Some (rn_id n)"
    by (subst l5(2), simp add: get_last_index_def)+
  obtain n6 where n6: "broadcast (Campaign (rl_last_index (rn_log n)) (rl_last_term (rn_log n))) ?n5 = (Ok (), n6)"
    "quiet ?n5 n6" "ch_sent (rn_tx n6) = ch_sent (rn_tx n2) @ map (\<lambda>p. \<lparr>ev_from = rn_id n, ev_term = rl_term (rn_log n) + 1,
      ev_to = p, ev_message = Campaign (rl_last_index (rn_log n)) (rl_last_term (rn_log n))\<rparr>)
      (sorted_list_of_set (rn_peers n))"
    using sends_Ok [of ?n5 "sorted_list_of_set (rn_peers n)" "\<lambda>p. p" "\<lambda>_. Campaign (rl_last_index (rn_log n)) (rl_last_term (rn_log n))"]
      n1(3) n2(3) q2(2) last5 by (auto simp: broadcast_def same_node_def node_term_def get_term_vote_def)
  let ?cd = "(candidate_new e4)\<lparr>ca_votes := {rn_id n}\<rparr>"
  have camp: "campaign V (candidate_new e3) ?n3 = (Ok ?cd, n6)"
    using n4 l5(1) last5(1) n6(1) q2 V(1)
    by (auto simp: campaign_def Let_def sbind_def on_log_def node_term_def get_term_vote_def same_node_def)
  have l6: "rn_log n6 = l5" "rn_id n6 = rn_id n"
    using n6(2) q2(2) by (auto simp: quiet_def same_node_def)
  have "into_candidate V r n = (Ok ?cd, n6)"
    using n1(1) n2(1) n3 camp l6 last5 t
    by (auto simp: into_candidate_def sbind_def get_term_vote_def rassert_def)
  then show ?thesis
    using n6(3) l6 last5(2) by (intro exI [of _ ?cd] exI [of _ n6]) (auto simp: node_term_def get_term_vote_def)
qed

end

text \<open>
  Property C20. A follower that hears nothing from a leader stays a follower for one tick less than its election timeout, and the
  tick that completes the timeout makes it a candidate of the next term that voted for itself
  and asked every peer for its vote. The tick counter does not wrap around on the way.
\<close>

theorem follower_campaigns:
  fixes V :: "(bitcask, 's, 'g) node_env"
  assumes "ne_engine V = bitcask_engine" "log_codec_ok (ne_codec V)" "never_panics (ne_state V)"
    and "log_run bitcask_engine (ne_codec V) (bitcask_new []) (rn_log n)" "node_term n \<noteq> u64_max"
    and "ch_open (rn_tx n)" "fst (op_election_timeout_range (rn_opts n)) < snd (op_election_timeout_range (rn_opts n))"
    and "fo_leader_seen r = 0" "unat (fo_election_timeout r) = Suc k"
  shows "(\<forall>j \<le> k. node_ticks V j (Follower r) n = (Ok (Follower (r\<lparr>fo_leader_seen := word_of_nat j\<rparr>)), n)) \<and>
    (\<exists>cd n'. node_ticks V (Suc k) (Follower r) n = (Ok (Candidate cd), n') \<and> node_term n' = node_term n + 1 \<and>
      ca_votes cd = {rn_id n} \<and>
      (\<forall>p \<in> rn_peers n. \<exists>li lt. \<lparr>ev_from = rn_id n, ev_term = node_term n + 1, ev_to = p,
        ev_message = Campaign li lt\<rparr> \<in> set (ch_sent (rn_tx n'))))"
proof -
  have ticks: "node_ticks V j (Follower r) n = (Ok (Follower (r\<lparr>fo_leader_seen := word_of_nat j\<rparr>)), n)" if "j \<le> k" for j
    using follower_ticks [of r j V n] assms(8,9) that by simp
  obtain xs where xs: "bc.log_repr (ne_codec V) (rn_log n) xs"
    using bc.run_refines [OF assms(4,2) rk_repr_new] by blast
  let ?r = "r\<lparr>fo_leader_seen := word_of_nat k\<rparr>"
  have "unat (word_of_nat k + 1 :: ticks) = Suc k"
    using tick_no_wrap(2) [of 0 k "fo_election_timeout r"] assms(9) by (simp add: add.commute)
  then have tick: "node_tick V (Follower ?r) n =
      sbind (into_candidate V (?r\<lparr>fo_leader_seen := word_of_nat k + 1\<rparr>)) (\<lambda>c. sreturn (Candidate c)) n"
    using assms(9) by (simp add: node_tick_def follower_tick_def Let_def word_le_nat_alt)
  obtain cd n' where "into_candidate V (?r\<lparr>fo_leader_seen := word_of_nat k + 1\<rparr>) n = (Ok cd, n')"
    "node_term n' = node_term n + 1" "ca_votes cd = {rn_id n}"
    "\<forall>p \<in> rn_peers n. \<lparr>ev_from = rn_id n, ev_term = node_term n + 1, ev_to = p,
      ev_message = Campaign (rl_last_index (rn_log n)) (rl_last_term (rn_log n))\<rparr> \<in> set (ch_sent (rn_tx n'))"
    using bc.into_candidate_succeeds [OF assms(1-3) xs assms(6) _ assms(7)] assms(5)
    by (fastforce simp: node_term_def get_term_vote_def)
  then show ?thesis
    using ticks [of k] ticks tick unfolding node_ticks_last by (auto simp: sbind_def)
qed

section \<open>Witnesses\<close>

lemma demo_sm: "never_panics (ne_state demo_env)"
  by (simp add: never_panics_def demo_env_def)

text \<open>A follower of three nodes with an election timeout of three ticks.\<close>

definition demo_follower :: follower where
  "demo_follower = follower_new None 3"

definition demo_node :: "(bitcask, raft_index, unit) raw_node" where
  "demo_node = \<lparr>rn_id = 1, rn_peers = {2, 3}, rn_log = unwrap (log_new bitcask_engine plain_log_codec (bitcask_new [])),
     rn_state = 0, rn_tx = \<lparr>ch_open = True, ch_sent = []\<rparr>, rn_opts = demo_opts, rn_rng = ()\<rparr>"

theorem follower_campaigns_witness:
  "(\<exists>cd n'. node_ticks demo_env 3 (Follower demo_follower) demo_node = (Ok (Candidate cd), n') \<and>
     node_term n' = 1 \<and> ca_votes cd = {1})"
proof -
  obtain l where l: "log_new bitcask_engine plain_log_codec (bitcask_new []) = Ok l" "rl_term l = 0"
    using demo_log_new by blast
  have "log_run bitcask_engine plain_log_codec (bitcask_new []) (rn_log demo_node)"
    unfolding demo_node_def using run_new [OF l(1)] l(1) by simp
  moreover have "node_term demo_node = 0" "ne_engine demo_env = bitcask_engine" "ne_codec demo_env = plain_log_codec"
    "u64_max \<noteq> 0" using l by (simp_all add: demo_node_def node_term_def get_term_vote_def demo_env_def u64_max_def)
  moreover have "ch_open (rn_tx demo_node)" "rn_id demo_node = 1"
    "fst (op_election_timeout_range (rn_opts demo_node)) < snd (op_election_timeout_range (rn_opts demo_node))"
    "fo_leader_seen demo_follower = 0" "unat (fo_election_timeout demo_follower) = Suc 2"
    by (simp_all add: demo_node_def demo_opts_def demo_follower_def follower_new_def)
  moreover have "Suc 2 = 3" by simp
  ultimately show ?thesis
    using follower_campaigns [of demo_env demo_node demo_follower 2, OF _ _ demo_sm] plain_log_codec_ok
    by (metis add_0)
qed

theorem quorum_value_correct_witness:
  "\<exists>v. quorum_value [4, 9, 7 :: nat] demo_node = Ok v \<and> v \<in> {4, 9, 7} \<and> quorum_size demo_node \<le> reached v [4, 9, 7]"
  using quorum_value_correct [of "[4, 9, 7 :: nat]" demo_node] by (auto simp: demo_node_def cluster_size_def)

text \<open>A leader of one node commits the entry it proposes.\<close>

definition demo_lead :: leader where
  "demo_lead = (leader_new {} 1)\<lparr>le_read_seq := 1,
     le_reads := [\<lparr>rd_seq = 1, rd_from = 1, rd_id = 5, rd_command = [7]\<rparr>]\<rparr>"

definition demo_single :: "(bitcask, raft_index, unit) raw_node" where
  "demo_single = \<lparr>rn_id = 1, rn_peers = {}, rn_log = demo_l3, rn_state = 0,
     rn_tx = \<lparr>ch_open = True, ch_sent = []\<rparr>, rn_opts = demo_opts, rn_rng = ()\<rparr>"

lemma demo_commit_run:
  "fst (get_commit_index (rn_log (snd (maybe_commit_and_apply demo_env demo_lead demo_single)))) = 2 \<and>
   fst (get_commit_index (rn_log demo_single)) = 0"
  by code_simp

theorem commit_needs_quorum_witness:
  "\<exists>x. log_get bitcask_engine plain_log_codec 2 (rn_log demo_single) = Ok (Some x) \<and> re_term x = node_term demo_single"
  using commit_needs_quorum [of demo_env demo_lead demo_single "fst (maybe_commit_and_apply demo_env demo_lead demo_single)"
      "snd (maybe_commit_and_apply demo_env demo_lead demo_single)"] demo_commit_run
  by (auto simp: demo_env_def)

definition demo_committed :: "(bitcask, raft_index, unit) raw_node" where
  "demo_committed = demo_single\<lparr>rn_log := (demo_l4\<lparr>rl_commit_term := 1\<rparr>), rn_state := 2\<rparr>"

lemma demo_read_run:
  "(case fst (maybe_read demo_env demo_lead demo_committed) of Ok r \<Rightarrow> le_reads r = [] | _ \<Rightarrow> False)"
  by code_simp

theorem reads_need_quorum_witness:
  "ch_sent (rn_tx (snd (maybe_read demo_env demo_lead demo_committed))) = map (read_answer demo_env demo_committed) (le_reads demo_lead) \<and>
   quorum_size demo_committed \<le> reached 1 [1 :: read_sequence]"
proof -
  obtain r' n' where run: "maybe_read demo_env demo_lead demo_committed = (Ok r', n')" "le_reads r' = []"
    using demo_read_run by (auto simp: split: result.splits) (metis prod.collapse)
  show ?thesis
    using reads_need_quorum [OF run(1)] run
    by (auto simp: demo_lead_def leader_new_def demo_committed_def demo_single_def)
qed

end
