(* ===== verification/Cache.thy ===== *)
theory Cache
  imports Prelude "HOL-Library.AList" "HOL-Library.Code_Target_Nat"
begin

text \<open>
  \<^verbatim>\<open>src/cache/cache.rs\<close>: the key cache, a hash map whose entries form a doubly linked list from
  the most to the least recently used key, and the global switches and counters. The map is an
  association list with distinct keys, since its iteration order is never used; a set of keys
  is passed as the list of its iteration. A failed \<^verbatim>\<open>unwrap\<close> or \<^verbatim>\<open>expect\<close> is a panic. Each call
  holds the mutex, so calls do not interleave. The specification is a plain list of entries.
\<close>

section \<open>The linked map\<close>

record cache_entry =
  ce_value :: string
  ce_prev :: "u64 option"
  ce_next :: "u64 option"

record cache =
  c_entries :: "(u64 \<times> cache_entry) list"
  c_head :: "u64 option"
  c_tail :: "u64 option"

datatype evict_type = LRU | FIFO

definition cache_new :: cache where
  "cache_new = \<lparr>c_entries = [], c_head = None, c_tail = None\<rparr>"

text \<open>\<^verbatim>\<open>get_mut(&key).unwrap()\<close> followed by an update of the entry.\<close>

definition modify_entry :: "u64 \<Rightarrow> (cache_entry \<Rightarrow> cache_entry) \<Rightarrow> cache \<Rightarrow> cache result" where
  "modify_entry key f c = (case map_of (c_entries c) key of
      Some e \<Rightarrow> Ok (c\<lparr>c_entries := AList.update key (f e) (c_entries c)\<rparr>)
    | None \<Rightarrow> Panic ''called `Option::unwrap()` on a `None` value'')"

definition detach :: "u64 \<Rightarrow> cache \<Rightarrow> cache result" where
  "detach key c = (case map_of (c_entries c) key of
      None \<Rightarrow> Panic ''key must exist''
    | Some e \<Rightarrow> rbind
        (case ce_prev e of
          Some p \<Rightarrow> modify_entry p (\<lambda>x. x\<lparr>ce_next := ce_next e\<rparr>) c
        | None \<Rightarrow> Ok (c\<lparr>c_head := ce_next e\<rparr>))
        (\<lambda>c. case ce_next e of
          Some n \<Rightarrow> modify_entry n (\<lambda>x. x\<lparr>ce_prev := ce_prev e\<rparr>) c
        | None \<Rightarrow> Ok (c\<lparr>c_tail := ce_prev e\<rparr>)))"

definition attach_to_front :: "u64 \<Rightarrow> cache \<Rightarrow> cache result" where
  "attach_to_front key c = (let old_head = c_head c in
     rbind (modify_entry key (\<lambda>x. x\<lparr>ce_prev := None, ce_next := old_head\<rparr>) c) (\<lambda>c.
     rbind (case old_head of
         Some old \<Rightarrow> modify_entry old (\<lambda>x. x\<lparr>ce_prev := Some key\<rparr>) c
       | None \<Rightarrow> Ok (c\<lparr>c_tail := Some key\<rparr>)) (\<lambda>c.
     Ok (c\<lparr>c_head := Some key\<rparr>))))"

definition pop_tail :: "cache \<Rightarrow> (u64 option \<times> cache) result" where
  "pop_tail c = (case c_tail c of
      None \<Rightarrow> Ok (None, c)
    | Some key \<Rightarrow> rbind (detach key c) (\<lambda>c. Ok (Some key, c)))"

section \<open>The global cache\<close>

record cache_state =
  cs_enabled :: bool
  cs_cache :: cache
  cs_hits :: u64
  cs_misses :: u64
  cs_evict_type :: evict_type
  cs_max_size :: nat

definition cache_init :: cache_state where
  "cache_init = \<lparr>cs_enabled = False, cs_cache = cache_new, cs_hits = 0, cs_misses = 0,
     cs_evict_type = LRU, cs_max_size = 5000\<rparr>"

definition enable :: "cache_state \<Rightarrow> cache_state" where
  "enable s = s\<lparr>cs_enabled := True\<rparr>"

definition set_eviction :: "evict_type \<Rightarrow> cache_state \<Rightarrow> cache_state" where
  "set_eviction ty s = s\<lparr>cs_evict_type := ty\<rparr>"

definition set_max_size :: "nat \<Rightarrow> cache_state \<Rightarrow> cache_state" where
  "set_max_size n s = s\<lparr>cs_max_size := n\<rparr>"

definition reset_stats :: "cache_state \<Rightarrow> cache_state" where
  "reset_stats s = s\<lparr>cs_hits := 0, cs_misses := 0\<rparr>"

text \<open>Moving a key to the front when the policy is LRU.\<close>

definition touch :: "evict_type \<Rightarrow> u64 \<Rightarrow> cache \<Rightarrow> cache result" where
  "touch ty key c = (if ty = LRU then rbind (detach key c) (attach_to_front key) else Ok c)"

fun filter_loop :: "u64 list \<Rightarrow> u64 list \<Rightarrow> cache_state \<Rightarrow> (u64 list \<times> cache_state) result" where
  "filter_loop [] uncached s = Ok (uncached, s)"
| "filter_loop (key # keys) uncached s =
     (if map_of (c_entries (cs_cache s)) key \<noteq> None
      then rbind (touch (cs_evict_type s) key (cs_cache s)) (\<lambda>c.
        filter_loop keys uncached (s\<lparr>cs_hits := cs_hits s + 1, cs_cache := c\<rparr>))
      else filter_loop keys (uncached @ [key]) (s\<lparr>cs_misses := cs_misses s + 1\<rparr>))"

definition filter_uncached :: "u64 list \<Rightarrow> cache_state \<Rightarrow> (u64 list \<times> cache_state) result" where
  "filter_uncached keys s = (if \<not> cs_enabled s then Ok (keys, s) else filter_loop keys [] s)"

definition cache_insert :: "u64 \<Rightarrow> string \<Rightarrow> cache_state \<Rightarrow> cache_state result" where
  "cache_insert key v s =
     (if \<not> cs_enabled s then Ok s
      else let c = cs_cache s in
        (case map_of (c_entries c) key of
          Some e \<Rightarrow> rbind (modify_entry key (\<lambda>e. e\<lparr>ce_value := v\<rparr>) c) (\<lambda>c.
            rbind (touch (cs_evict_type s) key c) (\<lambda>c. Ok (s\<lparr>cs_cache := c\<rparr>)))
        | None \<Rightarrow>
            rbind (attach_to_front key (c\<lparr>c_entries :=
              AList.update key \<lparr>ce_value = v, ce_prev = None, ce_next = None\<rparr> (c_entries c)\<rparr>)) (\<lambda>c.
            if length (c_entries c) > cs_max_size s
            then rbind (pop_tail c) (\<lambda>(victim, c). Ok (s\<lparr>cs_cache := (case victim of
                Some k \<Rightarrow> c\<lparr>c_entries := AList.delete k (c_entries c)\<rparr>
              | None \<Rightarrow> c)\<rparr>))
            else Ok (s\<lparr>cs_cache := c\<rparr>))))"

section \<open>The specification\<close>

text \<open>The cached entries from the most to the least recently used.\<close>

type_synonym lru_list = "(u64 \<times> string) list"

definition spec_touch :: "evict_type \<Rightarrow> u64 \<Rightarrow> lru_list \<Rightarrow> lru_list" where
  "spec_touch ty key l = (case (ty, map_of l key) of
      (LRU, Some v) \<Rightarrow> (key, v) # AList.delete key l
    | _ \<Rightarrow> l)"

definition spec_insert :: "evict_type \<Rightarrow> nat \<Rightarrow> u64 \<Rightarrow> string \<Rightarrow> lru_list \<Rightarrow> lru_list" where
  "spec_insert ty max_size key v l =
     (if map_of l key \<noteq> None then spec_touch ty key (AList.update key v l)
      else let l' = (key, v) # l in if length l' > max_size then butlast l' else l')"

section \<open>Neighbours in a list\<close>

definition hd_opt :: "'a list \<Rightarrow> 'a option" where
  "hd_opt xs = (case xs of [] \<Rightarrow> None | x # _ \<Rightarrow> Some x)"

abbreviation last_opt :: "'a list \<Rightarrow> 'a option" where
  "last_opt xs \<equiv> hd_opt (rev xs)"

fun next_in :: "'a list \<Rightarrow> 'a \<Rightarrow> 'a option" where
  "next_in [] k = None"
| "next_in (x # xs) k = (if x = k then hd_opt xs else next_in xs k)"

abbreviation prev_in :: "'a list \<Rightarrow> 'a \<Rightarrow> 'a option" where
  "prev_in xs k \<equiv> next_in (rev xs) k"

lemma hd_opt_simps [simp]: "hd_opt [] = None" "hd_opt (x # xs) = Some x"
  by (simp_all add: hd_opt_def)

lemma hd_opt_None [simp]: "hd_opt xs = None \<longleftrightarrow> xs = []"
  by (cases xs) simp_all

lemma hd_opt_append: "hd_opt (xs @ ys) = (if xs = [] then hd_opt ys else hd_opt xs)"
  by (cases xs) simp_all

lemma hd_opt_in: "hd_opt xs = Some x \<Longrightarrow> x \<in> set xs"
  by (cases xs) simp_all

lemma last_opt_in: "last_opt xs = Some x \<Longrightarrow> x \<in> set xs"
  using hd_opt_in [of "rev xs"] by simp

lemma next_in_middle [simp]: "k \<notin> set xs \<Longrightarrow> next_in (xs @ k # ys) k = hd_opt ys"
  by (induction xs) auto

lemma next_in_remove:
  "distinct (xs @ k # ys) \<Longrightarrow> j \<in> set (xs @ ys) \<Longrightarrow>
    next_in (xs @ ys) j = (if last_opt xs = Some j then hd_opt ys else next_in (xs @ k # ys) j)"
proof (induction xs)
  case (Cons x xs)
  then show ?case
    by (cases "xs = []") (auto simp: hd_opt_append dest: last_opt_in split: if_splits)
qed auto

lemma prev_in_remove:
  "distinct (xs @ k # ys) \<Longrightarrow> j \<in> set (xs @ ys) \<Longrightarrow>
    prev_in (xs @ ys) j = (if hd_opt ys = Some j then last_opt xs else prev_in (xs @ k # ys) j)"
  using next_in_remove [of "rev ys" k "rev xs" j] by (auto simp: Int_commute)

lemma prev_in_front:
  "distinct (k # ks) \<Longrightarrow> j \<in> set ks \<Longrightarrow> prev_in (k # ks) j = (if hd_opt ks = Some j then Some k else prev_in ks j)"
proof (induction ks rule: rev_induct)
  case (snoc x ks)
  then show ?case by (cases ks) (auto simp: hd_opt_append)
qed simp

section \<open>The linked map represents a list\<close>

text \<open>Every key of \<open>ks\<close> has its entry with the links of the list; other entries are not linked.\<close>

definition linked :: "cache \<Rightarrow> u64 list \<Rightarrow> bool" where
  "linked c ks = (distinct ks \<and> c_head c = hd_opt ks \<and> c_tail c = last_opt ks \<and>
     (\<forall>k\<in>set ks. \<exists>e. map_of (c_entries c) k = Some e \<and> ce_prev e = prev_in ks k \<and> ce_next e = next_in ks k))"

definition values_of :: "cache \<Rightarrow> u64 \<Rightarrow> string option" where
  "values_of c k = map_option ce_value (map_of (c_entries c) k)"

definition same_keys :: "cache \<Rightarrow> cache \<Rightarrow> bool" where
  "same_keys c d = (values_of d = values_of c \<and> map fst (c_entries d) = map fst (c_entries c))"

lemma update_keys: "map_of xs k \<noteq> None \<Longrightarrow> map fst (AList.update k v xs) = map fst xs"
  by (induction xs) (auto split: if_splits)

lemma modify_entry_Ok:
  assumes "map_of (c_entries c) k = Some e"
  shows "modify_entry k f c = Ok (c\<lparr>c_entries := AList.update k (f e) (c_entries c)\<rparr>)"
  using assms by (simp add: modify_entry_def)

lemma same_keys_modify:
  assumes "map_of (c_entries c) k = Some e" "ce_value (f e) = ce_value e"
  shows "same_keys c (c\<lparr>c_entries := AList.update k (f e) (c_entries c)\<rparr>)"
  using assms by (auto simp: same_keys_def values_of_def update_conv' update_keys fun_eq_iff)

lemma same_keys_trans: "same_keys a b \<Longrightarrow> same_keys b c \<Longrightarrow> same_keys a c"
  by (simp add: same_keys_def)

text \<open>Updating the neighbour of an entry, or the end of the list when there is none.\<close>

lemma link_step:
  assumes "\<And>p. neighbour = Some p \<Longrightarrow> map_of (c_entries c) p \<noteq> None"
    and "\<And>x. ce_value (f x) = ce_value x" "c_entries (g c) = c_entries c"
  obtains d where "(case neighbour of Some p \<Rightarrow> modify_entry p f c | None \<Rightarrow> Ok (g c)) = Ok d"
    "\<And>j. map_of (c_entries d) j = map_option (\<lambda>x. if neighbour = Some j then f x else x) (map_of (c_entries c) j)"
    "same_keys c d"
    "c_head d = (if neighbour = None then c_head (g c) else c_head c)"
    "c_tail d = (if neighbour = None then c_tail (g c) else c_tail c)"
proof (cases neighbour)
  case None
  with assms(3) that [of "g c"] show thesis
    by (simp add: same_keys_def values_of_def fun_eq_iff option.map_id0 [unfolded id_def])
next
  case (Some p)
  with assms(1) obtain e where e: "map_of (c_entries c) p = Some e" by blast
  let ?d = "c\<lparr>c_entries := AList.update p (f e) (c_entries c)\<rparr>"
  have "map_of (c_entries ?d) j = map_option (\<lambda>x. if neighbour = Some j then f x else x) (map_of (c_entries c) j)" for j
    using e Some by (cases "map_of (c_entries c) j") (auto simp: update_conv')
  with that [of ?d] e Some assms(2) show thesis
    by (simp add: modify_entry_Ok same_keys_modify)
qed

lemma linked_entry:
  "linked c ks \<Longrightarrow> k \<in> set ks \<Longrightarrow> \<exists>e. map_of (c_entries c) k = Some e \<and> ce_prev e = prev_in ks k \<and> ce_next e = next_in ks k"
  by (simp add: linked_def)

lemma detach_linked:
  assumes "linked c (xs @ k # ys)"
  obtains d where "detach k c = Ok d" "linked d (xs @ ys)" "same_keys c d"
proof -
  have dist: "distinct (xs @ k # ys)" using assms by (simp add: linked_def)
  have "prev_in (xs @ k # ys) k = last_opt xs" "next_in (xs @ k # ys) k = hd_opt ys"
    using dist by simp_all
  with linked_entry [OF assms, of k] obtain e where
    e: "map_of (c_entries c) k = Some e" "ce_prev e = last_opt xs" "ce_next e = hd_opt ys" by auto
  have entry: "map_of (c_entries c) j \<noteq> None" if "j \<in> set (xs @ ys)" for j
    using linked_entry [OF assms, of j] that by auto
  have prev: "map_of (c_entries c) p \<noteq> None" if "last_opt xs = Some p" for p
    using entry last_opt_in [OF that] by simp
  have succ: "map_of (c_entries c) n \<noteq> None" if "hd_opt ys = Some n" for n
    using entry hd_opt_in [OF that] by simp
  obtain c1 where c1: "(case last_opt xs of Some p \<Rightarrow> modify_entry p (\<lambda>x. x\<lparr>ce_next := hd_opt ys\<rparr>) c
        | None \<Rightarrow> Ok (c\<lparr>c_head := hd_opt ys\<rparr>)) = Ok c1"
    "\<And>j. map_of (c_entries c1) j =
      map_option (\<lambda>x. if last_opt xs = Some j then x\<lparr>ce_next := hd_opt ys\<rparr> else x) (map_of (c_entries c) j)"
    "same_keys c c1" "c_head c1 = (if last_opt xs = None then hd_opt ys else c_head c)" "c_tail c1 = c_tail c"
    by (rule link_step [of "last_opt xs" c "\<lambda>x. x\<lparr>ce_next := hd_opt ys\<rparr>" "\<lambda>c. c\<lparr>c_head := hd_opt ys\<rparr>"])
      (use prev in \<open>auto split: if_splits\<close>)
  obtain d where d: "(case hd_opt ys of Some n \<Rightarrow> modify_entry n (\<lambda>x. x\<lparr>ce_prev := last_opt xs\<rparr>) c1
        | None \<Rightarrow> Ok (c1\<lparr>c_tail := last_opt xs\<rparr>)) = Ok d"
    "\<And>j. map_of (c_entries d) j =
      map_option (\<lambda>x. if hd_opt ys = Some j then x\<lparr>ce_prev := last_opt xs\<rparr> else x) (map_of (c_entries c1) j)"
    "same_keys c1 d" "c_head d = c_head c1" "c_tail d = (if hd_opt ys = None then last_opt xs else c_tail c1)"
    by (rule link_step [of "hd_opt ys" c1 "\<lambda>x. x\<lparr>ce_prev := last_opt xs\<rparr>" "\<lambda>c. c\<lparr>c_tail := last_opt xs\<rparr>"])
      (use succ c1(2) in \<open>auto split: if_splits\<close>)
  have "\<exists>x. map_of (c_entries d) j = Some x \<and> ce_prev x = prev_in (xs @ ys) j \<and> ce_next x = next_in (xs @ ys) j"
    if "j \<in> set (xs @ ys)" for j
    using linked_entry [OF assms, of j] that next_in_remove [OF dist that] prev_in_remove [OF dist that] c1(2) d(2)
    by auto
  moreover have "c_head d = hd_opt (xs @ ys)" "c_tail d = last_opt (xs @ ys)"
    using assms c1(4,5) d(4,5) by (simp_all add: linked_def hd_opt_append)
  ultimately have "linked d (xs @ ys)"
    using dist unfolding linked_def by auto
  moreover have "detach k c = Ok d" using e c1(1) d(1) by (simp add: detach_def cong: option.case_cong)
  ultimately show thesis using that c1(3) d(3) same_keys_trans by blast
qed

lemma attach_linked:
  assumes "linked c ks" "k \<notin> set ks" "map_of (c_entries c) k \<noteq> None"
  obtains d where "attach_to_front k c = Ok d" "linked d (k # ks)" "same_keys c d"
proof -
  from assms(3) obtain e where e: "map_of (c_entries c) k = Some e" by blast
  have head: "c_head c = hd_opt ks" using assms(1) by (simp add: linked_def)
  let ?c1 = "c\<lparr>c_entries := AList.update k (e\<lparr>ce_prev := None, ce_next := hd_opt ks\<rparr>) (c_entries c)\<rparr>"
  have entry: "map_of (c_entries ?c1) n \<noteq> None" if "hd_opt ks = Some n" for n
    using linked_entry [OF assms(1), of n] hd_opt_in [OF that] by (auto simp: update_conv')
  obtain c2 where c2: "(case hd_opt ks of Some n \<Rightarrow> modify_entry n (\<lambda>x. x\<lparr>ce_prev := Some k\<rparr>) ?c1
        | None \<Rightarrow> Ok (?c1\<lparr>c_tail := Some k\<rparr>)) = Ok c2"
    "\<And>j. map_of (c_entries c2) j =
      map_option (\<lambda>x. if hd_opt ks = Some j then x\<lparr>ce_prev := Some k\<rparr> else x) (map_of (c_entries ?c1) j)"
    "same_keys ?c1 c2" "c_tail c2 = (if hd_opt ks = None then Some k else c_tail c)"
    by (rule link_step [of "hd_opt ks" ?c1 "\<lambda>x. x\<lparr>ce_prev := Some k\<rparr>" "\<lambda>c. c\<lparr>c_tail := Some k\<rparr>"])
      (use entry in \<open>auto split: if_splits\<close>)
  let ?d = "c2\<lparr>c_head := Some k\<rparr>"
  have "\<exists>x. map_of (c_entries ?d) j = Some x \<and> ce_prev x = prev_in (k # ks) j \<and> ce_next x = next_in (k # ks) j"
    if "j \<in> set (k # ks)" for j
  proof (cases "j = k")
    case True
    moreover have "hd_opt ks \<noteq> Some k" using assms(2) hd_opt_in by fastforce
    ultimately show ?thesis using c2(2) assms(2) by (simp add: update_conv')
  next
    case False
    with that linked_entry [OF assms(1), of j] obtain x where
      x: "map_of (c_entries c) j = Some x" "ce_prev x = prev_in ks j" "ce_next x = next_in ks j" by auto
    have "prev_in (k # ks) j = (if hd_opt ks = Some j then Some k else prev_in ks j)"
      using prev_in_front [of k ks j] False that assms(1,2) by (simp add: linked_def)
    with x False c2(2) show ?thesis by (simp add: update_conv')
  qed
  moreover have "c_tail ?d = last_opt (k # ks)"
    using c2(4) assms(1) by (cases ks) (auto simp: linked_def hd_opt_append)
  ultimately have "linked ?d (k # ks)"
    using assms(1,2) unfolding linked_def by simp
  moreover have "attach_to_front k c = Ok ?d"
    using e head c2(1) by (simp add: attach_to_front_def modify_entry_def)
  moreover have "same_keys c ?d"
    using same_keys_modify [OF e, of "\<lambda>e. e\<lparr>ce_prev := None, ce_next := hd_opt ks\<rparr>"] c2(3)
    by (auto simp: same_keys_def values_of_def fun_eq_iff)
  ultimately show thesis using that by blast
qed

section \<open>The cache implements the list\<close>

definition represents :: "cache \<Rightarrow> lru_list \<Rightarrow> bool" where
  "represents c l = (linked c (map fst l) \<and> distinct (map fst (c_entries c)) \<and> values_of c = map_of l)"

lemma represents_new: "represents cache_new []"
  by (simp add: represents_def linked_def cache_new_def values_of_def fun_eq_iff)

lemma represents_key: "represents c l \<Longrightarrow> map_of (c_entries c) k \<noteq> None \<longleftrightarrow> map_of l k \<noteq> None"
  by (metis represents_def map_option_is_None values_of_def)

lemma represents_length: "represents c l \<Longrightarrow> length (c_entries c) = length l"
proof -
  assume r: "represents c l"
  have "set (map fst (c_entries c)) = set (map fst l)"
    using represents_key [OF r] by (auto simp: map_of_eq_None_iff)
  moreover have "distinct (map fst (c_entries c))" "distinct (map fst l)"
    using r by (simp_all add: represents_def linked_def)
  ultimately show ?thesis by (metis distinct_card length_map)
qed

lemma represents_same_keys:
  "represents c l \<Longrightarrow> same_keys c d \<Longrightarrow> linked d (map fst l') \<Longrightarrow> map_of l' = map_of l \<Longrightarrow> represents d l'"
  by (simp add: represents_def same_keys_def)

lemma delete_middle: "distinct (map fst (xs @ (k, v) # ys)) \<Longrightarrow> AList.delete k (xs @ (k, v) # ys) = xs @ ys"
  by (induction xs) (auto simp: AList.delete_eq filter_id_conv image_iff)

lemma map_of_middle: "k \<notin> fst ` set xs \<Longrightarrow> map_of (xs @ (k, v) # ys) = map_of ((k, v) # xs @ ys)"
  by (induction xs) (auto simp: fun_upd_twist simp del: map_of_append)

lemma touch_represents:
  assumes "represents c l" "map_of l k \<noteq> None"
  obtains d where "touch ty k c = Ok d" "represents d (spec_touch ty k l)"
proof (cases "ty = LRU")
  case True
  from assms(2) obtain v where v: "map_of l k = Some v" by blast
  then obtain xs ys where l: "l = xs @ (k, v) # ys" by (meson map_of_SomeD split_list)
  have dist: "distinct (map fst l)" using assms(1) by (simp add: represents_def linked_def)
  have "linked c (map fst xs @ k # map fst ys)" using assms(1) l by (simp add: represents_def)
  then obtain d where d: "detach k c = Ok d" "linked d (map fst xs @ map fst ys)" "same_keys c d"
    by (rule detach_linked)
  moreover have "map_of (c_entries d) k \<noteq> None"
    using represents_key [OF assms(1)] assms(2) d(3)
    by (metis map_option_is_None same_keys_def values_of_def)
  ultimately obtain d' where d': "attach_to_front k d = Ok d'" "linked d' (k # map fst xs @ map fst ys)" "same_keys d d'"
    using dist l attach_linked [of d "map fst xs @ map fst ys" k] by auto
  have spec: "spec_touch ty k l = (k, v) # xs @ ys"
    using True v dist l by (simp add: spec_touch_def delete_middle)
  have "map_of ((k, v) # xs @ ys) = map_of l"
    using dist l map_of_middle [of k xs v ys] by simp
  with represents_same_keys [OF assms(1) same_keys_trans [OF d(3) d'(3)], of "(k, v) # xs @ ys"] d'(2)
  have "represents d' (spec_touch ty k l)" by (simp add: spec)
  with that d(1) d'(1) True show thesis by (simp add: touch_def)
next
  case False
  then have "ty = FIFO" by (cases ty) simp_all
  with assms that [of c] show thesis by (simp add: touch_def spec_touch_def)
qed

lemma update_value_represents:
  assumes "represents c l" "map_of l k \<noteq> None"
  obtains d where "modify_entry k (\<lambda>e. e\<lparr>ce_value := v\<rparr>) c = Ok d" "represents d (AList.update k v l)"
proof -
  obtain e where e: "map_of (c_entries c) k = Some e"
    using assms represents_key by blast
  let ?d = "c\<lparr>c_entries := AList.update k (e\<lparr>ce_value := v\<rparr>) (c_entries c)\<rparr>"
  have "map fst (AList.update k v l) = map fst l" using assms(2) by (rule update_keys)
  moreover have "linked ?d (map fst l)"
    using assms(1) e by (fastforce simp: represents_def linked_def update_conv')
  moreover have "values_of ?d = map_of (AList.update k v l)"
    using assms(1) by (auto simp: represents_def values_of_def update_conv' fun_eq_iff)
  moreover have "distinct (map fst (c_entries ?d))"
    using assms(1) by (simp add: represents_def distinct_update)
  ultimately have "represents ?d (AList.update k v l)" by (simp add: represents_def)
  with that e show thesis by (simp add: modify_entry_Ok)
qed

lemma add_front_represents:
  assumes "represents c l" "map_of l k = None"
  obtains d where "attach_to_front k (c\<lparr>c_entries := AList.update k \<lparr>ce_value = v, ce_prev = None, ce_next = None\<rparr> (c_entries c)\<rparr>) = Ok d"
    "represents d ((k, v) # l)"
proof -
  let ?c = "c\<lparr>c_entries := AList.update k \<lparr>ce_value = v, ce_prev = None, ce_next = None\<rparr> (c_entries c)\<rparr>"
  have k: "k \<notin> set (map fst l)" using assms(2) by (simp add: map_of_eq_None_iff)
  have "linked ?c (map fst l)"
    using assms(1) k by (fastforce simp: represents_def linked_def update_conv')
  then obtain d where d: "attach_to_front k ?c = Ok d" "linked d (k # map fst l)" "same_keys ?c d"
    using k attach_linked [of ?c "map fst l" k] by (auto simp: update_conv')
  moreover have "values_of ?c = map_of ((k, v) # l)"
    using assms(1) by (auto simp: represents_def values_of_def update_conv' fun_eq_iff)
  moreover have "distinct (map fst (c_entries ?c))"
    using assms(1) by (simp add: represents_def distinct_update)
  ultimately have "represents d ((k, v) # l)" by (simp add: represents_def same_keys_def)
  with that d(1) show thesis by blast
qed

lemma pop_tail_represents:
  assumes "represents c l" "l \<noteq> []"
  obtains k d where "pop_tail c = Ok (Some k, d)" "represents (d\<lparr>c_entries := AList.delete k (c_entries d)\<rparr>) (butlast l)"
proof -
  obtain k v where l: "l = butlast l @ [(k, v)]" using assms(2) by (metis append_butlast_last_id surj_pair)
  let ?l = "butlast l"
  have link: "linked c (map fst ?l @ k # [])"
    using assms(1) arg_cong [OF l, of "map fst"] by (simp only: represents_def map_append list.map fst_conv)
  then obtain d where d: "detach k c = Ok d" "linked d (map fst ?l)" "same_keys c d"
    by (rule detach_linked) simp
  have k: "k \<notin> set (map fst ?l)" using link by (auto simp: linked_def)
  let ?d = "d\<lparr>c_entries := AList.delete k (c_entries d)\<rparr>"
  have "linked ?d (map fst ?l)"
    using d(2) k by (fastforce simp: linked_def AList.delete_conv')
  moreover have "map_of l = (map_of ?l)(k \<mapsto> v)"
    using k map_of_middle [of k ?l v "[]"] l by simp
  then have "values_of ?d = map_of ?l"
    using assms(1) d(3) map_of_eq_None_iff [of ?l k] k
    by (auto simp: represents_def same_keys_def values_of_def AList.delete_conv' fun_eq_iff)
  moreover have "distinct (map fst (c_entries ?d))"
    using assms(1) d(3) by (simp add: represents_def same_keys_def AList.distinct_delete)
  ultimately have "represents ?d ?l" by (simp add: represents_def)
  moreover have "c_tail c = Some k" using link by (simp add: linked_def)
  then have "pop_tail c = Ok (Some k, d)" using d(1) by (simp add: pop_tail_def)
  ultimately show thesis using that by blast
qed

lemma insert_represents:
  assumes "represents (cs_cache s) l" "cs_enabled s"
  obtains c where "cache_insert k v s = Ok (s\<lparr>cs_cache := c\<rparr>)"
    "represents c (spec_insert (cs_evict_type s) (cs_max_size s) k v l)"
proof (cases "map_of l k = None")
  case False
  with assms(1) obtain e where e: "map_of (c_entries (cs_cache s)) k = Some e" using represents_key by blast
  obtain c where c: "modify_entry k (\<lambda>e. e\<lparr>ce_value := v\<rparr>) (cs_cache s) = Ok c" "represents c (AList.update k v l)"
    using update_value_represents [OF assms(1) False] by blast
  moreover obtain d where "touch (cs_evict_type s) k c = Ok d" "represents d (spec_touch (cs_evict_type s) k (AList.update k v l))"
    using touch_represents [OF c(2), of k] by (metis option.distinct(1) update_Some_unfold)
  ultimately show thesis
    using that e False assms(2) by (simp add: cache_insert_def spec_insert_def)
next
  case True
  then have none: "map_of (c_entries (cs_cache s)) k = None" using represents_key [OF assms(1), of k] by blast
  obtain c where c: "attach_to_front k ((cs_cache s)\<lparr>c_entries := AList.update k \<lparr>ce_value = v, ce_prev = None, ce_next = None\<rparr> (c_entries (cs_cache s))\<rparr>) = Ok c"
    "represents c ((k, v) # l)"
    using add_front_represents [OF assms(1) True] by blast
  moreover obtain j d where "pop_tail c = Ok (Some j, d)"
    "represents (d\<lparr>c_entries := AList.delete j (c_entries d)\<rparr>) (butlast ((k, v) # l))"
    using pop_tail_represents [OF c(2)] by blast
  ultimately show thesis
    using that none True assms(2) represents_length [OF c(2)]
    by (cases "length ((k, v) # l) > cs_max_size s") (simp_all add: cache_insert_def spec_insert_def)
qed

section \<open>Runs of the cache\<close>

datatype cache_call =
    Enable
  | SetEviction evict_type
  | SetMaxSize nat
  | Insert u64 string
  | FilterUncached "u64 list"
  | ResetStats

text \<open>A call with the keys it returns.\<close>

fun do_call :: "cache_call \<Rightarrow> cache_state \<Rightarrow> (u64 list \<times> cache_state) result" where
  "do_call Enable s = Ok ([], enable s)"
| "do_call (SetEviction ty) s = Ok ([], set_eviction ty s)"
| "do_call (SetMaxSize n) s = Ok ([], set_max_size n s)"
| "do_call (Insert k v) s = rbind (cache_insert k v s) (\<lambda>s. Ok ([], s))"
| "do_call (FilterUncached keys) s = filter_uncached keys s"
| "do_call ResetStats s = Ok ([], reset_stats s)"

fun cache_run :: "cache_call list \<Rightarrow> cache_state \<Rightarrow> (u64 list list \<times> cache_state) result" where
  "cache_run [] s = Ok ([], s)"
| "cache_run (call # calls) s = rbind (do_call call s) (\<lambda>(out, s). rbind (cache_run calls s) (\<lambda>(outs, s). Ok (out # outs, s)))"

text \<open>The same calls on the specification.\<close>

record spec_state =
  ss_enabled :: bool
  ss_list :: lru_list
  ss_hits :: u64
  ss_misses :: u64
  ss_evict_type :: evict_type
  ss_max_size :: nat

definition spec_init :: spec_state where
  "spec_init = \<lparr>ss_enabled = False, ss_list = [], ss_hits = 0, ss_misses = 0, ss_evict_type = LRU, ss_max_size = 5000\<rparr>"

fun spec_call :: "cache_call \<Rightarrow> spec_state \<Rightarrow> u64 list \<times> spec_state" where
  "spec_call Enable s = ([], s\<lparr>ss_enabled := True\<rparr>)"
| "spec_call (SetEviction ty) s = ([], s\<lparr>ss_evict_type := ty\<rparr>)"
| "spec_call (SetMaxSize n) s = ([], s\<lparr>ss_max_size := n\<rparr>)"
| "spec_call (Insert k v) s = ([], if ss_enabled s
     then s\<lparr>ss_list := spec_insert (ss_evict_type s) (ss_max_size s) k v (ss_list s)\<rparr> else s)"
| "spec_call (FilterUncached keys) s = (if ss_enabled s
     then let missing = filter (\<lambda>k. map_of (ss_list s) k = None) keys in
       (missing, s\<lparr>ss_list := fold (spec_touch (ss_evict_type s)) keys (ss_list s),
          ss_hits := ss_hits s + of_nat (length keys - length missing), ss_misses := ss_misses s + of_nat (length missing)\<rparr>)
     else (keys, s))"
| "spec_call ResetStats s = ([], s\<lparr>ss_hits := 0, ss_misses := 0\<rparr>)"

fun spec_run :: "cache_call list \<Rightarrow> spec_state \<Rightarrow> u64 list list \<times> spec_state" where
  "spec_run [] s = ([], s)"
| "spec_run (call # calls) s = (let (out, s) = spec_call call s; (outs, s) = spec_run calls s in (out # outs, s))"

definition implements :: "cache_state \<Rightarrow> spec_state \<Rightarrow> bool" where
  "implements s a = (represents (cs_cache s) (ss_list a) \<and> cs_enabled s = ss_enabled a \<and> cs_hits s = ss_hits a \<and>
     cs_misses s = ss_misses a \<and> cs_evict_type s = ss_evict_type a \<and> cs_max_size s = ss_max_size a)"

lemma spec_touch_keys: "distinct (map fst l) \<Longrightarrow> map_of (spec_touch ty k l) = map_of l"
proof (cases "ty = LRU \<and> map_of l k \<noteq> None")
  case True
  then show ?thesis by (auto simp: spec_touch_def AList.delete_conv' fun_eq_iff)
next
  case False
  then show ?thesis by (cases ty) (auto simp: spec_touch_def split: option.splits)
qed

lemma filter_loop_implements:
  assumes "represents (cs_cache s) l"
  shows "\<exists>c. filter_loop keys uncached s =
      Ok (uncached @ filter (\<lambda>k. map_of l k = None) keys,
        s\<lparr>cs_cache := c, cs_hits := cs_hits s + of_nat (length (filter (\<lambda>k. map_of l k \<noteq> None) keys)),
          cs_misses := cs_misses s + of_nat (length (filter (\<lambda>k. map_of l k = None) keys))\<rparr>) \<and>
    represents c (fold (spec_touch (cs_evict_type s)) keys l)"
  using assms
proof (induction keys uncached s arbitrary: l rule: filter_loop.induct)
  case (1 uncached s)
  then show ?case by (intro exI [of _ "cs_cache s"]) simp
next
  case (2 key keys uncached s)
  have dist: "distinct (map fst l)" using "2.prems" by (simp add: represents_def linked_def)
  show ?case
  proof (cases "map_of l key = None")
    case True
    then have "map_of (c_entries (cs_cache s)) key = None" using represents_key [OF "2.prems", of key] by blast
    moreover have "spec_touch (cs_evict_type s) key l = l" using True by (cases "cs_evict_type s") (simp_all add: spec_touch_def)
    ultimately show ?thesis
      using "2.IH"(2) [of l] "2.prems" True by (simp add: algebra_simps)
  next
    case False
    then obtain v where v: "map_of l key = Some v" by blast
    have e: "map_of (c_entries (cs_cache s)) key \<noteq> None" using False represents_key [OF "2.prems", of key] by blast
    obtain c where c: "touch (cs_evict_type s) key (cs_cache s) = Ok c" "represents c (spec_touch (cs_evict_type s) key l)"
      using touch_represents [OF "2.prems" False] by blast
    from "2.IH"(1) [OF e, of c "spec_touch (cs_evict_type s) key l"] c e v spec_touch_keys [OF dist, of "cs_evict_type s" key]
    show ?thesis by (simp add: algebra_simps)
  qed
qed

lemma do_call_implements:
  assumes "implements s a"
  shows "\<exists>s'. do_call call s = Ok (fst (spec_call call a), s') \<and> implements s' (snd (spec_call call a))"
proof (cases call)
  case (Insert k v)
  show ?thesis
  proof (cases "cs_enabled s")
    case True
    with assms obtain c where "cache_insert k v s = Ok (s\<lparr>cs_cache := c\<rparr>)"
      "represents c (spec_insert (cs_evict_type s) (cs_max_size s) k v (ss_list a))"
      using insert_represents [of s "ss_list a" k v] by (auto simp: implements_def)
    with Insert True assms show ?thesis by (auto simp: implements_def)
  next
    case False
    with Insert assms show ?thesis by (simp add: implements_def cache_insert_def)
  qed
next
  case (FilterUncached keys)
  show ?thesis
  proof (cases "cs_enabled s")
    case True
    moreover have "length (filter (\<lambda>k. map_of (ss_list a) k \<noteq> None) keys) =
        length keys - length (filter (\<lambda>k. map_of (ss_list a) k = None) keys)"
      using sum_length_filter_compl [of "\<lambda>k. map_of (ss_list a) k = None" keys] by simp
    ultimately show ?thesis
      using FilterUncached assms filter_loop_implements [of s "ss_list a" keys "[]"]
      by (auto simp: implements_def filter_uncached_def Let_def)
  next
    case False
    with FilterUncached assms show ?thesis by (simp add: implements_def filter_uncached_def)
  qed
qed (use assms in \<open>auto simp: implements_def enable_def set_eviction_def set_max_size_def reset_stats_def\<close>)

lemma cache_run_implements:
  "implements s a \<Longrightarrow> \<exists>s'. cache_run calls s = Ok (fst (spec_run calls a), s') \<and> implements s' (snd (spec_run calls a))"
proof (induction calls arbitrary: s a)
  case (Cons call calls)
  from do_call_implements [OF Cons.prems, of call] obtain s1 where
    s1: "do_call call s = Ok (fst (spec_call call a), s1)" "implements s1 (snd (spec_call call a))" by blast
  from Cons.IH [OF s1(2)] s1(1) show ?case by (auto split: prod.splits)
qed simp

lemma implements_init: "implements cache_init spec_init"
  by (simp add: implements_def cache_init_def spec_init_def represents_new)

lemma spec_touch_length: "distinct (map fst l) \<Longrightarrow> length (spec_touch ty k l) = length l"
proof (cases "ty = LRU \<and> map_of l k \<noteq> None")
  case True
  assume dist: "distinct (map fst l)"
  from True obtain v where v: "map_of l k = Some v" by blast
  then obtain xs ys where "l = xs @ (k, v) # ys" by (meson map_of_SomeD split_list)
  with True v dist show ?thesis by (simp add: spec_touch_def delete_middle)
next
  case False
  then show ?thesis by (cases ty) (auto simp: spec_touch_def split: option.splits)
qed

lemma spec_touch_distinct: "distinct (map fst l) \<Longrightarrow> distinct (map fst (spec_touch ty k l))"
proof -
  have "k \<notin> fst ` set (AList.delete k l)" by (auto simp: AList.delete_eq)
  then show "distinct (map fst l) \<Longrightarrow> ?thesis"
    by (auto simp: spec_touch_def AList.distinct_delete split: evict_type.split option.split)
qed

lemma fold_touch: "distinct (map fst l) \<Longrightarrow>
    distinct (map fst (fold (spec_touch ty) keys l)) \<and> length (fold (spec_touch ty) keys l) = length l"
  by (induction keys arbitrary: l) (auto simp: spec_touch_distinct spec_touch_length)

lemma spec_insert_wf:
  assumes "distinct (map fst l)"
  shows "distinct (map fst (spec_insert ty n k v l))" "length (spec_insert ty n k v l) \<le> max (length l) n"
proof -
  have "length (AList.update k v l) = length l" if "map_of l k \<noteq> None"
    using update_keys [OF that, of v] by (metis length_map)
  then show "length (spec_insert ty n k v l) \<le> max (length l) n"
    using assms by (auto simp: spec_insert_def Let_def spec_touch_length distinct_update)
  have "distinct (map fst (butlast xs))" if "distinct (map fst xs)" for xs :: lru_list
    using that by (simp only: map_butlast distinct_butlast)
  then show "distinct (map fst (spec_insert ty n k v l))"
    using assms by (auto simp: spec_insert_def Let_def spec_touch_distinct distinct_update map_of_eq_None_iff simp del: butlast.simps)
qed

definition spec_wf :: "nat \<Rightarrow> spec_state \<Rightarrow> bool" where
  "spec_wf bound a = (distinct (map fst (ss_list a)) \<and> length (ss_list a) \<le> bound \<and> ss_max_size a \<le> bound)"

lemma spec_call_wf:
  "spec_wf bound a \<Longrightarrow> (\<And>n. call = SetMaxSize n \<Longrightarrow> n \<le> bound) \<Longrightarrow> spec_wf bound (snd (spec_call call a))"
proof (cases call)
  case (Insert k v)
  assume "spec_wf bound a"
  with Insert spec_insert_wf [of "ss_list a" "ss_evict_type a" "ss_max_size a" k v] show ?thesis
    by (auto simp: spec_wf_def)
qed (auto simp: spec_wf_def Let_def fold_touch)

lemma spec_run_wf:
  "spec_wf bound a \<Longrightarrow> \<forall>n. SetMaxSize n \<in> set calls \<longrightarrow> n \<le> bound \<Longrightarrow> spec_wf bound (snd (spec_run calls a))"
proof (induction calls arbitrary: a)
  case (Cons call calls)
  from Cons.IH [OF spec_call_wf [OF Cons.prems(1), of call]] Cons.prems(2) show ?case
    by (auto split: prod.splits)
qed simp

section \<open>Properties\<close>

text \<open>
  Property C31. The cache implements its specification: any sequence of calls from the start runs
  without a panic, returns the same keys as the plain list from the most to the least recently
  used entry, counts the same hits and misses, and the linked entries represent that list.
\<close>

theorem cache_refines:
  "\<exists>s. cache_run calls cache_init = Ok (fst (spec_run calls spec_init), s) \<and> implements s (snd (spec_run calls spec_init))"
  by (rule cache_run_implements [OF implements_init])

text \<open>
  The cache never holds more entries than a bound on all the size limits it is
  given, whatever calls are made.
\<close>

theorem cache_bounded:
  assumes "5000 \<le> bound" "\<forall>n. SetMaxSize n \<in> set calls \<longrightarrow> n \<le> bound"
  shows "\<exists>outs s. cache_run calls cache_init = Ok (outs, s) \<and> length (c_entries (cs_cache s)) \<le> bound"
proof -
  have "\<exists>outs s. cache_run calls cache_init = Ok (outs, s) \<and> implements s (snd (spec_run calls spec_init))"
    using cache_run_implements [OF implements_init, of calls] by blast
  moreover have "spec_wf bound (snd (spec_run calls spec_init))"
    using assms by (intro spec_run_wf) (simp_all add: spec_wf_def spec_init_def)
  ultimately show ?thesis
    using represents_length by (fastforce simp: implements_def spec_wf_def)
qed

section \<open>Witnesses\<close>

theorem cache_bounded_witness:
  "\<exists>outs s. cache_run [Enable, SetMaxSize 1, Insert 7 ''a'', Insert 8 ''b'', FilterUncached [7, 8]] cache_init = Ok (outs, s) \<and>
    length (c_entries (cs_cache s)) \<le> 5000"
  by (rule cache_bounded) auto

text \<open>
  Lowering the limit does not shrink the cache: an insertion evicts one entry at most, so with
  a limit of one the cache below keeps three.
\<close>

lemma lowered_limit:
  "map_option (\<lambda>(_, s). length (c_entries (cs_cache s)))
    (case cache_run [Enable, Insert 1 ''a'', Insert 2 ''b'', Insert 3 ''c'', SetMaxSize 1, Insert 4 ''d''] cache_init of
      Ok x \<Rightarrow> Some x | _ \<Rightarrow> None) = Some 3"
  by code_simp

end
