(* ===== verification/Float64.thy ===== *)
theory Float64
  imports KeycodeOrder
begin

text \<open>
  The operations of the standard library on \<^verbatim>\<open>i64\<close> and \<^verbatim>\<open>f64\<close> that SQL values use. An \<^verbatim>\<open>i64\<close>
  is a 64-bit word read as signed. An \<^verbatim>\<open>f64\<close> is its bit pattern; a finite one is an integer
  number of units of \<open>2 ^ -1074\<close>, so that every operation is exact integer arithmetic followed by
  one rounding to nearest, ties to even, as IEEE 754 prescribes. Rust leaves the sign and payload
  of a computed NaN open; here it is the positive quiet NaN.
\<close>

section \<open>Signed integers\<close>

type_synonym i64 = "64 word"
type_synonym f64 = "64 word"

definition i64_range :: "int \<Rightarrow> bool" where
  "i64_range x = (- (2 ^ 63) \<le> x \<and> x < 2 ^ 63)"

definition i64_checked :: "int \<Rightarrow> i64 option" where
  "i64_checked x = (if i64_range x then Some (word_of_int x) else None)"

lemma i64_sint: "i64_range (sint (a :: i64))"
  using sint_range_size [of a] by (simp add: i64_range_def word_size)

lemma sint_i64_checked: "i64_checked x = Some a \<longleftrightarrow> i64_range x \<and> sint a = x"
proof -
  have "sint (word_of_int x :: i64) = x" if "i64_range x"
    using that by (simp add: i64_range_def sint_word_ariths signed_take_bit_int_eq_self sint_sbintrunc')
  moreover have "word_of_int (sint a) = a" by simp
  ultimately show ?thesis by (auto simp: i64_checked_def)
qed

text \<open>Division truncates towards zero; the remainder has the sign of the dividend.\<close>

definition trunc_div :: "int \<Rightarrow> int \<Rightarrow> int" where
  "trunc_div x y = sgn x * sgn y * (\<bar>x\<bar> div \<bar>y\<bar>)"

definition trunc_rem :: "int \<Rightarrow> int \<Rightarrow> int" where
  "trunc_rem x y = sgn x * (\<bar>x\<bar> mod \<bar>y\<bar>)"

lemma trunc_div_rem: "y \<noteq> 0 \<Longrightarrow> trunc_div x y * y + trunc_rem x y = x"
proof -
  assume y: "y \<noteq> 0"
  have "trunc_div x y * y + trunc_rem x y = sgn x * (\<bar>x\<bar> div \<bar>y\<bar> * \<bar>y\<bar>) + sgn x * (\<bar>x\<bar> mod \<bar>y\<bar>)"
    by (simp add: trunc_div_def trunc_rem_def abs_sgn algebra_simps)
  also have "\<dots> = sgn x * \<bar>x\<bar>" by (simp only: distrib_left [symmetric] div_mult_mod_eq)
  finally show ?thesis by (simp only: sgn_mult_abs)
qed

lemma trunc_rem_bound: "y \<noteq> 0 \<Longrightarrow> \<bar>trunc_rem x y\<bar> < \<bar>y\<bar> \<and> (trunc_rem x y = 0 \<or> sgn (trunc_rem x y) = sgn x)"
proof -
  assume y: "y \<noteq> 0"
  define r where "r = \<bar>x\<bar> mod \<bar>y\<bar>"
  with y have r: "0 \<le> r" "r < \<bar>y\<bar>" by simp_all
  have "trunc_rem x y = sgn x * r" by (simp add: trunc_rem_def r_def)
  with r show ?thesis by (cases x "0 :: int" rule: linorder_cases) (auto simp: sgn_if)
qed

lemma i64_range_trunc_div:
  assumes "i64_range x" "\<not> (x = - (2 ^ 63) \<and> y = - 1)"
  shows "i64_range (trunc_div x y)"
proof -
  consider "y = 0" | "y = 1" | "y = - 1" | "2 \<le> \<bar>y\<bar>" by linarith
  then show ?thesis
  proof cases
    case 4
    have "\<bar>trunc_div x y\<bar> \<le> \<bar>x\<bar> div \<bar>y\<bar>"
      by (auto simp: trunc_div_def abs_mult sgn_if pos_imp_zdiv_nonneg_iff)
    also have "\<dots> \<le> \<bar>x\<bar> div 2" using 4 by (intro zdiv_mono2) auto
    finally show ?thesis using assms by (auto simp: i64_range_def)
  qed (use assms in \<open>auto simp: trunc_div_def i64_range_def sgn_if\<close>)
qed

lemma i64_range_trunc_rem: "i64_range x \<Longrightarrow> i64_range (trunc_rem x y)"
proof -
  assume x: "i64_range x"
  have "\<bar>x\<bar> mod \<bar>y\<bar> \<le> \<bar>x\<bar>" by (metis abs_ge_zero zmod_le_nonneg_dividend)
  moreover have "0 \<le> \<bar>x\<bar> mod \<bar>y\<bar>" by (cases "y = 0") auto
  ultimately show ?thesis using x by (auto simp: trunc_rem_def i64_range_def sgn_if)
qed

section \<open>Floating point numbers\<close>

definition f64_nan :: f64 where
  "f64_nan = 0x7FF8000000000000"

definition f64_infinity :: f64 where
  "f64_infinity = 0x7FF0000000000000"

definition f64_is_nan :: "f64 \<Rightarrow> bool" where
  "f64_is_nan v = (unat v mod 2 ^ 63 > 0x7FF0000000000000)"

definition f64_is_inf :: "f64 \<Rightarrow> bool" where
  "f64_is_inf v = (unat v mod 2 ^ 63 = 0x7FF0000000000000)"

definition f64_neg :: "f64 \<Rightarrow> f64" where
  "f64_neg v = v XOR 0x8000000000000000"

definition f64_signed :: "bool \<Rightarrow> f64 \<Rightarrow> f64" where
  "f64_signed s v = (if s then f64_neg v else v)"

text \<open>The value in units of \<open>2 ^ -1074\<close>; it orders the infinities outside all finite values.\<close>

definition f64_units :: "f64 \<Rightarrow> int" where
  "f64_units v = (let m = int (f64_numerator (unat v mod 2 ^ 63)) in if bit v 63 then - m else m)"

lemma f64_magnitude_eq: "v = w \<longleftrightarrow> (bit v 63 \<longleftrightarrow> bit w 63) \<and> unat v mod 2 ^ 63 = unat w mod 2 ^ 63"
  for v w :: f64
proof
  assume eq: "(bit v 63 \<longleftrightarrow> bit w 63) \<and> unat v mod 2 ^ 63 = unat w mod 2 ^ 63"
  have "unat v < 2 * 2 ^ 63" "unat w < 2 * 2 ^ 63" using unsigned_less [of v] unsigned_less [of w] by simp_all
  then have "unat v div 2 ^ 63 = (if bit v 63 then 1 else 0)" "unat w div 2 ^ 63 = (if bit w 63 then 1 else 0)"
    by (simp_all add: u64_sign_bit div_nat_eqI)
  with eq have "unat v = unat w" by (metis div_mult_mod_eq)
  then show "v = w" by (rule unsigned_word_eqI)
qed simp

lemma f64_units_eq: "f64_units v = f64_units w \<longleftrightarrow> v = w \<or> f64_units v = 0 \<and> f64_units w = 0"
proof -
  have num: "f64_numerator m = f64_numerator n \<longleftrightarrow> m = n" for m n
    by (metis f64_numerator_less nat_neq_iff)
  show ?thesis
  proof (cases "bit v 63 \<longleftrightarrow> bit w 63")
    case True
    then have "f64_units v = f64_units w \<longleftrightarrow> v = w"
      by (auto simp: f64_units_def Let_def f64_magnitude_eq [of v w] num)
    then show ?thesis by auto
  next
    case False
    then show ?thesis by (auto simp: f64_units_def Let_def)
  qed
qed

lemma f64_zero: "f64_units v = 0 \<longleftrightarrow> v = 0 \<or> v = 0x8000000000000000"
proof -
  have "f64_numerator m = 0 \<longleftrightarrow> m = 0" for m
    by (auto simp: f64_numerator_def Let_def)
  then show ?thesis
    by (auto simp: f64_units_def Let_def f64_magnitude_eq [of v 0] f64_magnitude_eq [of v "0x8000000000000000"])
qed

fun shift_for :: "nat \<Rightarrow> nat" where
  "shift_for n = (if n < 2 ^ 53 then 0 else Suc (shift_for (n div 2)))"

declare shift_for.simps [simp del]

lemma shift_for_eq: "2 ^ (52 + s) \<le> n \<Longrightarrow> n < 2 ^ (53 + s) \<Longrightarrow> shift_for n = s"
proof (induction s arbitrary: n)
  case 0
  then show ?case by (subst shift_for.simps) simp
next
  case (Suc s)
  have "(2 :: nat) ^ 53 \<le> 2 ^ (52 + Suc s)" by (intro power_increasing) simp_all
  also note Suc.prems(1)
  finally have "2 ^ 53 \<le> n" .
  moreover have "shift_for (n div 2) = s"
    using Suc.prems by (intro Suc.IH) (auto simp: power_add)
  ultimately show ?case by (subst shift_for.simps) simp
qed

text \<open>The nearest value to \<open>n / d\<close> units: the significand is rounded to even, a carry moves
  into the exponent, and what is too large is infinity.\<close>

definition f64_round :: "bool \<Rightarrow> nat \<Rightarrow> nat \<Rightarrow> f64" where
  "f64_round neg n d =
     (let s = shift_for (n div d); e = d * 2 ^ s; m = n div e; r = n mod e;
          m = (if 2 * r > e \<or> 2 * r = e \<and> odd m then Suc m else m)
      in f64_signed neg (word_of_nat (min (s * 2 ^ 52 + m) 0x7FF0000000000000)))"

definition f64_of_int :: "int \<Rightarrow> f64" where
  "f64_of_int x = f64_round (x < 0) (nat \<bar>x\<bar> * 2 ^ 1074) 1"

text \<open>An integer of more than 52 bits is rounded at its own bit \<open>j\<close>.\<close>

lemma f64_of_large:
  assumes "2 ^ (52 + j) \<le> n" "n < 2 ^ (53 + j)"
  shows "f64_of_int (int n) =
    (let m = n div 2 ^ j; r = n mod 2 ^ j
     in word_of_nat (min ((j + 1074) * 2 ^ 52 + (if 2 * r > 2 ^ j \<or> 2 * r = 2 ^ j \<and> odd m then Suc m else m)) 0x7FF0000000000000))"
proof -
  have e: "(2 :: nat) ^ (j + 1074) = 2 ^ j * 2 ^ 1074" by (rule power_add)
  have "shift_for (n * 2 ^ 1074) = j + 1074"
    using assms by (intro shift_for_eq) (simp_all only: add.assoc [symmetric] power_add mult_less_mono1 mult_le_mono1
        zero_less_power pos2)
  moreover have "n * 2 ^ 1074 div 2 ^ (j + 1074) = n div 2 ^ j"
    unfolding e by (rule div_mult_mult2) simp
  moreover have "n * 2 ^ 1074 mod 2 ^ (j + 1074) = n mod 2 ^ j * 2 ^ 1074"
    unfolding e by (rule mult_mod_left [symmetric])
  moreover have "2 * (r * 2 ^ 1074) > 2 ^ (j + 1074) \<longleftrightarrow> 2 * r > 2 ^ j"
    "2 * (r * 2 ^ 1074) = 2 ^ (j + 1074) \<longleftrightarrow> 2 * r = 2 ^ j" for r :: nat
    unfolding e mult.assoc [symmetric] by simp_all
  ultimately show ?thesis
    by (simp only: f64_of_int_def f64_round_def f64_signed_def Let_def of_nat_less_0_iff if_False
        abs_of_nat nat_int mult_1 div_by_1)
qed

definition f64_eq :: "f64 \<Rightarrow> f64 \<Rightarrow> bool" where
  "f64_eq a b = (\<not> f64_is_nan a \<and> \<not> f64_is_nan b \<and> f64_units a = f64_units b)"

definition f64_lt :: "f64 \<Rightarrow> f64 \<Rightarrow> bool" where
  "f64_lt a b = (\<not> f64_is_nan a \<and> \<not> f64_is_nan b \<and> f64_units a < f64_units b)"

definition f64_add :: "f64 \<Rightarrow> f64 \<Rightarrow> f64" where
  "f64_add a b =
     (if f64_is_nan a \<or> f64_is_nan b then f64_nan
      else if f64_is_inf a then (if f64_is_inf b \<and> a \<noteq> b then f64_nan else a)
      else if f64_is_inf b then b
      else let s = f64_units a + f64_units b in
        if s = 0 then f64_signed (bit a 63 \<and> bit b 63) 0
        else f64_round (s < 0) (nat \<bar>s\<bar>) 1)"

definition f64_sub :: "f64 \<Rightarrow> f64 \<Rightarrow> f64" where
  "f64_sub a b = (if f64_is_nan b then f64_nan else f64_add a (f64_neg b))"

definition f64_mul :: "f64 \<Rightarrow> f64 \<Rightarrow> f64" where
  "f64_mul a b =
     (let s = (bit a 63 \<noteq> bit b 63) in
      if f64_is_nan a \<or> f64_is_nan b then f64_nan
      else if f64_is_inf a \<or> f64_is_inf b
      then (if f64_units a = 0 \<or> f64_units b = 0 then f64_nan else f64_signed s f64_infinity)
      else f64_round s (nat \<bar>f64_units a * f64_units b\<bar>) (2 ^ 1074))"

definition f64_div :: "f64 \<Rightarrow> f64 \<Rightarrow> f64" where
  "f64_div a b =
     (let s = (bit a 63 \<noteq> bit b 63) in
      if f64_is_nan a \<or> f64_is_nan b then f64_nan
      else if f64_is_inf a then (if f64_is_inf b then f64_nan else f64_signed s f64_infinity)
      else if f64_is_inf b then f64_signed s 0
      else if f64_units b = 0 then (if f64_units a = 0 then f64_nan else f64_signed s f64_infinity)
      else f64_round s (nat \<bar>f64_units a\<bar> * 2 ^ 1074) (nat \<bar>f64_units b\<bar>))"

definition f64_rem :: "f64 \<Rightarrow> f64 \<Rightarrow> f64" where
  "f64_rem a b =
     (if f64_is_nan a \<or> f64_is_nan b \<or> f64_is_inf a \<or> f64_units b = 0 then f64_nan
      else if f64_is_inf b then a
      else f64_round (bit a 63) (nat (\<bar>f64_units a\<bar> mod \<bar>f64_units b\<bar>)) 1)"

text \<open>The square root keeps one extra bit for what the integer root drops.\<close>

fun isqrt :: "nat \<Rightarrow> nat" where
  "isqrt n = (if n = 0 then 0 else let r = 2 * isqrt (n div 4) in if (r + 1) ^ 2 \<le> n then r + 1 else r)"

declare isqrt.simps [simp del]

definition f64_sqrt :: "f64 \<Rightarrow> f64" where
  "f64_sqrt a =
     (if f64_is_nan a then f64_nan
      else if f64_units a = 0 then a
      else if bit a 63 then f64_nan
      else if f64_is_inf a then a
      else let n = nat (f64_units a) * 2 ^ 1074; r = isqrt n
           in f64_round False (2 * r + (if r ^ 2 = n then 0 else 1)) 2)"

text \<open>
  The precision of \<^verbatim>\<open>powf\<close> and \<^verbatim>\<open>powi\<close> is unspecified, and \<^verbatim>\<open>LIKE\<close> is evaluated by the regex
  crate: these are parameters.
\<close>

record value_ops =
  vo_powf :: "f64 \<Rightarrow> f64 \<Rightarrow> f64"
  vo_powi :: "f64 \<Rightarrow> 32 word \<Rightarrow> f64"
  vo_like :: "string \<Rightarrow> string \<Rightarrow> bool result"

end
