(* ===== verification/SqlValue.thy ===== *)
theory SqlValue
  imports Float64 "HOL-Library.Char_ord" "HOL-Library.Product_Lexorder"
begin

text \<open>
  \<^verbatim>\<open>src/sql/types/value.rs\<close>: SQL values with their equality, order, hash and checked
  arithmetic, and column labels. A string is the list of its UTF-8 bytes as characters, whose
  lexicographic order is Rust's order of strings. Formatting of values is not modelled.
\<close>

section \<open>Values\<close>

datatype data_type = BooleanType | IntegerType | FloatType | StringType

datatype sql_value =
    Null
  | Boolean bool
  | Integer i64
  | Float f64
  | Str string

type_synonym sql_row = "sql_value list"

datatype label = NoLabel | Unqualified string | Qualified string string

fun datatype_of :: "sql_value \<Rightarrow> data_type option" where
  "datatype_of Null = None"
| "datatype_of (Boolean _) = Some BooleanType"
| "datatype_of (Integer _) = Some IntegerType"
| "datatype_of (Float _) = Some FloatType"
| "datatype_of (Str _) = Some StringType"

fun is_undefined :: "sql_value \<Rightarrow> bool" where
  "is_undefined Null = True"
| "is_undefined (Float f) = f64_is_nan f"
| "is_undefined _ = False"

definition as_f64 :: "i64 \<Rightarrow> f64" where
  "as_f64 i = f64_of_int (sint i)"

definition value_eq :: "sql_value \<Rightarrow> sql_value \<Rightarrow> bool" where
  "value_eq x y = (case (x, y) of
      (Boolean a, Boolean b) \<Rightarrow> a = b
    | (Integer a, Integer b) \<Rightarrow> a = b
    | (Integer a, Float b) \<Rightarrow> f64_eq (as_f64 a) b
    | (Float a, Integer b) \<Rightarrow> f64_eq a (as_f64 b)
    | (Float a, Float b) \<Rightarrow> f64_eq a b \<or> f64_is_nan a \<and> f64_is_nan b
    | (Str a, Str b) \<Rightarrow> a = b
    | (Null, Null) \<Rightarrow> True
    | _ \<Rightarrow> False)"

text \<open>\<^verbatim>\<open>-0.0\<close> and \<^verbatim>\<open>-NaN\<close> are hashed and serialized as positive.\<close>

definition normalize_f64 :: "f64 \<Rightarrow> f64" where
  "normalize_f64 v = (if (f64_is_nan v \<or> f64_eq v 0) \<and> f64_is_sign_negative v then f64_neg v else v)"

text \<open>What a value feeds to the hasher: its discriminant, then its contents.\<close>

fun hash_input :: "sql_value \<Rightarrow> nat \<times> sql_value" where
  "hash_input Null = (0, Null)"
| "hash_input (Boolean b) = (1, Boolean b)"
| "hash_input (Integer i) = (2, Integer i)"
| "hash_input (Float f) = (3, Float (normalize_f64 f))"
| "hash_input (Str s) = (4, Str s)"

datatype ordering = OLess | OEqual | OGreater

definition ord_cmp :: "'a::linorder \<Rightarrow> 'a \<Rightarrow> ordering" where
  "ord_cmp a b = (if a < b then OLess else if a = b then OEqual else OGreater)"

fun ord_reverse :: "ordering \<Rightarrow> ordering" where
  "ord_reverse OLess = OGreater"
| "ord_reverse OEqual = OEqual"
| "ord_reverse OGreater = OLess"

definition total_cmp :: "f64 \<Rightarrow> f64 \<Rightarrow> ordering" where
  "total_cmp a b = ord_cmp (f64_rank a) (f64_rank b)"

definition value_cmp :: "sql_value \<Rightarrow> sql_value \<Rightarrow> ordering" where
  "value_cmp x y = (case (x, y) of
      (Null, Null) \<Rightarrow> OEqual
    | (Boolean a, Boolean b) \<Rightarrow> ord_cmp a b
    | (Integer a, Integer b) \<Rightarrow> ord_cmp (sint a) (sint b)
    | (Integer a, Float b) \<Rightarrow> total_cmp (as_f64 a) b
    | (Float a, Integer b) \<Rightarrow> total_cmp a (as_f64 b)
    | (Float a, Float b) \<Rightarrow> total_cmp a b
    | (Str a, Str b) \<Rightarrow> ord_cmp a b
    | (Null, _) \<Rightarrow> OLess
    | (_, Null) \<Rightarrow> OGreater
    | (Boolean _, _) \<Rightarrow> OLess
    | (_, Boolean _) \<Rightarrow> OGreater
    | (Float _, _) \<Rightarrow> OLess
    | (_, Float _) \<Rightarrow> OGreater
    | (Integer _, _) \<Rightarrow> OLess
    | (_, Integer _) \<Rightarrow> OGreater)"

section \<open>Checked arithmetic\<close>

definition int_result :: "int \<Rightarrow> sql_value result" where
  "int_result x = (case i64_checked x of Some i \<Rightarrow> Ok (Integer i) | None \<Rightarrow> Err (InvalidInput ''integer overflow''))"

definition checked_add :: "sql_value \<Rightarrow> sql_value \<Rightarrow> sql_value result" where
  "checked_add x y = (case (x, y) of
      (Integer a, Integer b) \<Rightarrow> int_result (sint a + sint b)
    | (Integer a, Float b) \<Rightarrow> Ok (Float (f64_add (as_f64 a) b))
    | (Float a, Integer b) \<Rightarrow> Ok (Float (f64_add a (as_f64 b)))
    | (Float a, Float b) \<Rightarrow> Ok (Float (f64_add a b))
    | (Null, Integer _) \<Rightarrow> Ok Null
    | (Null, Float _) \<Rightarrow> Ok Null
    | (Null, Null) \<Rightarrow> Ok Null
    | (Integer _, Null) \<Rightarrow> Ok Null
    | (Float _, Null) \<Rightarrow> Ok Null
    | _ \<Rightarrow> Err (InvalidInput ''can't add {lhs} and {rhs}''))"

text \<open>Integer division by \<open>-1\<close> overflows for the smallest integer: Rust panics in every profile.\<close>

definition div_overflow :: "i64 \<Rightarrow> i64 \<Rightarrow> bool" where
  "div_overflow a b = (sint a = - (2 ^ 63) \<and> sint b = - 1)"

definition checked_div :: "sql_value \<Rightarrow> sql_value \<Rightarrow> sql_value result" where
  "checked_div x y = (case (x, y) of
      (Integer a, Integer b) \<Rightarrow>
        if b = 0 then Err (InvalidInput ''can't divide by zero'')
        else if div_overflow a b then Panic ''attempt to divide with overflow''
        else Ok (Integer (word_of_int (trunc_div (sint a) (sint b))))
    | (Integer a, Float b) \<Rightarrow> Ok (Float (f64_div (as_f64 a) b))
    | (Float a, Integer b) \<Rightarrow> Ok (Float (f64_div a (as_f64 b)))
    | (Float a, Float b) \<Rightarrow> Ok (Float (f64_div a b))
    | (Null, Integer _) \<Rightarrow> Ok Null
    | (Null, Float _) \<Rightarrow> Ok Null
    | (Null, Null) \<Rightarrow> Ok Null
    | (Integer _, Null) \<Rightarrow> Ok Null
    | (Float _, Null) \<Rightarrow> Ok Null
    | _ \<Rightarrow> Err (InvalidInput ''can't divide {lhs} and {rhs}''))"

definition checked_mul :: "sql_value \<Rightarrow> sql_value \<Rightarrow> sql_value result" where
  "checked_mul x y = (case (x, y) of
      (Integer a, Integer b) \<Rightarrow> int_result (sint a * sint b)
    | (Integer a, Float b) \<Rightarrow> Ok (Float (f64_mul (as_f64 a) b))
    | (Float a, Integer b) \<Rightarrow> Ok (Float (f64_mul a (as_f64 b)))
    | (Float a, Float b) \<Rightarrow> Ok (Float (f64_mul a b))
    | (Null, Integer _) \<Rightarrow> Ok Null
    | (Null, Float _) \<Rightarrow> Ok Null
    | (Null, Null) \<Rightarrow> Ok Null
    | (Integer _, Null) \<Rightarrow> Ok Null
    | (Float _, Null) \<Rightarrow> Ok Null
    | _ \<Rightarrow> Err (InvalidInput ''can't multiply {lhs} and {rhs}''))"

text \<open>The exponent must fit \<^verbatim>\<open>u32\<close>; a float raised to an integer truncates it to \<^verbatim>\<open>i32\<close>.\<close>

definition checked_pow :: "value_ops \<Rightarrow> sql_value \<Rightarrow> sql_value \<Rightarrow> sql_value result" where
  "checked_pow F x y = (case (x, y) of
      (Integer a, Integer b) \<Rightarrow>
        if sint b \<ge> 0
        then (if sint b \<ge> 2 ^ 32 then Err (InvalidInput ''integer overflow'')
              else int_result (sint a ^ nat (sint b)))
        else Ok (Float (vo_powf F (as_f64 a) (as_f64 b)))
    | (Integer a, Float b) \<Rightarrow> Ok (Float (vo_powf F (as_f64 a) b))
    | (Float a, Integer b) \<Rightarrow> Ok (Float (vo_powi F a (ucast b)))
    | (Float a, Float b) \<Rightarrow> Ok (Float (vo_powf F a b))
    | (Integer _, Null) \<Rightarrow> Ok Null
    | (Float _, Null) \<Rightarrow> Ok Null
    | (Null, Integer _) \<Rightarrow> Ok Null
    | (Null, Float _) \<Rightarrow> Ok Null
    | (Null, Null) \<Rightarrow> Ok Null
    | _ \<Rightarrow> Err (InvalidInput ''can't exponentiate {lhs} and {rhs}''))"

definition checked_rem :: "sql_value \<Rightarrow> sql_value \<Rightarrow> sql_value result" where
  "checked_rem x y = (case (x, y) of
      (Integer a, Integer b) \<Rightarrow>
        if b = 0 then Err (InvalidInput ''can't divide by zero'')
        else if div_overflow a b then Panic ''attempt to calculate the remainder with overflow''
        else Ok (Integer (word_of_int (trunc_rem (sint a) (sint b))))
    | (Integer a, Float b) \<Rightarrow> Ok (Float (f64_rem (as_f64 a) b))
    | (Float a, Integer b) \<Rightarrow> Ok (Float (f64_rem a (as_f64 b)))
    | (Float a, Float b) \<Rightarrow> Ok (Float (f64_rem a b))
    | (Integer _, Null) \<Rightarrow> Ok Null
    | (Float _, Null) \<Rightarrow> Ok Null
    | (Null, Null) \<Rightarrow> Ok Null
    | (Null, Integer _) \<Rightarrow> Ok Null
    | (Null, Float _) \<Rightarrow> Ok Null
    | _ \<Rightarrow> Err (InvalidInput ''can't take remainder of {lhs} and {rhs}''))"

definition checked_sub :: "sql_value \<Rightarrow> sql_value \<Rightarrow> sql_value result" where
  "checked_sub x y = (case (x, y) of
      (Integer a, Integer b) \<Rightarrow> int_result (sint a - sint b)
    | (Integer a, Float b) \<Rightarrow> Ok (Float (f64_sub (as_f64 a) b))
    | (Float a, Integer b) \<Rightarrow> Ok (Float (f64_sub a (as_f64 b)))
    | (Float a, Float b) \<Rightarrow> Ok (Float (f64_sub a b))
    | (Null, Integer _) \<Rightarrow> Ok Null
    | (Null, Float _) \<Rightarrow> Ok Null
    | (Null, Null) \<Rightarrow> Ok Null
    | (Integer _, Null) \<Rightarrow> Ok Null
    | (Float _, Null) \<Rightarrow> Ok Null
    | _ \<Rightarrow> Err (InvalidInput ''can't subtract {lhs} and {rhs}''))"

section \<open>Labels\<close>

fun as_header :: "label \<Rightarrow> string" where
  "as_header (Qualified _ column) = column"
| "as_header (Unqualified column) = column"
| "as_header NoLabel = ''?''"

section \<open>The order of the values of one column\<close>

text \<open>
  A column holds values of one type and nulls. Its values are ordered like the keys below, so the
  comparison sorts them; only an integer and a float side by side escape the key.
\<close>

definition value_key :: "sql_value \<Rightarrow> int \<times> int \<times> string" where
  "value_key x = (case x of
      Null \<Rightarrow> (0, 0, [])
    | Boolean b \<Rightarrow> (1, if b then 1 else 0, [])
    | Float f \<Rightarrow> (2, f64_rank f, [])
    | Integer i \<Rightarrow> (3, sint i, [])
    | Str s \<Rightarrow> (4, 0, s))"

definition mixed :: "sql_value \<Rightarrow> sql_value \<Rightarrow> bool" where
  "mixed x y = (case (x, y) of
      (Integer _, Float _) \<Rightarrow> True | (Float _, Integer _) \<Rightarrow> True | _ \<Rightarrow> False)"

lemma ord_cmp_reverse: "ord_cmp b a = ord_reverse (ord_cmp a b)"
  by (auto simp: ord_cmp_def)

lemma ord_cmp_eq [simp]: "ord_cmp a b = OEqual \<longleftrightarrow> a = b"
  by (auto simp: ord_cmp_def)

lemma ord_cmp_Greater: "ord_cmp a b = OGreater \<longleftrightarrow> b < a"
  by (auto simp: ord_cmp_def)

lemma value_cmp_reverse: "value_cmp y x = ord_reverse (value_cmp x y)"
  by (cases x; cases y) (auto simp: value_cmp_def total_cmp_def ord_cmp_def)

lemma value_cmp_key: "\<not> mixed x y \<Longrightarrow> value_cmp x y = ord_cmp (value_key x) (value_key y)"
  by (cases x; cases y)
    (auto simp: value_cmp_def total_cmp_def mixed_def value_key_def ord_cmp_def less_bool_def)

lemma value_key_inject: "value_key x = value_key y \<Longrightarrow> x = y"
  by (cases x; cases y) (auto simp: value_key_def signed_word_eqI dest: f64_rank_inject split: if_splits)

section \<open>A reference order\<close>

text \<open>
  The order of values, independent of the comparison: null, then booleans, numbers and strings; false before true,
  numbers by their value, strings by their characters. Among floats negative zero is before zero, a negative NaN before and a
  positive one after every number, and NaNs of one sign by their bits.
\<close>

fun type_rank :: "sql_value \<Rightarrow> nat" where
  "type_rank Null = 0"
| "type_rank (Boolean _) = 1"
| "type_rank (Integer _) = 2"
| "type_rank (Float _) = 2"
| "type_rank (Str _) = 3"

definition nan_side :: "f64 \<Rightarrow> int" where
  "nan_side f = (if \<not> f64_is_nan f then 0 else if bit f 63 then - 1 else 1)"

definition float_before :: "f64 \<Rightarrow> f64 \<Rightarrow> bool" where
  "float_before a b = (nan_side a < nan_side b \<or> nan_side a = nan_side b \<and>
     (if \<not> f64_is_nan a then f64_units a < f64_units b \<or> f64_units a = f64_units b \<and> bit a 63 \<and> \<not> bit b 63
      else if bit a 63 then unat b < unat a else unat a < unat b))"

definition sorts_before :: "sql_value \<Rightarrow> sql_value \<Rightarrow> bool" where
  "sorts_before x y = (type_rank x < type_rank y \<or> (case (x, y) of
      (Boolean a, Boolean b) \<Rightarrow> \<not> a \<and> b
    | (Integer a, Integer b) \<Rightarrow> sint a < sint b
    | (Float a, Float b) \<Rightarrow> float_before a b
    | (Str a, Str b) \<Rightarrow> (a, b) \<in> lexord {(c, d). (of_char c :: nat) < of_char d}
    | _ \<Rightarrow> False))"

lemma f64_magnitude: "unat (v :: f64) = (if bit v 63 then 2 ^ 63 else 0) + unat v mod 2 ^ 63"
proof -
  have "unat v < 2 * 2 ^ 63" using unsigned_less [of v] by simp
  then have "unat v div 2 ^ 63 = (if bit v 63 then 1 else 0)" by (simp add: u64_sign_bit div_nat_eqI)
  then show ?thesis using div_mult_mod_eq [of "unat v" "2 ^ 63"] by (auto split: if_splits)
qed

lemma f64_rank_magnitude:
  "f64_rank v = (if bit v 63 then - 1 - int (unat v mod 2 ^ 63) else int (unat v mod 2 ^ 63))"
proof -
  have "int (unat v) = (if bit v 63 then 2 ^ 63 else 0) + int (unat v mod 2 ^ 63)"
    by (subst f64_magnitude, cases "bit v 63") (simp_all only: if_True if_False of_nat_add of_nat_power of_nat_numeral of_nat_0)
  then show ?thesis by (auto simp: f64_rank_def simp del: of_nat_unat)
qed

lemma float_before_rank: "float_before a b \<longleftrightarrow> f64_rank a < f64_rank b"
proof -
  define p where "p = unat a mod 2 ^ 63"
  define q where "q = unat b mod 2 ^ 63"
  have num: "f64_numerator m = f64_numerator n \<longleftrightarrow> m = n" for m n by (metis f64_numerator_less nat_neq_iff)
  have zero: "f64_numerator k = 0 \<longleftrightarrow> k = 0" for k by (auto simp: f64_numerator_def Let_def)
  have signs: "- int (f64_numerator m) < int (f64_numerator n) \<longleftrightarrow> m \<noteq> 0 \<or> n \<noteq> 0" for m n
    using zero [of m] zero [of n] by linarith
  note units = f64_units_def [of a, folded p_def] f64_units_def [of b, folded q_def]
  note nan = f64_is_nan_def [of a, folded p_def] f64_is_nan_def [of b, folded q_def]
  note rank = f64_rank_magnitude [of a, folded p_def] f64_rank_magnitude [of b, folded q_def]
  note magnitude = f64_magnitude [of a, folded p_def] f64_magnitude [of b, folded q_def]
  show ?thesis
    unfolding float_before_def nan_side_def rank units nan magnitude Let_def
    by (cases "bit a 63"; cases "bit b 63") (auto simp: f64_numerator_less num zero signs)
qed

lemma string_before: "(a, b) \<in> lexord {(c, d). (of_char c :: nat) < of_char d} \<longleftrightarrow> a < (b :: string)"
  by (simp add: list_less_def less_char_def)

lemma sorts_before_cmp: "\<not> mixed x y \<Longrightarrow> value_cmp x y = OLess \<longleftrightarrow> sorts_before x y"
  by (cases x; cases y) (auto simp: mixed_def value_cmp_def sorts_before_def ord_cmp_def total_cmp_def float_before_rank string_before)

lemma value_eq_cases: "\<not> mixed x y \<Longrightarrow> value_eq x y \<longleftrightarrow> x = y \<or> (\<exists>f g. x = Float f \<and> y = Float g \<and>
    (f64_is_nan f \<and> f64_is_nan g \<or> f64_units f = 0 \<and> f64_units g = 0))"
  by (cases x; cases y) (auto simp: mixed_def value_eq_def f64_eq_def f64_units_eq f64_zero f64_is_nan_def)

section \<open>Equality and hashing\<close>

lemma f64_neg_neg [simp]: "f64_neg (f64_neg v) = v"
  by (simp add: f64_neg_def xor.assoc)

lemma f64_eq_zero: "f64_eq v 0 \<longleftrightarrow> v = 0 \<or> v = 0x8000000000000000"
proof -
  have "f64_units 0 = 0" using f64_zero by blast
  then show ?thesis by (auto simp: f64_eq_def f64_zero [of v] f64_is_nan_def)
qed

lemma normalize_f64_eq:
  assumes "\<not> f64_is_nan a" "\<not> f64_is_nan b"
  shows "normalize_f64 a = normalize_f64 b \<longleftrightarrow> f64_eq a b"
proof -
  have norm: "normalize_f64 v = (if v = 0x8000000000000000 then 0 else v)" if "\<not> f64_is_nan v" for v
    using that
    by (auto simp: normalize_f64_def f64_eq_zero f64_neg_def f64_is_sign_negative_def)
  then show ?thesis
    using assms by (auto simp: norm f64_eq_def f64_units_eq [of a b] f64_zero)
qed

text \<open>Within one type a hash map finds exactly the equal keys.\<close>

lemma hash_input_eq:
  assumes "\<not> mixed x y" "\<not> is_undefined x" "\<not> is_undefined y"
  shows "hash_input x = hash_input y \<longleftrightarrow> value_eq x y"
  using assms by (cases x; cases y) (auto simp: mixed_def value_eq_def normalize_f64_eq)

section \<open>Exact integer arithmetic\<close>

lemma int_result_exact:
  "int_result x = (if i64_range x then Ok (Integer (word_of_int x)) else Err (InvalidInput ''integer overflow''))"
  by (simp add: int_result_def i64_checked_def)

lemma sint_of_int [simp]: "i64_range x \<Longrightarrow> sint (word_of_int x :: i64) = x"
  using sint_i64_checked [of x "word_of_int x"] by (simp add: i64_checked_def)

text \<open>An operation that returns the exact integer when it fits 64 bits and the overflow error
  otherwise.\<close>

definition exact_op :: "(int \<Rightarrow> int \<Rightarrow> int) \<Rightarrow> (sql_value \<Rightarrow> sql_value \<Rightarrow> sql_value result) \<Rightarrow> bool" where
  "exact_op g f = (\<forall>a b.
     (\<forall>v. f (Integer a) (Integer b) = Ok v \<longleftrightarrow> (\<exists>c. v = Integer c \<and> sint c = g (sint a) (sint b))) \<and>
     (f (Integer a) (Integer b) = Err (InvalidInput ''integer overflow'') \<longleftrightarrow> \<not> i64_range (g (sint a) (sint b))))"

lemma exact_opI: "(\<And>a b. f (Integer a) (Integer b) = int_result (g (sint a) (sint b))) \<Longrightarrow> exact_op g f"
proof -
  assume f: "\<And>a b. f (Integer a) (Integer b) = int_result (g (sint a) (sint b))"
  have "word_of_int (sint c) = c" "i64_range (sint c)" for c :: i64 by (simp_all add: i64_sint)
  then have "int_result x = Ok v \<longleftrightarrow> (\<exists>c. v = Integer c \<and> sint c = x)" for x v
    by (auto simp: int_result_exact)
  then show ?thesis by (simp add: exact_op_def f int_result_exact [symmetric]) (simp add: int_result_exact)
qed

section \<open>Properties\<close>

text \<open>
  Property C26. Ordering of SQL values: swapping the operands reverses the comparison, for all values. Among values
  that are not an integer beside a float, which are those of one column, the comparison is the strict
  linear order \<open>sorts_before\<close> of nulls, booleans, numbers and strings, and is transitive. It is finer than equality, against the
  comments on \<^verbatim>\<open>Value::Float\<close> and \<^verbatim>\<open>Ord\<close>: the values that are equal and do not compare equal are exactly NaNs of different
  bits and the two zeros.
\<close>

theorem value_order:
  assumes "\<not> mixed x y" "\<not> mixed y z" "\<not> mixed x z"
  shows "value_cmp b a = ord_reverse (value_cmp a b) \<and>
    value_cmp x y = (if sorts_before x y then OLess else if x = y then OEqual else OGreater) \<and>
    (value_cmp x y \<noteq> OGreater \<and> value_cmp y z \<noteq> OGreater \<longrightarrow> value_cmp x z \<noteq> OGreater) \<and>
    (value_eq x y \<longleftrightarrow> value_cmp x y = OEqual \<or> (\<exists>f g. x = Float f \<and> y = Float g \<and>
       (f64_is_nan f \<and> f64_is_nan g \<or> f64_units f = 0 \<and> f64_units g = 0)))"
proof -
  have "value_cmp x y = OEqual \<longleftrightarrow> x = y"
    using value_cmp_key [OF assms(1)] value_key_inject [of x y] by auto
  moreover have "value_cmp x y \<noteq> OGreater \<and> value_cmp y z \<noteq> OGreater \<longrightarrow> value_cmp x z \<noteq> OGreater"
    using assms by (auto simp: value_cmp_key ord_cmp_Greater)
  ultimately show ?thesis
    using sorts_before_cmp [OF assms(1)] value_eq_cases [OF assms(1)] value_cmp_reverse [of b a]
    by (cases "value_cmp x y") auto
qed

text \<open>
  Property C27. Integer arithmetic on values: addition, subtraction and multiplication return
  the exact mathematical result when it fits 64 bits, and the overflow error exactly when it does
  not; they never wrap around or panic.
\<close>

theorem int_arith_exact: "exact_op (+) checked_add \<and> exact_op (-) checked_sub \<and> exact_op (*) checked_mul"
  by (auto intro!: exact_opI simp: checked_add_def checked_sub_def checked_mul_def)

text \<open>
  Property C28. Integer division and remainder: a zero divisor is an error, the smallest integer
  divided by \<open>-1\<close> panics, and otherwise both succeed with the exact quotient rounded towards zero
  and a remainder smaller than the divisor with the sign of the dividend.
\<close>

theorem div_rem_exact:
  "if b = 0 then
     checked_div (Integer a) (Integer b) = Err (InvalidInput ''can't divide by zero'') \<and>
     checked_rem (Integer a) (Integer b) = Err (InvalidInput ''can't divide by zero'')
   else if sint a = - (2 ^ 63) \<and> sint b = - 1 then
     checked_div (Integer a) (Integer b) = Panic ''attempt to divide with overflow'' \<and>
     checked_rem (Integer a) (Integer b) = Panic ''attempt to calculate the remainder with overflow''
   else \<exists>q r. checked_div (Integer a) (Integer b) = Ok (Integer q) \<and> checked_rem (Integer a) (Integer b) = Ok (Integer r) \<and>
     sint a = sint q * sint b + sint r \<and> \<bar>sint r\<bar> < \<bar>sint b\<bar> \<and> (sint r = 0 \<or> sgn (sint r) = sgn (sint a))"
proof -
  have b: "b \<noteq> 0 \<Longrightarrow> sint b \<noteq> 0" by (metis signed_0 signed_word_eqI)
  then show ?thesis
    using trunc_div_rem [of "sint b" "sint a"] trunc_rem_bound [of "sint b" "sint a"]
    by (auto simp: checked_div_def checked_rem_def div_overflow_def i64_sint
        i64_range_trunc_div i64_range_trunc_rem)
qed

section \<open>Witnesses\<close>

theorem value_order_witness:
  "value_cmp (Integer 2) (Integer 1) = ord_reverse (value_cmp (Integer 1) (Integer 2)) \<and>
    value_cmp Null (Integer 5) = OLess \<and> value_cmp Null (Str ''a'') \<noteq> OGreater"
  using value_order [of Null "Integer 5" "Str ''a''" "Integer 2" "Integer 1"]
  by (auto simp: mixed_def value_cmp_def sorts_before_def)

section \<open>What the order does not give\<close>

text \<open>
  The comment on \<^verbatim>\<open>Ord\<close> claims a total order across all types. A float beside two integers that
  round to it shows that equality is not transitive; negative zero is equal to zero and smaller, and so are two NaNs.
  The hash of a value covers its type, so an integer and an equal float are found in no common
  bucket.
\<close>

lemma f64_of_2_53: "f64_of_int 9007199254740992 = 0x4340000000000000"
  "f64_of_int 9007199254740993 = 0x4340000000000000"
  using f64_of_large [of 1 9007199254740992] f64_of_large [of 1 9007199254740993] by simp_all

lemma value_cmp_not_transitive:
  "value_cmp (Integer 9007199254740993) (Float 0x4340000000000000) = OEqual \<and>
   value_cmp (Float 0x4340000000000000) (Integer 9007199254740992) = OEqual \<and>
   value_cmp (Integer 9007199254740993) (Integer 9007199254740992) = OGreater"
  by (simp add: value_cmp_def as_f64_def f64_of_2_53 total_cmp_def ord_cmp_def)

lemma value_cmp_negative_zero:
  "value_eq (Float 0x8000000000000000) (Float 0) \<and> value_cmp (Float 0x8000000000000000) (Float 0) = OLess"
  by (simp add: value_eq_def f64_eq_zero value_cmp_def total_cmp_def ord_cmp_def f64_rank_def)

lemma value_cmp_nans:
  "value_eq (Float 0xFFF8000000000000) (Float 0x7FF8000000000000) \<and>
   value_cmp (Float 0xFFF8000000000000) (Float 0x7FF8000000000000) = OLess"
  by (simp add: value_eq_def f64_is_nan_def value_cmp_def total_cmp_def ord_cmp_def f64_rank_def)

lemma hash_mixed:
  "value_eq (Integer 9007199254740992) (Float 0x4340000000000000) \<and>
   hash_input (Integer 9007199254740992) \<noteq> hash_input (Float 0x4340000000000000)"
  by (simp add: value_eq_def as_f64_def f64_of_2_53 f64_eq_def f64_is_nan_def)

lemma div_overflow_panics:
  "checked_div (Integer 0x8000000000000000) (Integer (- 1)) = Panic ''attempt to divide with overflow''"
  by (simp add: checked_div_def div_overflow_def)

end
