(* ===== verification/SqlExpr.thy ===== *)
theory SqlExpr
  imports SqlValue
begin

text \<open>
  \<^verbatim>\<open>src/sql/types/expression.rs\<close>: expressions, their evaluation, tree walks and transformations,
  normal forms, and the recognition of index lookups. The constructor \<^verbatim>\<open>Not\<close> is \<open>ENot\<close>. Column
  indexes are natural numbers. Arithmetic that the source leaves unchecked wraps around, as in a
  release build. Formatting of expressions is not modelled.
\<close>

section \<open>Expressions\<close>

datatype expression =
    Constant sql_value
  | Column nat
  | And expression expression
  | Or expression expression
  | ENot expression
  | Equal expression expression
  | GreaterThan expression expression
  | LessThan expression expression
  | Is expression sql_value
  | Add expression expression
  | Divide expression expression
  | Exponentiate expression expression
  | Factorial expression
  | Identity expression
  | Multiply expression expression
  | Negate expression
  | Remainder expression expression
  | SquareRoot expression
  | Subtract expression expression
  | Like expression expression

section \<open>Evaluation\<close>

definition eval_and :: "sql_value \<Rightarrow> sql_value \<Rightarrow> sql_value result" where
  "eval_and x y = (case (x, y) of
      (Boolean a, Boolean b) \<Rightarrow> Ok (Boolean (a \<and> b))
    | (Boolean b, Null) \<Rightarrow> Ok (if \<not> b then Boolean False else Null)
    | (Null, Boolean b) \<Rightarrow> Ok (if \<not> b then Boolean False else Null)
    | (Null, Null) \<Rightarrow> Ok Null
    | _ \<Rightarrow> Err (InvalidInput ''can't AND {lhs} and {rhs}''))"

definition eval_or :: "sql_value \<Rightarrow> sql_value \<Rightarrow> sql_value result" where
  "eval_or x y = (case (x, y) of
      (Boolean a, Boolean b) \<Rightarrow> Ok (Boolean (a \<or> b))
    | (Boolean b, Null) \<Rightarrow> Ok (if b then Boolean True else Null)
    | (Null, Boolean b) \<Rightarrow> Ok (if b then Boolean True else Null)
    | (Null, Null) \<Rightarrow> Ok Null
    | _ \<Rightarrow> Err (InvalidInput ''can't OR {lhs} and {rhs}''))"

fun eval_not :: "sql_value \<Rightarrow> sql_value result" where
  "eval_not (Boolean b) = Ok (Boolean (\<not> b))"
| "eval_not Null = Ok Null"
| "eval_not _ = Err (InvalidInput ''can't NOT {value}'')"

definition eval_equal :: "sql_value \<Rightarrow> sql_value \<Rightarrow> sql_value result" where
  "eval_equal x y = (case (x, y) of
      (Boolean a, Boolean b) \<Rightarrow> Ok (Boolean (a = b))
    | (Integer a, Integer b) \<Rightarrow> Ok (Boolean (a = b))
    | (Integer a, Float b) \<Rightarrow> Ok (Boolean (f64_eq (as_f64 a) b))
    | (Float a, Integer b) \<Rightarrow> Ok (Boolean (f64_eq a (as_f64 b)))
    | (Float a, Float b) \<Rightarrow> Ok (Boolean (f64_eq a b))
    | (Str a, Str b) \<Rightarrow> Ok (Boolean (a = b))
    | (Null, _) \<Rightarrow> Ok Null
    | (_, Null) \<Rightarrow> Ok Null
    | _ \<Rightarrow> Err (InvalidInput ''can't compare {lhs} and {rhs}''))"

definition eval_greater :: "sql_value \<Rightarrow> sql_value \<Rightarrow> sql_value result" where
  "eval_greater x y = (case (x, y) of
      (Boolean a, Boolean b) \<Rightarrow> Ok (Boolean (a > b))
    | (Integer a, Integer b) \<Rightarrow> Ok (Boolean (sint a > sint b))
    | (Integer a, Float b) \<Rightarrow> Ok (Boolean (f64_lt b (as_f64 a)))
    | (Float a, Integer b) \<Rightarrow> Ok (Boolean (f64_lt (as_f64 b) a))
    | (Float a, Float b) \<Rightarrow> Ok (Boolean (f64_lt b a))
    | (Str a, Str b) \<Rightarrow> Ok (Boolean (a > b))
    | (Null, _) \<Rightarrow> Ok Null
    | (_, Null) \<Rightarrow> Ok Null
    | _ \<Rightarrow> Err (InvalidInput ''can't compare {lhs} and {rhs}''))"

definition eval_less :: "sql_value \<Rightarrow> sql_value \<Rightarrow> sql_value result" where
  "eval_less x y = (case (x, y) of
      (Boolean a, Boolean b) \<Rightarrow> Ok (Boolean (a < b))
    | (Integer a, Integer b) \<Rightarrow> Ok (Boolean (sint a < sint b))
    | (Integer a, Float b) \<Rightarrow> Ok (Boolean (f64_lt (as_f64 a) b))
    | (Float a, Integer b) \<Rightarrow> Ok (Boolean (f64_lt a (as_f64 b)))
    | (Float a, Float b) \<Rightarrow> Ok (Boolean (f64_lt a b))
    | (Str a, Str b) \<Rightarrow> Ok (Boolean (a < b))
    | (Null, _) \<Rightarrow> Ok Null
    | (_, Null) \<Rightarrow> Ok Null
    | _ \<Rightarrow> Err (InvalidInput ''can't compare {lhs} and {rhs}''))"

text \<open>\<^verbatim>\<open>IS NULL\<close> and \<^verbatim>\<open>IS NAN\<close>; another value panics before the operand is evaluated.\<close>

definition eval_is :: "sql_value result \<Rightarrow> sql_value \<Rightarrow> sql_value result" where
  "eval_is r v =
     (if v = Null then rbind r (\<lambda>x. Ok (Boolean (value_eq x Null)))
      else if is_undefined v then rbind r (\<lambda>x. case x of
          Float f \<Rightarrow> Ok (Boolean (f64_is_nan f))
        | Null \<Rightarrow> Ok Null
        | _ \<Rightarrow> Err (InvalidInput ''IS NAN can't be used with {}''))
      else Panic ''invalid IS value {v}'')"

function factorial_loop :: "int \<Rightarrow> int \<Rightarrow> sql_value \<Rightarrow> sql_value result" where
  "factorial_loop k i p =
     (if k > i then Ok p
      else rbind (checked_mul p (Integer (word_of_int k))) (\<lambda>p. factorial_loop (k + 1) i p))"
  by pat_completeness auto
termination by (relation "measure (\<lambda>(k, i, _). nat (i + 1 - k))") auto

declare factorial_loop.simps [simp del]

fun eval_factorial :: "sql_value \<Rightarrow> sql_value result" where
  "eval_factorial (Integer i) =
     (if sint i \<ge> 0 then factorial_loop 1 (sint i) (Integer 1)
      else Err (InvalidInput ''can't take factorial of {value}''))"
| "eval_factorial Null = Ok Null"
| "eval_factorial _ = Err (InvalidInput ''can't take factorial of {value}'')"

fun eval_identity :: "sql_value \<Rightarrow> sql_value result" where
  "eval_identity (Integer i) = Ok (Integer i)"
| "eval_identity (Float f) = Ok (Float f)"
| "eval_identity Null = Ok Null"
| "eval_identity _ = Err (InvalidInput ''can't take the identity of {expr}'')"

fun eval_negate :: "sql_value \<Rightarrow> sql_value result" where
  "eval_negate (Integer i) = Ok (Integer (- i))"
| "eval_negate (Float f) = Ok (Float (f64_neg f))"
| "eval_negate Null = Ok Null"
| "eval_negate _ = Err (InvalidInput ''can't negate {value}'')"

fun eval_sqrt :: "sql_value \<Rightarrow> sql_value result" where
  "eval_sqrt (Integer i) =
     (if sint i \<ge> 0 then Ok (Float (f64_sqrt (as_f64 i)))
      else Err (InvalidInput ''can't take square root of {value}''))"
| "eval_sqrt (Float f) = Ok (Float (f64_sqrt f))"
| "eval_sqrt Null = Ok Null"
| "eval_sqrt _ = Err (InvalidInput ''can't take square root of {value}'')"

definition eval_like :: "value_ops \<Rightarrow> sql_value \<Rightarrow> sql_value \<Rightarrow> sql_value result" where
  "eval_like F x y = (case (x, y) of
      (Str a, Str b) \<Rightarrow> rbind (vo_like F a b) (\<lambda>m. Ok (Boolean m))
    | (Str _, Null) \<Rightarrow> Ok Null
    | (Null, Str _) \<Rightarrow> Ok Null
    | (Null, Null) \<Rightarrow> Ok Null
    | _ \<Rightarrow> Err (InvalidInput ''can't LIKE {lhs} and {rhs}''))"

definition lookup_column :: "sql_row option \<Rightarrow> nat \<Rightarrow> sql_value result" where
  "lookup_column row i = (case row of
      Some r \<Rightarrow> if i < length r then Ok (r ! i) else Panic ''invalid index''
    | None \<Rightarrow> Panic ''invalid index'')"

text \<open>Both operands are always evaluated, the left one first.\<close>

definition eval2 :: "(sql_value \<Rightarrow> sql_value \<Rightarrow> sql_value result) \<Rightarrow> sql_value result \<Rightarrow> sql_value result \<Rightarrow> sql_value result" where
  "eval2 f x y = rbind x (\<lambda>x. rbind y (\<lambda>y. f x y))"

primrec evaluate :: "value_ops \<Rightarrow> expression \<Rightarrow> sql_row option \<Rightarrow> sql_value result" where
  "evaluate F (Constant v) row = Ok v"
| "evaluate F (Column i) row = lookup_column row i"
| "evaluate F (And l r) row = eval2 eval_and (evaluate F l row) (evaluate F r row)"
| "evaluate F (Or l r) row = eval2 eval_or (evaluate F l row) (evaluate F r row)"
| "evaluate F (ENot e) row = rbind (evaluate F e row) eval_not"
| "evaluate F (Equal l r) row = eval2 eval_equal (evaluate F l row) (evaluate F r row)"
| "evaluate F (GreaterThan l r) row = eval2 eval_greater (evaluate F l row) (evaluate F r row)"
| "evaluate F (LessThan l r) row = eval2 eval_less (evaluate F l row) (evaluate F r row)"
| "evaluate F (Is e v) row = eval_is (evaluate F e row) v"
| "evaluate F (Add l r) row = eval2 checked_add (evaluate F l row) (evaluate F r row)"
| "evaluate F (Divide l r) row = eval2 checked_div (evaluate F l row) (evaluate F r row)"
| "evaluate F (Exponentiate l r) row = eval2 (checked_pow F) (evaluate F l row) (evaluate F r row)"
| "evaluate F (Factorial e) row = rbind (evaluate F e row) eval_factorial"
| "evaluate F (Identity e) row = rbind (evaluate F e row) eval_identity"
| "evaluate F (Multiply l r) row = eval2 checked_mul (evaluate F l row) (evaluate F r row)"
| "evaluate F (Negate e) row = rbind (evaluate F e row) eval_negate"
| "evaluate F (Remainder l r) row = eval2 checked_rem (evaluate F l row) (evaluate F r row)"
| "evaluate F (SquareRoot e) row = rbind (evaluate F e row) eval_sqrt"
| "evaluate F (Subtract l r) row = eval2 checked_sub (evaluate F l row) (evaluate F r row)"
| "evaluate F (Like l r) row = eval2 (eval_like F) (evaluate F l row) (evaluate F r row)"

section \<open>Walks and transformations\<close>

text \<open>A visitor may keep a state; the walk stops at the first visit that returns false.\<close>

type_synonym 's visitor = "expression \<Rightarrow> 's \<Rightarrow> bool \<times> 's"

definition walk_and :: "('s \<Rightarrow> bool \<times> 's) \<Rightarrow> ('s \<Rightarrow> bool \<times> 's) \<Rightarrow> 's \<Rightarrow> bool \<times> 's" where
  "walk_and f g s = (case f s of (True, s') \<Rightarrow> g s' | (False, s') \<Rightarrow> (False, s'))"

fun walk :: "'s visitor \<Rightarrow> expression \<Rightarrow> 's \<Rightarrow> bool \<times> 's" where
  "walk V (Constant v) = V (Constant v)"
| "walk V (Column i) = V (Column i)"
| "walk V (And l r) = walk_and (V (And l r)) (walk_and (walk V l) (walk V r))"
| "walk V (Or l r) = walk_and (V (Or l r)) (walk_and (walk V l) (walk V r))"
| "walk V (ENot e) = walk_and (V (ENot e)) (walk V e)"
| "walk V (Equal l r) = walk_and (V (Equal l r)) (walk_and (walk V l) (walk V r))"
| "walk V (GreaterThan l r) = walk_and (V (GreaterThan l r)) (walk_and (walk V l) (walk V r))"
| "walk V (LessThan l r) = walk_and (V (LessThan l r)) (walk_and (walk V l) (walk V r))"
| "walk V (Is e v) = walk_and (V (Is e v)) (walk V e)"
| "walk V (Add l r) = walk_and (V (Add l r)) (walk_and (walk V l) (walk V r))"
| "walk V (Divide l r) = walk_and (V (Divide l r)) (walk_and (walk V l) (walk V r))"
| "walk V (Exponentiate l r) = walk_and (V (Exponentiate l r)) (walk_and (walk V l) (walk V r))"
| "walk V (Factorial e) = walk_and (V (Factorial e)) (walk V e)"
| "walk V (Identity e) = walk_and (V (Identity e)) (walk V e)"
| "walk V (Multiply l r) = walk_and (V (Multiply l r)) (walk_and (walk V l) (walk V r))"
| "walk V (Negate e) = walk_and (V (Negate e)) (walk V e)"
| "walk V (Remainder l r) = walk_and (V (Remainder l r)) (walk_and (walk V l) (walk V r))"
| "walk V (SquareRoot e) = walk_and (V (SquareRoot e)) (walk V e)"
| "walk V (Subtract l r) = walk_and (V (Subtract l r)) (walk_and (walk V l) (walk V r))"
| "walk V (Like l r) = walk_and (V (Like l r)) (walk_and (walk V l) (walk V r))"

definition contains :: "(expression \<Rightarrow> bool) \<Rightarrow> expression \<Rightarrow> bool" where
  "contains p e = (\<not> fst (walk (\<lambda>e s. (\<not> p e, s)) e ()))"

definition build1 :: "(expression \<Rightarrow> expression result) \<Rightarrow> (expression \<Rightarrow> expression) \<Rightarrow> expression \<Rightarrow> expression result" where
  "build1 f c e = rbind (f e) (\<lambda>e. Ok (c e))"

definition build2 ::
  "(expression \<Rightarrow> expression result) \<Rightarrow> (expression \<Rightarrow> expression \<Rightarrow> expression) \<Rightarrow> expression \<Rightarrow> expression \<Rightarrow> expression result" where
  "build2 f c l r = rbind (f l) (\<lambda>l. rbind (f r) (\<lambda>r. Ok (c l r)))"

text \<open>Rebuilds an expression from its transformed children.\<close>

primrec transform_children :: "(expression \<Rightarrow> expression result) \<Rightarrow> expression \<Rightarrow> expression result" where
  "transform_children f (Constant v) = Ok (Constant v)"
| "transform_children f (Column i) = Ok (Column i)"
| "transform_children f (And l r) = build2 f And l r"
| "transform_children f (Or l r) = build2 f Or l r"
| "transform_children f (ENot e) = build1 f ENot e"
| "transform_children f (Equal l r) = build2 f Equal l r"
| "transform_children f (GreaterThan l r) = build2 f GreaterThan l r"
| "transform_children f (LessThan l r) = build2 f LessThan l r"
| "transform_children f (Is e v) = build1 f (\<lambda>e. Is e v) e"
| "transform_children f (Add l r) = build2 f Add l r"
| "transform_children f (Divide l r) = build2 f Divide l r"
| "transform_children f (Exponentiate l r) = build2 f Exponentiate l r"
| "transform_children f (Factorial e) = build1 f Factorial e"
| "transform_children f (Identity e) = build1 f Identity e"
| "transform_children f (Multiply l r) = build2 f Multiply l r"
| "transform_children f (Negate e) = build1 f Negate e"
| "transform_children f (Remainder l r) = build2 f Remainder l r"
| "transform_children f (SquareRoot e) = build1 f SquareRoot e"
| "transform_children f (Subtract l r) = build2 f Subtract l r"
| "transform_children f (Like l r) = build2 f Like l r"

text \<open>
  The closures are arbitrary, so the recursion is bounded by a stack depth. The callers below
  pass the size of the expression, which is shown to be enough for their closures.
\<close>

fun transform :: "nat \<Rightarrow> (expression \<Rightarrow> expression result) \<Rightarrow> (expression \<Rightarrow> expression result) \<Rightarrow> expression \<Rightarrow> expression result" where
  "transform 0 pre post e = Panic ''stack overflow''"
| "transform (Suc n) pre post e =
     rbind (pre e) (\<lambda>e. rbind (transform_children (transform n pre post) e) post)"

abbreviation stack :: "expression \<Rightarrow> nat" where
  "stack e \<equiv> Suc (size e)"

section \<open>Normal forms\<close>

definition nnf_step :: "expression \<Rightarrow> expression" where
  "nnf_step e = (case e of
      ENot (And l r) \<Rightarrow> Or (ENot l) (ENot r)
    | ENot (Or l r) \<Rightarrow> And (ENot l) (ENot r)
    | ENot (ENot x) \<Rightarrow> x
    | _ \<Rightarrow> e)"

definition into_nnf :: "expression \<Rightarrow> expression" where
  "into_nnf e = unwrap (transform (stack e) (\<lambda>e. Ok (nnf_step e)) Ok e)"

definition cnf_step :: "expression \<Rightarrow> expression" where
  "cnf_step e = (case e of
      Or (And l r) z \<Rightarrow> And (Or l z) (Or r z)
    | Or x (And l r) \<Rightarrow> And (Or x l) (Or x r)
    | _ \<Rightarrow> e)"

definition into_cnf :: "expression \<Rightarrow> expression" where
  "into_cnf e = (let e = into_nnf e in unwrap (transform (stack e) (\<lambda>e. Ok (cnf_step e)) Ok e))"

text \<open>The head of the list is the top of the stack.\<close>

function cnf_loop :: "expression list \<Rightarrow> expression list \<Rightarrow> expression list" where
  "cnf_loop cnf [] = cnf"
| "cnf_loop cnf (e # es) = (case e of
      And l r \<Rightarrow> cnf_loop cnf (l # r # es)
    | _ \<Rightarrow> cnf_loop (cnf @ [e]) es)"
  by pat_completeness auto
termination by (relation "measure (\<lambda>(_, es). \<Sum>e\<leftarrow>es. 2 * size e + 1)") auto

declare cnf_loop.simps(2) [simp del]

definition into_cnf_vec :: "expression \<Rightarrow> expression list" where
  "into_cnf_vec e = cnf_loop [] [into_cnf e]"

fun and_vec :: "expression list \<Rightarrow> expression option" where
  "and_vec [] = None"
| "and_vec (e # es) = Some (fold (\<lambda>rhs e. And e rhs) es e)"

section \<open>Column lookups\<close>

text \<open>A comparison of a column with a constant, either way around.\<close>

definition column_constant :: "expression \<Rightarrow> expression \<Rightarrow> (nat \<times> sql_value) option" where
  "column_constant l r = (case (l, r) of
      (Column c, Constant v) \<Rightarrow> Some (c, v)
    | (Constant v, Column c) \<Rightarrow> Some (c, v)
    | _ \<Rightarrow> None)"

fun is_column_lookup :: "expression \<Rightarrow> nat option" where
  "is_column_lookup e = (case e of
      Equal l r \<Rightarrow> map_option fst (column_constant l r)
    | Is (Column c) _ \<Rightarrow> Some c
    | Or l r \<Rightarrow> (case (is_column_lookup l, is_column_lookup r) of
        (Some a, Some b) \<Rightarrow> if a = b then Some a else None
      | _ \<Rightarrow> None)
    | _ \<Rightarrow> None)"

text \<open>Equality with an undefined value matches nothing.\<close>

definition lookup_value :: "sql_value \<Rightarrow> sql_value list" where
  "lookup_value v = (if is_undefined v then [] else [v])"

fun into_column_values :: "expression \<Rightarrow> nat \<Rightarrow> sql_value list result" where
  "into_column_values e i = (case e of
      Equal l r \<Rightarrow> (case column_constant l r of
        Some (c, v) \<Rightarrow> rbind (rassert (c = i) ''unexpected column'') (\<lambda>_. Ok (lookup_value v))
      | None \<Rightarrow> Panic ''unexpected expression {:?}'')
    | Is (Column c) v \<Rightarrow> rbind (rassert (c = i) ''unexpected column'') (\<lambda>_. Ok [v])
    | Or l r \<Rightarrow> rbind (into_column_values l i) (\<lambda>vs. rbind (into_column_values r i) (\<lambda>ws. Ok (vs @ ws)))
    | _ \<Rightarrow> Panic ''unexpected expression {expr:?}'')"

declare is_column_lookup.simps [simp del] into_column_values.simps [simp del]

definition replace_column :: "nat \<Rightarrow> nat \<Rightarrow> expression \<Rightarrow> expression" where
  "replace_column source target e = unwrap (transform (stack e)
     (\<lambda>e. Ok (case e of Column i \<Rightarrow> if i = source then Column target else e | _ \<Rightarrow> e)) Ok e)"

definition shift_column :: "int \<Rightarrow> expression \<Rightarrow> expression" where
  "shift_column diff e = unwrap (transform (stack e)
     (\<lambda>e. Ok (case e of Column i \<Rightarrow> Column (unat (word_of_int (int i + diff) :: u64)) | _ \<Rightarrow> e)) Ok e)"

end
