(* ===== verification/SqlNormal.thy ===== *)
theory SqlNormal
  imports SqlExpr "HOL-Library.Code_Target_Nat"
begin

text \<open>
  Expression rewriting preserves evaluation: a contract for the closures given to \<open>transform\<close>,
  discharged for the steps of the normal forms, column substitution, and the reading of a
  predicate as an index lookup.
\<close>

section \<open>Children of an expression\<close>

primrec children :: "expression \<Rightarrow> expression list" where
  "children (Constant v) = []"
| "children (Column i) = []"
| "children (And l r) = [l, r]"
| "children (Or l r) = [l, r]"
| "children (ENot e) = [e]"
| "children (Equal l r) = [l, r]"
| "children (GreaterThan l r) = [l, r]"
| "children (LessThan l r) = [l, r]"
| "children (Is e v) = [e]"
| "children (Add l r) = [l, r]"
| "children (Divide l r) = [l, r]"
| "children (Exponentiate l r) = [l, r]"
| "children (Factorial e) = [e]"
| "children (Identity e) = [e]"
| "children (Multiply l r) = [l, r]"
| "children (Negate e) = [e]"
| "children (Remainder l r) = [l, r]"
| "children (SquareRoot e) = [e]"
| "children (Subtract l r) = [l, r]"
| "children (Like l r) = [l, r]"

lemma children_smaller: "c \<in> set (children e) \<Longrightarrow> size c < size e"
  by (cases e) auto

lemma expression_children_induct [case_names step]:
  assumes "\<And>e. (\<And>c. c \<in> set (children e) \<Longrightarrow> P c) \<Longrightarrow> P e"
  shows "P e"
  by (induction e rule: measure_induct_rule [of size]) (meson assms children_smaller)

text \<open>A walk with a visitor that keeps no state visits every node or stops.\<close>

definition walk_all :: "(expression \<Rightarrow> bool) \<Rightarrow> expression \<Rightarrow> bool" where
  "walk_all p e = fst (walk (\<lambda>e s. (p e, s)) e ())"

lemma walk_and_unit: "fst (walk_and f g ()) \<longleftrightarrow> fst (f ()) \<and> fst (g ())"
  by (auto simp: walk_and_def split: prod.splits bool.splits)

lemma walk_all_children: "walk_all p e \<longleftrightarrow> p e \<and> (\<forall>c\<in>set (children e). walk_all p c)"
  by (cases e) (simp_all add: walk_all_def walk_and_unit)

lemma contains_iff: "contains p e \<longleftrightarrow> p e \<or> (\<exists>c\<in>set (children e). contains p c)"
  using walk_all_children [of "\<lambda>e. \<not> p e" e] by (auto simp: contains_def walk_all_def)

definition columns_of :: "expression \<Rightarrow> nat set" where
  "columns_of e = {i. contains (\<lambda>e. e = Column i) e}"

lemma columns_of_children: "columns_of e = (case e of Column i \<Rightarrow> {i} | _ \<Rightarrow> \<Union>c\<in>set (children e). columns_of c)"
  unfolding columns_of_def by (subst contains_iff) (cases e; auto)

lemma columns_of_simps [simp]:
  "columns_of (Constant v) = {}"
  "columns_of (Column i) = {i}"
  "columns_of (And l r) = columns_of l \<union> columns_of r"
  "columns_of (Or l r) = columns_of l \<union> columns_of r"
  "columns_of (ENot e) = columns_of e"
  "columns_of (Equal l r) = columns_of l \<union> columns_of r"
  "columns_of (GreaterThan l r) = columns_of l \<union> columns_of r"
  "columns_of (LessThan l r) = columns_of l \<union> columns_of r"
  "columns_of (Is e v) = columns_of e"
  "columns_of (Add l r) = columns_of l \<union> columns_of r"
  "columns_of (Divide l r) = columns_of l \<union> columns_of r"
  "columns_of (Exponentiate l r) = columns_of l \<union> columns_of r"
  "columns_of (Factorial e) = columns_of e"
  "columns_of (Identity e) = columns_of e"
  "columns_of (Multiply l r) = columns_of l \<union> columns_of r"
  "columns_of (Negate e) = columns_of e"
  "columns_of (Remainder l r) = columns_of l \<union> columns_of r"
  "columns_of (SquareRoot e) = columns_of e"
  "columns_of (Subtract l r) = columns_of l \<union> columns_of r"
  "columns_of (Like l r) = columns_of l \<union> columns_of r"
  by (subst columns_of_children; simp)+

text \<open>Evaluation only looks at the columns of an expression.\<close>

lemma evaluate_columns:
  "(\<And>i. i \<in> columns_of e \<Longrightarrow> lookup_column row i = lookup_column row' i) \<Longrightarrow> evaluate F e row = evaluate F e row'"
  by (induction e) auto

section \<open>Rewriting preserves evaluation\<close>

lemma eval2_Ok: "eval2 f x y = Ok v \<longleftrightarrow> (\<exists>a b. x = Ok a \<and> y = Ok b \<and> f a b = Ok v)"
  by (auto simp: eval2_def rbind_eq_Ok)

lemma eval_is_Ok: "eval_is x w = Ok v \<longleftrightarrow> (\<exists>a. x = Ok a \<and> eval_is (Ok a) w = Ok v)"
  by (auto simp: eval_is_def rbind_eq_Ok)

lemma transform_children_sound:
  assumes "evaluate F e row = Ok v"
    and "\<And>c w. c \<in> set (children e) \<Longrightarrow> evaluate F c row = Ok w \<Longrightarrow> \<exists>c'. f c = Ok c' \<and> evaluate F c' row = Ok w"
  shows "\<exists>e'. transform_children f e = Ok e' \<and> evaluate F e' row = Ok v"
proof -
  have two: "\<exists>e'. build2 f k l r = Ok e' \<and> evaluate F e' row = Ok v"
    if e: "children e = [l, r]" "\<And>l r. evaluate F (k l r) row = eval2 g (evaluate F l row) (evaluate F r row)"
      "e = k l r" for g k l r
  proof -
    from assms(1) e obtain x y where "evaluate F l row = Ok x" "evaluate F r row = Ok y" "g x y = Ok v"
      by (auto simp: eval2_Ok)
    with assms(2) [of l x] assms(2) [of r y] e show ?thesis by (auto simp: build2_def eval2_Ok)
  qed
  have one: "\<exists>e'. build1 f k c = Ok e' \<and> evaluate F e' row = Ok v"
    if e: "children e = [c]" "\<And>c. evaluate F (k c) row = rbind (evaluate F c row) g" "e = k c" for g k c
  proof -
    from assms(1) e obtain x where "evaluate F c row = Ok x" "g x = Ok v"
      by (auto simp: rbind_eq_Ok)
    with assms(2) [of c x] e show ?thesis by (auto simp: build1_def rbind_eq_Ok)
  qed
  have is_one: "\<exists>e'. build1 f (\<lambda>e. Is e w) c = Ok e' \<and> evaluate F e' row = Ok v" if e: "e = Is c w" for c w
  proof -
    from assms(1) e obtain x where "evaluate F c row = Ok x" "eval_is (Ok x) w = Ok v"
      using eval_is_Ok [of "evaluate F c row" w v] by auto
    with assms(2) [of c x] e show ?thesis by (auto simp: build1_def)
  qed
  show ?thesis
    by (cases e) (use assms(1) in \<open>auto intro!: two one is_one\<close>)
qed

text \<open>
  The contract of a pair of closures: each maps an expression that evaluates to one that
  evaluates to the same value, and what the first returns has smaller children.
\<close>

locale sound_rewrite =
  fixes F :: value_ops and row :: "sql_row option"
    and pre post :: "expression \<Rightarrow> expression result"
  assumes before_sound: "evaluate F e row = Ok v \<Longrightarrow> \<exists>e'. pre e = Ok e' \<and> evaluate F e' row = Ok v \<and> (\<forall>c\<in>set (children e'). size c < size e)"
    and after_sound: "evaluate F e row = Ok v \<Longrightarrow> \<exists>e'. post e = Ok e' \<and> evaluate F e' row = Ok v"
begin

lemma transform_sound:
  "evaluate F e row = Ok v \<Longrightarrow> size e < n \<Longrightarrow> \<exists>e'. transform n pre post e = Ok e' \<and> evaluate F e' row = Ok v"
proof (induction n arbitrary: e v)
  case (Suc n)
  from before_sound [OF Suc.prems(1)] obtain b
    where b: "pre e = Ok b" "evaluate F b row = Ok v" "\<forall>c\<in>set (children b). size c < size e" by blast
  have "\<exists>c'. transform n pre post c = Ok c' \<and> evaluate F c' row = Ok w"
    if "c \<in> set (children b)" "evaluate F c row = Ok w" for c w
    using that b(3) Suc.prems(2) by (intro Suc.IH) auto
  then obtain t where t: "transform_children (transform n pre post) b = Ok t" "evaluate F t row = Ok v"
    using transform_children_sound [OF b(2)] by blast
  with after_sound [OF t(2)] b(1) show ?case by auto
qed simp

end

text \<open>A total closure that shrinks the children always completes within the stack.\<close>

lemma transform_children_total:
  assumes "\<And>c. c \<in> set (children e) \<Longrightarrow> \<exists>c'. f c = Ok c'"
  shows "\<exists>e'. transform_children f e = Ok e'"
proof -
  have "\<exists>e'. build1 f k c = Ok e'" if "children e = [c]" for k c
    using assms [of c] that by (auto simp: build1_def)
  moreover have "\<exists>e'. build2 f k l r = Ok e'" if "children e = [l, r]" for k l r
    using assms [of l] assms [of r] that by (auto simp: build2_def)
  ultimately show ?thesis by (cases e) auto
qed

lemma transform_total:
  assumes "\<And>e c. c \<in> set (children (b e)) \<Longrightarrow> size c < size e"
  shows "size e < n \<Longrightarrow> \<exists>e'. transform n (\<lambda>e. Ok (b e)) Ok e = Ok e'"
proof (induction n arbitrary: e)
  case (Suc n)
  have "\<exists>e'. transform_children (transform n (\<lambda>e. Ok (b e)) Ok) (b e) = Ok e'"
  proof (rule transform_children_total)
    fix c assume "c \<in> set (children (b e))"
    with assms [of c e] Suc.prems show "\<exists>c'. transform n (\<lambda>e. Ok (b e)) Ok c = Ok c'"
      by (intro Suc.IH) simp
  qed
  then show ?case by auto
qed simp

section \<open>Negation and conjunctive normal form\<close>

lemma nnf_step_cases:
  obtains (NotAnd) l r where "e = ENot (And l r)" "nnf_step e = Or (ENot l) (ENot r)"
  | (NotOr) l r where "e = ENot (Or l r)" "nnf_step e = And (ENot l) (ENot r)"
  | (NotNot) x where "e = ENot (ENot x)" "nnf_step e = x"
  | (Same) "nnf_step e = e"
proof (cases "\<exists>x. e = ENot x")
  case True
  then obtain x where "e = ENot x" ..
  with that show thesis by (cases x) (auto simp: nnf_step_def)
next
  case False
  with that(4) show thesis by (cases e) (auto simp: nnf_step_def)
qed

lemma cnf_step_cases:
  obtains (Left) l r z where "e = Or (And l r) z" "cnf_step e = And (Or l z) (Or r z)"
  | (Right) x l r where "e = Or x (And l r)" "cnf_step e = And (Or x l) (Or x r)"
  | (Same) "cnf_step e = e"
proof (cases "\<exists>x y. e = Or x y")
  case True
  then obtain x y where e: "e = Or x y" by blast
  show thesis
  proof (cases "\<exists>l r. x = And l r")
    case True
    with e that(1) show thesis by (auto simp: cnf_step_def)
  next
    case False
    then have "cnf_step e = (case y of And l r \<Rightarrow> And (Or x l) (Or x r) | _ \<Rightarrow> e)"
      using e by (cases x) (auto simp: cnf_step_def split: expression.split)
    with e that show thesis by (cases y) auto
  qed
next
  case False
  with that(3) show thesis by (cases e) (auto simp: cnf_step_def)
qed

lemma nnf_step_smaller: "c \<in> set (children (nnf_step e)) \<Longrightarrow> size c < size e"
  by (cases e rule: nnf_step_cases) (use children_smaller in fastforce)+

lemma cnf_step_smaller: "c \<in> set (children (cnf_step e)) \<Longrightarrow> size c < size e"
  by (cases e rule: cnf_step_cases) (use children_smaller in auto)

text \<open>The logical operators are defined on the three truth values, and are Kleene's.\<close>

definition logical :: "sql_value \<Rightarrow> bool" where
  "logical x = (x \<in> {Null, Boolean True, Boolean False})"

lemma eval_and_simps:
  "eval_and (Boolean a) (Boolean b) = Ok (Boolean (a \<and> b))"
  "eval_and (Boolean a) Null = Ok (if a then Null else Boolean False)"
  "eval_and Null (Boolean a) = Ok (if a then Null else Boolean False)"
  "eval_and Null Null = Ok Null"
  by (simp_all add: eval_and_def)

lemma eval_or_simps:
  "eval_or (Boolean a) (Boolean b) = Ok (Boolean (a \<or> b))"
  "eval_or (Boolean a) Null = Ok (if a then Boolean True else Null)"
  "eval_or Null (Boolean a) = Ok (if a then Boolean True else Null)"
  "eval_or Null Null = Ok Null"
  by (simp_all add: eval_or_def)

lemma eval_and_logical: "eval_and x y = Ok v \<Longrightarrow> logical x \<and> logical y"
  by (cases x; cases y) (auto simp: eval_and_def logical_def)

lemma eval_or_logical: "eval_or x y = Ok v \<Longrightarrow> logical x \<and> logical y"
  by (cases x; cases y) (auto simp: eval_or_def logical_def)

lemma eval_not_logical: "eval_not x = Ok v \<Longrightarrow> logical x"
  by (cases x) (auto simp: logical_def)

lemma and_operands: "eval2 eval_and x y = Ok v \<Longrightarrow> \<exists>a b. x = Ok a \<and> y = Ok b \<and> logical a \<and> logical b \<and> eval_and a b = Ok v"
  using eval_and_logical by (auto simp: eval2_Ok)

lemma or_operands: "eval2 eval_or x y = Ok v \<Longrightarrow> \<exists>a b. x = Ok a \<and> y = Ok b \<and> logical a \<and> logical b \<and> eval_or a b = Ok v"
  using eval_or_logical by (auto simp: eval2_Ok)

lemma not_operand: "rbind x eval_not = Ok v \<Longrightarrow> \<exists>a. x = Ok a \<and> logical a \<and> eval_not a = Ok v"
  using eval_not_logical by (auto simp: rbind_eq_Ok)

lemmas operands = and_operands or_operands not_operand
lemmas kleene = logical_def eval2_def eval_and_simps eval_or_simps

lemma not_and: "rbind (eval2 eval_and x y) eval_not = Ok v \<Longrightarrow> eval2 eval_or (rbind x eval_not) (rbind y eval_not) = Ok v"
  by ((drule operands, clarify)+) (auto simp: kleene)

lemma not_or: "rbind (eval2 eval_or x y) eval_not = Ok v \<Longrightarrow> eval2 eval_and (rbind x eval_not) (rbind y eval_not) = Ok v"
  by ((drule operands, clarify)+) (auto simp: kleene)

lemma not_not: "rbind (rbind x eval_not) eval_not = Ok v \<Longrightarrow> x = Ok v"
  by ((drule operands, clarify)+) (auto simp: kleene)

lemma or_and_left:
  "eval2 eval_or (eval2 eval_and x y) z = Ok v \<Longrightarrow> eval2 eval_and (eval2 eval_or x z) (eval2 eval_or y z) = Ok v"
  by ((drule operands, clarify)+) (auto simp: kleene)

lemma or_and_right:
  "eval2 eval_or x (eval2 eval_and y z) = Ok v \<Longrightarrow> eval2 eval_and (eval2 eval_or x y) (eval2 eval_or x z) = Ok v"
  by ((drule operands, clarify)+) (auto simp: kleene)

lemma and_assoc: "eval2 eval_and (eval2 eval_and x y) z = Ok v \<longleftrightarrow> eval2 eval_and x (eval2 eval_and y z) = Ok v"
  by (rule iffI; (drule operands, clarify)+) (auto simp: kleene)

lemma nnf_step_sound: "evaluate F e row = Ok v \<Longrightarrow> evaluate F (nnf_step e) row = Ok v"
  by (cases e rule: nnf_step_cases) (simp_all add: not_and not_or not_not)

lemma cnf_step_sound: "evaluate F e row = Ok v \<Longrightarrow> evaluate F (cnf_step e) row = Ok v"
  by (cases e rule: cnf_step_cases) (simp_all add: or_and_left or_and_right)

interpretation nnf: sound_rewrite F row "\<lambda>e. Ok (nnf_step e)" Ok for F row
  by unfold_locales (auto simp: nnf_step_sound nnf_step_smaller)

interpretation cnf: sound_rewrite F row "\<lambda>e. Ok (cnf_step e)" Ok for F row
  by unfold_locales (auto simp: cnf_step_sound cnf_step_smaller)

lemma into_nnf_total: "transform (stack e) (\<lambda>e. Ok (nnf_step e)) Ok e = Ok (into_nnf e)"
  using transform_total [of nnf_step e "stack e"] nnf_step_smaller by (auto simp: into_nnf_def simp del: transform.simps)

lemma into_cnf_total: "transform (stack (into_nnf e)) (\<lambda>e. Ok (cnf_step e)) Ok (into_nnf e) = Ok (into_cnf e)"
  using transform_total [of cnf_step "into_nnf e" "stack (into_nnf e)"] cnf_step_smaller
  by (auto simp: into_cnf_def Let_def simp del: transform.simps)

lemma into_nnf_sound: "evaluate F e row = Ok v \<Longrightarrow> evaluate F (into_nnf e) row = Ok v"
  using nnf.transform_sound [of F e row v "stack e"] into_nnf_total [of e] by (auto simp del: transform.simps)

lemma into_cnf_sound: "evaluate F e row = Ok v \<Longrightarrow> evaluate F (into_cnf e) row = Ok v"
  using into_nnf_sound [of F e row v] cnf.transform_sound [of F "into_nnf e" row v "stack (into_nnf e)"] into_cnf_total [of e]
  by (auto simp del: transform.simps)

section \<open>Conjunctions as lists\<close>

text \<open>The conjuncts of an expression from left to right, which the stack loop collects.\<close>

fun conjuncts :: "expression \<Rightarrow> expression list" where
  "conjuncts e = (case e of And l r \<Rightarrow> conjuncts l @ conjuncts r | _ \<Rightarrow> [e])"

declare conjuncts.simps [simp del]

lemma conjuncts_And [simp]: "conjuncts (And l r) = conjuncts l @ conjuncts r"
  by (subst conjuncts.simps) simp

lemma conjuncts_other: "(\<nexists>l r. e = And l r) \<Longrightarrow> conjuncts e = [e]"
  by (subst conjuncts.simps) (cases e; simp)

lemma cnf_loop_conjuncts: "cnf_loop cnf es = cnf @ concat (map conjuncts es)"
proof (induction cnf es rule: cnf_loop.induct)
  case (2 cnf e es)
  show ?case
  proof (cases "\<exists>l r. e = And l r")
    case True
    then obtain l r where e: "e = And l r" by blast
    then have "cnf_loop cnf (e # es) = cnf_loop cnf (l # r # es)"
      by (subst cnf_loop.simps) (simp only: expression.case)
    also have "\<dots> = cnf @ concat (map conjuncts (l # r # es))" using 2(3) e by blast
    finally show ?thesis using e by simp
  next
    case False
    moreover have "cnf_loop cnf (e # es) = cnf_loop (cnf @ [e]) es" using False by (subst cnf_loop.simps) (cases e; simp)
    moreover have "cnf_loop (cnf @ [e]) es = (cnf @ [e]) @ concat (map conjuncts es)"
      using 2 False by (cases e) simp_all
    ultimately show ?thesis by (simp add: conjuncts_other)
  qed
qed simp

lemma into_cnf_vec_conjuncts: "into_cnf_vec e = conjuncts (into_cnf e)"
  by (simp add: into_cnf_vec_def cnf_loop_conjuncts)

lemma conjuncts_nonempty: "conjuncts e \<noteq> []"
  by (induction e rule: conjuncts.induct) (subst conjuncts.simps, auto split: expression.split)

lemma and_vec_snoc: "and_vec (es @ [e]) = (case and_vec es of Some a \<Rightarrow> Some (And a e) | None \<Rightarrow> Some e)"
  by (cases es) simp_all

lemma and_vec_append:
  assumes "and_vec xs = Some a" "and_vec ys = Some b"
  shows "\<exists>c. and_vec (xs @ ys) = Some c \<and>
    (\<forall>v. evaluate F c row = Ok v \<longleftrightarrow> eval2 eval_and (evaluate F a row) (evaluate F b row) = Ok v)"
  using assms(2)
proof (induction ys arbitrary: b rule: rev_induct)
  case (snoc y ys)
  show ?case
  proof (cases "and_vec ys")
    case None
    then have "ys = []" by (cases ys) auto
    with snoc.prems assms(1) show ?thesis by (auto simp: and_vec_snoc)
  next
    case (Some c)
    with snoc.IH obtain d where "and_vec (xs @ ys) = Some d"
      and d: "\<And>v. evaluate F d row = Ok v \<longleftrightarrow> eval2 eval_and (evaluate F a row) (evaluate F c row) = Ok v"
      by blast
    moreover have "eval2 eval_and (evaluate F d row) z = Ok v \<longleftrightarrow>
        eval2 eval_and (eval2 eval_and (evaluate F a row) (evaluate F c row)) z = Ok v" for z v
      using d by (auto simp: eval2_Ok [of _ _ z])
    ultimately show ?thesis
      using Some snoc.prems by (auto simp: and_vec_snoc append_assoc [symmetric] and_assoc simp del: append_assoc)
  qed
qed simp

lemma and_vec_conjuncts: "\<exists>c. and_vec (conjuncts e) = Some c \<and> (\<forall>v. evaluate F c row = Ok v \<longleftrightarrow> evaluate F e row = Ok v)"
proof (induction e rule: conjuncts.induct)
  case (1 e)
  show ?case
  proof (cases "\<exists>l r. e = And l r")
    case True
    then obtain l r where e: "e = And l r" by blast
    with 1 obtain a b where "and_vec (conjuncts l) = Some a" "\<And>v. evaluate F a row = Ok v \<longleftrightarrow> evaluate F l row = Ok v"
      "and_vec (conjuncts r) = Some b" "\<And>v. evaluate F b row = Ok v \<longleftrightarrow> evaluate F r row = Ok v" by blast
    with and_vec_append [of "conjuncts l" a "conjuncts r" b F row] e show ?thesis
      by (auto simp: eval2_Ok)
  next
    case False
    then show ?thesis by (simp add: conjuncts_other)
  qed
qed

section \<open>Column substitution\<close>

primrec map_columns :: "(nat \<Rightarrow> nat) \<Rightarrow> expression \<Rightarrow> expression" where
  "map_columns f (Constant v) = Constant v"
| "map_columns f (Column i) = Column (f i)"
| "map_columns f (And l r) = And (map_columns f l) (map_columns f r)"
| "map_columns f (Or l r) = Or (map_columns f l) (map_columns f r)"
| "map_columns f (ENot e) = ENot (map_columns f e)"
| "map_columns f (Equal l r) = Equal (map_columns f l) (map_columns f r)"
| "map_columns f (GreaterThan l r) = GreaterThan (map_columns f l) (map_columns f r)"
| "map_columns f (LessThan l r) = LessThan (map_columns f l) (map_columns f r)"
| "map_columns f (Is e v) = Is (map_columns f e) v"
| "map_columns f (Add l r) = Add (map_columns f l) (map_columns f r)"
| "map_columns f (Divide l r) = Divide (map_columns f l) (map_columns f r)"
| "map_columns f (Exponentiate l r) = Exponentiate (map_columns f l) (map_columns f r)"
| "map_columns f (Factorial e) = Factorial (map_columns f e)"
| "map_columns f (Identity e) = Identity (map_columns f e)"
| "map_columns f (Multiply l r) = Multiply (map_columns f l) (map_columns f r)"
| "map_columns f (Negate e) = Negate (map_columns f e)"
| "map_columns f (Remainder l r) = Remainder (map_columns f l) (map_columns f r)"
| "map_columns f (SquareRoot e) = SquareRoot (map_columns f e)"
| "map_columns f (Subtract l r) = Subtract (map_columns f l) (map_columns f r)"
| "map_columns f (Like l r) = Like (map_columns f l) (map_columns f r)"

lemma transform_columns:
  "size e < n \<Longrightarrow> transform n (\<lambda>e. Ok (case e of Column i \<Rightarrow> Column (f i) | _ \<Rightarrow> e)) Ok e = Ok (map_columns f e)"
  by (induction n arbitrary: e) (simp, case_tac e, simp_all add: build1_def build2_def)

lemma replace_column_map: "replace_column a b e = map_columns (\<lambda>i. if i = a then b else i) e"
proof -
  have "(\<lambda>e. Ok (case e of Column i \<Rightarrow> if i = a then Column b else e | _ \<Rightarrow> e)) =
      (\<lambda>e. Ok (case e of Column i \<Rightarrow> Column (if i = a then b else i) | _ \<Rightarrow> e))"
    by (auto simp: fun_eq_iff split: expression.split)
  then show ?thesis
    using transform_columns [of e "stack e" "\<lambda>i. if i = a then b else i"]
    by (simp add: replace_column_def del: transform.simps)
qed

lemma shift_column_map: "shift_column d e = map_columns (\<lambda>i. unat (word_of_int (int i + d) :: u64)) e"
  using transform_columns [of e "stack e" "\<lambda>i. unat (word_of_int (int i + d) :: u64)"]
  by (simp add: shift_column_def del: transform.simps)

lemma evaluate_map_columns:
  "(\<And>i. i \<in> columns_of e \<Longrightarrow> lookup_column row (f i) = lookup_column row' i) \<Longrightarrow>
    evaluate F (map_columns f e) row = evaluate F e row'"
  by (induction e) simp_all

lemma columns_of_map [simp]: "columns_of (map_columns f e) = f ` columns_of e"
  by (induction e) auto

section \<open>Index lookups\<close>

lemma lookup_simps:
  "is_column_lookup (Or l r) = (case (is_column_lookup l, is_column_lookup r) of
      (Some a, Some b) \<Rightarrow> if a = b then Some a else None | _ \<Rightarrow> None)"
  "into_column_values (Or l r) i =
     rbind (into_column_values l i) (\<lambda>vs. rbind (into_column_values r i) (\<lambda>ws. Ok (vs @ ws)))"
  by (subst is_column_lookup.simps into_column_values.simps; simp)+

lemma lookup_cases:
  assumes "is_column_lookup e = Some c"
  obtains (Equal) l r w where "e = Equal l r" "{l, r} = {Column c, Constant w}" "into_column_values e c = Ok (lookup_value w)"
  | (Is) w where "e = Is (Column c) w" "into_column_values e c = Ok [w]"
  | (Or) l r where "e = Or l r" "is_column_lookup l = Some c" "is_column_lookup r = Some c"
proof (cases e)
  case (Equal l r)
  with assms obtain w where w: "column_constant l r = Some (c, w)"
    by (auto simp: is_column_lookup.simps)
  then have "{l, r} = {Column c, Constant w}"
    by (auto simp: column_constant_def split: expression.splits)
  with Equal w that(1) show thesis by (auto simp: into_column_values.simps)
next
  case (Is x w)
  with assms have "x = Column c" by (cases x) (auto simp: is_column_lookup.simps)
  with Is that(2) show thesis by (auto simp: into_column_values.simps)
next
  case (Or l r)
  with assms that(3) show thesis by (auto simp: lookup_simps split: option.splits if_splits)
qed (use assms in \<open>simp_all add: is_column_lookup.simps\<close>)

lemma equal_lookup:
  "eval_equal x w = Ok v \<Longrightarrow> v = Boolean True \<longleftrightarrow> (\<exists>u\<in>set (lookup_value w). value_eq x u)"
  "eval_equal w x = Ok v \<Longrightarrow> v = Boolean True \<longleftrightarrow> (\<exists>u\<in>set (lookup_value w). value_eq x u)"
  by (cases x; cases w; force simp: eval_equal_def lookup_value_def value_eq_def f64_eq_def)+

lemma is_lookup: "eval_is (Ok x) w = Ok v \<Longrightarrow> v = Boolean True \<longleftrightarrow> value_eq x w"
  by (cases x; cases w; force simp: eval_is_def value_eq_def f64_eq_def split: if_splits)

lemma or_true: "eval_or a b = Ok v \<Longrightarrow> v = Boolean True \<longleftrightarrow> a = Boolean True \<or> b = Boolean True"
  using eval_or_logical [of a b v] by (auto simp: logical_def eval_or_simps)

lemma lookup_exact:
  "is_column_lookup e = Some c \<Longrightarrow> \<exists>vs. into_column_values e c = Ok vs \<and>
     (\<forall>row v. c < length row \<longrightarrow> evaluate F e (Some row) = Ok v \<longrightarrow>
       (v = Boolean True \<longleftrightarrow> (\<exists>w\<in>set vs. value_eq (row ! c) w)))"
proof (induction e rule: expression_children_induct)
  case (step e)
  from step.prems show ?case
  proof (cases rule: lookup_cases)
    case (Equal l r w)
    then have "l = Column c \<and> r = Constant w \<or> l = Constant w \<and> r = Column c"
      by (auto simp: doubleton_eq_iff)
    then have "v = Boolean True \<longleftrightarrow> (\<exists>u\<in>set (lookup_value w). value_eq (row ! c) u)"
      if "c < length row" "evaluate F e (Some row) = Ok v" for row v
      using that Equal(1) equal_lookup(1) [of "row ! c" w v] equal_lookup(2) [of w "row ! c" v] by (elim disjE) (simp_all add: eval2_def lookup_column_def)
    with Equal(3) show ?thesis by blast
  next
    case (Is w)
    then have "v = Boolean True \<longleftrightarrow> value_eq (row ! c) w"
      if "c < length row" "evaluate F e (Some row) = Ok v" for row v
      using that is_lookup [of "row ! c" w v] by (simp add: lookup_column_def)
    with Is(2) show ?thesis by simp
  next
    case (Or l r)
    with step.IH [of l] step.IH [of r] obtain vs ws where
      "into_column_values l c = Ok vs" "into_column_values r c = Ok ws"
      "\<And>row v. c < length row \<Longrightarrow> evaluate F l (Some row) = Ok v \<Longrightarrow> v = Boolean True \<longleftrightarrow> (\<exists>w\<in>set vs. value_eq (row ! c) w)"
      "\<And>row v. c < length row \<Longrightarrow> evaluate F r (Some row) = Ok v \<Longrightarrow> v = Boolean True \<longleftrightarrow> (\<exists>w\<in>set ws. value_eq (row ! c) w)"
      by auto
    moreover from this have "v = Boolean True \<longleftrightarrow> (\<exists>w\<in>set (vs @ ws). value_eq (row ! c) w)"
      if "c < length row" "evaluate F e (Some row) = Ok v" for row v
      using that or_true Or(1) by (fastforce simp: eval2_Ok)
    ultimately show ?thesis using Or(1) by (simp add: lookup_simps)
  qed
qed

section \<open>Properties\<close>

text \<open>
  Conversion to negation and to conjunctive normal form always completes: the
  recursion never goes deeper than the size of the expression it starts from.
\<close>

theorem normal_forms_terminate:
  "transform (Suc (size e)) (\<lambda>e. Ok (nnf_step e)) Ok e = Ok (into_nnf e) \<and>
   transform (Suc (size (into_nnf e))) (\<lambda>e. Ok (cnf_step e)) Ok (into_nnf e) = Ok (into_cnf e)"
  using into_nnf_total into_cnf_total by blast

text \<open>
  Property C25. Conjunctive normal form preserves evaluation in three-valued logic: an expression
  that evaluates to a value evaluates to the same value after conversion, also when the
  conjuncts are taken apart into a list and joined again.
\<close>

theorem cnf_evaluates:
  assumes "evaluate F e row = Ok v"
  shows "evaluate F (into_cnf e) row = Ok v \<and>
    (\<exists>c. and_vec (into_cnf_vec e) = Some c \<and> evaluate F c row = Ok v)"
  using into_cnf_sound [OF assms] and_vec_conjuncts [of "into_cnf e" F row]
  by (auto simp: into_cnf_vec_conjuncts)

text \<open>
  An expression recognised as a lookup of a column yields its lookup values without
  a panic, and a row on which the expression evaluates satisfies it exactly when the row's
  value in that column equals one of them.
\<close>

theorem column_lookup_exact:
  assumes "is_column_lookup e = Some c"
  shows "\<exists>vs. into_column_values e c = Ok vs \<and>
    (\<forall>row v. c < length row \<longrightarrow> evaluate F e (Some row) = Ok v \<longrightarrow>
      (v = Boolean True \<longleftrightarrow> (\<exists>w\<in>set vs. value_eq (row ! c) w)))"
  by (rule lookup_exact [OF assms])

section \<open>Witnesses\<close>

definition demo_ops :: value_ops where
  "demo_ops = \<lparr>vo_powf = (\<lambda>x _. x), vo_powi = (\<lambda>x _. x), vo_like = (\<lambda>s p. Ok (s = p))\<rparr>"

text \<open>\<^verbatim>\<open>NOT (a AND b)\<close> with a true and b null.\<close>

theorem cnf_evaluates_witness:
  "evaluate demo_ops (into_cnf (ENot (And (Column 0) (Column 1)))) (Some [Boolean True, Null]) = Ok Null"
proof -
  have "evaluate demo_ops (ENot (And (Column 0) (Column 1))) (Some [Boolean True, Null]) = Ok Null" by code_simp
  from cnf_evaluates [OF this] show ?thesis by blast
qed

text \<open>\<^verbatim>\<open>id = 1 OR 7 = id\<close>.\<close>

theorem column_lookup_exact_witness:
  "\<exists>vs. into_column_values (Or (Equal (Column 0) (Constant (Integer 1))) (Equal (Constant (Integer 7)) (Column 0))) 0 = Ok vs \<and>
    (\<exists>w\<in>set vs. value_eq (Integer 7) w)"
proof -
  let ?e = "Or (Equal (Column 0) (Constant (Integer 1))) (Equal (Constant (Integer 7)) (Column 0))"
  have "is_column_lookup ?e = Some 0" by code_simp
  from column_lookup_exact [OF this, of demo_ops] obtain vs where vs: "into_column_values ?e 0 = Ok vs"
    "\<forall>row v. 0 < length row \<longrightarrow> evaluate demo_ops ?e (Some row) = Ok v \<longrightarrow>
      (v = Boolean True \<longleftrightarrow> (\<exists>w\<in>set vs. value_eq (row ! 0) w))" by blast
  have "evaluate demo_ops ?e (Some [Integer 7]) = Ok (Boolean True)" by code_simp
  with vs(2) have "\<exists>w\<in>set vs. value_eq ([Integer 7] ! 0) w" by (metis length_greater_0_conv list.distinct(1))
  with vs(1) show ?thesis by (auto simp only: nth_Cons_0)
qed

section \<open>Where the normal forms are not normal\<close>

text \<open>
  \<^verbatim>\<open>into_nnf\<close> promises that \<^verbatim>\<open>NOT\<close> ends up below the other logical operators, and \<^verbatim>\<open>into_cnf\<close> an
  \<^verbatim>\<open>AND\<close> of \<^verbatim>\<open>OR\<close>s. The rewriting descends into what a step returns without trying the step there
  again: a triple negation and a nested disjunction are left half converted.
\<close>

lemma into_nnf_triple_negation:
  "into_nnf (ENot (ENot (ENot (And (Column 0) (Column 1))))) = ENot (And (Column 0) (Column 1))"
  by code_simp

lemma into_cnf_nested_or:
  "into_cnf (Or (Or (And (Column 0) (Column 1)) (Column 2)) (Column 3)) =
    Or (And (Or (Column 0) (Column 2)) (Or (Column 1) (Column 2))) (Column 3)"
  by code_simp

text \<open>Comparisons with NaN are false, where the comment on the comparisons says they yield NaN.\<close>

lemma equal_nan: "eval_equal (Float f64_nan) (Float f64_nan) = Ok (Boolean False)"
  by code_simp

lemma negate_wraps: "eval_negate (Integer 0x8000000000000000) = Ok (Integer 0x8000000000000000)"
  by code_simp

end
