(* ===== verification/SqlSchema.thy ===== *)
theory SqlSchema
  imports SqlNormal
begin

text \<open>
  \<^verbatim>\<open>src/sql/types/schema.rs\<close>: table schemas, their validation against a catalog, and the
  validation of rows against the stored data. What the catalog and the transaction answer is
  passed in as functions. Formatting as SQL is not modelled.
\<close>

section \<open>Schemas\<close>

record sql_column =
  col_name :: string
  col_datatype :: data_type
  col_nullable :: bool
  col_default :: "sql_value option"
  col_unique :: bool
  col_index :: bool
  col_references :: "string option"

record sql_table =
  tbl_name :: string
  tbl_primary_key :: nat
  tbl_columns :: "sql_column list"

definition errinput :: "string \<Rightarrow> 'a result" where
  [simp]: "errinput msg = Err (InvalidInput msg)"

text \<open>\<^verbatim>\<open>if b { return errinput!(msg) }\<close>.\<close>

definition ensure :: "bool \<Rightarrow> string \<Rightarrow> unit result" where
  "ensure b msg = (if b then Ok () else errinput msg)"

definition nth_checked :: "'a list \<Rightarrow> nat \<Rightarrow> 'a result" where
  "nth_checked xs i = (if i < length xs then Ok (xs ! i) else Panic ''index out of bounds'')"

lemma ensure_Ok [simp]: "ensure b msg = Ok u \<longleftrightarrow> b"
  by (simp add: ensure_def)

lemma nth_checked_Ok [simp]: "nth_checked xs i = Ok x \<longleftrightarrow> i < length xs \<and> x = xs ! i"
  by (auto simp: nth_checked_def)

section \<open>Validation of a schema\<close>

definition validate_primary_key :: "sql_column \<Rightarrow> unit result" where
  "validate_primary_key c =
     rbind (ensure (\<not> col_nullable c) ''primary key {cname} cannot be nullable'') (\<lambda>_.
     rbind (ensure (col_unique c) ''primary key {cname} must be unique'') (\<lambda>_.
     ensure (\<not> col_index c) ''primary key {cname} can't have an index''))"

definition validate_default :: "sql_column \<Rightarrow> unit result" where
  "validate_default c = (case map_option datatype_of (col_default c) of
      None \<Rightarrow> ensure (\<not> col_nullable c) ''nullable column {cname} must have a default value''
    | Some None \<Rightarrow> ensure (col_nullable c) ''invalid NULL default for non-nullable column {cname}''
    | Some (Some vtype) \<Rightarrow> ensure (vtype = col_datatype c) ''invalid default type {vtype} for {ctype} column {cname}'')"

definition reference_type :: "(string \<Rightarrow> sql_table option result) \<Rightarrow> sql_table \<Rightarrow> string \<Rightarrow> data_type result" where
  "reference_type get_table t reference =
     (if reference = tbl_name t
      then rbind (nth_checked (tbl_columns t) (tbl_primary_key t)) (\<lambda>c. Ok (col_datatype c))
      else rbind (get_table reference) (\<lambda>target. case target of
          Some target \<Rightarrow> rbind (nth_checked (tbl_columns target) (tbl_primary_key target)) (\<lambda>c. Ok (col_datatype c))
        | None \<Rightarrow> errinput ''unknown table {reference} referenced by column {cname}''))"

definition validate_references :: "(string \<Rightarrow> sql_table option result) \<Rightarrow> sql_table \<Rightarrow> bool \<Rightarrow> sql_column \<Rightarrow> unit result" where
  "validate_references get_table t is_primary_key c = (case col_references c of
      None \<Rightarrow> Ok ()
    | Some reference \<Rightarrow>
        rbind (ensure (col_index c \<or> is_primary_key) ''reference column {cname} must have a secondary index'') (\<lambda>_.
        rbind (reference_type get_table t reference) (\<lambda>reftype.
        ensure (col_datatype c = reftype) ''can't reference {reftype} primary key of {reference} from {ctype} column {cname}'')))"

definition validate_column :: "(string \<Rightarrow> sql_table option result) \<Rightarrow> sql_table \<Rightarrow> nat \<Rightarrow> sql_column \<Rightarrow> unit result" where
  "validate_column get_table t i c =
     (let is_primary_key = (i = tbl_primary_key t) in
      rbind (ensure (col_name c \<noteq> []) ''column name can't be empty'') (\<lambda>_.
      rbind (if is_primary_key then validate_primary_key c else Ok ()) (\<lambda>_.
      rbind (validate_default c) (\<lambda>_.
      rbind (ensure (col_unique c \<longrightarrow> col_index c \<or> is_primary_key) ''unique column {cname} must have a secondary index'') (\<lambda>_.
      validate_references get_table t is_primary_key c)))))"

fun for_columns :: "(nat \<Rightarrow> 'a \<Rightarrow> unit result) \<Rightarrow> nat \<Rightarrow> 'a list \<Rightarrow> unit result" where
  "for_columns f i [] = Ok ()"
| "for_columns f i (c # cs) = rbind (f i c) (\<lambda>_. for_columns f (Suc i) cs)"

definition validate_table :: "(string \<Rightarrow> sql_table option result) \<Rightarrow> sql_table \<Rightarrow> unit result" where
  "validate_table get_table t =
     rbind (ensure (tbl_name t \<noteq> []) ''table name can't be empty'') (\<lambda>_.
     rbind (ensure (tbl_columns t \<noteq> []) ''table has no columns'') (\<lambda>_.
     rbind (ensure (tbl_primary_key t < length (tbl_columns t)) ''invalid primary key index'') (\<lambda>_.
     for_columns (validate_column get_table t) 0 (tbl_columns t))))"

section \<open>Validation of a row\<close>

text \<open>
  \<open>get\<close> and \<open>lookup_index\<close> are the transaction's row and index reads. The set of primary keys an
  index lookup returns is a list without duplicates.
\<close>

definition validate_reference_value ::
  "(string \<Rightarrow> sql_value list \<Rightarrow> sql_row list result) \<Rightarrow> sql_table \<Rightarrow> sql_value \<Rightarrow> sql_column \<Rightarrow> sql_value \<Rightarrow> unit result" where
  "validate_reference_value get t i c v = (case col_references c of
      None \<Rightarrow> Ok ()
    | Some target \<Rightarrow>
        if v = Null then Ok ()
        else if target = tbl_name t \<and> value_eq v i then Ok ()
        else rbind (get target [v]) (\<lambda>rows. ensure (rows \<noteq> []) ''reference {v} not in table {target}''))"

definition validate_unique ::
  "(string \<Rightarrow> string \<Rightarrow> sql_value list \<Rightarrow> sql_value list result) \<Rightarrow> sql_table \<Rightarrow> bool \<Rightarrow> sql_value \<Rightarrow> nat \<Rightarrow> sql_column \<Rightarrow> sql_value \<Rightarrow> unit result" where
  "validate_unique lookup_index t update i n c v =
     (if col_unique c \<and> n \<noteq> tbl_primary_key t \<and> \<not> is_undefined v
      then rbind (lookup_index (tbl_name t) (col_name c) [v]) (\<lambda>ids.
        let ids = (if update then filter (\<lambda>x. value_cmp x i \<noteq> OEqual) ids else ids) in
        ensure (ids = []) ''value {value} already in unique column {cname}'')
      else Ok ())"

definition validate_value ::
  "(string \<Rightarrow> sql_value list \<Rightarrow> sql_row list result) \<Rightarrow> (string \<Rightarrow> string \<Rightarrow> sql_value list \<Rightarrow> sql_value list result) \<Rightarrow>
    sql_table \<Rightarrow> bool \<Rightarrow> sql_value \<Rightarrow> nat \<Rightarrow> sql_column \<times> sql_value \<Rightarrow> unit result" where
  "validate_value get lookup_index t update i n cv = (case cv of (c, v) \<Rightarrow>
     rbind (ensure (datatype_of v \<in> {None, Some (col_datatype c)}) ''invalid datatype {vtype} for {ctype} column {cname}'') (\<lambda>_.
     rbind (ensure (value_eq v Null \<longrightarrow> col_nullable c) ''NULL value not allowed for column {cname}'') (\<lambda>_.
     rbind (validate_reference_value get t i c v) (\<lambda>_.
     validate_unique lookup_index t update i n c v))))"

definition validate_row ::
  "(string \<Rightarrow> sql_value list \<Rightarrow> sql_row list result) \<Rightarrow> (string \<Rightarrow> string \<Rightarrow> sql_value list \<Rightarrow> sql_value list result) \<Rightarrow>
    sql_table \<Rightarrow> sql_row \<Rightarrow> bool \<Rightarrow> unit result" where
  "validate_row get lookup_index t row update =
     rbind (ensure (length row = length (tbl_columns t)) ''invalid row size for table {}'') (\<lambda>_.
     rbind (nth_checked row (tbl_primary_key t)) (\<lambda>i.
     rbind (ensure (\<not> is_undefined i) ''invalid primary key {id}'') (\<lambda>_.
     rbind (if update then Ok ()
            else rbind (get (tbl_name t) [i]) (\<lambda>rows. ensure (rows = []) ''primary key {id} already exists'')) (\<lambda>_.
     for_columns (validate_value get lookup_index t update i) 0 (zip (tbl_columns t) row)))))"

section \<open>What validation ensures\<close>

lemma for_columns_Ok: "for_columns f k cs = Ok u \<longleftrightarrow> (\<forall>i < length cs. f (k + i) (cs ! i) = Ok ())"
  by (induction cs arbitrary: k) (auto simp: rbind_eq_Ok nth_Cons less_Suc_eq_0_disj split: nat.splits)

definition column_typed :: "sql_column \<Rightarrow> sql_value \<Rightarrow> bool" where
  "column_typed c v = (if v = Null then col_nullable c else datatype_of v = Some (col_datatype c))"

definition row_typed :: "sql_table \<Rightarrow> sql_row \<Rightarrow> bool" where
  "row_typed t row = (list_all2 column_typed (tbl_columns t) row \<and> tbl_primary_key t < length row \<and>
     \<not> is_undefined (row ! tbl_primary_key t))"

definition table_wf :: "sql_table \<Rightarrow> bool" where
  "table_wf t = (tbl_name t \<noteq> [] \<and> tbl_primary_key t < length (tbl_columns t) \<and>
     (\<forall>i < length (tbl_columns t). let c = tbl_columns t ! i in
        col_name c \<noteq> [] \<and>
        (i = tbl_primary_key t \<longrightarrow> \<not> col_nullable c \<and> col_unique c \<and> \<not> col_index c) \<and>
        (i \<noteq> tbl_primary_key t \<and> (col_unique c \<or> col_references c \<noteq> None) \<longrightarrow> col_index c) \<and>
        (\<forall>v. col_default c = Some v \<longrightarrow> column_typed c v) \<and>
        (col_nullable c \<longrightarrow> col_default c \<noteq> None)))"

lemma validate_value_typed:
  "validate_value get lookup_index t update i n (c, v) = Ok u \<Longrightarrow> column_typed c v"
  by (cases v) (auto simp: validate_value_def column_typed_def value_eq_def rbind_eq_Ok)

lemma validate_row_values:
  assumes "validate_row get lookup_index t row update = Ok u"
  shows "length row = length (tbl_columns t)" "tbl_primary_key t < length row" "\<not> is_undefined (row ! tbl_primary_key t)"
    and "n < length row \<Longrightarrow> validate_value get lookup_index t update (row ! tbl_primary_key t) n (tbl_columns t ! n, row ! n) = Ok ()"
  using assms by (auto simp: validate_row_def rbind_eq_Ok for_columns_Ok)

lemma validate_row_typed: "validate_row get lookup_index t row update = Ok u \<Longrightarrow> row_typed t row"
proof -
  assume v: "validate_row get lookup_index t row update = Ok u"
  have "n < length row \<Longrightarrow> column_typed (tbl_columns t ! n) (row ! n)" for n
    by (rule validate_value_typed [OF validate_row_values(4) [OF v]])
  with validate_row_values(1-3) [OF v] show ?thesis
    by (auto simp: row_typed_def list_all2_conv_all_nth)
qed

lemma validate_default_Ok:
  "validate_default c = Ok u \<Longrightarrow> (\<forall>v. col_default c = Some v \<longrightarrow> column_typed c v) \<and> (col_nullable c \<longrightarrow> col_default c \<noteq> None)"
proof (cases "col_default c")
  case (Some v)
  assume "validate_default c = Ok u"
  with Some show ?thesis by (cases v) (auto simp: validate_default_def column_typed_def)
qed (auto simp: validate_default_def)

lemma validate_table_wf: "validate_table get_table t = Ok u \<Longrightarrow> table_wf t"
proof -
  assume "validate_table get_table t = Ok u"
  then have t: "tbl_name t \<noteq> []" "tbl_primary_key t < length (tbl_columns t)"
    and c: "\<And>i. i < length (tbl_columns t) \<Longrightarrow> validate_column get_table t i (tbl_columns t ! i) = Ok ()"
    by (auto simp: validate_table_def rbind_eq_Ok for_columns_Ok)
  have col: "col_name c \<noteq> [] \<and> (i = tbl_primary_key t \<longrightarrow> \<not> col_nullable c \<and> col_unique c \<and> \<not> col_index c) \<and>
      (i \<noteq> tbl_primary_key t \<and> (col_unique c \<or> col_references c \<noteq> None) \<longrightarrow> col_index c) \<and>
      (\<forall>v. col_default c = Some v \<longrightarrow> column_typed c v) \<and> (col_nullable c \<longrightarrow> col_default c \<noteq> None)"
    if "validate_column get_table t i c = Ok ()" for i c
    using that validate_default_Ok [of c]
    by (auto simp: validate_column_def validate_primary_key_def validate_references_def Let_def rbind_eq_Ok split: if_splits)
  show ?thesis unfolding table_wf_def Let_def using t col [OF c] by blast
qed

end
