(* ===== verification/SqlPlan.thy ===== *)
theory SqlPlan
  imports SqlSchema
begin

text \<open>
  \<^verbatim>\<open>src/sql/planner/plan.rs\<close>: query plan nodes, the columns they emit, and the transformation of
  plans and of their expressions. A map of columns is an association list. Building plans from
  the syntax tree and formatting them are not modelled here.
\<close>

section \<open>Plan nodes\<close>

datatype aggregate =
    Average expression
  | Count expression
  | MaxOf expression
  | MinOf expression
  | Sum expression

datatype direction = Ascending | Descending

fun aggregate_expr :: "aggregate \<Rightarrow> expression" where
  "aggregate_expr (Average e) = e"
| "aggregate_expr (Count e) = e"
| "aggregate_expr (MaxOf e) = e"
| "aggregate_expr (MinOf e) = e"
| "aggregate_expr (Sum e) = e"

datatype plan_node =
    Aggregate plan_node "expression list" "aggregate list"
  | Filter plan_node expression
  | HashJoin plan_node nat plan_node nat bool
  | IndexLookup sql_table nat "sql_value list" "string option"
  | KeyLookup sql_table "sql_value list" "string option"
  | Limit plan_node nat
  | NestedLoopJoin plan_node plan_node "expression option" bool
  | Nothing "label list"
  | Offset plan_node nat
  | Order plan_node "(expression \<times> direction) list"
  | Projection plan_node "expression list" "label list"
  | Remap plan_node "nat option list"
  | Scan sql_table "expression option" "string option"
  | Values "expression list list"

datatype plan =
    CreateTable sql_table
  | DropTable string bool
  | Delete string nat plan_node
  | Insert sql_table "(nat \<times> nat) list option" plan_node
  | Update sql_table nat plan_node "(nat \<times> expression) list"
  | Select plan_node

section \<open>Columns of a node\<close>

definition remap_size :: "nat option list \<Rightarrow> nat" where
  "remap_size targets = fold max (map Suc (List.map_filter (\<lambda>t. t) targets)) 0"

primrec columns :: "plan_node \<Rightarrow> nat" where
  "columns (Aggregate source group_by aggregates) = length aggregates + length group_by"
| "columns (Filter source predicate) = columns source"
| "columns (HashJoin l lc r rc outer) = columns l + columns r"
| "columns (IndexLookup t column vs alias) = length (tbl_columns t)"
| "columns (KeyLookup t keys alias) = length (tbl_columns t)"
| "columns (Limit source n) = columns source"
| "columns (NestedLoopJoin l r predicate outer) = columns l + columns r"
| "columns (Nothing labels) = length labels"
| "columns (Offset source n) = columns source"
| "columns (Order source key) = columns source"
| "columns (Projection source expressions aliases) = length expressions"
| "columns (Remap source targets) = remap_size targets"
| "columns (Scan t flt alias) = length (tbl_columns t)"
| "columns (Values rows) = (case rows of [] \<Rightarrow> 0 | row # _ \<Rightarrow> length row)"

definition table_label :: "sql_table \<Rightarrow> string option \<Rightarrow> nat \<Rightarrow> label result" where
  "table_label t alias i = rbind (nth_checked (tbl_columns t) i) (\<lambda>c.
     Ok (Qualified (case alias of Some a \<Rightarrow> a | None \<Rightarrow> tbl_name t) (col_name c)))"

fun position :: "('a \<Rightarrow> bool) \<Rightarrow> 'a list \<Rightarrow> nat option" where
  "position p [] = None"
| "position p (x # xs) = (if p x then Some 0 else map_option Suc (position p xs))"

definition nth_opt :: "'a list \<Rightarrow> nat \<Rightarrow> 'a option" where
  "nth_opt xs i = (if i < length xs then Some (xs ! i) else None)"

fun column_label :: "plan_node \<Rightarrow> nat \<Rightarrow> label result" where
  "column_label (IndexLookup t column vs alias) i = table_label t alias i"
| "column_label (KeyLookup t keys alias) i = table_label t alias i"
| "column_label (Scan t flt alias) i = table_label t alias i"
| "column_label (Aggregate source group_by aggregates) i = (case nth_opt group_by i of
      Some (Column j) \<Rightarrow> column_label source j
    | _ \<Rightarrow> Ok NoLabel)"
| "column_label (Projection source expressions aliases) i =
     (case nth_opt aliases i of
        Some (Unqualified a) \<Rightarrow> Ok (Unqualified a)
      | Some (Qualified a b) \<Rightarrow> Ok (Qualified a b)
      | _ \<Rightarrow> (case nth_opt expressions i of
          Some (Column j) \<Rightarrow> column_label source j
        | _ \<Rightarrow> Ok NoLabel))"
| "column_label (Remap source targets) i = (case position (\<lambda>t. t = Some i) targets of
      Some j \<Rightarrow> column_label source j
    | None \<Rightarrow> Ok NoLabel)"
| "column_label (HashJoin l lc r rc outer) i =
     (if i < columns l then column_label l i else column_label r (i - columns l))"
| "column_label (NestedLoopJoin l r predicate outer) i =
     (if i < columns l then column_label l i else column_label r (i - columns l))"
| "column_label (Filter source predicate) i = column_label source i"
| "column_label (Limit source n) i = column_label source i"
| "column_label (Offset source n) i = column_label source i"
| "column_label (Order source key) i = column_label source i"
| "column_label (Nothing labels) i = Ok (case nth_opt labels i of Some l \<Rightarrow> l | None \<Rightarrow> NoLabel)"
| "column_label (Values rows) i = Ok NoLabel"

section \<open>Transformations\<close>

definition node1 :: "(plan_node \<Rightarrow> plan_node result) \<Rightarrow> (plan_node \<Rightarrow> plan_node) \<Rightarrow> plan_node \<Rightarrow> plan_node result" where
  "node1 f c n = rbind (f n) (\<lambda>n. Ok (c n))"

definition node2 ::
  "(plan_node \<Rightarrow> plan_node result) \<Rightarrow> (plan_node \<Rightarrow> plan_node \<Rightarrow> plan_node) \<Rightarrow> plan_node \<Rightarrow> plan_node \<Rightarrow> plan_node result" where
  "node2 f c l r = rbind (f l) (\<lambda>l. rbind (f r) (\<lambda>r. Ok (c l r)))"

primrec transform_sources :: "(plan_node \<Rightarrow> plan_node result) \<Rightarrow> plan_node \<Rightarrow> plan_node result" where
  "transform_sources f (Aggregate source group_by aggregates) = node1 f (\<lambda>s. Aggregate s group_by aggregates) source"
| "transform_sources f (Filter source predicate) = node1 f (\<lambda>s. Filter s predicate) source"
| "transform_sources f (HashJoin l lc r rc outer) = node2 f (\<lambda>l r. HashJoin l lc r rc outer) l r"
| "transform_sources f (IndexLookup t column vs alias) = Ok (IndexLookup t column vs alias)"
| "transform_sources f (KeyLookup t keys alias) = Ok (KeyLookup t keys alias)"
| "transform_sources f (Limit source n) = node1 f (\<lambda>s. Limit s n) source"
| "transform_sources f (NestedLoopJoin l r predicate outer) = node2 f (\<lambda>l r. NestedLoopJoin l r predicate outer) l r"
| "transform_sources f (Nothing labels) = Ok (Nothing labels)"
| "transform_sources f (Offset source n) = node1 f (\<lambda>s. Offset s n) source"
| "transform_sources f (Order source key) = node1 f (\<lambda>s. Order s key) source"
| "transform_sources f (Projection source expressions aliases) = node1 f (\<lambda>s. Projection s expressions aliases) source"
| "transform_sources f (Remap source targets) = node1 f (\<lambda>s. Remap s targets) source"
| "transform_sources f (Scan t flt alias) = Ok (Scan t flt alias)"
| "transform_sources f (Values rows) = Ok (Values rows)"

text \<open>As for expressions, the recursion is bounded by a depth that the callers choose.\<close>

fun transform_node ::
  "nat \<Rightarrow> (plan_node \<Rightarrow> plan_node result) \<Rightarrow> (plan_node \<Rightarrow> plan_node result) \<Rightarrow> plan_node \<Rightarrow> plan_node result" where
  "transform_node 0 pre post n = Panic ''stack overflow''"
| "transform_node (Suc k) pre post n =
     rbind (pre n) (\<lambda>n. rbind (transform_sources (transform_node k pre post) n) post)"

definition transform_expr :: "(expression \<Rightarrow> expression result) \<Rightarrow> (expression \<Rightarrow> expression result) \<Rightarrow> expression \<Rightarrow> expression result" where
  "transform_expr pre post e = transform (stack e) pre post e"

text \<open>Rewrites the expressions of one node, not those of its sources.\<close>

fun transform_expressions ::
  "(expression \<Rightarrow> expression result) \<Rightarrow> (expression \<Rightarrow> expression result) \<Rightarrow> plan_node \<Rightarrow> plan_node result" where
  "transform_expressions pre post (Filter source predicate) =
     rbind (transform_expr pre post predicate) (\<lambda>p. Ok (Filter source p))"
| "transform_expressions pre post (NestedLoopJoin l r (Some predicate) outer) =
     rbind (transform_expr pre post predicate) (\<lambda>p. Ok (NestedLoopJoin l r (Some p) outer))"
| "transform_expressions pre post (Order source key) =
     rbind (map_list_result (\<lambda>(e, dir). rbind (transform_expr pre post e) (\<lambda>e. Ok (e, dir))) key) (\<lambda>key.
       Ok (Order source key))"
| "transform_expressions pre post (Projection source expressions aliases) =
     rbind (map_list_result (transform_expr pre post) expressions) (\<lambda>es. Ok (Projection source es aliases))"
| "transform_expressions pre post (Scan t (Some predicate) alias) =
     rbind (transform_expr pre post predicate) (\<lambda>p. Ok (Scan t (Some p) alias))"
| "transform_expressions pre post (Values rows) =
     rbind (map_list_result (map_list_result (transform_expr pre post)) rows) (\<lambda>rows. Ok (Values rows))"
| "transform_expressions pre post n = Ok n"

end
