(* ===== verification/SqlAst.thy ===== *)
theory SqlAst
  imports SqlPlan
begin

text \<open>
  \<^verbatim>\<open>src/sql/parser/ast.rs\<close>: the syntax tree of a statement and the traversals of expressions. Boxes are
  erased. Equality of expressions is the datatype's: two float literals are equal when their bits are.
\<close>

section \<open>Expressions\<close>

datatype ast_literal =
    LitNull
  | LitBoolean bool
  | LitInteger i64
  | LitFloat f64
  | LitString string

datatype ast_expr =
    AstAll
  | AstColumn "string option" string
  | AstLiteral ast_literal
  | AstFunction string "ast_expr list"
  | AstOperator ast_operator
and ast_operator =
    OpAnd ast_expr ast_expr
  | OpNot ast_expr
  | OpOr ast_expr ast_expr
  | OpEqual ast_expr ast_expr
  | OpGreaterThan ast_expr ast_expr
  | OpGreaterThanOrEqual ast_expr ast_expr
  | OpIs ast_expr ast_literal
  | OpLessThan ast_expr ast_expr
  | OpLessThanOrEqual ast_expr ast_expr
  | OpNotEqual ast_expr ast_expr
  | OpAdd ast_expr ast_expr
  | OpDivide ast_expr ast_expr
  | OpExponentiate ast_expr ast_expr
  | OpFactorial ast_expr
  | OpIdentity ast_expr
  | OpMultiply ast_expr ast_expr
  | OpNegate ast_expr
  | OpRemainder ast_expr ast_expr
  | OpSubtract ast_expr ast_expr
  | OpLike ast_expr ast_expr

section \<open>Statements\<close>

datatype join_type = CrossJoin | InnerJoin | LeftJoin | RightJoin

fun is_outer :: "join_type \<Rightarrow> bool" where
  "is_outer LeftJoin = True"
| "is_outer RightJoin = True"
| "is_outer CrossJoin = False"
| "is_outer InnerJoin = False"

datatype from_item =
    FromTable string "string option"
  | FromJoin from_item from_item join_type "ast_expr option"

record ast_column =
  acol_name :: string
  acol_datatype :: data_type
  acol_primary_key :: bool
  acol_nullable :: "bool option"
  acol_default :: "ast_expr option"
  acol_unique :: bool
  acol_index :: bool
  acol_references :: "string option"

record select_statement =
  sel_select :: "(ast_expr \<times> string option) list"
  sel_from :: "from_item list"
  sel_where :: "ast_expr option"
  sel_group_by :: "ast_expr list"
  sel_having :: "ast_expr option"
  sel_order_by :: "(ast_expr \<times> direction) list"
  sel_offset :: "ast_expr option"
  sel_limit :: "ast_expr option"

datatype statement =
    StBegin bool "u64 option"
  | StCommit
  | StRollback
  | StExplain statement
  | StCreateTable string "ast_column list"
  | StDropTable string bool
  | StDelete string "ast_expr option"
  | StInsert string "string list option" "ast_expr list list"
  | StUpdate string "(string, ast_expr option) btree" "ast_expr option"
  | StSelect select_statement

section \<open>Traversals\<close>

text \<open>The operands of an operator, in the order in which every traversal visits them.\<close>

fun operands :: "ast_operator \<Rightarrow> ast_expr list" where
  "operands (OpAdd l r) = [l, r]"
| "operands (OpAnd l r) = [l, r]"
| "operands (OpDivide l r) = [l, r]"
| "operands (OpEqual l r) = [l, r]"
| "operands (OpExponentiate l r) = [l, r]"
| "operands (OpGreaterThan l r) = [l, r]"
| "operands (OpGreaterThanOrEqual l r) = [l, r]"
| "operands (OpLessThan l r) = [l, r]"
| "operands (OpLessThanOrEqual l r) = [l, r]"
| "operands (OpLike l r) = [l, r]"
| "operands (OpMultiply l r) = [l, r]"
| "operands (OpNotEqual l r) = [l, r]"
| "operands (OpOr l r) = [l, r]"
| "operands (OpRemainder l r) = [l, r]"
| "operands (OpSubtract l r) = [l, r]"
| "operands (OpFactorial e) = [e]"
| "operands (OpIdentity e) = [e]"
| "operands (OpIs e v) = [e]"
| "operands (OpNegate e) = [e]"
| "operands (OpNot e) = [e]"

lemma operands_size [termination_simp]: "e \<in> set (operands op) \<Longrightarrow> size e < Suc (size op)"
  by (cases op) auto

text \<open>
  The visitor is a pure function. The arguments of a function are visited by \<^verbatim>\<open>any\<close>, which stops
  at the first one whose walk returns true and returns false when there is none.
\<close>

fun ast_walk :: "(ast_expr \<Rightarrow> bool) \<Rightarrow> ast_expr \<Rightarrow> bool" where
  "ast_walk visitor (AstOperator op) =
     (visitor (AstOperator op) \<and> list_all (ast_walk visitor) (operands op))"
| "ast_walk visitor (AstFunction name args) =
     (visitor (AstFunction name args) \<and> list_ex (ast_walk visitor) args)"
| "ast_walk visitor AstAll = visitor AstAll"
| "ast_walk visitor (AstColumn table name) = visitor (AstColumn table name)"
| "ast_walk visitor (AstLiteral l) = visitor (AstLiteral l)"

definition ast_contains :: "(ast_expr \<Rightarrow> bool) \<Rightarrow> ast_expr \<Rightarrow> bool" where
  "ast_contains visitor e = (\<not> ast_walk (\<lambda>e. \<not> visitor e) e)"

text \<open>What is appended to the collected expressions.\<close>

fun ast_collect :: "(ast_expr \<Rightarrow> bool) \<Rightarrow> ast_expr \<Rightarrow> ast_expr list" where
  "ast_collect visitor (AstOperator op) =
     (if visitor (AstOperator op) then [AstOperator op]
      else concat (map (ast_collect visitor) (operands op)))"
| "ast_collect visitor (AstFunction name args) =
     (if visitor (AstFunction name args) then [AstFunction name args]
      else concat (map (ast_collect visitor) args))"
| "ast_collect visitor AstAll = (if visitor AstAll then [AstAll] else [])"
| "ast_collect visitor (AstColumn table name) =
     (if visitor (AstColumn table name) then [AstColumn table name] else [])"
| "ast_collect visitor (AstLiteral l) = (if visitor (AstLiteral l) then [AstLiteral l] else [])"

text \<open>The nodes of an expression, as a reference for the traversals.\<close>

fun ast_nodes :: "ast_expr \<Rightarrow> ast_expr list" where
  "ast_nodes (AstOperator op) = AstOperator op # concat (map ast_nodes (operands op))"
| "ast_nodes (AstFunction name args) = AstFunction name args # concat (map ast_nodes args)"
| "ast_nodes e = [e]"

text \<open>The functions in an expression all have at most one argument, and at least one.\<close>

definition unary_functions :: "ast_expr \<Rightarrow> bool" where
  "unary_functions e = list_all (\<lambda>n. case n of AstFunction _ args \<Rightarrow> length args = 1 | _ \<Rightarrow> True) (ast_nodes e)"

lemma ast_collect_nodes: "set (ast_collect v e) \<subseteq> set (ast_nodes e) \<inter> {n. v n}"
  by (induction v e rule: ast_collect.induct) (auto split: if_splits)

lemma ast_collect_Nil: "ast_collect v e = [] \<longleftrightarrow> (\<forall>n\<in>set (ast_nodes e). \<not> v n)"
  by (induction v e rule: ast_collect.induct) (auto split: if_splits)

text \<open>
  \<^verbatim>\<open>walk\<close> visits what it should when every function has one argument; \<^verbatim>\<open>contains\<close> is then membership.
\<close>

lemma ast_walk_nodes: "unary_functions e \<Longrightarrow> ast_walk v e \<longleftrightarrow> (\<forall>n\<in>set (ast_nodes e). v n)"
proof (induction v e rule: ast_walk.induct)
  case (1 v op)
  then show ?case
    by (auto simp: unary_functions_def list_all_iff)
next
  case (2 v name args)
  then show ?case
    by (auto simp: unary_functions_def list_all_iff list_ex_iff length_Suc_conv)
qed auto

lemma ast_contains_nodes: "unary_functions e \<Longrightarrow> ast_contains v e \<longleftrightarrow> (\<exists>n\<in>set (ast_nodes e). v n)"
  by (simp add: ast_contains_def ast_walk_nodes)

text \<open>Otherwise it is not: a function without arguments contains everything.\<close>

lemma ast_contains_no_arguments: "ast_contains v (AstFunction name [])"
  by (simp add: ast_contains_def)

lemma ast_contains_misses_arguments:
  "\<not> v (AstFunction name [a, b]) \<Longrightarrow> \<not> v (AstColumn t c) \<Longrightarrow> a = AstColumn t c \<Longrightarrow>
   \<not> ast_contains v (AstFunction name [a, b])"
  by (simp add: ast_contains_def)

end
