(* ===== verification/SqlOptimizer.thy ===== *)
theory SqlOptimizer
  imports SqlPlan
begin

text \<open>
  \<^verbatim>\<open>src/sql/planner/optimizer.rs\<close> and \<^verbatim>\<open>Plan::optimize\<close>: constant folding, filter pushdown, index
  lookups, hash joins and short-circuiting, in the order in which they are applied. A hash map
  from columns to positions is the lookup in the list of its insertions, the last one first.
\<close>

text \<open>The depth of a plan bounds the recursion of its transformations.\<close>

primrec depth :: "plan_node \<Rightarrow> nat" where
  "depth (Aggregate source group_by aggregates) = Suc (depth source)"
| "depth (Filter source predicate) = Suc (depth source)"
| "depth (HashJoin l lc r rc outer) = Suc (max (depth l) (depth r))"
| "depth (IndexLookup t column vs alias) = 1"
| "depth (KeyLookup t keys alias) = 1"
| "depth (Limit source n) = Suc (depth source)"
| "depth (NestedLoopJoin l r predicate outer) = Suc (max (depth l) (depth r))"
| "depth (Nothing labels) = 1"
| "depth (Offset source n) = Suc (depth source)"
| "depth (Order source key) = Suc (depth source)"
| "depth (Projection source expressions aliases) = Suc (depth source)"
| "depth (Remap source targets) = Suc (depth source)"
| "depth (Scan t flt alias) = 1"
| "depth (Values rows) = 1"

section \<open>Constant folding\<close>

definition is_column :: "expression \<Rightarrow> bool" where
  "is_column e = (case e of Column _ \<Rightarrow> True | _ \<Rightarrow> False)"

definition fold_and :: "expression \<Rightarrow> expression \<Rightarrow> expression" where
  "fold_and l r =
     (if l = Constant (Boolean False) \<or> r = Constant (Boolean False) then Constant (Boolean False)
      else if l = Constant (Boolean True) then r
      else if r = Constant (Boolean True) then l
      else And l r)"

definition fold_or :: "expression \<Rightarrow> expression \<Rightarrow> expression" where
  "fold_or l r =
     (if l = Constant (Boolean True) \<or> r = Constant (Boolean True) then Constant (Boolean True)
      else if l = Constant (Boolean False) then r
      else if r = Constant (Boolean False) then l
      else Or l r)"

definition fold_expr :: "value_ops \<Rightarrow> expression \<Rightarrow> expression result" where
  "fold_expr F e =
     (if \<not> contains is_column e then rbind (evaluate F e None) (\<lambda>v. Ok (Constant v))
      else Ok (case e of And l r \<Rightarrow> fold_and l r | Or l r \<Rightarrow> fold_or l r | _ \<Rightarrow> e))"

definition constant_folding :: "value_ops \<Rightarrow> plan_node \<Rightarrow> plan_node result" where
  "constant_folding F n = transform_node (depth n) (transform_expressions Ok (fold_expr F)) Ok n"

section \<open>Filter pushdown\<close>

definition and_opt :: "expression \<Rightarrow> expression option \<Rightarrow> expression" where
  "and_opt e p = (case p of Some p \<Rightarrow> And e p | None \<Rightarrow> e)"

text \<open>The expression that could not be pushed, and the target.\<close>

fun push_into :: "expression \<Rightarrow> plan_node \<Rightarrow> expression option \<times> plan_node" where
  "push_into e (Filter source predicate) = (None, Filter source (And e predicate))"
| "push_into e (NestedLoopJoin l r predicate outer) = (None, NestedLoopJoin l r (Some (and_opt e predicate)) outer)"
| "push_into e (Scan t flt alias) = (None, Scan t (Some (and_opt e flt)) alias)"
| "push_into e target = (Some e, target)"

text \<open>Whether an expression refers to the left and to the right source.\<close>

definition join_refs :: "nat \<Rightarrow> expression \<Rightarrow> bool \<times> bool" where
  "join_refs n e = snd (walk (\<lambda>e (ref_left, ref_right).
     let refs = (case e of Column i \<Rightarrow> (ref_left \<or> i < n, ref_right \<or> i \<ge> n) | _ \<Rightarrow> (ref_left, ref_right))
     in (\<not> (fst refs \<and> snd refs), refs)) e (False, False))"

fun classify :: "nat \<Rightarrow> expression list \<Rightarrow> expression list \<times> expression list \<times> expression list \<Rightarrow>
    expression list \<times> expression list \<times> expression list" where
  "classify n [] acc = acc"
| "classify n (e # es) (push_left, push_right, predicate) = classify n es (case join_refs n e of
      (True, True) \<Rightarrow> (push_left, push_right, predicate @ [e])
    | (True, False) \<Rightarrow> (push_left @ [e], push_right, predicate)
    | (False, True) \<Rightarrow> (push_left, push_right @ [e], predicate)
    | (False, False) \<Rightarrow> (push_left @ [e], push_right @ [e], predicate))"

definition column_lookups :: "expression list \<Rightarrow> nat \<Rightarrow> nat option" where
  "column_lookups es = map_of (rev (List.map_filter
     (\<lambda>(i, e). map_option (\<lambda>c. (c, i)) (is_column_lookup e)) (enumerate 0 es)))"

text \<open>Copies a lookup on one side of an equijoin to the other side.\<close>

definition copy_lookup ::
  "(nat \<Rightarrow> nat option) \<Rightarrow> (nat \<Rightarrow> nat option) \<Rightarrow> expression \<Rightarrow> expression list \<times> expression list \<Rightarrow> expression list \<times> expression list" where
  "copy_lookup left_lookups right_lookups e pushes = (case e of
      Equal (Column a) (Column b) \<Rightarrow>
        let (l, r) = (if a > b then (b, a) else (a, b));
            (push_left, push_right) = pushes;
            push_right = (case left_lookups l of
              Some i \<Rightarrow> push_right @ [replace_column l r (push_left ! i)] | None \<Rightarrow> push_right);
            push_left = (case right_lookups r of
              Some i \<Rightarrow> push_left @ [replace_column r l (push_right ! i)] | None \<Rightarrow> push_left)
        in (push_left, push_right)
    | _ \<Rightarrow> pushes)"

fun maybe_push_join :: "plan_node \<Rightarrow> plan_node" where
  "maybe_push_join (NestedLoopJoin l r (Some predicate) outer) =
     (let (push_left, push_right, predicate) = classify (columns l) (into_cnf_vec predicate) ([], [], []);
          left_lookups = column_lookups push_left;
          right_lookups = column_lookups push_right;
          (push_left, push_right) = fold (copy_lookup left_lookups right_lookups) predicate (push_left, push_right);
          (l, predicate) = (case and_vec push_left of
              Some e \<Rightarrow> (case push_into e l of
                  (Some e, l) \<Rightarrow> (l, predicate @ [e])
                | (None, l) \<Rightarrow> (l, predicate))
            | None \<Rightarrow> (l, predicate));
          (r, predicate) = (case and_vec push_right of
              Some e \<Rightarrow> (case push_into (shift_column (- int (columns l)) e) r of
                  (Some e, r) \<Rightarrow> (r, predicate @ [shift_column (int (columns l)) e])
                | (None, r) \<Rightarrow> (r, predicate))
            | None \<Rightarrow> (r, predicate))
      in NestedLoopJoin l r (and_vec predicate) outer)"
| "maybe_push_join n = n"

lemma depth_push_into [simp]: "depth (snd (push_into e n)) = depth n"
  by (cases "(e, n)" rule: push_into.cases) simp_all

function push_filters :: "plan_node \<Rightarrow> plan_node" where
  "push_filters n = maybe_push_join (case n of
      Filter source predicate \<Rightarrow> (case push_into predicate source of
          (Some p, s) \<Rightarrow> Filter s p
        | (None, s) \<Rightarrow> push_filters s)
    | _ \<Rightarrow> n)"
  by pat_completeness auto
termination
proof (relation "measure depth")
  fix n source predicate u s assume "n = Filter source predicate" "(u, s) = push_into predicate source"
  then show "(s, n) \<in> measure depth" using depth_push_into [of predicate source] by (metis depth.simps(2) in_measure lessI snd_conv)
qed simp

declare push_filters.simps [simp del]

definition filter_pushdown :: "plan_node \<Rightarrow> plan_node result" where
  "filter_pushdown n = transform_node (depth n) (\<lambda>n. Ok (push_filters n)) Ok n"

section \<open>Index lookups\<close>

text \<open>The first expression that is a lookup of the primary key or of an indexed column.\<close>

fun find_lookup :: "sql_table \<Rightarrow> nat \<Rightarrow> expression list \<Rightarrow> (nat \<times> nat) option result" where
  "find_lookup t i [] = Ok None"
| "find_lookup t i (e # es) = (case is_column_lookup e of
      None \<Rightarrow> find_lookup t (Suc i) es
    | Some c \<Rightarrow> if c = tbl_primary_key t then Ok (Some (i, c))
        else rbind (nth_checked (tbl_columns t) c) (\<lambda>col.
          if col_index col then Ok (Some (i, c)) else find_lookup t (Suc i) es))"

fun lookup_node :: "plan_node \<Rightarrow> plan_node result" where
  "lookup_node (Scan t (Some flt) alias) =
     (let cnf = into_cnf_vec flt in
      rbind (find_lookup t 0 cnf) (\<lambda>found. case found of
        None \<Rightarrow> Ok (Scan t (Some flt) alias)
      | Some (i, column) \<Rightarrow> rbind (into_column_values (cnf ! i) column) (\<lambda>vs.
          let n = (if column = tbl_primary_key t then KeyLookup t vs alias else IndexLookup t column vs alias)
          in Ok (case and_vec (take i cnf @ drop (Suc i) cnf) of
              Some predicate \<Rightarrow> Filter n predicate
            | None \<Rightarrow> n))))"
| "lookup_node n = Ok n"

definition index_lookup :: "plan_node \<Rightarrow> plan_node result" where
  "index_lookup n = transform_node (Suc (depth n)) lookup_node Ok n"

section \<open>Hash joins\<close>

text \<open>The subtraction is on \<^verbatim>\<open>usize\<close> and unchecked.\<close>

fun hash_join :: "plan_node \<Rightarrow> plan_node" where
  "hash_join (NestedLoopJoin l r (Some (Equal lhs rhs)) outer) = (case (lhs, rhs) of
      (Column a, Column b) \<Rightarrow>
        let (lc, rc) = (if b < a then (b, a) else (a, b))
        in HashJoin l lc r (unat (word_of_nat rc - word_of_nat (columns l) :: u64)) outer
    | _ \<Rightarrow> NestedLoopJoin l r (Some (Equal lhs rhs)) outer)"
| "hash_join n = n"

definition hash_joins :: "plan_node \<Rightarrow> plan_node result" where
  "hash_joins n = transform_node (depth n) (\<lambda>n. Ok (hash_join n)) Ok n"

section \<open>Short-circuiting\<close>

definition is_nothing :: "plan_node \<Rightarrow> bool" where
  "is_nothing n = (case n of Nothing _ \<Rightarrow> True | _ \<Rightarrow> False)"

definition never_true :: "expression \<Rightarrow> bool" where
  "never_true e = (e = Constant (Boolean False) \<or> e = Constant Null)"

fun drop_useless :: "plan_node \<Rightarrow> plan_node" where
  "drop_useless (Filter source predicate) =
     (if predicate = Constant (Boolean True) then source else Filter source predicate)"
| "drop_useless (Scan t flt alias) =
     (if flt = Some (Constant (Boolean True)) then Scan t None alias else Scan t flt alias)"
| "drop_useless (NestedLoopJoin l r predicate outer) =
     (if predicate = Some (Constant (Boolean True)) then NestedLoopJoin l r None outer
      else NestedLoopJoin l r predicate outer)"
| "drop_useless (Projection source expressions aliases) =
     (if columns source = length expressions \<and> list_all (\<lambda>a. a = NoLabel) aliases \<and>
         list_all (\<lambda>(i, e). e = Column i) (enumerate 0 expressions)
      then source else Projection source expressions aliases)"
| "drop_useless n = n"

fun is_empty_node :: "plan_node \<Rightarrow> bool" where
  "is_empty_node (Filter source predicate) = (never_true predicate \<or> is_nothing source)"
| "is_empty_node (IndexLookup t column vs alias) = (vs = [])"
| "is_empty_node (KeyLookup t keys alias) = (keys = [])"
| "is_empty_node (Limit source n) = (n = 0)"
| "is_empty_node (NestedLoopJoin l r predicate outer) =
     ((case predicate of Some p \<Rightarrow> never_true p | None \<Rightarrow> False) \<or> is_nothing l \<or> is_nothing r)"
| "is_empty_node (Scan t flt alias) = (case flt of Some p \<Rightarrow> never_true p | None \<Rightarrow> False)"
| "is_empty_node (Values rows) = (rows = [])"
| "is_empty_node (HashJoin l lc r rc outer) = (is_nothing l \<or> is_nothing r)"
| "is_empty_node (Offset source n) = is_nothing source"
| "is_empty_node (Order source key) = is_nothing source"
| "is_empty_node (Projection source expressions aliases) = is_nothing source"
| "is_empty_node n = False"

definition short_circuit :: "plan_node \<Rightarrow> plan_node result" where
  "short_circuit n = (let n = drop_useless n in
     if is_empty_node n
     then rbind (map_list_result (column_label n) [0..<columns n]) (\<lambda>labels. Ok (Nothing labels))
     else Ok n)"

definition short_circuits :: "plan_node \<Rightarrow> plan_node result" where
  "short_circuits n = transform_node (depth n) Ok short_circuit n"

section \<open>The optimizer\<close>

definition optimize_node :: "value_ops \<Rightarrow> plan_node \<Rightarrow> plan_node result" where
  "optimize_node F n =
     rbind (constant_folding F n) (\<lambda>n.
     rbind (filter_pushdown n) (\<lambda>n.
     rbind (index_lookup n) (\<lambda>n.
     rbind (hash_joins n) short_circuits)))"

fun optimize :: "value_ops \<Rightarrow> plan \<Rightarrow> plan result" where
  "optimize F (CreateTable schema) = Ok (CreateTable schema)"
| "optimize F (DropTable name if_exists) = Ok (DropTable name if_exists)"
| "optimize F (Delete t pk source) = rbind (optimize_node F source) (\<lambda>s. Ok (Delete t pk s))"
| "optimize F (Insert t column_map source) = rbind (optimize_node F source) (\<lambda>s. Ok (Insert t column_map s))"
| "optimize F (Update t pk source exprs) = rbind (optimize_node F source) (\<lambda>s. Ok (Update t pk s exprs))"
| "optimize F (Select source) = rbind (optimize_node F source) (\<lambda>n. Ok (Select n))"

section \<open>The depth of plans\<close>

lemma depth_pos [simp]: "0 < depth n"
  by (cases n) simp_all

lemma transform_node_enough:
  assumes "\<And>n n'. pre n = Ok n' \<Longrightarrow> depth n' \<le> depth n" "depth n \<le> k"
  shows "transform_node k pre post n = transform_node (depth n) pre post n"
  using assms(2)
proof (induction "depth n" arbitrary: n k rule: less_induct)
  case less
  obtain j where k: "k = Suc j" using less.prems depth_pos [of n] by (cases k) simp_all
  obtain i where i: "depth n = Suc i" using depth_pos [of n] by (cases "depth n") simp_all
  have "transform_sources (transform_node j pre post) m = transform_sources (transform_node i pre post) m" if "pre n = Ok m" for m
  proof -
    have m: "depth m \<le> Suc i" using assms(1) [OF that] i by simp
    have "transform_node j pre post s = transform_node i pre post s" if "depth s \<le> i" for s
      using less.hyps [of s j] less.hyps [of s i] that i k less.prems by simp
    with m show ?thesis by (cases m) (simp_all add: node1_def node2_def)
  qed
  then show ?case by (cases "pre n") (simp_all add: i k)
qed

lemma maybe_push_join_depth [simp]: "depth (maybe_push_join n) = depth n"
  by (cases n rule: maybe_push_join.cases)
    (auto simp: Let_def split: prod.splits option.splits dest!: arg_cong [of "push_into _ _" _ "\<lambda>x. depth (snd x)"])

lemma push_filters_depth: "depth (push_filters n) \<le> depth n"
proof (induction n rule: push_filters.induct)
  case (1 n)
  show ?case
  proof (cases n)
    case (Filter source predicate)
    have d: "depth (snd (push_into predicate source)) = depth source" by simp
    show ?thesis
    proof (cases "push_into predicate source")
      case (Pair rest s)
      with 1 [OF Filter Pair [symmetric]] Filter d show ?thesis
        by (subst push_filters.simps) (cases rest; simp)
    qed
  qed (subst push_filters.simps, simp)+
qed

lemma transform_expressions_depth: "transform_expressions pre post n = Ok m \<Longrightarrow> depth m = depth n"
  by (induction pre post n rule: transform_expressions.induct) (auto simp: rbind_eq_Ok)

text \<open>The bounds of the passes are enough: a larger one changes nothing.\<close>

lemma passes_bounded:
  assumes "depth n \<le> k"
  shows "transform_node k (transform_expressions Ok (fold_expr F)) Ok n = constant_folding F n"
    "transform_node k (\<lambda>n. Ok (push_filters n)) Ok n = filter_pushdown n"
    "transform_node k (\<lambda>n. Ok (hash_join n)) Ok n = hash_joins n"
    "transform_node k Ok short_circuit n = short_circuits n"
proof -
  show "transform_node k (\<lambda>n. Ok (push_filters n)) Ok n = filter_pushdown n"
    unfolding filter_pushdown_def using assms push_filters_depth by (intro transform_node_enough) auto
  show "transform_node k Ok short_circuit n = short_circuits n"
    unfolding short_circuits_def using assms by (intro transform_node_enough) auto
  have "depth (hash_join m) = depth m" for m
    by (cases m rule: hash_join.cases) (auto simp: Let_def split: expression.splits)
  then show "transform_node k (\<lambda>n. Ok (hash_join n)) Ok n = hash_joins n"
    unfolding hash_joins_def using assms by (intro transform_node_enough) auto
  show "transform_node k (transform_expressions Ok (fold_expr F)) Ok n = constant_folding F n"
    unfolding constant_folding_def using assms by (intro transform_node_enough) (auto dest: transform_expressions_depth)
qed

lemma index_lookup_bounded:
  assumes "Suc (depth n) \<le> k"
  shows "transform_node k lookup_node Ok n = index_lookup n"
  using assms unfolding index_lookup_def
proof (induction "depth n" arbitrary: n k rule: less_induct)
  case less
  obtain j where k: "k = Suc (Suc j)" using less.prems depth_pos [of n] by (cases k rule: nat.exhaust; metis Suc_le_D Suc_le_mono depth_pos gr0_conv_Suc)
  obtain i where i: "depth n = Suc i" using depth_pos [of n] by (cases "depth n") simp_all
  have source: "transform_node (Suc j) lookup_node Ok s = transform_node (Suc i) lookup_node Ok s" if "depth s \<le> i" for s
    using less.hyps [of s "Suc j"] less.hyps [of s "Suc i"] that i k less.prems by simp
  show ?case
  proof (cases "\<exists>t flt alias. n = Scan t (Some flt) alias")
    case True
    then show ?thesis by (auto simp: k i Let_def rbind_def node1_def split: result.splits option.splits if_splits)
  next
    case False
    then have "lookup_node n = Ok n" by (cases n rule: lookup_node.cases) auto
    with i source show ?thesis by (cases n) (simp_all add: k i node1_def node2_def del: lookup_node.simps)
  qed
qed

section \<open>Constant folding preserves evaluation\<close>

lemma contains_column: "contains is_column e \<longleftrightarrow> columns_of e \<noteq> {}"
proof (induction e rule: expression_children_induct)
  case (step e)
  have "is_column e \<longleftrightarrow> (\<exists>i. e = Column i)" by (cases e) (simp_all add: is_column_def)
  with step.IH contains_iff [of is_column e] show ?case by (cases e) auto
qed

lemma fold_and_sound:
  "eval2 eval_and (evaluate F l row) (evaluate F r row) = Ok v \<Longrightarrow> evaluate F (fold_and l r) row = Ok v"
  by (drule and_operands, clarify) (auto simp: fold_and_def kleene split: if_splits)

lemma fold_or_sound:
  "eval2 eval_or (evaluate F l row) (evaluate F r row) = Ok v \<Longrightarrow> evaluate F (fold_or l r) row = Ok v"
  by (drule or_operands, clarify) (auto simp: fold_or_def kleene split: if_splits)

lemma fold_expr_sound:
  assumes "evaluate F e row = Ok v"
  shows "\<exists>e'. fold_expr F e = Ok e' \<and> evaluate F e' row = Ok v"
proof (cases "columns_of e = {}")
  case True
  with assms have "evaluate F e None = Ok v"
    using evaluate_columns [of e None row F] by simp
  with True show ?thesis by (simp add: fold_expr_def contains_column)
next
  case False
  with assms show ?thesis
    by (cases e) (simp_all add: fold_expr_def contains_column fold_and_sound fold_or_sound)
qed

interpretation folding: sound_rewrite F row Ok "fold_expr F" for F row
  by unfold_locales (auto simp: fold_expr_sound children_smaller)

section \<open>Properties\<close>

text \<open>
  Property C29. Constant folding of an expression that evaluates on a row succeeds, and the folded
  expression evaluates to the same value on that row; in particular the rules for a constant
  operand of a logical operator respect the three-valued logic.
\<close>

theorem folding_evaluates:
  assumes "evaluate F e row = Ok v"
  shows "\<exists>e'. transform (Suc (size e)) Ok (fold_expr F) e = Ok e' \<and> evaluate F e' row = Ok v"
  using folding.transform_sound [OF assms, of "Suc (size e)"] by simp

section \<open>Witnesses\<close>

text \<open>\<^verbatim>\<open>a AND (1 = 2)\<close>.\<close>

theorem folding_evaluates_witness:
  "\<exists>e'. transform 3 Ok (fold_expr demo_ops) (And (Column 0) (Equal (Constant (Integer 1)) (Constant (Integer 2)))) = Ok e' \<and>
    evaluate demo_ops e' (Some [Null]) = Ok (Boolean False)"
proof -
  let ?e = "And (Column 0) (Equal (Constant (Integer 1)) (Constant (Integer 2)))"
  have "evaluate demo_ops ?e (Some [Null]) = Ok (Boolean False)" by code_simp
  from folding_evaluates [OF this] show ?thesis by (simp add: numeral_eq_Suc)
qed

end
