(* ===== verification/SqlPlanner.thy ===== *)
theory SqlPlanner
  imports SqlAst SqlOptimizer "HOL-Library.AList"
begin

text \<open>
  \<^verbatim>\<open>src/sql/planner/planner.rs\<close>: scopes, and the plan of a statement. The catalog is the function that
  looks up a table. The hash maps of a scope are association lists; nothing depends on their order.
\<close>

section \<open>Scopes\<close>

record scope =
  sc_columns :: "label list"
  sc_tables :: "string set"
  sc_qualified :: "((string \<times> string) \<times> nat) list"
  sc_unqualified :: "(string \<times> nat list) list"
  sc_aggregates :: "(ast_expr \<times> nat) list"
  sc_hidden :: "nat set"

definition scope_new :: scope where
  "scope_new = \<lparr>sc_columns = [], sc_tables = {}, sc_qualified = [], sc_unqualified = [], sc_aggregates = [], sc_hidden = {}\<rparr>"

definition scope_spawn :: "scope \<Rightarrow> scope" where
  "scope_spawn s = scope_new\<lparr>sc_tables := sc_tables s\<rparr>"

text \<open>\<^verbatim>\<open>entry(key).or_insert(value)\<close>.\<close>

definition or_insert :: "'k \<Rightarrow> 'v \<Rightarrow> ('k \<times> 'v) list \<Rightarrow> ('k \<times> 'v) list" where
  "or_insert k v m = (if map_of m k = None then (k, v) # m else m)"

text \<open>\<^verbatim>\<open>entry(key).or_default().push(value)\<close>.\<close>

definition push_entry :: "'k \<Rightarrow> 'v \<Rightarrow> ('k \<times> 'v list) list \<Rightarrow> ('k \<times> 'v list) list" where
  "push_entry k v m = AList.update k ((case map_of m k of Some vs \<Rightarrow> vs | None \<Rightarrow> []) @ [v]) m"

text \<open>The index of the new column is the number of columns there were.\<close>

definition add_column :: "label \<Rightarrow> scope \<Rightarrow> scope" where
  "add_column label s =
     (let index = length (sc_columns s);
          s = (case label of
            Qualified table column \<Rightarrow> s\<lparr>sc_qualified := AList.update (table, column) index (sc_qualified s)\<rparr>
          | _ \<Rightarrow> s);
          s = (case label of
            Qualified _ name \<Rightarrow> s\<lparr>sc_unqualified := push_entry name index (sc_unqualified s)\<rparr>
          | Unqualified name \<Rightarrow> s\<lparr>sc_unqualified := push_entry name index (sc_unqualified s)\<rparr>
          | NoLabel \<Rightarrow> s)
      in s\<lparr>sc_columns := sc_columns s @ [label]\<rparr>)"

definition add_table :: "sql_table \<Rightarrow> string option \<Rightarrow> scope \<Rightarrow> scope result" where
  "add_table t alias s =
     (let name = (case alias of Some a \<Rightarrow> a | None \<Rightarrow> tbl_name t)
      in if name \<in> sc_tables s then errinput ''duplicate table name {name}''
         else let s = fold (\<lambda>c. add_column (Qualified name (col_name c))) (tbl_columns t) s
              in Ok (s\<lparr>sc_tables := insert name (sc_tables s)\<rparr>))"

definition from_table :: "sql_table \<Rightarrow> scope result" where
  "from_table t = add_table t None scope_new"

definition column_not_found :: "scope \<Rightarrow> 'a result" where
  "column_not_found s =
     (if sc_aggregates s \<noteq> [] then errinput ''column {} must be used in an aggregate or GROUP BY expression''
      else errinput ''unknown column {}'')"

definition scope_lookup_column :: "scope \<Rightarrow> string option \<Rightarrow> string \<Rightarrow> nat result" where
  "scope_lookup_column s table name =
     (if sc_columns s = [] then errinput ''expression must be constant, found column {}''
      else case table of
        Some table \<Rightarrow>
          if table \<notin> sc_tables s then errinput ''unknown table {table}''
          else (case map_of (sc_qualified s) (table, name) of
              Some index \<Rightarrow> Ok index
            | None \<Rightarrow> column_not_found s)
      | None \<Rightarrow> (case map_of (sc_unqualified s) name of
            Some indexes \<Rightarrow> if length indexes > 1 then errinput ''ambiguous column {name}'' else nth_checked indexes 0
          | None \<Rightarrow> column_not_found s))"

definition lookup_aggregate :: "scope \<Rightarrow> ast_expr \<Rightarrow> nat option" where
  "lookup_aggregate s e = map_of (sc_aggregates s) e"

text \<open>The label of a plain column, when it can be looked up.\<close>

definition passed_label :: "scope \<Rightarrow> ast_expr \<Rightarrow> label result" where
  "passed_label s e = (case e of
      AstColumn table name \<Rightarrow> (case scope_lookup_column s table name of
          Ok index \<Rightarrow> nth_checked (sc_columns s) index
        | Err _ \<Rightarrow> Ok NoLabel
        | Panic p \<Rightarrow> Panic p)
    | _ \<Rightarrow> Ok NoLabel)"

text \<open>The result tells whether the expression was added.\<close>

definition add_aggregate :: "scope \<Rightarrow> ast_expr \<Rightarrow> scope \<Rightarrow> (bool \<times> scope) result" where
  "add_aggregate parent e s =
     (if map_of (sc_aggregates s) e \<noteq> None then Ok (False, s)
      else rbind (passed_label parent e) (\<lambda>label.
        let index = length (sc_columns s); s = add_column label s
        in Ok (True, s\<lparr>sc_aggregates := (e, index) # sc_aggregates s\<rparr>)))"

definition add_passthrough :: "scope \<Rightarrow> nat \<Rightarrow> bool \<Rightarrow> scope \<Rightarrow> scope result" where
  "add_passthrough parent parent_index hide s =
     rbind (nth_checked (sc_columns parent) parent_index) (\<lambda>label.
       let index = length (sc_columns s); s = add_column label s;
           s = s\<lparr>sc_aggregates := fold (\<lambda>(e, i) m. if i = parent_index then or_insert e index m else m)
                (sc_aggregates parent) (sc_aggregates s)\<rparr>
       in Ok (if hide \<or> parent_index \<in> sc_hidden parent then s\<lparr>sc_hidden := insert index (sc_hidden s)\<rparr> else s))"

definition scope_merge :: "scope \<Rightarrow> scope \<Rightarrow> scope result" where
  "scope_merge child s =
     (if sc_tables child \<inter> sc_tables s \<noteq> {} then errinput ''duplicate table name {table}''
      else let offset = length (sc_columns s);
               s = s\<lparr>sc_tables := sc_tables s \<union> sc_tables child\<rparr>;
               s = fold add_column (sc_columns child) s
           in Ok (s\<lparr>sc_aggregates := fold (\<lambda>(e, i). or_insert e (i + offset)) (sc_aggregates child) (sc_aggregates s),
                    sc_hidden := sc_hidden s \<union> (\<lambda>i. i + offset) ` sc_hidden child\<rparr>))"

text \<open>The label of a projected expression: its alias, or that of the column it passes through.\<close>

definition projected_label :: "scope \<Rightarrow> ast_expr \<times> string option \<Rightarrow> label result" where
  "projected_label s x = (case x of
      (_, Some alias) \<Rightarrow> Ok (Unqualified alias)
    | (e, None) \<Rightarrow> passed_label s e)"

definition project_one :: "scope \<Rightarrow> ast_expr \<times> string option \<Rightarrow> scope \<Rightarrow> scope result" where
  "project_one s x child = rbind (projected_label s x) (\<lambda>label.
     let index = length (sc_columns child); child = add_column label child
     in Ok (if sc_aggregates s \<noteq> []
            then child\<lparr>sc_aggregates := or_insert (fst x) index (sc_aggregates child)\<rparr> else child))"

fun project_all :: "scope \<Rightarrow> (ast_expr \<times> string option) list \<Rightarrow> scope \<Rightarrow> scope result" where
  "project_all s [] child = Ok child"
| "project_all s (x # xs) child = rbind (project_one s x child) (project_all s xs)"

definition scope_project :: "scope \<Rightarrow> (ast_expr \<times> string option) list \<Rightarrow> scope result" where
  "scope_project s expressions = project_all s expressions (scope_spawn s)"

text \<open>\<^verbatim>\<open>plan::invert_remap\<close>.\<close>

definition invert_remap :: "nat option list \<Rightarrow> nat option list" where
  "invert_remap targets =
     fold (\<lambda>(i, t) sources. case t of Some j \<Rightarrow> sources[j := Some i] | None \<Rightarrow> sources)
       (enumerate 0 targets) (replicate (remap_size targets) None)"

fun pass_through_all :: "scope \<Rightarrow> nat option list \<Rightarrow> scope \<Rightarrow> scope result" where
  "pass_through_all parent [] s = Ok s"
| "pass_through_all parent (None # is) s = pass_through_all parent is s"
| "pass_through_all parent (Some i # is) s = rbind (add_passthrough parent i False s) (pass_through_all parent is)"

definition scope_remap :: "scope \<Rightarrow> nat option list \<Rightarrow> scope result" where
  "scope_remap s targets = pass_through_all s (invert_remap targets) (scope_spawn s)"

text \<open>Removes the elements whose index is in a set.\<close>

definition retain_indexes :: "nat set \<Rightarrow> 'a list \<Rightarrow> 'a list" where
  "retain_indexes hidden xs = map snd (filter (\<lambda>(i, _). i \<notin> hidden) (enumerate 0 xs))"

definition remove_hidden :: "scope \<Rightarrow> scope \<times> nat set option" where
  "remove_hidden s =
     (if sc_hidden s = {} then (s, None)
      else let hidden = sc_hidden s in
        (s\<lparr>sc_hidden := {},
           sc_columns := retain_indexes hidden (sc_columns s),
           sc_qualified := filter (\<lambda>(_, i). i \<notin> hidden) (sc_qualified s),
           sc_unqualified := filter (\<lambda>(_, is). is \<noteq> [])
             (map (\<lambda>(name, is). (name, filter (\<lambda>i. i \<notin> hidden) is)) (sc_unqualified s)),
           sc_aggregates := filter (\<lambda>(_, i). i \<notin> hidden) (sc_aggregates s)\<rparr>,
         Some hidden))"

text \<open>The columns that are kept are numbered from \<open>index\<close>.\<close>

fun visible_targets :: "nat set \<Rightarrow> nat \<Rightarrow> nat \<Rightarrow> nat \<Rightarrow> nat option list" where
  "visible_targets hidden old index 0 = []"
| "visible_targets hidden old index (Suc n) =
     (if old \<notin> hidden then Some index # visible_targets hidden (Suc old) (Suc index) n
      else None # visible_targets hidden (Suc old) index n)"

definition remap_hidden :: "scope \<Rightarrow> scope \<times> nat option list option" where
  "remap_hidden s =
     (let size = length (sc_columns s) in
      case remove_hidden s of
        (s, Some hidden) \<Rightarrow> (s, Some (visible_targets hidden 0 0 size))
      | (s, None) \<Rightarrow> (s, None))"

section \<open>Expressions\<close>

fun literal_value :: "ast_literal \<Rightarrow> sql_value" where
  "literal_value LitNull = Null"
| "literal_value (LitBoolean b) = Boolean b"
| "literal_value (LitInteger i) = Integer i"
| "literal_value (LitFloat f) = Float f"
| "literal_value (LitString s) = Str s"

definition is_value :: "ast_literal \<Rightarrow> sql_value result" where
  "is_value l = (case l of
      LitNull \<Rightarrow> Ok Null
    | LitFloat f \<Rightarrow> if f64_is_nan f then Ok (Float f) else Panic ''invalid IS value {value:?}''
    | _ \<Rightarrow> Panic ''invalid IS value {value:?}'')"

definition built1 :: "expression result \<Rightarrow> (expression \<Rightarrow> expression) \<Rightarrow> expression result" where
  "built1 r c = rbind r (\<lambda>e. Ok (c e))"

definition built2 :: "expression result \<Rightarrow> expression result \<Rightarrow> (expression \<Rightarrow> expression \<Rightarrow> expression) \<Rightarrow> expression result" where
  "built2 l r c = rbind l (\<lambda>l. rbind r (\<lambda>r. Ok (c l r)))"

text \<open>
  The operands of \<open>>=\<close> and \<open><=\<close> are built twice, with the same outcome.
\<close>

fun build_expression :: "scope \<Rightarrow> ast_expr \<Rightarrow> expression result" where
  "build_expression s AstAll = (case lookup_aggregate s AstAll of
      Some index \<Rightarrow> Ok (Column index) | None \<Rightarrow> errinput ''unsupported use of *'')"
| "build_expression s (AstLiteral l) = (case lookup_aggregate s (AstLiteral l) of
      Some index \<Rightarrow> Ok (Column index) | None \<Rightarrow> Ok (Constant (literal_value l)))"
| "build_expression s (AstColumn table name) = (case lookup_aggregate s (AstColumn table name) of
      Some index \<Rightarrow> Ok (Column index)
    | None \<Rightarrow> rbind (scope_lookup_column s table name) (\<lambda>i. Ok (Column i)))"
| "build_expression s (AstFunction name args) = (case lookup_aggregate s (AstFunction name args) of
      Some index \<Rightarrow> Ok (Column index)
    | None \<Rightarrow> (case args of
        [arg] \<Rightarrow> if name = ''sqrt'' then built1 (build_expression s arg) SquareRoot
                 else errinput ''unknown function {name} with {n} arguments''
      | _ \<Rightarrow> errinput ''unknown function {name} with {n} arguments''))"
| "build_expression s (AstOperator op) = (case lookup_aggregate s (AstOperator op) of
      Some index \<Rightarrow> Ok (Column index)
    | None \<Rightarrow> (case op of
        OpAnd l r \<Rightarrow> built2 (build_expression s l) (build_expression s r) And
      | OpNot e \<Rightarrow> built1 (build_expression s e) ENot
      | OpOr l r \<Rightarrow> built2 (build_expression s l) (build_expression s r) Or
      | OpEqual l r \<Rightarrow> built2 (build_expression s l) (build_expression s r) Equal
      | OpGreaterThan l r \<Rightarrow> built2 (build_expression s l) (build_expression s r) GreaterThan
      | OpGreaterThanOrEqual l r \<Rightarrow>
          built2 (build_expression s l) (build_expression s r) (\<lambda>l r. Or (GreaterThan l r) (Equal l r))
      | OpIs e v \<Rightarrow> rbind (build_expression s e) (\<lambda>e. rbind (is_value v) (\<lambda>v. Ok (Is e v)))
      | OpLessThan l r \<Rightarrow> built2 (build_expression s l) (build_expression s r) LessThan
      | OpLessThanOrEqual l r \<Rightarrow>
          built2 (build_expression s l) (build_expression s r) (\<lambda>l r. Or (LessThan l r) (Equal l r))
      | OpNotEqual l r \<Rightarrow> built2 (build_expression s l) (build_expression s r) (\<lambda>l r. ENot (Equal l r))
      | OpAdd l r \<Rightarrow> built2 (build_expression s l) (build_expression s r) Add
      | OpDivide l r \<Rightarrow> built2 (build_expression s l) (build_expression s r) Divide
      | OpExponentiate l r \<Rightarrow> built2 (build_expression s l) (build_expression s r) Exponentiate
      | OpFactorial e \<Rightarrow> built1 (build_expression s e) Factorial
      | OpIdentity e \<Rightarrow> built1 (build_expression s e) Identity
      | OpMultiply l r \<Rightarrow> built2 (build_expression s l) (build_expression s r) Multiply
      | OpNegate e \<Rightarrow> built1 (build_expression s e) Negate
      | OpRemainder l r \<Rightarrow> built2 (build_expression s l) (build_expression s r) Remainder
      | OpSubtract l r \<Rightarrow> built2 (build_expression s l) (build_expression s r) Subtract
      | OpLike l r \<Rightarrow> built2 (build_expression s l) (build_expression s r) Like))"

definition build_constant_value :: "value_ops \<Rightarrow> ast_expr \<Rightarrow> sql_value result" where
  "build_constant_value F e = rbind (build_expression scope_new e) (\<lambda>e. evaluate F e None)"

section \<open>Aggregates\<close>

definition is_aggregate_function :: "ast_expr \<Rightarrow> bool" where
  "is_aggregate_function e = (case e of
      AstFunction name _ \<Rightarrow> name \<in> set [''avg'', ''count'', ''max'', ''min'', ''sum'']
    | _ \<Rightarrow> False)"

definition collect_aggregates ::
  "(ast_expr \<times> string option) list \<Rightarrow> ast_expr option \<Rightarrow> (ast_expr \<times> direction) list \<Rightarrow> ast_expr list" where
  "collect_aggregates select having order_by =
     concat (map (ast_collect is_aggregate_function)
       (map fst select @ (case having of Some e \<Rightarrow> [e] | None \<Rightarrow> []) @ map fst order_by))"

definition build_aggregate_function :: "scope \<Rightarrow> ast_expr \<Rightarrow> aggregate result" where
  "build_aggregate_function s e = (case e of
      AstFunction name args \<Rightarrow> (case args of
          [arg] \<Rightarrow>
            if ast_contains is_aggregate_function arg then errinput ''aggregate functions can't be nested''
            else rbind (if name = ''count'' \<and> arg = AstAll then Ok (Constant (Boolean True)) else build_expression s arg)
              (\<lambda>e.
                if name = ''avg'' then Ok (Average e)
                else if name = ''count'' then Ok (Count e)
                else if name = ''min'' then Ok (MinOf e)
                else if name = ''max'' then Ok (MaxOf e)
                else if name = ''sum'' then Ok (Sum e)
                else errinput ''unknown aggregate function {name}'')
        | _ \<Rightarrow> errinput ''{name} takes 1 argument'')
    | _ \<Rightarrow> Panic ''aggregate expression must be function'')"

text \<open>Adds the expressions that are not in the scope yet, and keeps those.\<close>

fun add_aggregates :: "scope \<Rightarrow> ast_expr list \<Rightarrow> scope \<Rightarrow> (ast_expr list \<times> scope) result" where
  "add_aggregates parent [] s = Ok ([], s)"
| "add_aggregates parent (e # es) s =
     rbind (add_aggregate parent e s) (\<lambda>(added, s).
     rbind (add_aggregates parent es s) (\<lambda>(kept, s).
     Ok (if added then e # kept else kept, s)))"

definition build_aggregate ::
  "plan_node \<Rightarrow> ast_expr list \<Rightarrow> ast_expr list \<Rightarrow> scope \<Rightarrow> (plan_node \<times> scope) result" where
  "build_aggregate source group_by aggregates s =
     rbind (add_aggregates s group_by (scope_spawn s)) (\<lambda>(group_by, child).
     rbind (add_aggregates s aggregates child) (\<lambda>(aggregates, child).
     rbind (map_list_result (build_expression s) group_by) (\<lambda>group_by.
     rbind (map_list_result (build_aggregate_function s) aggregates) (\<lambda>aggregates.
     Ok (Aggregate source group_by aggregates, child)))))"

section \<open>Hidden columns\<close>

text \<open>
  \<^verbatim>\<open>Expression::walk\<close> with a visitor that has a state: its operands are walked while the walks return true,
  the arguments of a function until one does.
\<close>

lemma size_list_operands: "size_list size (operands op) \<le> Suc (size op)"
  by (cases op) auto

function (sequential)
  walk_state :: "(ast_expr \<Rightarrow> 's \<Rightarrow> bool \<times> 's) \<Rightarrow> ast_expr \<Rightarrow> 's \<Rightarrow> bool \<times> 's"
and walk_every :: "(ast_expr \<Rightarrow> 's \<Rightarrow> bool \<times> 's) \<Rightarrow> ast_expr list \<Rightarrow> 's \<Rightarrow> bool \<times> 's"
and walk_some :: "(ast_expr \<Rightarrow> 's \<Rightarrow> bool \<times> 's) \<Rightarrow> ast_expr list \<Rightarrow> 's \<Rightarrow> bool \<times> 's"
where
  "walk_state v e s = (case v e s of
      (True, s) \<Rightarrow> (case e of
          AstOperator op \<Rightarrow> walk_every v (operands op) s
        | AstFunction name args \<Rightarrow> walk_some v args s
        | _ \<Rightarrow> (True, s))
    | (False, s) \<Rightarrow> (False, s))"
| "walk_every v [] s = (True, s)"
| "walk_every v (e # es) s = (case walk_state v e s of
      (True, s) \<Rightarrow> walk_every v es s
    | (False, s) \<Rightarrow> (False, s))"
| "walk_some v [] s = (False, s)"
| "walk_some v (e # es) s = (case walk_state v e s of
      (True, s) \<Rightarrow> (True, s)
    | (False, s) \<Rightarrow> walk_some v es s)"
  by pat_completeness auto
termination
proof (relation "measure (\<lambda>x. case x of
    Inl (v, e, s) \<Rightarrow> 2 * size e + 1
  | Inr (Inl (v, es, s)) \<Rightarrow> 2 * size_list size es
  | Inr (Inr (v, es, s)) \<Rightarrow> 2 * size_list size es)")
  show "wf (measure (\<lambda>x. case x of
    Inl (v, e, s) \<Rightarrow> 2 * size e + 1
  | Inr (Inl (v, es, s)) \<Rightarrow> 2 * size_list size es
  | Inr (Inr (v, es, s)) \<Rightarrow> 2 * size_list size es))" by simp
qed (auto intro: order.strict_trans1 [OF mult_le_mono2 [OF size_list_operands]])

text \<open>
  One step of \<^verbatim>\<open>build_select_hidden\<close>; the state is the child scope, the hidden expressions, and the
  panic of an index out of bounds when there was one.
\<close>

type_synonym hidden_state = "(scope \<times> expression list) result"

definition hide_column :: "scope \<Rightarrow> nat \<Rightarrow> scope \<Rightarrow> expression list \<Rightarrow> hidden_state" where
  "hide_column s index child hidden = rbind (add_passthrough s index True child) (\<lambda>child. Ok (child, hidden @ [Column index]))"

definition visit_hidden :: "scope \<Rightarrow> ast_expr \<Rightarrow> hidden_state \<Rightarrow> bool \<times> hidden_state" where
  "visit_hidden s e st = (True, rbind st (\<lambda>(child, hidden).
     case (lookup_aggregate s e, lookup_aggregate child e) of
       (Some index, None) \<Rightarrow> hide_column s index child hidden
     | _ \<Rightarrow> (case e of
         AstColumn table name \<Rightarrow> (case scope_lookup_column child table name of
             Ok _ \<Rightarrow> Ok (child, hidden)
           | Panic p \<Rightarrow> Panic p
           | Err _ \<Rightarrow> (case scope_lookup_column s table name of
               Ok index \<Rightarrow> hide_column s index child hidden
             | Panic p \<Rightarrow> Panic p
             | Err _ \<Rightarrow> Ok (child, hidden)))
       | _ \<Rightarrow> Ok (child, hidden))))"

fun walk_hidden :: "scope \<Rightarrow> ast_expr list \<Rightarrow> hidden_state \<Rightarrow> hidden_state" where
  "walk_hidden s [] st = st"
| "walk_hidden s (e # es) st = walk_hidden s es (snd (walk_state (visit_hidden s) e st))"

definition build_select_hidden ::
  "ast_expr option \<Rightarrow> (ast_expr \<times> direction) list \<Rightarrow> scope \<Rightarrow> scope \<Rightarrow> hidden_state" where
  "build_select_hidden having order_by s child =
     walk_hidden s ((case having of Some e \<Rightarrow> [e] | None \<Rightarrow> []) @ map fst order_by) (Ok (child, []))"

section \<open>FROM\<close>

type_synonym catalog = "string \<Rightarrow> sql_table option result"

text \<open>\<^verbatim>\<open>Catalog::must_get_table\<close>.\<close>

definition catalog_table :: "catalog \<Rightarrow> string \<Rightarrow> sql_table result" where
  "catalog_table C name = rbind (C name) (\<lambda>t. case t of
     Some t \<Rightarrow> Ok t | None \<Rightarrow> errinput ''table {table} does not exist'')"

definition build_optional :: "scope \<Rightarrow> ast_expr option \<Rightarrow> expression option result" where
  "build_optional s e = (case e of
      None \<Rightarrow> Ok None
    | Some e \<Rightarrow> rbind (build_expression s e) (\<lambda>e. Ok (Some e)))"

text \<open>The node of a join and its scope; a right join is a left join whose columns are then swapped.\<close>

definition swap_targets :: "nat \<Rightarrow> nat \<Rightarrow> nat option list" where
  "swap_targets left_size right_size =
     map (\<lambda>i. Some ((i + right_size) mod (left_size + right_size))) [0..<left_size + right_size]"

definition join_nodes ::
  "join_type \<Rightarrow> ast_expr option \<Rightarrow> plan_node \<Rightarrow> plan_node \<Rightarrow> scope \<Rightarrow> (plan_node \<times> scope) result" where
  "join_nodes type predicate left right s =
     rbind (build_optional s predicate) (\<lambda>predicate.
       let node = NestedLoopJoin left right predicate (is_outer type)
       in if type = RightJoin
          then let targets = swap_targets (columns left) (columns right)
               in rbind (scope_remap s targets) (\<lambda>s. Ok (Remap node targets, s))
          else Ok (node, s))"

text \<open>Each item is built in a scope of its own, which is then merged into its parent.\<close>

definition merge_into :: "scope \<Rightarrow> plan_node \<times> scope \<Rightarrow> (plan_node \<times> scope) result" where
  "merge_into parent x = rbind (scope_merge (snd x) parent) (\<lambda>parent. Ok (fst x, parent))"

fun build_from :: "catalog \<Rightarrow> from_item \<Rightarrow> scope \<Rightarrow> (plan_node \<times> scope) result" where
  "build_from C (FromTable name alias) parent =
     rbind (rbind (catalog_table C name) (\<lambda>t.
            rbind (add_table t alias scope_new) (\<lambda>s. Ok (Scan t None alias, s))))
       (merge_into parent)"
| "build_from C (FromJoin l r type predicate) parent =
     rbind (if type = RightJoin
            then rbind (build_from C r scope_new) (\<lambda>(left, s).
                 rbind (build_from C l s) (\<lambda>(right, s). join_nodes type predicate left right s))
            else rbind (build_from C l scope_new) (\<lambda>(left, s).
                 rbind (build_from C r s) (\<lambda>(right, s). join_nodes type predicate left right s)))
       (merge_into parent)"

fun build_from_rest :: "catalog \<Rightarrow> from_item list \<Rightarrow> plan_node \<Rightarrow> scope \<Rightarrow> (plan_node \<times> scope) result" where
  "build_from_rest C [] node s = Ok (node, s)"
| "build_from_rest C (item # items) node s = rbind (build_from C item s) (\<lambda>(right, s).
     build_from_rest C items (NestedLoopJoin node right None False) s)"

fun build_from_clause :: "catalog \<Rightarrow> from_item list \<Rightarrow> scope \<Rightarrow> (plan_node \<times> scope) result" where
  "build_from_clause C [] s = errinput ''no from items given''"
| "build_from_clause C (item # items) s = rbind (build_from C item s) (\<lambda>(node, s).
     build_from_rest C items node s)"

section \<open>SELECT\<close>

text \<open>\<^verbatim>\<open>From<Label> for ast::Expression\<close>.\<close>

fun label_expression :: "label \<Rightarrow> ast_expr result" where
  "label_expression (Qualified table column) = Ok (AstColumn (Some table) column)"
| "label_expression (Unqualified column) = Ok (AstColumn None column)"
| "label_expression NoLabel = Panic ''can't convert None label to AST expression''"

definition alias_label :: "string option \<Rightarrow> label" where
  "alias_label name = (case name of Some a \<Rightarrow> Unqualified a | None \<Rightarrow> NoLabel)"

definition all_columns :: "plan_node \<Rightarrow> (ast_expr \<times> string option) list result" where
  "all_columns node = map_list_result (\<lambda>i. rbind (column_label node i) (\<lambda>label.
     rbind (label_expression label) (\<lambda>e. Ok (e, None)))) [0..<columns node]"

text \<open>Every \<^verbatim>\<open>*\<close> is replaced by the columns of the node.\<close>

fun expand_select :: "plan_node \<Rightarrow> (ast_expr \<times> string option) list \<Rightarrow> (ast_expr \<times> string option) list result" where
  "expand_select node [] = Ok []"
| "expand_select node ((e, alias) # xs) =
     rbind (if e = AstAll then all_columns node else Ok [(e, alias)]) (\<lambda>ys.
     rbind (expand_select node xs) (\<lambda>zs. Ok (ys @ zs)))"

definition expand_star ::
  "plan_node \<Rightarrow> ast_expr list \<Rightarrow> (ast_expr \<times> string option) list \<Rightarrow> (ast_expr \<times> string option) list result" where
  "expand_star node group_by select =
     (if (AstAll, None) \<in> set select
      then if columns node = 0 then errinput ''SELECT * requires a FROM clause''
           else if length select > 1 \<or> group_by \<noteq> [] then expand_select node select
           else Ok select
      else Ok select)"

text \<open>The clauses of a SELECT, each of which takes the node and the scope so far.\<close>

definition from_step :: "catalog \<Rightarrow> select_statement \<Rightarrow> (plan_node \<times> scope) result" where
  "from_step C q = (if sel_from q \<noteq> [] then build_from_clause C (sel_from q) scope_new
     else Ok (Values [[]], scope_new))"

definition where_step :: "select_statement \<Rightarrow> plan_node \<Rightarrow> scope \<Rightarrow> plan_node result" where
  "where_step q node s = (case sel_where q of
      Some e \<Rightarrow> rbind (build_expression s e) (\<lambda>p. Ok (Filter node p))
    | None \<Rightarrow> Ok node)"

definition aggregate_step ::
  "select_statement \<Rightarrow> (ast_expr \<times> string option) list \<Rightarrow> plan_node \<Rightarrow> scope \<Rightarrow> (plan_node \<times> scope) result" where
  "aggregate_step q select node s =
     (let aggregates = collect_aggregates select (sel_having q) (sel_order_by q)
      in if sel_group_by q \<noteq> [] \<or> aggregates \<noteq> [] then build_aggregate node (sel_group_by q) aggregates s
         else Ok (node, s))"

definition project_step ::
  "select_statement \<Rightarrow> (ast_expr \<times> string option) list \<Rightarrow> plan_node \<Rightarrow> scope \<Rightarrow> (plan_node \<times> scope) result" where
  "project_step q select node s =
     (if select = [(AstAll, None)] then Ok (node, s)
      else rbind (scope_project s select) (\<lambda>child.
           rbind (map_list_result (build_expression s) (map fst select)) (\<lambda>expressions.
           rbind (build_select_hidden (sel_having q) (sel_order_by q) s child) (\<lambda>(child, hidden).
           Ok (Projection node (expressions @ hidden)
                 (map (alias_label \<circ> snd) select @ replicate (length hidden) NoLabel), child)))))"

definition having_step :: "select_statement \<Rightarrow> plan_node \<Rightarrow> scope \<Rightarrow> plan_node result" where
  "having_step q node s = (case sel_having q of
      Some e \<Rightarrow> if sc_aggregates s = [] then errinput ''HAVING requires GROUP BY or aggregate function''
                else rbind (build_expression s e) (\<lambda>p. Ok (Filter node p))
    | None \<Rightarrow> Ok node)"

definition order_step :: "select_statement \<Rightarrow> plan_node \<Rightarrow> scope \<Rightarrow> plan_node result" where
  "order_step q node s =
     (if sel_order_by q = [] then Ok node
      else rbind (map_list_result (\<lambda>(e, dir). rbind (build_expression s e) (\<lambda>e. Ok (e, dir))) (sel_order_by q))
        (\<lambda>key. Ok (Order node key)))"

text \<open>A constant that is a non-negative integer.\<close>

definition build_count :: "value_ops \<Rightarrow> string \<Rightarrow> ast_expr \<Rightarrow> nat result" where
  "build_count F msg e = rbind (build_constant_value F e) (\<lambda>v. case v of
      Integer n \<Rightarrow> if sint n \<ge> 0 then Ok (nat (sint n)) else errinput msg
    | _ \<Rightarrow> errinput msg)"

definition offset_step :: "value_ops \<Rightarrow> select_statement \<Rightarrow> plan_node \<Rightarrow> plan_node result" where
  "offset_step F q node = (case sel_offset q of
      Some e \<Rightarrow> rbind (build_count F ''invalid offset {offset}'' e) (\<lambda>n. Ok (Offset node n))
    | None \<Rightarrow> Ok node)"

definition limit_step :: "value_ops \<Rightarrow> select_statement \<Rightarrow> plan_node \<Rightarrow> plan_node result" where
  "limit_step F q node = (case sel_limit q of
      Some e \<Rightarrow> rbind (build_count F ''invalid limit {limit}'' e) (\<lambda>n. Ok (Limit node n))
    | None \<Rightarrow> Ok node)"

definition hidden_step :: "plan_node \<Rightarrow> scope \<Rightarrow> plan_node" where
  "hidden_step node s = (case snd (remap_hidden s) of
      Some targets \<Rightarrow> Remap node targets
    | None \<Rightarrow> node)"

definition build_select :: "value_ops \<Rightarrow> catalog \<Rightarrow> select_statement \<Rightarrow> plan result" where
  "build_select F C q =
     rbind (from_step C q) (\<lambda>(node, s).
     rbind (expand_star node (sel_group_by q) (sel_select q)) (\<lambda>select.
     rbind (where_step q node s) (\<lambda>node.
     rbind (aggregate_step q select node s) (\<lambda>(node, s).
     rbind (project_step q select node s) (\<lambda>(node, s).
     rbind (having_step q node s) (\<lambda>node.
     rbind (order_step q node s) (\<lambda>node.
     rbind (offset_step F q node) (\<lambda>node.
     rbind (limit_step F q node) (\<lambda>node.
     Ok (Select (hidden_step node s)))))))))))"

section \<open>Other statements\<close>

definition build_column :: "value_ops \<Rightarrow> ast_column \<Rightarrow> sql_column result" where
  "build_column F c =
     (let nullable = (case acol_nullable c of Some b \<Rightarrow> b | None \<Rightarrow> \<not> acol_primary_key c) in
      rbind (case acol_default c of
          Some e \<Rightarrow> rbind (build_constant_value F e) (\<lambda>v. Ok (Some v))
        | None \<Rightarrow> Ok (if nullable then Some Null else None)) (\<lambda>default.
      Ok \<lparr>col_name = acol_name c, col_datatype = acol_datatype c, col_nullable = nullable,
          col_default = default, col_unique = acol_unique c \<or> acol_primary_key c,
          col_index = (acol_index c \<or> acol_unique c \<or> acol_references c \<noteq> None) \<and> \<not> acol_primary_key c,
          col_references = acol_references c\<rparr>))"

definition build_create_table :: "value_ops \<Rightarrow> string \<Rightarrow> ast_column list \<Rightarrow> plan result" where
  "build_create_table F name cs = (case position acol_primary_key cs of
      None \<Rightarrow> errinput ''no primary key for table {name}''
    | Some primary_key \<Rightarrow>
        if length (filter acol_primary_key cs) > 1 then errinput ''multiple primary keys for table {name}''
        else rbind (map_list_result (build_column F) cs) (\<lambda>cs.
          Ok (CreateTable \<lparr>tbl_name = name, tbl_primary_key = primary_key, tbl_columns = cs\<rparr>)))"

definition build_drop_table :: "string \<Rightarrow> bool \<Rightarrow> plan result" where
  "build_drop_table name if_exists = Ok (DropTable name if_exists)"

definition build_delete :: "catalog \<Rightarrow> string \<Rightarrow> ast_expr option \<Rightarrow> plan result" where
  "build_delete C table w =
     rbind (catalog_table C table) (\<lambda>t.
     rbind (from_table t) (\<lambda>s.
     rbind (build_optional s w) (\<lambda>predicate.
     Ok (Delete (tbl_name t) (tbl_primary_key t) (Scan t predicate None)))))"

text \<open>The indexes of the named columns, each with the index of its value.\<close>

fun build_column_map :: "sql_table \<Rightarrow> nat \<Rightarrow> string list \<Rightarrow> (nat \<times> nat) list \<Rightarrow> (nat \<times> nat) list result" where
  "build_column_map t vindex [] m = Ok m"
| "build_column_map t vindex (name # names) m = (case position (\<lambda>c. col_name c = name) (tbl_columns t) of
      None \<Rightarrow> errinput ''unknown column {name} in table {table}''
    | Some cindex \<Rightarrow>
        if map_of m cindex \<noteq> None then errinput ''column {name} given multiple times''
        else build_column_map t (Suc vindex) names ((cindex, vindex) # m))"

definition build_insert :: "catalog \<Rightarrow> string \<Rightarrow> string list option \<Rightarrow> ast_expr list list \<Rightarrow> plan result" where
  "build_insert C table names rows =
     rbind (catalog_table C table) (\<lambda>t.
     rbind (case names of
         Some names \<Rightarrow> rbind (build_column_map t 0 names []) (\<lambda>m. Ok (Some m))
       | None \<Rightarrow> Ok None) (\<lambda>column_map.
     rbind (map_list_result (map_list_result (build_expression scope_new)) rows) (\<lambda>rows.
     Ok (Insert t column_map (Values rows)))))"

definition build_assignment :: "sql_table \<Rightarrow> scope \<Rightarrow> string \<times> ast_expr option \<Rightarrow> (nat \<times> expression) result" where
  "build_assignment t s x =
     rbind (scope_lookup_column s None (fst x)) (\<lambda>index.
     rbind (case snd x of
         Some e \<Rightarrow> build_expression s e
       | None \<Rightarrow> rbind (nth_checked (tbl_columns t) index) (\<lambda>c. case col_default c of
             Some v \<Rightarrow> Ok (Constant v)
           | None \<Rightarrow> errinput ''column {column} has no default value'')) (\<lambda>e.
     Ok (index, e)))"

definition build_update :: "catalog \<Rightarrow> string \<Rightarrow> (string, ast_expr option) btree \<Rightarrow> ast_expr option \<Rightarrow> plan result" where
  "build_update C table updates w =
     rbind (catalog_table C table) (\<lambda>t.
     rbind (from_table t) (\<lambda>s.
     rbind (build_optional s w) (\<lambda>predicate.
     rbind (map_list_result (build_assignment t s) updates) (\<lambda>expressions.
     Ok (Update t (tbl_primary_key t) (Scan t predicate None) expressions)))))"

text \<open>\<^verbatim>\<open>Planner::build\<close>.\<close>

fun plan_build :: "value_ops \<Rightarrow> catalog \<Rightarrow> statement \<Rightarrow> plan result" where
  "plan_build F C (StCreateTable name cs) = build_create_table F name cs"
| "plan_build F C (StDropTable name if_exists) = build_drop_table name if_exists"
| "plan_build F C (StDelete table w) = build_delete C table w"
| "plan_build F C (StInsert table names rows) = build_insert C table names rows"
| "plan_build F C (StUpdate table updates w) = build_update C table updates w"
| "plan_build F C (StSelect q) = build_select F C q"
| "plan_build F C _ = Panic ''unexpected statement {statement:?}''"

end
