(* ===== verification/SqlJoin.thy ===== *)
theory SqlJoin
  imports SqlNormal
begin

text \<open>
  \<^verbatim>\<open>src/sql/execution/join.rs\<close>: the nested loop and hash join iterators. A row iterator is the
  list of the items it still yields, each a row or an error. An iterator's \<^verbatim>\<open>next\<close> is an operation
  on its state; \<open>drain\<close> is what a consumer sees. The hash map finds an entry whose key feeds the
  hasher the same input and compares equal; collisions of the hash function are not modelled.
\<close>

type_synonym rows = "sql_row result list"

section \<open>Iterators\<close>

text \<open>The items of an iterator until it returns \<^verbatim>\<open>None\<close>, at most \<open>n\<close> of them; a panic ends it.\<close>

fun drain :: "nat \<Rightarrow> ('s, 'a option) op \<Rightarrow> 's \<Rightarrow> 'a result list option" where
  "drain 0 step s = None"
| "drain (Suc n) step s = (case step s of
      (Ok None, s') \<Rightarrow> Some []
    | (Ok (Some x), s') \<Rightarrow> map_option ((#) (Ok x)) (drain n step s')
    | (Err e, s') \<Rightarrow> map_option ((#) (Err e)) (drain n step s')
    | (Panic p, s') \<Rightarrow> Some [Panic p])"

definition yields :: "('s, 'a option) op \<Rightarrow> 's \<Rightarrow> 'a result list \<Rightarrow> bool" where
  "yields step s items = (\<exists>n. \<forall>m\<ge>n. drain m step s = Some items)"

text \<open>\<^verbatim>\<open>next().transpose()?\<close> on a source.\<close>

fun next_row :: "(rows, sql_row option) op" where
  "next_row [] = (Ok None, [])"
| "next_row (Ok r # rs) = (Ok (Some r), rs)"
| "next_row (Err e # rs) = (Err e, rs)"
| "next_row (Panic p # rs) = (Panic p, rs)"

section \<open>Nested loop join\<close>

record nested_loop_joiner =
  nlj_left :: rows
  nlj_right :: rows
  nlj_right_original :: rows
  nlj_right_columns :: nat
  nlj_right_matched :: bool
  nlj_predicate :: "expression option"
  nlj_outer :: bool

definition nlj_new :: "rows \<Rightarrow> rows \<Rightarrow> nat \<Rightarrow> expression option \<Rightarrow> bool \<Rightarrow> nested_loop_joiner" where
  "nlj_new left right right_columns predicate outer =
     \<lparr>nlj_left = left, nlj_right = right, nlj_right_original = right, nlj_right_columns = right_columns,
      nlj_right_matched = False, nlj_predicate = predicate, nlj_outer = outer\<rparr>"

text \<open>Whether a joined row satisfies the predicate.\<close>

definition join_matches :: "value_ops \<Rightarrow> expression option \<Rightarrow> sql_row \<Rightarrow> bool result" where
  "join_matches F predicate row = (case predicate of
      None \<Rightarrow> Ok True
    | Some p \<Rightarrow> rbind (evaluate F p (Some row)) (\<lambda>v. case v of
        Boolean b \<Rightarrow> Ok b
      | Null \<Rightarrow> Ok False
      | _ \<Rightarrow> Err (InvalidInput ''join predicate returned {v}, expected boolean'')))"

text \<open>The inner loop: the next match in the remaining right rows.\<close>

fun right_match :: "value_ops \<Rightarrow> expression option \<Rightarrow> sql_row \<Rightarrow> rows \<Rightarrow> sql_row option result \<times> rows" where
  "right_match F predicate l [] = (Ok None, [])"
| "right_match F predicate l (Ok r # rs) = (case join_matches F predicate (l @ r) of
      Ok True \<Rightarrow> (Ok (Some (l @ r)), rs)
    | Ok False \<Rightarrow> right_match F predicate l rs
    | Err e \<Rightarrow> (Err e, rs)
    | Panic p \<Rightarrow> (Panic p, rs))"
| "right_match F predicate l (Err e # rs) = (Err e, rs)"
| "right_match F predicate l (Panic p # rs) = (Panic p, rs)"

definition null_row :: "sql_row \<Rightarrow> nat \<Rightarrow> sql_row" where
  "null_row l n = l @ replicate n Null"

function nlj_try_next :: "value_ops \<Rightarrow> (nested_loop_joiner, sql_row option) op" where
  "nlj_try_next F j = (case nlj_left j of
      Ok l # ls \<Rightarrow> (case right_match F (nlj_predicate j) l (nlj_right j) of
          (Ok (Some row), rs) \<Rightarrow> (Ok (Some row), j\<lparr>nlj_right := rs, nlj_right_matched := True\<rparr>)
        | (Ok None, rs) \<Rightarrow>
            if \<not> nlj_right_matched j \<and> nlj_outer j
            then (Ok (Some (null_row l (nlj_right_columns j))), j\<lparr>nlj_right := rs, nlj_right_matched := True\<rparr>)
            else nlj_try_next F (j\<lparr>nlj_left := ls, nlj_right := nlj_right_original j, nlj_right_matched := False\<rparr>)
        | (Err e, rs) \<Rightarrow> (Err e, j\<lparr>nlj_right := rs\<rparr>)
        | (Panic p, rs) \<Rightarrow> (Panic p, j\<lparr>nlj_right := rs\<rparr>))
    | items \<Rightarrow> (case next_row items of (r, ls) \<Rightarrow> (r, j\<lparr>nlj_left := ls\<rparr>)))"
  by pat_completeness auto
termination by (relation "measure (\<lambda>(_, j). length (nlj_left j))") auto

declare nlj_try_next.simps [simp del]

section \<open>Hash join\<close>

definition key_match :: "sql_value \<Rightarrow> sql_value \<Rightarrow> bool" where
  "key_match a b = (hash_input a = hash_input b \<and> value_eq a b)"

type_synonym row_table = "(sql_value \<times> sql_row list) list"

fun table_get :: "row_table \<Rightarrow> sql_value \<Rightarrow> sql_row list option" where
  "table_get [] k = None"
| "table_get ((k', rows) # m) k = (if key_match k k' then Some rows else table_get m k)"

text \<open>\<^verbatim>\<open>entry(value).or_default().push(row)\<close>.\<close>

fun table_push :: "row_table \<Rightarrow> sql_value \<Rightarrow> sql_row \<Rightarrow> row_table" where
  "table_push [] k row = [(k, [row])]"
| "table_push ((k', rows) # m) k row =
     (if key_match k k' then (k', rows @ [row]) # m else (k', rows) # table_push m k row)"

record hash_joiner =
  hj_left :: rows
  hj_left_column :: nat
  hj_right :: row_table
  hj_right_columns :: nat
  hj_outer :: bool
  hj_pending :: rows

fun build_table :: "nat \<Rightarrow> row_table \<Rightarrow> rows \<Rightarrow> row_table result" where
  "build_table c m [] = Ok m"
| "build_table c m (Ok row # rs) =
     (if c < length row
      then (if is_undefined (row ! c) then build_table c m rs else build_table c (table_push m (row ! c) row) rs)
      else Panic ''index out of bounds'')"
| "build_table c m (Err e # rs) = Err e"
| "build_table c m (Panic p # rs) = Panic p"

definition hj_new :: "rows \<Rightarrow> nat \<Rightarrow> rows \<Rightarrow> nat \<Rightarrow> nat \<Rightarrow> bool \<Rightarrow> hash_joiner result" where
  "hj_new left left_column right right_column right_columns outer =
     rbind (build_table right_column [] right) (\<lambda>m. Ok
       \<lparr>hj_left = left, hj_left_column = left_column, hj_right = m, hj_right_columns = right_columns,
        hj_outer = outer, hj_pending = []\<rparr>)"

text \<open>The loop over the left source.\<close>

function hj_left_loop :: "(hash_joiner, sql_row option) op" where
  "hj_left_loop j = (case hj_left j of
      Ok l # ls \<Rightarrow> let j = j\<lparr>hj_left := ls\<rparr> in
        if \<not> hj_left_column j < length l then (Panic ''index out of bounds'', j)
        else (case table_get (hj_right j) (l ! hj_left_column j) of
          Some rows \<Rightarrow> (case next_row (map (\<lambda>r. Ok (l @ r)) rows) of (r, pending) \<Rightarrow> (r, j\<lparr>hj_pending := pending\<rparr>))
        | None \<Rightarrow> if hj_outer j then (Ok (Some (null_row l (hj_right_columns j))), j) else hj_left_loop j)
    | items \<Rightarrow> (case next_row items of (r, ls) \<Rightarrow> (r, j\<lparr>hj_left := ls\<rparr>)))"
  by pat_completeness auto
termination by (relation "measure (\<lambda>j. length (hj_left j))") auto

declare hj_left_loop.simps [simp del]

definition hj_try_next :: "(hash_joiner, sql_row option) op" where
  "hj_try_next j = (case next_row (hj_pending j) of
      (Ok (Some row), pending) \<Rightarrow> (Ok (Some row), j\<lparr>hj_pending := pending\<rparr>)
    | (Ok None, pending) \<Rightarrow> hj_left_loop (j\<lparr>hj_pending := pending\<rparr>)
    | (Err e, pending) \<Rightarrow> (Err e, j\<lparr>hj_pending := pending\<rparr>)
    | (Panic p, pending) \<Rightarrow> (Panic p, j\<lparr>hj_pending := pending\<rparr>))"

section \<open>What a consumer sees\<close>

lemma yields_stop: "step s = (Ok None, s') \<Longrightarrow> yields step s []"
  unfolding yields_def by (rule exI [of _ 1]) (auto simp: Suc_le_eq gr0_conv_Suc)

lemma yields_panic: "step s = (Panic p, s') \<Longrightarrow> yields step s [Panic p]"
  unfolding yields_def by (rule exI [of _ 1]) (auto simp: Suc_le_eq gr0_conv_Suc)

lemma yields_step:
  assumes "yields step s' items" "step s = (r, s')" "r = Ok (Some x) \<and> i = Ok x \<or> r = Err e \<and> i = Err e"
  shows "yields step s (i # items)"
proof -
  from assms(1) obtain n where n: "\<And>m. m \<ge> n \<Longrightarrow> drain m step s' = Some items"
    unfolding yields_def by blast
  have "drain m step s = Some (i # items)" if "m \<ge> Suc n" for m
    using that n [of "m - 1"] assms(2,3) by (cases m) auto
  then show ?thesis unfolding yields_def by blast
qed

lemma yields_row: "yields step s' items \<Longrightarrow> step s = (Ok (Some x), s') \<Longrightarrow> yields step s (Ok x # items)"
  by (rule yields_step) auto

lemma yields_err: "yields step s' items \<Longrightarrow> step s = (Err e, s') \<Longrightarrow> yields step s (Err e # items)"
  by (rule yields_step) auto

lemma yields_same: "step s = step s' \<Longrightarrow> yields step s items = yields step s' items"
proof -
  assume "step s = step s'"
  then have "drain m step s = drain m step s'" for m by (cases m) (simp_all only: drain.simps)
  then show ?thesis by (simp add: yields_def)
qed

text \<open>An iterator is exhausted after one call more than it has items.\<close>

lemma drain_enough: "drain m step s = Some items \<Longrightarrow> length items < k \<Longrightarrow> drain k step s = Some items"
proof (induction m arbitrary: s items k)
  case (Suc m)
  then obtain k' where k: "k = Suc k'" by (cases k) auto
  obtain r s' where step: "step s = (r, s')" by (cases "step s")
  have IH: "drain k' step s' = drain m step s'" if "length items' < k'" "drain m step s' = Some items'" for items'
    using Suc.IH [OF that(2,1)] that(2) by simp
  consider x where "r = Ok (Some x)" | "r = Ok None" | e where "r = Err e" | q where "r = Panic q"
    by (metis option.exhaust result.exhaust)
  then show ?case
  proof cases
    case 1
    with Suc.prems step k show ?thesis by (force simp: IH)
  next
    case 3
    with Suc.prems step k show ?thesis by (force simp: IH)
  qed (use Suc.prems step k in simp_all)
qed simp

lemma yields_drain: "yields step s items \<Longrightarrow> length items < k \<Longrightarrow> drain k step s = Some items"
proof -
  assume "yields step s items" "length items < k"
  moreover from this(1) obtain n where "drain n step s = Some items" by (auto simp: yields_def)
  ultimately show ?thesis by (blast intro: drain_enough)
qed

section \<open>The nested loop join as a list\<close>

definition right_item :: "value_ops \<Rightarrow> expression option \<Rightarrow> sql_row \<Rightarrow> sql_row result \<Rightarrow> rows" where
  "right_item F predicate l item =
     (case rbind item (\<lambda>r. rbind (join_matches F predicate (l @ r)) (\<lambda>b. Ok (b, r))) of
       Ok (b, r) \<Rightarrow> if b then [Ok (l @ r)] else []
     | Err e \<Rightarrow> [Err e]
     | Panic p \<Rightarrow> [Panic p])"

text \<open>What one left row contributes, when \<open>matched\<close> tells whether it was already joined.\<close>

definition left_items :: "value_ops \<Rightarrow> expression option \<Rightarrow> bool \<Rightarrow> nat \<Rightarrow> bool \<Rightarrow> sql_row \<Rightarrow> rows \<Rightarrow> rows" where
  "left_items F predicate outer n matched l rs =
     (let items = concat (map (right_item F predicate l) rs)
      in items @ (if outer \<and> \<not> matched \<and> (\<forall>r. Ok r \<notin> set items) then [Ok (null_row l n)] else []))"

definition nested_loop :: "value_ops \<Rightarrow> expression option \<Rightarrow> bool \<Rightarrow> nat \<Rightarrow> rows \<Rightarrow> rows \<Rightarrow> rows" where
  "nested_loop F predicate outer n left right =
     concat (map (\<lambda>item. case item of
        Ok l \<Rightarrow> left_items F predicate outer n False l right
      | Err e \<Rightarrow> [Err e]
      | Panic p \<Rightarrow> [Panic p]) left)"

text \<open>A panic is the last thing that is seen.\<close>

fun until_panic :: "'a result list \<Rightarrow> 'a result list" where
  "until_panic [] = []"
| "until_panic (Panic p # items) = [Panic p]"
| "until_panic (item # items) = item # until_panic items"

lemma until_panic_id: "(\<And>p. Panic p \<notin> set items) \<Longrightarrow> until_panic items = items"
  by (induction items rule: until_panic.induct) auto

lemma until_panic_append: "until_panic (xs @ ys) = (if \<exists>p. Panic p \<in> set xs then until_panic xs else xs @ until_panic ys)"
  by (induction xs rule: until_panic.induct) auto

lemma nlj_try_next_left:
  "nlj_try_next F (j\<lparr>nlj_left := Ok l # ls, nlj_right := rs, nlj_right_matched := b\<rparr>) =
     (case right_match F (nlj_predicate j) l rs of
        (Ok (Some row), rs) \<Rightarrow> (Ok (Some row), j\<lparr>nlj_left := Ok l # ls, nlj_right := rs, nlj_right_matched := True\<rparr>)
      | (Ok None, rs) \<Rightarrow>
          if \<not> b \<and> nlj_outer j
          then (Ok (Some (null_row l (nlj_right_columns j))), j\<lparr>nlj_left := Ok l # ls, nlj_right := rs, nlj_right_matched := True\<rparr>)
          else nlj_try_next F (j\<lparr>nlj_left := ls, nlj_right := nlj_right_original j, nlj_right_matched := False\<rparr>)
      | (Err e, rs) \<Rightarrow> (Err e, j\<lparr>nlj_left := Ok l # ls, nlj_right := rs, nlj_right_matched := b\<rparr>)
      | (Panic p, rs) \<Rightarrow> (Panic p, j\<lparr>nlj_left := Ok l # ls, nlj_right := rs, nlj_right_matched := b\<rparr>))"
  by (subst nlj_try_next.simps) (cases j; auto split: prod.splits result.splits option.splits)

lemma left_items_Nil: "left_items F p outer n b l [] = (if outer \<and> \<not> b then [Ok (null_row l n)] else [])"
  by (simp add: left_items_def)

lemma left_items_Cons:
  "right_item F p l item = [Ok r] \<Longrightarrow> left_items F p outer n b l (item # rs) = Ok r # left_items F p outer n True l rs"
  "right_item F p l item = [] \<Longrightarrow> left_items F p outer n b l (item # rs) = left_items F p outer n b l rs"
  "right_item F p l item = [Err e] \<Longrightarrow> left_items F p outer n b l (item # rs) = Err e # left_items F p outer n b l rs"
  by (auto simp: left_items_def Let_def)

text \<open>Each right item is skipped, joined or passed on as a failure by the inner loop.\<close>

lemma right_match_cases:
  obtains (row) row where "right_item F p l item = [Ok row]" "right_match F p l (item # rs) = (Ok (Some row), rs)"
  | (skip) "right_item F p l item = []" "right_match F p l (item # rs) = right_match F p l rs"
  | (err) e where "right_item F p l item = [Err e]" "right_match F p l (item # rs) = (Err e, rs)"
  | (panic) q where "right_item F p l item = [Panic q]" "right_match F p l (item # rs) = (Panic q, rs)"
proof (cases item)
  case (Ok r)
  show thesis
  proof (cases "join_matches F p (l @ r)")
    case m: (Ok b)
    with Ok that(1,2) show thesis by (cases b) (auto simp: right_item_def)
  qed (use Ok that in \<open>auto simp: right_item_def\<close>)
qed (use that in \<open>auto simp: right_item_def\<close>)

lemma nlj_left_yields:
  fixes j F l rs ls
  defines "p \<equiv> nlj_predicate j" and "outer \<equiv> nlj_outer j" and "n \<equiv> nlj_right_columns j"
  assumes tail: "yields (nlj_try_next F) (j\<lparr>nlj_left := ls, nlj_right := nlj_right_original j, nlj_right_matched := False\<rparr>)
      (until_panic items)"
  shows "yields (nlj_try_next F) (j\<lparr>nlj_left := Ok l # ls, nlj_right := rs, nlj_right_matched := b\<rparr>)
    (until_panic (left_items F p outer n b l rs @ items))"
proof (induction rs arbitrary: b)
  case Nil
  let ?s = "\<lambda>b. j\<lparr>nlj_left := Ok l # ls, nlj_right := [], nlj_right_matched := b\<rparr>"
  have fin: "yields (nlj_try_next F) (?s b) (until_panic items)" if "\<not> (outer \<and> \<not> b)" for b
    using tail that
    by (subst yields_same [of _ _ "j\<lparr>nlj_left := ls, nlj_right := nlj_right_original j, nlj_right_matched := False\<rparr>"])
      (auto simp: outer_def nlj_try_next_left)
  show ?case
  proof (cases "outer \<and> \<not> b")
    case True
    then have "nlj_try_next F (?s b) = (Ok (Some (null_row l n)), ?s True)"
      by (simp add: nlj_try_next_left outer_def n_def)
    from yields_row [OF fin this] True show ?thesis by (simp add: left_items_Nil)
  qed (auto simp: fin left_items_Nil)
next
  case (Cons item rs)
  let ?s = "\<lambda>b rs. j\<lparr>nlj_left := Ok l # ls, nlj_right := rs, nlj_right_matched := b\<rparr>"
  show ?case
  proof (cases rule: right_match_cases [where F = F and p = p and l = l and item = item and rs = rs])
    case (row row)
    then have "nlj_try_next F (?s b (item # rs)) = (Ok (Some row), ?s True rs)"
      by (simp add: nlj_try_next_left p_def)
    from yields_row [OF Cons.IH this] row show ?thesis by (simp add: left_items_Cons)
  next
    case skip
    then have "nlj_try_next F (?s b (item # rs)) = nlj_try_next F (?s b rs)"
      by (simp add: nlj_try_next_left p_def)
    from yields_same [of "nlj_try_next F", OF this] skip Cons show ?thesis by (simp add: left_items_Cons)
  next
    case (err e)
    then have "nlj_try_next F (?s b (item # rs)) = (Err e, ?s b rs)"
      by (simp add: nlj_try_next_left p_def)
    from yields_err [OF Cons.IH this] err show ?thesis by (simp add: left_items_Cons)
  next
    case (panic q)
    then have "nlj_try_next F (?s b (item # rs)) = (Panic q, ?s b rs)"
      by (simp add: nlj_try_next_left p_def)
    from yields_panic [of "nlj_try_next F", OF this] panic show ?thesis by (simp add: left_items_def Let_def)
  qed
qed

lemma length_right_items: "length (concat (map (right_item F p l) rs)) \<le> length rs"
proof (induction rs)
  case (Cons item rs)
  have "length (right_item F p l item) \<le> 1" by (simp add: right_item_def split: result.split)
  with Cons show ?case by simp
qed simp

lemma length_until_panic: "length (until_panic items) \<le> length items"
  by (induction items rule: until_panic.induct) auto

lemma nested_loop_length: "length (until_panic (nested_loop F p outer n left right)) \<le> length left * Suc (length right)"
proof -
  have "length (left_items F p outer n b l right) \<le> Suc (length right)" for b l
    using length_right_items [of F p l right] by (simp add: left_items_def Let_def)
  then have "length (nested_loop F p outer n left right) \<le> length left * Suc (length right)"
  proof (induction left)
    case (Cons item left)
    have "length (case item of Ok l \<Rightarrow> left_items F p outer n False l right | Err e \<Rightarrow> [Err e] | Panic q \<Rightarrow> [Panic q])
        \<le> Suc (length right)"
      using Cons.prems by (cases item) auto
    with Cons show ?case by (simp add: nested_loop_def)
  qed (simp add: nested_loop_def)
  with length_until_panic le_trans show ?thesis by blast
qed

lemma nlj_yields: "yields (nlj_try_next F) (nlj_new left right n p outer) (until_panic (nested_loop F p outer n left right))"
proof (induction left)
  case Nil
  then show ?case by (auto simp: nested_loop_def nlj_new_def intro!: yields_stop simp: nlj_try_next.simps)
next
  case (Cons item left)
  let ?j = "nlj_new left right n p outer"
  have new: "nlj_new (item # left) right n p outer = ?j\<lparr>nlj_left := item # left, nlj_right := right, nlj_right_matched := False\<rparr>"
    "?j\<lparr>nlj_left := left, nlj_right := nlj_right_original ?j, nlj_right_matched := False\<rparr> = ?j"
    by (simp_all add: nlj_new_def)
  show ?case
  proof (cases item)
    case (Ok l)
    with nlj_left_yields [where j = ?j and F = F and ls = left and items = "nested_loop F p outer n left right" and rs = right and l = l and b = False]
      Cons new show ?thesis
      by (simp add: nlj_new_def nested_loop_def)
  next
    case (Err e)
    then have "nlj_try_next F (nlj_new (item # left) right n p outer) = (Err e, ?j)"
      by (simp add: nlj_try_next.simps nlj_new_def)
    from yields_err [OF Cons this] Err show ?thesis by (simp add: nested_loop_def)
  next
    case (Panic q)
    then have "nlj_try_next F (nlj_new (item # left) right n p outer) = (Panic q, ?j)"
      by (simp add: nlj_try_next.simps nlj_new_def)
    from yields_panic [of "nlj_try_next F", OF this] Panic show ?thesis by (simp add: nested_loop_def)
  qed
qed

section \<open>The hash table\<close>

lemma normalize_nan: "f64_is_nan (normalize_f64 f) \<longleftrightarrow> f64_is_nan f"
proof -
  have "f64_is_nan (f64_neg f) \<longleftrightarrow> f64_is_nan f"
  proof -
    have "take_bit 63 (f64_neg f) = take_bit 63 f"
      by (rule bit_eqI) (auto simp: f64_neg_def bit_simps)
    moreover have "unat x mod 2 ^ 63 = unat (take_bit 63 x)" for x :: f64
      by (simp only: unsigned_take_bit_eq) (simp only: take_bit_eq_mod)
    ultimately show ?thesis by (simp only: f64_is_nan_def)
  qed
  then show ?thesis by (simp add: normalize_f64_def)
qed

lemma key_match_hash: "\<not> is_undefined b \<Longrightarrow> key_match a b \<longleftrightarrow> hash_input a = hash_input b"
proof -
  assume b: "\<not> is_undefined b"
  have nan: "f64_is_nan f \<longleftrightarrow> f64_is_nan g" if "normalize_f64 f = normalize_f64 g" for f g
    using that normalize_nan by metis
  have "\<not> mixed a b \<and> \<not> is_undefined a" if "hash_input a = hash_input b"
    using b that by (cases a; cases b) (auto simp: mixed_def dest: nan)
  with b show ?thesis using hash_input_eq [of a b] by (auto simp: key_match_def)
qed

definition table_keys_defined :: "row_table \<Rightarrow> bool" where
  "table_keys_defined m = (\<forall>(k, _) \<in> set m. \<not> is_undefined k)"

lemma table_push_get:
  assumes "table_keys_defined m" "\<not> is_undefined k"
  shows "table_get (table_push m k r) k' =
      (if key_match k' k then Some (case table_get m k' of Some rows \<Rightarrow> rows @ [r] | None \<Rightarrow> [r]) else table_get m k')"
    and "table_keys_defined (table_push m k r)"
  using assms by (induction m k r rule: table_push.induct) (auto simp: table_keys_defined_def key_match_hash)

text \<open>The rows of the right source that a key finds, in the order of the source.\<close>

definition bucket :: "nat \<Rightarrow> sql_row list \<Rightarrow> sql_value \<Rightarrow> sql_row list" where
  "bucket c rs k = filter (\<lambda>r. \<not> is_undefined (r ! c) \<and> key_match k (r ! c)) rs"

lemma build_table_get:
  assumes "\<forall>r\<in>set rs. c < length r" "table_keys_defined m"
  shows "\<exists>m'. build_table c m (map Ok rs) = Ok m' \<and> (\<forall>k. table_get m' k =
    (case table_get m k of Some rows \<Rightarrow> Some (rows @ bucket c rs k)
     | None \<Rightarrow> if bucket c rs k = [] then None else Some (bucket c rs k)))"
  using assms
proof (induction rs arbitrary: m)
  case Nil
  then show ?case by (auto simp: bucket_def split: option.splits)
next
  case (Cons r rs)
  show ?case
  proof (cases "is_undefined (r ! c)")
    case True
    then have b: "bucket c (r # rs) k = bucket c rs k" for k by (simp add: bucket_def)
    have eq: "build_table c m (map Ok (r # rs)) = build_table c m (map Ok rs)"
      using True Cons.prems by simp
    show ?thesis unfolding eq b by (rule Cons.IH) (use Cons.prems in auto)
  next
    case False
    with Cons.prems have "table_keys_defined (table_push m (r ! c) r)" by (simp add: table_push_get)
    with Cons.IH [of "table_push m (r ! c) r"] Cons.prems False obtain m' where
      "build_table c m (map Ok (r # rs)) = Ok m'"
      and m': "\<And>k. table_get m' k = (case table_get (table_push m (r ! c) r) k of Some rows \<Rightarrow> Some (rows @ bucket c rs k)
        | None \<Rightarrow> if bucket c rs k = [] then None else Some (bucket c rs k))" by auto
    moreover have "bucket c (r # rs) k = (if key_match k (r ! c) then r # bucket c rs k else bucket c rs k)" for k
      using False by (simp add: bucket_def)
    ultimately show ?thesis
      using Cons.prems(2) False by (auto simp: table_push_get split: option.splits)
  qed
qed

section \<open>The hash join as a list\<close>

definition hash_items :: "nat \<Rightarrow> nat \<Rightarrow> nat \<Rightarrow> bool \<Rightarrow> sql_row list \<Rightarrow> sql_row \<Rightarrow> rows" where
  "hash_items lc rc n outer rs l = (case bucket rc rs (l ! lc) of
      [] \<Rightarrow> if outer then [Ok (null_row l n)] else []
    | ms \<Rightarrow> map (\<lambda>r. Ok (l @ r)) ms)"

lemma hash_items_simps:
  "bucket rc rs (l ! lc) = [] \<Longrightarrow> hash_items lc rc n outer rs l = (if outer then [Ok (null_row l n)] else [])"
  "bucket rc rs (l ! lc) = r # ms \<Longrightarrow> hash_items lc rc n outer rs l = Ok (l @ r) # map (\<lambda>r. Ok (l @ r)) ms"
  by (simp_all add: hash_items_def)

lemma hj_pending_yields:
  "yields hj_try_next (j\<lparr>hj_pending := []\<rparr>) items \<Longrightarrow> yields hj_try_next (j\<lparr>hj_pending := map Ok rows\<rparr>) (map Ok rows @ items)"
  by (induction rows) (auto simp: hj_try_next_def intro!: yields_row)

lemma hj_yields:
  assumes m: "\<And>k. table_get m k = (if bucket rc rs k = [] then None else Some (bucket rc rs k))"
    and "\<forall>l\<in>set ls. lc < length l"
  shows "yields hj_try_next \<lparr>hj_left = map Ok ls, hj_left_column = lc, hj_right = m, hj_right_columns = n,
      hj_outer = outer, hj_pending = []\<rparr> (concat (map (hash_items lc rc n outer rs) ls))"
  using assms(2)
proof (induction ls)
  case Nil
  then show ?case by (auto simp: hj_try_next_def hj_left_loop.simps intro!: yields_stop)
next
  case (Cons l ls)
  let ?j = "\<lambda>ls pending. \<lparr>hj_left = map Ok ls, hj_left_column = lc, hj_right = m, hj_right_columns = n,
      hj_outer = outer, hj_pending = pending\<rparr>"
  from Cons have IH: "yields hj_try_next (?j ls []) (concat (map (hash_items lc rc n outer rs) ls))" by simp
  have l: "lc < length l" using Cons.prems by simp
  show ?case
  proof (cases "bucket rc rs (l ! lc)")
    case Nil
    show ?thesis
    proof (cases outer)
      case True
      with Nil l have "hj_try_next (?j (l # ls) []) = (Ok (Some (null_row l n)), ?j ls [])"
        by (simp add: hj_try_next_def, subst hj_left_loop.simps) (simp add: m)
      from yields_row [OF IH this] True Nil show ?thesis by (simp add: hash_items_simps)
    next
      case False
      with Nil l have "hj_try_next (?j (l # ls) []) = hj_try_next (?j ls [])"
        by (simp add: hj_try_next_def, subst hj_left_loop.simps) (simp add: m)
      from yields_same [of hj_try_next, OF this] IH False Nil show ?thesis by (simp add: hash_items_simps)
    qed
  next
    case (Cons r rows)
    with l have step: "hj_try_next (?j (l # ls) []) = (Ok (Some (l @ r)), ?j ls (map (\<lambda>r. Ok (l @ r)) rows))"
      by (simp add: hj_try_next_def, subst hj_left_loop.simps) (simp add: m)
    have "yields hj_try_next (?j ls (map (\<lambda>r. Ok (l @ r)) rows)) (map (\<lambda>r. Ok (l @ r)) rows @ concat (map (hash_items lc rc n outer rs) ls))"
      using hj_pending_yields [of "?j ls []" _ "map (\<lambda>r. l @ r) rows"] IH by (simp add: comp_def)
    from yields_row [OF this step] Cons show ?thesis by (simp add: hash_items_simps)
  qed
qed

section \<open>Both joins agree on an equijoin\<close>

definition in_column :: "data_type \<Rightarrow> sql_value \<Rightarrow> bool" where
  "in_column t v = (datatype_of v \<in> {None, Some t})"

lemma eval_equal_in_column:
  assumes "in_column t x" "in_column t y"
  shows "\<exists>v. eval_equal x y = Ok v \<and> logical v \<and> (v = Boolean True \<longleftrightarrow> \<not> is_undefined y \<and> key_match x y)"
proof -
  have "\<not> mixed x y" using assms by (cases x; cases y) (auto simp: in_column_def mixed_def)
  moreover have "is_undefined x \<Longrightarrow> \<not> is_undefined y \<Longrightarrow> \<not> value_eq x y"
    by (cases x; cases y) (auto simp: value_eq_def f64_eq_def)
  ultimately have "\<not> is_undefined y \<Longrightarrow> value_eq x y \<longleftrightarrow> key_match x y"
    using key_match_hash [of y x] hash_input_eq [of x y] by (auto simp: key_match_def)
  moreover obtain v where v: "eval_equal x y = Ok v" "logical v"
    using assms by (cases x; cases y) (auto simp: in_column_def eval_equal_def logical_def)
  ultimately show ?thesis
    using equal_lookup(1) [OF v(1)] by (auto simp: lookup_value_def)
qed

lemma join_matches_equal:
  assumes "in_column t (l ! lc)" "in_column t (r ! rc)" "lc < length l" "rc < length r"
  shows "join_matches F (Some (Equal (Column lc) (Column (length l + rc)))) (l @ r) =
    Ok (\<not> is_undefined (r ! rc) \<and> key_match (l ! lc) (r ! rc))"
  using eval_equal_in_column [OF assms(1,2)] assms(3,4)
  by (auto simp: join_matches_def eval2_def lookup_column_def nth_append logical_def)

lemma nested_loop_equijoin:
  assumes "in_column t (l ! lc)" "lc < length l" "\<forall>r\<in>set rs. rc < length r \<and> in_column t (r ! rc)"
  shows "left_items F (Some (Equal (Column lc) (Column (length l + rc)))) outer n False l (map Ok rs) = hash_items lc rc n outer rs l"
proof -
  let ?p = "Some (Equal (Column lc) (Column (length l + rc)))"
  have item: "right_item F ?p l (Ok r) =
      (if \<not> is_undefined (r ! rc) \<and> key_match (l ! lc) (r ! rc) then [Ok (l @ r)] else [])" if "r \<in> set rs" for r
    using join_matches_equal [of t l lc r rc F] assms that by (simp add: right_item_def)
  have "concat (map (right_item F ?p l) (map Ok rs)) = map (\<lambda>r. Ok (l @ r)) (bucket rc rs (l ! lc))"
    using item by (induction rs) (auto simp: bucket_def)
  then show ?thesis
    by (auto simp: left_items_def hash_items_def split: list.split)
qed

section \<open>Properties\<close>

text \<open>
  The nested loop join yields, for every left item in order, the rows joined with
  each right row that satisfies the predicate, an error of the sources or the predicate in its
  place, and for an outer join one row padded with nulls when nothing matched; then it ends, or
  at the first panic. A number of calls bounded by the sizes of the sources is enough.
\<close>

theorem nested_loop_join_rows:
  "drain (Suc (length left * Suc (length right)) + k) (nlj_try_next F) (nlj_new left right n p outer) =
    Some (until_panic (nested_loop F p outer n left right))"
  using nested_loop_length [of F p outer n left right] by (intro yields_drain [OF nlj_yields]) simp

text \<open>
  Property C24. A hash join of two columns of one type is equivalent to the nested loop join on
  their equality, inner or outer: building the table succeeds, and both iterators yield the
  same rows in the same order and end.
\<close>

theorem hash_join_equals_nested_loop:
  assumes "\<forall>l\<in>set ls. length l = w \<and> in_column t (l ! lc)" "lc < w"
    and "\<forall>r\<in>set rs. rc < length r \<and> in_column t (r ! rc)"
  shows "\<exists>j items fuel. hj_new (map Ok ls) lc (map Ok rs) rc n outer = Ok j \<and>
    (\<forall>m\<ge>fuel. drain m hj_try_next j = Some items \<and>
      drain m (nlj_try_next F) (nlj_new (map Ok ls) (map Ok rs) n (Some (Equal (Column lc) (Column (w + rc)))) outer) = Some items)"
proof -
  let ?p = "Some (Equal (Column lc) (Column (w + rc)))"
  let ?items = "concat (map (hash_items lc rc n outer rs) ls)"
  from assms(3) build_table_get [of rs rc "[]"] obtain m where
    m: "build_table rc [] (map Ok rs) = Ok m" "\<And>k. table_get m k = (if bucket rc rs k = [] then None else Some (bucket rc rs k))"
    by (auto simp: table_keys_defined_def)
  have items: "until_panic ?items = ?items"
    by (rule until_panic_id) (auto simp: hash_items_def split: list.splits if_splits)
  have "yields hj_try_next \<lparr>hj_left = map Ok ls, hj_left_column = lc, hj_right = m, hj_right_columns = n,
      hj_outer = outer, hj_pending = []\<rparr> ?items"
    using hj_yields [of m rc rs ls lc n outer] m(2) assms(1,2) by simp
  moreover have "left_items F ?p outer n False l (map Ok rs) = hash_items lc rc n outer rs l" if "l \<in> set ls" for l
    using assms that nested_loop_equijoin [of t l lc rs rc F outer n] by auto
  then have "nested_loop F ?p outer n (map Ok ls) (map Ok rs) = ?items"
    by (auto simp: nested_loop_def intro!: arg_cong [where f = concat])
  then have "yields (nlj_try_next F) (nlj_new (map Ok ls) (map Ok rs) n ?p outer) ?items"
    using nlj_yields [of F "map Ok ls" "map Ok rs" n ?p outer] items by simp
  ultimately obtain a b where "\<forall>k\<ge>a. drain k hj_try_next \<lparr>hj_left = map Ok ls, hj_left_column = lc, hj_right = m,
      hj_right_columns = n, hj_outer = outer, hj_pending = []\<rparr> = Some ?items"
    "\<forall>k\<ge>b. drain k (nlj_try_next F) (nlj_new (map Ok ls) (map Ok rs) n ?p outer) = Some ?items"
    by (auto simp: yields_def)
  then show ?thesis
    by (intro exI [of _ "\<lparr>hj_left = map Ok ls, hj_left_column = lc, hj_right = m, hj_right_columns = n,
      hj_outer = outer, hj_pending = []\<rparr>"] exI [of _ ?items] exI [of _ "max a b"]) (simp add: hj_new_def m(1))
qed

section \<open>Witnesses\<close>

text \<open>Movies with a genre identifier, one of them without, and genres.\<close>

abbreviation demo_movies :: "sql_row list" where
  "demo_movies \<equiv> [[Str ''Solaris'', Integer 1], [Str ''Alien'', Integer 2], [Str ''Unknown'', Null]]"

abbreviation demo_genres :: "sql_row list" where
  "demo_genres \<equiv> [[Integer 2, Str ''horror''], [Integer 1, Str ''drama'']]"

theorem hash_join_equals_nested_loop_witness:
  "\<exists>j items fuel. hj_new (map Ok demo_movies) 1 (map Ok demo_genres) 0 2 True = Ok j \<and>
    (\<forall>m\<ge>fuel. drain m hj_try_next j = Some items \<and>
      drain m (nlj_try_next demo_ops) (nlj_new (map Ok demo_movies) (map Ok demo_genres) 2 (Some (Equal (Column 1) (Column (2 + 0)))) True) = Some items)"
  by (rule hash_join_equals_nested_loop [where t = IntegerType]) (auto simp: in_column_def)

section \<open>Integer and float columns\<close>

text \<open>
  For an integer and a float column the two joins differ: the nested loop compares the values,
  the hash join never looks in the other type's bucket.
\<close>

lemma hash_join_misses_mixed:
  "\<not> key_match (Integer 9007199254740992) (Float 0x4340000000000000) \<and>
   join_matches demo_ops (Some (Equal (Column 0) (Column 1))) [Integer 9007199254740992, Float 0x4340000000000000] = Ok True"
  using hash_mixed
  by (auto simp: key_match_def join_matches_def eval2_def lookup_column_def eval_equal_def value_eq_def)

end
