(* ===== verification/SqlExec.thy ===== *)
theory SqlExec
  imports SqlJoin SqlOptimizer "HOL-Library.Multiset"
begin

text \<open>
  \<^verbatim>\<open>src/sql/execution/executor.rs\<close> and \<^verbatim>\<open>src/sql/execution/aggregator.rs\<close>: execution of plans on a
  transaction of the SQL engine, which is a record of its operations on a state. A plan node
  yields the list of its items, rows or errors, in order. A B-tree map is an association list in
  the order of its keys.
\<close>

section \<open>The transaction interface\<close>

record 's sql_txn =
  st_get :: "string \<Rightarrow> sql_value list \<Rightarrow> 's \<Rightarrow> sql_row list result"
  st_lookup_index :: "string \<Rightarrow> string \<Rightarrow> sql_value list \<Rightarrow> 's \<Rightarrow> sql_value list result"
  st_scan :: "string \<Rightarrow> expression option \<Rightarrow> 's \<Rightarrow> rows result"
  st_delete :: "string \<Rightarrow> sql_value list \<Rightarrow> ('s, unit) op"
  st_insert :: "string \<Rightarrow> sql_row list \<Rightarrow> ('s, unit) op"
  st_update :: "string \<Rightarrow> (sql_value \<times> sql_row) list \<Rightarrow> ('s, unit) op"
  st_create_table :: "sql_table \<Rightarrow> ('s, unit) op"
  st_drop_table :: "string \<Rightarrow> bool \<Rightarrow> ('s, bool) op"

section \<open>Ordered maps\<close>

fun tree_get :: "('k \<Rightarrow> 'k \<Rightarrow> ordering) \<Rightarrow> 'k \<Rightarrow> ('k \<times> 'v) list \<Rightarrow> 'v option" where
  "tree_get cmp k [] = None"
| "tree_get cmp k ((k', v) # m) = (if cmp k k' = OEqual then Some v else tree_get cmp k m)"

fun tree_insert :: "('k \<Rightarrow> 'k \<Rightarrow> ordering) \<Rightarrow> 'k \<Rightarrow> 'v \<Rightarrow> ('k \<times> 'v) list \<Rightarrow> ('k \<times> 'v) list" where
  "tree_insert cmp k v [] = [(k, v)]"
| "tree_insert cmp k v ((k', v') # m) = (case cmp k k' of
      OLess \<Rightarrow> (k, v) # (k', v') # m
    | OEqual \<Rightarrow> (k', v) # m
    | OGreater \<Rightarrow> (k', v') # tree_insert cmp k v m)"

text \<open>The lexicographic order of lists of values.\<close>

fun values_cmp :: "sql_value list \<Rightarrow> sql_value list \<Rightarrow> ordering" where
  "values_cmp [] [] = OEqual"
| "values_cmp [] (y # ys) = OLess"
| "values_cmp (x # xs) [] = OGreater"
| "values_cmp (x # xs) (y # ys) = (case value_cmp x y of OEqual \<Rightarrow> values_cmp xs ys | ord \<Rightarrow> ord)"

section \<open>Aggregation\<close>

datatype accumulator =
    AccAverage i64 sql_value
  | AccCount i64
  | AccMax "sql_value option"
  | AccMin "sql_value option"
  | AccSum "sql_value option"

fun acc_new :: "aggregate \<Rightarrow> accumulator" where
  "acc_new (Average _) = AccAverage 0 (Integer 0)"
| "acc_new (Count _) = AccCount 0"
| "acc_new (MaxOf _) = AccMax None"
| "acc_new (MinOf _) = AccMin None"
| "acc_new (Sum _) = AccSum None"

definition acc_add :: "accumulator \<Rightarrow> sql_value \<Rightarrow> accumulator result" where
  "acc_add acc v = (if value_eq v Null then Ok acc else (case acc of
      AccAverage n s \<Rightarrow> rbind (checked_add s v) (\<lambda>s. Ok (AccAverage (n + 1) s))
    | AccCount n \<Rightarrow> Ok (AccCount (n + 1))
    | AccMax None \<Rightarrow> Ok (AccMax (Some v))
    | AccMax (Some m) \<Rightarrow> Ok (AccMax (Some (if value_cmp v m = OGreater then v else m)))
    | AccMin None \<Rightarrow> Ok (AccMin (Some v))
    | AccMin (Some m) \<Rightarrow> Ok (AccMin (Some (if value_cmp v m = OLess then v else m)))
    | AccSum None \<Rightarrow> rbind (checked_add (Integer 0) v) (\<lambda>s. Ok (AccSum (Some s)))
    | AccSum (Some s) \<Rightarrow> rbind (checked_add s v) (\<lambda>s. Ok (AccSum (Some s)))))"

fun acc_value :: "accumulator \<Rightarrow> sql_value result" where
  "acc_value (AccAverage n s) = (if n = 0 then Ok Null else checked_div s (Integer n))"
| "acc_value (AccCount n) = Ok (Integer n)"
| "acc_value (AccMax m) = Ok (case m of Some v \<Rightarrow> v | None \<Rightarrow> Null)"
| "acc_value (AccMin m) = Ok (case m of Some v \<Rightarrow> v | None \<Rightarrow> Null)"
| "acc_value (AccSum m) = Ok (case m of Some v \<Rightarrow> v | None \<Rightarrow> Null)"

type_synonym buckets = "(sql_value list \<times> accumulator list) list"

fun acc_add_all :: "value_ops \<Rightarrow> sql_row \<Rightarrow> accumulator list \<Rightarrow> aggregate list \<Rightarrow> accumulator list result" where
  "acc_add_all F row (acc # accs) (a # aggs) =
     rbind (evaluate F (aggregate_expr a) (Some row)) (\<lambda>v.
     rbind (acc_add acc v) (\<lambda>acc.
     rbind (acc_add_all F row accs aggs) (\<lambda>accs. Ok (acc # accs))))"
| "acc_add_all F row [] [] = Ok []"
| "acc_add_all F row _ _ = Panic ''itertools: .zip_eq() reached end of one iterator before the other''"

definition aggregator_add :: "value_ops \<Rightarrow> expression list \<Rightarrow> aggregate list \<Rightarrow> sql_row \<Rightarrow> buckets \<Rightarrow> buckets result" where
  "aggregator_add F group_by aggs row buckets =
     rbind (map_list_result (\<lambda>e. evaluate F e (Some row)) group_by) (\<lambda>bucket.
       let accs = (case tree_get values_cmp bucket buckets of Some accs \<Rightarrow> accs | None \<Rightarrow> map acc_new aggs) in
       rbind (acc_add_all F row accs aggs) (\<lambda>accs. Ok (tree_insert values_cmp bucket accs buckets)))"

fun aggregator_add_rows :: "value_ops \<Rightarrow> expression list \<Rightarrow> aggregate list \<Rightarrow> rows \<Rightarrow> buckets \<Rightarrow> buckets result" where
  "aggregator_add_rows F group_by aggs [] buckets = Ok buckets"
| "aggregator_add_rows F group_by aggs (item # items) buckets =
     rbind item (\<lambda>row. rbind (aggregator_add F group_by aggs row buckets) (aggregator_add_rows F group_by aggs items))"

definition aggregator_into_rows :: "expression list \<Rightarrow> aggregate list \<Rightarrow> buckets \<Rightarrow> rows" where
  "aggregator_into_rows group_by aggs buckets =
     (if buckets = [] \<and> group_by = [] then [map_list_result (\<lambda>a. acc_value (acc_new a)) aggs]
      else map (\<lambda>(bucket, accs). rbind (map_list_result acc_value accs) (\<lambda>vs. Ok (bucket @ vs))) buckets)"

section \<open>Sorting\<close>

fun compare_keys :: "sql_value list \<Rightarrow> sql_value list \<Rightarrow> direction list \<Rightarrow> ordering" where
  "compare_keys (a # as) (b # bs) (dir # dirs) =
     (let ord = value_cmp a b; ord = (if dir = Descending then ord_reverse ord else ord)
      in if ord \<noteq> OEqual then ord else compare_keys as bs dirs)"
| "compare_keys _ _ _ = OEqual"

text \<open>\<^verbatim>\<open>sort_by\<close> is stable, which determines its result when the comparison is a total preorder (\<open>stable_sort_unique\<close>).\<close>

fun insert_by :: "('a \<Rightarrow> 'a \<Rightarrow> ordering) \<Rightarrow> 'a \<Rightarrow> 'a list \<Rightarrow> 'a list" where
  "insert_by cmp x [] = [x]"
| "insert_by cmp x (y # ys) = (if cmp x y = OGreater then y # insert_by cmp x ys else x # y # ys)"

definition sort_by :: "('a \<Rightarrow> 'a \<Rightarrow> ordering) \<Rightarrow> 'a list \<Rightarrow> 'a list" where
  "sort_by cmp xs = foldr (insert_by cmp) xs []"

definition order_rows :: "value_ops \<Rightarrow> rows \<Rightarrow> (expression \<times> direction) list \<Rightarrow> rows result" where
  "order_rows F source order =
     rbind (map_list_result (\<lambda>item. rbind item (\<lambda>row.
       rbind (map_list_result (\<lambda>(e, _). evaluate F e (Some row)) order) (\<lambda>keys. Ok (row, keys)))) source) (\<lambda>keyed.
     Ok (map (\<lambda>(row, _). Ok row) (sort_by (\<lambda>a b. compare_keys (snd a) (snd b) (map snd order)) keyed)))"

section \<open>Row sources\<close>

definition filter_item :: "value_ops \<Rightarrow> expression \<Rightarrow> sql_row result \<Rightarrow> rows" where
  "filter_item F predicate item = (case rbind item (\<lambda>row. rbind (evaluate F predicate (Some row)) (\<lambda>v. case v of
        Boolean b \<Rightarrow> Ok (if b then Some row else None)
      | Null \<Rightarrow> Ok None
      | _ \<Rightarrow> Err (InvalidInput ''filter returned {value}, expected boolean''))) of
      Ok (Some row) \<Rightarrow> [Ok row]
    | Ok None \<Rightarrow> []
    | Err e \<Rightarrow> [Err e]
    | Panic p \<Rightarrow> [Panic p])"

definition filter_rows :: "value_ops \<Rightarrow> expression \<Rightarrow> rows \<Rightarrow> rows" where
  "filter_rows F predicate items = concat (map (filter_item F predicate) items)"

definition project_item :: "value_ops \<Rightarrow> expression list \<Rightarrow> sql_row result \<Rightarrow> sql_row result" where
  "project_item F expressions item = rbind item (\<lambda>row. map_list_result (\<lambda>e. evaluate F e (Some row)) expressions)"

fun remap_values :: "nat option list \<Rightarrow> sql_row \<Rightarrow> sql_row \<Rightarrow> sql_row result" where
  "remap_values (t # ts) (v # vs) remapped =
     remap_values ts vs (case t of Some i \<Rightarrow> remapped[i := v] | None \<Rightarrow> remapped)"
| "remap_values [] [] remapped = Ok remapped"
| "remap_values _ _ remapped = Panic ''itertools: .zip_eq() reached end of one iterator before the other''"

text \<open>The iterators of the joins, run to their end: every call yields an item but the last.\<close>

definition join_items :: "nat \<Rightarrow> ('s, sql_row option) op \<Rightarrow> 's \<Rightarrow> rows" where
  "join_items n step j = (case drain (Suc n) step j of Some items \<Rightarrow> items | None \<Rightarrow> [Panic ''unreachable''])"

primrec execute_node :: "value_ops \<Rightarrow> 's sql_txn \<Rightarrow> 's \<Rightarrow> plan_node \<Rightarrow> rows result" where
  "execute_node F T s (Aggregate source group_by aggregates) = rbind (execute_node F T s source) (\<lambda>items.
     rbind (aggregator_add_rows F group_by aggregates items []) (\<lambda>buckets.
     Ok (aggregator_into_rows group_by aggregates buckets)))"
| "execute_node F T s (Filter source predicate) = rbind (execute_node F T s source) (\<lambda>items.
     Ok (filter_rows F predicate items))"
| "execute_node F T s (HashJoin l lc r rc outer) = rbind (execute_node F T s l) (\<lambda>left.
     rbind (execute_node F T s r) (\<lambda>right.
     rbind (hj_new left lc right rc (columns r) outer) (\<lambda>j.
     Ok (join_items (length left * Suc (length right)) hj_try_next j))))"
| "execute_node F T s (IndexLookup t column vs alias) =
     rbind (if column < length (tbl_columns t) then Ok (col_name (tbl_columns t ! column)) else Panic ''invalid column'') (\<lambda>name.
     rbind (st_lookup_index T (tbl_name t) name vs s) (\<lambda>ids.
     rbind (st_get T (tbl_name t) ids s) (\<lambda>rows. Ok (map Ok rows))))"
| "execute_node F T s (KeyLookup t keys alias) = rbind (st_get T (tbl_name t) keys s) (\<lambda>rows. Ok (map Ok rows))"
| "execute_node F T s (Limit source n) = rbind (execute_node F T s source) (\<lambda>items. Ok (take n items))"
| "execute_node F T s (NestedLoopJoin l r predicate outer) = rbind (execute_node F T s l) (\<lambda>left.
     rbind (execute_node F T s r) (\<lambda>right.
     Ok (join_items (length left * Suc (length right)) (nlj_try_next F) (nlj_new left right (columns r) predicate outer))))"
| "execute_node F T s (Nothing labels) = Ok []"
| "execute_node F T s (Offset source n) = rbind (execute_node F T s source) (\<lambda>items. Ok (drop n items))"
| "execute_node F T s (Order source key) = rbind (execute_node F T s source) (\<lambda>items. order_rows F items key)"
| "execute_node F T s (Projection source expressions aliases) = rbind (execute_node F T s source) (\<lambda>items.
     Ok (map (project_item F expressions) items))"
| "execute_node F T s (Remap source targets) = rbind (execute_node F T s source) (\<lambda>items.
     Ok (map (\<lambda>item. rbind item (\<lambda>row. remap_values targets row (replicate (remap_size targets) Null))) items))"
| "execute_node F T s (Scan t flt alias) = st_scan T (tbl_name t) flt s"
| "execute_node F T s (Values rows) = Ok (map (map_list_result (\<lambda>e. evaluate F e None)) rows)"

section \<open>Statements\<close>

fun collect_rows :: "rows \<Rightarrow> sql_row list result" where
  "collect_rows [] = Ok []"
| "collect_rows (item # items) = rbind item (\<lambda>row. rbind (collect_rows items) (\<lambda>rows. Ok (row # rows)))"

definition exec_delete :: "'s sql_txn \<Rightarrow> string \<Rightarrow> nat \<Rightarrow> rows \<Rightarrow> ('s, nat) op" where
  "exec_delete T t primary_key source =
     sbind (slift (map_list_result (\<lambda>item. rbind item (\<lambda>row.
       if primary_key < length row then Ok (row ! primary_key) else Panic ''short row'')) source)) (\<lambda>ids.
     sbind (st_delete T t ids) (\<lambda>_. sreturn (length ids)))"

text \<open>One row to insert: mapped, completed with defaults, or passed through.\<close>

definition insert_value :: "(nat \<times> nat) list option \<Rightarrow> sql_row \<Rightarrow> nat \<Rightarrow> sql_column \<Rightarrow> sql_value result" where
  "insert_value column_map vs i c =
     (if column_map = None \<and> i < length vs then Ok (vs ! i)
      else case Option.bind column_map (\<lambda>m. map_of m i) of
        Some vi \<Rightarrow> nth_checked vs vi
      | None \<Rightarrow> (case col_default c of
          Some d \<Rightarrow> Ok d
        | None \<Rightarrow> Err (InvalidInput ''no value given for column {} with no default'')))"

fun insert_values :: "(nat \<times> nat) list option \<Rightarrow> sql_row \<Rightarrow> nat \<Rightarrow> sql_column list \<Rightarrow> sql_row result" where
  "insert_values column_map vs i [] = Ok []"
| "insert_values column_map vs i (c # cs) =
     rbind (insert_value column_map vs i c) (\<lambda>v. rbind (insert_values column_map vs (Suc i) cs) (\<lambda>row. Ok (v # row)))"

definition insert_row :: "sql_table \<Rightarrow> (nat \<times> nat) list option \<Rightarrow> sql_row \<Rightarrow> sql_row result" where
  "insert_row t column_map vs =
     (if length vs = length (tbl_columns t) \<and> column_map = None then Ok vs
      else if length vs > length (tbl_columns t) then Err (InvalidInput ''too many values for table {}'')
      else if (case column_map of Some m \<Rightarrow> length m \<noteq> length vs | None \<Rightarrow> False)
      then Err (InvalidInput ''column and value counts do not match'')
      else insert_values column_map vs 0 (tbl_columns t))"

definition exec_insert :: "'s sql_txn \<Rightarrow> sql_table \<Rightarrow> (nat \<times> nat) list option \<Rightarrow> rows \<Rightarrow> ('s, nat) op" where
  "exec_insert T t column_map source =
     sbind (slift (map_list_result (\<lambda>item. rbind item (insert_row t column_map)) source)) (\<lambda>rows.
     sbind (st_insert T (tbl_name t) rows) (\<lambda>_. sreturn (length rows)))"

fun update_row :: "value_ops \<Rightarrow> sql_row \<Rightarrow> (nat \<times> expression) list \<Rightarrow> sql_row \<Rightarrow> sql_row result" where
  "update_row F row [] new = Ok new"
| "update_row F row ((column, e) # exprs) new =
     rbind (evaluate F e (Some row)) (\<lambda>v.
       if column < length new then update_row F row exprs (new[column := v]) else Panic ''index out of bounds'')"

fun update_rows ::
  "value_ops \<Rightarrow> nat \<Rightarrow> (nat \<times> expression) list \<Rightarrow> rows \<Rightarrow> (sql_value \<times> sql_row) list \<Rightarrow> (sql_value \<times> sql_row) list result" where
  "update_rows F primary_key exprs [] updates = Ok updates"
| "update_rows F primary_key exprs (item # items) updates = rbind item (\<lambda>row.
     rbind (update_row F row exprs row) (\<lambda>new.
       if primary_key < length row
       then update_rows F primary_key exprs items (tree_insert value_cmp (row ! primary_key) new updates)
       else Panic ''short row''))"

definition exec_update :: "value_ops \<Rightarrow> 's sql_txn \<Rightarrow> string \<Rightarrow> nat \<Rightarrow> rows \<Rightarrow> (nat \<times> expression) list \<Rightarrow> ('s, nat) op" where
  "exec_update F T t primary_key source exprs =
     sbind (slift (update_rows F primary_key exprs source [])) (\<lambda>updates.
     sbind (st_update T t updates) (\<lambda>_. sreturn (length updates)))"

datatype execution_result =
    ResCreateTable string
  | ResDropTable string bool
  | ResDelete nat
  | ResInsert nat
  | ResUpdate nat
  | ResSelect "label list" rows

fun execute :: "value_ops \<Rightarrow> 's sql_txn \<Rightarrow> plan \<Rightarrow> ('s, execution_result) op" where
  "execute F T (CreateTable schema) =
     sbind (st_create_table T schema) (\<lambda>_. sreturn (ResCreateTable (tbl_name schema)))"
| "execute F T (DropTable name if_exists) =
     sbind (st_drop_table T name if_exists) (\<lambda>existed. sreturn (ResDropTable name existed))"
| "execute F T (Delete t primary_key source) =
     sbind (sread (\<lambda>s. execute_node F T s source)) (\<lambda>items.
     sbind (exec_delete T t primary_key items) (\<lambda>n. sreturn (ResDelete n)))"
| "execute F T (Insert t column_map source) =
     sbind (sread (\<lambda>s. execute_node F T s source)) (\<lambda>items.
     sbind (exec_insert T t column_map items) (\<lambda>n. sreturn (ResInsert n)))"
| "execute F T (Select source) =
     sbind (slift (map_list_result (column_label source) [0..<columns source])) (\<lambda>labels.
     sbind (sread (\<lambda>s. execute_node F T s source)) (\<lambda>items. sreturn (ResSelect labels items)))"
| "execute F T (Update t primary_key source exprs) =
     sbind (sread (\<lambda>s. execute_node F T s source)) (\<lambda>items.
     sbind (exec_update F T (tbl_name t) primary_key items exprs) (\<lambda>n. sreturn (ResUpdate n)))"

section \<open>Sorting\<close>

lemma set_insert_by [simp]: "set (insert_by cmp x xs) = insert x (set xs)"
  by (induction xs) auto

lemma mset_insert_by [simp]: "mset (insert_by cmp x xs) = add_mset x (mset xs)"
  by (induction xs) auto

lemma mset_sort_by: "mset (sort_by cmp xs) = mset xs"
  by (induction xs) (simp_all add: sort_by_def)

lemma set_sort_by: "set (sort_by cmp xs) = set xs"
  by (metis mset_sort_by mset_eq_setD)

text \<open>A comparison that is a total preorder on the elements of a list.\<close>

definition preorder_on :: "'a set \<Rightarrow> ('a \<Rightarrow> 'a \<Rightarrow> ordering) \<Rightarrow> bool" where
  "preorder_on A cmp = ((\<forall>x\<in>A. \<forall>y\<in>A. cmp y x = ord_reverse (cmp x y)) \<and>
     (\<forall>x\<in>A. \<forall>y\<in>A. \<forall>z\<in>A. cmp x y \<noteq> OGreater \<longrightarrow> cmp y z \<noteq> OGreater \<longrightarrow> cmp x z \<noteq> OGreater))"

lemma preorder_reverse: "preorder_on A cmp \<Longrightarrow> x \<in> A \<Longrightarrow> y \<in> A \<Longrightarrow> cmp y x = ord_reverse (cmp x y)"
  unfolding preorder_on_def by blast

lemma preorder_trans:
  "preorder_on A cmp \<Longrightarrow> x \<in> A \<Longrightarrow> y \<in> A \<Longrightarrow> z \<in> A \<Longrightarrow> cmp x y \<noteq> OGreater \<Longrightarrow> cmp y z \<noteq> OGreater \<Longrightarrow> cmp x z \<noteq> OGreater"
  unfolding preorder_on_def by blast

lemma ord_reverse_eq [simp]:
  "ord_reverse a = OGreater \<longleftrightarrow> a = OLess" "ord_reverse a = OEqual \<longleftrightarrow> a = OEqual" "ord_reverse a = OLess \<longleftrightarrow> a = OGreater"
  by (cases a; simp)+

lemma preorder_equal:
  "preorder_on A cmp \<Longrightarrow> x \<in> A \<Longrightarrow> y \<in> A \<Longrightarrow> z \<in> A \<Longrightarrow> cmp x z = OEqual \<Longrightarrow> cmp x y = OGreater \<Longrightarrow> cmp y z \<noteq> OEqual"
  using preorder_reverse [of A cmp x z] preorder_reverse [of A cmp y z] preorder_trans [of A cmp x z y] by auto

lemma insert_by_sorted:
  assumes "preorder_on A cmp" "x \<in> A" "set ys \<subseteq> A" "sorted_wrt (\<lambda>a b. cmp a b \<noteq> OGreater) ys"
  shows "sorted_wrt (\<lambda>a b. cmp a b \<noteq> OGreater) (insert_by cmp x ys)"
  using assms(3,4)
proof (induction ys)
  case (Cons y ys)
  show ?case
  proof (cases "cmp x y = OGreater")
    case True
    then have "cmp y x \<noteq> OGreater" using preorder_reverse [OF assms(1,2), of y] Cons.prems by simp
    with True Cons show ?thesis by auto
  next
    case False
    moreover have "cmp x z \<noteq> OGreater" if "z \<in> set ys" for z
      using that False Cons.prems preorder_trans [OF assms(1,2), of y z] by auto
    ultimately show ?thesis using Cons.prems by simp
  qed
qed simp

lemma insert_by_stable:
  assumes "preorder_on A cmp" "x \<in> A" "k \<in> A" "set ys \<subseteq> A"
  shows "filter (\<lambda>y. cmp y k = OEqual) (insert_by cmp x ys) = filter (\<lambda>y. cmp y k = OEqual) (x # ys)"
  using assms(4) preorder_equal [OF assms(1,2) _ assms(3)] by (induction ys) auto

lemma sort_by_sorted:
  assumes "preorder_on A cmp" "set xs \<subseteq> A"
  shows "sorted_wrt (\<lambda>a b. cmp a b \<noteq> OGreater) (sort_by cmp xs)"
    and "k \<in> A \<Longrightarrow> filter (\<lambda>y. cmp y k = OEqual) (sort_by cmp xs) = filter (\<lambda>y. cmp y k = OEqual) xs"
proof -
  have "sorted_wrt (\<lambda>a b. cmp a b \<noteq> OGreater) (sort_by cmp xs) \<and>
    (k \<in> A \<longrightarrow> filter (\<lambda>y. cmp y k = OEqual) (sort_by cmp xs) = filter (\<lambda>y. cmp y k = OEqual) xs)"
    using assms(2)
  proof (induction xs)
    case (Cons x xs)
    then have "set (sort_by cmp xs) \<subseteq> A" "x \<in> A" by (simp_all add: set_sort_by)
    with Cons insert_by_sorted [OF assms(1)] insert_by_stable [OF assms(1)] show ?case
      by (simp add: sort_by_def)
  qed (simp add: sort_by_def)
  then show "sorted_wrt (\<lambda>a b. cmp a b \<noteq> OGreater) (sort_by cmp xs)"
    "k \<in> A \<Longrightarrow> filter (\<lambda>y. cmp y k = OEqual) (sort_by cmp xs) = filter (\<lambda>y. cmp y k = OEqual) xs" by blast+
qed

text \<open>
  A stable sort has one result, so any implementation of \<^verbatim>\<open>sort_by\<close> that keeps the documentation returns that of the
  insertion sort above.
\<close>

lemma preorder_refl: "preorder_on A cmp \<Longrightarrow> x \<in> A \<Longrightarrow> cmp x x = OEqual"
  using preorder_reverse [of A cmp x x] by (cases "cmp x x") auto

lemma stable_sorted_unique:
  assumes "preorder_on A cmp" "set xs \<subseteq> A" "mset ys = mset xs"
    and "sorted_wrt (\<lambda>a b. cmp a b \<noteq> OGreater) xs" "sorted_wrt (\<lambda>a b. cmp a b \<noteq> OGreater) ys"
    and "\<And>k. k \<in> A \<Longrightarrow> filter (\<lambda>y. cmp y k = OEqual) ys = filter (\<lambda>y. cmp y k = OEqual) xs"
  shows "ys = xs"
  using assms(2-)
proof (induction xs arbitrary: ys)
  case (Cons x xs)
  then obtain y ys' where ys: "ys = y # ys'" by (cases ys) auto
  have A: "x \<in> A" "y \<in> A" "y \<in> set (x # xs)" "x \<in> set (y # ys')"
    using Cons.prems(1) mset_eq_setD [OF Cons.prems(2)] ys by auto
  have "cmp x y \<noteq> OGreater" "cmp y x \<noteq> OGreater"
    using A preorder_refl [OF assms(1) A(1)] preorder_refl [OF assms(1) A(2)] Cons.prems(3,4) ys by auto
  then have "cmp y x = OEqual" using preorder_reverse [OF assms(1) A(1,2)] by (cases "cmp x y") auto
  with Cons.prems(5) [OF A(1)] ys preorder_refl [OF assms(1) A(1)] have "y = x" by simp
  moreover have "filter (\<lambda>y. cmp y k = OEqual) ys' = filter (\<lambda>y. cmp y k = OEqual) xs" if "k \<in> A" for k
    using Cons.prems(5) [OF that] ys \<open>y = x\<close> by (cases "cmp x k = OEqual") auto
  ultimately show ?case using Cons.prems(1-4) ys by (auto intro!: Cons.IH)
qed simp

corollary stable_sort_unique:
  assumes "preorder_on A cmp" "set xs \<subseteq> A" "mset ys = mset xs" "sorted_wrt (\<lambda>a b. cmp a b \<noteq> OGreater) ys"
    and "\<And>k. k \<in> A \<Longrightarrow> filter (\<lambda>y. cmp y k = OEqual) ys = filter (\<lambda>y. cmp y k = OEqual) xs"
  shows "ys = sort_by cmp xs"
proof (rule stable_sorted_unique [OF assms(1)])
  show "filter (\<lambda>y. cmp y k = OEqual) ys = filter (\<lambda>y. cmp y k = OEqual) (sort_by cmp xs)" if "k \<in> A" for k
    using assms(5) [OF that] sort_by_sorted(2) [OF assms(1,2) that] by simp
qed (use assms sort_by_sorted(1) [OF assms(1,2)] in \<open>simp_all add: set_sort_by mset_sort_by\<close>)

text \<open>Keys whose columns each have one type are compared by a total preorder.\<close>

lemma in_column_not_mixed: "in_column t x \<Longrightarrow> in_column t y \<Longrightarrow> \<not> mixed x y"
  by (cases x; cases y) (auto simp: in_column_def mixed_def)

lemma value_cmp_in_column:
  assumes "in_column t x" "in_column t y" "in_column t z"
  shows "value_cmp x y = OEqual \<longleftrightarrow> x = y"
    and "value_cmp x y \<noteq> OGreater \<Longrightarrow> value_cmp y z \<noteq> OGreater \<Longrightarrow> value_cmp x z \<noteq> OGreater"
    and "value_cmp x y \<noteq> OLess \<Longrightarrow> value_cmp y z \<noteq> OLess \<Longrightarrow> value_cmp x z \<noteq> OLess"
  using assms in_column_not_mixed value_key_inject [of x y]
  by (auto simp: value_cmp_key ord_cmp_def split: if_splits)

lemma compare_keys_reverse: "compare_keys bs as dirs = ord_reverse (compare_keys as bs dirs)"
proof (induction as bs dirs rule: compare_keys.induct)
  case (1 a as b bs dir dirs)
  then show ?case using value_cmp_reverse [of b a] by (auto simp: Let_def)
qed simp_all

text \<open>The comparison of two keys of an ordering, with its direction.\<close>

definition directed_cmp :: "direction \<Rightarrow> sql_value \<Rightarrow> sql_value \<Rightarrow> ordering" where
  "directed_cmp dir a b = (if dir = Descending then ord_reverse (value_cmp a b) else value_cmp a b)"

lemma compare_keys_Cons:
  "compare_keys (a # as) (b # bs) (dir # dirs) =
     (if directed_cmp dir a b \<noteq> OEqual then directed_cmp dir a b else compare_keys as bs dirs)"
  by (simp add: directed_cmp_def Let_def)

lemma directed_cmp_in_column:
  assumes "in_column t x" "in_column t y" "in_column t z"
  shows "directed_cmp dir x y = OEqual \<longleftrightarrow> x = y"
    and "directed_cmp dir x y \<noteq> OGreater \<Longrightarrow> directed_cmp dir y z \<noteq> OGreater \<Longrightarrow> directed_cmp dir x z \<noteq> OGreater"
  using value_cmp_in_column [OF assms] by (auto simp: directed_cmp_def)

lemma directed_cmp_reverse: "directed_cmp dir y x = ord_reverse (directed_cmp dir x y)"
  by (cases "value_cmp x y") (simp_all add: directed_cmp_def value_cmp_reverse [of y x])

lemma compare_keys_trans:
  assumes "list_all2 in_column ts as" "list_all2 in_column ts bs" "list_all2 in_column ts cs"
    "compare_keys as bs dirs \<noteq> OGreater" "compare_keys bs cs dirs \<noteq> OGreater"
  shows "compare_keys as cs dirs \<noteq> OGreater"
  using assms
proof (induction ts arbitrary: as bs cs dirs)
  case (Cons t ts)
  then obtain a as' b bs' c cs' where l: "as = a # as'" "bs = b # bs'" "cs = c # cs'"
    by (auto simp: list_all2_Cons1)
  show ?case
  proof (cases dirs)
    case (Cons dir dirs')
    from Cons.prems l have t: "in_column t a" "in_column t b" "in_column t c" by simp_all
    show ?thesis
    proof (cases "a = b \<or> b = c")
      case True
      then show ?thesis
        using Cons.IH [of as' bs' cs' dirs'] Cons.prems l Cons directed_cmp_in_column(1) [of t _ _ a dir] t
        by (auto simp: compare_keys_Cons simp del: compare_keys.simps split: if_splits)
    next
      case False
      then have "directed_cmp dir a b = OLess" "directed_cmp dir b c = OLess"
        using Cons.prems l Cons directed_cmp_in_column(1) [of t _ _ a dir] t
        by (cases "directed_cmp dir a b"; cases "directed_cmp dir b c";
            auto simp: compare_keys_Cons simp del: compare_keys.simps)+
      then have "directed_cmp dir a c = OLess"
        using directed_cmp_in_column(2) [OF t, of dir] directed_cmp_in_column(1) [of t a c a dir]
          directed_cmp_reverse [of dir b c] t
        by (cases "directed_cmp dir a c") auto
      then show ?thesis using l Cons by (simp add: compare_keys_Cons del: compare_keys.simps)
    qed
  qed simp
qed simp

definition sort_keys :: "value_ops \<Rightarrow> (expression \<times> direction) list \<Rightarrow> sql_row \<Rightarrow> sql_value list" where
  "sort_keys F order row = map (\<lambda>(e, _). unwrap (evaluate F e (Some row))) order"

definition row_cmp :: "value_ops \<Rightarrow> (expression \<times> direction) list \<Rightarrow> sql_row \<Rightarrow> sql_row \<Rightarrow> ordering" where
  "row_cmp F order a b = compare_keys (sort_keys F order a) (sort_keys F order b) (map snd order)"

lemma map_list_result_unwrap: "map_list_result f xs = Ok ys \<Longrightarrow> ys = map (\<lambda>x. unwrap (f x)) xs \<and> (\<forall>x\<in>set xs. f x = Ok (unwrap (f x)))"
  by (induction xs arbitrary: ys) (auto simp: rbind_eq_Ok)

lemma map_insert_by:
  "(\<And>y. y \<in> set ys \<Longrightarrow> cmp' (f x) (f y) = cmp x y) \<Longrightarrow> map f (insert_by cmp x ys) = insert_by cmp' (f x) (map f ys)"
  by (induction ys) auto

lemma map_sort_by:
  "(\<And>x y. x \<in> set xs \<Longrightarrow> y \<in> set xs \<Longrightarrow> cmp' (f x) (f y) = cmp x y) \<Longrightarrow> map f (sort_by cmp xs) = sort_by cmp' (map f xs)"
proof (induction xs)
  case (Cons x xs)
  have "map f (insert_by cmp x (sort_by cmp xs)) = insert_by cmp' (f x) (map f (sort_by cmp xs))"
    using Cons.prems set_sort_by [of cmp xs] by (intro map_insert_by) auto
  with Cons show ?case by (simp add: sort_by_def)
qed (simp add: sort_by_def)

lemma order_rows_Ok:
  assumes "order_rows F items order = Ok out"
  obtains rows where "items = map Ok rows" "out = map Ok (sort_by (row_cmp F order) rows)"
    "\<And>row e dir. row \<in> set rows \<Longrightarrow> (e, dir) \<in> set order \<Longrightarrow> \<exists>v. evaluate F e (Some row) = Ok v"
proof -
  let ?eval = "\<lambda>row. map_list_result (\<lambda>(e, _). evaluate F e (Some row)) order"
  let ?key = "\<lambda>item. rbind item (\<lambda>row. rbind (?eval row) (\<lambda>keys. Ok (row, keys)))"
  from assms obtain keyed where keyed: "map_list_result ?key items = Ok keyed"
    and out: "out = map (\<lambda>(row, _). Ok row) (sort_by (\<lambda>a b. compare_keys (snd a) (snd b) (map snd order)) keyed)"
    by (auto simp: order_rows_def rbind_eq_Ok)
  have eval: "keys = sort_keys F order row \<and> (\<forall>(e, dir) \<in> set order. \<exists>v. evaluate F e (Some row) = Ok v)"
    if "?eval row = Ok keys" for row keys
    using map_list_result_unwrap [OF that] by (fastforce simp: sort_keys_def)
  have "keyed = map (\<lambda>row. (row, sort_keys F order row)) (map fst keyed) \<and> items = map Ok (map fst keyed) \<and>
      (\<forall>row\<in>set (map fst keyed). \<forall>(e, dir) \<in> set order. \<exists>v. evaluate F e (Some row) = Ok v)"
    using keyed
  proof (induction items arbitrary: keyed)
    case (Cons item items)
    then obtain row keys rest where "item = Ok row" "?eval row = Ok keys" "map_list_result ?key items = Ok rest"
      "keyed = (row, keys) # rest" by (auto simp: rbind_eq_Ok)
    with Cons.IH [of rest] eval [of row keys] show ?case by auto
  qed simp
  then obtain rows where rows: "keyed = map (\<lambda>row. (row, sort_keys F order row)) rows" "items = map Ok rows"
    "\<forall>row\<in>set rows. \<forall>(e, dir) \<in> set order. \<exists>v. evaluate F e (Some row) = Ok v" by blast
  have "map fst (sort_by (\<lambda>a b. compare_keys (snd a) (snd b) (map snd order)) keyed) = sort_by (row_cmp F order) (map fst keyed)"
    using rows(1) by (intro map_sort_by) (auto simp: row_cmp_def)
  moreover have "map fst keyed = rows" using rows(1) by (simp add: comp_def)
  moreover have "out = map Ok (map fst (sort_by (\<lambda>a b. compare_keys (snd a) (snd b) (map snd order)) keyed))"
    using out by (simp add: case_prod_beta comp_def)
  ultimately have "out = map Ok (sort_by (row_cmp F order) rows)" by simp
  with that rows show thesis by blast
qed

lemma row_cmp_preorder:
  assumes "length ts = length order"
    and "\<And>row i. row \<in> A \<Longrightarrow> i < length order \<Longrightarrow> in_column (ts ! i) (sort_keys F order row ! i)"
  shows "preorder_on A (row_cmp F order)"
proof -
  have "list_all2 in_column ts (sort_keys F order row)" if "row \<in> A" for row
    using assms that by (auto simp: list_all2_conv_all_nth sort_keys_def)
  with compare_keys_trans show ?thesis
    unfolding preorder_on_def row_cmp_def by (metis compare_keys_reverse)
qed

text \<open>
  When a row belongs before another: the first sort key on which they differ is before, or after when it is
  \<^verbatim>\<open>DESC\<close>, in the order of values.
\<close>

definition key_before :: "direction \<Rightarrow> sql_value \<Rightarrow> sql_value \<Rightarrow> bool" where
  "key_before dir a b = (case dir of Ascending \<Rightarrow> sorts_before a b | Descending \<Rightarrow> sorts_before b a)"

definition keys_before :: "direction list \<Rightarrow> sql_value list \<Rightarrow> sql_value list \<Rightarrow> bool" where
  "keys_before dirs as bs = (\<exists>i < length dirs. take i as = take i bs \<and> key_before (dirs ! i) (as ! i) (bs ! i))"

lemma keys_before_Cons:
  "keys_before (dir # dirs) (a # as) (b # bs) \<longleftrightarrow> key_before dir a b \<or> a = b \<and> keys_before dirs as bs"
  by (simp add: keys_before_def Nat.Ex_less_Suc2) blast

lemma directed_before:
  assumes "in_column t a" "in_column t b"
  shows "directed_cmp dir a b = OLess \<longleftrightarrow> key_before dir a b"
  using sorts_before_cmp [OF in_column_not_mixed [OF assms]] sorts_before_cmp [OF in_column_not_mixed [OF assms(2,1)]]
    value_cmp_reverse [of a b]
  by (cases dir) (auto simp: directed_cmp_def key_before_def)

lemma compare_keys_before:
  assumes "list_all2 in_column ts as" "list_all2 in_column ts bs" "length dirs = length ts"
  shows "(compare_keys as bs dirs = OLess \<longleftrightarrow> keys_before dirs as bs) \<and> (compare_keys as bs dirs = OEqual \<longleftrightarrow> as = bs)"
  using assms
proof (induction ts arbitrary: as bs dirs)
  case Nil
  then show ?case by (simp add: keys_before_def)
next
  case (Cons t ts)
  then obtain a as' b bs' dir dirs' where l: "as = a # as'" "bs = b # bs'" "dirs = dir # dirs'"
    "in_column t a" "in_column t b" "list_all2 in_column ts as'" "list_all2 in_column ts bs'" "length dirs' = length ts"
    by (auto simp: list_all2_Cons1 length_Suc_conv)
  with Cons.IH [of as' bs' dirs'] directed_before [OF l(4,5), of dir] directed_cmp_in_column(1) [OF l(4,5,4), of dir] show ?case
    by (auto simp: compare_keys_Cons keys_before_Cons simp del: compare_keys.simps)
qed

text \<open>The fuel given to a join is enough to see its end.\<close>

lemma join_items_nested_loop:
  "join_items (length left * Suc (length right)) (nlj_try_next F) (nlj_new left right n p outer) =
     until_panic (nested_loop F p outer n left right)"
  unfolding join_items_def
  by (subst yields_drain [OF nlj_yields]) (simp_all only: le_imp_less_Suc nested_loop_length option.case)

section \<open>Properties\<close>

text \<open>
  Property C30. \<^verbatim>\<open>ORDER BY\<close>: when the sort keys of every row evaluate, each to values of one type, sorting succeeds, and its
  result is a permutation of the source rows in which no row comes after one that belongs after it, by the first
  sort key that tells them apart and its direction; rows with the same keys keep the order of the source.
\<close>

theorem order_by_sorts:
  assumes "execute_node F T s source = Ok (map Ok rows)" "length ts = length order"
    and "\<forall>row\<in>set rows. \<forall>i<length order. \<exists>v. evaluate F (fst (order ! i)) (Some row) = Ok v \<and> in_column (ts ! i) v"
  shows "\<exists>sorted. execute_node F T s (Order source order) = Ok (map Ok sorted) \<and> mset sorted = mset rows \<and>
    sorted_wrt (\<lambda>a b. \<not> keys_before (map snd order) (sort_keys F order b) (sort_keys F order a)) sorted \<and>
    (\<forall>k\<in>set rows. filter (\<lambda>r. sort_keys F order r = sort_keys F order k) sorted =
       filter (\<lambda>r. sort_keys F order r = sort_keys F order k) rows)"
proof -
  have typed: "list_all2 in_column ts (sort_keys F order row)" if "row \<in> set rows" for row
    using assms(2,3) that by (fastforce simp: list_all2_conv_all_nth sort_keys_def split_def)
  have pre: "preorder_on (set rows) (row_cmp F order)"
    using assms(2) typed by (intro row_cmp_preorder) (auto simp: list_all2_conv_all_nth)
  have "map_list_result (\<lambda>(e, _). evaluate F e (Some row)) order = Ok (sort_keys F order row)" if "row \<in> set rows" for row
    using assms(3) that unfolding sort_keys_def
    by (intro map_list_result_Ok) (fastforce simp: in_set_conv_nth)
  then have "map_list_result (\<lambda>item. rbind item (\<lambda>row. rbind (map_list_result (\<lambda>(e, _). evaluate F e (Some row)) order)
      (\<lambda>keys. Ok (row, keys)))) (map Ok rows) = Ok (map (\<lambda>row. (row, sort_keys F order row)) rows)"
    by (simp add: map_list_result_map map_list_result_Ok)
  then obtain out where "order_rows F (map Ok rows) order = Ok out" by (simp add: order_rows_def)
  moreover from this have "out = map Ok (sort_by (row_cmp F order) rows)"
    by (rule order_rows_Ok) (simp add: inj_map_eq_map inj_on_def)
  ultimately have run: "execute_node F T s (Order source order) = Ok (map Ok (sort_by (row_cmp F order) rows))"
    using assms(1) by simp
  have cmp: "(row_cmp F order a b = OLess \<longleftrightarrow> keys_before (map snd order) (sort_keys F order a) (sort_keys F order b)) \<and>
      (row_cmp F order a b = OEqual \<longleftrightarrow> sort_keys F order a = sort_keys F order b)" if "a \<in> set rows" "b \<in> set rows" for a b
    unfolding row_cmp_def using typed that assms(2) by (intro compare_keys_before) auto
  have "sorted_wrt (\<lambda>a b. \<not> keys_before (map snd order) (sort_keys F order b) (sort_keys F order a)) (sort_by (row_cmp F order) rows)"
  proof (rule sorted_wrt_mono_rel [OF _ sort_by_sorted(1) [OF pre subset_refl]])
    fix a b
    assume "a \<in> set (sort_by (row_cmp F order) rows)" "b \<in> set (sort_by (row_cmp F order) rows)" "row_cmp F order a b \<noteq> OGreater"
    then show "\<not> keys_before (map snd order) (sort_keys F order b) (sort_keys F order a)"
      using cmp [of b a] preorder_reverse [OF pre, of a b] by (simp add: set_sort_by)
  qed
  moreover have "filter (\<lambda>r. sort_keys F order r = sort_keys F order k) (sort_by (row_cmp F order) rows) =
      filter (\<lambda>r. sort_keys F order r = sort_keys F order k) rows" if "k \<in> set rows" for k
  proof -
    have "filter (\<lambda>r. sort_keys F order r = sort_keys F order k) xs = filter (\<lambda>r. row_cmp F order r k = OEqual) xs"
      if "set xs \<subseteq> set rows" for xs
      using cmp \<open>k \<in> set rows\<close> that by (intro filter_cong) auto
    from this [of rows] this [of "sort_by (row_cmp F order) rows"] sort_by_sorted(2) [OF pre subset_refl that]
    show ?thesis by (simp add: set_sort_by)
  qed
  ultimately show ?thesis using run by (intro exI [of _ "sort_by (row_cmp F order) rows"]) (simp add: mset_sort_by)
qed

section \<open>Witnesses\<close>

text \<open>\<^verbatim>\<open>ORDER BY a DESC\<close> of three rows, two of which have the same key.\<close>

definition demo_rows :: "sql_row list" where
  "demo_rows = [[Integer 1, Boolean True], [Null, Boolean True], [Integer 1, Boolean False]]"

definition demo_source :: plan_node where
  "demo_source = Values (map (map Constant) demo_rows)"

definition demo_order :: "(expression \<times> direction) list" where
  "demo_order = [(Column 0, Descending)]"

theorem order_by_sorts_witness:
  "\<forall>T :: unit sql_txn. \<exists>sorted. execute_node demo_ops T () (Order demo_source demo_order) = Ok (map Ok sorted) \<and>
    mset sorted = mset demo_rows \<and>
    sorted_wrt (\<lambda>a b. \<not> keys_before (map snd demo_order) (sort_keys demo_ops demo_order b) (sort_keys demo_ops demo_order a)) sorted \<and>
    (\<forall>k\<in>set demo_rows. filter (\<lambda>r. sort_keys demo_ops demo_order r = sort_keys demo_ops demo_order k) sorted =
       filter (\<lambda>r. sort_keys demo_ops demo_order r = sort_keys demo_ops demo_order k) demo_rows)"
  by (intro allI order_by_sorts [where ts = "[IntegerType]"])
    (auto simp: demo_source_def demo_rows_def demo_order_def in_column_def lookup_column_def)

end
