(* ===== verification/SqlToken.thy ===== *)
theory SqlToken
  imports SqlSchema
begin

text \<open>
  \<^verbatim>\<open>src/sql/parser/lexer.rs\<close>: keywords and tokens.
\<close>

section \<open>Tokens\<close>

datatype keyword =
    KwAnd | KwAs | KwAsc | KwBegin | KwBool | KwBoolean | KwBy | KwCommit | KwCreate | KwCross |
    KwDefault | KwDelete | KwDesc | KwDouble | KwDrop | KwExists | KwExplain | KwFalse | KwFloat |
    KwFrom | KwGroup | KwHaving | KwIf | KwIndex | KwInfinity | KwInner | KwInsert | KwInt |
    KwInteger | KwInto | KwIs | KwJoin | KwKey | KwLeft | KwLike | KwLimit | KwNaN | KwNot |
    KwNull | KwOf | KwOffset | KwOn | KwOnly | KwOr | KwOrder | KwOuter | KwPrimary | KwRead |
    KwReferences | KwRight | KwRollback | KwSelect | KwSet | KwString | KwSystem | KwTable |
    KwText | KwTime | KwTransaction | KwTrue | KwUnique | KwUpdate | KwValues | KwVarchar |
    KwWhere | KwWrite

datatype token =
    TokNumber string | TokString string | TokIdent string | TokKeyword keyword
  | TokPeriod | TokEqual | TokNotEqual | TokGreaterThan | TokGreaterThanOrEqual | TokLessThan |
    TokLessThanOrEqual | TokLessOrGreaterThan | TokPlus | TokMinus | TokAsterisk | TokSlash |
    TokCaret | TokPercent | TokExclamation | TokQuestion | TokComma | TokSemicolon | TokOpenParen |
    TokCloseParen

text \<open>The names of the keyword_names, as \<^verbatim>\<open>Keyword::try_from\<close> knows them.\<close>

definition keyword_names :: "(string \<times> keyword) list" where
  "keyword_names = [
     (''as'', KwAs), (''asc'', KwAsc), (''and'', KwAnd), (''begin'', KwBegin), (''bool'', KwBool),
     (''boolean'', KwBoolean), (''by'', KwBy), (''commit'', KwCommit), (''create'', KwCreate),
     (''cross'', KwCross), (''default'', KwDefault), (''delete'', KwDelete), (''desc'', KwDesc),
     (''double'', KwDouble), (''drop'', KwDrop), (''exists'', KwExists), (''explain'', KwExplain),
     (''false'', KwFalse), (''float'', KwFloat), (''from'', KwFrom), (''group'', KwGroup),
     (''having'', KwHaving), (''if'', KwIf), (''index'', KwIndex), (''infinity'', KwInfinity),
     (''inner'', KwInner), (''insert'', KwInsert), (''int'', KwInt), (''integer'', KwInteger),
     (''into'', KwInto), (''is'', KwIs), (''join'', KwJoin), (''key'', KwKey), (''left'', KwLeft),
     (''like'', KwLike), (''limit'', KwLimit), (''nan'', KwNaN), (''not'', KwNot),
     (''null'', KwNull), (''of'', KwOf), (''offset'', KwOffset), (''on'', KwOn),
     (''only'', KwOnly), (''or'', KwOr), (''order'', KwOrder), (''outer'', KwOuter),
     (''primary'', KwPrimary), (''read'', KwRead), (''references'', KwReferences),
     (''right'', KwRight), (''rollback'', KwRollback), (''select'', KwSelect), (''set'', KwSet),
     (''string'', KwString), (''system'', KwSystem), (''table'', KwTable), (''text'', KwText),
     (''time'', KwTime), (''transaction'', KwTransaction), (''true'', KwTrue),
     (''unique'', KwUnique), (''update'', KwUpdate), (''values'', KwValues),
     (''varchar'', KwVarchar), (''where'', KwWhere), (''write'', KwWrite)]"

definition keyword_of :: "string \<Rightarrow> keyword option" where
  "keyword_of s = map_of keyword_names s"

fun keyword_text :: "keyword \<Rightarrow> string" where
  "keyword_text KwAs = ''AS''"
| "keyword_text KwAsc = ''ASC''"
| "keyword_text KwAnd = ''AND''"
| "keyword_text KwBegin = ''BEGIN''"
| "keyword_text KwBool = ''BOOL''"
| "keyword_text KwBoolean = ''BOOLEAN''"
| "keyword_text KwBy = ''BY''"
| "keyword_text KwCommit = ''COMMIT''"
| "keyword_text KwCreate = ''CREATE''"
| "keyword_text KwCross = ''CROSS''"
| "keyword_text KwDefault = ''DEFAULT''"
| "keyword_text KwDelete = ''DELETE''"
| "keyword_text KwDesc = ''DESC''"
| "keyword_text KwDouble = ''DOUBLE''"
| "keyword_text KwDrop = ''DROP''"
| "keyword_text KwExists = ''EXISTS''"
| "keyword_text KwExplain = ''EXPLAIN''"
| "keyword_text KwFalse = ''FALSE''"
| "keyword_text KwFloat = ''FLOAT''"
| "keyword_text KwFrom = ''FROM''"
| "keyword_text KwGroup = ''GROUP''"
| "keyword_text KwHaving = ''HAVING''"
| "keyword_text KwIf = ''IF''"
| "keyword_text KwIndex = ''INDEX''"
| "keyword_text KwInfinity = ''INFINITY''"
| "keyword_text KwInner = ''INNER''"
| "keyword_text KwInsert = ''INSERT''"
| "keyword_text KwInt = ''INT''"
| "keyword_text KwInteger = ''INTEGER''"
| "keyword_text KwInto = ''INTO''"
| "keyword_text KwIs = ''IS''"
| "keyword_text KwJoin = ''JOIN''"
| "keyword_text KwKey = ''KEY''"
| "keyword_text KwLeft = ''LEFT''"
| "keyword_text KwLike = ''LIKE''"
| "keyword_text KwLimit = ''LIMIT''"
| "keyword_text KwNaN = ''NAN''"
| "keyword_text KwNot = ''NOT''"
| "keyword_text KwNull = ''NULL''"
| "keyword_text KwOf = ''OF''"
| "keyword_text KwOffset = ''OFFSET''"
| "keyword_text KwOn = ''ON''"
| "keyword_text KwOnly = ''ONLY''"
| "keyword_text KwOuter = ''OUTER''"
| "keyword_text KwOr = ''OR''"
| "keyword_text KwOrder = ''ORDER''"
| "keyword_text KwPrimary = ''PRIMARY''"
| "keyword_text KwRead = ''READ''"
| "keyword_text KwReferences = ''REFERENCES''"
| "keyword_text KwRight = ''RIGHT''"
| "keyword_text KwRollback = ''ROLLBACK''"
| "keyword_text KwSelect = ''SELECT''"
| "keyword_text KwSet = ''SET''"
| "keyword_text KwString = ''STRING''"
| "keyword_text KwSystem = ''SYSTEM''"
| "keyword_text KwTable = ''TABLE''"
| "keyword_text KwText = ''TEXT''"
| "keyword_text KwTime = ''TIME''"
| "keyword_text KwTransaction = ''TRANSACTION''"
| "keyword_text KwTrue = ''TRUE''"
| "keyword_text KwUnique = ''UNIQUE''"
| "keyword_text KwUpdate = ''UPDATE''"
| "keyword_text KwValues = ''VALUES''"
| "keyword_text KwVarchar = ''VARCHAR''"
| "keyword_text KwWhere = ''WHERE''"
| "keyword_text KwWrite = ''WRITE''"

fun token_text :: "token \<Rightarrow> string" where
  "token_text (TokNumber n) = n"
| "token_text (TokString s) = s"
| "token_text (TokIdent s) = s"
| "token_text (TokKeyword k) = keyword_text k"
| "token_text TokPeriod = ''.''"
| "token_text TokEqual = ''=''"
| "token_text TokNotEqual = ''!=''"
| "token_text TokGreaterThan = ''>''"
| "token_text TokGreaterThanOrEqual = ''>=''"
| "token_text TokLessThan = ''<''"
| "token_text TokLessThanOrEqual = ''<=''"
| "token_text TokLessOrGreaterThan = ''<>''"
| "token_text TokPlus = ''+''"
| "token_text TokMinus = ''-''"
| "token_text TokAsterisk = ''*''"
| "token_text TokSlash = ''/''"
| "token_text TokCaret = ''^''"
| "token_text TokPercent = ''%''"
| "token_text TokExclamation = ''!''"
| "token_text TokQuestion = ''?''"
| "token_text TokComma = '',''"
| "token_text TokSemicolon = '';''"
| "token_text TokOpenParen = ''(''"
| "token_text TokCloseParen = '')''"

end
