(* ===== verification/SqlLexer.thy ===== *)
theory SqlLexer
  imports SqlToken
begin

text \<open>
  \<^verbatim>\<open>src/sql/parser/lexer.rs\<close>: the lexer. Its state is the rest of its input. Input is ASCII text: the
  Unicode tables behind \<^verbatim>\<open>char::is_alphabetic\<close> and its relatives are modelled for these characters only.
\<close>

section \<open>Characters\<close>

definition char_code :: "char \<Rightarrow> nat" where
  "char_code c = of_char c"

definition is_ascii_digit :: "char \<Rightarrow> bool" where
  "is_ascii_digit c = (48 \<le> char_code c \<and> char_code c \<le> 57)"

definition is_uppercase :: "char \<Rightarrow> bool" where
  "is_uppercase c = (65 \<le> char_code c \<and> char_code c \<le> 90)"

definition is_alphabetic :: "char \<Rightarrow> bool" where
  "is_alphabetic c = (is_uppercase c \<or> 97 \<le> char_code c \<and> char_code c \<le> 122)"

definition is_whitespace :: "char \<Rightarrow> bool" where
  "is_whitespace c = (9 \<le> char_code c \<and> char_code c \<le> 13 \<or> char_code c = 32)"

definition to_lowercase :: "char \<Rightarrow> char" where
  "to_lowercase c = (if is_uppercase c then char_of (char_code c + 32) else c)"

section \<open>Scanning\<close>

text \<open>Each scanner returns the token and the rest of the input.\<close>

definition ident_char :: "char \<Rightarrow> bool" where
  "ident_char c = (is_alphabetic c \<or> is_ascii_digit c \<or> c = CHR ''_'')"

definition scan_ident_or_keyword :: "string \<Rightarrow> token option \<times> string" where
  "scan_ident_or_keyword s = (case s of
      c # r \<Rightarrow>
        if is_alphabetic c
        then let name = map to_lowercase (c # takeWhile ident_char r) in
          (Some (case keyword_of name of Some k \<Rightarrow> TokKeyword k | None \<Rightarrow> TokIdent name), dropWhile ident_char r)
        else (None, s)
    | [] \<Rightarrow> (None, s))"

text \<open>The text up to the closing quote, in which a doubled quote stands for one.\<close>

fun scan_quoted :: "char \<Rightarrow> string \<Rightarrow> (string \<times> string) option" where
  "scan_quoted q [] = None"
| "scan_quoted q (c # r) =
     (if c = q
      then case r of
          d # r' \<Rightarrow> if d = q then map_option (\<lambda>(x, r). (q # x, r)) (scan_quoted q r') else Some ([], r)
        | [] \<Rightarrow> Some ([], r)
      else map_option (\<lambda>(x, r). (c # x, r)) (scan_quoted q r))"

definition scan_ident_quoted :: "string \<Rightarrow> token option result \<times> string" where
  "scan_ident_quoted s = (case scan_quoted (CHR 0x22) (tl s) of
      Some (x, r) \<Rightarrow> (Ok (Some (TokIdent x)), r)
    | None \<Rightarrow> (errinput ''unexpected end of quoted identifier'', []))"

definition scan_string :: "string \<Rightarrow> token option result \<times> string" where
  "scan_string s = (case scan_quoted (CHR 0x27) (tl s) of
      Some (x, r) \<Rightarrow> (Ok (Some (TokString x)), r)
    | None \<Rightarrow> (errinput ''unexpected end of string literal'', []))"

text \<open>The fractional part and the exponent, if any.\<close>

definition scan_fraction :: "string \<Rightarrow> string \<times> string" where
  "scan_fraction s = (case s of
      c # r \<Rightarrow> if c = CHR ''.'' then (c # takeWhile is_ascii_digit r, dropWhile is_ascii_digit r) else ([], s)
    | [] \<Rightarrow> ([], s))"

definition scan_sign :: "string \<Rightarrow> string \<times> string" where
  "scan_sign s = (case s of
      c # r \<Rightarrow> if c = CHR ''+'' \<or> c = CHR ''-'' then ([c], r) else ([], s)
    | [] \<Rightarrow> ([], s))"

definition scan_exponent :: "string \<Rightarrow> string \<times> string" where
  "scan_exponent s = (case s of
      c # r \<Rightarrow>
        if c = CHR ''e'' \<or> c = CHR ''E''
        then case scan_sign r of (sign, r) \<Rightarrow> (c # sign @ takeWhile is_ascii_digit r, dropWhile is_ascii_digit r)
        else ([], s)
    | [] \<Rightarrow> ([], s))"

definition scan_number :: "string \<Rightarrow> string \<times> string" where
  "scan_number s =
     (case scan_fraction (dropWhile is_ascii_digit s) of (fraction, r) \<Rightarrow>
      case scan_exponent r of (exponent, r) \<Rightarrow>
        (takeWhile is_ascii_digit s @ fraction @ exponent, r))"

definition symbols :: "(char \<times> token) list" where
  "symbols = [
     (CHR ''.'', TokPeriod), (CHR ''='', TokEqual), (CHR ''>'', TokGreaterThan),
     (CHR ''<'', TokLessThan), (CHR ''+'', TokPlus), (CHR ''-'', TokMinus),
     (CHR ''*'', TokAsterisk), (CHR ''/'', TokSlash), (CHR ''^'', TokCaret),
     (CHR ''%'', TokPercent), (CHR ''!'', TokExclamation), (CHR ''?'', TokQuestion),
     (CHR '','', TokComma), (CHR '';'', TokSemicolon), (CHR ''('', TokOpenParen),
     (CHR '')'', TokCloseParen)]"

definition next_is_char :: "char \<Rightarrow> string \<Rightarrow> bool" where
  "next_is_char c s = (case s of d # _ \<Rightarrow> d = c | [] \<Rightarrow> False)"

definition scan_symbol :: "string \<Rightarrow> token option \<times> string" where
  "scan_symbol s = (case s of
      c # r \<Rightarrow> (case map_of symbols c of
          Some t \<Rightarrow>
            if t = TokExclamation \<and> next_is_char (CHR ''='') r then (Some TokNotEqual, tl r)
            else if t = TokGreaterThan \<and> next_is_char (CHR ''='') r then (Some TokGreaterThanOrEqual, tl r)
            else if t = TokLessThan \<and> next_is_char (CHR ''>'') r then (Some TokLessOrGreaterThan, tl r)
            else if t = TokLessThan \<and> next_is_char (CHR ''='') r then (Some TokLessThanOrEqual, tl r)
            else (Some t, r)
        | None \<Rightarrow> (None, s))
    | [] \<Rightarrow> (None, s))"

definition scan :: "string \<Rightarrow> token option result \<times> string" where
  "scan s = (let s = dropWhile is_whitespace s in case s of
      [] \<Rightarrow> (Ok None, s)
    | c # _ \<Rightarrow>
        if c = CHR 0x27 then scan_string s
        else if c = CHR 0x22 then scan_ident_quoted s
        else if is_ascii_digit c then (case scan_number s of (n, r) \<Rightarrow> (Ok (Some (TokNumber n)), r))
        else if is_alphabetic c then (case scan_ident_or_keyword s of (t, r) \<Rightarrow> (Ok t, r))
        else (case scan_symbol s of (t, r) \<Rightarrow> (Ok t, r)))"

text \<open>The iterator.\<close>

definition lexer_next :: "string \<Rightarrow> token result option \<times> string" where
  "lexer_next s = (case scan s of
      (Ok (Some t), r) \<Rightarrow> (Some (Ok t), r)
    | (Ok None, r) \<Rightarrow> (if r = [] then None else Some (errinput ''unexpected character {c}''), r)
    | (Err e, r) \<Rightarrow> (Some (Err e), r)
    | (Panic p, r) \<Rightarrow> (Some (Panic p), r))"

definition is_ident :: "string \<Rightarrow> bool" where
  "is_ident s = (case lexer_next s of
      (Some (Ok (TokIdent _)), r) \<Rightarrow> fst (lexer_next r) = None
    | _ \<Rightarrow> False)"

end
