(* ===== verification/SqlParser.thy ===== *)
theory SqlParser
  imports SqlLexer SqlAst
begin

text \<open>
  \<^verbatim>\<open>src/sql/parser/parser.rs\<close>. The state of the parser is what its peekable lexer has still to yield:
  the tokens up to the end of the input or to the first error, after which no operation goes on.
  Loops that consume a token in every round are bounded by the length of the input, and the depth of
  the recursion of expressions by a multiple of it.
\<close>

section \<open>The token stream\<close>

lemma length_dropWhile: "length (dropWhile p xs) \<le> length xs"
  by (induction xs) auto

lemma scan_quoted_length: "scan_quoted q s = Some (x, r) \<Longrightarrow> length r < length s"
  by (induction q s arbitrary: x r rule: scan_quoted.induct) (force split: if_splits list.splits)+

lemma scan_fraction_length: "scan_fraction s = (x, r) \<Longrightarrow> length r \<le> length s"
  using length_dropWhile [of is_ascii_digit "tl s"] by (auto simp: scan_fraction_def split: list.splits if_splits)

lemma scan_sign_length: "scan_sign s = (x, r) \<Longrightarrow> length r \<le> length s"
  by (auto simp: scan_sign_def split: list.splits if_splits)

lemma scan_exponent_length: "scan_exponent s = (x, r) \<Longrightarrow> length r \<le> length s"
  using length_dropWhile [of is_ascii_digit "snd (scan_sign (tl s))"] scan_sign_length [of "tl s"]
  by (fastforce simp: scan_exponent_def split: list.splits if_splits prod.splits)

lemma scan_number_length:
  assumes "is_ascii_digit c" "scan_number (c # s) = (n, r)"
  shows "length r < length (c # s)"
  using assms length_dropWhile [of is_ascii_digit s]
  by (auto simp: scan_number_def split: prod.splits dest!: scan_fraction_length scan_exponent_length)

lemma lexer_next_length:
  assumes "lexer_next s = (Some (Ok t), r)"
  shows "length r < length s"
proof -
  let ?s = "dropWhile is_whitespace s"
  from assms have "scan s = (Ok (Some t), r)"
    by (auto simp: lexer_next_def split: prod.splits result.splits option.splits if_splits)
  then have "length r < length ?s"
    using scan_number_length [of "hd ?s" "tl ?s"] length_dropWhile [of ident_char "tl ?s"]
    by (auto simp: scan_def Let_def scan_string_def scan_ident_quoted_def scan_ident_or_keyword_def scan_symbol_def
        split: list.splits if_splits option.splits prod.splits dest: scan_quoted_length)
  then show ?thesis using length_dropWhile [of is_whitespace s] by simp
qed

text \<open>What the lexer yields, up to its first error.\<close>

function tokens :: "string \<Rightarrow> token result list" where
  "tokens s = (case lexer_next s of
      (None, _) \<Rightarrow> []
    | (Some (Ok t), r) \<Rightarrow> Ok t # tokens r
    | (Some e, _) \<Rightarrow> [e])"
  by auto
termination
  by (relation "measure length") (auto dest!: sym [of _ "lexer_next _"] simp: lexer_next_length)

declare tokens.simps [simp del]

type_synonym 'a parser = "(token result list, 'a) op"

definition peek :: "token option parser" where
  "peek ts = (case ts of
      [] \<Rightarrow> (Ok None, ts)
    | Ok t # _ \<Rightarrow> (Ok (Some t), ts)
    | Err e # _ \<Rightarrow> (Err e, ts)
    | Panic p # _ \<Rightarrow> (Panic p, ts))"

definition next_token :: "token parser" where
  "next_token ts = (case ts of
      [] \<Rightarrow> (errinput ''unexpected end of input'', ts)
    | r # ts \<Rightarrow> (r, ts))"

definition next_ident :: "string parser" where
  "next_ident = sbind next_token (\<lambda>t. slift (case t of
      TokIdent ident \<Rightarrow> Ok ident
    | _ \<Rightarrow> errinput ''expected identifier, got {token}''))"

text \<open>These ignore an error of the lexer, which stays where it is.\<close>

definition next_if_map :: "(token \<Rightarrow> 'a option) \<Rightarrow> 'a option parser" where
  "next_if_map f ts = (case ts of
      Ok t # r \<Rightarrow> (case f t of Some x \<Rightarrow> (Ok (Some x), r) | None \<Rightarrow> (Ok None, ts))
    | _ \<Rightarrow> (Ok None, ts))"

definition next_if :: "(token \<Rightarrow> bool) \<Rightarrow> token option parser" where
  "next_if p = next_if_map (\<lambda>t. if p t then Some t else None)"

definition next_if_keyword :: "keyword option parser" where
  "next_if_keyword = next_if_map (\<lambda>t. case t of TokKeyword k \<Rightarrow> Some k | _ \<Rightarrow> None)"

definition next_is :: "token \<Rightarrow> bool parser" where
  "next_is t = sbind (next_if (\<lambda>t'. t' = t)) (\<lambda>x. sreturn (x \<noteq> None))"

definition expect :: "token \<Rightarrow> unit parser" where
  "expect t = sbind next_token (\<lambda>t'.
     if t' \<noteq> t then slift (errinput ''expected token {expect}, found {token}'') else sreturn ())"

definition skip :: "token \<Rightarrow> unit parser" where
  "skip t = sbind (next_is t) (\<lambda>_. sreturn ())"

text \<open>
  \<^verbatim>\<open>loop { item; if !next_is(sep) { break } }\<close>, the list that collects the items; every round but the
  last consumes the separator.
\<close>

fun sep_loop :: "nat \<Rightarrow> token \<Rightarrow> 'a parser \<Rightarrow> 'a list parser" where
  "sep_loop 0 sep item = slift (Panic ''out of fuel'')"
| "sep_loop (Suc n) sep item =
     sbind item (\<lambda>x.
     sbind (next_is sep) (\<lambda>more.
     if more then sbind (sep_loop n sep item) (\<lambda>xs. sreturn (x # xs)) else sreturn [x]))"

definition sep_list :: "token \<Rightarrow> 'a parser \<Rightarrow> 'a list parser" where
  "sep_list sep item ts = sep_loop (Suc (length ts)) sep item ts"

section \<open>Numbers\<close>

definition digit_value :: "char \<Rightarrow> nat" where
  "digit_value c = char_code c - 48"

text \<open>\<^verbatim>\<open>str::parse\<close> of an unsigned text into an integer below \<open>limit\<close>.\<close>

fun parse_digits :: "nat \<Rightarrow> nat \<Rightarrow> string \<Rightarrow> nat result" where
  "parse_digits limit acc [] = Ok acc"
| "parse_digits limit acc (c # s) =
     (if \<not> is_ascii_digit c then errinput ''invalid digit found in string''
      else if acc * 10 + digit_value c \<ge> limit then errinput ''number too large to fit in target type''
      else parse_digits limit (acc * 10 + digit_value c) s)"

definition parse_uint :: "nat \<Rightarrow> string \<Rightarrow> nat result" where
  "parse_uint limit s =
     (if s = [] then errinput ''cannot parse integer from empty string'' else parse_digits limit 0 s)"

definition parse_i64 :: "string \<Rightarrow> i64 result" where
  "parse_i64 s = rbind (parse_uint (2 ^ 63) s) (\<lambda>n. Ok (word_of_nat n))"

definition parse_u64 :: "string \<Rightarrow> u64 result" where
  "parse_u64 s = rbind (parse_uint (2 ^ 64) s) (\<lambda>n. Ok (word_of_nat n))"

definition digits_value :: "string \<Rightarrow> nat" where
  "digits_value s = foldl (\<lambda>acc c. acc * 10 + digit_value c) 0 s"

text \<open>The value nearest to \<open>m * 10 ^ k\<close>.\<close>

definition f64_decimal :: "nat \<Rightarrow> int \<Rightarrow> f64" where
  "f64_decimal m k =
     (if 0 \<le> k then f64_round False (m * 10 ^ nat k * 2 ^ 1074) 1
      else f64_round False (m * 2 ^ 1074) (10 ^ nat (- k)))"

text \<open>\<^verbatim>\<open>str::parse\<close> of an unsigned text into a float: digits with a point, and an exponent.\<close>

definition parse_f64 :: "string \<Rightarrow> f64 result" where
  "parse_f64 s =
     (let int_part = takeWhile is_ascii_digit s; r = dropWhile is_ascii_digit s;
          (fraction, r) = (case r of
              c # r' \<Rightarrow> if c = CHR ''.'' then (takeWhile is_ascii_digit r', dropWhile is_ascii_digit r') else ([], r)
            | [] \<Rightarrow> ([], r));
          m = digits_value (int_part @ fraction); k = - int (length fraction);
          invalid = errinput ''invalid float literal''
      in if int_part @ fraction = [] then invalid
         else case r of
           [] \<Rightarrow> Ok (f64_decimal m k)
         | c # r' \<Rightarrow>
             if c = CHR ''e'' \<or> c = CHR ''E''
             then let (neg, r') = (case r' of
                        d # r'' \<Rightarrow> if d = CHR ''-'' then (True, r'') else if d = CHR ''+'' then (False, r'') else (False, r')
                      | [] \<Rightarrow> (False, r'))
               in if r' = [] \<or> \<not> list_all is_ascii_digit r' then invalid
                  else Ok (f64_decimal m (k + (if neg then - int (digits_value r') else int (digits_value r'))))
             else invalid)"

section \<open>Operators\<close>

datatype associativity = AssocLeft | AssocRight

text \<open>\<^verbatim>\<open>Precedence + Associativity\<close>.\<close>

fun prec_add :: "nat \<Rightarrow> associativity \<Rightarrow> nat" where
  "prec_add p AssocLeft = p + 1"
| "prec_add p AssocRight = p"

datatype prefix_operator = PreMinus | PreNot | PrePlus

fun prefix_precedence :: "prefix_operator \<Rightarrow> nat" where
  "prefix_precedence PreNot = 3"
| "prefix_precedence PreMinus = 10"
| "prefix_precedence PrePlus = 10"

definition prefix_associativity :: "prefix_operator \<Rightarrow> associativity" where
  "prefix_associativity op = AssocRight"

fun prefix_expression :: "prefix_operator \<Rightarrow> ast_expr \<Rightarrow> ast_expr" where
  "prefix_expression PrePlus rhs = AstOperator (OpIdentity rhs)"
| "prefix_expression PreMinus rhs = AstOperator (OpNegate rhs)"
| "prefix_expression PreNot rhs = AstOperator (OpNot rhs)"

datatype infix_operator =
    InAdd | InAnd | InDivide | InEqual | InExponentiate | InGreaterThan | InGreaterThanOrEqual | InLessThan
  | InLessThanOrEqual | InLike | InMultiply | InNotEqual | InOr | InRemainder | InSubtract

fun infix_precedence :: "infix_operator \<Rightarrow> nat" where
  "infix_precedence InOr = 1"
| "infix_precedence InAnd = 2"
| "infix_precedence InEqual = 4"
| "infix_precedence InNotEqual = 4"
| "infix_precedence InLike = 4"
| "infix_precedence InGreaterThan = 5"
| "infix_precedence InGreaterThanOrEqual = 5"
| "infix_precedence InLessThan = 5"
| "infix_precedence InLessThanOrEqual = 5"
| "infix_precedence InAdd = 6"
| "infix_precedence InSubtract = 6"
| "infix_precedence InMultiply = 7"
| "infix_precedence InDivide = 7"
| "infix_precedence InRemainder = 7"
| "infix_precedence InExponentiate = 8"

definition infix_associativity :: "infix_operator \<Rightarrow> associativity" where
  "infix_associativity op = (if op = InExponentiate then AssocRight else AssocLeft)"

fun infix_expression :: "infix_operator \<Rightarrow> ast_expr \<Rightarrow> ast_expr \<Rightarrow> ast_expr" where
  "infix_expression InAdd l r = AstOperator (OpAdd l r)"
| "infix_expression InAnd l r = AstOperator (OpAnd l r)"
| "infix_expression InDivide l r = AstOperator (OpDivide l r)"
| "infix_expression InEqual l r = AstOperator (OpEqual l r)"
| "infix_expression InExponentiate l r = AstOperator (OpExponentiate l r)"
| "infix_expression InGreaterThan l r = AstOperator (OpGreaterThan l r)"
| "infix_expression InGreaterThanOrEqual l r = AstOperator (OpGreaterThanOrEqual l r)"
| "infix_expression InLessThan l r = AstOperator (OpLessThan l r)"
| "infix_expression InLessThanOrEqual l r = AstOperator (OpLessThanOrEqual l r)"
| "infix_expression InLike l r = AstOperator (OpLike l r)"
| "infix_expression InMultiply l r = AstOperator (OpMultiply l r)"
| "infix_expression InNotEqual l r = AstOperator (OpNotEqual l r)"
| "infix_expression InOr l r = AstOperator (OpOr l r)"
| "infix_expression InRemainder l r = AstOperator (OpRemainder l r)"
| "infix_expression InSubtract l r = AstOperator (OpSubtract l r)"

datatype postfix_operator = PostFactorial | PostIs ast_literal | PostIsNot ast_literal

fun postfix_precedence :: "postfix_operator \<Rightarrow> nat" where
  "postfix_precedence (PostIs _) = 4"
| "postfix_precedence (PostIsNot _) = 4"
| "postfix_precedence PostFactorial = 9"

fun postfix_expression :: "postfix_operator \<Rightarrow> ast_expr \<Rightarrow> ast_expr" where
  "postfix_expression PostFactorial lhs = AstOperator (OpFactorial lhs)"
| "postfix_expression (PostIs v) lhs = AstOperator (OpIs lhs v)"
| "postfix_expression (PostIsNot v) lhs = AstOperator (OpNot (AstOperator (OpIs lhs v)))"


section \<open>Expressions\<close>

text \<open>An operator is consumed when its precedence is high enough.\<close>

definition prefix_token :: "token \<Rightarrow> prefix_operator option" where
  "prefix_token t = map_of [
     (TokKeyword KwNot, PreNot), (TokMinus, PreMinus), (TokPlus, PrePlus)] t"

definition infix_token :: "token \<Rightarrow> infix_operator option" where
  "infix_token t = map_of [
     (TokAsterisk, InMultiply), (TokCaret, InExponentiate), (TokEqual, InEqual),
     (TokGreaterThan, InGreaterThan), (TokGreaterThanOrEqual, InGreaterThanOrEqual),
     (TokKeyword KwAnd, InAnd), (TokKeyword KwLike, InLike), (TokKeyword KwOr, InOr),
     (TokLessOrGreaterThan, InNotEqual), (TokLessThan, InLessThan),
     (TokLessThanOrEqual, InLessThanOrEqual), (TokMinus, InSubtract), (TokNotEqual, InNotEqual),
     (TokPercent, InRemainder), (TokPlus, InAdd), (TokSlash, InDivide)] t"

definition at_least :: "('a \<Rightarrow> nat) \<Rightarrow> nat \<Rightarrow> 'a option \<Rightarrow> 'a option" where
  "at_least prec minp x = (case x of Some op \<Rightarrow> if prec op \<ge> minp then Some op else None | None \<Rightarrow> None)"

definition parse_prefix_operator_at :: "nat \<Rightarrow> prefix_operator option parser" where
  "parse_prefix_operator_at minp = next_if_map (\<lambda>t. at_least prefix_precedence minp (prefix_token t))"

definition parse_infix_operator_at :: "nat \<Rightarrow> infix_operator option parser" where
  "parse_infix_operator_at minp = next_if_map (\<lambda>t. at_least infix_precedence minp (infix_token t))"

text \<open>\<^verbatim>\<open>IS\<close> with what follows it.\<close>

definition parse_is :: "postfix_operator parser" where
  "parse_is =
     sbind (expect (TokKeyword KwIs)) (\<lambda>_.
     sbind (next_is (TokKeyword KwNot)) (\<lambda>neg.
     sbind next_token (\<lambda>t.
     sbind (slift (if t = TokKeyword KwNaN then Ok (LitFloat f64_nan)
                   else if t = TokKeyword KwNull then Ok LitNull
                   else errinput ''unexpected token {token}'')) (\<lambda>value.
     sreturn (if neg then PostIsNot value else PostIs value)))))"

definition parse_postfix_operator_at :: "nat \<Rightarrow> postfix_operator option parser" where
  "parse_postfix_operator_at minp =
     sbind peek (\<lambda>t.
     if t = Some (TokKeyword KwIs)
     then if postfix_precedence (PostIs LitNull) < minp then sreturn None
          else sbind parse_is (\<lambda>op. sreturn (Some op))
     else next_if_map (\<lambda>t. at_least postfix_precedence minp
            (if t = TokExclamation then Some PostFactorial else None)))"

text \<open>The literals and names that are one token.\<close>

definition number_literal :: "string \<Rightarrow> ast_literal result" where
  "number_literal n =
     (if list_all is_ascii_digit n then rbind (parse_i64 n) (\<lambda>i. Ok (LitInteger i))
      else rbind (parse_f64 n) (\<lambda>f. Ok (LitFloat f)))"

definition keyword_literal :: "keyword \<Rightarrow> ast_literal option" where
  "keyword_literal k = map_of [
     (KwTrue, LitBoolean True), (KwFalse, LitBoolean False), (KwInfinity, LitFloat f64_infinity),
     (KwNaN, LitFloat f64_nan), (KwNull, LitNull)] k"

text \<open>
  The expression parser proper. The first argument bounds the depth of the recursion.
\<close>

fun parse_expression_at :: "nat \<Rightarrow> nat \<Rightarrow> ast_expr parser"
and parse_expression_atom :: "nat \<Rightarrow> ast_expr parser"
and parse_arguments :: "nat \<Rightarrow> ast_expr list \<Rightarrow> ast_expr list parser"
and parse_postfixes :: "nat \<Rightarrow> nat \<Rightarrow> ast_expr \<Rightarrow> ast_expr parser"
and parse_infixes :: "nat \<Rightarrow> nat \<Rightarrow> ast_expr \<Rightarrow> ast_expr parser"
where
  "parse_expression_at 0 minp = slift (Panic ''stack overflow'')"
| "parse_expression_at (Suc n) minp =
     sbind (parse_prefix_operator_at minp) (\<lambda>op.
     sbind (case op of
              Some op \<Rightarrow>
                sbind (parse_expression_at n (prec_add (prefix_precedence op) (prefix_associativity op))) (\<lambda>rhs.
                sreturn (prefix_expression op rhs))
            | None \<Rightarrow> parse_expression_atom n) (\<lambda>lhs.
     sbind (parse_postfixes n minp lhs) (\<lambda>lhs.
     sbind (parse_infixes n minp lhs) (\<lambda>lhs.
     parse_postfixes n minp lhs))))"
| "parse_expression_atom 0 = slift (Panic ''stack overflow'')"
| "parse_expression_atom (Suc n) =
     sbind next_token (\<lambda>t. case t of
         TokAsterisk \<Rightarrow> sreturn AstAll
       | TokNumber s \<Rightarrow> slift (rbind (number_literal s) (\<lambda>l. Ok (AstLiteral l)))
       | TokString s \<Rightarrow> sreturn (AstLiteral (LitString s))
       | TokKeyword k \<Rightarrow> slift (case keyword_literal k of
             Some l \<Rightarrow> Ok (AstLiteral l)
           | None \<Rightarrow> errinput ''expected expression atom, found {token}'')
       | TokIdent name \<Rightarrow>
           sbind (next_is TokOpenParen) (\<lambda>call.
           if call then sbind (parse_arguments n []) (\<lambda>args. sreturn (AstFunction name args))
           else
             sbind (next_is TokPeriod) (\<lambda>qualified.
             if qualified then sbind next_ident (\<lambda>column. sreturn (AstColumn (Some name) column))
             else sreturn (AstColumn None name)))
       | TokOpenParen \<Rightarrow>
           sbind (parse_expression_at n 0) (\<lambda>expr.
           sbind (expect TokCloseParen) (\<lambda>_.
           sreturn expr))
       | _ \<Rightarrow> slift (errinput ''expected expression atom, found {token}''))"
| "parse_arguments 0 args = slift (Panic ''stack overflow'')"
| "parse_arguments (Suc n) args =
     sbind (next_is TokCloseParen) (\<lambda>closed.
     if closed then sreturn args
     else
       sbind (if args = [] then sreturn () else expect TokComma) (\<lambda>_.
       sbind (parse_expression_at n 0) (\<lambda>arg.
       parse_arguments n (args @ [arg]))))"
| "parse_postfixes 0 minp lhs = slift (Panic ''stack overflow'')"
| "parse_postfixes (Suc n) minp lhs =
     sbind (parse_postfix_operator_at minp) (\<lambda>op. case op of
         Some op \<Rightarrow> parse_postfixes n minp (postfix_expression op lhs)
       | None \<Rightarrow> sreturn lhs)"
| "parse_infixes 0 minp lhs = slift (Panic ''stack overflow'')"
| "parse_infixes (Suc n) minp lhs =
     sbind (parse_infix_operator_at minp) (\<lambda>op. case op of
         Some op \<Rightarrow>
           sbind (parse_expression_at n (prec_add (infix_precedence op) (infix_associativity op))) (\<lambda>rhs.
           parse_infixes n minp (infix_expression op lhs rhs))
       | None \<Rightarrow> sreturn lhs)"

definition expression_fuel :: "'a list \<Rightarrow> nat" where
  "expression_fuel ts = 3 * length ts + 3"

definition parse_expression :: "ast_expr parser" where
  "parse_expression ts = parse_expression_at (expression_fuel ts) 0 ts"

section \<open>Statements\<close>

definition unexpected_token :: "'a parser" where
  "unexpected_token = slift (errinput ''unexpected token {token}'')"

definition parse_begin :: "statement parser" where
  "parse_begin =
     sbind (expect (TokKeyword KwBegin)) (\<lambda>_.
     sbind (skip (TokKeyword KwTransaction)) (\<lambda>_.
     sbind (next_is (TokKeyword KwRead)) (\<lambda>read.
     sbind (if \<not> read then sreturn False
            else sbind next_token (\<lambda>t.
              if t = TokKeyword KwOnly then sreturn True
              else if t = TokKeyword KwWrite then sreturn False
              else unexpected_token)) (\<lambda>read_only.
     sbind (next_is (TokKeyword KwAs)) (\<lambda>as.
     sbind (if \<not> as then sreturn None
            else
              sbind (expect (TokKeyword KwOf)) (\<lambda>_.
              sbind (expect (TokKeyword KwSystem)) (\<lambda>_.
              sbind (expect (TokKeyword KwTime)) (\<lambda>_.
              sbind next_token (\<lambda>t. case t of
                  TokNumber n \<Rightarrow> slift (rbind (parse_u64 n) (\<lambda>v. Ok (Some v)))
                | _ \<Rightarrow> slift (errinput ''unexpected token {token}, wanted number'')))))) (\<lambda>as_of.
     sreturn (StBegin read_only as_of)))))))"

definition parse_commit :: "statement parser" where
  "parse_commit = sbind (expect (TokKeyword KwCommit)) (\<lambda>_. sreturn StCommit)"

definition parse_rollback :: "statement parser" where
  "parse_rollback = sbind (expect (TokKeyword KwRollback)) (\<lambda>_. sreturn StRollback)"

definition parse_data_type :: "data_type parser" where
  "parse_data_type = sbind next_token (\<lambda>t.
     if t = TokKeyword KwBool \<or> t = TokKeyword KwBoolean then sreturn BooleanType
     else if t = TokKeyword KwFloat \<or> t = TokKeyword KwDouble then sreturn FloatType
     else if t = TokKeyword KwInt \<or> t = TokKeyword KwInteger then sreturn IntegerType
     else if t = TokKeyword KwString \<or> t = TokKeyword KwText \<or> t = TokKeyword KwVarchar then sreturn StringType
     else unexpected_token)"

definition set_nullable :: "bool \<Rightarrow> ast_column \<Rightarrow> ast_column parser" where
  "set_nullable b column =
     (if acol_nullable column \<noteq> None
      then slift (errinput ''nullability already set for column {}'')
      else sreturn (column\<lparr>acol_nullable := Some b\<rparr>))"

definition parse_column_attribute :: "keyword \<Rightarrow> ast_column \<Rightarrow> ast_column parser" where
  "parse_column_attribute keyword column =
     (if keyword = KwPrimary then
        sbind (expect (TokKeyword KwKey)) (\<lambda>_. sreturn (column\<lparr>acol_primary_key := True\<rparr>))
      else if keyword = KwNull then set_nullable True column
      else if keyword = KwNot then sbind (expect (TokKeyword KwNull)) (\<lambda>_. set_nullable False column)
      else if keyword = KwDefault then
        sbind parse_expression (\<lambda>e. sreturn (column\<lparr>acol_default := Some e\<rparr>))
      else if keyword = KwUnique then sreturn (column\<lparr>acol_unique := True\<rparr>)
      else if keyword = KwIndex then sreturn (column\<lparr>acol_index := True\<rparr>)
      else if keyword = KwReferences then
        sbind next_ident (\<lambda>table. sreturn (column\<lparr>acol_references := Some table\<rparr>))
      else slift (errinput ''unexpected keyword {keyword}''))"

fun parse_column_attributes :: "nat \<Rightarrow> ast_column \<Rightarrow> ast_column parser" where
  "parse_column_attributes 0 column = slift (Panic ''out of fuel'')"
| "parse_column_attributes (Suc n) column =
     sbind next_if_keyword (\<lambda>keyword. case keyword of
         Some keyword \<Rightarrow> sbind (parse_column_attribute keyword column) (parse_column_attributes n)
       | None \<Rightarrow> sreturn column)"

definition parse_create_table_column :: "ast_column parser" where
  "parse_create_table_column =
     sbind next_ident (\<lambda>name.
     sbind parse_data_type (\<lambda>datatype ts.
     parse_column_attributes (Suc (length ts))
       \<lparr>acol_name = name, acol_datatype = datatype, acol_primary_key = False, acol_nullable = None,
        acol_default = None, acol_unique = False, acol_index = False, acol_references = None\<rparr> ts))"

definition parse_create_table :: "statement parser" where
  "parse_create_table =
     sbind (expect (TokKeyword KwCreate)) (\<lambda>_.
     sbind (expect (TokKeyword KwTable)) (\<lambda>_.
     sbind next_ident (\<lambda>name.
     sbind (expect TokOpenParen) (\<lambda>_.
     sbind (sep_list TokComma parse_create_table_column) (\<lambda>columns.
     sbind (expect TokCloseParen) (\<lambda>_.
     sreturn (StCreateTable name columns)))))))"

definition parse_drop_table :: "statement parser" where
  "parse_drop_table =
     sbind (expect (TokKeyword KwDrop)) (\<lambda>_.
     sbind (expect (TokKeyword KwTable)) (\<lambda>_.
     sbind (next_is (TokKeyword KwIf)) (\<lambda>if_exists.
     sbind (if if_exists then expect (TokKeyword KwExists) else sreturn ()) (\<lambda>_.
     sbind next_ident (\<lambda>name.
     sreturn (StDropTable name if_exists))))))"

text \<open>A clause that is an expression after a keyword, if the keyword is there.\<close>

definition optional_expression :: "keyword \<Rightarrow> ast_expr option parser" where
  "optional_expression k =
     sbind (next_is (TokKeyword k)) (\<lambda>b.
     if b then sbind parse_expression (\<lambda>e. sreturn (Some e)) else sreturn None)"

definition parse_where_clause :: "ast_expr option parser" where
  "parse_where_clause = optional_expression KwWhere"

definition parse_having_clause :: "ast_expr option parser" where
  "parse_having_clause = optional_expression KwHaving"

definition parse_limit_clause :: "ast_expr option parser" where
  "parse_limit_clause = optional_expression KwLimit"

definition parse_offset_clause :: "ast_expr option parser" where
  "parse_offset_clause = optional_expression KwOffset"

definition parse_delete :: "statement parser" where
  "parse_delete =
     sbind (expect (TokKeyword KwDelete)) (\<lambda>_.
     sbind (expect (TokKeyword KwFrom)) (\<lambda>_.
     sbind next_ident (\<lambda>table.
     sbind parse_where_clause (\<lambda>where.
     sreturn (StDelete table where)))))"

text \<open>\<^verbatim>\<open>( item, ... )\<close>.\<close>

definition paren_list :: "'a parser \<Rightarrow> 'a list parser" where
  "paren_list item =
     sbind (expect TokOpenParen) (\<lambda>_.
     sbind (sep_list TokComma item) (\<lambda>xs.
     sbind (expect TokCloseParen) (\<lambda>_.
     sreturn xs)))"

definition parse_insert :: "statement parser" where
  "parse_insert =
     sbind (expect (TokKeyword KwInsert)) (\<lambda>_.
     sbind (expect (TokKeyword KwInto)) (\<lambda>_.
     sbind next_ident (\<lambda>table.
     sbind (next_is TokOpenParen) (\<lambda>b.
     sbind (if b
            then sbind (sep_list TokComma next_ident) (\<lambda>columns.
                 sbind (expect TokCloseParen) (\<lambda>_. sreturn (Some columns)))
            else sreturn None) (\<lambda>columns.
     sbind (expect (TokKeyword KwValues)) (\<lambda>_.
     sbind (sep_list TokComma (paren_list parse_expression)) (\<lambda>values.
     sreturn (StInsert table columns values))))))))"

definition parse_assignment :: "(string, ast_expr option) btree \<Rightarrow> (string, ast_expr option) btree parser" where
  "parse_assignment assigned =
     sbind next_ident (\<lambda>column.
     sbind (expect TokEqual) (\<lambda>_.
     sbind (next_is (TokKeyword KwDefault)) (\<lambda>default.
     sbind (if default then sreturn None else sbind parse_expression (\<lambda>e. sreturn (Some e))) (\<lambda>expr.
     if map_of assigned column \<noteq> None then slift (errinput ''column {column} set multiple times'')
     else sreturn (bt_insert column expr assigned)))))"

fun parse_assignments :: "nat \<Rightarrow> (string, ast_expr option) btree \<Rightarrow> (string, ast_expr option) btree parser" where
  "parse_assignments 0 assigned = slift (Panic ''out of fuel'')"
| "parse_assignments (Suc n) assigned =
     sbind (parse_assignment assigned) (\<lambda>assigned.
     sbind (next_is TokComma) (\<lambda>more.
     if more then parse_assignments n assigned else sreturn assigned))"

definition parse_update :: "statement parser" where
  "parse_update =
     sbind (expect (TokKeyword KwUpdate)) (\<lambda>_.
     sbind next_ident (\<lambda>table.
     sbind (expect (TokKeyword KwSet)) (\<lambda>_.
     sbind (\<lambda>ts. parse_assignments (Suc (length ts)) [] ts) (\<lambda>set.
     sbind parse_where_clause (\<lambda>where.
     sreturn (StUpdate table set where))))))"

text \<open>\<^verbatim>\<open>next_is(AS) || matches!(peek()?, Some(Token::Ident(_)))\<close>.\<close>

definition next_is_alias :: "bool parser" where
  "next_is_alias =
     sbind (next_is (TokKeyword KwAs)) (\<lambda>b.
     if b then sreturn True
     else sbind peek (\<lambda>t. sreturn (case t of Some (TokIdent _) \<Rightarrow> True | _ \<Rightarrow> False)))"

definition parse_select_item :: "(ast_expr \<times> string option) parser" where
  "parse_select_item =
     sbind parse_expression (\<lambda>expr.
     sbind next_is_alias (\<lambda>b.
     if \<not> b then sreturn (expr, None)
     else if expr = AstAll then slift (errinput ''can't alias *'')
     else sbind next_ident (\<lambda>alias. sreturn (expr, Some alias))))"

definition parse_select_clause :: "(ast_expr \<times> string option) list parser" where
  "parse_select_clause =
     sbind (next_is (TokKeyword KwSelect)) (\<lambda>b.
     if b then sep_list TokComma parse_select_item else sreturn [])"

definition parse_from_table :: "from_item parser" where
  "parse_from_table =
     sbind next_ident (\<lambda>name.
     sbind next_is_alias (\<lambda>b.
     if b then sbind next_ident (\<lambda>alias. sreturn (FromTable name (Some alias)))
     else sreturn (FromTable name None)))"

definition parse_from_join :: "join_type option parser" where
  "parse_from_join =
     sbind (next_is (TokKeyword KwJoin)) (\<lambda>b. if b then sreturn (Some InnerJoin) else
     sbind (next_is (TokKeyword KwCross)) (\<lambda>b.
       if b then sbind (expect (TokKeyword KwJoin)) (\<lambda>_. sreturn (Some CrossJoin)) else
     sbind (next_is (TokKeyword KwInner)) (\<lambda>b.
       if b then sbind (expect (TokKeyword KwJoin)) (\<lambda>_. sreturn (Some InnerJoin)) else
     sbind (next_is (TokKeyword KwLeft)) (\<lambda>b.
       if b then sbind (skip (TokKeyword KwOuter)) (\<lambda>_. sbind (expect (TokKeyword KwJoin)) (\<lambda>_.
         sreturn (Some LeftJoin))) else
     sbind (next_is (TokKeyword KwRight)) (\<lambda>b.
       if b then sbind (skip (TokKeyword KwOuter)) (\<lambda>_. sbind (expect (TokKeyword KwJoin)) (\<lambda>_.
         sreturn (Some RightJoin)))
       else sreturn None)))))"

fun parse_joins :: "nat \<Rightarrow> from_item \<Rightarrow> from_item parser" where
  "parse_joins 0 from_item = slift (Panic ''out of fuel'')"
| "parse_joins (Suc n) from_item =
     sbind parse_from_join (\<lambda>type. case type of
         None \<Rightarrow> sreturn from_item
       | Some type \<Rightarrow>
           sbind parse_from_table (\<lambda>right.
           sbind (if type = CrossJoin then sreturn None
                  else sbind (expect (TokKeyword KwOn)) (\<lambda>_.
                       sbind parse_expression (\<lambda>e. sreturn (Some e)))) (\<lambda>predicate.
           parse_joins n (FromJoin from_item right type predicate))))"

definition parse_from_item :: "from_item parser" where
  "parse_from_item = sbind parse_from_table (\<lambda>table ts. parse_joins (Suc (length ts)) table ts)"

definition parse_from_clause :: "from_item list parser" where
  "parse_from_clause =
     sbind (next_is (TokKeyword KwFrom)) (\<lambda>b.
     if b then sep_list TokComma parse_from_item else sreturn [])"

definition parse_group_by_clause :: "ast_expr list parser" where
  "parse_group_by_clause =
     sbind (next_is (TokKeyword KwGroup)) (\<lambda>b.
     if b then sbind (expect (TokKeyword KwBy)) (\<lambda>_. sep_list TokComma parse_expression) else sreturn [])"

definition parse_order_item :: "(ast_expr \<times> direction) parser" where
  "parse_order_item =
     sbind parse_expression (\<lambda>expr.
     sbind (next_if_map (\<lambda>t.
       if t = TokKeyword KwAsc then Some Ascending
       else if t = TokKeyword KwDesc then Some Descending
       else None)) (\<lambda>order.
     sreturn (expr, case order of Some d \<Rightarrow> d | None \<Rightarrow> Ascending)))"

definition parse_order_by_clause :: "(ast_expr \<times> direction) list parser" where
  "parse_order_by_clause =
     sbind (next_is (TokKeyword KwOrder)) (\<lambda>b.
     if b then sbind (expect (TokKeyword KwBy)) (\<lambda>_. sep_list TokComma parse_order_item) else sreturn [])"

text \<open>The clauses are parsed in the order of the initializer: LIMIT comes before OFFSET.\<close>

definition parse_select :: "statement parser" where
  "parse_select =
     sbind parse_select_clause (\<lambda>select.
     sbind parse_from_clause (\<lambda>from_items.
     sbind parse_where_clause (\<lambda>where.
     sbind parse_group_by_clause (\<lambda>group_by.
     sbind parse_having_clause (\<lambda>having.
     sbind parse_order_by_clause (\<lambda>order_by.
     sbind parse_limit_clause (\<lambda>limit.
     sbind parse_offset_clause (\<lambda>offset.
     sreturn (StSelect
       \<lparr>sel_select = select, sel_from = from_items, sel_where = where, sel_group_by = group_by,
        sel_having = having, sel_order_by = order_by, sel_offset = offset, sel_limit = limit\<rparr>)))))))))"

text \<open>\<^verbatim>\<open>EXPLAIN\<close> is not nested, so the recursion is one level deep.\<close>

fun parse_statement_at :: "nat \<Rightarrow> statement parser" where
  "parse_statement_at 0 = slift (Panic ''stack overflow'')"
| "parse_statement_at (Suc n) =
     sbind peek (\<lambda>token. case token of
         None \<Rightarrow> slift (errinput ''unexpected end of input'')
       | Some t \<Rightarrow>
           if t = TokKeyword KwBegin then parse_begin
           else if t = TokKeyword KwCommit then parse_commit
           else if t = TokKeyword KwRollback then parse_rollback
           else if t = TokKeyword KwExplain then
             sbind (expect (TokKeyword KwExplain)) (\<lambda>_.
             sbind (next_is (TokKeyword KwExplain)) (\<lambda>nested.
             if nested then slift (errinput ''cannot nest EXPLAIN statements'')
             else sbind (parse_statement_at n) (\<lambda>statement. sreturn (StExplain statement))))
           else if t = TokKeyword KwCreate then parse_create_table
           else if t = TokKeyword KwDrop then parse_drop_table
           else if t = TokKeyword KwDelete then parse_delete
           else if t = TokKeyword KwInsert then parse_insert
           else if t = TokKeyword KwSelect then parse_select
           else if t = TokKeyword KwUpdate then parse_update
           else unexpected_token)"

definition parse_statement :: "statement parser" where
  "parse_statement = parse_statement_at 2"

text \<open>\<^verbatim>\<open>Parser::parse\<close>, and \<^verbatim>\<open>Parser::parse_expr\<close> of the tests.\<close>

definition end_of_input :: "unit parser" where
  "end_of_input = (\<lambda>ts. case ts of
      [] \<Rightarrow> (Ok (), ts)
    | Ok t # ts \<Rightarrow> (errinput ''unexpected token {token}'', ts)
    | Err e # ts \<Rightarrow> (Err e, ts)
    | Panic p # ts \<Rightarrow> (Panic p, ts))"

definition parse :: "string \<Rightarrow> statement result" where
  "parse input = fst (
     sbind parse_statement (\<lambda>statement.
     sbind (skip TokSemicolon) (\<lambda>_.
     sbind end_of_input (\<lambda>_.
     sreturn statement))) (tokens input))"

definition parse_expr :: "string \<Rightarrow> ast_expr result" where
  "parse_expr input = fst (
     sbind parse_expression (\<lambda>e.
     sbind end_of_input (\<lambda>_.
     sreturn e)) (tokens input))"

end
