(* ===== verification/SqlParserTotal.thy ===== *)
theory SqlParserTotal
  imports SqlParser
begin

text \<open>
  The parser on arbitrary input: every operation ends in a value or an error, and what it leaves of the
  input is no longer than it was. The predicate on operations is closed under sequencing, so that an
  operation inherits it from its parts; the loops and the recursion of expressions use how much a part
  consumes, which may depend on its result.
\<close>

section \<open>Outcomes\<close>

definition clean :: "token result list \<Rightarrow> bool" where
  "clean ts = list_all (\<lambda>r. case r of Panic _ \<Rightarrow> False | _ \<Rightarrow> True) ts"

lemma clean_simps [simp]:
  "clean []" "clean (Ok t # ts) \<longleftrightarrow> clean ts" "clean (Err e # ts) \<longleftrightarrow> clean ts" "\<not> clean (Panic p # ts)"
  by (simp_all add: clean_def)

lemma clean_ConsD: "clean (r # ts) \<Longrightarrow> clean ts"
  by (simp add: clean_def)

text \<open>\<open>m\<close> does not panic, and a result it returns satisfies \<open>P\<close> together with the length of the rest.\<close>

definition ends :: "'a parser \<Rightarrow> token result list \<Rightarrow> ('a \<Rightarrow> nat \<Rightarrow> bool) \<Rightarrow> bool" where
  "ends m ts P = (case m ts of
      (Ok x, r) \<Rightarrow> clean r \<and> P x (length r)
    | (Err e, r) \<Rightarrow> True
    | (Panic p, r) \<Rightarrow> False)"

lemma ends_mono: "ends m ts P \<Longrightarrow> (\<And>x n. P x n \<Longrightarrow> Q x n) \<Longrightarrow> ends m ts Q"
  by (auto simp: ends_def split: prod.splits result.splits)

lemma ends_bind:
  assumes "ends m ts P" "\<And>x r. clean r \<Longrightarrow> P x (length r) \<Longrightarrow> ends (f x) r Q"
  shows "ends (sbind m f) ts Q"
proof (cases "m ts")
  case (Pair res r)
  with assms show ?thesis by (cases res) (auto simp: ends_def sbind_def)
qed

lemma ends_return: "clean ts \<Longrightarrow> P x (length ts) \<Longrightarrow> ends (sreturn x) ts P"
  by (simp add: ends_def sreturn_def)

lemma ends_return_eq [simp]: "ends (sreturn x) ts P \<longleftrightarrow> clean ts \<and> P x (length ts)"
  by (simp add: ends_def sreturn_def)

lemma ends_lift: "clean ts \<Longrightarrow> (\<And>p. r \<noteq> Panic p) \<Longrightarrow> (\<And>x. r = Ok x \<Longrightarrow> P x (length ts)) \<Longrightarrow> ends (slift r) ts P"
  by (auto simp: ends_def slift_def split: result.splits)

text \<open>\<open>m\<close> consumes at least \<open>Q x\<close> tokens when it returns \<open>x\<close>.\<close>

definition consumes :: "('a \<Rightarrow> nat) \<Rightarrow> 'a parser \<Rightarrow> bool" where
  "consumes Q m = (\<forall>ts. clean ts \<longrightarrow> ends m ts (\<lambda>x n. Q x + n \<le> length ts))"

abbreviation total :: "'a parser \<Rightarrow> bool" where
  "total \<equiv> consumes (\<lambda>_. 0)"

named_theorems total_intros \<open>operations that end on every input\<close>

lemma consumesD: "consumes Q m \<Longrightarrow> clean ts \<Longrightarrow> ends m ts (\<lambda>x n. Q x + n \<le> length ts)"
  by (simp add: consumes_def)

lemma consumes_total: "consumes Q m \<Longrightarrow> total m"
  by (auto simp: consumes_def elim!: ends_mono)

lemma consumes_bind:
  assumes "consumes Q m" "\<And>x. consumes (R x) (f x)" "\<And>x y. S y \<le> Q x + R x y"
  shows "consumes S (sbind m f)"
  unfolding consumes_def
proof (intro allI impI)
  fix ts assume "clean ts"
  show "ends (sbind m f) ts (\<lambda>y n. S y + n \<le> length ts)"
  proof (rule ends_bind [OF consumesD [OF assms(1) \<open>clean ts\<close>]])
    fix x r assume r: "clean r" "Q x + length r \<le> length ts"
    show "ends (f x) r (\<lambda>y n. S y + n \<le> length ts)"
    proof (rule ends_mono [OF consumesD [OF assms(2) r(1)]])
      fix y n assume "R x y + n \<le> length r"
      with r(2) assms(3) [of y x] show "S y + n \<le> length ts" by linarith
    qed
  qed
qed

lemma total_bind [total_intros]: "total m \<Longrightarrow> (\<And>x. total (f x)) \<Longrightarrow> total (sbind m f)"
  by (rule consumes_bind) auto

lemma consumes_first: "consumes (\<lambda>_. n) m \<Longrightarrow> (\<And>x. total (f x)) \<Longrightarrow> consumes (\<lambda>_. n) (sbind m f)"
  by (rule consumes_bind) auto

lemma total_return [total_intros]: "total (sreturn x)"
  by (simp add: consumes_def ends_return)

lemma total_lift: "(\<And>p. r \<noteq> Panic p) \<Longrightarrow> total (slift r)"
  by (simp add: consumes_def ends_lift)

lemma total_errinput [total_intros]: "total (slift (errinput msg))"
  by (rule total_lift) simp

lemma total_if [total_intros]: "(b \<Longrightarrow> total m) \<Longrightarrow> (\<not> b \<Longrightarrow> total m') \<Longrightarrow> total (if b then m else m')"
  by simp

section \<open>The token stream\<close>

lemma next_token_consumes: "consumes (\<lambda>_. 1) next_token"
  by (auto simp: consumes_def ends_def next_token_def split: list.splits result.splits dest: clean_ConsD)

lemma next_if_map_consumes: "consumes (\<lambda>x. if x = None then 0 else 1) (next_if_map f)"
  by (auto simp: consumes_def ends_def next_if_map_def split: list.splits result.splits option.splits)

lemma peek_total [total_intros]: "total peek"
  by (auto simp: consumes_def ends_def peek_def split: list.splits result.splits)

lemma next_ident_consumes: "consumes (\<lambda>_. 1) next_ident"
  unfolding next_ident_def
  by (intro consumes_first next_token_consumes total_lift) (simp split: token.splits)

lemma next_is_consumes: "consumes (\<lambda>b. if b then 1 else 0) (next_is t)"
  unfolding next_is_def next_if_def
  by (auto simp: consumes_def ends_def next_if_map_def sbind_def sreturn_def split: list.splits result.splits option.splits)

lemma expect_consumes: "consumes (\<lambda>_. 1) (expect t)"
  unfolding expect_def by (intro consumes_first next_token_consumes total_intros)

lemma next_if_keyword_consumes: "consumes (\<lambda>x. if x = None then 0 else 1) next_if_keyword"
  unfolding next_if_keyword_def by (rule next_if_map_consumes)

lemmas stream_total [total_intros] =
  next_token_consumes [THEN consumes_total] next_if_map_consumes [THEN consumes_total]
  next_ident_consumes [THEN consumes_total] next_is_consumes [THEN consumes_total]
  expect_consumes [THEN consumes_total] next_if_keyword_consumes [THEN consumes_total]

lemma skip_total [total_intros]: "total (skip t)"
  unfolding skip_def by (intro total_intros)

lemma sep_loop_ends:
  "total item \<Longrightarrow> clean ts \<Longrightarrow> length ts < n \<Longrightarrow> ends (sep_loop n sep item) ts (\<lambda>_ k. k \<le> length ts)"
proof (induction n arbitrary: ts)
  case (Suc n)
  show ?case
    unfolding sep_loop.simps
  proof (rule ends_bind [OF consumesD [OF Suc.prems(1,2)]], rule ends_bind [OF consumesD [OF next_is_consumes]])
    fix x r more r'
    assume r: "0 + length r \<le> length ts" "clean r'" "(if more then 1 else 0) + length r' \<le> length r"
    show "ends (if more then sbind (sep_loop n sep item) (\<lambda>xs. sreturn (x # xs)) else sreturn [x]) r'
      (\<lambda>_ k. k \<le> length ts)"
    proof (cases more)
      case True
      have "ends (sep_loop n sep item) r' (\<lambda>_ k. k \<le> length r')"
        using r True Suc.prems by (intro Suc.IH) auto
      then have "ends (sbind (sep_loop n sep item) (\<lambda>xs. sreturn (x # xs))) r' (\<lambda>_ k. k \<le> length ts)"
        by (rule ends_bind) (rule ends_return, use r True in auto)
      with True show ?thesis by simp
    next
      case False
      with r show ?thesis by (simp only: if_False) (rule ends_return, auto)
    qed
  qed
qed simp

lemma sep_list_total [total_intros]:
  assumes "total item"
  shows "total (sep_list sep item)"
  unfolding consumes_def
proof (intro allI impI)
  fix ts assume "clean ts"
  with assms have "ends (sep_loop (Suc (length ts)) sep item) ts (\<lambda>_ k. k \<le> length ts)"
    by (rule sep_loop_ends) simp
  then show "ends (sep_list sep item) ts (\<lambda>_ k. 0 + k \<le> length ts)"
    by (simp only: ends_def sep_list_def add_0)
qed

section \<open>Expressions\<close>

lemma parse_digits_no_panic: "parse_digits limit acc s \<noteq> Panic p"
  by (induction limit acc s rule: parse_digits.induct) auto

lemma rbind_eq_Panic: "rbind r f = Panic p \<longleftrightarrow> r = Panic p \<or> (\<exists>x. r = Ok x \<and> f x = Panic p)"
  by (cases r) auto

lemma parse_uint_no_panic: "parse_uint limit s \<noteq> Panic p"
  by (simp add: parse_uint_def parse_digits_no_panic)

lemma parse_f64_no_panic: "parse_f64 s \<noteq> Panic p"
  unfolding parse_f64_def by (simp only: Let_def split: prod.split list.split if_split) simp

lemma number_literal_no_panic: "number_literal s \<noteq> Panic p"
  by (simp add: number_literal_def parse_i64_def rbind_eq_Panic parse_uint_no_panic parse_f64_no_panic)

lemma parse_u64_no_panic: "parse_u64 s \<noteq> Panic p"
  by (simp add: parse_u64_def rbind_eq_Panic parse_uint_no_panic)

lemma parse_is_consumes: "consumes (\<lambda>_. 1) parse_is"
  unfolding parse_is_def by (intro consumes_first expect_consumes total_intros total_lift) auto

lemma parse_postfix_consumes: "consumes (\<lambda>x. if x = None then 0 else 1) (parse_postfix_operator_at p)"
proof -
  have "consumes (\<lambda>x. if x = None then 0 else 1) (sbind parse_is (\<lambda>op. sreturn (Some op)))"
    by (rule consumes_bind [OF parse_is_consumes total_return]) simp
  moreover have "consumes (\<lambda>x. if x = None then 0 else 1) (sreturn (None :: postfix_operator option))"
    by (simp add: consumes_def ends_def sreturn_def)
  ultimately have "consumes (\<lambda>x. if x = None then 0 else 1)
      (if b then if b' then sreturn None else sbind parse_is (\<lambda>op. sreturn (Some op)) else next_if_map f)" for b b' f
    by (simp only: next_if_map_consumes split: if_split) blast
  then show ?thesis
    unfolding parse_postfix_operator_at_def by (intro consumes_bind [OF peek_total]) (assumption, simp)
qed

lemma parse_prefix_consumes: "consumes (\<lambda>x. if x = None then 0 else 1) (parse_prefix_operator_at p)"
  unfolding parse_prefix_operator_at_def by (rule next_if_map_consumes)

lemma parse_infix_consumes: "consumes (\<lambda>x. if x = None then 0 else 1) (parse_infix_operator_at p)"
  unfolding parse_infix_operator_at_def by (rule next_if_map_consumes)

lemma ends_call:
  "consumes Q m \<Longrightarrow> clean ts \<Longrightarrow> (\<And>x r. clean r \<Longrightarrow> Q x + length r \<le> length ts \<Longrightarrow> ends (f x) r P) \<Longrightarrow>
   ends (sbind m f) ts P"
  by (rule ends_bind [OF consumesD])


text \<open>
  The depth that suffices for each of the five functions, for inputs of length \<open>k\<close>; a call made without
  consuming a token needs less than its caller.
\<close>

definition depth_ok :: "nat \<Rightarrow> bool" where
  "depth_ok n = (\<forall>ts. clean ts \<longrightarrow>
     (\<forall>p. 3 * length ts + 2 \<le> n \<longrightarrow> ends (parse_expression_at n p) ts (\<lambda>_ k. k < length ts)) \<and>
     (3 * length ts + 1 \<le> n \<longrightarrow> ends (parse_expression_atom n) ts (\<lambda>_ k. k < length ts)) \<and>
     (\<forall>args. 3 * length ts + 3 \<le> n \<longrightarrow> ends (parse_arguments n args) ts (\<lambda>_ k. k \<le> length ts)) \<and>
     (\<forall>p lhs. length ts + 1 \<le> n \<longrightarrow> ends (parse_postfixes n p lhs) ts (\<lambda>_ k. k \<le> length ts)) \<and>
     (\<forall>p lhs. 3 * length ts + 1 \<le> n \<longrightarrow> ends (parse_infixes n p lhs) ts (\<lambda>_ k. k \<le> length ts)))"

lemma depth_okD:
  assumes "depth_ok n" "clean ts"
  shows "3 * length ts + 2 \<le> n \<Longrightarrow> ends (parse_expression_at n p) ts (\<lambda>_ k. k < length ts)"
    and "3 * length ts + 1 \<le> n \<Longrightarrow> ends (parse_expression_atom n) ts (\<lambda>_ k. k < length ts)"
    and "3 * length ts + 3 \<le> n \<Longrightarrow> ends (parse_arguments n args) ts (\<lambda>_ k. k \<le> length ts)"
    and "length ts + 1 \<le> n \<Longrightarrow> ends (parse_postfixes n p lhs) ts (\<lambda>_ k. k \<le> length ts)"
    and "3 * length ts + 1 \<le> n \<Longrightarrow> ends (parse_infixes n p lhs) ts (\<lambda>_ k. k \<le> length ts)"
  using assms unfolding depth_ok_def by blast+

lemma at_ends:
  assumes "depth_ok n" "clean ts" "3 * length ts + 2 \<le> Suc n"
  shows "ends (parse_expression_at (Suc n) p) ts (\<lambda>_ k. k < length ts)"
  unfolding parse_expression_at.simps
proof (rule ends_call [OF parse_prefix_consumes assms(2)])
  fix op :: "prefix_operator option" and r assume r: "clean r" "(if op = None then 0 else 1) + length r \<le> length ts"
  let ?operand = "case op of
      Some op \<Rightarrow>
        sbind (parse_expression_at n (prec_add (prefix_precedence op) (prefix_associativity op))) (\<lambda>rhs.
        sreturn (prefix_expression op rhs))
    | None \<Rightarrow> parse_expression_atom n"
  have "ends ?operand r (\<lambda>_ k. k < length ts)"
  proof (cases op)
    case None
    with r assms(3) show ?thesis
      by (auto intro: ends_mono [OF depth_okD(2) [OF assms(1)]])
  next
    case (Some op')
    show ?thesis
      by (simp only: Some option.case, rule ends_bind [OF depth_okD(1) [OF assms(1) r(1)]])
        (use r(2) Some assms(3) in auto)
  qed
  then show "ends (sbind ?operand (\<lambda>lhs. sbind (parse_postfixes n p lhs) (\<lambda>lhs.
      sbind (parse_infixes n p lhs) (parse_postfixes n p)))) r (\<lambda>_ k. k < length ts)"
  proof (rule ends_bind)
    fix lhs r assume r: "clean r" "length r < length ts"
    show "ends (sbind (parse_postfixes n p lhs) (\<lambda>lhs. sbind (parse_infixes n p lhs) (parse_postfixes n p))) r
        (\<lambda>_ k. k < length ts)"
      using r assms(3)
      by (intro ends_bind [OF depth_okD(4) [OF assms(1)]] ends_bind [OF depth_okD(5) [OF assms(1)]]
          ends_mono [OF depth_okD(4) [OF assms(1)]]) auto
  qed
qed

lemma arguments_ends:
  assumes "depth_ok n" "clean ts" "3 * length ts + 3 \<le> Suc n"
  shows "ends (parse_arguments (Suc n) args) ts (\<lambda>_ k. k \<le> length ts)"
  unfolding parse_arguments.simps
proof (rule ends_call [OF next_is_consumes assms(2)])
  fix closed r assume r: "clean r" "(if closed then 1 else 0) + length r \<le> length ts"
  have comma: "total (if args = [] then sreturn () else expect TokComma)"
    by (intro total_intros)
  show "ends (if closed then sreturn args
      else sbind (if args = [] then sreturn () else expect TokComma) (\<lambda>_.
           sbind (parse_expression_at n 0) (\<lambda>arg. parse_arguments n (args @ [arg])))) r (\<lambda>_ k. k \<le> length ts)"
  proof (cases closed)
    case False
    show ?thesis
      by (simp only: False if_False, rule ends_call [OF comma r(1)], rule ends_bind [OF depth_okD(1) [OF assms(1)]], assumption)
        (use r(2) False assms(3) in \<open>auto intro: ends_mono [OF depth_okD(3) [OF assms(1)]]\<close>)
  qed (use r in \<open>auto simp: ends_def sreturn_def\<close>)
qed

lemma postfixes_ends:
  assumes "depth_ok n" "clean ts" "length ts + 1 \<le> Suc n"
  shows "ends (parse_postfixes (Suc n) p lhs) ts (\<lambda>_ k. k \<le> length ts)"
  unfolding parse_postfixes.simps
proof (rule ends_call [OF parse_postfix_consumes assms(2)])
  fix op :: "postfix_operator option" and r assume r: "clean r" "(if op = None then 0 else 1) + length r \<le> length ts"
  then show "ends (case op of Some op \<Rightarrow> parse_postfixes n p (postfix_expression op lhs) | None \<Rightarrow> sreturn lhs) r
      (\<lambda>_ k. k \<le> length ts)"
    using assms(3)
    by (cases op) (auto intro: ends_mono [OF depth_okD(4) [OF assms(1)]])
qed

lemma infixes_ends:
  assumes "depth_ok n" "clean ts" "3 * length ts + 1 \<le> Suc n"
  shows "ends (parse_infixes (Suc n) p lhs) ts (\<lambda>_ k. k \<le> length ts)"
  unfolding parse_infixes.simps
proof (rule ends_call [OF parse_infix_consumes assms(2)])
  fix op :: "infix_operator option" and r assume r: "clean r" "(if op = None then 0 else 1) + length r \<le> length ts"
  show "ends (case op of
        Some op \<Rightarrow>
          sbind (parse_expression_at n (prec_add (infix_precedence op) (infix_associativity op))) (\<lambda>rhs.
          parse_infixes n p (infix_expression op lhs rhs))
      | None \<Rightarrow> sreturn lhs) r (\<lambda>_ k. k \<le> length ts)"
  proof (cases op)
    case (Some op')
    show ?thesis
      unfolding Some option.case
      by (rule ends_bind [OF depth_okD(1) [OF assms(1) r(1)]])
        (use r(2) Some assms(3) in \<open>auto intro: ends_mono [OF depth_okD(5) [OF assms(1)]]\<close>)
  qed (use r in \<open>auto simp: ends_def sreturn_def\<close>)
qed

lemma atom_ends:
  assumes "depth_ok n" "clean ts" "3 * length ts + 1 \<le> Suc n"
  shows "ends (parse_expression_atom (Suc n)) ts (\<lambda>_ k. k < length ts)"
  unfolding parse_expression_atom.simps
proof (rule ends_call [OF next_token_consumes assms(2)])
  fix t r assume r: "clean r" "1 + length r \<le> length ts"
  have column: "total (sbind (next_is TokPeriod) (\<lambda>qualified.
      if qualified then sbind next_ident (\<lambda>column. sreturn (AstColumn (Some name) column))
      else sreturn (AstColumn None name)))" for name
    by (intro total_intros)
  have call: "ends (sbind (next_is TokOpenParen) (\<lambda>call.
      if call then sbind (parse_arguments n []) (\<lambda>args. sreturn (AstFunction name args)) else m)) r
      (\<lambda>_ k. k < length ts)" if "total m" for name and m :: "ast_expr parser"
  proof (rule ends_call [OF next_is_consumes r(1)])
    fix call r' assume r': "clean r'" "(if call then 1 else 0) + length r' \<le> length r"
    show "ends (if call then sbind (parse_arguments n []) (\<lambda>args. sreturn (AstFunction name args)) else m) r'
        (\<lambda>_ k. k < length ts)"
    proof (cases call)
      case True
      show ?thesis
        by (simp only: True if_True, rule ends_bind [OF depth_okD(3) [OF assms(1) r'(1)]])
          (use r(2) r'(2) True assms(3) in \<open>auto simp: ends_def sreturn_def\<close>)
    next
      case False
      with r r' that show ?thesis by (auto intro: ends_mono [OF consumesD])
    qed
  qed
  have paren: "ends (sbind (parse_expression_at n 0) (\<lambda>e. sbind (expect TokCloseParen) (\<lambda>_. sreturn e))) r
      (\<lambda>_ k. k < length ts)"
    by (rule ends_bind [OF depth_okD(1) [OF assms(1) r(1)]], use r(2) assms(3) in simp,
        rule ends_call [OF expect_consumes], assumption) (use r(2) in \<open>auto simp: ends_def sreturn_def\<close>)
  have number: "ends (slift (rbind (number_literal s) (\<lambda>l. Ok (AstLiteral l)))) r (\<lambda>_ k. k < length ts)" for s
    using r by (intro ends_lift) (auto simp: number_literal_no_panic rbind_eq_Panic)
  have keyword: "ends (slift (case keyword_literal k of
             Some l \<Rightarrow> Ok (AstLiteral l)
           | None \<Rightarrow> errinput ''expected expression atom, found {token}'')) r (\<lambda>_ k. k < length ts)" for k
    using r by (intro ends_lift) (auto split: option.split)
  have error: "ends (slift (errinput msg)) r (\<lambda>_ k. k < length ts)" for msg :: string
    using r by (intro ends_lift) auto
  show "ends (case t of
         TokAsterisk \<Rightarrow> sreturn AstAll
       | TokNumber s \<Rightarrow> slift (rbind (number_literal s) (\<lambda>l. Ok (AstLiteral l)))
       | TokString s \<Rightarrow> sreturn (AstLiteral (LitString s))
       | TokKeyword k \<Rightarrow> slift (case keyword_literal k of
             Some l \<Rightarrow> Ok (AstLiteral l)
           | None \<Rightarrow> errinput ''expected expression atom, found {token}'')
       | TokIdent name \<Rightarrow>
           sbind (next_is TokOpenParen) (\<lambda>call.
           if call then sbind (parse_arguments n []) (\<lambda>args. sreturn (AstFunction name args))
           else
             sbind (next_is TokPeriod) (\<lambda>qualified.
             if qualified then sbind next_ident (\<lambda>column. sreturn (AstColumn (Some name) column))
             else sreturn (AstColumn None name)))
       | TokOpenParen \<Rightarrow>
           sbind (parse_expression_at n 0) (\<lambda>expr.
           sbind (expect TokCloseParen) (\<lambda>_.
           sreturn expr))
       | _ \<Rightarrow> slift (errinput ''expected expression atom, found {token}'')) r (\<lambda>_ k. k < length ts)"
    by (cases t; simp only: token.case; (rule error number keyword call [OF column] paren | insert r, simp))
qed

lemma depth_ok_all: "depth_ok n"
proof (induction n)
  case 0
  then show ?case by (simp add: depth_ok_def)
next
  case (Suc n)
  then show ?case
    unfolding depth_ok_def [of "Suc n"] by (blast intro: at_ends atom_ends arguments_ends postfixes_ends infixes_ends)
qed

lemma parse_expression_consumes: "consumes (\<lambda>_. 1) parse_expression"
  unfolding consumes_def
proof (intro allI impI)
  fix ts assume "clean ts"
  then have "ends (parse_expression_at (expression_fuel ts) 0) ts (\<lambda>_ k. k < length ts)"
    by (rule depth_okD(1) [OF depth_ok_all]) (simp add: expression_fuel_def)
  then show "ends parse_expression ts (\<lambda>_ k. 1 + k \<le> length ts)"
    by (auto simp: ends_def parse_expression_def split: prod.splits result.splits)
qed


lemmas parse_expression_total [total_intros] = parse_expression_consumes [THEN consumes_total]

section \<open>Statements\<close>

lemma unexpected_token_total [total_intros]: "total unexpected_token"
  unfolding unexpected_token_def by (intro total_intros)

lemma parse_begin_total [total_intros]: "total parse_begin"
  unfolding parse_begin_def
  by (intro total_intros) (auto intro!: total_lift simp: rbind_eq_Panic parse_u64_no_panic split: token.split)

lemma parse_commit_total [total_intros]: "total parse_commit"
  unfolding parse_commit_def by (intro total_intros)

lemma parse_rollback_total [total_intros]: "total parse_rollback"
  unfolding parse_rollback_def by (intro total_intros)

lemma parse_data_type_total [total_intros]: "total parse_data_type"
  unfolding parse_data_type_def by (intro total_intros)

lemma set_nullable_total [total_intros]: "total (set_nullable b column)"
  unfolding set_nullable_def by (intro total_intros)

lemma parse_column_attribute_total [total_intros]: "total (parse_column_attribute keyword column)"
  unfolding parse_column_attribute_def by (intro total_intros)

lemma parse_column_attributes_ends:
  "clean ts \<Longrightarrow> length ts < n \<Longrightarrow> ends (parse_column_attributes n column) ts (\<lambda>_ k. k \<le> length ts)"
proof (induction n arbitrary: ts column)
  case (Suc n)
  show ?case
    unfolding parse_column_attributes.simps
  proof (rule ends_call [OF next_if_keyword_consumes Suc.prems(1)])
    fix keyword :: "keyword option" and r
    assume r: "clean r" "(if keyword = None then 0 else 1) + length r \<le> length ts"
    show "ends (case keyword of
         Some keyword \<Rightarrow> sbind (parse_column_attribute keyword column) (parse_column_attributes n)
       | None \<Rightarrow> sreturn column) r (\<lambda>_ k. k \<le> length ts)"
    proof (cases keyword)
      case (Some k)
      show ?thesis
        by (simp only: Some option.case, rule ends_call [OF parse_column_attribute_total r(1)])
          (use r(2) Some Suc.prems(2) in \<open>auto intro: ends_mono [OF Suc.IH]\<close>)
    qed (use r in simp)
  qed
qed simp

lemma total_fuel:
  assumes "\<And>ts. clean ts \<Longrightarrow> ends (f (Suc (length ts))) ts (\<lambda>_ k. k \<le> length ts)"
  shows "total (\<lambda>ts. f (Suc (length ts)) ts)"
  using assms by (simp add: consumes_def ends_def)

lemma parse_create_table_column_total [total_intros]: "total parse_create_table_column"
  unfolding parse_create_table_column_def
  by (intro total_bind next_ident_consumes [THEN consumes_total] parse_data_type_total
      total_fuel [where f = "\<lambda>n. parse_column_attributes n _"] parse_column_attributes_ends) auto

lemma parse_create_table_total [total_intros]: "total parse_create_table"
  unfolding parse_create_table_def by (intro total_intros)

lemma parse_drop_table_total [total_intros]: "total parse_drop_table"
  unfolding parse_drop_table_def by (intro total_intros)

lemma optional_expression_total [total_intros]: "total (optional_expression k)"
  unfolding optional_expression_def by (intro total_intros)

lemma clauses_total [total_intros]:
  "total parse_where_clause" "total parse_having_clause" "total parse_limit_clause" "total parse_offset_clause"
  unfolding parse_where_clause_def parse_having_clause_def parse_limit_clause_def parse_offset_clause_def
  by (rule optional_expression_total)+

lemma parse_delete_total [total_intros]: "total parse_delete"
  unfolding parse_delete_def by (intro total_intros)

lemma paren_list_total [total_intros]: "total item \<Longrightarrow> total (paren_list item)"
  unfolding paren_list_def by (intro total_intros)

lemma parse_insert_total [total_intros]: "total parse_insert"
  unfolding parse_insert_def by (intro total_intros)

lemma parse_assignment_total [total_intros]: "total (parse_assignment assigned)"
  unfolding parse_assignment_def by (intro total_intros)

lemma parse_assignments_ends:
  "clean ts \<Longrightarrow> length ts < n \<Longrightarrow> ends (parse_assignments n assigned) ts (\<lambda>_ k. k \<le> length ts)"
proof (induction n arbitrary: ts assigned)
  case (Suc n)
  show ?case
    unfolding parse_assignments.simps
  proof (rule ends_call [OF parse_assignment_total Suc.prems(1)], rule ends_call [OF next_is_consumes], assumption)
    fix assigned' r more r'
    assume r: "0 + length r \<le> length ts" "clean r'" "(if more then 1 else 0) + length r' \<le> length r"
    then show "ends (if more then parse_assignments n assigned' else sreturn assigned') r' (\<lambda>_ k. k \<le> length ts)"
      using Suc.prems(2) by (cases more) (auto intro: ends_mono [OF Suc.IH])
  qed
qed simp

lemma parse_update_total [total_intros]: "total parse_update"
  unfolding parse_update_def
  by (intro total_intros total_fuel [where f = "\<lambda>n. parse_assignments n []"] parse_assignments_ends) auto

lemma next_is_alias_total [total_intros]: "total next_is_alias"
  unfolding next_is_alias_def by (intro total_intros)

lemma parse_select_item_total [total_intros]: "total parse_select_item"
  unfolding parse_select_item_def by (intro total_intros)

lemma parse_select_clause_total [total_intros]: "total parse_select_clause"
  unfolding parse_select_clause_def by (intro total_intros)

lemma parse_from_table_total [total_intros]: "total parse_from_table"
  unfolding parse_from_table_def by (intro total_intros)

text \<open>A branch taken on a token has consumed it.\<close>

lemma consumes_branch:
  assumes "total body" "consumes (\<lambda>x. if x = None then 0 else 1) m"
  shows "consumes (\<lambda>x. if x = None then 0 else 1) (sbind (next_is t) (\<lambda>b. if b then body else m))"
proof (rule consumes_bind [OF next_is_consumes])
  show "consumes (\<lambda>x. if b \<or> x = None then 0 else 1) (if b then body else m)" for b
    using assms by simp
qed simp

lemma parse_from_join_consumes: "consumes (\<lambda>x. if x = None then 0 else 1) parse_from_join"
proof -
  have "consumes (\<lambda>x. if x = None then 0 else 1) (sreturn (None :: join_type option))"
    by (simp add: consumes_def)
  then show ?thesis
    unfolding parse_from_join_def by (intro consumes_branch total_intros)
qed

lemma parse_joins_ends:
  "clean ts \<Longrightarrow> length ts < n \<Longrightarrow> ends (parse_joins n item) ts (\<lambda>_ k. k \<le> length ts)"
proof (induction n arbitrary: ts item)
  case (Suc n)
  have predicate: "total (if type = CrossJoin then sreturn None
      else sbind (expect (TokKeyword KwOn)) (\<lambda>_. sbind parse_expression (\<lambda>e. sreturn (Some e))))" for type
    by (intro total_intros)
  show ?case
    unfolding parse_joins.simps
  proof (rule ends_call [OF parse_from_join_consumes Suc.prems(1)])
    fix type :: "join_type option" and r
    assume r: "clean r" "(if type = None then 0 else 1) + length r \<le> length ts"
    show "ends (case type of
         None \<Rightarrow> sreturn item
       | Some type \<Rightarrow>
           sbind parse_from_table (\<lambda>right.
           sbind (if type = CrossJoin then sreturn None
                  else sbind (expect (TokKeyword KwOn)) (\<lambda>_.
                       sbind parse_expression (\<lambda>e. sreturn (Some e)))) (\<lambda>predicate.
           parse_joins n (FromJoin item right type predicate)))) r (\<lambda>_ k. k \<le> length ts)"
    proof (cases type)
      case (Some j)
      show ?thesis
        by (simp only: Some option.case, rule ends_call [OF parse_from_table_total r(1)],
            rule ends_call [OF predicate], assumption)
          (use r(2) Some Suc.prems(2) in \<open>auto intro: ends_mono [OF Suc.IH]\<close>)
    qed (use r in simp)
  qed
qed simp

lemma parse_from_item_total [total_intros]: "total parse_from_item"
  unfolding parse_from_item_def
  by (intro total_bind parse_from_table_total total_fuel [where f = "\<lambda>n. parse_joins n _"] parse_joins_ends) auto

lemma parse_from_clause_total [total_intros]: "total parse_from_clause"
  unfolding parse_from_clause_def by (intro total_intros)

lemma parse_group_by_clause_total [total_intros]: "total parse_group_by_clause"
  unfolding parse_group_by_clause_def by (intro total_intros)

lemma parse_order_item_total [total_intros]: "total parse_order_item"
  unfolding parse_order_item_def by (intro total_intros)

lemma parse_order_by_clause_total [total_intros]: "total parse_order_by_clause"
  unfolding parse_order_by_clause_def by (intro total_intros)

lemma parse_select_total [total_intros]: "total parse_select"
  unfolding parse_select_def by (intro total_intros)

text \<open>\<^verbatim>\<open>EXPLAIN\<close> recurses once: what follows it is not another \<^verbatim>\<open>EXPLAIN\<close>, so the inner statement ends too.\<close>

definition not_explain :: "token result list \<Rightarrow> bool" where
  "not_explain ts = (case ts of Ok t # _ \<Rightarrow> t \<noteq> TokKeyword KwExplain | _ \<Rightarrow> True)"

lemma next_is_eq:
  "next_is t ts = (case ts of
     Ok t' # r \<Rightarrow> if t' = t then (Ok True, r) else (Ok False, ts)
   | _ \<Rightarrow> (Ok False, ts))"
  by (auto simp: next_is_def next_if_def next_if_map_def sbind_def sreturn_def split: list.split result.split)

lemma next_is_explain:
  "next_is (TokKeyword KwExplain) ts = (if not_explain ts then (Ok False, ts) else (Ok True, tl ts))"
  by (auto simp: next_is_eq not_explain_def split: list.splits result.splits)

lemma ends_if: "(b \<Longrightarrow> ends m ts P) \<Longrightarrow> (\<not> b \<Longrightarrow> ends m' ts P) \<Longrightarrow> ends (if b then m else m') ts P"
  by simp

lemma statement_ends:
  assumes "clean ts" "\<And>r. clean r \<Longrightarrow> not_explain r \<Longrightarrow> \<not> not_explain ts \<Longrightarrow> ends (parse_statement_at n) r (\<lambda>_ _. True)"
  shows "ends (parse_statement_at (Suc n)) ts (\<lambda>_ _. True)"
proof -
  let ?explain = "sbind (expect (TokKeyword KwExplain)) (\<lambda>_.
      sbind (next_is (TokKeyword KwExplain)) (\<lambda>nested.
      if nested then slift (errinput ''cannot nest EXPLAIN statements'')
      else sbind (parse_statement_at n) (\<lambda>statement. sreturn (StExplain statement))))"
  have explain: "ends ?explain ts (\<lambda>_ _. True)" if "\<not> not_explain ts"
  proof (rule ends_call [OF expect_consumes assms(1)])
    fix x r assume r: "clean r"
    show "ends (sbind (next_is (TokKeyword KwExplain)) (\<lambda>nested.
      if nested then slift (errinput ''cannot nest EXPLAIN statements'')
      else sbind (parse_statement_at n) (\<lambda>statement. sreturn (StExplain statement)))) r (\<lambda>_ _. True)"
    proof (cases "not_explain r")
      case True
      then have step: "next_is (TokKeyword KwExplain) r = (Ok False, r)"
        by (simp add: next_is_explain)
      have "ends (parse_statement_at n) r (\<lambda>_ _. True)"
        using assms(2) [OF r True that] .
      then have "ends (sbind (parse_statement_at n) (\<lambda>statement. sreturn (StExplain statement))) r (\<lambda>_ _. True)"
        by (rule ends_bind) simp
      then show ?thesis
        by (simp only: ends_def sbind_Ok [where m = "next_is (TokKeyword KwExplain)" and s = r, OF step] if_False)
    next
      case False
      then have step: "next_is (TokKeyword KwExplain) r = (Ok True, tl r)"
        by (simp add: next_is_explain)
      show ?thesis
        by (simp only: ends_def sbind_Ok [where m = "next_is (TokKeyword KwExplain)" and s = r, OF step] if_True)
          (simp add: slift_def)
    qed
  qed
  have any: "ends m ts (\<lambda>_ _. True)" if "total m" for m :: "statement parser"
    using consumesD [OF that assms(1)] by (rule ends_mono) simp
  show ?thesis
  proof (cases ts)
    case Nil
    then show ?thesis by (simp add: ends_def sbind_def peek_def slift_def)
  next
    case (Cons tok rest)
    show ?thesis
    proof (cases tok)
      case (Ok t)
      have peeked: "peek ts = (Ok (Some t), ts)" by (simp add: peek_def Cons Ok)
      have "ends (if t = TokKeyword KwBegin then parse_begin
           else if t = TokKeyword KwCommit then parse_commit
           else if t = TokKeyword KwRollback then parse_rollback
           else if t = TokKeyword KwExplain then ?explain
           else if t = TokKeyword KwCreate then parse_create_table
           else if t = TokKeyword KwDrop then parse_drop_table
           else if t = TokKeyword KwDelete then parse_delete
           else if t = TokKeyword KwInsert then parse_insert
           else if t = TokKeyword KwSelect then parse_select
           else if t = TokKeyword KwUpdate then parse_update
           else unexpected_token) ts (\<lambda>_ _. True)"
        by (rule ends_if | (rule explain, simp add: not_explain_def Cons Ok) | (rule any, rule total_intros))+
      then show ?thesis
        by (simp only: parse_statement_at.simps sbind_Ok [where m = peek and s = ts, OF peeked] option.case ends_def)
    qed (use Cons assms(1) in \<open>auto simp: ends_def sbind_def peek_def\<close>)
  qed
qed

lemma parse_statement_ends: "clean ts \<Longrightarrow> ends parse_statement ts (\<lambda>_ _. True)"
  unfolding parse_statement_def numeral_2_eq_2 by (intro statement_ends) auto

text \<open>The lexer yields tokens and errors only.\<close>

lemma scan_no_panic: "scan s \<noteq> (Panic p, r)"
  by (auto simp: scan_def Let_def scan_string_def scan_ident_quoted_def split: list.splits option.splits prod.splits)

lemma clean_tokens: "clean (tokens s)"
proof (induction s rule: tokens.induct)
  case (1 s)
  show ?case
    using 1
    by (subst tokens.simps)
      (auto simp: lexer_next_def scan_no_panic split: prod.splits option.splits result.splits if_splits)
qed

text \<open>
  Property C39. The parser terminates on every input text, with a statement or an error: no recursion or
  loop of the parser reaches the bound the model puts on it, and no panic of the lexer or the parser is
  reachable.
\<close>

theorem parse_never_panics: "parse input \<noteq> Panic p \<and> parse_expr input \<noteq> Panic p"
proof
  have ended: "fst (sbind m f ts) \<noteq> Panic p"
    if "ends m ts (\<lambda>_ _. True)" "\<And>x r. clean r \<Longrightarrow> fst (f x r) \<noteq> Panic p" for m :: "'b parser" and f :: "'b \<Rightarrow> 'c parser" and ts
    using that by (auto simp: ends_def sbind_def split: prod.splits result.splits)
  have last: "fst (sbind end_of_input (\<lambda>_. sreturn x) r) \<noteq> Panic p" if "clean r" for x :: 'b and r
    using that by (auto simp: sbind_def end_of_input_def sreturn_def split: list.splits result.splits)
  show "parse input \<noteq> Panic p"
    unfolding parse_def
    by (intro ended parse_statement_ends clean_tokens ends_mono [OF consumesD [OF skip_total]] last) auto
  show "parse_expr input \<noteq> Panic p"
    unfolding parse_expr_def
    by (intro ended ends_mono [OF consumesD [OF parse_expression_total]] clean_tokens last) auto
qed

end
