(* ===== verification/SqlPrinter.thy ===== *)
theory SqlPrinter
  imports SqlParserTotal
begin

text \<open>
  Text for tokens and tokens for expressions, as a reference for the lexer and the parser of
  \<^verbatim>\<open>src/sql/parser/\<close>. Names are printed quoted and tokens are separated by spaces; expressions are printed
  with the parentheses that the precedences require.
\<close>

section \<open>Tokens as text\<close>

fun double_quotes :: "char \<Rightarrow> string \<Rightarrow> string" where
  "double_quotes q [] = []"
| "double_quotes q (c # s) = (if c = q then q # q # double_quotes q s else c # double_quotes q s)"

fun show_token :: "token \<Rightarrow> string" where
  "show_token (TokIdent name) = CHR 0x22 # double_quotes (CHR 0x22) name @ [CHR 0x22]"
| "show_token (TokString s) = CHR 0x27 # double_quotes (CHR 0x27) s @ [CHR 0x27]"
| "show_token t = token_text t"

definition show_tokens :: "token list \<Rightarrow> string" where
  "show_tokens ts = concat (map (\<lambda>t. show_token t @ '' '') ts)"

text \<open>A number is the text of one number.\<close>

fun well_formed :: "token \<Rightarrow> bool" where
  "well_formed (TokNumber n) = (n \<noteq> [] \<and> is_ascii_digit (hd n) \<and> scan_number n = (n, []))"
| "well_formed _ = True"

section \<open>Scanning printed tokens\<close>

lemma dropWhile_stop: "\<not> p c \<Longrightarrow> dropWhile p (xs @ c # ys) = dropWhile p xs @ c # ys"
  by (induction xs) auto

lemma takeWhile_stop: "\<not> p c \<Longrightarrow> takeWhile p (xs @ c # ys) = takeWhile p xs"
  by (induction xs) auto

lemma space_class [simp]:
  "\<not> is_ascii_digit (CHR '' '')" "is_whitespace (CHR '' '')" "\<not> ident_char (CHR '' '')"
  by (simp_all add: is_ascii_digit_def is_whitespace_def ident_char_def is_alphabetic_def is_uppercase_def char_code_def)

lemma digit_class: "is_ascii_digit c \<Longrightarrow>
  \<not> is_whitespace c \<and> c \<noteq> CHR 0x27 \<and> c \<noteq> CHR 0x22 \<and> \<not> is_alphabetic c \<and> c \<noteq> CHR ''.'' \<and> c \<noteq> CHR ''e'' \<and> c \<noteq> CHR ''E''"
  by (auto simp: is_ascii_digit_def is_whitespace_def is_alphabetic_def is_uppercase_def char_code_def)

lemma alphabetic_class: "is_alphabetic c \<Longrightarrow>
  \<not> is_whitespace c \<and> c \<noteq> CHR 0x27 \<and> c \<noteq> CHR 0x22 \<and> \<not> is_ascii_digit c"
  by (auto simp: is_ascii_digit_def is_whitespace_def is_alphabetic_def is_uppercase_def char_code_def)

lemma scan_fraction_space: "scan_fraction s = (x, r) \<Longrightarrow> scan_fraction (s @ CHR '' '' # t) = (x, r @ CHR '' '' # t)"
  by (cases s) (auto simp: scan_fraction_def dropWhile_stop takeWhile_stop split: if_splits)

lemma scan_sign_space: "scan_sign s = (x, r) \<Longrightarrow> scan_sign (s @ CHR '' '' # t) = (x, r @ CHR '' '' # t)"
  by (cases s) (auto simp: scan_sign_def split: if_splits)

lemma scan_exponent_space: "scan_exponent s = (x, r) \<Longrightarrow> scan_exponent (s @ CHR '' '' # t) = (x, r @ CHR '' '' # t)"
  by (cases s) (auto simp: scan_exponent_def dropWhile_stop takeWhile_stop scan_sign_space
      split: if_splits prod.splits dest: scan_sign_space [where t = t])

lemma scan_number_space: "scan_number s = (x, r) \<Longrightarrow> scan_number (s @ CHR '' '' # t) = (x, r @ CHR '' '' # t)"
proof -
  assume n: "scan_number s = (x, r)"
  obtain f r1 where f: "scan_fraction (dropWhile is_ascii_digit s) = (f, r1)" by fastforce
  obtain e r2 where e: "scan_exponent r1 = (e, r2)" by fastforce
  show ?thesis
    using n f e by (simp add: scan_number_def dropWhile_stop takeWhile_stop scan_fraction_space scan_exponent_space)
qed

lemma scan_quoted_printed:
  assumes "d \<noteq> q"
  shows "scan_quoted q (double_quotes q s @ q # d # t) = Some (s, d # t)"
proof (induction s)
  case Nil
  show ?case using assms by simp
next
  case (Cons c s)
  show ?case
  proof (cases "c = q")
    case True
    have "scan_quoted q (double_quotes q (c # s) @ q # d # t) =
        map_option (\<lambda>(x, r). (q # x, r)) (scan_quoted q (double_quotes q s @ q # d # t))"
      unfolding True by simp
    then show ?thesis unfolding Cons.IH True by simp
  next
    case False
    then have "scan_quoted q (double_quotes q (c # s) @ q # d # t) =
        map_option (\<lambda>(x, r). (c # x, r)) (scan_quoted q (double_quotes q s @ q # d # t))"
      by simp
    then show ?thesis unfolding Cons.IH by simp
  qed
qed
text \<open>The keywords are scanned as what they are.\<close>

definition keyword_scans :: "keyword \<Rightarrow> bool" where
  "keyword_scans k = (case keyword_text k of
      c # r \<Rightarrow> is_alphabetic c \<and> list_all ident_char r \<and> keyword_of (map to_lowercase (c # r)) = Some k
    | [] \<Rightarrow> False)"

lemma keyword_scans_all: "keyword_scans k"
  by (cases k; hypsubst; code_simp)

lemma lexer_next_space [simp]: "lexer_next (CHR '' '' # s) = lexer_next s"
  by (simp add: lexer_next_def scan_def)

lemma tokens_space [simp]: "tokens (CHR '' '' # s) = tokens s"
  by (subst (1 2) tokens.simps) simp

lemma scan_keyword: "scan (keyword_text k @ CHR '' '' # s) = (Ok (Some (TokKeyword k)), CHR '' '' # s)"
proof -
  obtain c r where k: "keyword_text k = c # r" "is_alphabetic c" "list_all ident_char r"
    "keyword_of (map to_lowercase (c # r)) = Some k"
    using keyword_scans_all [of k] by (auto simp: keyword_scans_def split: list.splits)
  have "takeWhile ident_char (r @ CHR '' '' # s) = r" "dropWhile ident_char (r @ CHR '' '' # s) = CHR '' '' # s"
    using k(3) by (auto simp: list_all_iff takeWhile_append dropWhile_append)
  with k alphabetic_class [OF k(2)] show ?thesis
    by (simp add: scan_def scan_ident_or_keyword_def Let_def)
qed

lemma scan_printed:
  assumes "well_formed t"
  shows "scan (show_token t @ CHR '' '' # s) = (Ok (Some t), CHR '' '' # s)"
proof (cases t)
  case (TokNumber n)
  then obtain c r where n: "n = c # r" "is_ascii_digit c" "scan_number n = (n, [])"
    using assms by (cases n) auto
  then show ?thesis
    using digit_class [OF n(2)] scan_number_space [OF n(3), of s] TokNumber by (simp add: scan_def)
next
  case (TokString x)
  then show ?thesis
    using scan_quoted_printed [of "CHR '' ''" "CHR 0x27" x s]
    by (simp add: scan_def scan_string_def is_whitespace_def char_code_def)
next
  case (TokIdent x)
  then show ?thesis
    using scan_quoted_printed [of "CHR '' ''" "CHR 0x22" x s]
    by (simp add: scan_def scan_ident_quoted_def is_whitespace_def char_code_def)
next
  case (TokKeyword k)
  then show ?thesis by (simp add: scan_keyword)
qed (simp_all add: scan_def scan_symbol_def symbols_def next_is_char_def is_whitespace_def is_ascii_digit_def
      is_alphabetic_def is_uppercase_def char_code_def)

lemma tokens_printed: "list_all well_formed ts \<Longrightarrow> tokens (show_tokens ts) = map Ok ts"
proof (induction ts)
  case Nil
  then show ?case by (subst tokens.simps) (simp add: show_tokens_def lexer_next_def scan_def)
next
  case (Cons t ts)
  then have "lexer_next (show_token t @ CHR '' '' # show_tokens ts) = (Some (Ok t), CHR '' '' # show_tokens ts)"
    by (simp add: lexer_next_def scan_printed)
  moreover have "show_tokens (t # ts) = show_token t @ CHR '' '' # show_tokens ts"
    by (simp add: show_tokens_def)
  ultimately show ?case using Cons by (subst tokens.simps) simp
qed

section \<open>Numbers\<close>

definition digit_char :: "nat \<Rightarrow> char" where
  "digit_char d = char_of (48 + d)"

fun nat_digits :: "nat \<Rightarrow> string" where
  "nat_digits n = (if n < 10 then [digit_char n] else nat_digits (n div 10) @ [digit_char (n mod 10)])"

declare nat_digits.simps [simp del]

lemma digit_char: "d < 10 \<Longrightarrow> is_ascii_digit (digit_char d) \<and> digit_value (digit_char d) = d"
  by (simp add: digit_char_def is_ascii_digit_def digit_value_def char_code_def)

lemma nat_digits_ascii: "list_all is_ascii_digit (nat_digits n)"
  by (induction n rule: nat_digits.induct) (subst nat_digits.simps, simp add: digit_char)

lemma nat_digits_nonempty: "nat_digits n \<noteq> []"
  by (subst nat_digits.simps) simp

lemma digits_value_snoc: "digits_value (s @ [c]) = digits_value s * 10 + digit_value c"
  by (simp add: digits_value_def)

lemma digits_value_nat_digits [simp]: "digits_value (nat_digits n) = n"
proof (induction n rule: nat_digits.induct)
  case (1 n)
  show ?case
  proof (cases "n < 10")
    case True
    then show ?thesis by (subst nat_digits.simps) (simp add: digits_value_def digit_char)
  next
    case False
    with 1 show ?thesis by (subst nat_digits.simps) (simp add: digits_value_snoc digit_char)
  qed
qed

lemma foldl_digits_mono: "acc \<le> foldl (\<lambda>acc c. acc * 10 + digit_value c) acc s"
proof (induction s arbitrary: acc)
  case (Cons c s)
  have "acc \<le> acc * 10 + digit_value c" by simp
  also note Cons.IH [of "acc * 10 + digit_value c"]
  finally show ?case by simp
qed simp

lemma parse_digits_value:
  "list_all is_ascii_digit s \<Longrightarrow> foldl (\<lambda>acc c. acc * 10 + digit_value c) acc s < limit \<Longrightarrow>
   parse_digits limit acc s = Ok (foldl (\<lambda>acc c. acc * 10 + digit_value c) acc s)"
proof (induction s arbitrary: acc)
  case (Cons c s)
  have "acc * 10 + digit_value c < limit"
    using foldl_digits_mono [of "acc * 10 + digit_value c" s] Cons.prems(2) by simp
  with Cons show ?case by simp
qed simp

lemma parse_uint_nat_digits: "n < limit \<Longrightarrow> parse_uint limit (nat_digits n) = Ok n"
  using parse_digits_value [of "nat_digits n" 0 limit] nat_digits_ascii [of n]
  by (simp add: parse_uint_def nat_digits_nonempty flip: digits_value_def)

text \<open>A finite non-negative float is printed exactly.\<close>

definition show_float :: "f64 \<Rightarrow> string" where
  "show_float f = nat_digits (f64_numerator (unat f) * 5 ^ 1074) @ ''e-1074''"

lemma shift_for_numerator:
  assumes "0 < e" "f < 2 ^ 52"
  shows "shift_for ((2 ^ 52 + f) * 2 ^ (e - 1)) = e - 1"
proof (rule shift_for_eq)
  show "2 ^ (52 + (e - 1)) \<le> (2 ^ 52 + f) * 2 ^ (e - 1)" by (simp add: power_add)
  have "(2 ^ 52 + f) * 2 ^ (e - 1) < 2 ^ 53 * 2 ^ (e - 1)" using assms(2) by simp
  then show "(2 ^ 52 + f) * 2 ^ (e - 1) < 2 ^ (53 + (e - 1))" by (simp only: power_add)
qed

lemma f64_round_exact:
  assumes "0 < d" "unat f < 0x7FF0000000000000"
  shows "f64_round False (f64_numerator (unat f) * d) d = f"
proof -
  define b where "b = unat f"
  define sh where "sh = b div 2 ^ 52 - 1"
  let ?u = "f64_numerator b"
  have f: "b mod 2 ^ 52 < 2 ^ 52" by simp
  have s: "shift_for ?u = sh" and m: "?u = 2 ^ sh * (b - sh * 2 ^ 52)"
  proof (atomize (full), cases "b div 2 ^ 52")
    case 0
    then have "?u = b" "?u < 2 ^ 53" "sh = 0" by (simp_all add: f64_numerator_def sh_def div_eq_0_iff)
    then show "shift_for ?u = sh \<and> ?u = 2 ^ sh * (b - sh * 2 ^ 52)"
      by (subst shift_for.simps) simp
  next
    case (Suc e)
    have "b - e * 2 ^ 52 = 2 ^ 52 + b mod 2 ^ 52"
      using div_mult_mod_eq [of b "2 ^ 52"] unfolding Suc by simp
    moreover have "sh = e" by (simp only: sh_def Suc diff_Suc_1)
    moreover have "?u = (2 ^ 52 + b mod 2 ^ 52) * 2 ^ e"
      by (simp only: f64_numerator_def Let_def Suc) simp
    ultimately show "shift_for ?u = sh \<and> ?u = 2 ^ sh * (b - sh * 2 ^ 52)"
      using shift_for_numerator [OF _ f, of "Suc e"] by simp
  qed
  have "sh \<le> b div 2 ^ 52" by (simp add: sh_def)
  then have "sh * 2 ^ 52 \<le> b div 2 ^ 52 * 2 ^ 52" by (rule mult_le_mono1)
  also have "\<dots> \<le> b" by (rule div_times_less_eq_dividend)
  finally have le: "sh * 2 ^ 52 \<le> b" .
  have div: "?u * d div d = ?u" "?u * d div (d * 2 ^ sh) = b - sh * 2 ^ 52" "?u * d mod (d * 2 ^ sh) = 0"
    using assms(1) unfolding m by (simp_all add: mult.commute mult.left_commute)
  have pos: "0 < d * 2 ^ sh" using assms(1) by simp
  have "f64_round False (?u * d) d = word_of_nat (min (sh * 2 ^ 52 + (b - sh * 2 ^ 52)) 0x7FF0000000000000)"
    by (simp only: f64_round_def f64_signed_def Let_def div s mult_0_right if_False not_less_zero
        pos [THEN less_imp_neq] simp_thms)
  also have "\<dots> = word_of_nat b" using le assms(2) by (simp add: b_def)
  finally show ?thesis by (simp add: b_def)
qed

lemma parse_f64_exponent: "parse_f64 (nat_digits m @ ''e-1074'') = Ok (f64_decimal m (- int 1074))"
proof -
  have d: "dropWhile is_ascii_digit (nat_digits m @ ''e-1074'') = ''e-1074''"
    "takeWhile is_ascii_digit (nat_digits m @ ''e-1074'') = nat_digits m"
    using nat_digits_ascii [of m]
    by (auto simp: list_all_iff dropWhile_append takeWhile_append is_ascii_digit_def char_code_def)
  have "digits_value ''1074'' = 1074" "list_all is_ascii_digit ''1074''"
    by (simp_all add: digits_value_def digit_value_def char_code_def is_ascii_digit_def)
  then show ?thesis
    using nat_digits_nonempty by (simp add: parse_f64_def d Let_def)
qed

lemma f64_decimal_neg:
  assumes "0 < k"
  shows "f64_decimal m (- int k) = f64_round False (m * 2 ^ 1074) (10 ^ k)"
proof -
  have "\<not> 0 \<le> - int k" using assms by simp
  then show ?thesis by (simp only: f64_decimal_def if_False minus_minus nat_int)
qed

lemma power_ten: "m * 5 ^ k * 2 ^ k = m * 10 ^ k" for m :: nat
  by (simp only: mult.assoc flip: power_mult_distrib) simp

lemma f64_decimal_exact:
  assumes "unat f < 0x7FF0000000000000"
  shows "f64_decimal (f64_numerator (unat f) * 5 ^ 1074) (- int 1074) = f"
proof -
  have "f64_decimal (f64_numerator (unat f) * 5 ^ 1074) (- int 1074) =
      f64_round False (f64_numerator (unat f) * 5 ^ 1074 * 2 ^ 1074) (10 ^ 1074)"
    by (rule f64_decimal_neg) simp
  also have "\<dots> = f64_round False (f64_numerator (unat f) * 10 ^ 1074) (10 ^ 1074)"
    by (simp only: power_ten)
  also have "\<dots> = f"
    by (rule f64_round_exact [OF _ assms], rule zero_less_power) simp
  finally show ?thesis .
qed

lemma parse_show_float:
  "unat f < 0x7FF0000000000000 \<Longrightarrow> parse_f64 (show_float f) = Ok f"
  by (simp only: show_float_def parse_f64_exponent f64_decimal_exact)

section \<open>Expressions as tokens\<close>

datatype operator_view =
    InfixView infix_operator ast_expr ast_expr
  | PrefixView prefix_operator ast_expr
  | PostfixView ast_expr "token list"

definition literal_token :: "ast_literal \<Rightarrow> token" where
  "literal_token l = (case l of
      LitNull \<Rightarrow> TokKeyword KwNull
    | LitBoolean b \<Rightarrow> TokKeyword (if b then KwTrue else KwFalse)
    | LitInteger i \<Rightarrow> TokNumber (nat_digits (unat i))
    | LitFloat f \<Rightarrow>
        if f = f64_nan then TokKeyword KwNaN
        else if f = f64_infinity then TokKeyword KwInfinity
        else TokNumber (show_float f)
    | LitString s \<Rightarrow> TokString s)"

fun view_of :: "ast_operator \<Rightarrow> operator_view" where
  "view_of (OpAnd l r) = InfixView InAnd l r"
| "view_of (OpNot e) = PrefixView PreNot e"
| "view_of (OpOr l r) = InfixView InOr l r"
| "view_of (OpEqual l r) = InfixView InEqual l r"
| "view_of (OpGreaterThan l r) = InfixView InGreaterThan l r"
| "view_of (OpGreaterThanOrEqual l r) = InfixView InGreaterThanOrEqual l r"
| "view_of (OpIs e v) = PostfixView e [TokKeyword KwIs, literal_token v]"
| "view_of (OpLessThan l r) = InfixView InLessThan l r"
| "view_of (OpLessThanOrEqual l r) = InfixView InLessThanOrEqual l r"
| "view_of (OpNotEqual l r) = InfixView InNotEqual l r"
| "view_of (OpAdd l r) = InfixView InAdd l r"
| "view_of (OpDivide l r) = InfixView InDivide l r"
| "view_of (OpExponentiate l r) = InfixView InExponentiate l r"
| "view_of (OpFactorial e) = PostfixView e [TokExclamation]"
| "view_of (OpIdentity e) = PrefixView PrePlus e"
| "view_of (OpMultiply l r) = InfixView InMultiply l r"
| "view_of (OpNegate e) = PrefixView PreMinus e"
| "view_of (OpRemainder l r) = InfixView InRemainder l r"
| "view_of (OpSubtract l r) = InfixView InSubtract l r"
| "view_of (OpLike l r) = InfixView InLike l r"

fun prefix_symbol :: "prefix_operator \<Rightarrow> token" where
  "prefix_symbol PreMinus = TokMinus"
| "prefix_symbol PreNot = TokKeyword KwNot"
| "prefix_symbol PrePlus = TokPlus"

fun infix_symbol :: "infix_operator \<Rightarrow> token" where
  "infix_symbol InAdd = TokPlus"
| "infix_symbol InAnd = TokKeyword KwAnd"
| "infix_symbol InDivide = TokSlash"
| "infix_symbol InEqual = TokEqual"
| "infix_symbol InExponentiate = TokCaret"
| "infix_symbol InGreaterThan = TokGreaterThan"
| "infix_symbol InGreaterThanOrEqual = TokGreaterThanOrEqual"
| "infix_symbol InLessThan = TokLessThan"
| "infix_symbol InLessThanOrEqual = TokLessThanOrEqual"
| "infix_symbol InLike = TokKeyword KwLike"
| "infix_symbol InMultiply = TokAsterisk"
| "infix_symbol InNotEqual = TokNotEqual"
| "infix_symbol InOr = TokKeyword KwOr"
| "infix_symbol InRemainder = TokPercent"
| "infix_symbol InSubtract = TokMinus"

text \<open>The least precedence an operand may have without parentheses.\<close>

definition left_level :: "infix_operator \<Rightarrow> nat" where
  "left_level op = (if infix_associativity op = AssocLeft then infix_precedence op else infix_precedence op + 1)"

definition right_level :: "infix_operator \<Rightarrow> nat" where
  "right_level op = prec_add (infix_precedence op) (infix_associativity op)"

fun level :: "ast_expr \<Rightarrow> nat" where
  "level (AstOperator op) = (case view_of op of
      InfixView op _ _ \<Rightarrow> infix_precedence op
    | PrefixView op _ \<Rightarrow> prefix_precedence op
    | PostfixView _ _ \<Rightarrow> (case op of OpFactorial _ \<Rightarrow> 9 | _ \<Rightarrow> 4))"
| "level _ = 11"

fun separated :: "token list list \<Rightarrow> token list" where
  "separated [] = []"
| "separated [x] = x"
| "separated (x # xs) = x @ TokComma # separated xs"

lemma view_of_size [termination_simp]:
  "view_of op = InfixView i l r \<Longrightarrow> size l < Suc (size op)"
  "view_of op = InfixView i l r \<Longrightarrow> size r < Suc (size op)"
  "view_of op = PrefixView p e \<Longrightarrow> size e < Suc (size op)"
  "view_of op = PostfixView e ts \<Longrightarrow> size e < Suc (size op)"
  by (cases op; force)+

text \<open>The printer adds parentheses to an operand whose operator binds less than \<open>k\<close>.\<close>

definition parenthesised :: "bool \<Rightarrow> token list \<Rightarrow> token list" where
  "parenthesised b ts = (if b then TokOpenParen # ts @ [TokCloseParen] else ts)"

fun print_expr :: "ast_expr \<Rightarrow> token list" where
  "print_expr AstAll = [TokAsterisk]"
| "print_expr (AstColumn None name) = [TokIdent name]"
| "print_expr (AstColumn (Some table) name) = [TokIdent table, TokPeriod, TokIdent name]"
| "print_expr (AstLiteral l) = [literal_token l]"
| "print_expr (AstFunction name args) =
     TokIdent name # TokOpenParen # separated (map print_expr args) @ [TokCloseParen]"
| "print_expr (AstOperator op) = (case view_of op of
      InfixView i l r \<Rightarrow>
        parenthesised (level l < left_level i) (print_expr l) @
        infix_symbol i # parenthesised (level r < right_level i) (print_expr r)
    | PrefixView p e \<Rightarrow> prefix_symbol p # parenthesised (level e < prefix_precedence p) (print_expr e)
    | PostfixView e ts \<Rightarrow> parenthesised (level e < 9) (print_expr e) @ ts)"

definition print_at :: "nat \<Rightarrow> ast_expr \<Rightarrow> token list" where
  "print_at k e = parenthesised (level e < k) (print_expr e)"

definition show_expr :: "ast_expr \<Rightarrow> string" where
  "show_expr e = show_tokens (print_expr e)"

text \<open>
  What the parser can produce: integer literals are not negative, floats neither, not-a-number is the
  canonical one, and \<^verbatim>\<open>IS\<close> is followed by \<^verbatim>\<open>NULL\<close> or \<^verbatim>\<open>NAN\<close>.
\<close>

fun literal_printable :: "ast_literal \<Rightarrow> bool" where
  "literal_printable (LitInteger i) = (unat i < 2 ^ 63)"
| "literal_printable (LitFloat f) = (f = f64_nan \<or> unat f \<le> 0x7FF0000000000000)"
| "literal_printable _ = True"

fun node_printable :: "ast_expr \<Rightarrow> bool" where
  "node_printable (AstLiteral l) = literal_printable l"
| "node_printable (AstOperator (OpIs _ v)) = (v = LitNull \<or> v = LitFloat f64_nan)"
| "node_printable _ = True"

definition printable :: "ast_expr \<Rightarrow> bool" where
  "printable e = list_all node_printable (ast_nodes e)"

lemma printable_simps [simp]:
  "printable AstAll" "printable (AstColumn t c)" "printable (AstLiteral l) = literal_printable l"
  "printable (AstFunction name args) = list_all printable args"
  by (auto simp: printable_def list_all_iff)

lemma printable_operator:
  "printable (AstOperator op) = (node_printable (AstOperator op) \<and> list_all printable (operands op))"
  by (auto simp: printable_def list_all_iff)

lemma literal_well_formed: "literal_printable l \<Longrightarrow> well_formed (literal_token l)"
proof -
  have digits: "well_formed (TokNumber (nat_digits n))" for n
  proof -
    have d: "dropWhile is_ascii_digit (nat_digits n) = []" "takeWhile is_ascii_digit (nat_digits n) = nat_digits n"
      "is_ascii_digit (hd (nat_digits n))"
      using nat_digits_ascii [of n] nat_digits_nonempty [of n] by (auto simp: list_all_iff takeWhile_eq_all_conv)
    then show ?thesis
      using nat_digits_nonempty [of n] by (simp add: d scan_number_def scan_fraction_def scan_exponent_def)
  qed
  have exponent: "well_formed (TokNumber (nat_digits m @ ''e-1074''))" for m
  proof -
    have digits: "list_all is_ascii_digit (nat_digits m)" "nat_digits m \<noteq> []"
      by (rule nat_digits_ascii nat_digits_nonempty)+
    then have d: "dropWhile is_ascii_digit (nat_digits m @ ''e-1074'') = ''e-1074''"
      "takeWhile is_ascii_digit (nat_digits m @ ''e-1074'') = nat_digits m" "is_ascii_digit (hd (nat_digits m))"
      by (auto simp: list_all_iff dropWhile_append takeWhile_append is_ascii_digit_def char_code_def)
    have "scan_exponent ''e-1074'' = (''e-1074'', [])"
      by (simp add: scan_exponent_def scan_sign_def is_ascii_digit_def char_code_def)
    then show ?thesis using digits(2) d(3) by (simp add: scan_number_def d scan_fraction_def)
  qed
  have float: "well_formed (TokNumber (show_float f))" for f
    unfolding show_float_def by (rule exponent)
  show ?thesis by (cases l) (auto simp: literal_token_def digits float simp del: well_formed.simps(1))
qed

lemma parenthesised_well_formed [simp]: "list_all well_formed (parenthesised b ts) = list_all well_formed ts"
  by (simp add: parenthesised_def)

lemma separated_well_formed:
  "(\<And>ts. ts \<in> set tss \<Longrightarrow> list_all well_formed ts) \<Longrightarrow> list_all well_formed (separated tss)"
  by (induction tss rule: separated.induct) auto

lemma symbols_well_formed [simp]: "well_formed (infix_symbol i)" "well_formed (prefix_symbol p)"
  by (cases i; simp) (cases p; simp)

lemma print_well_formed: "printable e \<Longrightarrow> list_all well_formed (print_expr e)"
proof (induction e rule: print_expr.induct)
  case (5 name args)
  then have "list_all well_formed (separated (map print_expr args))"
    by (intro separated_well_formed) (auto simp: list_all_iff [of printable])
  then show ?case by simp
next
  case (6 op)
  then show ?case
    by (cases op) (auto simp: printable_operator literal_well_formed)
qed (auto simp: literal_well_formed)

end
