(* ===== verification/SqlRoundTrip.thy ===== *)
theory SqlRoundTrip
  imports SqlPrinter
begin

text \<open>
  The parser inverts the printer. An outcome of the expression parser does not depend on the bound of its
  depth once it is large enough, so the parser is described by what it yields for every large bound; the
  rules for its loops then follow the printed tokens.
\<close>

section \<open>Larger bounds\<close>

definition refines :: "'a parser \<Rightarrow> 'a parser \<Rightarrow> bool" where
  "refines m m' = (\<forall>ts. (\<forall>p. fst (m ts) \<noteq> Panic p) \<longrightarrow> m' ts = m ts)"

lemma refines_refl: "refines m m"
  by (simp add: refines_def)

lemma refines_bind:
  assumes "refines m m'" "\<And>x. refines (f x) (f' x)"
  shows "refines (sbind m f) (sbind m' f')"
  unfolding refines_def
proof (intro allI impI)
  fix ts assume ok: "\<forall>p. fst (sbind m f ts) \<noteq> Panic p"
  obtain r s where m: "m ts = (r, s)" by fastforce
  then have "m' ts = (r, s)" using assms(1) ok by (cases r) (auto simp: refines_def sbind_def)
  with m ok assms(2) show "sbind m' f' ts = sbind m f ts" by (cases r) (auto simp: refines_def sbind_def)
qed

lemma refines_if: "refines m m' \<Longrightarrow> refines n n' \<Longrightarrow> refines (if b then m else n) (if b then m' else n')"
  by simp

lemma refines_option:
  "refines m m' \<Longrightarrow> (\<And>x. refines (f x) (f' x)) \<Longrightarrow>
   refines (case x of None \<Rightarrow> m | Some y \<Rightarrow> f y) (case x of None \<Rightarrow> m' | Some y \<Rightarrow> f' y)"
  by (cases x) simp_all

lemma refines_token:
  "(\<And>s. refines (number s) (number s)) \<Longrightarrow> (\<And>s. refines (ident s) (ident' s)) \<Longrightarrow> refines paren paren' \<Longrightarrow>
   refines
     (case t of TokAsterisk \<Rightarrow> all | TokNumber s \<Rightarrow> number s | TokString s \<Rightarrow> str s | TokKeyword k \<Rightarrow> kw k
      | TokIdent s \<Rightarrow> ident s | TokOpenParen \<Rightarrow> paren | _ \<Rightarrow> other)
     (case t of TokAsterisk \<Rightarrow> all | TokNumber s \<Rightarrow> number s | TokString s \<Rightarrow> str s | TokKeyword k \<Rightarrow> kw k
      | TokIdent s \<Rightarrow> ident' s | TokOpenParen \<Rightarrow> paren' | _ \<Rightarrow> other)"
  by (cases t) (simp_all add: refines_refl)

lemma parser_refines:
  "refines (parse_expression_at n p) (parse_expression_at (Suc n) p) \<and>
   refines (parse_expression_atom n) (parse_expression_atom (Suc n)) \<and>
   (\<forall>args. refines (parse_arguments n args) (parse_arguments (Suc n) args)) \<and>
   (\<forall>lhs. refines (parse_postfixes n p lhs) (parse_postfixes (Suc n) p lhs)) \<and>
   (\<forall>lhs. refines (parse_infixes n p lhs) (parse_infixes (Suc n) p lhs))"
proof (induction n arbitrary: p)
  case 0
  show ?case by (simp add: refines_def slift_def)
next
  case (Suc n)
  have ih: "refines (parse_expression_at n p) (parse_expression_at (Suc n) p)"
    "refines (parse_expression_atom n) (parse_expression_atom (Suc n))"
    "refines (parse_arguments n args) (parse_arguments (Suc n) args)"
    "refines (parse_postfixes n p lhs) (parse_postfixes (Suc n) p lhs)"
    "refines (parse_infixes n p lhs) (parse_infixes (Suc n) p lhs)" for p args lhs
    using Suc by blast+
  show ?case
  proof (intro conjI allI)
    show "refines (parse_expression_at (Suc n) p) (parse_expression_at (Suc (Suc n)) p)"
      by (subst (1 2) parse_expression_at.simps) (intro refines_bind refines_option refines_refl ih)
    show "refines (parse_expression_atom (Suc n)) (parse_expression_atom (Suc (Suc n)))"
      by (subst (1 2) parse_expression_atom.simps) (intro refines_bind refines_token refines_if refines_refl ih)
    show "refines (parse_arguments (Suc n) args) (parse_arguments (Suc (Suc n)) args)" for args
      by (subst (1 2) parse_arguments.simps) (intro refines_bind refines_if refines_refl ih)
    show "refines (parse_postfixes (Suc n) p lhs) (parse_postfixes (Suc (Suc n)) p lhs)" for lhs
      by (subst (1 2) parse_postfixes.simps) (intro refines_bind refines_option refines_refl ih)
    show "refines (parse_infixes (Suc n) p lhs) (parse_infixes (Suc (Suc n)) p lhs)" for lhs
      by (subst (1 2) parse_infixes.simps) (intro refines_bind refines_option refines_refl ih)
  qed
qed

lemma parse_expression_at_stable:
  assumes "\<And>q. fst (parse_expression_at n p ts) \<noteq> Panic q"
  shows "parse_expression_at (n + k) p ts = parse_expression_at n p ts"
proof (induction k)
  case (Suc k)
  then show ?case
    using parser_refines [of "n + k" p] assms by (auto simp: refines_def simp del: parse_expression_at.simps)
qed simp

section \<open>What the parser yields\<close>

definition yields :: "(nat \<Rightarrow> 'a parser) \<Rightarrow> token result list \<Rightarrow> 'a \<Rightarrow> token result list \<Rightarrow> bool" where
  "yields f ts x r = (\<exists>N. \<forall>n\<ge>N. f n ts = (Ok x, r))"

lemma parse_expression_yields:
  assumes "yields (\<lambda>n. parse_expression_at n 0) ts e r" "clean ts"
  shows "parse_expression ts = (Ok e, r)"
proof -
  obtain N where N: "\<And>n. n \<ge> N \<Longrightarrow> parse_expression_at n 0 ts = (Ok e, r)"
    using assms(1) by (auto simp: yields_def)
  have "ends (parse_expression_at (expression_fuel ts) 0) ts (\<lambda>_ k. k < length ts)"
    by (rule depth_okD(1) [OF depth_ok_all assms(2)]) (simp add: expression_fuel_def)
  then have "fst (parse_expression_at (expression_fuel ts) 0 ts) \<noteq> Panic q" for q
    by (auto simp: ends_def split: prod.splits result.splits)
  from parse_expression_at_stable [OF this, of N] N [of "expression_fuel ts + N"]
  show ?thesis by (simp add: parse_expression_def)
qed

lemma yields_const: "m ts = (Ok x, r) \<Longrightarrow> yields (\<lambda>n. m) ts x r"
  by (auto simp: yields_def)

lemma yields_bind:
  assumes "yields f ts x r" "yields (\<lambda>n. g n x) r y r'"
  shows "yields (\<lambda>n. sbind (f n) (g n)) ts y r'"
proof -
  obtain M N where "\<And>n. n \<ge> M \<Longrightarrow> f n ts = (Ok x, r)" "\<And>n. n \<ge> N \<Longrightarrow> g n x r = (Ok y, r')"
    using assms by (auto simp: yields_def)
  then have "\<And>n. n \<ge> max M N \<Longrightarrow> sbind (f n) (g n) ts = (Ok y, r')"
    by (simp add: sbind_def)
  then show ?thesis unfolding yields_def by blast
qed

text \<open>One level of recursion.\<close>

lemma yields_Suc:
  assumes "yields (\<lambda>n. g (Suc n)) ts x r"
  shows "yields g ts x r"
proof -
  obtain N where N: "\<And>n. n \<ge> N \<Longrightarrow> g (Suc n) ts = (Ok x, r)" using assms by (auto simp: yields_def)
  have "g n ts = (Ok x, r)" if "n \<ge> Suc N" for n
    using that N [of "n - 1"] by (cases n) auto
  then show ?thesis unfolding yields_def by blast
qed

lemma yields_first:
  assumes "m ts = (Ok x, r)" "yields (\<lambda>n. g n x) r y r'"
  shows "yields (\<lambda>n. sbind m (g n)) ts y r'"
  by (rule yields_bind, rule yields_const, rule assms(1), rule assms(2))

text \<open>The tokens that may follow an operand parsed at precedence \<open>p\<close> without continuing it.\<close>

definition follows :: "nat \<Rightarrow> token list \<Rightarrow> bool" where
  "follows p ys = (case ys of
      [] \<Rightarrow> True
    | t # _ \<Rightarrow> at_least infix_precedence p (infix_token t) = None \<and> (t = TokExclamation \<longrightarrow> 9 < p) \<and>
        (t = TokKeyword KwIs \<longrightarrow> 4 < p) \<and> t \<noteq> TokOpenParen \<and> t \<noteq> TokPeriod)"

lemma follows_mono: "follows p ys \<Longrightarrow> p \<le> q \<Longrightarrow> follows q ys"
  by (auto simp: follows_def at_least_def split: list.splits option.splits if_splits)

lemma follows_simps [simp]:
  "follows p []" "follows p (TokCloseParen # ys)" "follows p (TokComma # ys)"
  by (simp_all add: follows_def at_least_def infix_token_def)

lemma no_postfix:
  "(case ys of [] \<Rightarrow> True | t # _ \<Rightarrow> (t = TokExclamation \<longrightarrow> 9 < p) \<and> (t = TokKeyword KwIs \<longrightarrow> 4 < p)) \<Longrightarrow>
   parse_postfix_operator_at p (map Ok ys) = (Ok None, map Ok ys)"
  by (cases ys) (auto simp: parse_postfix_operator_at_def sbind_def peek_def next_if_map_def at_least_def sreturn_def)

lemma no_infix: "follows p ys \<Longrightarrow> parse_infix_operator_at p (map Ok ys) = (Ok None, map Ok ys)"
  by (cases ys) (auto simp: parse_infix_operator_at_def next_if_map_def follows_def)

lemma infix_symbol_token [simp]: "infix_token (infix_symbol i) = Some i"
  by (cases i) (simp_all add: infix_token_def)

lemma infix_symbol_other [simp]:
  "infix_symbol i \<noteq> TokExclamation" "infix_symbol i \<noteq> TokKeyword KwIs" "infix_symbol i \<noteq> TokOpenParen"
  "infix_symbol i \<noteq> TokPeriod"
  by (cases i; simp)+

lemma follows_infix: "infix_precedence i < p \<Longrightarrow> follows p (infix_symbol i # ys)"
  by (simp add: follows_def at_least_def)

lemma postfix_end: "follows p ys \<Longrightarrow> yields (\<lambda>n. parse_postfixes n p e) (map Ok ys) e (map Ok ys)"
  by (rule yields_Suc, simp only: parse_postfixes.simps, rule yields_first, rule no_postfix)
    (auto simp: follows_def yields_def sreturn_def split: list.splits)

lemma infix_end: "follows p ys \<Longrightarrow> yields (\<lambda>n. parse_infixes n p e) (map Ok ys) e (map Ok ys)"
  by (rule yields_Suc, simp only: parse_infixes.simps, rule yields_first, rule no_infix)
    (auto simp: yields_def sreturn_def)

lemma postfix_step:
  assumes "parse_postfix_operator_at p ts = (Ok (Some op), us)"
    "yields (\<lambda>n. parse_postfixes n p (postfix_expression op e)) us d r"
  shows "yields (\<lambda>n. parse_postfixes n p e) ts d r"
  by (rule yields_Suc, simp only: parse_postfixes.simps, rule yields_first, rule assms(1))
    (use assms(2) in simp)

lemma infix_step:
  assumes "p \<le> infix_precedence i" "yields (\<lambda>n. parse_expression_at n (right_level i)) (map Ok ts) r (map Ok us)"
    "yields (\<lambda>n. parse_infixes n p (infix_expression i e r)) (map Ok us) d zs"
  shows "yields (\<lambda>n. parse_infixes n p e) (map Ok (infix_symbol i # ts)) d zs"
proof (rule yields_Suc, simp only: parse_infixes.simps, rule yields_first)
  show "parse_infix_operator_at p (map Ok (infix_symbol i # ts)) = (Ok (Some i), map Ok ts)"
    using assms(1) by (simp add: parse_infix_operator_at_def next_if_map_def at_least_def)
  show "yields (\<lambda>n. case Some i of
      Some op \<Rightarrow> sbind (parse_expression_at n (prec_add (infix_precedence op) (infix_associativity op)))
        (\<lambda>rhs. parse_infixes n p (infix_expression op e rhs))
    | None \<Rightarrow> sreturn e) (map Ok ts) d zs"
    using yields_bind [OF assms(2), of "\<lambda>n rhs. parse_infixes n p (infix_expression i e rhs)"] assms(3)
    by (simp add: right_level_def)
qed

text \<open>What happens to an operand that has just been parsed, before and after the first infix operator.\<close>

definition after_infix :: "nat \<Rightarrow> ast_expr \<Rightarrow> token list \<Rightarrow> ast_expr \<Rightarrow> token list \<Rightarrow> bool" where
  "after_infix m e ys d zs = (\<exists>c us. yields (\<lambda>n. parse_infixes n m e) (map Ok ys) c (map Ok us) \<and>
     yields (\<lambda>n. parse_postfixes n m c) (map Ok us) d (map Ok zs))"

definition after_atom :: "nat \<Rightarrow> ast_expr \<Rightarrow> token list \<Rightarrow> ast_expr \<Rightarrow> token list \<Rightarrow> bool" where
  "after_atom m e ys d zs = (\<exists>b us. yields (\<lambda>n. parse_postfixes n m e) (map Ok ys) b (map Ok us) \<and>
     after_infix m b us d zs)"

lemma after_end: "follows m ys \<Longrightarrow> after_infix m e ys e ys" "follows m ys \<Longrightarrow> after_atom m e ys e ys"
  using infix_end postfix_end unfolding after_atom_def after_infix_def by blast+

lemma at_atom:
  assumes "parse_prefix_operator_at m (map Ok ts) = (Ok None, map Ok ts)"
    "yields parse_expression_atom (map Ok ts) a (map Ok ys)" "after_atom m a ys d zs"
  shows "yields (\<lambda>n. parse_expression_at n m) (map Ok ts) d (map Ok zs)"
proof -
  obtain b us c vs where u: "yields (\<lambda>n. parse_postfixes n m a) (map Ok ys) b (map Ok us)"
    "yields (\<lambda>n. parse_infixes n m b) (map Ok us) c (map Ok vs)"
    "yields (\<lambda>n. parse_postfixes n m c) (map Ok vs) d (map Ok zs)"
    using assms(3) unfolding after_atom_def after_infix_def by blast
  have "yields (\<lambda>n. case None of
        Some op \<Rightarrow> sbind (parse_expression_at n (prec_add (prefix_precedence op) (prefix_associativity op)))
          (\<lambda>rhs. sreturn (prefix_expression op rhs))
      | None \<Rightarrow> parse_expression_atom n) (map Ok ts) a (map Ok ys)"
    using assms(2) by simp
  then show ?thesis
    using u by - (rule yields_Suc, simp only: parse_expression_at.simps, rule yields_first, rule assms(1), (erule (1) yields_bind | rule yields_bind | assumption)+)
qed

lemma prefix_symbol_token [simp]: "prefix_token (prefix_symbol p) = Some p"
  by (cases p) (simp_all add: prefix_token_def)

lemma at_prefix:
  assumes "m \<le> prefix_precedence p" "yields (\<lambda>n. parse_expression_at n (prefix_precedence p)) (map Ok ts) e (map Ok ys)"
    "after_atom m (prefix_expression p e) ys d zs"
  shows "yields (\<lambda>n. parse_expression_at n m) (map Ok (prefix_symbol p # ts)) d (map Ok zs)"
proof -
  obtain b us c vs where u: "yields (\<lambda>n. parse_postfixes n m (prefix_expression p e)) (map Ok ys) b (map Ok us)"
    "yields (\<lambda>n. parse_infixes n m b) (map Ok us) c (map Ok vs)"
    "yields (\<lambda>n. parse_postfixes n m c) (map Ok vs) d (map Ok zs)"
    using assms(3) unfolding after_atom_def after_infix_def by blast
  have op: "parse_prefix_operator_at m (map Ok (prefix_symbol p # ts)) = (Ok (Some p), map Ok ts)"
    using assms(1) by (simp add: parse_prefix_operator_at_def next_if_map_def at_least_def)
  have "yields (\<lambda>n. sbind (parse_expression_at n (prefix_precedence p)) (\<lambda>rhs. sreturn (prefix_expression p rhs)))
      (map Ok ts) (prefix_expression p e) (map Ok ys)"
    by (rule yields_bind [OF assms(2)]) (simp add: yields_def sreturn_def)
  then have "yields (\<lambda>n. case Some p of
        Some op \<Rightarrow> sbind (parse_expression_at n (prec_add (prefix_precedence op) (prefix_associativity op)))
          (\<lambda>rhs. sreturn (prefix_expression op rhs))
      | None \<Rightarrow> parse_expression_atom n) (map Ok ts) (prefix_expression p e) (map Ok ys)"
    by (simp add: prefix_associativity_def)
  then show ?thesis
    using u by - (rule yields_Suc, simp only: parse_expression_at.simps, rule yields_first, rule op, (erule (1) yields_bind | rule yields_bind | assumption)+)
qed

section \<open>Operands\<close>

fun is_infix :: "ast_expr \<Rightarrow> bool" where
  "is_infix (AstOperator op) = (case view_of op of InfixView _ _ _ \<Rightarrow> True | _ \<Rightarrow> False)"
| "is_infix _ = False"

text \<open>The precedence at which the last operand of an expression is parsed.\<close>

fun edge :: "ast_expr \<Rightarrow> nat" where
  "edge (AstOperator op) = (case view_of op of
      InfixView i _ _ \<Rightarrow> right_level i | PrefixView p _ \<Rightarrow> prefix_precedence p | PostfixView _ _ \<Rightarrow> 12)"
| "edge _ = 12"

definition edge_at :: "nat \<Rightarrow> ast_expr \<Rightarrow> nat" where
  "edge_at k e = (if level e < k then 12 else edge e)"

definition after :: "nat \<Rightarrow> nat \<Rightarrow> ast_expr \<Rightarrow> token list \<Rightarrow> ast_expr \<Rightarrow> token list \<Rightarrow> bool" where
  "after k m e ys d zs = (if is_infix e \<and> k \<le> level e then after_infix m e ys d zs else after_atom m e ys d zs)"

lemma after_end': "follows m ys \<Longrightarrow> after k m e ys e ys"
  by (simp add: after_def after_end)

lemma precedence_bounds: "1 \<le> infix_precedence i" "infix_precedence i \<le> 8" "infix_precedence i \<noteq> 3"
  by (cases i; simp)+

lemma level_bounds: "infix_precedence i \<le> left_level i" "infix_precedence i \<le> right_level i" "right_level i \<le> 8"
  by (cases i; simp add: left_level_def right_level_def infix_associativity_def)+

lemma level_le: "level e \<le> 11"
  by (cases e) (auto split: operator_view.split ast_operator.split simp: precedence_bounds intro: le_trans [OF precedence_bounds(2)])

lemma edge_ge: "level e \<le> edge e"
  by (cases e) (auto split: operator_view.split ast_operator.split simp: level_bounds)

lemma edge_at_ge: "k \<le> 12 \<Longrightarrow> k \<le> edge_at k e"
  using edge_ge [of e] by (auto simp: edge_at_def)

text \<open>The left operand of an infix operator is not continued by the operator on its own.\<close>

lemma left_edge: "infix_precedence i < edge_at (left_level i) l"
proof (cases "level l < left_level i \<or> (\<forall>op. l \<noteq> AstOperator op)")
  case True
  then show ?thesis
    using precedence_bounds(2) [of i] by (cases l) (auto simp: edge_at_def)
next
  case False
  then obtain op where l: "l = AstOperator op" "left_level i \<le> level l" by auto
  show ?thesis
  proof (cases "view_of op")
    case (InfixView j a b)
    with l show ?thesis
      by (cases i; cases j) (auto simp: edge_at_def left_level_def right_level_def infix_associativity_def)
  next
    case (PrefixView p a)
    with l show ?thesis
      by (cases i; cases p) (auto simp: edge_at_def left_level_def infix_associativity_def)
  next
    case (PostfixView a ts)
    with l precedence_bounds(2) [of i] show ?thesis by (simp add: edge_at_def)
  qed
qed

lemma view_postfix:
  assumes "view_of op = PostfixView e ts" "node_printable (AstOperator op)" "p \<le> level (AstOperator op)"
  obtains o' where "\<And>ys. parse_postfix_operator_at p (map Ok (ts @ ys)) = (Ok (Some o'), map Ok ys)"
    "postfix_expression o' e = AstOperator op"
proof (cases op)
  case (OpIs a v)
  have "parse_postfix_operator_at p (map Ok (ts @ ys)) = (Ok (Some (PostIs v)), map Ok ys)" for ys
    using assms OpIs by (auto simp: parse_postfix_operator_at_def parse_is_def sbind_def peek_def expect_def next_token_def
        next_is_eq sreturn_def slift_def literal_token_def)
  then show ?thesis using that [of "PostIs v"] assms OpIs by simp
next
  case (OpFactorial a)
  have "parse_postfix_operator_at p (map Ok (ts @ ys)) = (Ok (Some PostFactorial), map Ok ys)" for ys
    using assms OpFactorial by (auto simp: parse_postfix_operator_at_def sbind_def peek_def next_if_map_def at_least_def)
  then show ?thesis using that [of PostFactorial] assms OpFactorial by simp
qed (use assms in auto)

lemma view_postfix_head:
  "view_of op = PostfixView e ts \<Longrightarrow> \<exists>t us. ts = t # us \<and> (t = TokExclamation \<or> t = TokKeyword KwIs)"
  by (cases op) auto

section \<open>Atoms\<close>

lemma yields_atom:
  assumes "next_token (map Ok ts) = (Ok t, us)" "\<And>n. parse_expression_atom (Suc n) (map Ok ts) = f n us" "yields f us e r"
  shows "yields parse_expression_atom (map Ok ts) e r"
  using assms(3) unfolding yields_def by (rule_tac yields_Suc [unfolded yields_def]) (simp only: assms(2))

lemma prefix_token_literal: "prefix_token (literal_token l) = None"
  by (auto simp: literal_token_def prefix_token_def split: ast_literal.split)

lemma number_literal_digits: "n < 2 ^ 63 \<Longrightarrow> number_literal (nat_digits n) = Ok (LitInteger (word_of_nat n))"
  by (simp add: number_literal_def nat_digits_ascii parse_i64_def parse_uint_nat_digits)

lemma exponent_not_digits: "\<not> list_all is_ascii_digit (s @ ''e-1074'')"
  by (simp add: is_ascii_digit_def char_code_def)

lemma not_all_digits: "\<not> list_all is_ascii_digit (show_float f)"
  unfolding show_float_def by (rule exponent_not_digits)

lemma literal_atom:
  assumes "literal_printable l"
  shows "parse_expression_atom (Suc n) (map Ok (literal_token l # ys)) = (Ok (AstLiteral l), map Ok ys)"
proof (cases l)
  case (LitInteger i)
  then show ?thesis
    using assms by (simp add: literal_token_def sbind_def next_token_def slift_def number_literal_digits)
next
  case (LitFloat f)
  have "number_literal (show_float f) = Ok (LitFloat f)" if "f \<noteq> f64_nan" "f \<noteq> f64_infinity"
  proof -
    have "unat f \<noteq> 0x7FF0000000000000" using that(2) by (simp add: word_unat_eq_iff f64_infinity_def)
    then have "parse_f64 (show_float f) = Ok f"
      using that(1) assms LitFloat by (intro parse_show_float) simp
    then show ?thesis by (simp add: number_literal_def not_all_digits)
  qed
  with LitFloat show ?thesis
    by (auto simp: literal_token_def sbind_def next_token_def slift_def keyword_literal_def)
qed (auto simp: literal_token_def sbind_def next_token_def slift_def sreturn_def keyword_literal_def)

lemma column_atom:
  "follows 12 ys \<Longrightarrow> parse_expression_atom (Suc n) (map Ok (TokIdent c # ys)) = (Ok (AstColumn None c), map Ok ys)"
  by (cases ys) (auto simp: sbind_def next_token_def next_is_eq sreturn_def follows_def)

lemma qualified_atom:
  "parse_expression_atom (Suc n) (map Ok (TokIdent t # TokPeriod # TokIdent c # ys)) = (Ok (AstColumn (Some t) c), map Ok ys)"
  by (simp add: sbind_def next_token_def next_is_eq sreturn_def next_ident_def slift_def)

lemma function_atom:
  assumes "yields (\<lambda>n. parse_arguments n []) (map Ok ts) args (map Ok ys)"
  shows "yields parse_expression_atom (map Ok (TokIdent f # TokOpenParen # ts)) (AstFunction f args) (map Ok ys)"
proof -
  have "parse_expression_atom (Suc n) (map Ok (TokIdent f # TokOpenParen # ts)) =
      sbind (parse_arguments n []) (\<lambda>args. sreturn (AstFunction f args)) (map Ok ts)" for n
    by (simp add: sbind_Ok [where m = next_token] next_token_def next_is_eq
        sbind_Ok [where m = "next_is TokOpenParen"])
  moreover have "yields (\<lambda>n. sbind (parse_arguments n []) (\<lambda>args. sreturn (AstFunction f args)))
      (map Ok ts) (AstFunction f args) (map Ok ys)"
    by (rule yields_bind [OF assms]) (simp add: yields_def sreturn_def)
  ultimately have "yields (\<lambda>n. parse_expression_atom (Suc n)) (map Ok (TokIdent f # TokOpenParen # ts))
      (AstFunction f args) (map Ok ys)"
    unfolding yields_def by simp
  then show ?thesis by (rule yields_Suc)
qed

lemma paren_atom:
  assumes "yields (\<lambda>n. parse_expression_at n 0) (map Ok ts) e (map Ok (TokCloseParen # ys))"
  shows "yields parse_expression_atom (map Ok (TokOpenParen # ts)) e (map Ok ys)"
proof -
  have "parse_expression_atom (Suc n) (map Ok (TokOpenParen # ts)) =
      sbind (parse_expression_at n 0) (\<lambda>e. sbind (expect TokCloseParen) (\<lambda>_. sreturn e)) (map Ok ts)" for n
    by (simp add: sbind_Ok [where m = next_token] next_token_def)
  moreover have "yields (\<lambda>n. sbind (parse_expression_at n 0) (\<lambda>e. sbind (expect TokCloseParen) (\<lambda>_. sreturn e)))
      (map Ok ts) e (map Ok ys)"
    by (rule yields_bind [OF assms]) (simp add: yields_def sreturn_def sbind_def expect_def next_token_def)
  ultimately have "yields (\<lambda>n. parse_expression_atom (Suc n)) (map Ok (TokOpenParen # ts)) e (map Ok ys)"
    unfolding yields_def by simp
  then show ?thesis by (rule yields_Suc)
qed

lemma arguments_end:
  "yields (\<lambda>n. parse_arguments n args) (map Ok (TokCloseParen # ys)) args (map Ok ys)"
  by (rule yields_Suc) (simp add: yields_def sbind_def next_is_eq sreturn_def)

lemma arguments_step:
  assumes "yields (\<lambda>n. parse_expression_at n 0) (map Ok ts) e (map Ok us)" "(hd ts :: token) \<noteq> TokCloseParen" "ts \<noteq> []"
    "yields (\<lambda>n. parse_arguments n (args @ [e])) (map Ok us) args' (map Ok ys)"
  shows "yields (\<lambda>n. parse_arguments n args) (map Ok ((if args = [] then [] else [TokComma]) @ ts)) args' (map Ok ys)"
proof (rule yields_Suc, simp only: parse_arguments.simps, rule yields_first)
  let ?ts = "(if args = [] then [] else [TokComma]) @ ts"
  show "next_is TokCloseParen (map Ok ?ts) = (Ok False, map Ok ?ts)"
    using assms(2,3) by (cases ts) (auto simp: next_is_eq)
  have comma: "(if args = [] then sreturn () else expect TokComma) (map Ok ?ts) = (Ok (), map Ok ts)"
    by (simp add: sreturn_def expect_def sbind_def next_token_def)
  show "yields (\<lambda>n. if False then sreturn args
      else sbind (if args = [] then sreturn () else expect TokComma)
        (\<lambda>_. sbind (parse_expression_at n 0) (\<lambda>arg. parse_arguments n (args @ [arg])))) (map Ok ?ts) args' (map Ok ys)"
    by (simp only: if_False, rule yields_first, rule comma, rule yields_bind, rule assms(1), rule assms(4))
qed

section \<open>The round trip\<close>

lemma print_head: "\<exists>t ts. print_expr e = t # ts \<and> t \<noteq> TokCloseParen"
proof (induction e rule: print_expr.induct)
  case (4 l)
  then show ?case by (cases l) (auto simp: literal_token_def)
next
  case (6 op)
  show ?case
  proof (cases "view_of op")
    case (InfixView i l r)
    with 6(1) [OF InfixView] show ?thesis by (auto simp: parenthesised_def)
  next
    case (PrefixView p e)
    then show ?thesis by (cases p) auto
  next
    case (PostfixView e ts)
    with 6(4) [OF PostfixView] show ?thesis by (auto simp: parenthesised_def)
  qed
qed auto

definition parses_back :: "ast_expr \<Rightarrow> bool" where
  "parses_back e = (\<forall>k m ys d zs. m \<le> k \<longrightarrow> k \<le> 12 \<longrightarrow> follows (edge_at k e) ys \<longrightarrow> after k m e ys d zs \<longrightarrow>
     yields (\<lambda>n. parse_expression_at n m) (map Ok (print_at k e @ ys)) d (map Ok zs))"

lemma parses_backD:
  "parses_back e \<Longrightarrow> m \<le> k \<Longrightarrow> k \<le> 12 \<Longrightarrow> follows (edge_at k e) ys \<Longrightarrow> after k m e ys d zs \<Longrightarrow>
   yields (\<lambda>n. parse_expression_at n m) (map Ok (print_at k e @ ys)) d (map Ok zs)"
  by (simp only: parses_back_def)

text \<open>An operand at the end of its expression.\<close>

lemma parses_back_end:
  assumes "parses_back e" "k \<le> 12" "follows k ys"
  shows "yields (\<lambda>n. parse_expression_at n k) (map Ok (print_at k e @ ys)) e (map Ok ys)"
  using assms by (intro parses_backD follows_mono [OF assms(3)] edge_at_ge after_end') auto

lemma arguments_yield:
  assumes "\<And>e. e \<in> set es \<Longrightarrow> parses_back e"
  shows "args \<noteq> [] \<Longrightarrow> yields (\<lambda>n. parse_arguments n args)
    (map Ok (concat (map (\<lambda>e. TokComma # print_expr e) es) @ TokCloseParen # ys)) (args @ es) (map Ok ys)"
  using assms
proof (induction es arbitrary: args)
  case Nil
  then show ?case using arguments_end [of args ys] by simp
next
  case (Cons e es)
  let ?rest = "concat (map (\<lambda>e. TokComma # print_expr e) es) @ TokCloseParen # ys"
  have "follows 0 ?rest" by (cases es) auto
  then have "yields (\<lambda>n. parse_expression_at n 0) (map Ok (print_at 0 e @ ?rest)) e (map Ok ?rest)"
    using Cons.prems(2) [of e] by (intro parses_back_end) auto
  moreover have "yields (\<lambda>n. parse_arguments n (args @ [e])) (map Ok ?rest) ((args @ [e]) @ es) (map Ok ys)"
    using Cons.prems by (intro Cons.IH) auto
  moreover obtain t ts where "print_expr e = t # ts" "t \<noteq> TokCloseParen" using print_head by blast
  ultimately show ?case
    using Cons.prems(1) arguments_step [of "print_at 0 e @ ?rest" e ?rest args "args @ e # es" ys]
    by (simp add: print_at_def parenthesised_def)
qed

lemma separated_Cons: "separated (x # xs) = x @ concat (map (\<lambda>y. TokComma # y) xs)"
proof (induction xs arbitrary: x)
  case (Cons y ys)
  show ?case using Cons [of y] by simp
qed simp

lemma function_yields:
  assumes "\<And>e. e \<in> set es \<Longrightarrow> parses_back e"
  shows "yields parse_expression_atom (map Ok (print_expr (AstFunction f es) @ ys)) (AstFunction f es) (map Ok ys)"
proof (cases es)
  case Nil
  then show ?thesis using function_atom [OF arguments_end [of "[]" ys], of f] by simp
next
  case (Cons e es')
  let ?rest = "concat (map (\<lambda>e. TokComma # print_expr e) es') @ TokCloseParen # ys"
  have "follows 0 ?rest" by (cases es') auto
  then have "yields (\<lambda>n. parse_expression_at n 0) (map Ok (print_at 0 e @ ?rest)) e (map Ok ?rest)"
    using assms [of e] Cons by (intro parses_back_end) auto
  moreover have "yields (\<lambda>n. parse_arguments n [e]) (map Ok ?rest) ([e] @ es') (map Ok ys)"
    using assms Cons by (intro arguments_yield) auto
  moreover obtain t ts where "print_expr e = t # ts" "t \<noteq> TokCloseParen" using print_head by blast
  ultimately have "yields (\<lambda>n. parse_arguments n []) (map Ok (print_expr e @ ?rest)) es (map Ok ys)"
    using arguments_step [of "print_at 0 e @ ?rest" e ?rest "[]" es ys] Cons
    by (simp add: print_at_def parenthesised_def)
  then show ?thesis
    using function_atom [of "print_expr e @ ?rest" es ys f] Cons by (simp add: separated_Cons comp_def)
qed

text \<open>An atom, and an expression in parentheses.\<close>

lemma atom_back:
  assumes "yields parse_expression_atom (map Ok (t # ts)) e (map Ok ys)" "prefix_token t = None" "after_atom m e ys d zs"
  shows "yields (\<lambda>n. parse_expression_at n m) (map Ok (t # ts)) d (map Ok zs)"
  using assms(2) by (intro at_atom [OF _ assms(1,3)]) (simp add: parse_prefix_operator_at_def next_if_map_def at_least_def)

lemma view_infix: "view_of op = InfixView i l r \<Longrightarrow> infix_expression i l r = AstOperator op"
  by (cases op) auto

lemma view_prefix: "view_of op = PrefixView p e \<Longrightarrow> prefix_expression p e = AstOperator op"
  by (cases op) auto

lemma view_operands:
  "view_of op = InfixView i l r \<Longrightarrow> operands op = [l, r]"
  "view_of op = PrefixView p e \<Longrightarrow> operands op = [e]"
  "view_of op = PostfixView e ts \<Longrightarrow> operands op = [e]"
  by (cases op; simp)+

text \<open>The printed text without parentheses around the whole, from that of the operands.\<close>

lemma infix_back:
  assumes "view_of op = InfixView i l r" "parses_back l" "parses_back r"
    "m \<le> infix_precedence i" "follows (right_level i) ys" "after_infix m (AstOperator op) ys d zs"
  shows "yields (\<lambda>n. parse_expression_at n m) (map Ok (print_expr (AstOperator op) @ ys)) d (map Ok zs)"
proof -
  let ?right = "print_at (right_level i) r @ ys"
  have right: "yields (\<lambda>n. parse_expression_at n (right_level i)) (map Ok ?right) r (map Ok ys)"
    using assms(3,5) level_bounds(3) [of i] by (intro parses_back_end) auto
  have continued: "after_infix m l (infix_symbol i # ?right) d zs"
    using assms(6) infix_step [OF assms(4) right] view_infix [OF assms(1)]
    unfolding after_infix_def by metis
  have "yields (\<lambda>n. parse_postfixes n m l) (map Ok (infix_symbol i # ?right)) l (map Ok (infix_symbol i # ?right))"
    by (rule yields_Suc, simp only: parse_postfixes.simps, rule yields_first, rule no_postfix)
      (auto simp: yields_def sreturn_def)
  with continued have "after_atom m l (infix_symbol i # ?right) d zs"
    unfolding after_atom_def by blast
  with continued have "after (left_level i) m l (infix_symbol i # ?right) d zs"
    by (simp only: after_def split: if_split) blast
  moreover have "follows (edge_at (left_level i) l) (infix_symbol i # ?right)"
    by (rule follows_infix [OF left_edge])
  ultimately have "yields (\<lambda>n. parse_expression_at n m) (map Ok (print_at (left_level i) l @ infix_symbol i # ?right)) d (map Ok zs)"
    using assms(2,4) level_bounds(1) [of i] precedence_bounds(2) [of i]
    by (intro parses_backD) (auto simp: left_level_def)
  then show ?thesis by (simp add: assms(1) print_at_def)
qed

lemma prefix_back:
  assumes "view_of op = PrefixView p e" "parses_back e" "m \<le> prefix_precedence p" "follows (prefix_precedence p) ys"
    "after_atom m (AstOperator op) ys d zs"
  shows "yields (\<lambda>n. parse_expression_at n m) (map Ok (print_expr (AstOperator op) @ ys)) d (map Ok zs)"
proof -
  have "yields (\<lambda>n. parse_expression_at n (prefix_precedence p)) (map Ok (print_at (prefix_precedence p) e @ ys)) e (map Ok ys)"
    using assms(2,4) by (intro parses_back_end) (cases p; simp)+
  then have "yields (\<lambda>n. parse_expression_at n m)
      (map Ok (prefix_symbol p # print_at (prefix_precedence p) e @ ys)) d (map Ok zs)"
    using assms(3,5) view_prefix [OF assms(1)] by (intro at_prefix) auto
  then show ?thesis by (simp add: assms(1) print_at_def)
qed

lemma postfix_back:
  assumes "view_of op = PostfixView e ts" "parses_back e" "node_printable (AstOperator op)"
    "m \<le> level (AstOperator op)" "after_atom m (AstOperator op) ys d zs"
  shows "yields (\<lambda>n. parse_expression_at n m) (map Ok (print_expr (AstOperator op) @ ys)) d (map Ok zs)"
proof -
  obtain o' where o': "\<And>ys. parse_postfix_operator_at m (map Ok (ts @ ys)) = (Ok (Some o'), map Ok ys)"
    "postfix_expression o' e = AstOperator op"
    using view_postfix [OF assms(1,3,4)] by blast
  have nine: "m \<le> 9" using assms(1,4) by (cases op) auto
  have "after_atom m e (ts @ ys) d zs"
    using assms(5) o' postfix_step unfolding after_atom_def by metis
  moreover have "\<not> (is_infix e \<and> 9 \<le> level e)"
    by (cases e) (auto split: operator_view.split simp: not_le intro: le_less_trans [OF precedence_bounds(2)])
  ultimately have "after 9 m e (ts @ ys) d zs" by (auto simp: after_def)
  moreover have "follows (edge_at 9 e) (ts @ ys)"
  proof -
    have edge: "9 < edge_at 9 e"
    proof (cases "level e < 9 \<or> (\<forall>op. e \<noteq> AstOperator op)")
      case True
      then show ?thesis by (cases e) (auto simp: edge_at_def)
    next
      case False
      then obtain op where e: "e = AstOperator op" "9 \<le> level e" by auto
      have prefix: "9 \<le> prefix_precedence p \<Longrightarrow> 9 < prefix_precedence p" for p by (cases p) auto
      have no_infix: "\<not> 9 \<le> infix_precedence i" for i by (cases i) auto
      from e show ?thesis by (cases "view_of op") (auto simp: edge_at_def prefix no_infix)
    qed
    obtain t us where "ts = t # us" "t = TokExclamation \<or> t = TokKeyword KwIs"
      using view_postfix_head [OF assms(1)] by blast
    with edge show ?thesis by (auto simp: follows_def at_least_def infix_token_def)
  qed
  ultimately have "yields (\<lambda>n. parse_expression_at n m) (map Ok (print_at 9 e @ ts @ ys)) d (map Ok zs)"
    using assms(2) nine by (intro parses_backD) auto
  then show ?thesis by (simp add: assms(1) print_at_def)
qed

lemma atom_only:
  assumes "yields parse_expression_atom (map Ok (print_expr e @ ys)) e (map Ok ys)"
    "prefix_token (hd (print_expr e)) = None" "\<not> is_infix e" "after 0 m e ys d zs"
  shows "yields (\<lambda>n. parse_expression_at n m) (map Ok (print_expr e @ ys)) d (map Ok zs)"
proof -
  obtain t ts where p: "print_expr e = t # ts" using print_head by blast
  have "after_atom m e ys d zs" using assms(3,4) by (simp add: after_def)
  with assms(1,2) show ?thesis unfolding p append_Cons by (intro atom_back) simp_all
qed

lemma yields_each: "(\<And>n. f n ts = (Ok x, r)) \<Longrightarrow> yields f ts x r"
  by (auto simp: yields_def)

lemma bare_back:
  assumes "printable e" "\<And>e'. size e' < size e \<Longrightarrow> printable e' \<Longrightarrow> parses_back e'"
    "m \<le> level e" "follows (edge e) ys" "after 0 m e ys d zs"
  shows "yields (\<lambda>n. parse_expression_at n m) (map Ok (print_expr e @ ys)) d (map Ok zs)"
proof (cases e)
  case AstAll
  have "yields parse_expression_atom (map Ok (print_expr e @ ys)) e (map Ok ys)"
    unfolding AstAll by (rule yields_Suc) (simp add: yields_def sbind_def next_token_def sreturn_def)
  then show ?thesis by (rule atom_only [OF _ _ _ assms(5)]) (simp_all add: AstAll prefix_token_def)
next
  case (AstColumn t c)
  have "yields parse_expression_atom (map Ok (print_expr e @ ys)) e (map Ok ys)"
  proof (rule yields_Suc, rule yields_each)
    show "parse_expression_atom (Suc n) (map Ok (print_expr e @ ys)) = (Ok e, map Ok ys)" for n
    proof (cases t)
      case None
      then show ?thesis
        using column_atom [of ys n c] assms(4) by (simp only: AstColumn print_expr.simps append_Cons append_Nil edge.simps)
    next
      case (Some t')
      then show ?thesis
        using qualified_atom [of n t' c ys] by (simp only: AstColumn print_expr.simps append_Cons append_Nil)
    qed
  qed
  then show ?thesis by (rule atom_only [OF _ _ _ assms(5)]) (cases t; simp add: AstColumn prefix_token_def)+
next
  case (AstLiteral l)
  have "yields parse_expression_atom (map Ok (print_expr e @ ys)) e (map Ok ys)"
  proof (rule yields_Suc, rule yields_each)
    show "parse_expression_atom (Suc n) (map Ok (print_expr e @ ys)) = (Ok e, map Ok ys)" for n
      using literal_atom [of l n ys] assms(1) AstLiteral
      by (simp only: print_expr.simps append_Cons append_Nil printable_simps)
  qed
  then show ?thesis by (rule atom_only [OF _ _ _ assms(5)]) (simp_all add: AstLiteral prefix_token_literal)
next
  case (AstFunction f es)
  have "yields parse_expression_atom (map Ok (print_expr e @ ys)) e (map Ok ys)"
    unfolding AstFunction
  proof (rule function_yields)
    fix e' assume e': "e' \<in> set es"
    then have "size e' < size e" unfolding AstFunction by (simp add: size_list_estimation' less_Suc_eq_le)
    moreover have "printable e'" using assms(1) e' unfolding AstFunction by (simp add: list_all_iff)
    ultimately show "parses_back e'" by (rule assms(2))
  qed
  then show ?thesis by (rule atom_only [OF _ _ _ assms(5)]) (simp_all add: AstFunction prefix_token_def)
next
  case (AstOperator op)
  have operand: "parses_back e'" if "e' \<in> set (operands op)" for e'
    using that assms(1) operands_size [OF that] AstOperator
    by (intro assms(2)) (auto simp: printable_operator list_all_iff)
  show ?thesis
  proof (cases "view_of op")
    case (InfixView i l r)
    then show ?thesis
      using assms(3,4,5) operand AstOperator view_operands(1) [OF InfixView]
      by (simp only: AstOperator, intro infix_back) (auto simp: after_def)
  next
    case (PrefixView p a)
    then show ?thesis
      using assms(3,4,5) operand AstOperator view_operands(2) [OF PrefixView]
      by (simp only: AstOperator, intro prefix_back) (auto simp: after_def)
  next
    case (PostfixView a ts)
    then show ?thesis
      using assms(1,3,5) operand AstOperator view_operands(3) [OF PostfixView]
      by (simp only: AstOperator, intro postfix_back) (auto simp: after_def printable_operator)
  qed
qed

lemma printable_parses_back: "printable e \<Longrightarrow> parses_back e"
proof (induction e rule: measure_induct_rule [of size])
  case (less e)
  have bare: "yields (\<lambda>n. parse_expression_at n m) (map Ok (print_expr e @ ys)) d (map Ok zs)"
    if "m \<le> level e" "follows (edge e) ys" "after 0 m e ys d zs" for m ys d zs
    using bare_back [OF less.prems less.IH that] by blast
  show ?case
    unfolding parses_back_def
  proof (intro allI impI)
    fix k m ys d zs
    assume m: "m \<le> k" "k \<le> 12" and ys: "follows (edge_at k e) ys" and d: "after k m e ys d zs"
    show "yields (\<lambda>n. parse_expression_at n m) (map Ok (print_at k e @ ys)) d (map Ok zs)"
    proof (cases "level e < k")
      case True
      have "yields (\<lambda>n. parse_expression_at n 0) (map Ok (print_expr e @ TokCloseParen # ys)) e (map Ok (TokCloseParen # ys))"
        by (rule bare) (auto intro: after_end')
      then have "yields parse_expression_atom (map Ok (TokOpenParen # print_expr e @ TokCloseParen # ys)) e (map Ok ys)"
        by (rule paren_atom)
      then have "yields (\<lambda>n. parse_expression_at n m) (map Ok (TokOpenParen # print_expr e @ TokCloseParen # ys)) d (map Ok zs)"
        using d True by (intro atom_back) (auto simp: prefix_token_def after_def)
      with True show ?thesis by (simp add: print_at_def parenthesised_def)
    next
      case False
      then show ?thesis
        using bare [of m ys d zs] m ys d
        by (auto simp: print_at_def parenthesised_def edge_at_def after_def)
    qed
  qed
qed

lemma parse_printed:
  assumes "printable e"
  shows "parse_expression (map Ok (print_expr e)) = (Ok e, [])"
proof (rule parse_expression_yields)
  show "yields (\<lambda>n. parse_expression_at n 0) (map Ok (print_expr e)) e []"
    using parses_back_end [OF printable_parses_back [OF assms], of 0 "[]"] by (simp add: print_at_def parenthesised_def)
  show "clean (map Ok (print_expr e))" by (simp add: clean_def list_all_iff)
qed

lemma parse_expr_printed: "printable e \<Longrightarrow> parse_expr (show_expr e) = Ok e"
proof -
  assume e: "printable e"
  have "sbind parse_expression (\<lambda>e. sbind end_of_input (\<lambda>_. sreturn e)) (map Ok (print_expr e)) =
      sbind end_of_input (\<lambda>_. sreturn e) []"
    by (rule sbind_Ok) (rule parse_printed [OF e])
  then show ?thesis
    by (simp add: parse_expr_def show_expr_def tokens_printed [OF print_well_formed [OF e]] end_of_input_def sbind_def sreturn_def)
qed

text \<open>
  Property C37. The parser inverts the printer: an expression that the grammar can express, printed as
  text with only the parentheses that the precedences and associativities of its operators require, is
  parsed back to itself. This covers the lexer (quoting, keywords, numbers, exact floats) and the whole
  expression grammar (prefix, infix and postfix operators, function calls, qualified columns, literals).
\<close>

theorem parse_show_expr: "printable e \<Longrightarrow> parse_expr (show_expr e) = Ok e"
  by (rule parse_expr_printed)

theorem parse_show_expr_witness:
  "parse_expr (show_expr (AstOperator (OpMultiply
     (AstOperator (OpAdd (AstColumn (Some ''t'') ''select'') (AstLiteral (LitInteger 7))))
     (AstFunction ''sqrt'' [AstLiteral (LitFloat 0x3FE8000000000000)])))) =
   Ok (AstOperator (OpMultiply
     (AstOperator (OpAdd (AstColumn (Some ''t'') ''select'') (AstLiteral (LitInteger 7))))
     (AstFunction ''sqrt'' [AstLiteral (LitFloat 0x3FE8000000000000)])))"
  by (rule parse_show_expr) (simp add: printable_operator)

section \<open>Precedence\<close>

lemma infix_level: "level (infix_expression i l r) = infix_precedence i"
  by (cases i) simp_all

lemma infix_print:
  "print_expr (infix_expression i l r) = print_at (left_level i) l @ infix_symbol i # print_at (right_level i) r"
  by (cases i) (simp_all add: print_at_def)

lemma infix_printable: "printable (infix_expression i l r) \<longleftrightarrow> printable l \<and> printable r"
  by (cases i) (simp_all add: printable_operator)

lemma column_print [simp]: "k \<le> 11 \<Longrightarrow> print_at k (AstColumn None c) = [TokIdent c]"
  by (simp add: print_at_def parenthesised_def)

lemma levels [simp]: "left_level i \<le> 11" "right_level i \<le> 11"
  by (cases i; simp add: left_level_def right_level_def infix_associativity_def)+

text \<open>
  Precedence climbing groups two infix operators as the operator table says: the one with
  the higher precedence binds its operands, and at equal precedence the first one does, except for the
  right-associative exponentiation.
\<close>

theorem precedence_climbing:
  "fst (parse_expression (map Ok [TokIdent a, infix_symbol i, TokIdent b, infix_symbol j, TokIdent c])) =
     Ok (if infix_precedence i < infix_precedence j \<or> i = InExponentiate \<and> j = InExponentiate
         then infix_expression i (AstColumn None a) (infix_expression j (AstColumn None b) (AstColumn None c))
         else infix_expression j (infix_expression i (AstColumn None a) (AstColumn None b)) (AstColumn None c))"
proof (cases "infix_precedence i < infix_precedence j \<or> i = InExponentiate \<and> j = InExponentiate")
  case True
  then have "\<not> infix_precedence j < right_level i"
    by (auto simp: right_level_def infix_associativity_def split: if_splits)
  then have "print_expr (infix_expression i (AstColumn None a) (infix_expression j (AstColumn None b) (AstColumn None c))) =
      [TokIdent a, infix_symbol i, TokIdent b, infix_symbol j, TokIdent c]"
    by (simp add: infix_print print_at_def [of "right_level i"] infix_level parenthesised_def)
  with True show ?thesis
    using parse_printed [of "infix_expression i (AstColumn None a) (infix_expression j (AstColumn None b) (AstColumn None c))"]
    by (simp add: infix_printable)
next
  case False
  then have "\<not> infix_precedence i < left_level j"
    by (cases i; cases j) (simp_all add: left_level_def infix_associativity_def)
  then have "print_expr (infix_expression j (infix_expression i (AstColumn None a) (AstColumn None b)) (AstColumn None c)) =
      [TokIdent a, infix_symbol i, TokIdent b, infix_symbol j, TokIdent c]"
    by (simp add: infix_print print_at_def [of "left_level j"] infix_level parenthesised_def)
  with False show ?thesis
    using parse_printed [of "infix_expression j (infix_expression i (AstColumn None a) (AstColumn None b)) (AstColumn None c)"]
    by (simp only: infix_printable printable_simps simp_thms if_False) simp
qed

text \<open>
  An expression ends at the postfix operators that follow its infix operators: \<^verbatim>\<open>a + b IS NULL\<close> is complete
  and \<^verbatim>\<open>AND c\<close> after it is left over, although \<^verbatim>\<open>IS\<close> binds tighter than \<^verbatim>\<open>AND\<close>.
\<close>

lemma postfix_ends_expression:
  assumes "4 \<le> infix_precedence i"
  shows "parse_expression (map Ok [TokIdent a, infix_symbol i, TokIdent b, TokKeyword KwIs, TokKeyword KwNull, infix_symbol j, TokIdent c]) =
     (Ok (AstOperator (OpIs (infix_expression i (AstColumn None a) (AstColumn None b)) LitNull)),
      map Ok [infix_symbol j, TokIdent c])"
proof -
  let ?a = "AstColumn None a" and ?b = "AstColumn None b" and ?rest = "[infix_symbol j, TokIdent c]"
  let ?sum = "infix_expression i ?a ?b" and ?is = "[TokKeyword KwIs, TokKeyword KwNull] @ [infix_symbol j, TokIdent c]"
  let ?result = "AstOperator (OpIs ?sum LitNull)"
  have "right_level i > 4" using assms by (cases i) (simp_all add: right_level_def infix_associativity_def)
  then have "follows (right_level i) ?is" by (simp add: follows_def at_least_def infix_token_def)
  then have right: "yields (\<lambda>n. parse_expression_at n (right_level i)) (map Ok (TokIdent b # ?is)) ?b (map Ok ?is)"
    using parses_back_end [OF printable_parses_back [of ?b], of "right_level i" ?is] level_bounds(3) [of i] by simp
  have infixes: "yields (\<lambda>n. parse_infixes n 0 ?sum) (map Ok ?is) ?sum (map Ok ?is)"
    by (rule yields_Suc, simp only: parse_infixes.simps, rule yields_first)
      (auto simp: parse_infix_operator_at_def next_if_map_def infix_token_def at_least_def yields_def sreturn_def)
  have le0: "0 \<le> infix_precedence i" by simp
  from infixes have infixes: "yields (\<lambda>n. parse_infixes n 0 ?a) (map Ok (infix_symbol i # TokIdent b # ?is)) ?sum (map Ok ?is)"
    by (rule infix_step [OF le0 right])
  have stop: "yields (\<lambda>n. parse_postfixes n 0 e) (map Ok (infix_symbol k # ts)) e (map Ok (infix_symbol k # ts))" for e k ts
    by (rule yields_Suc, simp only: parse_postfixes.simps, rule yields_first, rule no_postfix)
      (auto simp: yields_def sreturn_def)
  obtain o' where o': "\<And>ys. parse_postfix_operator_at 0 (map Ok ([TokKeyword KwIs, TokKeyword KwNull] @ ys)) = (Ok (Some o'), map Ok ys)"
    "postfix_expression o' ?sum = ?result"
    using view_postfix [of "OpIs ?sum LitNull" ?sum "[TokKeyword KwIs, TokKeyword KwNull]" 0]
    by (auto simp: literal_token_def)
  have "yields (\<lambda>n. parse_postfixes n 0 ?sum) (map Ok ?is) ?result (map Ok ?rest)"
    by (rule postfix_step [OF o'(1)]) (simp only: o'(2), rule stop)
  with infixes have "after_infix 0 ?a (infix_symbol i # TokIdent b # ?is) ?result ?rest"
    unfolding after_infix_def by blast
  with stop have "after_atom 0 ?a (infix_symbol i # TokIdent b # ?is) ?result ?rest"
    unfolding after_atom_def by blast
  moreover have "yields parse_expression_atom (map Ok (TokIdent a # infix_symbol i # TokIdent b # ?is)) ?a
      (map Ok (infix_symbol i # TokIdent b # ?is))"
    by (rule yields_Suc, rule yields_each) (rule column_atom, simp add: follows_def at_least_def, cases i, simp_all)
  ultimately have "yields (\<lambda>n. parse_expression_at n 0) (map Ok (TokIdent a # infix_symbol i # TokIdent b # ?is)) ?result (map Ok ?rest)"
    by (intro atom_back) (simp_all add: prefix_token_def)
  moreover have "clean (map Ok (TokIdent a # infix_symbol i # TokIdent b # ?is))" by (simp add: clean_def)
  ultimately show ?thesis
    using parse_expression_yields [of "map Ok (TokIdent a # infix_symbol i # TokIdent b # ?is)" ?result "map Ok ?rest"] by simp
qed

end
