(* ===== verification/SqlParserTypes.thy ===== *)
theory SqlParserTypes
  imports SqlRoundTrip
begin

text \<open>
  What the parser returns: the shape of the expressions it builds, wherever they occur in a statement. The
  predicate on operations is closed under sequencing, as in the theory of their termination.
\<close>

section \<open>Results\<close>

definition returns :: "('a \<Rightarrow> bool) \<Rightarrow> 'a parser \<Rightarrow> bool" where
  "returns Q m = (\<forall>ts x r. m ts = (Ok x, r) \<longrightarrow> Q x)"

named_theorems returns_intros \<open>what operations return\<close>

lemma returnsD: "returns Q m \<Longrightarrow> m ts = (Ok x, r) \<Longrightarrow> Q x"
  by (auto simp: returns_def)

lemma returns_any: "returns (\<lambda>_. True) m"
  by (simp add: returns_def)

lemma returns_bind: "returns P m \<Longrightarrow> (\<And>x. P x \<Longrightarrow> returns Q (f x)) \<Longrightarrow> returns Q (sbind m f)"
  unfolding returns_def sbind_eq_Ok by blast

lemma returns_then: "(\<And>x. returns Q (f x)) \<Longrightarrow> returns Q (sbind m f)"
  by (rule returns_bind [OF returns_any])

lemma returns_return [returns_intros]: "Q x \<Longrightarrow> returns Q (sreturn x)"
  by (auto simp: returns_def sreturn_def)

lemma returns_lift: "(\<And>x. r = Ok x \<Longrightarrow> Q x) \<Longrightarrow> returns Q (slift r)"
  by (auto simp: returns_def slift_def)

lemma returns_if [returns_intros]: "(b \<Longrightarrow> returns Q m) \<Longrightarrow> (\<not> b \<Longrightarrow> returns Q n) \<Longrightarrow> returns Q (if b then m else n)"
  by simp

lemma returns_fail [returns_intros]: "returns Q (slift (errinput msg))" "returns Q (slift (Panic p))"
  by (auto simp: returns_def slift_def)

lemma returns_unexpected [returns_intros]: "returns Q unexpected_token"
  unfolding unexpected_token_def by (rule returns_fail)

lemma returns_ts: "(\<And>ts. returns Q (f ts)) \<Longrightarrow> returns Q (\<lambda>ts. f ts ts)"
  by (auto simp: returns_def)

lemma sep_loop_returns: "returns Q item \<Longrightarrow> returns (list_all Q) (sep_loop n sep item)"
proof (induction n)
  case (Suc n)
  show ?case
    unfolding sep_loop.simps
    by (rule returns_bind [OF Suc.prems], rule returns_then, rule returns_if,
        rule returns_bind [OF Suc.IH [OF Suc.prems]]) (auto intro: returns_return)
qed (simp only: sep_loop.simps returns_fail)

lemma sep_list_returns: "returns Q item \<Longrightarrow> returns (list_all Q) (sep_list sep item)"
  using sep_loop_returns unfolding returns_def sep_list_def by blast

section \<open>Literals\<close>

lemma parse_digits_less: "parse_digits limit acc s = Ok n \<Longrightarrow> acc < limit \<Longrightarrow> n < limit"
  by (induction limit acc s rule: parse_digits.induct) (auto split: if_splits)

lemma parse_i64_printable: "parse_i64 s = Ok i \<Longrightarrow> unat i < 2 ^ 63"
  by (auto simp: parse_i64_def rbind_eq_Ok parse_uint_def unat_of_nat dest!: parse_digits_less split: if_splits)

lemma f64_round_bound: "unat (f64_round False n d) \<le> 0x7FF0000000000000"
  by (simp add: f64_round_def f64_signed_def Let_def unat_of_nat)

lemma parse_f64_printable: "parse_f64 s = Ok f \<Longrightarrow> unat f \<le> 0x7FF0000000000000"
proof -
  have "unat (f64_decimal m k) \<le> 0x7FF0000000000000" for m k
    unfolding f64_decimal_def by (cases "0 \<le> k") (simp_all only: if_True if_False f64_round_bound)
  moreover assume "parse_f64 s = Ok f"
  then have "\<exists>m k. f = f64_decimal m k"
    by (auto simp: parse_f64_def Let_def split: if_splits prod.splits list.splits)
  ultimately show ?thesis by auto
qed

lemma number_literal_printable: "number_literal s = Ok l \<Longrightarrow> literal_printable l"
  by (auto simp: number_literal_def rbind_eq_Ok dest!: parse_i64_printable parse_f64_printable split: if_splits)

lemma keyword_literal_printable: "keyword_literal k = Some l \<Longrightarrow> literal_printable l"
  by (auto simp: keyword_literal_def f64_infinity_def split: if_splits)

section \<open>Expressions\<close>

definition postfix_printable :: "postfix_operator \<Rightarrow> bool" where
  "postfix_printable op = (case op of
      PostFactorial \<Rightarrow> True
    | PostIs v \<Rightarrow> v = LitNull \<or> v = LitFloat f64_nan
    | PostIsNot v \<Rightarrow> v = LitNull \<or> v = LitFloat f64_nan)"

lemma parse_is_returns: "returns postfix_printable parse_is"
  unfolding parse_is_def
proof (rule returns_then, rule returns_then, rule returns_then)
  fix neg t
  show "returns postfix_printable (sbind (slift (if t = TokKeyword KwNaN then Ok (LitFloat f64_nan)
        else if t = TokKeyword KwNull then Ok LitNull else errinput ''unexpected token {token}''))
      (\<lambda>value. sreturn (if neg then PostIsNot value else PostIs value)))"
    by (rule returns_bind [OF returns_lift [where Q = "\<lambda>v. v = LitNull \<or> v = LitFloat f64_nan"]])
      (auto split: if_splits intro!: returns_return simp: postfix_printable_def)
qed

lemma returns_some: "returns (pred_option Q) (sbind m (\<lambda>x. sreturn (Some x)))" if "returns Q m"
  by (rule returns_bind [OF that]) (auto intro: returns_return)

lemma parse_postfix_returns: "returns (pred_option postfix_printable) (parse_postfix_operator_at p)"
proof -
  have "returns (pred_option postfix_printable)
      (next_if_map (\<lambda>t. at_least postfix_precedence p (if t = TokExclamation then Some PostFactorial else None)))"
    by (auto simp: returns_def next_if_map_def at_least_def postfix_printable_def split: list.splits result.splits if_splits)
  then show ?thesis
    unfolding parse_postfix_operator_at_def
    by (intro returns_then returns_if returns_some parse_is_returns) (auto intro: returns_return)
qed

lemma prefix_printable: "printable (prefix_expression p e) = printable e"
  by (cases p) (simp_all add: printable_operator)

lemma postfix_expression_printable: "postfix_printable op \<Longrightarrow> printable (postfix_expression op e) = printable e"
  by (cases op) (auto simp: printable_operator postfix_printable_def)

lemmas expression_printable = infix_printable prefix_printable postfix_expression_printable

lemma returns_option:
  "(x = None \<Longrightarrow> returns Q m) \<Longrightarrow> (\<And>y. x = Some y \<Longrightarrow> returns Q (f y)) \<Longrightarrow> returns Q (case x of None \<Rightarrow> m | Some y \<Rightarrow> f y)"
  by (cases x) simp_all

lemma returns_token:
  "(\<And>s. t = TokNumber s \<Longrightarrow> returns Q (number s)) \<Longrightarrow> (\<And>s. returns Q (str s)) \<Longrightarrow> (\<And>k. returns Q (kw k)) \<Longrightarrow>
   (\<And>s. returns Q (ident s)) \<Longrightarrow> returns Q paren \<Longrightarrow> returns Q all \<Longrightarrow> returns Q other \<Longrightarrow>
   returns Q (case t of TokAsterisk \<Rightarrow> all | TokNumber s \<Rightarrow> number s | TokString s \<Rightarrow> str s | TokKeyword k \<Rightarrow> kw k
      | TokIdent s \<Rightarrow> ident s | TokOpenParen \<Rightarrow> paren | _ \<Rightarrow> other)"
  by (cases t) simp_all

lemma parser_returns:
  "(\<forall>p. returns printable (parse_expression_at n p)) \<and>
   returns printable (parse_expression_atom n) \<and>
   (\<forall>args. list_all printable args \<longrightarrow> returns (list_all printable) (parse_arguments n args)) \<and>
   (\<forall>p lhs. printable lhs \<longrightarrow> returns printable (parse_postfixes n p lhs)) \<and>
   (\<forall>p lhs. printable lhs \<longrightarrow> returns printable (parse_infixes n p lhs))"
proof (induction n)
  case 0
  show ?case by (simp add: returns_def)
next
  case (Suc n)
  have ih: "returns printable (parse_expression_at n p)" "returns printable (parse_expression_atom n)"
    "list_all printable args \<Longrightarrow> returns (list_all printable) (parse_arguments n args)"
    "printable lhs \<Longrightarrow> returns printable (parse_postfixes n p lhs)"
    "printable lhs \<Longrightarrow> returns printable (parse_infixes n p lhs)" for p args lhs
    using Suc by blast+
  show ?case
  proof (intro conjI allI impI)
    show "returns printable (parse_expression_at (Suc n) p)" for p
      unfolding parse_expression_at.simps
      by (intro returns_then returns_bind [of printable] returns_option ih returns_return)
        (simp_all add: expression_printable)
    show "returns printable (parse_expression_atom (Suc n))"
      unfolding parse_expression_atom.simps
    proof (rule returns_then, rule returns_token)
      fix t s k
      show "returns printable (slift (rbind (number_literal s) (\<lambda>l. Ok (AstLiteral l))))"
        by (intro returns_lift) (auto simp: rbind_eq_Ok number_literal_printable)
      show "returns printable (slift (case keyword_literal k of Some l \<Rightarrow> Ok (AstLiteral l)
          | None \<Rightarrow> errinput ''expected expression atom, found {token}''))"
        by (intro returns_lift) (auto simp: keyword_literal_printable split: option.splits)
      show "returns printable (sbind (next_is TokOpenParen) (\<lambda>call.
           if call then sbind (parse_arguments n []) (\<lambda>args. sreturn (AstFunction s args))
           else sbind (next_is TokPeriod) (\<lambda>qualified.
             if qualified then sbind next_ident (\<lambda>column. sreturn (AstColumn (Some s) column))
             else sreturn (AstColumn None s))))"
      proof (rule returns_then, rule returns_if)
        show "returns printable (sbind (parse_arguments n []) (\<lambda>args. sreturn (AstFunction s args)))"
          by (rule returns_bind [OF ih(3)]) (auto intro: returns_return)
      qed (intro returns_then returns_if returns_return printable_simps)
      show "returns printable (sbind (parse_expression_at n 0) (\<lambda>e. sbind (expect TokCloseParen) (\<lambda>_. sreturn e)))"
        by (intro returns_bind [OF ih(1)] returns_then returns_return)
    qed (rule returns_fail | rule returns_return, simp)+
    show "returns (list_all printable) (parse_arguments (Suc n) args)" if "list_all printable args" for args
      unfolding parse_arguments.simps
      by (intro returns_then returns_if returns_bind [OF ih(1)] returns_return ih(3)) (use that in simp_all)
    show "returns printable (parse_postfixes (Suc n) p lhs)" if "printable lhs" for p lhs
      unfolding parse_postfixes.simps
      by (rule returns_bind [OF parse_postfix_returns], rule returns_option)
        (use that in \<open>auto intro!: returns_return ih simp: expression_printable\<close>)
    show "returns printable (parse_infixes (Suc n) p lhs)" if "printable lhs" for p lhs
      unfolding parse_infixes.simps
      by (intro returns_then returns_option returns_return returns_bind [OF ih(1)] ih(5))
        (use that in \<open>simp_all add: expression_printable\<close>)
  qed
qed

lemma parse_expression_returns [returns_intros]: "returns printable parse_expression"
proof -
  have "returns printable (parse_expression_at n 0)" for n using parser_returns by blast
  then show ?thesis unfolding returns_def parse_expression_def by blast
qed

section \<open>Statements\<close>

definition column_printable :: "ast_column \<Rightarrow> bool" where
  "column_printable c = pred_option printable (acol_default c)"

fun from_printable :: "from_item \<Rightarrow> bool" where
  "from_printable (FromTable _ _) = True"
| "from_printable (FromJoin l r type predicate) =
     (from_printable l \<and> from_printable r \<and> pred_option printable predicate \<and> (type = CrossJoin \<longleftrightarrow> predicate = None))"

definition select_printable :: "select_statement \<Rightarrow> bool" where
  "select_printable s =
     (list_all (\<lambda>(e, alias). printable e \<and> (e = AstAll \<longrightarrow> alias = None)) (sel_select s) \<and>
      list_all from_printable (sel_from s) \<and> pred_option printable (sel_where s) \<and>
      list_all printable (sel_group_by s) \<and> pred_option printable (sel_having s) \<and>
      list_all (\<lambda>(e, d). printable e) (sel_order_by s) \<and> pred_option printable (sel_offset s) \<and>
      pred_option printable (sel_limit s))"

definition updates_printable :: "(string, ast_expr option) btree \<Rightarrow> bool" where
  "updates_printable m = (bt_wf m \<and> list_all (\<lambda>(k, e). pred_option printable e) m)"

fun statement_printable :: "statement \<Rightarrow> bool" where
  "statement_printable (StExplain s) = ((\<forall>s'. s \<noteq> StExplain s') \<and> statement_printable s)"
| "statement_printable (StCreateTable name cs) = (cs \<noteq> [] \<and> list_all column_printable cs)"
| "statement_printable (StDelete table w) = pred_option printable w"
| "statement_printable (StInsert table names rows) =
     (rows \<noteq> [] \<and> list_all (\<lambda>row. row \<noteq> [] \<and> list_all printable row) rows)"
| "statement_printable (StUpdate table m w) = (m \<noteq> [] \<and> updates_printable m \<and> pred_option printable w)"
| "statement_printable (StSelect s) = (sel_select s \<noteq> [] \<and> select_printable s)"
| "statement_printable _ = True"

definition plain_printable :: "statement \<Rightarrow> bool" where
  [simp]: "plain_printable s = (statement_printable s \<and> (\<forall>s'. s \<noteq> StExplain s'))"

lemma optional_expression_returns: "returns (pred_option printable) (optional_expression k)"
  unfolding optional_expression_def
  by (intro returns_then returns_if returns_some parse_expression_returns) (simp add: returns_return)

lemmas clause_returns = optional_expression_returns [of KwWhere, folded parse_where_clause_def]
  optional_expression_returns [of KwHaving, folded parse_having_clause_def]
  optional_expression_returns [of KwLimit, folded parse_limit_clause_def]
  optional_expression_returns [of KwOffset, folded parse_offset_clause_def]

lemma parse_column_attribute_returns:
  "column_printable c \<Longrightarrow> returns column_printable (parse_column_attribute k c)"
  unfolding parse_column_attribute_def set_nullable_def
  by (intro returns_if returns_then returns_bind [OF parse_expression_returns] returns_fail returns_return)
    (simp_all add: column_printable_def)

lemma parse_column_attributes_returns:
  "column_printable c \<Longrightarrow> returns column_printable (parse_column_attributes n c)"
proof (induction n arbitrary: c)
  case (Suc n)
  show ?case
    unfolding parse_column_attributes.simps
    by (intro returns_then returns_option returns_return Suc.prems
        returns_bind [OF parse_column_attribute_returns [OF Suc.prems]] Suc.IH)
qed (simp add: returns_def)

lemma parse_create_table_column_returns: "returns column_printable parse_create_table_column"
  unfolding parse_create_table_column_def
  by (intro returns_then, rule returns_ts [where f = "\<lambda>ts. parse_column_attributes (Suc (length ts)) _"])
    (rule parse_column_attributes_returns, simp add: column_printable_def)

lemma sep_list_nonempty: "returns Q item \<Longrightarrow> returns (\<lambda>xs. xs \<noteq> [] \<and> list_all Q xs) (sep_list sep item)"
proof -
  assume item: "returns Q item"
  have "returns (\<lambda>xs. xs \<noteq> []) (sep_loop n sep item)" for n
    by (cases n) (auto simp: returns_def slift_def sreturn_def sbind_eq_Ok split: if_splits)
  with sep_loop_returns [OF item] show ?thesis unfolding returns_def sep_list_def by blast
qed

lemma paren_list_returns: "returns Q item \<Longrightarrow> returns (\<lambda>xs. xs \<noteq> [] \<and> list_all Q xs) (paren_list item)"
  unfolding paren_list_def by (intro returns_then returns_bind [OF sep_list_nonempty] returns_return)

lemma parse_create_table_returns: "returns plain_printable parse_create_table"
  unfolding parse_create_table_def
  by (intro returns_then returns_bind [OF sep_list_nonempty [OF parse_create_table_column_returns]] returns_return) simp

lemma parse_delete_returns: "returns plain_printable parse_delete"
  unfolding parse_delete_def by (intro returns_then returns_bind [OF clause_returns(1)] returns_return) simp

lemma parse_insert_returns: "returns plain_printable parse_insert"
  unfolding parse_insert_def
  by (intro returns_then returns_bind [OF sep_list_nonempty [OF paren_list_returns [OF parse_expression_returns]]]
      returns_return) simp

lemma bt_wf_bt_insert: "bt_wf m \<Longrightarrow> bt_wf (bt_insert k v m)"
  by (induction m) (auto simp: keys_bt_insert)

lemma set_updates_insert: "set (bt_insert k v m) \<subseteq> insert (k, v) (set m)"
  by (induction k v m rule: bt_insert.induct) auto

lemma bt_insert_nonempty: "bt_insert k v m \<noteq> []"
  by (cases m) auto

lemma parse_assignment_returns:
  assumes "updates_printable m"
  shows "returns (\<lambda>m. m \<noteq> [] \<and> updates_printable m) (parse_assignment m)"
  unfolding parse_assignment_def
proof (rule returns_then, rule returns_then, rule returns_then, rule returns_bind, rule returns_if)
  show "returns (pred_option printable) (sreturn None)" by (simp add: returns_return)
  show "returns (pred_option printable) (sbind parse_expression (\<lambda>e. sreturn (Some e)))"
    by (rule returns_some [OF parse_expression_returns])
  show "returns (\<lambda>m. m \<noteq> [] \<and> updates_printable m)
      (if map_of m column \<noteq> None then slift (errinput ''column {column} set multiple times'')
       else sreturn (bt_insert column e m))" if "pred_option printable e" for column e
    using that assms set_updates_insert [of column e m]
    by (intro returns_if returns_fail returns_return)
      (auto simp: updates_printable_def bt_wf_bt_insert bt_insert_nonempty list_all_iff)
qed

lemma parse_assignments_returns:
  "updates_printable m \<Longrightarrow> returns (\<lambda>m. m \<noteq> [] \<and> updates_printable m) (parse_assignments n m)"
proof (induction n arbitrary: m)
  case (Suc n)
  show ?case
    unfolding parse_assignments.simps
    by (rule returns_bind [OF parse_assignment_returns [OF Suc.prems]], rule returns_then, rule returns_if)
      (auto intro: Suc.IH returns_return)
qed (simp add: returns_def)

lemma parse_update_returns: "returns plain_printable parse_update"
proof -
  have assigned: "returns (\<lambda>m. m \<noteq> [] \<and> updates_printable m) (\<lambda>ts. parse_assignments (Suc (length ts)) [] ts)"
    by (rule returns_ts [where f = "\<lambda>ts. parse_assignments (Suc (length ts)) []"], rule parse_assignments_returns)
      (simp add: updates_printable_def)
  show ?thesis
    unfolding parse_update_def
    by (rule returns_then, rule returns_then, rule returns_then, rule returns_bind [OF assigned],
        rule returns_bind [OF clause_returns(1)], rule returns_return) simp
qed

lemma parse_select_item_returns:
  "returns (\<lambda>(e, alias). printable e \<and> (e = AstAll \<longrightarrow> alias = None)) parse_select_item"
  unfolding parse_select_item_def
  by (rule returns_bind [OF parse_expression_returns], rule returns_then, rule returns_if, rule returns_return, simp,
      rule returns_if, rule returns_fail, rule returns_then, rule returns_return) simp

lemma parse_from_table_returns: "returns from_printable parse_from_table"
  unfolding parse_from_table_def by (intro returns_then returns_if returns_return) simp_all

lemma parse_joins_returns: "from_printable item \<Longrightarrow> returns from_printable (parse_joins n item)"
proof (induction n arbitrary: item)
  case (Suc n)
  have predicate: "returns (\<lambda>p. pred_option printable p \<and> (type = CrossJoin \<longleftrightarrow> p = None))
      (if type = CrossJoin then sreturn None
       else sbind (expect (TokKeyword KwOn)) (\<lambda>_. sbind parse_expression (\<lambda>e. sreturn (Some e))))" for type
    by (intro returns_if returns_then returns_bind [OF parse_expression_returns] returns_return) simp_all
  show ?case
    unfolding parse_joins.simps
    by (rule returns_then, rule returns_option, rule returns_return, rule Suc.prems,
        rule returns_bind [OF parse_from_table_returns], rule returns_bind [OF predicate], rule Suc.IH)
      (use Suc.prems in simp)
qed (simp add: returns_def)

lemma parse_from_item_returns: "returns from_printable parse_from_item"
  unfolding parse_from_item_def
  by (rule returns_bind [OF parse_from_table_returns],
      rule returns_ts [where f = "\<lambda>ts. parse_joins (Suc (length ts)) _"], rule parse_joins_returns)

lemma parse_order_item_returns: "returns (\<lambda>(e, d). printable e) parse_order_item"
  unfolding parse_order_item_def
  by (rule returns_bind [OF parse_expression_returns], rule returns_then, rule returns_return) simp

lemma optional_list_returns:
  "returns Q item \<Longrightarrow> returns (list_all Q) (sbind (next_is t) (\<lambda>b. if b then sep_list sep item else sreturn []))"
  "returns Q item \<Longrightarrow> returns (list_all Q)
     (sbind (next_is t) (\<lambda>b. if b then sbind (expect t') (\<lambda>_. sep_list sep item) else sreturn []))"
  by (intro returns_then returns_if sep_list_returns returns_return; simp)+

lemma parse_select_clause_returns:
  assumes "ts = Ok (TokKeyword KwSelect) # us" "parse_select_clause ts = (Ok xs, r)"
  shows "xs \<noteq> [] \<and> list_all (\<lambda>(e, alias). printable e \<and> (e = AstAll \<longrightarrow> alias = None)) xs"
proof -
  have "next_is (TokKeyword KwSelect) ts = (Ok True, us)" by (simp add: assms(1) next_is_eq)
  with assms(2) have "sep_list TokComma parse_select_item us = (Ok xs, r)"
    by (simp add: parse_select_clause_def sbind_def)
  with sep_list_nonempty [OF parse_select_item_returns] show ?thesis by (rule returnsD)
qed

lemma parse_select_rest:
  assumes "xs \<noteq> []" "list_all (\<lambda>(e, alias). printable e \<and> (e = AstAll \<longrightarrow> alias = None)) xs"
  shows "returns plain_printable (
     sbind parse_from_clause (\<lambda>from_items.
     sbind parse_where_clause (\<lambda>where.
     sbind parse_group_by_clause (\<lambda>group_by.
     sbind parse_having_clause (\<lambda>having.
     sbind parse_order_by_clause (\<lambda>order_by.
     sbind parse_limit_clause (\<lambda>limit.
     sbind parse_offset_clause (\<lambda>offset.
     sreturn (StSelect
       \<lparr>sel_select = xs, sel_from = from_items, sel_where = where, sel_group_by = group_by,
        sel_having = having, sel_order_by = order_by, sel_offset = offset, sel_limit = limit\<rparr>)))))))))"
  by (rule returns_bind [OF optional_list_returns(1) [OF parse_from_item_returns, of "TokKeyword KwFrom" TokComma, folded parse_from_clause_def]],
      rule returns_bind [OF clause_returns(1)],
      rule returns_bind [OF optional_list_returns(2) [OF parse_expression_returns, of "TokKeyword KwGroup" "TokKeyword KwBy" TokComma, folded parse_group_by_clause_def]],
      rule returns_bind [OF clause_returns(2)],
      rule returns_bind [OF optional_list_returns(2) [OF parse_order_item_returns, of "TokKeyword KwOrder" "TokKeyword KwBy" TokComma, folded parse_order_by_clause_def]],
      rule returns_bind [OF clause_returns(3)], rule returns_bind [OF clause_returns(4)], rule returns_return)
    (use assms in \<open>simp add: select_printable_def\<close>)

lemma parse_select_returns:
  assumes "ts = Ok (TokKeyword KwSelect) # us" "parse_select ts = (Ok s, r)"
  shows "plain_printable s"
  using assms(2) parse_select_clause_returns [OF assms(1)] parse_select_rest
  unfolding parse_select_def sbind_eq_Ok [of parse_select_clause] by (blast dest: returnsD)

lemma simple_returns:
  "returns plain_printable parse_begin" "returns plain_printable parse_commit" "returns plain_printable parse_rollback"
  "returns plain_printable parse_drop_table"
  unfolding parse_begin_def parse_commit_def parse_rollback_def parse_drop_table_def
  by (intro returns_then returns_return; simp)+

text \<open>A statement that does not begin with \<^verbatim>\<open>EXPLAIN\<close> is a plain one.\<close>

lemma plain_statement:
  assumes "not_explain ts" "parse_statement_at (Suc n) ts = (Ok s, r)"
  shows "plain_printable s"
proof (cases ts)
  case (Cons tok us)
  show ?thesis
  proof (cases tok)
    case (Ok t)
    have "peek ts = (Ok (Some t), ts)" by (simp add: Cons Ok peek_def)
    moreover have "t \<noteq> TokKeyword KwExplain" using assms(1) by (simp add: not_explain_def Cons Ok)
    ultimately have "(if t = TokKeyword KwBegin then parse_begin
       else if t = TokKeyword KwCommit then parse_commit
       else if t = TokKeyword KwRollback then parse_rollback
       else if t = TokKeyword KwCreate then parse_create_table
       else if t = TokKeyword KwDrop then parse_drop_table
       else if t = TokKeyword KwDelete then parse_delete
       else if t = TokKeyword KwInsert then parse_insert
       else if t = TokKeyword KwSelect then parse_select
       else if t = TokKeyword KwUpdate then parse_update
       else unexpected_token) ts = (Ok s, r)"
      using assms(2) by (simp only: parse_statement_at.simps sbind_def prod.case result.case option.case if_False)
    then show ?thesis
      using returnsD [OF simple_returns(1)] returnsD [OF simple_returns(2)] returnsD [OF simple_returns(3)]
        returnsD [OF simple_returns(4)] returnsD [OF parse_create_table_returns] returnsD [OF parse_delete_returns]
        returnsD [OF parse_insert_returns] returnsD [OF parse_update_returns] parse_select_returns [of ts us]
        returnsD [OF returns_unexpected [of plain_printable]]
      by (simp only: Cons Ok split: if_splits)
  qed (use assms(2) Cons in \<open>simp_all add: sbind_def peek_def\<close>)
qed (use assms(2) in \<open>simp add: sbind_def peek_def slift_def\<close>)

lemma statement_printable_at:
  assumes "parse_statement_at (Suc (Suc n)) ts = (Ok s, r)"
  shows "statement_printable s"
proof (cases "not_explain ts")
  case True
  then show ?thesis using plain_statement [OF _ assms] by simp
next
  case False
  then obtain us where ts: "ts = Ok (TokKeyword KwExplain) # us"
    by (auto simp: not_explain_def split: list.splits result.splits)
  then have expected: "expect (TokKeyword KwExplain) ts = (Ok (), us)" and peeked: "peek ts = (Ok (Some (TokKeyword KwExplain)), ts)"
    by (simp_all add: expect_def sbind_def next_token_def sreturn_def peek_def)
  have "sbind (expect (TokKeyword KwExplain)) (\<lambda>_. sbind (next_is (TokKeyword KwExplain)) (\<lambda>nested.
      if nested then slift (errinput ''cannot nest EXPLAIN statements'')
      else sbind (parse_statement_at (Suc n)) (\<lambda>statement. sreturn (StExplain statement)))) ts = (Ok s, r)"
    using assms unfolding parse_statement_at.simps(2) [of "Suc n"] sbind_Ok [where m = peek and s = ts, OF peeked]
    by (simp del: parse_statement_at.simps)
  then have "sbind (next_is (TokKeyword KwExplain)) (\<lambda>nested.
      if nested then slift (errinput ''cannot nest EXPLAIN statements'')
      else sbind (parse_statement_at (Suc n)) (\<lambda>statement. sreturn (StExplain statement))) us = (Ok s, r)"
    by (simp only: sbind_Ok [where m = "expect (TokKeyword KwExplain)" and s = ts, OF expected])
  then obtain s' where s': "not_explain us" "parse_statement_at (Suc n) us = (Ok s', r)" "s = StExplain s'"
    by (cases "not_explain us")
      (auto simp: sbind_eq_Ok next_is_explain slift_def sreturn_def simp del: parse_statement_at.simps)
  with plain_statement [OF s'(1,2)] show ?thesis by simp
qed

text \<open>
  Property C40. Whatever the parser returns is well formed: the literals are in range and not negative,
  \<^verbatim>\<open>IS\<close> is followed by \<^verbatim>\<open>NULL\<close> or the canonical not-a-number, the assignments of an update are sorted with
  distinct columns, a join has a predicate exactly when it is not a cross join, no list of columns, rows,
  values, selected expressions or assignments is empty, \<^verbatim>\<open>*\<close> is not aliased and \<^verbatim>\<open>EXPLAIN\<close> is not nested.
  Every parsed expression is therefore one that prints and parses back.
\<close>

theorem parsed_well_formed:
  "(parse input = Ok s \<longrightarrow> statement_printable s) \<and> (parse_expr text = Ok e \<longrightarrow> printable e)"
proof (intro conjI impI)
  assume "parse input = Ok s"
  then obtain r where "parse_statement (tokens input) = (Ok s, r)"
    unfolding parse_def prod.inject [symmetric]
    by (auto simp: sbind_def sreturn_def split: prod.splits result.splits)
  then show "statement_printable s"
    unfolding parse_statement_def numeral_2_eq_2 by (rule statement_printable_at)
next
  assume "parse_expr text = Ok e"
  then obtain r where "parse_expression (tokens text) = (Ok e, r)"
    by (auto simp: parse_expr_def sbind_def sreturn_def split: prod.splits result.splits)
  with parse_expression_returns show "printable e" by (rule returnsD)
qed

lemma parse_delete_printed:
  assumes "printable e"
  shows "parse (show_tokens ([TokKeyword KwDelete, TokKeyword KwFrom, TokIdent t, TokKeyword KwWhere] @ print_expr e)) =
    Ok (StDelete t (Some e))"
proof -
  let ?ts = "[TokKeyword KwDelete, TokKeyword KwFrom, TokIdent t, TokKeyword KwWhere] @ print_expr e"
  have "sbind parse_expression (\<lambda>e. sreturn (Some e)) (map Ok (print_expr e)) = (Ok (Some e), [])"
    using parse_printed [OF assms] by (simp add: sbind_def sreturn_def)
  then have "parse_statement (map Ok ?ts) = (Ok (StDelete t (Some e)), [])"
    by (simp add: parse_statement_def numeral_2_eq_2 sbind_def peek_def parse_delete_def expect_def next_token_def
        next_ident_def slift_def sreturn_def parse_where_clause_def optional_expression_def next_is_eq)
  moreover have "tokens (show_tokens ?ts) = map Ok ?ts"
    using print_well_formed [OF assms] by (intro tokens_printed) simp
  ultimately show ?thesis
    by (simp add: parse_def sbind_def skip_def next_is_eq sreturn_def end_of_input_def del: map_append)
qed

theorem parsed_well_formed_witness:
  "statement_printable (StDelete ''t'' (Some (AstLiteral (LitFloat f64_nan)))) \<and>
   printable (AstOperator (OpIs (AstColumn None ''a'') LitNull))"
  using parsed_well_formed
    [of "show_tokens ([TokKeyword KwDelete, TokKeyword KwFrom, TokIdent ''t'', TokKeyword KwWhere] @
           print_expr (AstLiteral (LitFloat f64_nan)))"
        "StDelete ''t'' (Some (AstLiteral (LitFloat f64_nan)))"
        "show_expr (AstOperator (OpIs (AstColumn None ''a'') LitNull))"
        "AstOperator (OpIs (AstColumn None ''a'') LitNull)"]
    parse_delete_printed [of "AstLiteral (LitFloat f64_nan)" "''t''"]
    parse_expr_printed [of "AstOperator (OpIs (AstColumn None ''a'') LitNull)"]
  by (simp add: printable_operator)

end
