(* ===== verification/SqlPlannerProps.thy ===== *)
theory SqlPlannerProps
  imports SqlPlanner SqlExec SqlParserTypes
begin

text \<open>
  What the planner promises: scopes resolve names to the columns that carry them, every column reference
  of a plan is in range where it is evaluated, and a plan describes the rows that its execution yields.
\<close>

section \<open>Scopes\<close>

text \<open>The positions of the elements that satisfy a predicate.\<close>

definition indexes :: "('a \<Rightarrow> bool) \<Rightarrow> 'a list \<Rightarrow> nat list" where
  "indexes P xs = filter (\<lambda>i. P (xs ! i)) [0..<length xs]"

lemma indexes_Nil [simp]: "indexes P [] = []"
  by (simp add: indexes_def)

lemma indexes_snoc [simp]: "indexes P (xs @ [x]) = indexes P xs @ (if P x then [length xs] else [])"
proof -
  have "filter (\<lambda>i. P ((xs @ [x]) ! i)) [0..<length xs] = filter (\<lambda>i. P (xs ! i)) [0..<length xs]"
    by (rule filter_cong) (auto simp: nth_append)
  then show ?thesis by (simp add: indexes_def)
qed

lemma set_indexes [simp]: "set (indexes P xs) = {i. i < length xs \<and> P (xs ! i)}"
  by (auto simp: indexes_def)

lemma distinct_indexes [simp]: "distinct (indexes P xs)"
  by (simp add: indexes_def)

definition last_of :: "'a list \<Rightarrow> 'a option" where
  "last_of xs = (if xs = [] then None else Some (last xs))"

definition nonempty :: "'a list \<Rightarrow> 'a list option" where
  "nonempty xs = (if xs = [] then None else Some xs)"

lemma indexes_single: "indexes P xs = [i] \<longleftrightarrow> i < length xs \<and> (\<forall>j < length xs. P (xs ! j) \<longleftrightarrow> j = i)"
proof
  assume "indexes P xs = [i]"
  then have "set (indexes P xs) = {i}" by simp
  then show "i < length xs \<and> (\<forall>j < length xs. P (xs ! j) \<longleftrightarrow> j = i)" by (auto simp: set_eq_iff)
next
  assume "i < length xs \<and> (\<forall>j < length xs. P (xs ! j) \<longleftrightarrow> j = i)"
  then have "set (indexes P xs) = {i}" by auto
  then show "indexes P xs = [i]"
    using distinct_indexes [of P xs] by (cases "indexes P xs") (auto simp del: set_indexes distinct_indexes simp: subset_singleton_iff)
qed

lemma last_of_distinct:
  "distinct xs \<Longrightarrow> last_of (indexes (\<lambda>x. x = y) xs) = Some i \<longleftrightarrow> i < length xs \<and> xs ! i = y"
proof
  assume d: "distinct xs"
  {
    assume "last_of (indexes (\<lambda>x. x = y) xs) = Some i"
    then have "i \<in> set (indexes (\<lambda>x. x = y) xs)" by (auto simp: last_of_def simp del: set_indexes split: if_splits)
    then show "i < length xs \<and> xs ! i = y" by simp
  next
    assume "i < length xs \<and> xs ! i = y"
    with d have "indexes (\<lambda>x. x = y) xs = [i]" by (auto simp: indexes_single nth_eq_iff_index_eq)
    then show "last_of (indexes (\<lambda>x. x = y) xs) = Some i" by (simp add: last_of_def)
  }
qed

fun label_name :: "label \<Rightarrow> string option" where
  "label_name (Qualified table column) = Some column"
| "label_name (Unqualified column) = Some column"
| "label_name NoLabel = None"

text \<open>
  The maps of a scope describe its columns: a qualified name leads to the last column with it, an unqualified
  one to all of them, and every index is that of a column.
\<close>

definition scope_ok :: "scope \<Rightarrow> bool" where
  "scope_ok s =
     ((\<forall>t c. map_of (sc_qualified s) (t, c) = last_of (indexes (\<lambda>l. l = Qualified t c) (sc_columns s))) \<and>
      (\<forall>c. map_of (sc_unqualified s) c = nonempty (indexes (\<lambda>l. label_name l = Some c) (sc_columns s))) \<and>
      snd ` set (sc_aggregates s) \<subseteq> {..<length (sc_columns s)} \<and>
      sc_hidden s \<subseteq> {..<length (sc_columns s)})"

text \<open>The tables of a scope include those of its columns.\<close>

definition tables_ok :: "scope \<Rightarrow> bool" where
  "tables_ok s = (\<forall>t c. Qualified t c \<in> set (sc_columns s) \<longrightarrow> t \<in> sc_tables s)"

lemma scope_new_ok [simp]: "scope_ok scope_new" "tables_ok scope_new"
  by (simp_all add: scope_ok_def tables_ok_def scope_new_def last_of_def nonempty_def)

lemma scope_new_simps [simp]:
  "sc_columns scope_new = []" "sc_aggregates scope_new = []" "sc_hidden scope_new = {}" "sc_tables scope_new = {}"
  by (simp_all add: scope_new_def)

lemma scope_spawn_ok [simp]: "scope_ok (scope_spawn s)" "tables_ok (scope_spawn s)"
  by (simp_all add: scope_ok_def tables_ok_def scope_spawn_def scope_new_def last_of_def nonempty_def)

lemma scope_spawn_simps [simp]:
  "sc_columns (scope_spawn s) = []" "sc_tables (scope_spawn s) = sc_tables s" "sc_aggregates (scope_spawn s) = []"
  by (simp_all add: scope_spawn_def)

lemma add_column_simps [simp]:
  "sc_columns (add_column l s) = sc_columns s @ [l]"
  "sc_tables (add_column l s) = sc_tables s"
  "sc_aggregates (add_column l s) = sc_aggregates s"
  "sc_hidden (add_column l s) = sc_hidden s"
  by (cases l; simp add: add_column_def Let_def)+

lemma add_column_qualified:
  "map_of (sc_qualified (add_column l s)) k =
     (if l = Qualified (fst k) (snd k) then Some (length (sc_columns s)) else map_of (sc_qualified s) k)"
  by (cases l; cases k) (auto simp: add_column_def Let_def update_conv')

lemma add_column_unqualified:
  "map_of (sc_unqualified (add_column l s)) c =
     (if label_name l = Some c
      then Some ((case map_of (sc_unqualified s) c of Some is \<Rightarrow> is | None \<Rightarrow> []) @ [length (sc_columns s)])
      else map_of (sc_unqualified s) c)"
  by (cases l) (auto simp: add_column_def Let_def push_entry_def update_conv')

lemma add_column_ok [simp]:
  assumes "scope_ok s"
  shows "scope_ok (add_column l s)"
  using assms unfolding scope_ok_def
  by (auto simp: add_column_qualified add_column_unqualified last_of_def nonempty_def less_SucI)

lemma add_column_tables:
  "tables_ok s \<Longrightarrow> (\<And>t c. l = Qualified t c \<Longrightarrow> t \<in> sc_tables s) \<Longrightarrow> tables_ok (add_column l s)"
  by (auto simp: tables_ok_def)

lemma scope_ok_aggregates:
  "scope_ok s \<Longrightarrow> snd ` set m \<subseteq> {..<length (sc_columns s)} \<Longrightarrow> scope_ok (s\<lparr>sc_aggregates := m\<rparr>)"
  by (simp add: scope_ok_def)

lemma scope_ok_hidden:
  "scope_ok s \<Longrightarrow> h \<subseteq> {..<length (sc_columns s)} \<Longrightarrow> scope_ok (s\<lparr>sc_hidden := h\<rparr>)"
  by (simp add: scope_ok_def)

lemma scope_ok_tables [simp]: "scope_ok (s\<lparr>sc_tables := T\<rparr>) = scope_ok s"
  by (simp add: scope_ok_def)

lemma tables_ok_update [simp]:
  "tables_ok (s\<lparr>sc_aggregates := m\<rparr>) = tables_ok s" "tables_ok (s\<lparr>sc_hidden := h\<rparr>) = tables_ok s"
  by (simp_all add: tables_ok_def)

lemma scope_ok_aggregateD: "scope_ok s \<Longrightarrow> map_of (sc_aggregates s) e = Some i \<Longrightarrow> i < length (sc_columns s)"
  by (force simp: scope_ok_def dest: map_of_SomeD)

lemma fold_add_column [simp]:
  "sc_columns (fold add_column ls s) = sc_columns s @ ls"
  "sc_tables (fold add_column ls s) = sc_tables s"
  "sc_aggregates (fold add_column ls s) = sc_aggregates s"
  "sc_hidden (fold add_column ls s) = sc_hidden s"
  by (induction ls arbitrary: s) simp_all

lemma fold_add_column_ok [simp]: "scope_ok s \<Longrightarrow> scope_ok (fold add_column ls s)"
  by (induction ls arbitrary: s) simp_all

lemma or_insert_map: "map_of (or_insert k v m) k' = (if k' = k \<and> map_of m k = None then Some v else map_of m k')"
  by (simp add: or_insert_def)

subsection \<open>Name lookups\<close>

lemma lookup_qualified:
  assumes "scope_ok s" "tables_ok s"
  shows "scope_lookup_column s (Some t) c = Ok i \<longleftrightarrow>
    last_of (indexes (\<lambda>l. l = Qualified t c) (sc_columns s)) = Some i"
proof -
  have table: "t \<in> sc_tables s" if "last_of (indexes (\<lambda>l. l = Qualified t c) (sc_columns s)) \<noteq> None"
  proof -
    from that have "indexes (\<lambda>l. l = Qualified t c) (sc_columns s) \<noteq> []" by (simp add: last_of_def split: if_splits)
    then obtain j where "j \<in> set (indexes (\<lambda>l. l = Qualified t c) (sc_columns s))" by (metis last_in_set)
    then have "j < length (sc_columns s)" "sc_columns s ! j = Qualified t c" by auto
    with assms(2) show ?thesis unfolding tables_ok_def by (metis nth_mem)
  qed
  have none: "last_of (indexes (\<lambda>l. l = Qualified t c) (sc_columns s)) = None" if "sc_columns s = []"
    using that by (simp add: last_of_def)
  show ?thesis using assms(1) table none
    by (auto simp: scope_lookup_column_def scope_ok_def column_not_found_def split: option.splits)
qed

lemma lookup_unqualified:
  assumes "scope_ok s"
  shows "scope_lookup_column s None c = Ok i \<longleftrightarrow> indexes (\<lambda>l. label_name l = Some c) (sc_columns s) = [i]"
proof (cases "sc_columns s = []")
  case False
  with assms show ?thesis
    by (cases "indexes (\<lambda>l. label_name l = Some c) (sc_columns s)")
      (auto simp: scope_lookup_column_def scope_ok_def column_not_found_def nonempty_def)
qed (simp add: scope_lookup_column_def)

lemma lookup_in_range: "scope_ok s \<Longrightarrow> scope_lookup_column s t c = Ok i \<Longrightarrow> i < length (sc_columns s)"
proof (cases t)
  case None
  assume "scope_ok s" "scope_lookup_column s t c = Ok i"
  then have "i \<in> set (indexes (\<lambda>l. label_name l = Some c) (sc_columns s))" using None by (simp only: lookup_unqualified) simp
  then show ?thesis by simp
next
  case (Some t')
  assume ok: "scope_ok s" "scope_lookup_column s t c = Ok i"
  then have "last_of (indexes (\<lambda>l. l = Qualified t' c) (sc_columns s)) = Some i"
    using Some by (auto simp: scope_lookup_column_def scope_ok_def column_not_found_def split: if_splits option.splits)
  then have "i \<in> set (indexes (\<lambda>l. l = Qualified t' c) (sc_columns s))"
    by (auto simp: last_of_def simp del: set_indexes split: if_splits)
  then show ?thesis by simp
qed

lemma lookup_no_panic: "scope_ok s \<Longrightarrow> scope_lookup_column s t c \<noteq> Panic p"
  by (cases t) (auto simp: scope_lookup_column_def scope_ok_def column_not_found_def nonempty_def nth_checked_def
      split: option.splits if_splits)

subsection \<open>Operations keep the description\<close>

lemma set_or_insert: "snd ` set (or_insert k v m) \<subseteq> insert v (snd ` set m)"
  by (auto simp: or_insert_def)

lemma fold_or_insert_bound:
  "(\<And>e i m. snd ` set m \<subseteq> A \<Longrightarrow> (e, i) \<in> set xs \<Longrightarrow> snd ` set (f (e, i) m) \<subseteq> A) \<Longrightarrow> snd ` set m \<subseteq> A
   \<Longrightarrow> snd ` set (fold f xs m) \<subseteq> A"
proof (induction xs arbitrary: m)
  case (Cons x xs)
  have "snd ` set (f x m) \<subseteq> A" using Cons.prems by (cases x) simp
  then show ?case using Cons.IH [of "f x m"] Cons.prems(1) by simp
qed simp

text \<open>What the operations that cannot fail return.\<close>

definition grows :: "scope \<Rightarrow> label list \<Rightarrow> scope result \<Rightarrow> bool" where
  "grows s ls r = (\<exists>s'. r = Ok s' \<and> scope_ok s' \<and> sc_columns s' = sc_columns s @ ls \<and> sc_tables s' = sc_tables s)"

lemma add_passthrough_grows:
  assumes "scope_ok s" "i < length (sc_columns parent)"
  shows "grows s [sc_columns parent ! i] (add_passthrough parent i hide s)"
proof -
  let ?s = "add_column (sc_columns parent ! i) s"
  let ?m = "fold (\<lambda>(e, j) m. if j = i then or_insert e (length (sc_columns s)) m else m) (sc_aggregates parent) (sc_aggregates ?s)"
  have "snd ` set (sc_aggregates s) \<subseteq> {..<length (sc_columns s)}" using assms(1) by (simp add: scope_ok_def)
  then have "snd ` set ?m \<subseteq> {..<length (sc_columns ?s)}"
    by (intro fold_or_insert_bound) (auto simp: or_insert_def split: if_splits)
  then have ok: "scope_ok (?s\<lparr>sc_aggregates := ?m\<rparr>)" using assms(1) by (intro scope_ok_aggregates) simp_all
  moreover have "insert (length (sc_columns s)) (sc_hidden ?s) \<subseteq> {..<length (sc_columns ?s)}"
    using assms(1) by (auto simp: scope_ok_def)
  ultimately have "scope_ok (?s\<lparr>sc_aggregates := ?m, sc_hidden := insert (length (sc_columns s)) (sc_hidden ?s)\<rparr>)"
    by (intro scope_ok_hidden) simp_all
  then show ?thesis using ok assms(2) by (simp add: grows_def add_passthrough_def nth_checked_def Let_def)
qed

lemma passed_label_Ok:
  assumes "scope_ok s"
  shows "\<exists>l. passed_label s e = Ok l \<and> (l = NoLabel \<or> l \<in> set (sc_columns s))"
  using assms lookup_in_range [OF assms] lookup_no_panic [OF assms]
  by (fastforce simp: passed_label_def nth_checked_def split: ast_expr.split result.split)

lemma add_aggregate_grows:
  assumes "scope_ok parent" "scope_ok s"
  shows "\<exists>added s' ls. add_aggregate parent e s = Ok (added, s') \<and> scope_ok s' \<and> sc_tables s' = sc_tables s \<and>
    sc_columns s' = sc_columns s @ ls \<and> length ls = of_bool added \<and> set ls \<subseteq> insert NoLabel (set (sc_columns parent))"
proof -
  obtain l where l: "passed_label parent e = Ok l" "l = NoLabel \<or> l \<in> set (sc_columns parent)"
    using passed_label_Ok [OF assms(1)] by blast
  have "snd ` set ((e, length (sc_columns s)) # sc_aggregates s) \<subseteq> {..<length (sc_columns (add_column l s))}"
    using assms(2) by (auto simp: scope_ok_def)
  then have "scope_ok ((add_column l s)\<lparr>sc_aggregates := (e, length (sc_columns s)) # sc_aggregates s\<rparr>)"
    using assms(2) by (intro scope_ok_aggregates) simp_all
  with l assms(2) show ?thesis by (auto simp: add_aggregate_def Let_def)
qed

lemma add_aggregates_grows:
  assumes "scope_ok parent" "scope_ok s"
  shows "\<exists>kept s' ls. add_aggregates parent es s = Ok (kept, s') \<and> scope_ok s' \<and> sc_tables s' = sc_tables s \<and>
    sc_columns s' = sc_columns s @ ls \<and> length ls = length kept \<and> set ls \<subseteq> insert NoLabel (set (sc_columns parent)) \<and>
    set kept \<subseteq> set es"
  using assms(2)
proof (induction es arbitrary: s)
  case (Cons e es)
  obtain added s1 ls where 1: "add_aggregate parent e s = Ok (added, s1)" "scope_ok s1" "sc_tables s1 = sc_tables s"
    "sc_columns s1 = sc_columns s @ ls" "length ls = of_bool added" "set ls \<subseteq> insert NoLabel (set (sc_columns parent))"
    using add_aggregate_grows [OF assms(1) Cons.prems] by blast
  obtain kept s2 ls' where "add_aggregates parent es s1 = Ok (kept, s2)" "scope_ok s2" "sc_tables s2 = sc_tables s1"
    "sc_columns s2 = sc_columns s1 @ ls'" "length ls' = length kept" "set ls' \<subseteq> insert NoLabel (set (sc_columns parent))"
    "set kept \<subseteq> set es"
    using Cons.IH [OF 1(2)] by blast
  with 1 show ?case by auto
qed simp

lemma project_one_grows:
  assumes "scope_ok s" "scope_ok child"
  shows "\<exists>l. grows child [l] (project_one s x child) \<and> projected_label s x = Ok l"
proof -
  obtain l where l: "projected_label s x = Ok l"
    using passed_label_Ok [OF assms(1), of "fst x"] by (cases x; cases "snd x") (auto simp: projected_label_def)
  have "snd ` set (or_insert (fst x) (length (sc_columns child)) (sc_aggregates child)) \<subseteq> {..<length (sc_columns (add_column l child))}"
    using assms(2) by (auto simp: scope_ok_def or_insert_def)
  then have "scope_ok ((add_column l child)\<lparr>sc_aggregates := or_insert (fst x) (length (sc_columns child)) (sc_aggregates child)\<rparr>)"
    using assms(2) by (intro scope_ok_aggregates) simp_all
  with l assms(2) show ?thesis by (auto simp: project_one_def grows_def Let_def)
qed

lemma project_all_grows:
  assumes "scope_ok s" "scope_ok child"
  shows "\<exists>ls. grows child ls (project_all s xs child) \<and> length ls = length xs"
  using assms(2)
proof (induction xs arbitrary: child)
  case (Cons x xs)
  obtain l child' where 1: "project_one s x child = Ok child'" "scope_ok child'" "sc_columns child' = sc_columns child @ [l]"
    "sc_tables child' = sc_tables child"
    using project_one_grows [OF assms(1) Cons.prems, of x] by (auto simp: grows_def)
  obtain ls where "grows child' ls (project_all s xs child')" "length ls = length xs" using Cons.IH [OF 1(2)] by blast
  with 1 have "grows child (l # ls) (project_all s (x # xs) child)" by (auto simp: grows_def)
  with \<open>length ls = length xs\<close> show ?case by (metis length_Cons)
qed (auto simp: grows_def)

lemma pass_through_all_grows:
  assumes "\<And>i. Some i \<in> set is \<Longrightarrow> i < length (sc_columns parent)" "scope_ok s"
  shows "grows s (map (\<lambda>i. sc_columns parent ! i) (List.map_filter (\<lambda>t. t) is)) (pass_through_all parent is s)"
  using assms
proof (induction parent "is" s rule: pass_through_all.induct)
  case (3 parent i "is" s)
  obtain s' where "add_passthrough parent i False s = Ok s'" "scope_ok s'" "sc_columns s' = sc_columns s @ [sc_columns parent ! i]"
    "sc_tables s' = sc_tables s"
    using add_passthrough_grows [OF 3(3), of i parent False] 3(2) by (auto simp: grows_def)
  moreover have "grows s' (map (\<lambda>i. sc_columns parent ! i) (List.map_filter (\<lambda>t. t) is)) (pass_through_all parent is s')"
    by (rule 3(1)) (use 3 calculation(2) in auto)
  ultimately show ?case by (auto simp: grows_def map_filter_simps)
qed (simp_all add: grows_def map_filter_simps)

lemma scope_merge_Ok:
  assumes "scope_ok child" "scope_ok s" "scope_merge child s = Ok s'"
  shows "scope_ok s' \<and> sc_columns s' = sc_columns s @ sc_columns child \<and> sc_tables s' = sc_tables s \<union> sc_tables child \<and>
    sc_tables s \<inter> sc_tables child = {}"
proof -
  let ?s = "fold add_column (sc_columns child) (s\<lparr>sc_tables := sc_tables s \<union> sc_tables child\<rparr>)"
  let ?n = "length (sc_columns s)"
  let ?m = "fold (\<lambda>(e, i). or_insert e (i + ?n)) (sc_aggregates child) (sc_aggregates ?s)"
  have s': "s' = ?s\<lparr>sc_aggregates := ?m, sc_hidden := sc_hidden ?s \<union> (\<lambda>i. i + ?n) ` sc_hidden child\<rparr>"
    "sc_tables s \<inter> sc_tables child = {}"
    using assms(3) by (auto simp: scope_merge_def Let_def split: if_splits)
  have "snd ` set (sc_aggregates s) \<subseteq> {..<?n}" "snd ` set (sc_aggregates child) \<subseteq> {..<length (sc_columns child)}"
    using assms by (simp_all add: scope_ok_def)
  then have "snd ` set ?m \<subseteq> {..<length (sc_columns ?s)}"
    by (intro fold_or_insert_bound) (force simp: or_insert_def split: if_splits)+
  then have ok: "scope_ok (?s\<lparr>sc_aggregates := ?m\<rparr>)" using assms(2) by (intro scope_ok_aggregates) simp_all
  have "sc_hidden s \<union> (\<lambda>i. i + ?n) ` sc_hidden child \<subseteq> {..<length (sc_columns ?s)}"
    using assms by (auto simp: scope_ok_def)
  with ok have "scope_ok s'" unfolding s'(1) by (intro scope_ok_hidden) simp_all
  with s' show ?thesis by simp
qed

subsection \<open>Remapped columns\<close>

lemma remap_size_snoc [simp]:
  "remap_size (ts @ [t]) = (case t of Some j \<Rightarrow> max (remap_size ts) (Suc j) | None \<Rightarrow> remap_size ts)"
  by (simp add: remap_size_def map_filter_def max.commute split: option.split)

lemma remap_size_bound: "Some j \<in> set ts \<Longrightarrow> j < remap_size ts"
  by (induction ts rule: rev_induct) (auto split: option.split)

lemma remap_size_le: "(\<And>j. Some j \<in> set ts \<Longrightarrow> j < n) \<Longrightarrow> remap_size ts \<le> n"
proof (induction ts rule: rev_induct)
  case (snoc t ts)
  then have "remap_size ts \<le> n" by simp
  with snoc.prems show ?case by (auto simp: Suc_le_eq split: option.split)
qed (simp add: remap_size_def map_filter_simps)

definition invert_fold :: "nat option list \<Rightarrow> nat option list \<Rightarrow> nat option list" where
  "invert_fold ts xs = fold (\<lambda>(i, t) sources. case t of Some j \<Rightarrow> sources[j := Some i] | None \<Rightarrow> sources) (enumerate 0 ts) xs"

lemma invert_fold_snoc:
  "invert_fold (ts @ [t]) xs = (case t of Some j \<Rightarrow> (invert_fold ts xs)[j := Some (length ts)] | None \<Rightarrow> invert_fold ts xs)"
  by (simp add: invert_fold_def enumerate_append_eq split: option.split)

lemma length_invert_fold [simp]: "length (invert_fold ts xs) = length xs"
  by (induction ts rule: rev_induct) (auto simp: invert_fold_snoc split: option.split, simp add: invert_fold_def)

lemma position_Some: "position p xs = Some i \<Longrightarrow> i < length xs \<and> p (xs ! i)"
  by (induction xs arbitrary: i) (auto split: if_splits)

lemma position_None: "position p xs = None \<longleftrightarrow> (\<forall>x\<in>set xs. \<not> p x)"
  by (induction xs) auto

lemma position_snoc:
  "position p (xs @ [x]) = (case position p xs of Some i \<Rightarrow> Some i | None \<Rightarrow> if p x then Some (length xs) else None)"
  by (induction xs) (auto split: option.split)

text \<open>A list of targets in which no column occurs twice.\<close>

definition inj_targets :: "nat option list \<Rightarrow> bool" where
  "inj_targets ts = distinct (List.map_filter id ts)"

lemma position_unique:
  assumes "inj_targets ts" "i < length ts" "ts ! i = Some j"
  shows "position (\<lambda>t. t = Some j) ts = Some i"
  using assms
proof (induction ts arbitrary: i)
  case (Cons t ts)
  have "Some j \<notin> set ts" if "t = Some j" using that Cons.prems(1) by (force simp: inj_targets_def map_filter_simps map_filter_def)
  with Cons show ?case
    by (cases i) (auto simp: inj_targets_def map_filter_simps split: option.splits dest: nth_mem)
qed simp

lemma invert_fold_nth:
  "inj_targets ts \<Longrightarrow> j < n \<Longrightarrow> invert_fold ts (replicate n None) ! j = position (\<lambda>t. t = Some j) ts"
proof (induction ts rule: rev_induct)
  case (snoc t ts)
  have IH: "invert_fold ts (replicate n None) ! j = position (\<lambda>t. t = Some j) ts"
    using snoc by (auto simp: inj_targets_def map_filter_def)
  have "position (\<lambda>t. t = Some j) ts = None" if "t = Some j"
    using that snoc.prems(1) by (force simp: inj_targets_def map_filter_def position_None)
  with IH snoc.prems(2) show ?case
    by (cases t) (auto simp: invert_fold_snoc position_snoc nth_list_update split: option.splits)
qed (simp add: invert_fold_def)

lemma invert_remap_nth:
  "inj_targets ts \<Longrightarrow> j < remap_size ts \<Longrightarrow> invert_remap ts ! j = position (\<lambda>t. t = Some j) ts"
  using invert_fold_nth [of ts j "remap_size ts"] by (simp add: invert_remap_def invert_fold_def)

lemma length_invert_remap [simp]: "length (invert_remap ts) = remap_size ts"
  using length_invert_fold [of ts] by (simp add: invert_remap_def invert_fold_def)

lemma swap_targets_simps [simp]:
  "length (swap_targets a b) = a + b"
  "i < a + b \<Longrightarrow> swap_targets a b ! i = Some ((i + b) mod (a + b))"
  by (simp_all add: swap_targets_def)

lemma swap_inj: "inj_targets (swap_targets a b)"
proof -
  have "inj_on (\<lambda>i. (i + b) mod (a + b)) {..<a + b}"
    by (rule inj_on_inverseI [where g = "\<lambda>k. (k + a) mod (a + b)"]) (simp add: mod_add_left_eq add.assoc add.commute [of b])
  then show ?thesis by (simp add: inj_targets_def swap_targets_def map_filter_def comp_def distinct_map atLeast0LessThan)
qed

lemma swap_position:
  assumes "j < a + b"
  shows "position (\<lambda>t. t = Some j) (swap_targets a b) = Some ((j + a) mod (a + b))"
proof (rule position_unique [OF swap_inj])
  have less: "(j + a) mod (a + b) < a + b" using assms by (intro mod_less_divisor) linarith
  have "((j + a) mod (a + b) + b) mod (a + b) = j" using assms by (simp add: mod_add_left_eq add.assoc)
  with less show "swap_targets a b ! ((j + a) mod (a + b)) = Some j" by simp
  from less show "(j + a) mod (a + b) < length (swap_targets a b)" by simp
qed

lemma swap_size [simp]: "remap_size (swap_targets a b) = a + b"
proof (rule antisym)
  show "remap_size (swap_targets a b) \<le> a + b" by (rule remap_size_le) (auto simp: swap_targets_def intro: mod_less_divisor [OF gr_zeroI])
  show "a + b \<le> remap_size (swap_targets a b)"
  proof (cases "a + b")
    case (Suc n)
    then have "n < a + b" by simp
    from swap_position [OF this] have "\<not> (\<forall>t\<in>set (swap_targets a b). t \<noteq> Some n)"
      unfolding position_None [symmetric] by simp
    then have "Some n \<in> set (swap_targets a b)" by blast
    with Suc show ?thesis by (simp add: remap_size_bound Suc_leI)
  qed simp
qed

lemma swap_inverted: "invert_remap (swap_targets a b) = map (\<lambda>j. Some ((j + a) mod (a + b))) [0..<a + b]"
  by (rule nth_equalityI) (simp_all add: invert_remap_nth [OF swap_inj] swap_position)

section \<open>Expressions\<close>

lemma lookup_aggregate_in_range: "scope_ok s \<Longrightarrow> lookup_aggregate s e = Some i \<Longrightarrow> i < length (sc_columns s)"
  by (simp add: lookup_aggregate_def scope_ok_aggregateD)

lemmas build_simps = built1_def built2_def rbind_eq_Ok

lemma built_columns:
  assumes "scope_ok s"
  shows "build_expression s e = Ok e' \<Longrightarrow> columns_of e' \<subseteq> {..<length (sc_columns s)}"
proof (induction e arbitrary: e' rule: ast_nodes.induct)
  case (1 op)
  show ?case
  proof (cases "lookup_aggregate s (AstOperator op)")
    case None
    have IH: "build_expression s x = Ok y \<Longrightarrow> x \<in> set (operands op) \<Longrightarrow> columns_of y \<subseteq> {..<length (sc_columns s)}" for x y
      using 1 by blast
    from None 1(2) show ?thesis by (cases op) (auto simp: build_simps dest!: IH)
  qed (use 1 assms lookup_aggregate_in_range in auto)
next
  case (2 name args)
  have IH: "build_expression s x = Ok y \<Longrightarrow> x \<in> set args \<Longrightarrow> columns_of y \<subseteq> {..<length (sc_columns s)}" for x y
    using 2 by blast
  from 2(2) assms show ?case
    by (auto simp: build_simps lookup_aggregate_in_range split: option.splits list.splits if_splits dest!: IH)
qed (use assms in \<open>auto simp: rbind_eq_Ok lookup_aggregate_in_range lookup_in_range split: option.splits\<close>)

lemma constant_built: "build_expression scope_new e = Ok e' \<Longrightarrow> columns_of e' = {}"
  using built_columns [of scope_new e e'] by simp

lemma rbind_Panic: "rbind m f = Panic p \<longleftrightarrow> m = Panic p \<or> (\<exists>x. m = Ok x \<and> f x = Panic p)"
  by (cases m) auto

lemma nan_is_nan: "f64_is_nan f64_nan"
  by (simp add: f64_is_nan_def f64_nan_def)

lemma built_no_panic:
  assumes "scope_ok s"
  shows "printable e \<Longrightarrow> build_expression s e \<noteq> Panic p"
proof (induction e rule: ast_nodes.induct)
  case (1 op)
  show ?case
  proof (cases "lookup_aggregate s (AstOperator op)")
    case None
    with 1 show ?thesis
      by (cases op) (auto simp: built1_def built2_def rbind_Panic printable_operator is_value_def nan_is_nan split: ast_literal.splits if_splits)
  qed simp
next
  case (2 name args)
  then show ?case by (auto simp: built1_def rbind_Panic split: option.splits list.splits if_splits)
qed (use lookup_no_panic [OF assms] in \<open>auto simp: rbind_Panic split: option.splits\<close>)

section \<open>Plans in range\<close>

definition refs_below :: "nat \<Rightarrow> expression \<Rightarrow> bool" where
  "refs_below n e = (columns_of e \<subseteq> {..<n})"

text \<open>Every expression of a node refers to columns of the rows that it is evaluated on.\<close>

primrec node_ok :: "plan_node \<Rightarrow> bool" where
  "node_ok (Aggregate source group_by aggregates) =
     (node_ok source \<and> (\<forall>e\<in>set group_by. refs_below (columns source) e) \<and>
      (\<forall>a\<in>set aggregates. refs_below (columns source) (aggregate_expr a)))"
| "node_ok (Filter source predicate) = (node_ok source \<and> refs_below (columns source) predicate)"
| "node_ok (HashJoin l lc r rc outer) = (node_ok l \<and> node_ok r \<and> lc < columns l \<and> rc < columns r)"
| "node_ok (IndexLookup t column vs alias) = (column < length (tbl_columns t))"
| "node_ok (KeyLookup t keys alias) = True"
| "node_ok (Limit source n) = node_ok source"
| "node_ok (NestedLoopJoin l r predicate outer) =
     (node_ok l \<and> node_ok r \<and> pred_option (refs_below (columns l + columns r)) predicate)"
| "node_ok (Nothing labels) = True"
| "node_ok (Offset source n) = node_ok source"
| "node_ok (Order source key) = (node_ok source \<and> (\<forall>(e, dir)\<in>set key. refs_below (columns source) e))"
| "node_ok (Projection source expressions aliases) =
     (node_ok source \<and> (\<forall>e\<in>set expressions. refs_below (columns source) e) \<and> length aliases = length expressions)"
| "node_ok (Remap source targets) = (node_ok source \<and> length targets = columns source \<and> inj_targets targets)"
| "node_ok (Scan t flt alias) = pred_option (refs_below (length (tbl_columns t))) flt"
| "node_ok (Values rows) =
     (\<forall>row\<in>set rows. length row = columns (Values rows) \<and> (\<forall>e\<in>set row. refs_below 0 e))"

lemma built_in_range: "scope_ok s \<Longrightarrow> build_expression s e = Ok e' \<Longrightarrow> refs_below (length (sc_columns s)) e'"
  by (simp add: refs_below_def built_columns)

lemma built_optional_in_range:
  "scope_ok s \<Longrightarrow> build_optional s e = Ok e' \<Longrightarrow> pred_option (refs_below (length (sc_columns s))) e'"
  by (auto simp: build_optional_def rbind_eq_Ok built_in_range split: option.splits)

section \<open>FROM clauses\<close>

text \<open>A scope of table columns only; if \<open>d\<close>, no two have the same table and name.\<close>

definition from_scope :: "bool \<Rightarrow> scope \<Rightarrow> bool" where
  "from_scope d s = (scope_ok s \<and> tables_ok s \<and> (d \<longrightarrow> distinct (sc_columns s)) \<and> (\<forall>l\<in>set (sc_columns s). \<exists>t c. l = Qualified t c) \<and>
     sc_aggregates s = [] \<and> sc_hidden s = {})"

text \<open>The labels of a scope are those of the columns of a node.\<close>

definition describes :: "label list \<Rightarrow> plan_node \<Rightarrow> bool" where
  "describes ls n = (length ls = columns n \<and> (\<forall>i<columns n. column_label n i = Ok (ls ! i)))"

definition catalog_ok :: "catalog \<Rightarrow> bool" where
  "catalog_ok C = (\<forall>name t. C name = Ok (Some t) \<longrightarrow> distinct (map col_name (tbl_columns t)))"

lemma scope_new_from [simp]: "from_scope d scope_new"
  by (simp add: from_scope_def)

lemma fold_add_column_unchanged [simp]: "sc_tables (fold (\<lambda>c. add_column (f c)) cs s) = sc_tables s"
  "sc_columns (fold (\<lambda>c. add_column (f c)) cs s) = sc_columns s @ map f cs"
  "sc_aggregates (fold (\<lambda>c. add_column (f c)) cs s) = sc_aggregates s"
  "sc_hidden (fold (\<lambda>c. add_column (f c)) cs s) = sc_hidden s"
  "scope_ok s \<Longrightarrow> scope_ok (fold (\<lambda>c. add_column (f c)) cs s)"
  by (induction cs arbitrary: s) simp_all

definition table_labels :: "sql_table \<Rightarrow> string option \<Rightarrow> label list" where
  "table_labels t alias =
     map (\<lambda>c. Qualified (case alias of Some a \<Rightarrow> a | None \<Rightarrow> tbl_name t) (col_name c)) (tbl_columns t)"

lemma table_described: "describes (table_labels t alias) (Scan t flt alias)"
  by (simp add: describes_def table_labels_def table_label_def nth_checked_def)

lemma add_table_new:
  assumes "add_table t alias scope_new = Ok s"
  shows "sc_columns s = table_labels t alias" "scope_ok s" "tables_ok s" "sc_aggregates s = []" "sc_hidden s = {}"
  using assms by (auto simp: add_table_def table_labels_def tables_ok_def Let_def split: option.splits)

lemma add_table_from:
  assumes "add_table t alias scope_new = Ok s" "d \<longrightarrow> distinct (map col_name (tbl_columns t))"
  shows "from_scope d s"
proof -
  have "d \<longrightarrow> distinct (table_labels t alias)" using assms(2) by (simp add: table_labels_def distinct_map inj_on_def)
  then show ?thesis
    using add_table_new [OF assms(1)] by (auto simp: from_scope_def table_labels_def)
qed

lemma merge_from:
  assumes "from_scope d child" "from_scope d s" "scope_merge child s = Ok s'"
  shows "from_scope d s' \<and> sc_columns s' = sc_columns s @ sc_columns child"
proof -
  have m: "scope_ok s'" "sc_columns s' = sc_columns s @ sc_columns child" "sc_tables s' = sc_tables s \<union> sc_tables child"
    "sc_tables s \<inter> sc_tables child = {}"
    using scope_merge_Ok assms unfolding from_scope_def by blast+
  have "set (sc_columns s) \<inter> set (sc_columns child) = {}"
    using m(4) assms(1,2) by (fastforce simp: from_scope_def tables_ok_def)
  moreover have "sc_aggregates s' = []" "sc_hidden s' = {}"
    using assms by (auto simp: from_scope_def scope_merge_def Let_def split: if_splits)
  ultimately show ?thesis using m assms(1,2) by (auto simp: from_scope_def tables_ok_def)
qed

lemma add_passthrough_plain:
  "sc_aggregates parent = [] \<Longrightarrow> sc_hidden parent = {} \<Longrightarrow> i < length (sc_columns parent)
   \<Longrightarrow> add_passthrough parent i False s = Ok (add_column (sc_columns parent ! i) s)"
  by (simp add: add_passthrough_def nth_checked_def Let_def)

lemma pass_through_plain:
  assumes "sc_aggregates parent = []" "sc_hidden parent = {}" "\<And>i. i \<in> set is \<Longrightarrow> i < length (sc_columns parent)"
  shows "pass_through_all parent (map Some is) s = Ok (fold add_column (map (\<lambda>i. sc_columns parent ! i) is) s)"
  using assms(3) by (induction "is" arbitrary: s) (simp_all add: add_passthrough_plain [OF assms(1,2)])

lemma from_scope_sub:
  assumes "from_scope d s" "scope_ok s'" "sc_tables s' = sc_tables s" "sc_aggregates s' = []" "sc_hidden s' = {}"
    "d \<longrightarrow> distinct (sc_columns s')" "set (sc_columns s') \<subseteq> set (sc_columns s)"
  shows "from_scope d s'"
  using assms unfolding from_scope_def tables_ok_def by blast

text \<open>The columns of a right join, whose inputs were swapped.\<close>

definition swapped :: "nat \<Rightarrow> 'a list \<Rightarrow> 'a list" where
  "swapped a xs = map (\<lambda>j. xs ! ((j + a) mod length xs)) [0..<length xs]"

lemma scope_remap_swap:
  assumes "from_scope d s" "length (sc_columns s) = a + b"
  shows "\<exists>s'. scope_remap s (swap_targets a b) = Ok s' \<and> from_scope d s' \<and> sc_columns s' = swapped a (sc_columns s)"
proof -
  let ?is = "map (\<lambda>j. (j + a) mod (a + b)) [0..<a + b]"
  let ?s = "fold add_column (map (\<lambda>i. sc_columns s ! i) ?is) (scope_spawn s)"
  have range: "(j + a) mod (a + b) < a + b" if "j < a + b" for j using that by (intro mod_less_divisor) linarith
  have idx: "i \<in> set ?is \<Longrightarrow> i < length (sc_columns s)" for i using range assms(2) by fastforce
  have inv: "invert_remap (swap_targets a b) = map Some ?is" by (simp add: swap_inverted comp_def)
  have "scope_remap s (swap_targets a b) = Ok ?s"
    unfolding scope_remap_def inv
    by (rule pass_through_plain) (use assms(1) in \<open>simp add: from_scope_def\<close>, use assms(1) in \<open>simp add: from_scope_def\<close>, rule idx)
  moreover have cols: "sc_columns ?s = swapped a (sc_columns s)"
    using assms(2) by (simp add: swapped_def comp_def)
  moreover have sub: "set (swapped a (sc_columns s)) \<subseteq> set (sc_columns s)"
    using range by (auto simp: swapped_def assms(2))
  moreover have "distinct (swapped a (sc_columns s))" if d
  proof -
    have "inj_on (\<lambda>j. (j + a) mod (a + b)) {..<a + b}"
      by (rule inj_on_inverseI [where g = "\<lambda>k. (k + b) mod (a + b)"]) (simp add: mod_add_left_eq add.assoc)
    moreover have "inj_on (\<lambda>i. sc_columns s ! i) {..<a + b}"
      using assms that by (auto simp: from_scope_def inj_on_def nth_eq_iff_index_eq)
    ultimately have "inj_on ((\<lambda>i. sc_columns s ! i) \<circ> (\<lambda>j. (j + a) mod (a + b))) {..<a + b}"
      using range by (intro comp_inj_on) (auto intro: inj_on_subset)
    then show ?thesis by (simp add: swapped_def assms(2) distinct_map comp_def atLeast0LessThan)
  qed
  moreover have "scope_ok ?s" "sc_tables ?s = sc_tables s" "sc_aggregates ?s = []" "sc_hidden ?s = {}"
    by (simp_all add: scope_spawn_def)
  ultimately have "from_scope d ?s" using from_scope_sub [OF assms(1)] by simp
  with \<open>scope_remap s (swap_targets a b) = Ok ?s\<close> cols show ?thesis by blast
qed

lemma described_length: "describes ls n \<Longrightarrow> length ls = columns n"
  by (simp add: describes_def)

lemma join_described:
  "describes ls l \<Longrightarrow> describes rs r \<Longrightarrow> describes (ls @ rs) (NestedLoopJoin l r predicate outer)"
  by (auto simp: describes_def nth_append)

lemma swap_described:
  assumes "describes ls n" "columns n = a + b"
  shows "describes (swapped a ls) (Remap n (swap_targets a b))"
proof -
  have "(i + a) mod (a + b) < a + b" if "i < a + b" for i using that by (intro mod_less_divisor) linarith
  with assms show ?thesis by (simp add: describes_def swapped_def swap_position)
qed

lemma join_nodes_from:
  assumes "join_nodes type predicate left right s = Ok (n, s')" "from_scope d s" "sc_columns s = ls @ rs"
    "describes ls left" "describes rs right" "node_ok left" "node_ok right"
  shows "from_scope d s' \<and> describes (sc_columns s') n \<and> node_ok n"
proof -
  obtain p where p: "build_optional s predicate = Ok p" using assms(1) by (auto simp: join_nodes_def rbind_eq_Ok)
  let ?join = "NestedLoopJoin left right p (is_outer type)"
  have len: "length (sc_columns s) = columns left + columns right" using assms(3-5) by (simp add: described_length)
  have "pred_option (refs_below (columns left + columns right)) p"
    using built_optional_in_range [OF _ p] assms(2) len by (simp add: from_scope_def)
  then have ok: "node_ok ?join" using assms(6,7) by simp
  have join: "describes (sc_columns s) ?join" unfolding assms(3) using assms(4,5) by (rule join_described)
  show ?thesis
  proof (cases "type = RightJoin")
    case True
    obtain s2 where s2: "scope_remap s (swap_targets (columns left) (columns right)) = Ok s2" "from_scope d s2"
      "sc_columns s2 = swapped (columns left) (sc_columns s)"
      using scope_remap_swap [OF assms(2) len] by blast
    then have "n = Remap ?join (swap_targets (columns left) (columns right))" "s' = s2"
      using assms(1) p True by (auto simp: join_nodes_def Let_def)
    with s2 ok swap_described [OF join] swap_inj show ?thesis by simp
  next
    case False
    then have "n = ?join" "s' = s" using assms(1) p by (auto simp: join_nodes_def Let_def)
    with ok join assms(2) show ?thesis by simp
  qed
qed

lemma build_from_ok:
  assumes "d \<longrightarrow> catalog_ok C" "build_from C item parent = Ok (n, s')" "from_scope d parent"
  shows "\<exists>ls. from_scope d s' \<and> sc_columns s' = sc_columns parent @ ls \<and> describes ls n \<and> node_ok n"
  using assms(2,3)
proof (induction item arbitrary: parent n s')
  case (FromTable name a)
  then obtain t s where t: "catalog_table C name = Ok t" "add_table t a scope_new = Ok s" "n = Scan t None a"
    "scope_merge s parent = Ok s'"
    by (auto simp: rbind_eq_Ok merge_into_def)
  have "d \<longrightarrow> distinct (map col_name (tbl_columns t))"
    using assms(1) t(1) by (auto simp: catalog_ok_def catalog_table_def rbind_eq_Ok split: option.splits)
  then have "from_scope d s" using add_table_from [OF t(2)] by blast
  then have "from_scope d s' \<and> sc_columns s' = sc_columns parent @ table_labels t a"
    using merge_from [OF _ FromTable(2) t(4)] add_table_new(1) [OF t(2)] by simp
  then show ?case using t(3) table_described by fastforce
next
  case (FromJoin l r type predicate)
  define x where "x = (if type = RightJoin then r else l)"
  define y where "y = (if type = RightJoin then l else r)"
  obtain left s1 right s2 s3 where j: "build_from C x scope_new = Ok (left, s1)" "build_from C y s1 = Ok (right, s2)"
    "join_nodes type predicate left right s2 = Ok (n, s3)" "scope_merge s3 parent = Ok s'"
    using FromJoin(3) by (auto simp: rbind_eq_Ok merge_into_def x_def y_def split: if_splits)
  obtain ls where 1: "from_scope d s1" "sc_columns s1 = ls" "describes ls left" "node_ok left"
    using FromJoin(1,2) j(1) by (fastforce simp: x_def split: if_splits)
  obtain rs where 2: "from_scope d s2" "sc_columns s2 = ls @ rs" "describes rs right" "node_ok right"
    using FromJoin(1,2) j(2) 1(1,2) by (fastforce simp: y_def split: if_splits)
  have "from_scope d s3 \<and> describes (sc_columns s3) n \<and> node_ok n"
    using join_nodes_from [OF j(3) 2(1,2) 1(3) 2(3) 1(4) 2(4)] .
  with merge_from [OF _ FromJoin(4) j(4)] show ?case by blast
qed

lemma build_from_rest_ok:
  assumes "d \<longrightarrow> catalog_ok C" "build_from_rest C items n s = Ok (n', s')" "from_scope d s" "describes (sc_columns s) n" "node_ok n"
  shows "from_scope d s' \<and> describes (sc_columns s') n' \<and> node_ok n'"
  using assms(2-)
proof (induction items arbitrary: n s)
  case (Cons item items)
  obtain right s1 where 1: "build_from C item s = Ok (right, s1)"
    "build_from_rest C items (NestedLoopJoin n right None False) s1 = Ok (n', s')"
    using Cons(2) by (auto simp: rbind_eq_Ok)
  obtain rs where "from_scope d s1" "sc_columns s1 = sc_columns s @ rs" "describes rs right" "node_ok right"
    using build_from_ok [OF assms(1) 1(1) Cons(3)] by blast
  with Cons(4,5) join_described [of "sc_columns s" n rs right] show ?case
    by (intro Cons(1) [OF 1(2)]) simp_all
qed simp

lemma build_from_clause_ok:
  assumes "d \<longrightarrow> catalog_ok C" "build_from_clause C items scope_new = Ok (n, s)"
  shows "from_scope d s \<and> describes (sc_columns s) n \<and> node_ok n"
proof (cases items)
  case (Cons item rest)
  then obtain n1 s1 where "build_from C item scope_new = Ok (n1, s1)" "build_from_rest C rest n1 s1 = Ok (n, s)"
    using assms(2) by (auto simp: rbind_eq_Ok)
  with build_from_ok [OF assms(1), of item scope_new n1 s1] build_from_rest_ok [OF assms(1)]
  show ?thesis by fastforce
qed (use assms in simp)

section \<open>SELECT\<close>

text \<open>The scope has the columns of the node.\<close>

definition fits :: "scope \<Rightarrow> plan_node \<Rightarrow> bool" where
  "fits s n = (scope_ok s \<and> length (sc_columns s) = columns n \<and> node_ok n)"

lemma fits_in_range: "fits s n \<Longrightarrow> build_expression s e = Ok e' \<Longrightarrow> refs_below (columns n) e'"
  using built_in_range [of s e e'] by (simp add: fits_def)

lemma map_list_result_set: "map_list_result f xs = Ok ys \<Longrightarrow> y \<in> set ys \<Longrightarrow> \<exists>x\<in>set xs. f x = Ok y"
  by (induction xs arbitrary: ys) (auto simp: rbind_eq_Ok)

lemma map_list_result_length: "map_list_result f xs = Ok ys \<Longrightarrow> length ys = length xs"
  by (induction xs arbitrary: ys) (auto simp: rbind_eq_Ok)

lemma map_list_result_Panic: "map_list_result f xs = Panic p \<Longrightarrow> \<exists>x\<in>set xs. f x = Panic p"
  by (induction xs) (auto simp: rbind_Panic)

subsection \<open>Subexpressions\<close>

lemma collected_nodes: "set (ast_collect v e) \<subseteq> {x \<in> set (ast_nodes e). v x}"
  by (induction e rule: ast_nodes.induct) (auto; blast)+

lemma ast_nodes_trans: "x \<in> set (ast_nodes e) \<Longrightarrow> set (ast_nodes x) \<subseteq> set (ast_nodes e)"
  by (induction e rule: ast_nodes.induct) (auto; blast)+

lemma printable_node: "printable e \<Longrightarrow> x \<in> set (ast_nodes e) \<Longrightarrow> printable x"
  using ast_nodes_trans by (fastforce simp: printable_def list_all_iff)

definition query_expressions :: "(ast_expr \<times> string option) list \<Rightarrow> select_statement \<Rightarrow> ast_expr set" where
  "query_expressions select q = fst ` set select \<union> set_option (sel_having q) \<union> fst ` set (sel_order_by q)"

lemma collected_aggregates:
  "a \<in> set (collect_aggregates select (sel_having q) (sel_order_by q)) \<Longrightarrow>
   is_aggregate_function a \<and> (\<exists>e\<in>query_expressions select q. a \<in> set (ast_nodes e))"
  using collected_nodes
  by (auto simp: collect_aggregates_def query_expressions_def split: option.splits; fastforce)

subsection \<open>Steps\<close>

lemma from_step_fits: "from_step C q = Ok (n, s) \<Longrightarrow> fits s n"
proof (cases "sel_from q = []")
  case False
  assume "from_step C q = Ok (n, s)"
  with False have "build_from_clause C (sel_from q) scope_new = Ok (n, s)" by (simp add: from_step_def)
  then have "from_scope False s \<and> describes (sc_columns s) n \<and> node_ok n"
    by (intro build_from_clause_ok) simp
  then show ?thesis by (simp add: fits_def from_scope_def described_length)
qed (auto simp: from_step_def fits_def)

lemma where_step_fits: "fits s n \<Longrightarrow> where_step q n s = Ok n' \<Longrightarrow> fits s n'"
  using fits_in_range by (auto simp: where_step_def fits_def rbind_eq_Ok split: option.splits)

lemma having_step_fits: "fits s n \<Longrightarrow> having_step q n s = Ok n' \<Longrightarrow> fits s n'"
  using fits_in_range by (auto simp: having_step_def fits_def rbind_eq_Ok split: option.splits if_splits)

lemma order_step_fits:
  assumes "fits s n" "order_step q n s = Ok n'"
  shows "fits s n'"
proof (cases "sel_order_by q = []")
  case False
  then obtain key where key: "map_list_result (\<lambda>(e, dir). rbind (build_expression s e) (\<lambda>e. Ok (e, dir))) (sel_order_by q) = Ok key"
    "n' = Order n key"
    using assms(2) by (auto simp: order_step_def rbind_eq_Ok)
  have "refs_below (columns n) e" if "(e, dir) \<in> set key" for e dir
    using map_list_result_set [OF key(1) that] fits_in_range [OF assms(1)] by (auto simp: rbind_eq_Ok)
  with key(2) assms(1) show ?thesis by (auto simp: fits_def)
qed (use assms in \<open>simp add: order_step_def\<close>)

lemma offset_step_fits: "fits s n \<Longrightarrow> offset_step F q n = Ok n' \<Longrightarrow> fits s n'"
  by (auto simp: offset_step_def fits_def rbind_eq_Ok split: option.splits)

lemma limit_step_fits: "fits s n \<Longrightarrow> limit_step F q n = Ok n' \<Longrightarrow> fits s n'"
  by (auto simp: limit_step_def fits_def rbind_eq_Ok split: option.splits)

lemma built_aggregate_in_range:
  assumes "fits s n" "build_aggregate_function s e = Ok a"
  shows "refs_below (columns n) (aggregate_expr a)"
proof -
  have "refs_below (columns n) (Constant v)" for v by (simp add: refs_below_def)
  with assms show ?thesis using fits_in_range [OF assms(1)]
    by (auto simp: build_aggregate_function_def rbind_eq_Ok split: ast_expr.splits list.splits if_splits)
qed

lemma build_aggregate_fits:
  assumes "fits s n" "build_aggregate n gs as s = Ok (n', s')"
  shows "fits s' n'"
proof -
  obtain gs' s1 as' s2 g a where b: "add_aggregates s gs (scope_spawn s) = Ok (gs', s1)" "add_aggregates s as s1 = Ok (as', s2)"
    "map_list_result (build_expression s) gs' = Ok g" "map_list_result (build_aggregate_function s) as' = Ok a"
    "n' = Aggregate n g a" "s' = s2"
    using assms(2) by (auto simp: build_aggregate_def rbind_eq_Ok)
  have ok: "scope_ok s" using assms(1) by (simp add: fits_def)
  have 1: "scope_ok s1" "length (sc_columns s1) = length gs'"
    using add_aggregates_grows [OF ok, of "scope_spawn s" gs] b(1) by auto
  have 2: "scope_ok s2" "length (sc_columns s2) = length gs' + length as'"
    using add_aggregates_grows [OF ok 1(1), of as] b(2) 1(2) by auto
  have "\<forall>e\<in>set g. refs_below (columns n) e"
    using map_list_result_set [OF b(3)] fits_in_range [OF assms(1)] by blast
  moreover have "\<forall>e\<in>set a. refs_below (columns n) (aggregate_expr e)"
    using map_list_result_set [OF b(4)] built_aggregate_in_range [OF assms(1)] by blast
  ultimately show ?thesis
    using 2 assms(1) b(5,6) map_list_result_length [OF b(3)] map_list_result_length [OF b(4)] by (simp add: fits_def)
qed

lemma aggregate_step_fits: "fits s n \<Longrightarrow> aggregate_step q select n s = Ok (n', s') \<Longrightarrow> fits s' n'"
  using build_aggregate_fits by (auto simp: aggregate_step_def Let_def split: if_splits)

subsection \<open>Hidden columns\<close>

definition keeps :: "('s \<Rightarrow> bool) \<Rightarrow> (ast_expr \<Rightarrow> 's \<Rightarrow> bool \<times> 's) \<Rightarrow> bool" where
  "keeps Q v = (\<forall>e st. Q st \<longrightarrow> Q (snd (v e st)))"

lemma visit_keepsD: "keeps Q v \<Longrightarrow> Q st \<Longrightarrow> v e st = (b, st') \<Longrightarrow> Q st'"
  unfolding keeps_def by (metis snd_conv)

lemma walks_keep:
  "keeps Q v \<Longrightarrow> Q st \<Longrightarrow> Q (snd (walk_state v e st))"
  "keeps Q v \<Longrightarrow> Q st \<Longrightarrow> Q (snd (walk_every v es st))"
  "keeps Q v \<Longrightarrow> Q st \<Longrightarrow> Q (snd (walk_some v es st))"
proof (induction v e st and v es st and v es st rule: walk_state_walk_every_walk_some.induct)
  case (1 v e s)
  obtain b s' where v: "v e s = (b, s')" by (cases "v e s")
  then have "Q s'" using 1 by (blast dest: visit_keepsD)
  with v 1 show ?case by (cases b; cases e) auto
qed (auto split: prod.split bool.split)

lemma walk_state_keeps:
  assumes "\<And>e st. Q st \<Longrightarrow> Q (snd (v e st))"
  shows "Q st \<Longrightarrow> Q (snd (walk_state v e st))"
  by (rule walks_keep) (use assms in \<open>auto simp: keeps_def\<close>)

text \<open>Each hidden expression is a column of the parent scope, and each has a column in the child scope.\<close>

definition hidden_ok :: "scope \<Rightarrow> nat \<Rightarrow> hidden_state \<Rightarrow> bool" where
  "hidden_ok s k st = (\<exists>child hidden. st = Ok (child, hidden) \<and> scope_ok child \<and>
     length (sc_columns child) = k + length hidden \<and> (\<forall>e\<in>set hidden. refs_below (length (sc_columns s)) e))"

lemma hide_column_ok:
  assumes "hidden_ok s k (Ok (child, hidden))" "i < length (sc_columns s)"
  shows "hidden_ok s k (hide_column s i child hidden)"
proof -
  have child: "scope_ok child" using assms(1) by (simp add: hidden_ok_def)
  obtain c where "add_passthrough s i True child = Ok c" "scope_ok c" "sc_columns c = sc_columns child @ [sc_columns s ! i]"
    using add_passthrough_grows [OF child assms(2), of True] by (auto simp: grows_def)
  with assms show ?thesis by (auto simp: hidden_ok_def hide_column_def refs_below_def)
qed

lemma visit_hidden_ok:
  assumes "scope_ok s" "hidden_ok s k st"
  shows "hidden_ok s k (snd (visit_hidden s e st))"
proof -
  obtain child hidden where st: "st = Ok (child, hidden)" "scope_ok child" using assms(2) by (auto simp: hidden_ok_def)
  note hide = hide_column_ok [OF assms(2) [unfolded st(1)]]
  show ?thesis
    using assms st hide lookup_aggregate_in_range lookup_in_range [OF assms(1)] lookup_no_panic
    by (auto simp: visit_hidden_def split: option.split ast_expr.split result.split)
qed

lemma select_hidden_ok:
  assumes "scope_ok s" "scope_ok child"
  shows "hidden_ok s (length (sc_columns child)) (build_select_hidden having order_by s child)"
proof -
  let ?k = "length (sc_columns child)"
  have "hidden_ok s ?k (walk_hidden s es st)" if "hidden_ok s ?k st" for es st
    using that
  proof (induction es arbitrary: st)
    case (Cons e es)
    have "hidden_ok s ?k (snd (walk_state (visit_hidden s) e st))"
      by (rule walk_state_keeps [where Q = "hidden_ok s ?k"]) (rule visit_hidden_ok [OF assms(1)], use Cons in auto)
    then show ?case by (simp add: Cons.IH)
  qed simp
  moreover have "hidden_ok s ?k (Ok (child, []))" using assms(2) by (simp add: hidden_ok_def)
  ultimately show ?thesis by (simp add: build_select_hidden_def)
qed

lemma project_step_fits:
  assumes "fits s n" "project_step q select n s = Ok (n', s')"
  shows "fits s' n'"
proof (cases "select = [(AstAll, None)]")
  case False
  have ok: "scope_ok s" using assms(1) by (simp add: fits_def)
  obtain child es child' hidden where p: "scope_project s select = Ok child"
    "map_list_result (build_expression s) (map fst select) = Ok es"
    "build_select_hidden (sel_having q) (sel_order_by q) s child = Ok (child', hidden)"
    "n' = Projection n (es @ hidden) (map (alias_label \<circ> snd) select @ replicate (length hidden) NoLabel)" "s' = child'"
    using assms(2) False by (auto simp: project_step_def rbind_eq_Ok)
  have child: "scope_ok child" "length (sc_columns child) = length select"
    using project_all_grows [OF ok, of "scope_spawn s" select] p(1) by (auto simp: scope_project_def grows_def)
  have hidden: "scope_ok child'" "length (sc_columns child') = length select + length hidden"
    "\<forall>e\<in>set hidden. refs_below (columns n) e"
    using select_hidden_ok [OF ok child(1), of "sel_having q" "sel_order_by q"] p(3) child(2) assms(1)
    by (auto simp: hidden_ok_def fits_def)
  have "\<forall>e\<in>set es. refs_below (columns n) e"
    using map_list_result_set [OF p(2)] fits_in_range [OF assms(1)] by blast
  with p(4,5) hidden map_list_result_length [OF p(2)] assms(1) show ?thesis by (auto simp: fits_def)
qed (use assms in \<open>simp add: project_step_def\<close>)

lemma visible_targets_bounds:
  "length (visible_targets h old index n) = n \<and> (Some j \<in> set (visible_targets h old index n) \<longrightarrow> index \<le> j)"
  by (induction n arbitrary: old index) (auto dest!: Suc_leD)

lemma visible_targets_inj: "inj_targets (visible_targets h old index n)"
proof (induction n arbitrary: old index)
  case (Suc n)
  have "index \<notin> set (List.map_filter id (visible_targets h (Suc old) (Suc index) n))"
  proof
    assume "index \<in> set (List.map_filter id (visible_targets h (Suc old) (Suc index) n))"
    then have "Some index \<in> set (visible_targets h (Suc old) (Suc index) n)" by (auto simp: map_filter_def)
    then show False using visible_targets_bounds [of h "Suc old" "Suc index" n index] by simp
  qed
  with Suc show ?case by (simp add: inj_targets_def map_filter_simps)
qed (simp add: inj_targets_def map_filter_simps)

lemma hidden_step_ok: "fits s n \<Longrightarrow> node_ok (hidden_step n s)"
  by (auto simp: hidden_step_def remap_hidden_def remove_hidden_def Let_def fits_def visible_targets_inj
      conjunct1 [OF visible_targets_bounds] split: option.splits if_splits)

lemma rbindE: "rbind m f = Ok y \<Longrightarrow> (\<And>x. m = Ok x \<Longrightarrow> f x = Ok y \<Longrightarrow> P) \<Longrightarrow> P"
  by (auto simp: rbind_eq_Ok)

lemma rbind_pairE: "rbind m (\<lambda>(a, b). f a b) = Ok y \<Longrightarrow> (\<And>a b. m = Ok (a, b) \<Longrightarrow> f a b = Ok y \<Longrightarrow> P) \<Longrightarrow> P"
  by (auto simp: rbind_eq_Ok)

lemma build_select_steps:
  "build_select F C q = Ok p \<Longrightarrow> \<exists>n0 s0 select n1 n2 s2 n3 s3 n4 n5 n6 n7.
     from_step C q = Ok (n0, s0) \<and> expand_star n0 (sel_group_by q) (sel_select q) = Ok select \<and>
     where_step q n0 s0 = Ok n1 \<and> aggregate_step q select n1 s0 = Ok (n2, s2) \<and> project_step q select n2 s2 = Ok (n3, s3) \<and>
     having_step q n3 s3 = Ok n4 \<and> order_step q n4 s3 = Ok n5 \<and> offset_step F q n5 = Ok n6 \<and> limit_step F q n6 = Ok n7 \<and>
     p = Select (hidden_step n7 s3)"
  unfolding build_select_def
  by (erule rbind_pairE, erule rbindE, erule rbindE, erule rbind_pairE, erule rbind_pairE, erule rbindE,
      erule rbindE, erule rbindE, erule rbindE) (intro exI conjI, assumption+, simp)

lemma build_select_ok:
  assumes "build_select F C q = Ok p"
  shows "\<exists>n. p = Select n \<and> node_ok n"
proof -
  obtain n0 s0 select n1 n2 s2 n3 s3 n4 n5 n6 n7 where "from_step C q = Ok (n0, s0) \<and>
     expand_star n0 (sel_group_by q) (sel_select q) = Ok select \<and>
     where_step q n0 s0 = Ok n1 \<and> aggregate_step q select n1 s0 = Ok (n2, s2) \<and> project_step q select n2 s2 = Ok (n3, s3) \<and>
     having_step q n3 s3 = Ok n4 \<and> order_step q n4 s3 = Ok n5 \<and> offset_step F q n5 = Ok n6 \<and> limit_step F q n6 = Ok n7 \<and>
     p = Select (hidden_step n7 s3)"
    using build_select_steps [OF assms] by (elim exE) (rule that)
  then have steps: "from_step C q = Ok (n0, s0)"
    "where_step q n0 s0 = Ok n1" "aggregate_step q select n1 s0 = Ok (n2, s2)" "project_step q select n2 s2 = Ok (n3, s3)"
    "having_step q n3 s3 = Ok n4" "order_step q n4 s3 = Ok n5" "offset_step F q n5 = Ok n6" "limit_step F q n6 = Ok n7"
    "p = Select (hidden_step n7 s3)" by simp_all
  note project = project_step_fits [OF aggregate_step_fits [OF where_step_fits [OF from_step_fits [OF steps(1)] steps(2)] steps(3)] steps(4)]
  have "fits s3 n7"
    by (rule limit_step_fits [OF offset_step_fits [OF order_step_fits [OF having_step_fits [OF project steps(5)] steps(6)] steps(7)] steps(8)])
  with steps(9) show ?thesis by (simp add: hidden_step_ok)
qed

section \<open>Plans of the other statements\<close>

primrec plan_ok :: "plan \<Rightarrow> bool" where
  "plan_ok (CreateTable t) = (tbl_primary_key t < length (tbl_columns t))"
| "plan_ok (DropTable name if_exists) = True"
| "plan_ok (Delete t primary_key source) = (node_ok source \<and> primary_key < columns source)"
| "plan_ok (Insert t m source) =
     ((\<exists>rows. source = Values rows \<and> (\<forall>row\<in>set rows. \<forall>e\<in>set row. refs_below 0 e)) \<and>
      (\<forall>m'. m = Some m' \<longrightarrow> distinct (map fst m') \<and> (\<forall>(c, v)\<in>set m'. c < length (tbl_columns t))))"
| "plan_ok (Update t primary_key source exprs) =
     (node_ok source \<and> primary_key < columns source \<and>
      (\<forall>(i, e)\<in>set exprs. i < columns source \<and> refs_below (columns source) e))"
| "plan_ok (Select source) = node_ok source"

definition keyed_catalog :: "catalog \<Rightarrow> bool" where
  "keyed_catalog C = (\<forall>name t. C name = Ok (Some t) \<longrightarrow> tbl_primary_key t < length (tbl_columns t))"

lemma catalog_table_keyed: "keyed_catalog C \<Longrightarrow> catalog_table C name = Ok t \<Longrightarrow> tbl_primary_key t < length (tbl_columns t)"
  by (auto simp: catalog_table_def keyed_catalog_def rbind_eq_Ok split: option.splits)

lemma from_table_Ok: "from_table t = Ok s \<Longrightarrow> scope_ok s \<and> length (sc_columns s) = length (tbl_columns t)"
  using add_table_new [of t None s] by (simp add: from_table_def table_labels_def)

lemma build_create_table_ok:
  assumes "build_create_table F name cs = Ok p"
  shows "plan_ok p"
proof -
  obtain k cs' where "position acol_primary_key cs = Some k" "map_list_result (build_column F) cs = Ok cs'"
    "p = CreateTable \<lparr>tbl_name = name, tbl_primary_key = k, tbl_columns = cs'\<rparr>"
    using assms by (auto simp: build_create_table_def rbind_eq_Ok split: option.splits if_splits)
  then show ?thesis using position_Some map_list_result_length by fastforce
qed

lemma build_delete_ok: "keyed_catalog C \<Longrightarrow> build_delete C table w = Ok p \<Longrightarrow> plan_ok p"
  using built_optional_in_range from_table_Ok by (fastforce simp: build_delete_def rbind_eq_Ok catalog_table_keyed)

lemma build_column_map_ok:
  assumes "build_column_map t k names m = Ok m'" "distinct (map fst m)" "\<forall>(c, v)\<in>set m. c < length (tbl_columns t)"
  shows "distinct (map fst m') \<and> (\<forall>(c, v)\<in>set m'. c < length (tbl_columns t))"
  using assms
proof (induction names arbitrary: k m)
  case (Cons name names)
  obtain c where c: "position (\<lambda>c. col_name c = name) (tbl_columns t) = Some c" "map_of m c = None"
    "build_column_map t (Suc k) names ((c, k) # m) = Ok m'"
    using Cons(2) by (auto split: option.splits if_splits)
  have "c \<notin> fst ` set m" using c(2) by (simp add: map_of_eq_None_iff)
  with Cons.IH [OF c(3)] Cons(3,4) position_Some [OF c(1)] show ?case by simp
qed simp

lemma build_insert_ok:
  assumes "build_insert C table names rows = Ok p"
  shows "plan_ok p"
proof -
  obtain t m rows' where i: "(case names of Some names \<Rightarrow> rbind (build_column_map t 0 names []) (\<lambda>m. Ok (Some m)) | None \<Rightarrow> Ok None) = Ok m"
    "map_list_result (map_list_result (build_expression scope_new)) rows = Ok rows'" "p = Insert t m (Values rows')"
    using assms by (auto simp: build_insert_def rbind_eq_Ok)
  have "refs_below 0 e" if "row \<in> set rows'" "e \<in> set row" for row e
    using map_list_result_set [OF i(2) that(1)] map_list_result_set that(2) constant_built by (fastforce simp: refs_below_def)
  with i(1,3) build_column_map_ok [of t 0 _ "[]"] show ?thesis by (fastforce simp: rbind_eq_Ok split: option.splits)
qed

lemma build_update_ok:
  assumes "keyed_catalog C" "build_update C table updates w = Ok p"
  shows "plan_ok p"
proof -
  obtain t s w' exprs where u: "catalog_table C table = Ok t" "from_table t = Ok s" "build_optional s w = Ok w'"
    "map_list_result (build_assignment t s) updates = Ok exprs" "p = Update t (tbl_primary_key t) (Scan t w' None) exprs"
    using assms(2) by (auto simp: build_update_def rbind_eq_Ok)
  have s: "scope_ok s" "length (sc_columns s) = length (tbl_columns t)" using from_table_Ok [OF u(2)] by auto
  have "i < length (tbl_columns t) \<and> refs_below (length (tbl_columns t)) e" if "(i, e) \<in> set exprs" for i e
  proof -
    from map_list_result_set [OF u(4) \<open>(i, e) \<in> set exprs\<close>] obtain x where "build_assignment t s x = Ok (i, e)" by blast
    with s lookup_in_range [OF s(1)] built_in_range [OF s(1)] show ?thesis
      by (auto simp: build_assignment_def rbind_eq_Ok refs_below_def split: option.splits) blast
  qed
  with u(5) s built_optional_in_range [OF s(1) u(3)] catalog_table_keyed [OF assms(1) u(1)] show ?thesis by auto
qed

section \<open>Panics\<close>

lemma build_optional_no_panic: "scope_ok s \<Longrightarrow> pred_option printable e \<Longrightarrow> build_optional s e \<noteq> Panic p"
  by (cases e) (auto simp: build_optional_def rbind_Panic built_no_panic)

lemma catalog_table_Panic: "catalog_table C name = Panic p \<Longrightarrow> C name = Panic p"
  by (auto simp: catalog_table_def rbind_Panic split: option.splits)

lemma add_table_no_panic: "add_table t a s \<noteq> Panic p"
  by (simp add: add_table_def Let_def)

lemma merge_into_no_panic: "merge_into parent x \<noteq> Panic p"
  by (simp add: merge_into_def scope_merge_def rbind_Panic Let_def)

lemma build_from_Panic:
  "build_from C item parent = Panic p \<Longrightarrow> from_scope False parent \<Longrightarrow> from_printable item \<Longrightarrow> \<exists>name. C name = Panic p"
proof (induction item arbitrary: parent)
  case (FromTable name a)
  then show ?case by (auto simp: rbind_Panic add_table_no_panic merge_into_no_panic dest: catalog_table_Panic)
next
  case (FromJoin l r type predicate)
  define x where "x = (if type = RightJoin then r else l)"
  define y where "y = (if type = RightJoin then l else r)"
  have IH: "\<exists>name. C name = Panic p" if "build_from C z s = Panic p" "from_scope False s" "z = x \<or> z = y" for z s
    using FromJoin(1,2) [of s] FromJoin(5) that by (auto simp: x_def y_def split: if_splits)
  have "rbind (build_from C x scope_new) (\<lambda>(left, s). rbind (build_from C y s) (\<lambda>(right, s).
      join_nodes type predicate left right s)) = Panic p"
    using FromJoin(3) by (auto simp: rbind_Panic merge_into_no_panic x_def y_def split: if_splits)
  then consider "build_from C x scope_new = Panic p"
    | left s1 where "build_from C x scope_new = Ok (left, s1)" "build_from C y s1 = Panic p"
    | left s1 right s2 where "build_from C x scope_new = Ok (left, s1)" "build_from C y s1 = Ok (right, s2)"
        "join_nodes type predicate left right s2 = Panic p"
    by (auto simp: rbind_Panic)
  then show ?case
  proof cases
    case 1
    then show ?thesis by (rule IH) simp_all
  next
    case 2
    from build_from_ok [OF _ 2(1), of False] have "from_scope False s1" by auto
    with 2(2) show ?thesis by (rule IH) simp
  next
    case 3
    obtain ls where 1: "from_scope False s1" "sc_columns s1 = ls" "describes ls left"
      using build_from_ok [OF _ 3(1), of False] by auto
    obtain rs where 2: "from_scope False s2" "sc_columns s2 = ls @ rs" "describes rs right"
      using build_from_ok [OF _ 3(2) 1(1)] 1(2) by auto
    have "length (sc_columns s2) = columns left + columns right" using 1 2 by (simp add: described_length)
    from scope_remap_swap [OF 2(1) this] have "scope_remap s2 (swap_targets (columns left) (columns right)) \<noteq> Panic p" by auto
    moreover have "build_optional s2 predicate \<noteq> Panic p"
      using 2(1) FromJoin(5) by (intro build_optional_no_panic) (auto simp: from_scope_def)
    ultimately show ?thesis using 3(3) by (auto simp: join_nodes_def rbind_Panic Let_def split: if_splits)
  qed
qed

lemma build_from_rest_Panic:
  "build_from_rest C items n s = Panic p \<Longrightarrow> from_scope False s \<Longrightarrow> list_all from_printable items \<Longrightarrow> \<exists>name. C name = Panic p"
proof (induction items arbitrary: n s)
  case (Cons item items)
  consider "build_from C item s = Panic p"
    | right s1 where "build_from C item s = Ok (right, s1)"
        "build_from_rest C items (NestedLoopJoin n right None False) s1 = Panic p"
    using Cons.prems(1) by (auto simp: rbind_Panic)
  then show ?case
  proof cases
    case 1
    from build_from_Panic [OF this] Cons.prems show ?thesis by simp
  next
    case 2
    obtain ls where "from_scope False s1" using build_from_ok [OF _ 2(1) Cons.prems(2)] by auto
    with Cons.IH 2(2) Cons.prems show ?thesis by simp
  qed
qed simp

lemma from_step_Panic:
  assumes "from_step C q = Panic p" "list_all from_printable (sel_from q)"
  shows "\<exists>name. C name = Panic p"
proof (cases "sel_from q")
  case (Cons item items)
  then consider "build_from C item scope_new = Panic p"
    | n s where "build_from C item scope_new = Ok (n, s)" "build_from_rest C items n s = Panic p"
    using assms(1) by (auto simp: from_step_def rbind_Panic)
  then show ?thesis
  proof cases
    case 1
    from build_from_Panic [OF this] assms(2) Cons show ?thesis by simp
  next
    case 2
    have "from_scope False s" using build_from_ok [OF _ 2(1), of False] by auto
    from build_from_rest_Panic [OF 2(2) this] assms(2) Cons show ?thesis by simp
  qed
qed (use assms in \<open>simp add: from_step_def\<close>)

lemma from_step_labels:
  assumes "from_step C q = Ok (n, s)" "i < columns n"
  shows "\<exists>t c. column_label n i = Ok (Qualified t c)"
proof (cases "sel_from q = []")
  case False
  with assms(1) have "build_from_clause C (sel_from q) scope_new = Ok (n, s)" by (simp add: from_step_def)
  then have "from_scope False s \<and> describes (sc_columns s) n \<and> node_ok n" by (intro build_from_clause_ok) simp
  with assms(2) show ?thesis by (auto simp: from_scope_def describes_def dest: nth_mem)
qed (use assms in \<open>auto simp: from_step_def\<close>)

lemma all_columns_Ok:
  assumes "from_step C q = Ok (n, s)"
  shows "\<exists>xs. all_columns n = Ok xs \<and> (\<forall>x\<in>set xs. printable (fst x))"
proof -
  have "\<exists>e. rbind (column_label n i) (\<lambda>l. rbind (label_expression l) (\<lambda>e. Ok (e, None :: string option))) = Ok (e, None) \<and> printable e"
    if "i < columns n" for i
    using from_step_labels [OF assms that] by auto
  then obtain g where "\<forall>i < columns n. rbind (column_label n i) (\<lambda>l. rbind (label_expression l) (\<lambda>e. Ok (e, None :: string option))) =
      Ok (g i, None) \<and> printable (g i)"
    by metis
  then have "all_columns n = Ok (map (\<lambda>i. (g i, None)) [0..<columns n])"
    unfolding all_columns_def by (intro map_list_result_Ok) simp
  with \<open>\<forall>i < columns n. _ \<and> printable (g i)\<close> show ?thesis by auto
qed

lemma expand_star_Ok:
  assumes "from_step C q = Ok (n, s)" "list_all (\<lambda>(e, a). printable e) xs"
  shows "expand_star n gs xs \<noteq> Panic p \<and> (\<forall>ys. expand_star n gs xs = Ok ys \<longrightarrow> (\<forall>y\<in>set ys. printable (fst y)))"
proof -
  obtain cs where cs: "all_columns n = Ok cs" "\<forall>x\<in>set cs. printable (fst x)" using all_columns_Ok [OF assms(1)] by blast
  have "\<exists>ys. expand_select n xs = Ok ys \<and> (\<forall>y\<in>set ys. printable (fst y))" if "list_all (\<lambda>(e, a). printable e) xs" for xs
    using that by (induction xs) (use cs in auto)
  from this [OF assms(2)] obtain zs where "expand_select n xs = Ok zs" "\<forall>y\<in>set zs. printable (fst y)" by blast
  with assms(2) show ?thesis by (auto simp: expand_star_def list_all_iff)
qed

lemma map_built_no_panic:
  "scope_ok s \<Longrightarrow> \<forall>e\<in>set es. printable e \<Longrightarrow> map_list_result (build_expression s) es \<noteq> Panic p"
  using map_list_result_Panic [of "build_expression s" es p] built_no_panic by blast

lemma built_aggregate_no_panic:
  assumes "scope_ok s" "is_aggregate_function e" "printable e"
  shows "build_aggregate_function s e \<noteq> Panic p"
proof (cases e)
  case (AstFunction name args)
  with assms(3) have "\<forall>a\<in>set args. build_expression s a \<noteq> Panic p"
    using built_no_panic [OF assms(1)] by (auto simp: list_all_iff)
  with AstFunction show ?thesis by (auto simp: build_aggregate_function_def rbind_Panic split: list.splits if_splits)
qed (use assms in \<open>simp_all add: is_aggregate_function_def\<close>)

lemma build_aggregate_no_panic:
  assumes "scope_ok s" "\<forall>e\<in>set gs. printable e" "\<forall>e\<in>set as. printable e \<and> is_aggregate_function e"
  shows "build_aggregate n gs as s \<noteq> Panic p"
proof -
  obtain gs' s1 where 1: "add_aggregates s gs (scope_spawn s) = Ok (gs', s1)" "scope_ok s1" "set gs' \<subseteq> set gs"
    using add_aggregates_grows [OF assms(1), of "scope_spawn s" gs] by auto
  obtain as' s2 where 2: "add_aggregates s as s1 = Ok (as', s2)" "set as' \<subseteq> set as"
    using add_aggregates_grows [OF assms(1) 1(2), of as] by auto
  have "map_list_result (build_expression s) gs' \<noteq> Panic p"
    using map_built_no_panic [OF assms(1)] assms(2) 1(3) by blast
  moreover have "map_list_result (build_aggregate_function s) as' \<noteq> Panic p"
    using map_list_result_Panic [of "build_aggregate_function s" as' p] built_aggregate_no_panic [OF assms(1)] assms(3) 2(2)
    by blast
  ultimately show ?thesis using 1(1) 2(1) by (simp add: build_aggregate_def rbind_Panic)
qed

lemma where_step_no_panic: "scope_ok s \<Longrightarrow> pred_option printable (sel_where q) \<Longrightarrow> where_step q n s \<noteq> Panic p"
  by (auto simp: where_step_def rbind_Panic built_no_panic split: option.split)

lemma having_step_no_panic: "scope_ok s \<Longrightarrow> pred_option printable (sel_having q) \<Longrightarrow> having_step q n s \<noteq> Panic p"
  by (auto simp: having_step_def rbind_Panic built_no_panic split: option.split)

lemma order_step_no_panic:
  assumes "scope_ok s" "list_all (\<lambda>(e, d). printable e) (sel_order_by q)"
  shows "order_step q n s \<noteq> Panic p"
proof -
  have "map_list_result (\<lambda>(e, dir). rbind (build_expression s e) (\<lambda>e. Ok (e, dir))) (sel_order_by q) \<noteq> Panic p"
    using assms built_no_panic [OF assms(1)] by (auto simp: list_all_iff rbind_Panic dest!: map_list_result_Panic)
  then show ?thesis by (simp add: order_step_def rbind_Panic)
qed

lemma aggregate_step_no_panic:
  assumes "scope_ok s" "select_printable q" "\<forall>x\<in>set select. printable (fst x)"
  shows "aggregate_step q select n s \<noteq> Panic p"
proof -
  have q: "pred_option printable (sel_having q)" "\<forall>x\<in>set (sel_order_by q). printable (fst x)" "\<forall>e\<in>set (sel_group_by q). printable e"
    using assms(2) by (auto simp: select_printable_def list_all_iff)
  then have "\<forall>e\<in>query_expressions select q. printable e"
    using assms(3) by (auto simp: query_expressions_def split: option.splits)
  then have "\<forall>a\<in>set (collect_aggregates select (sel_having q) (sel_order_by q)). printable a \<and> is_aggregate_function a"
    using collected_aggregates printable_node by blast
  with q(3) show ?thesis by (auto simp: aggregate_step_def Let_def build_aggregate_no_panic assms(1))
qed

lemma project_step_no_panic:
  assumes "scope_ok s" "\<forall>x\<in>set select. printable (fst x)"
  shows "project_step q select n s \<noteq> Panic p"
proof -
  obtain child where child: "scope_project s select = Ok child" "scope_ok child"
    using project_all_grows [OF assms(1), of "scope_spawn s" select] by (auto simp: scope_project_def grows_def)
  obtain c h where "build_select_hidden (sel_having q) (sel_order_by q) s child = Ok (c, h)"
    using select_hidden_ok [OF assms(1) child(2)] unfolding hidden_ok_def by blast
  moreover have "map_list_result (build_expression s) (map fst select) \<noteq> Panic p"
    using map_built_no_panic [OF assms(1)] assms(2) by simp
  ultimately show ?thesis using child(1) by (simp add: project_step_def rbind_Panic)
qed

text \<open>The expressions of a statement that are evaluated while it is planned.\<close>

fun statement_constants :: "statement \<Rightarrow> ast_expr set" where
  "statement_constants (StCreateTable name cs) = \<Union> (set_option ` acol_default ` set cs)"
| "statement_constants (StSelect q) = set_option (sel_offset q) \<union> set_option (sel_limit q)"
| "statement_constants _ = {}"

lemma build_count_Panic: "build_count F msg e = Panic p \<Longrightarrow> build_constant_value F e = Panic p"
  by (cases "build_constant_value F e") (auto simp: build_count_def split: sql_value.splits if_splits)

lemma count_steps_Panic:
  "offset_step F q n = Panic p \<Longrightarrow> \<exists>e\<in>statement_constants (StSelect q). build_constant_value F e = Panic p"
  "limit_step F q n = Panic p \<Longrightarrow> \<exists>e\<in>statement_constants (StSelect q). build_constant_value F e = Panic p"
  by (auto simp: offset_step_def limit_step_def rbind_Panic split: option.splits dest: build_count_Panic)

lemma build_select_Panic:
  assumes "build_select F C q = Panic p" "select_printable q"
  shows "(\<exists>name. C name = Panic p) \<or> (\<exists>e\<in>statement_constants (StSelect q). build_constant_value F e = Panic p)"
proof (rule ccontr)
  assume no: "\<not> ?thesis"
  have q: "list_all from_printable (sel_from q)" "list_all (\<lambda>(e, a). printable e) (sel_select q)"
    "pred_option printable (sel_where q)" "pred_option printable (sel_having q)" "list_all (\<lambda>(e, d). printable e) (sel_order_by q)"
    using assms(2) by (auto simp: select_printable_def list_all_iff)
  have 1: "from_step C q \<noteq> Panic p" using from_step_Panic q(1) no by blast
  have 2: "expand_star n (sel_group_by q) (sel_select q) \<noteq> Panic p" if "from_step C q = Ok (n, s)" for n s
    using expand_star_Ok [OF that q(2)] by blast
  have 3: "where_step q n s \<noteq> Panic p" if "from_step C q = Ok (n, s)" for n s
    using where_step_no_panic q(3) from_step_fits [OF that] by (simp add: fits_def)
  have 4: "aggregate_step q select n' s \<noteq> Panic p"
    if "from_step C q = Ok (n, s)" "expand_star n (sel_group_by q) (sel_select q) = Ok select" for n s n' select
    using aggregate_step_no_panic [OF _ assms(2)] expand_star_Ok [OF that(1) q(2)] that(2) from_step_fits [OF that(1)]
    by (auto simp: fits_def)
  have 5: "project_step q select n2 s2 \<noteq> Panic p" "\<And>n3 s3. project_step q select n2 s2 = Ok (n3, s3) \<Longrightarrow> scope_ok s3"
    if "from_step C q = Ok (n, s)" "expand_star n (sel_group_by q) (sel_select q) = Ok select" "where_step q n s = Ok n1"
       "aggregate_step q select n1 s = Ok (n2, s2)" for n s select n1 n2 s2
  proof -
    have f: "fits s2 n2" using aggregate_step_fits [OF where_step_fits [OF from_step_fits [OF that(1)] that(3)] that(4)] .
    then show "project_step q select n2 s2 \<noteq> Panic p"
      using project_step_no_panic expand_star_Ok [OF that(1) q(2)] that(2) by (auto simp: fits_def)
    show "project_step q select n2 s2 = Ok (n3, s3) \<Longrightarrow> scope_ok s3" for n3 s3
      using project_step_fits [OF f] by (simp add: fits_def)
  qed
  note 6 = having_step_no_panic [OF _ q(4)] order_step_no_panic [OF _ q(5)]
  have 7: "offset_step F q n \<noteq> Panic p" "limit_step F q n \<noteq> Panic p" for n using count_steps_Panic no by blast+
  from assms(1) show False unfolding build_select_def rbind_Panic using 1 2 3 4 5 6 7 by (auto simp: rbind_Panic)
qed

lemma build_column_Panic: "build_column F c = Panic p \<Longrightarrow> \<exists>e\<in>set_option (acol_default c). build_constant_value F e = Panic p"
  by (auto simp: build_column_def rbind_Panic Let_def split: option.splits)

lemma build_create_table_Panic:
  "build_create_table F name cs = Panic p \<Longrightarrow> \<exists>e\<in>statement_constants (StCreateTable name cs). build_constant_value F e = Panic p"
  by (auto simp: build_create_table_def rbind_Panic split: option.splits if_splits
      dest!: map_list_result_Panic build_column_Panic)

lemma from_table_no_panic: "from_table t \<noteq> Panic p"
  by (simp add: from_table_def add_table_no_panic)

lemma build_delete_Panic: "build_delete C table w = Panic p \<Longrightarrow> pred_option printable w \<Longrightarrow> C table = Panic p"
  using from_table_Ok build_optional_no_panic
  by (auto simp: build_delete_def rbind_Panic from_table_no_panic dest: catalog_table_Panic)

lemma build_column_map_no_panic: "build_column_map t k names m \<noteq> Panic p"
  by (induction names arbitrary: k m) (auto split: option.split)

lemma build_insert_Panic:
  assumes "build_insert C table names rows = Panic p" "\<forall>row\<in>set rows. \<forall>e\<in>set row. printable e"
  shows "C table = Panic p"
proof -
  have "map_list_result (map_list_result (build_expression scope_new)) rows \<noteq> Panic p"
    using map_list_result_Panic map_built_no_panic assms(2) scope_new_ok(1) by metis
  with assms(1) show ?thesis
    by (auto simp: build_insert_def rbind_Panic build_column_map_no_panic split: option.splits dest: catalog_table_Panic)
qed

lemma build_assignment_no_panic:
  assumes "scope_ok s" "length (sc_columns s) = length (tbl_columns t)" "pred_option printable (snd x)"
  shows "build_assignment t s x \<noteq> Panic p"
  using assms(2,3) built_no_panic [OF assms(1)] lookup_no_panic [OF assms(1)] lookup_in_range [OF assms(1)]
  by (fastforce simp: build_assignment_def rbind_Panic nth_checked_def split: option.splits)

lemma build_update_Panic:
  assumes "build_update C table updates w = Panic p" "pred_option printable w" "\<forall>x\<in>set updates. pred_option printable (snd x)"
  shows "C table = Panic p"
proof -
  have "map_list_result (build_assignment t s) updates \<noteq> Panic p" if "from_table t = Ok s" for t s
    using map_list_result_Panic [of "build_assignment t s" updates p] from_table_Ok [OF that] build_assignment_no_panic assms(3) by blast
  with assms(1,2) from_table_Ok build_optional_no_panic show ?thesis
    by (auto simp: build_update_def rbind_Panic from_table_no_panic dest: catalog_table_Panic)
qed

section \<open>Properties\<close>

text \<open>
  Property C34. Every plan that the planner builds refers to columns that exist: each expression of each
  node is over the columns of the rows it is evaluated on, \<^verbatim>\<open>VALUES\<close> are constant, the columns of an
  \<^verbatim>\<open>INSERT\<close> are distinct columns of the table, and the primary key and the assigned columns of a \<^verbatim>\<open>DELETE\<close>
  or an \<^verbatim>\<open>UPDATE\<close> are columns of its source. The catalog's tables are assumed to have their primary key
  among their columns.
\<close>

theorem planned_columns_exist:
  assumes "keyed_catalog C" "plan_build F C st = Ok p"
  shows "plan_ok p"
proof (cases st)
  case (StSelect q)
  with assms(2) build_select_ok [of F C q p] show ?thesis by auto
next
  case (StDropTable name if_exists)
  with assms(2) show ?thesis by (auto simp: build_drop_table_def)
qed (use assms in \<open>simp_all add: build_create_table_ok build_delete_ok build_insert_ok build_update_ok\<close>)

text \<open>
  Property C36. The planner panics on a parsed statement only if it is a transaction statement or \<^verbatim>\<open>EXPLAIN\<close>,
  which the session handles, or the catalog panics, or evaluating a constant of the statement does: a
  \<^verbatim>\<open>DEFAULT\<close>, \<^verbatim>\<open>OFFSET\<close> or \<^verbatim>\<open>LIMIT\<close>.
\<close>

theorem planner_panics:
  assumes "statement_printable st" "plan_build F C st = Panic p"
  shows "(\<exists>read_only as_of. st = StBegin read_only as_of) \<or> st = StCommit \<or> st = StRollback \<or> (\<exists>s. st = StExplain s) \<or>
    (\<exists>name. C name = Panic p) \<or> (\<exists>e\<in>statement_constants st. build_constant_value F e = Panic p)"
proof (cases st)
  case (StSelect q)
  with assms build_select_Panic [of F C q p] show ?thesis by auto
next
  case (StCreateTable name cs)
  with assms(2) build_create_table_Panic [of F name cs p] show ?thesis by auto
next
  case (StDelete table w)
  with assms build_delete_Panic [of C table w p] show ?thesis by auto
next
  case (StInsert table names rows)
  with assms build_insert_Panic [of C table names rows p] show ?thesis by (auto simp: list_all_iff)
next
  case (StUpdate table updates w)
  with assms build_update_Panic [of C table updates w p] show ?thesis by (auto simp: list_all_iff updates_printable_def split_def)
qed (use assms in \<open>auto simp: build_drop_table_def\<close>)

text \<open>
  Property C33. The scope of a \<^verbatim>\<open>FROM\<close> clause describes its node: it has the node's columns with the node's
  labels, all of them different. A qualified name is resolved to the column with that table and name, and an
  unqualified name to the only column with that name, if it is the only one; no other name is resolved. The
  columns of each table of the catalog are assumed to have different names.
\<close>

theorem names_resolved:
  assumes "catalog_ok C" "build_from_clause C items scope_new = Ok (n, s)"
  shows "length (sc_columns s) = columns n \<and> (\<forall>i < columns n. column_label n i = Ok (sc_columns s ! i)) \<and>
    distinct (sc_columns s) \<and>
    (\<forall>t c i. scope_lookup_column s (Some t) c = Ok i \<longleftrightarrow> i < columns n \<and> column_label n i = Ok (Qualified t c)) \<and>
    (\<forall>c i. scope_lookup_column s None c = Ok i \<longleftrightarrow>
       i < columns n \<and> (\<forall>j < columns n. (\<exists>t. column_label n j = Ok (Qualified t c)) \<longleftrightarrow> j = i))"
proof -
  have f: "from_scope True s \<and> describes (sc_columns s) n \<and> node_ok n"
    using build_from_clause_ok [OF _ assms(2), of True] assms(1) by simp
  then have s: "scope_ok s" "tables_ok s" "distinct (sc_columns s)" "\<forall>l\<in>set (sc_columns s). \<exists>t c. l = Qualified t c"
    and len: "length (sc_columns s) = columns n" and label: "\<And>i. i < columns n \<Longrightarrow> column_label n i = Ok (sc_columns s ! i)"
    by (auto simp: from_scope_def describes_def)
  have by_table: "scope_lookup_column s (Some t) c = Ok i \<longleftrightarrow> i < columns n \<and> column_label n i = Ok (Qualified t c)" for t c i
    unfolding lookup_qualified [OF s(1,2)] using last_of_distinct [OF s(3)] len label by auto
  have by_name: "scope_lookup_column s None c = Ok i \<longleftrightarrow>
     i < columns n \<and> (\<forall>j < columns n. (\<exists>t. column_label n j = Ok (Qualified t c)) \<longleftrightarrow> j = i)" for c i
  proof -
    have "label_name (sc_columns s ! j) = Some c \<longleftrightarrow> (\<exists>t. column_label n j = Ok (Qualified t c))" if "j < columns n" for j
      using s(4) label [OF that] len that by (metis label.inject(1) label_name.simps(1) nth_mem option.inject result.inject(1))
    then show ?thesis unfolding lookup_unqualified [OF s(1)] indexes_single using len by auto
  qed
  show ?thesis using len label s(3) by_table by_name by blast
qed

end
