(* ===== verification/SqlPlannerRows.thy ===== *)
theory SqlPlannerRows
  imports SqlPlannerProps
begin

text \<open>
  Plans and their execution: the rows of a plan have the columns that the plan announces.
\<close>

section \<open>Nodes that the planner builds\<close>

text \<open>Joins are nested loops, and rows come from scans of catalog tables or from constants.\<close>

primrec planned :: "catalog \<Rightarrow> plan_node \<Rightarrow> bool" where
  "planned C (Aggregate source group_by aggregates) = planned C source"
| "planned C (Filter source predicate) = planned C source"
| "planned C (HashJoin l lc r rc outer) = False"
| "planned C (IndexLookup t column vs alias) = False"
| "planned C (KeyLookup t keys alias) = False"
| "planned C (Limit source n) = planned C source"
| "planned C (NestedLoopJoin l r predicate outer) = (planned C l \<and> planned C r)"
| "planned C (Nothing labels) = False"
| "planned C (Offset source n) = planned C source"
| "planned C (Order source key) = planned C source"
| "planned C (Projection source expressions aliases) = planned C source"
| "planned C (Remap source targets) = planned C source"
| "planned C (Scan t flt alias) = (\<exists>name. C name = Ok (Some t))"
| "planned C (Values rows) = True"

lemma catalog_table_Ok: "catalog_table C name = Ok t \<Longrightarrow> C name = Ok (Some t)"
  by (auto simp: catalog_table_def rbind_eq_Ok split: option.splits)

lemma join_nodes_planned:
  "join_nodes type predicate left right s = Ok (n, s') \<Longrightarrow> planned C left \<Longrightarrow> planned C right \<Longrightarrow> planned C n"
  by (auto simp: join_nodes_def rbind_eq_Ok Let_def split: if_splits)

lemma build_from_planned: "build_from C item s = Ok (n, s') \<Longrightarrow> planned C n"
proof (induction item arbitrary: s n s')
  case (FromTable name a)
  then show ?case by (auto simp: rbind_eq_Ok merge_into_def) (blast dest: catalog_table_Ok)
next
  case (FromJoin l r type predicate)
  from FromJoin(3) show ?case
    by (auto simp: rbind_eq_Ok merge_into_def split: if_splits dest!: FromJoin(1,2) intro: join_nodes_planned)
qed

lemma build_from_rest_planned: "build_from_rest C items n s = Ok (n', s') \<Longrightarrow> planned C n \<Longrightarrow> planned C n'"
proof (induction items arbitrary: n s)
  case (Cons item items)
  then obtain right s1 where "build_from C item s = Ok (right, s1)"
    "build_from_rest C items (NestedLoopJoin n right None False) s1 = Ok (n', s')"
    by (auto simp: rbind_eq_Ok)
  with Cons.IH Cons.prems(2) build_from_planned show ?case by fastforce
qed simp

lemma from_step_planned: "from_step C q = Ok (n, s) \<Longrightarrow> planned C n"
  by (cases "sel_from q")
    (auto simp: from_step_def rbind_eq_Ok dest: build_from_planned intro: build_from_rest_planned)

lemma steps_planned:
  "where_step q n s = Ok n' \<Longrightarrow> planned C n' = planned C n"
  "aggregate_step q select n s = Ok (n', s') \<Longrightarrow> planned C n' = planned C n"
  "project_step q select n s = Ok (n', s') \<Longrightarrow> planned C n' = planned C n"
  "having_step q n s = Ok n' \<Longrightarrow> planned C n' = planned C n"
  "order_step q n s = Ok n' \<Longrightarrow> planned C n' = planned C n"
  "offset_step F q n = Ok n' \<Longrightarrow> planned C n' = planned C n"
  "limit_step F q n = Ok n' \<Longrightarrow> planned C n' = planned C n"
  "planned C (hidden_step n s) = planned C n"
  by (auto simp: where_step_def aggregate_step_def build_aggregate_def project_step_def having_step_def order_step_def
      offset_step_def limit_step_def hidden_step_def Let_def rbind_eq_Ok split: option.splits if_splits)

lemma build_select_planned:
  assumes "build_select F C q = Ok p"
  shows "\<exists>n. p = Select n \<and> planned C n"
proof -
  obtain n0 s0 select n1 n2 s2 n3 s3 n4 n5 n6 n7 where "from_step C q = Ok (n0, s0) \<and>
     expand_star n0 (sel_group_by q) (sel_select q) = Ok select \<and>
     where_step q n0 s0 = Ok n1 \<and> aggregate_step q select n1 s0 = Ok (n2, s2) \<and> project_step q select n2 s2 = Ok (n3, s3) \<and>
     having_step q n3 s3 = Ok n4 \<and> order_step q n4 s3 = Ok n5 \<and> offset_step F q n5 = Ok n6 \<and> limit_step F q n6 = Ok n7 \<and>
     p = Select (hidden_step n7 s3)"
    using build_select_steps [OF assms] by (elim exE) (rule that)
  then show ?thesis by (auto simp: steps_planned dest!: from_step_planned)
qed

section \<open>Widths\<close>

text \<open>The rows among the items of an iterator have \<open>n\<close> values.\<close>

definition width :: "nat \<Rightarrow> rows \<Rightarrow> bool" where
  "width n items = (\<forall>row. Ok row \<in> set items \<longrightarrow> length row = n)"

lemma widthD: "width n items \<Longrightarrow> Ok row \<in> set items \<Longrightarrow> length row = n"
  by (simp add: width_def)

text \<open>Every scan of a catalog table yields rows with the table's columns.\<close>

definition stored :: "catalog \<Rightarrow> 's sql_txn \<Rightarrow> 's \<Rightarrow> bool" where
  "stored C T s = (\<forall>name t flt items. C name = Ok (Some t) \<longrightarrow> st_scan T (tbl_name t) flt s = Ok items \<longrightarrow>
     width (length (tbl_columns t)) items)"

lemma filter_rows_subset: "Ok row \<in> set (filter_rows F predicate items) \<Longrightarrow> Ok row \<in> set items"
proof -
  have "item = Ok row" if "Ok row \<in> set (filter_item F predicate item)" for item
    using that by (cases item; cases "evaluate F predicate (Some (unwrap item))")
      (auto simp: filter_item_def split: sql_value.splits if_splits)
  then show "Ok row \<in> set (filter_rows F predicate items) \<Longrightarrow> Ok row \<in> set items" by (auto simp: filter_rows_def)
qed

lemma order_rows_subset:
  assumes "order_rows F items key = Ok items'" "Ok row \<in> set items'"
  shows "Ok row \<in> set items"
proof -
  obtain keyed where keyed: "map_list_result (\<lambda>item. rbind item (\<lambda>row.
       rbind (map_list_result (\<lambda>(e, _). evaluate F e (Some row)) key) (\<lambda>keys. Ok (row, keys)))) items = Ok keyed"
    "\<exists>keys. (row, keys) \<in> set keyed"
    using assms by (auto simp: order_rows_def rbind_eq_Ok set_sort_by) blast
  then show ?thesis by (auto simp: rbind_eq_Ok dest: map_list_result_set)
qed

lemma until_panic_subset: "x \<in> set (until_panic items) \<Longrightarrow> x \<in> set items"
  by (induction items rule: until_panic.induct) auto

lemma nested_loop_width:
  assumes "width a left" "width b right"
  shows "width (a + b) (nested_loop F p outer b left right)"
proof -
  have right: "length row = length l + b" if "Ok row \<in> set (right_item F p l item)" "item \<in> set right" for row l item
    using that assms(2) by (auto simp: right_item_def rbind_eq_Ok width_def split: result.splits if_splits)
  have "length row = length l + b" if "Ok row \<in> set (left_items F p outer b False l right)" for row l
    using that right by (auto simp: left_items_def Let_def null_row_def split: if_splits)
  then have "length row = a + b"
    if "Ok row \<in> set (case item of Ok l \<Rightarrow> left_items F p outer b False l right | Err e \<Rightarrow> [Err e] | Panic p \<Rightarrow> [Panic p])"
       "item \<in> set left" for row item
    using that assms(1) by (cases item) (auto simp: width_def)
  then show ?thesis by (auto simp: width_def nested_loop_def)
qed

lemma Ok_rbind: "Ok y = rbind m f \<longleftrightarrow> (\<exists>x. m = Ok x \<and> Ok y = f x)"
  by (cases m) auto

lemma Ok_map_list_result: "Ok ys = map_list_result f xs \<Longrightarrow> length ys = length xs"
  by (simp add: map_list_result_length [OF sym])

lemma remap_values_length: "remap_values ts vs remapped = Ok row \<Longrightarrow> length row = length remapped"
  by (induction ts vs remapped rule: remap_values.induct) (auto split: option.splits)

subsection \<open>Aggregation\<close>

definition buckets_ok :: "nat \<Rightarrow> nat \<Rightarrow> buckets \<Rightarrow> bool" where
  "buckets_ok a b bs = (\<forall>(bucket, accs)\<in>set bs. length bucket = a \<and> length accs = b)"

lemma acc_add_all_length: "acc_add_all F row accs aggs = Ok accs' \<Longrightarrow> length accs' = length aggs"
  by (induction F row accs aggs arbitrary: accs' rule: acc_add_all.induct) (auto simp: rbind_eq_Ok)

lemma tree_insert_buckets:
  "buckets_ok a b m \<Longrightarrow> length k = a \<Longrightarrow> length v = b \<Longrightarrow> buckets_ok a b (tree_insert cmp k v m)"
  by (induction cmp k v m rule: tree_insert.induct) (auto simp: buckets_ok_def split: ordering.splits)

lemma aggregator_add_buckets:
  assumes "aggregator_add F gs aggs row bs = Ok bs'" "buckets_ok (length gs) (length aggs) bs"
  shows "buckets_ok (length gs) (length aggs) bs'"
  using assms by (auto simp: aggregator_add_def rbind_eq_Ok Let_def map_list_result_length acc_add_all_length
      intro!: tree_insert_buckets)

lemma aggregator_add_rows_buckets:
  "aggregator_add_rows F gs aggs items bs = Ok bs' \<Longrightarrow> buckets_ok (length gs) (length aggs) bs \<Longrightarrow> buckets_ok (length gs) (length aggs) bs'"
  by (induction items arbitrary: bs) (auto simp: rbind_eq_Ok dest: aggregator_add_buckets)

lemma aggregator_into_rows_width:
  "buckets_ok (length gs) (length aggs) bs \<Longrightarrow> width (length aggs + length gs) (aggregator_into_rows gs aggs bs)"
  by (fastforce simp: aggregator_into_rows_def width_def buckets_ok_def Ok_rbind
      dest: map_list_result_length Ok_map_list_result split: if_splits)

subsection \<open>Execution\<close>

lemma executed_width:
  assumes "stored C T s"
  shows "execute_node F T s n = Ok items \<Longrightarrow> node_ok n \<Longrightarrow> planned C n \<Longrightarrow> width (columns n) items"
proof (induction n arbitrary: items)
  case (Aggregate source gs aggs)
  then obtain src bs where "aggregator_add_rows F gs aggs src [] = Ok bs" "items = aggregator_into_rows gs aggs bs"
    by (auto simp: rbind_eq_Ok)
  then show ?case using aggregator_add_rows_buckets [of F gs aggs src "[]" bs] aggregator_into_rows_width
    by (simp add: buckets_ok_def)
next
  case (Filter source p)
  then obtain src where "execute_node F T s source = Ok src" "items = filter_rows F p src" by (auto simp: rbind_eq_Ok)
  with Filter show ?case by (auto simp: width_def dest: filter_rows_subset)
next
  case (Limit source k)
  then show ?case by (auto simp: rbind_eq_Ok width_def dest: in_set_takeD)
next
  case (NestedLoopJoin l r p outer)
  then obtain left right where "execute_node F T s l = Ok left" "execute_node F T s r = Ok right"
    "items = until_panic (nested_loop F p outer (columns r) left right)"
    by (auto simp: rbind_eq_Ok join_items_nested_loop simp del: mult_Suc_right)
  with NestedLoopJoin nested_loop_width [of "columns l" left "columns r" right F p outer] show ?case
    by (auto simp: width_def dest: until_panic_subset)
next
  case (Offset source k)
  then show ?case by (auto simp: rbind_eq_Ok width_def dest: in_set_dropD)
next
  case (Order source key)
  then obtain src where "execute_node F T s source = Ok src" "order_rows F src key = Ok items" by (auto simp: rbind_eq_Ok)
  with Order show ?case by (auto simp: width_def dest: order_rows_subset)
next
  case (Projection source es aliases)
  then show ?case by (auto simp: rbind_eq_Ok Ok_rbind width_def project_item_def) (metis Ok_map_list_result)
next
  case (Remap source ts)
  then show ?case by (auto simp: rbind_eq_Ok Ok_rbind width_def) (metis remap_values_length length_replicate)
next
  case (Scan t flt a)
  then show ?case using assms by (auto simp: stored_def)
next
  case (Values rows)
  then show ?case by (auto simp: width_def) (metis Ok_map_list_result)
qed simp_all

lemma node_labels: "node_ok n \<Longrightarrow> i < columns n \<Longrightarrow> \<exists>l. column_label n i = Ok l"
proof (induction n arbitrary: i)
  case (Aggregate source gs aggs)
  then show ?case by (auto simp: nth_opt_def refs_below_def split: expression.split option.split dest!: nth_mem)
next
  case (Projection source es aliases)
  then show ?case by (auto simp: nth_opt_def refs_below_def split: expression.split label.split option.split dest!: nth_mem)
next
  case (Remap source ts)
  then show ?case by (auto dest!: position_Some split: option.split)
qed (auto simp: table_label_def nth_checked_def less_diff_conv2)

section \<open>Demonstration\<close>

definition demo_int_column :: "string \<Rightarrow> bool \<Rightarrow> sql_column" where
  "demo_int_column name primary = \<lparr>col_name = name, col_datatype = IntegerType, col_nullable = \<not> primary,
     col_default = (if primary then None else Some Null), col_unique = primary, col_index = False, col_references = None\<rparr>"

definition demo_table :: "string \<Rightarrow> string \<Rightarrow> sql_table" where
  "demo_table name column =
     \<lparr>tbl_name = name, tbl_primary_key = 0, tbl_columns = [demo_int_column ''id'' True, demo_int_column column False]\<rparr>"

definition demo_catalog :: catalog where
  "demo_catalog name = Ok (if name = ''a'' then Some (demo_table ''a'' ''x'')
     else if name = ''b'' then Some (demo_table ''b'' ''y'') else None)"

text \<open>\<^verbatim>\<open>SELECT x FROM a RIGHT JOIN b ON a.id = y ORDER BY b.id LIMIT 1\<close>.\<close>

definition demo_query :: select_statement where
  "demo_query = \<lparr>sel_select = [(AstColumn None ''x'', None)],
     sel_from = [FromJoin (FromTable ''a'' None) (FromTable ''b'' None) RightJoin
       (Some (AstOperator (OpEqual (AstColumn (Some ''a'') ''id'') (AstColumn None ''y''))))],
     sel_where = None, sel_group_by = [], sel_having = None,
     sel_order_by = [(AstColumn (Some ''b'') ''id'', Ascending)],
     sel_offset = None, sel_limit = Some (AstLiteral (LitInteger 1))\<rparr>"

lemma demo_planned: "is_ok (plan_build demo_ops demo_catalog (StSelect demo_query))"
  by code_simp


lemma demo_catalog_ok: "keyed_catalog demo_catalog" "catalog_ok demo_catalog"
  by (auto simp: keyed_catalog_def catalog_ok_def demo_catalog_def demo_table_def demo_int_column_def split: if_splits)

definition demo_txn :: "unit sql_txn" where
  "demo_txn = \<lparr>st_get = \<lambda>_ _ _. Ok [], st_lookup_index = \<lambda>_ _ _ _. Ok [],
     st_scan = \<lambda>name _ _. Ok [Ok [Integer 1, Integer (if name = ''a'' then 7 else 1)]],
     st_delete = \<lambda>_ _. sreturn (), st_insert = \<lambda>_ _. sreturn (), st_update = \<lambda>_ _. sreturn (),
     st_create_table = \<lambda>_. sreturn (), st_drop_table = \<lambda>_ _. sreturn False\<rparr>"

lemma demo_stored: "stored demo_catalog demo_txn ()"
  by (auto simp: stored_def width_def demo_catalog_def demo_table_def demo_txn_def demo_int_column_def split: if_splits)

theorem planned_columns_exist_witness:
  "\<exists>p. plan_build demo_ops demo_catalog (StSelect demo_query) = Ok p \<and> plan_ok p"
  using demo_planned planned_columns_exist [OF demo_catalog_ok(1), of demo_ops "StSelect demo_query"]
  by (cases "plan_build demo_ops demo_catalog (StSelect demo_query)") simp_all

text \<open>\<^verbatim>\<open>LIMIT (-9223372036854775807 - 1) / -1\<close>.\<close>

definition overflow_limit :: ast_expr where
  "overflow_limit = AstOperator (OpDivide
     (AstOperator (OpSubtract (AstOperator (OpNegate (AstLiteral (LitInteger 9223372036854775807)))) (AstLiteral (LitInteger 1))))
     (AstOperator (OpNegate (AstLiteral (LitInteger 1)))))"

definition overflow_query :: select_statement where
  "overflow_query = demo_query\<lparr>sel_limit := Some overflow_limit\<rparr>"

definition panics :: "'a result \<Rightarrow> bool" where
  "panics r = (case r of Panic _ \<Rightarrow> True | _ \<Rightarrow> False)"

lemma overflow_limit_panics: "panics (plan_build demo_ops demo_catalog (StSelect overflow_query))"
  by code_simp

theorem planner_panics_witness:
  "\<exists>p. plan_build demo_ops demo_catalog (StSelect overflow_query) = Panic p \<and>
     (\<exists>e\<in>statement_constants (StSelect overflow_query). build_constant_value demo_ops e = Panic p)"
proof -
  obtain p where p: "plan_build demo_ops demo_catalog (StSelect overflow_query) = Panic p"
    using overflow_limit_panics by (auto simp: panics_def split: result.splits)
  have "statement_printable (StSelect overflow_query)"
    by (simp add: overflow_query_def demo_query_def overflow_limit_def select_printable_def printable_operator)
  from planner_panics [OF this p] show ?thesis using p by (auto simp: demo_catalog_def split: if_splits)
qed

theorem names_resolved_witness:
  "\<exists>n s. build_from_clause demo_catalog (sel_from demo_query) scope_new = Ok (n, s) \<and>
     scope_lookup_column s (Some ''b'') ''id'' = Ok 2 \<and> column_label n 2 = Ok (Qualified ''b'' ''id'')"
proof -
  have "case build_from_clause demo_catalog (sel_from demo_query) scope_new of
      Ok (n, s) \<Rightarrow> scope_lookup_column s (Some ''b'') ''id'' = Ok 2 | _ \<Rightarrow> False" by code_simp
  then obtain n s where f: "build_from_clause demo_catalog (sel_from demo_query) scope_new = Ok (n, s)"
    "scope_lookup_column s (Some ''b'') ''id'' = Ok 2" by (auto split: result.splits)
  with names_resolved [OF demo_catalog_ok(2) f(1)] show ?thesis by blast
qed

text \<open>
  \<^verbatim>\<open>SELECT * FROM a ORDER BY COUNT(*)\<close>: the projection of a lone \<^verbatim>\<open>*\<close> is left out although the aggregate has
  replaced the table's columns, so the query returns the count.
\<close>

definition star_query :: select_statement where
  "star_query = \<lparr>sel_select = [(AstAll, None)], sel_from = [FromTable ''a'' None], sel_where = None, sel_group_by = [],
     sel_having = None, sel_order_by = [(AstFunction ''count'' [AstAll], Ascending)], sel_offset = None, sel_limit = None\<rparr>"

lemma star_returns_aggregate:
  "plan_build demo_ops demo_catalog (StSelect star_query) =
     Ok (Select (Order (Aggregate (Scan (demo_table ''a'' ''x'') None None) [] [Count (Constant (Boolean True))])
       [(Column 0, Ascending)]))"
  by code_simp

section \<open>Properties\<close>

text \<open>
  Property C35. The result of a \<^verbatim>\<open>SELECT\<close> is a table: executing the plan of the planner never fails to
  name its columns, changes nothing, and every row has exactly as many values as there are column labels. An
  execution that fails does so in the plan's node. The catalog is assumed to describe what the storage engine
  scans.
\<close>

theorem selected_rows_wide:
  assumes "stored C T s" "plan_build F C (StSelect q) = Ok p"
  shows "case execute F T p s of
      (Ok (ResSelect labels items), s') \<Rightarrow> s' = s \<and> width (length labels) items
    | (Ok _, s') \<Rightarrow> False
    | (r, s') \<Rightarrow> \<exists>n. p = Select n \<and> execute_node F T s n = (case r of Err e \<Rightarrow> Err e | Panic p \<Rightarrow> Panic p)"
proof -
  obtain n where n: "p = Select n" "node_ok n" "planned C n"
    using build_select_ok [of F C q p] build_select_planned [of F C q p] assms(2) by auto
  have "\<forall>i\<in>set [0..<columns n]. \<exists>l. column_label n i = Ok l" using node_labels [OF n(2)] by simp
  then have "map_list_result (column_label n) [0..<columns n] = Ok (map (\<lambda>i. unwrap (column_label n i)) [0..<columns n])"
    by (intro map_list_result_Ok) force
  with n executed_width [OF assms(1) _ n(2,3), of F] show ?thesis
    by (cases "execute_node F T s n") (simp_all add: sbind_def slift_def sread_def sreturn_def)
qed

theorem selected_rows_wide_witness:
  "\<exists>p. plan_build demo_ops demo_catalog (StSelect demo_query) = Ok p \<and>
     (case execute demo_ops demo_txn p () of (Ok (ResSelect labels items), s) \<Rightarrow> width (length labels) items | _ \<Rightarrow> True)"
  using demo_planned selected_rows_wide [OF demo_stored, of demo_ops demo_query]
  by (cases "plan_build demo_ops demo_catalog (StSelect demo_query)") (fastforce split: prod.splits result.splits execution_result.splits)+

end
