(* ===== verification/SqlMeaning.thy ===== *)
theory SqlMeaning
  imports SqlPlannerRows
begin

text \<open>
  The meaning of an expression and of a simple query by the names of columns, as a reference for what the
  planner and the executor compute by their positions.
\<close>

section \<open>Expressions\<close>

text \<open>Comparisons that the planner expresses by others.\<close>

definition f64_le :: "f64 \<Rightarrow> f64 \<Rightarrow> bool" where
  "f64_le a b = (\<not> f64_is_nan a \<and> \<not> f64_is_nan b \<and> f64_units a \<le> f64_units b)"

definition eval_less_equal :: "sql_value \<Rightarrow> sql_value \<Rightarrow> sql_value result" where
  "eval_less_equal x y = (case (x, y) of
      (Boolean a, Boolean b) \<Rightarrow> Ok (Boolean (a \<le> b))
    | (Integer a, Integer b) \<Rightarrow> Ok (Boolean (sint a \<le> sint b))
    | (Integer a, Float b) \<Rightarrow> Ok (Boolean (f64_le (as_f64 a) b))
    | (Float a, Integer b) \<Rightarrow> Ok (Boolean (f64_le a (as_f64 b)))
    | (Float a, Float b) \<Rightarrow> Ok (Boolean (f64_le a b))
    | (Str a, Str b) \<Rightarrow> Ok (Boolean (a \<le> b))
    | (Null, _) \<Rightarrow> Ok Null
    | (_, Null) \<Rightarrow> Ok Null
    | _ \<Rightarrow> Err (InvalidInput ''can't compare {lhs} and {rhs}''))"

definition eval_not_equal :: "sql_value \<Rightarrow> sql_value \<Rightarrow> sql_value result" where
  "eval_not_equal x y = (case (x, y) of
      (Boolean a, Boolean b) \<Rightarrow> Ok (Boolean (a \<noteq> b))
    | (Integer a, Integer b) \<Rightarrow> Ok (Boolean (a \<noteq> b))
    | (Integer a, Float b) \<Rightarrow> Ok (Boolean (\<not> f64_eq (as_f64 a) b))
    | (Float a, Integer b) \<Rightarrow> Ok (Boolean (\<not> f64_eq a (as_f64 b)))
    | (Float a, Float b) \<Rightarrow> Ok (Boolean (\<not> f64_eq a b))
    | (Str a, Str b) \<Rightarrow> Ok (Boolean (a \<noteq> b))
    | (Null, _) \<Rightarrow> Ok Null
    | (_, Null) \<Rightarrow> Ok Null
    | _ \<Rightarrow> Err (InvalidInput ''can't compare {lhs} and {rhs}''))"

lemma sint_le_iff: "sint (a :: i64) \<le> sint b \<longleftrightarrow> sint a < sint b \<or> a = b"
  by (auto intro: signed_word_eqI)

lemma f64_le_iff: "f64_le a b \<longleftrightarrow> f64_lt a b \<or> f64_eq a b"
  by (auto simp: f64_le_def f64_lt_def f64_eq_def)

lemma less_equal_planned:
  "rbind (eval_less x y) (\<lambda>l. rbind (eval_equal x y) (\<lambda>e. eval_or l e)) = eval_less_equal x y"
  by (cases x; cases y)
    (auto simp: eval_less_def eval_equal_def eval_or_def eval_less_equal_def sint_le_iff f64_le_iff)

lemma greater_equal_planned:
  "rbind (eval_greater x y) (\<lambda>g. rbind (eval_equal x y) (\<lambda>e. eval_or g e)) = eval_less_equal y x"
  by (cases x; cases y)
    (auto simp: eval_greater_def eval_equal_def eval_or_def eval_less_equal_def sint_le_iff f64_le_iff f64_eq_def)

lemma not_equal_planned: "rbind (eval_equal x y) eval_not = eval_not_equal x y"
  by (cases x; cases y) (auto simp: eval_equal_def eval_not_equal_def)

text \<open>The value of an expression, when \<open>L\<close> is the value of a column.\<close>

type_synonym naming = "string option \<Rightarrow> string \<Rightarrow> sql_value result"

fun ast_eval :: "value_ops \<Rightarrow> naming \<Rightarrow> ast_expr \<Rightarrow> sql_value result" where
  "ast_eval F L AstAll = errinput ''unsupported use of *''"
| "ast_eval F L (AstLiteral l) = Ok (literal_value l)"
| "ast_eval F L (AstColumn table name) = L table name"
| "ast_eval F L (AstFunction name args) = (case args of
      [arg] \<Rightarrow> if name = ''sqrt'' then rbind (ast_eval F L arg) eval_sqrt
               else errinput ''unknown function {name} with {n} arguments''
    | _ \<Rightarrow> errinput ''unknown function {name} with {n} arguments'')"
| "ast_eval F L (AstOperator op) = (case op of
      OpAnd l r \<Rightarrow> eval2 eval_and (ast_eval F L l) (ast_eval F L r)
    | OpNot e \<Rightarrow> rbind (ast_eval F L e) eval_not
    | OpOr l r \<Rightarrow> eval2 eval_or (ast_eval F L l) (ast_eval F L r)
    | OpEqual l r \<Rightarrow> eval2 eval_equal (ast_eval F L l) (ast_eval F L r)
    | OpGreaterThan l r \<Rightarrow> eval2 eval_greater (ast_eval F L l) (ast_eval F L r)
    | OpGreaterThanOrEqual l r \<Rightarrow> eval2 (\<lambda>x y. eval_less_equal y x) (ast_eval F L l) (ast_eval F L r)
    | OpIs e v \<Rightarrow> eval_is (ast_eval F L e) (literal_value v)
    | OpLessThan l r \<Rightarrow> eval2 eval_less (ast_eval F L l) (ast_eval F L r)
    | OpLessThanOrEqual l r \<Rightarrow> eval2 eval_less_equal (ast_eval F L l) (ast_eval F L r)
    | OpNotEqual l r \<Rightarrow> eval2 eval_not_equal (ast_eval F L l) (ast_eval F L r)
    | OpAdd l r \<Rightarrow> eval2 checked_add (ast_eval F L l) (ast_eval F L r)
    | OpDivide l r \<Rightarrow> eval2 checked_div (ast_eval F L l) (ast_eval F L r)
    | OpExponentiate l r \<Rightarrow> eval2 (checked_pow F) (ast_eval F L l) (ast_eval F L r)
    | OpFactorial e \<Rightarrow> rbind (ast_eval F L e) eval_factorial
    | OpIdentity e \<Rightarrow> rbind (ast_eval F L e) eval_identity
    | OpMultiply l r \<Rightarrow> eval2 checked_mul (ast_eval F L l) (ast_eval F L r)
    | OpNegate e \<Rightarrow> rbind (ast_eval F L e) eval_negate
    | OpRemainder l r \<Rightarrow> eval2 checked_rem (ast_eval F L l) (ast_eval F L r)
    | OpSubtract l r \<Rightarrow> eval2 checked_sub (ast_eval F L l) (ast_eval F L r)
    | OpLike l r \<Rightarrow> eval2 (eval_like F) (ast_eval F L l) (ast_eval F L r))"

text \<open>A column by its name in a scope, on a row.\<close>

definition named :: "scope \<Rightarrow> sql_row \<Rightarrow> naming" where
  "named s row table name = rbind (scope_lookup_column s table name) (lookup_column (Some row))"

lemma eval2_twice:
  "eval2 f (eval2 g x y) (eval2 h x y) = eval2 (\<lambda>a b. rbind (g a b) (\<lambda>c. rbind (h a b) (f c))) x y"
  by (cases x; cases y) (simp_all add: eval2_def rbind_assoc)

lemma eval2_then: "rbind (eval2 g x y) f = eval2 (\<lambda>a b. rbind (g a b) f) x y"
  by (simp add: eval2_def rbind_assoc)

lemmas planned_comparisons = eval2_twice eval2_then less_equal_planned greater_equal_planned not_equal_planned

lemma built_means:
  assumes "sc_aggregates s = []"
  shows "build_expression s e = Ok e' \<Longrightarrow> evaluate F e' (Some row) = ast_eval F (named s row) e"
proof (induction e arbitrary: e' rule: ast_nodes.induct)
  case (1 op)
  have IH: "evaluate F y (Some row) = ast_eval F (named s row) x" if "build_expression s x = Ok y" "x \<in> set (operands op)" for x y
    using 1 that by blast
  from 1(2) assms show ?case
    by (cases op) (auto simp: build_simps lookup_aggregate_def planned_comparisons is_value_def dest!: IH split: ast_literal.splits if_splits)
next
  case (2 name args)
  have IH: "evaluate F y (Some row) = ast_eval F (named s row) x" if "build_expression s x = Ok y" "x \<in> set args" for x y
    using 2 that by blast
  from 2(2) assms show ?case
    by (auto simp: build_simps lookup_aggregate_def dest!: IH split: list.splits if_splits)
qed (use assms in \<open>auto simp: rbind_eq_Ok lookup_aggregate_def named_def\<close>)

section \<open>Queries\<close>

text \<open>No aggregates, groups or order.\<close>

definition plain_query :: "select_statement \<Rightarrow> bool" where
  "plain_query q = (sel_group_by q = [] \<and> sel_having q = None \<and> sel_order_by q = [] \<and>
     (\<forall>(e, a)\<in>set (sel_select q). ast_collect is_aggregate_function e = []))"

definition has_star :: "select_statement \<Rightarrow> bool" where
  "has_star q = (AstAll \<in> fst ` set (sel_select q))"

text \<open>The selected values of a row; \<^verbatim>\<open>*\<close> is the whole row.\<close>

definition selected :: "value_ops \<Rightarrow> naming \<Rightarrow> (ast_expr \<times> string option) list \<Rightarrow> sql_row \<Rightarrow> sql_row result" where
  "selected F L select row = rbind (map_list_result (\<lambda>(e, a).
     if e = AstAll then Ok row else rbind (ast_eval F L e) (\<lambda>v. Ok [v])) select) (\<lambda>vss. Ok (concat vss))"

text \<open>A row is kept when the condition is true; one that is not a truth value is an error.\<close>

definition kept :: "(sql_row \<Rightarrow> sql_value result) \<Rightarrow> sql_row result \<Rightarrow> rows" where
  "kept condition item = (case item of
      Err e \<Rightarrow> [Err e]
    | Panic p \<Rightarrow> [Panic p]
    | Ok row \<Rightarrow> (case condition row of
        Ok (Boolean True) \<Rightarrow> [Ok row]
      | Ok (Boolean False) \<Rightarrow> []
      | Ok Null \<Rightarrow> []
      | Ok _ \<Rightarrow> [Err (InvalidInput ''filter returned {value}, expected boolean'')]
      | Err e \<Rightarrow> [Err e]
      | Panic p \<Rightarrow> [Panic p]))"

text \<open>The rows of a plain query: the rows of its \<^verbatim>\<open>FROM\<close> clause, filtered, projected and cut.\<close>

definition query_rows :: "value_ops \<Rightarrow> (sql_row \<Rightarrow> naming) \<Rightarrow> select_statement \<Rightarrow> rows \<Rightarrow> rows" where
  "query_rows F L q items =
     (let items = (case sel_where q of
          Some e \<Rightarrow> concat (map (kept (\<lambda>row. ast_eval F (L row) e)) items)
        | None \<Rightarrow> items);
          items = map (\<lambda>item. rbind item (\<lambda>row. selected F (L row) (sel_select q) row)) items;
          items = (case sel_offset q of Some e \<Rightarrow> drop (unwrap (build_count F ''invalid offset {offset}'' e)) items | None \<Rightarrow> items)
      in (case sel_limit q of Some e \<Rightarrow> take (unwrap (build_count F ''invalid limit {limit}'' e)) items | None \<Rightarrow> items))"

lemma filter_item_kept: "(\<And>row. evaluate F p (Some row) = ev row) \<Longrightarrow> filter_item F p item = kept ev item"
  by (cases item; cases "ev (unwrap item)") (auto simp: filter_item_def kept_def split: sql_value.split bool.split)

lemma map_list_result_cong2:
  "map_list_result f xs = Ok ys \<Longrightarrow> (\<And>x y. x \<in> set xs \<Longrightarrow> f x = Ok y \<Longrightarrow> g y = h x) \<Longrightarrow> map_list_result g ys = map_list_result h xs"
proof (induction xs arbitrary: ys)
  case (Cons x xs)
  then obtain y zs where ys: "f x = Ok y" "map_list_result f xs = Ok zs" "ys = y # zs" by (auto simp: rbind_eq_Ok)
  have "g y = h x" "map_list_result g zs = map_list_result h xs" using Cons ys by simp_all
  then show ?case by (simp add: ys(3))
qed simp

lemma project_all_hidden: "project_all s xs child = Ok c \<Longrightarrow> sc_hidden c = sc_hidden child"
proof (induction xs arbitrary: child)
  case (Cons x xs)
  then obtain c' where "project_one s x child = Ok c'" "project_all s xs c' = Ok c" by (auto simp: rbind_eq_Ok)
  with Cons.IH show ?case by (auto simp: project_one_def rbind_eq_Ok Let_def split: if_splits)
qed simp

lemma from_step_plain: "from_step C q = Ok (n, s) \<Longrightarrow> sc_aggregates s = []"
  using build_from_clause_ok [of False C "sel_from q" n s]
  by (auto simp: from_step_def from_scope_def split: if_splits)

lemma from_step_scope:
  assumes "from_step C q = Ok (n, s)"
  shows "sc_hidden s = {}" "columns n \<noteq> 0 \<Longrightarrow> catalog_ok C \<Longrightarrow> from_scope True s \<and> describes (sc_columns s) n"
  using assms build_from_clause_ok [of False C "sel_from q" n s] build_from_clause_ok [of True C "sel_from q" n s]
  by (auto simp: from_step_def from_scope_def split: if_splits)

text \<open>The columns that replace a \<^verbatim>\<open>*\<close> are those of the row, in their order.\<close>

lemma all_columns_means:
  assumes "from_scope True s" "describes (sc_columns s) n" "all_columns n = Ok xs" "length row = columns n"
  shows "map_list_result (\<lambda>(e, a). ast_eval F (named s row) e) xs = Ok row"
proof -
  let ?x = "\<lambda>i. case sc_columns s ! i of Qualified t c \<Rightarrow> (AstColumn (Some t) c, None :: string option)"
  have label: "column_label n i = Ok (sc_columns s ! i)" "\<exists>t c. sc_columns s ! i = Qualified t c" if "i < columns n" for i
    using assms(1,2) that by (auto simp: from_scope_def describes_def)
  have "all_columns n = Ok (map ?x [0..<columns n])"
    unfolding all_columns_def
  proof (rule map_list_result_Ok)
    fix i
    assume "i \<in> set [0..<columns n]"
    then have i: "i < columns n" by simp
    then obtain t c where "sc_columns s ! i = Qualified t c" using label(2) by blast
    then show "rbind (column_label n i) (\<lambda>l. rbind (label_expression l) (\<lambda>e. Ok (e, None))) = Ok (?x i)"
      by (simp add: label(1) [OF i])
  qed
  then have xs: "xs = map ?x [0..<columns n]" using assms(3) by simp
  have at: "(case ?x i of (e, a) \<Rightarrow> ast_eval F (named s row) e) = Ok (row ! i)" if i: "i < columns n" for i
  proof -
    obtain t c where tc: "sc_columns s ! i = Qualified t c" using label(2) [OF i] by blast
    have s: "scope_ok s" "tables_ok s" "distinct (sc_columns s)" "length (sc_columns s) = columns n"
      using assms(1,2) by (auto simp: from_scope_def describes_def)
    have "scope_lookup_column s (Some t) c = Ok i"
      unfolding lookup_qualified [OF s(1,2)] last_of_distinct [OF s(3)] using s(4) tc i by simp
    then show ?thesis using tc i assms(4) by (simp add: named_def lookup_column_def)
  qed
  have "map_list_result (\<lambda>(e, a). ast_eval F (named s row) e) xs = Ok (map (\<lambda>i. row ! i) [0..<columns n])"
    unfolding xs map_list_result_map comp_def using at by (intro map_list_result_Ok) auto
  then show ?thesis by (simp add: assms(4) [symmetric] map_nth)
qed

lemma map_list_result_append:
  "map_list_result f (xs @ ys) = rbind (map_list_result f xs) (\<lambda>vs. rbind (map_list_result f ys) (\<lambda>ws. Ok (vs @ ws)))"
proof (induction xs)
  case Nil
  then show ?case by (cases "map_list_result f ys") simp_all
qed (simp add: rbind_assoc)

lemma selected_Cons:
  "selected F L ((e, a) # select) row =
     rbind (if e = AstAll then Ok row else rbind (ast_eval F L e) (\<lambda>v. Ok [v])) (\<lambda>vs.
     rbind (selected F L select row) (\<lambda>ws. Ok (vs @ ws)))"
  by (simp add: selected_def rbind_assoc)

lemma selected_plain:
  "AstAll \<notin> fst ` set select \<Longrightarrow> map_list_result (\<lambda>(e, a). ast_eval F L e) select = selected F L select row"
proof (induction select)
  case (Cons x select)
  obtain e a where x: "x = (e, a)" by fastforce
  with Cons have "e \<noteq> AstAll" by auto
  with Cons x show ?case by (simp add: selected_Cons rbind_assoc)
qed (simp add: selected_def)

lemma expand_select_means:
  assumes "from_scope True s" "describes (sc_columns s) n" "length row = columns n"
  shows "expand_select n select = Ok xs \<Longrightarrow>
    map_list_result (\<lambda>(e, a). ast_eval F (named s row) e) xs = selected F (named s row) select row"
proof (induction select arbitrary: xs)
  case (Cons x select)
  obtain e a where x: "x = (e, a)" by fastforce
  from Cons.prems obtain ys zs where xs: "(if e = AstAll then all_columns n else Ok [(e, a)]) = Ok ys"
    "expand_select n select = Ok zs" "xs = ys @ zs"
    by (auto simp: x rbind_eq_Ok)
  have "map_list_result (\<lambda>(e, a). ast_eval F (named s row) e) ys =
      (if e = AstAll then Ok row else rbind (ast_eval F (named s row) e) (\<lambda>v. Ok [v]))"
    using all_columns_means [OF assms(1,2) _ assms(3)] xs(1) by (auto split: if_splits)
  then show ?case using Cons.IH [OF xs(2)] by (simp add: xs(3) x map_list_result_append selected_Cons)
qed (simp add: selected_def)

lemma all_columns_plain: "all_columns n = Ok xs \<Longrightarrow> x \<in> set xs \<Longrightarrow> \<exists>t c. fst x = AstColumn t c"
proof -
  have *: "map_list_result f is = Ok xs \<Longrightarrow> x \<in> set xs \<Longrightarrow> \<exists>i. f i = Ok x" for f :: "nat \<Rightarrow> _" and "is" xs
    by (induction "is" arbitrary: xs) (auto simp: rbind_eq_Ok)
  assume "all_columns n = Ok xs" "x \<in> set xs"
  from * [OF this [unfolded all_columns_def]] obtain i l where "column_label n i = Ok l" "rbind (label_expression l) (\<lambda>e. Ok (e, None)) = Ok x"
    by (auto simp: rbind_eq_Ok)
  then show ?thesis by (cases l) auto
qed

lemma expand_select_plain:
  assumes "expand_select n select = Ok xs" "\<forall>(e, a)\<in>set select. ast_collect is_aggregate_function e = []"
  shows "\<forall>(e, a)\<in>set xs. e \<noteq> AstAll \<and> ast_collect is_aggregate_function e = []"
  using assms
proof (induction select arbitrary: xs)
  case (Cons x select)
  obtain e a where x: "x = (e, a)" by fastforce
  from Cons.prems obtain ys zs where xs: "(if e = AstAll then all_columns n else Ok [(e, a)]) = Ok ys"
    "expand_select n select = Ok zs" "xs = ys @ zs"
    by (auto simp: x rbind_eq_Ok)
  have "\<forall>(e, a)\<in>set ys. e \<noteq> AstAll \<and> ast_collect is_aggregate_function e = []"
    using xs(1) all_columns_plain [of n ys] Cons.prems(2) by (fastforce simp: x is_aggregate_function_def split: if_splits)
  with Cons xs(2,3) show ?case by fastforce
qed simp

lemma plain_query_steps:
  assumes "plain_query q" "expand_star n (sel_group_by q) (sel_select q) = Ok select"
  shows "aggregate_step q select m s = Ok (m, s)" "having_step q m s = Ok m" "order_step q m s = Ok m"
    "select \<noteq> [(AstAll, None)] \<Longrightarrow> project_step q select m s = Ok (m', s') \<Longrightarrow>
       sc_hidden s' = {} \<and> (\<exists>es als. m' = Projection m es als \<and> map_list_result (build_expression s) (map fst select) = Ok es)"
proof -
  have q: "sel_group_by q = []" "sel_having q = None" "sel_order_by q = []"
    "\<forall>(e, a)\<in>set (sel_select q). ast_collect is_aggregate_function e = []"
    using assms(1) by (auto simp: plain_query_def)
  have "\<forall>(e, a)\<in>set select. ast_collect is_aggregate_function e = []"
    using assms(2) q(4) expand_select_plain [of n "sel_select q" select] by (auto simp: expand_star_def split: if_splits)
  then have "collect_aggregates select (sel_having q) (sel_order_by q) = []"
    using q(2,3) by (auto simp: collect_aggregates_def)
  with q show "aggregate_step q select m s = Ok (m, s)" "having_step q m s = Ok m" "order_step q m s = Ok m"
    by (simp_all add: aggregate_step_def having_step_def order_step_def)
  show "sc_hidden s' = {} \<and> (\<exists>es als. m' = Projection m es als \<and> map_list_result (build_expression s) (map fst select) = Ok es)"
    if "select \<noteq> [(AstAll, None)]" "project_step q select m s = Ok (m', s')"
    using that q by (auto simp: project_step_def rbind_eq_Ok build_select_hidden_def scope_project_def project_all_hidden scope_spawn_def)
qed

text \<open>What the select list and its expansion yield on a row.\<close>

lemma expand_star_means:
  assumes "plain_query q" "from_step C q = Ok (n, s)" "expand_star n (sel_group_by q) (sel_select q) = Ok select"
    and "has_star q \<Longrightarrow> catalog_ok C \<and> length row = columns n"
    and "select \<noteq> [(AstAll, None)]" "map_list_result (build_expression s) (map fst select) = Ok es"
  shows "map_list_result (\<lambda>e. evaluate F e (Some row)) es = selected F (named s row) (sel_select q) row"
proof -
  have plain: "sc_aggregates s = []" using from_step_plain assms(2) .
  have "map_list_result (\<lambda>e. evaluate F e (Some row)) es = map_list_result (\<lambda>(e, a). ast_eval F (named s row) e) select"
    using map_list_result_cong2 [OF assms(6), of "\<lambda>e. evaluate F e (Some row)" "ast_eval F (named s row)"] built_means [OF plain]
    by (simp add: map_list_result_map split_def)
  also have "\<dots> = selected F (named s row) (sel_select q) row"
  proof (cases "expand_select n (sel_select q) = Ok select \<and> has_star q \<and> columns n \<noteq> 0")
    case True
    with assms(4) from_step_scope(2) [OF assms(2)] show ?thesis by (intro expand_select_means) auto
  next
    case False
    with assms(1,3,5) have select: "select = sel_select q"
      by (auto simp: expand_star_def plain_query_def has_star_def image_iff split: if_splits)
    have "e \<noteq> AstAll" if "e \<in> fst ` set select" for e
      using map_list_result_unwrap [OF assms(6)] that plain by (auto simp: lookup_aggregate_def)
    then show ?thesis unfolding select by (intro selected_plain) auto
  qed
  finally show ?thesis .
qed

lemma where_step_rows:
  assumes "where_step q n s = Ok n'" "sc_aggregates s = []" "execute_node F T st n = Ok items"
  shows "execute_node F T st n' = Ok (case sel_where q of
     Some e \<Rightarrow> concat (map (kept (\<lambda>row. ast_eval F (named s row) e)) items) | None \<Rightarrow> items)"
proof (cases "sel_where q")
  case (Some e)
  then obtain p where p: "build_expression s e = Ok p" "n' = Filter n p" using assms(1) by (auto simp: where_step_def rbind_eq_Ok)
  have "filter_item F p = kept (\<lambda>row. ast_eval F (named s row) e)"
    by (rule ext, rule filter_item_kept) (rule built_means [OF assms(2) p(1)])
  with p(2) assms(3) Some show ?thesis by (simp add: filter_rows_def)
qed (use assms in \<open>simp add: where_step_def\<close>)

lemma limit_steps_rows:
  "offset_step F q n = Ok n' \<Longrightarrow> execute_node F T st n = Ok items \<Longrightarrow>
   execute_node F T st n' = Ok (case sel_offset q of Some e \<Rightarrow> drop (unwrap (build_count F ''invalid offset {offset}'' e)) items | None \<Rightarrow> items)"
  "limit_step F q n = Ok n' \<Longrightarrow> execute_node F T st n = Ok items \<Longrightarrow>
   execute_node F T st n' = Ok (case sel_limit q of Some e \<Rightarrow> take (unwrap (build_count F ''invalid limit {limit}'' e)) items | None \<Rightarrow> items)"
  by (auto simp: offset_step_def limit_step_def rbind_eq_Ok split: option.splits)

lemma rbind_Ok_right: "rbind m Ok = m"
  by (cases m) simp_all

lemma expand_lone_star:
  assumes "plain_query q" "expand_star n (sel_group_by q) (sel_select q) = Ok [(AstAll, None)]"
  shows "sel_select q = [(AstAll, None)]"
  using assms expand_select_plain [of n "sel_select q" "[(AstAll, None)]"]
  by (auto simp: expand_star_def plain_query_def split: if_splits)

lemma from_rows_width:
  assumes "from_step C q = Ok (n, s)" "execute_node F T st n = Ok items" "stored C T st" "Ok row \<in> set items"
  shows "length row = columns n"
proof -
  have "node_ok n"
    using assms(1) build_from_clause_ok [of False C "sel_from q" n s] by (auto simp: from_step_def split: if_splits)
  from executed_width [OF assms(3,2) this from_step_planned [OF assms(1)]] assms(4) show ?thesis by (rule widthD)
qed

lemma kept_Ok: "Ok row \<in> set (kept f item) \<Longrightarrow> item = Ok row"
  by (cases item; cases "f (unwrap item)") (auto simp: kept_def split: sql_value.splits bool.splits)

lemma kept_rows_subset: "Ok row \<in> set (case w of Some e \<Rightarrow> concat (map (kept (f e)) items) | None \<Rightarrow> items) \<Longrightarrow> Ok row \<in> set items"
  by (auto split: option.splits dest!: kept_Ok)

lemma project_step_rows:
  assumes "plain_query q" "from_step C q = Ok (n, s)" "expand_star n (sel_group_by q) (sel_select q) = Ok select"
    and "project_step q select m s = Ok (m', s')" "execute_node F T st m = Ok items"
    and "\<And>row. has_star q \<Longrightarrow> Ok row \<in> set items \<Longrightarrow> catalog_ok C \<and> length row = columns n"
  shows "sc_hidden s' = {}"
    "execute_node F T st m' = Ok (map (\<lambda>item. rbind item (\<lambda>row. selected F (named s row) (sel_select q) row)) items)"
proof -
  have "sc_hidden s' = {} \<and>
    execute_node F T st m' = Ok (map (\<lambda>item. rbind item (\<lambda>row. selected F (named s row) (sel_select q) row)) items)"
  proof (cases "select = [(AstAll, None)]")
    case True
    then have "sel_select q = [(AstAll, None)]" using expand_lone_star [OF assms(1)] assms(3) by simp
    moreover have "m' = m" "s' = s" using assms(4) True by (simp_all add: project_step_def)
    ultimately show ?thesis using assms(5) from_step_scope(1) [OF assms(2)] by (simp add: selected_def rbind_Ok_right)
  next
    case False
    then obtain es als where es: "m' = Projection m es als" "map_list_result (build_expression s) (map fst select) = Ok es"
      "sc_hidden s' = {}"
      using plain_query_steps(4) [OF assms(1,3) _ assms(4)] by blast
    have "project_item F es item = rbind item (\<lambda>row. selected F (named s row) (sel_select q) row)" if "item \<in> set items" for item
    proof (cases item)
      case (Ok row)
      with that expand_star_means [OF assms(1-3) _ False es(2), of row F] assms(6) show ?thesis
        by (simp add: project_item_def)
    qed (simp_all add: project_item_def)
    with es(1,3) assms(5) show ?thesis by simp
  qed
  then show "sc_hidden s' = {}"
    "execute_node F T st m' = Ok (map (\<lambda>item. rbind item (\<lambda>row. selected F (named s row) (sel_select q) row)) items)"
    by simp_all
qed

section \<open>Properties\<close>

text \<open>
  Property C32. The plan that the planner builds of a query without aggregates, \<^verbatim>\<open>GROUP BY\<close>, \<^verbatim>\<open>HAVING\<close> and \<^verbatim>\<open>ORDER BY\<close> yields
  what the query means by names, before any pass of the optimizer: of the rows of its \<^verbatim>\<open>FROM\<close> clause those on which
  the condition is true, each projected to the values of the selected expressions, in which \<^verbatim>\<open>*\<close> is the whole row,
  without the first \<^verbatim>\<open>OFFSET\<close> rows and at most \<^verbatim>\<open>LIMIT\<close> of them. Expressions are evaluated on the syntax tree, with
  columns by name; errors appear in place. For a query with \<^verbatim>\<open>*\<close> the catalog is assumed to describe what the storage
  engine scans, and to give the columns of a table different names.
\<close>

theorem query_means:
  assumes "plain_query q" "plan_build F C (StSelect q) = Ok p"
    "from_step C q = Ok (n, s)" "execute_node F T st n = Ok items"
    and "has_star q \<Longrightarrow> catalog_ok C \<and> stored C T st"
  shows "\<exists>n'. p = Select n' \<and> execute_node F T st n' = Ok (query_rows F (named s) q items)"
proof -
  have "build_select F C q = Ok p" using assms(2) by simp
  then obtain n0 s0 select n1 n2 s2 n3 s3 n4 n5 n6 n7 where "from_step C q = Ok (n0, s0) \<and>
     expand_star n0 (sel_group_by q) (sel_select q) = Ok select \<and>
     where_step q n0 s0 = Ok n1 \<and> aggregate_step q select n1 s0 = Ok (n2, s2) \<and> project_step q select n2 s2 = Ok (n3, s3) \<and>
     having_step q n3 s3 = Ok n4 \<and> order_step q n4 s3 = Ok n5 \<and> offset_step F q n5 = Ok n6 \<and> limit_step F q n6 = Ok n7 \<and>
     p = Select (hidden_step n7 s3)"
    by (drule_tac build_select_steps) (elim exE, rule that)
  moreover note q = plain_query_steps [OF assms(1), of n0 select]
  ultimately have steps: "expand_star n (sel_group_by q) (sel_select q) = Ok select" "where_step q n s = Ok n1"
    "project_step q select n1 s = Ok (n3, s3)" "offset_step F q n3 = Ok n6" "limit_step F q n6 = Ok n7" "p = Select (hidden_step n7 s3)"
    using assms(3) by auto
  define kept_rows where "kept_rows = (case sel_where q of
      Some e \<Rightarrow> concat (map (kept (\<lambda>row. ast_eval F (named s row) e)) items) | None \<Rightarrow> items)"
  have filtered: "execute_node F T st n1 = Ok kept_rows"
    unfolding kept_rows_def by (rule where_step_rows [OF steps(2) from_step_plain [OF assms(3)] assms(4)])
  have "catalog_ok C \<and> length row = columns n" if "has_star q" "Ok row \<in> set kept_rows" for row
  proof -
    have "Ok row \<in> set items"
      using that(2) unfolding kept_rows_def by (rule kept_rows_subset [where f = "\<lambda>e row. ast_eval F (named s row) e"])
    with from_rows_width [OF assms(3,4)] assms(5) [OF that(1)] show ?thesis by blast
  qed
  note rows = project_step_rows [OF assms(1,3) steps(1,3) filtered this]
  have "execute_node F T st n7 = Ok (query_rows F (named s) q items)"
    using limit_steps_rows(2) [OF steps(5) limit_steps_rows(1) [OF steps(4) rows(2)]]
    by (simp only: query_rows_def Let_def kept_rows_def)
  moreover have "hidden_step n7 s3 = n7" using rows(1) by (simp add: hidden_step_def remap_hidden_def remove_hidden_def)
  ultimately show ?thesis using steps(6) by simp
qed

text \<open>\<^verbatim>\<open>SELECT *, x + 1 FROM a WHERE id >= 1 LIMIT 5\<close>.\<close>

definition plain_demo :: select_statement where
  "plain_demo = \<lparr>sel_select = [(AstAll, None), (AstOperator (OpAdd (AstColumn None ''x'') (AstLiteral (LitInteger 1))), None)],
     sel_from = [FromTable ''a'' None],
     sel_where = Some (AstOperator (OpGreaterThanOrEqual (AstColumn (Some ''a'') ''id'') (AstLiteral (LitInteger 1)))),
     sel_group_by = [], sel_having = None, sel_order_by = [], sel_offset = None, sel_limit = Some (AstLiteral (LitInteger 5))\<rparr>"

theorem query_means_witness:
  "\<exists>n. plan_build demo_ops demo_catalog (StSelect plain_demo) = Ok (Select n) \<and>
     execute_node demo_ops demo_txn () n = Ok [Ok [Integer 1, Integer 7, Integer 8]]"
proof -
  have "is_ok (plan_build demo_ops demo_catalog (StSelect plain_demo))" by code_simp
  then obtain p where p: "plan_build demo_ops demo_catalog (StSelect plain_demo) = Ok p"
    by (cases "plan_build demo_ops demo_catalog (StSelect plain_demo)") auto
  have "case from_step demo_catalog plain_demo of
      Ok (n, s) \<Rightarrow> execute_node demo_ops demo_txn () n = Ok [Ok [Integer 1, Integer 7]] \<and>
        query_rows demo_ops (named s) plain_demo [Ok [Integer 1, Integer 7]] = [Ok [Integer 1, Integer 7, Integer 8]]
    | _ \<Rightarrow> False" by code_simp
  then obtain n s where s: "from_step demo_catalog plain_demo = Ok (n, s)"
    "execute_node demo_ops demo_txn () n = Ok [Ok [Integer 1, Integer 7]]"
    "query_rows demo_ops (named s) plain_demo [Ok [Integer 1, Integer 7]] = [Ok [Integer 1, Integer 7, Integer 8]]"
    by (auto split: result.splits)
  have "plain_query plain_demo" by code_simp
  from query_means [OF this p s(1,2)] demo_catalog_ok(2) demo_stored p s(3) show ?thesis by auto
qed

end
