(* ===== verification/SqlPredicates.thy ===== *)
theory SqlPredicates
  imports SqlExec
begin

text \<open>
  Predicates that evaluate to a truth value on every row of given column types, and what the optimizer does to
  them: their conjuncts, their restriction to one side of a join, and lookups copied from one column to an equal
  one.
\<close>

section \<open>Predicates on a row\<close>

definition is_constant :: "expression \<Rightarrow> bool" where
  "is_constant e = (case e of Constant _ \<Rightarrow> True | _ \<Rightarrow> False)"

text \<open>No equality between two operands that are not constants compares an integer with a float.\<close>

definition compares_alike :: "value_ops \<Rightarrow> sql_row \<Rightarrow> expression \<Rightarrow> bool" where
  "compares_alike F row e = (case e of
      Equal x y \<Rightarrow> is_constant x \<or> is_constant y \<or>
        (\<forall>u v. evaluate F x (Some row) = Ok u \<longrightarrow> evaluate F y (Some row) = Ok v \<longrightarrow> \<not> mixed u v)
    | _ \<Rightarrow> True)"

definition unmixed :: "value_ops \<Rightarrow> sql_row \<Rightarrow> expression \<Rightarrow> bool" where
  "unmixed F row e = walk_all (compares_alike F row) e"

lemma unmixed_children: "unmixed F row e \<longleftrightarrow> compares_alike F row e \<and> (\<forall>c\<in>set (children e). unmixed F row c)"
  unfolding unmixed_def by (rule walk_all_children)

lemma unmixed_simps [simp]:
  "unmixed F row (Constant v)" "unmixed F row (Column i)"
  "unmixed F row (And l r) \<longleftrightarrow> unmixed F row l \<and> unmixed F row r"
  "unmixed F row (Or l r) \<longleftrightarrow> unmixed F row l \<and> unmixed F row r"
  "unmixed F row (ENot e) \<longleftrightarrow> unmixed F row e"
  "unmixed F row (Is e v) \<longleftrightarrow> unmixed F row e"
  "unmixed F row (Equal l r) \<longleftrightarrow> compares_alike F row (Equal l r) \<and> unmixed F row l \<and> unmixed F row r"
  by (subst unmixed_children; auto simp: compares_alike_def)+

lemma evaluate_strict: "evaluate F e row = Ok v \<Longrightarrow> c \<in> set (children e) \<Longrightarrow> \<exists>w. evaluate F c row = Ok w"
  by (cases e) (auto simp: eval2_Ok rbind_eq_Ok eval_is_Ok [of "evaluate F _ row"])

lemma transform_children_Equal:
  "transform_children f b = Ok (Equal x y) \<Longrightarrow> \<exists>x0 y0. b = Equal x0 y0 \<and> f x0 = Ok x \<and> f y0 = Ok y"
  by (cases b) (auto simp: build1_def build2_def rbind_eq_Ok)

lemma transform_children_all:
  "transform_children f b = Ok e \<Longrightarrow> c' \<in> set (children e) \<Longrightarrow> \<exists>c\<in>set (children b). f c = Ok c'"
  by (cases b) (auto simp: build1_def build2_def rbind_eq_Ok)

text \<open>The steps of the normal forms keep equalities as they are.\<close>

context sound_rewrite
begin

lemma transform_unmixed:
  assumes "row = Some r" "post = Ok"
    and "\<And>e e'. unmixed F r e \<Longrightarrow> pre e = Ok e' \<Longrightarrow> unmixed F r e'"
    and "\<And>v. pre (Constant v) = Ok (Constant v)"
  shows "evaluate F e row = Ok v \<Longrightarrow> size e < n \<Longrightarrow> unmixed F r e \<Longrightarrow> transform n pre post e = Ok e' \<Longrightarrow> unmixed F r e'"
proof (induction n arbitrary: e e' v)
  case (Suc n)
  from before_sound [OF Suc.prems(1)] obtain b
    where b: "pre e = Ok b" "evaluate F b row = Ok v" "\<forall>c\<in>set (children b). size c < size e" by blast
  have e': "transform_children (transform n pre post) b = Ok e'" using Suc.prems(4) b(1) assms(2) by (simp add: rbind_eq_Ok)
  have ub: "unmixed F r b" using assms(3) Suc.prems(3) b(1) by blast
  have child: "unmixed F r c' \<and> evaluate F c' row = Ok w"
    if "c \<in> set (children b)" "transform n pre post c = Ok c'" "evaluate F c row = Ok w" for c c' w
  proof -
    have "size c < n" using that(1) b(3) Suc.prems(2) by force
    moreover have "unmixed F r c" using ub that(1) unmixed_children by blast
    ultimately show ?thesis using Suc.IH [OF that(3)] transform_sound [OF that(3)] that(2) by force
  qed
  have "unmixed F r c'" if c': "c' \<in> set (children e')" for c'
    using transform_children_all [OF e' c'] evaluate_strict [OF b(2)] child by blast
  moreover have "compares_alike F r e'"
  proof (cases "\<exists>x y. e' = Equal x y")
    case True
    then obtain x y where xy: "e' = Equal x y" by blast
    with transform_children_Equal e' obtain x0 y0 where
      b0: "b = Equal x0 y0" "transform n pre post x0 = Ok x" "transform n pre post y0 = Ok y" by blast
    obtain u w where uw: "evaluate F x0 row = Ok u" "evaluate F y0 row = Ok w"
      using evaluate_strict [OF b(2)] b0(1) by fastforce
    have "is_constant x" if "is_constant x0" "transform n pre post x0 = Ok x" for x0 x
      using that assms(2,4) by (cases n; cases x0) (auto simp: is_constant_def)
    then show ?thesis
      using ub b0 uw child [of x0 x u] child [of y0 y w] assms(1) unfolding xy
      by (auto simp: compares_alike_def)
  next
    case False
    then show ?thesis by (cases e') (auto simp: compares_alike_def)
  qed
  ultimately show ?case using unmixed_children by blast
qed simp

end

lemma nnf_step_unmixed: "unmixed F r e \<Longrightarrow> unmixed F r (nnf_step e)"
  by (cases e rule: nnf_step_cases) simp_all

lemma cnf_step_unmixed: "unmixed F r e \<Longrightarrow> unmixed F r (cnf_step e)"
  by (cases e rule: cnf_step_cases) simp_all

lemma step_constant: "nnf_step (Constant v) = Constant v" "cnf_step (Constant v) = Constant v"
  by (simp_all add: nnf_step_def cnf_step_def)

lemma into_cnf_unmixed:
  assumes "evaluate F e (Some r) = Ok v" "unmixed F r e"
  shows "unmixed F r (into_cnf e)"
proof -
  have "unmixed F r (into_nnf e)"
    using nnf.transform_unmixed [OF refl refl _ _ assms(1) _ assms(2), of "stack e"] into_nnf_total [of e]
      nnf_step_unmixed step_constant by (metis lessI result.inject(1))
  then show ?thesis
    using cnf.transform_unmixed [OF refl refl _ _ into_nnf_sound [OF assms(1)], of "stack (into_nnf e)"] into_cnf_total [of e]
      cnf_step_unmixed step_constant by (metis lessI result.inject(1))
qed

text \<open>A predicate that is defined on a row, and one that the row satisfies.\<close>

definition defined_at :: "value_ops \<Rightarrow> sql_row \<Rightarrow> expression \<Rightarrow> bool" where
  "defined_at F row e = ((\<exists>v. evaluate F e (Some row) = Ok v \<and> logical v) \<and> unmixed F row e)"

definition sat :: "value_ops \<Rightarrow> sql_row \<Rightarrow> expression \<Rightarrow> bool" where
  "sat F row e = (evaluate F e (Some row) = Ok (Boolean True))"

lemma eval_and_defined: "logical a \<Longrightarrow> logical b \<Longrightarrow> \<exists>v. eval_and a b = Ok v \<and> logical v"
  by (auto simp: logical_def eval_and_simps)

lemma eval_and_true: "eval_and a b = Ok (Boolean True) \<longleftrightarrow> a = Boolean True \<and> b = Boolean True"
  by (cases a; cases b) (auto simp: eval_and_def)

lemma defined_And [simp]: "defined_at F row (And l r) \<longleftrightarrow> defined_at F row l \<and> defined_at F row r"
proof -
  have "(\<exists>v. evaluate F (And l r) (Some row) = Ok v \<and> logical v) \<longleftrightarrow>
      (\<exists>a. evaluate F l (Some row) = Ok a \<and> logical a) \<and> (\<exists>b. evaluate F r (Some row) = Ok b \<and> logical b)" (is "?L \<longleftrightarrow> ?A \<and> ?B")
  proof
    assume ?L
    then show "?A \<and> ?B" using and_operands [of "evaluate F l (Some row)" "evaluate F r (Some row)"] by auto
  next
    assume "?A \<and> ?B"
    then obtain a b where "evaluate F l (Some row) = Ok a" "logical a" "evaluate F r (Some row) = Ok b" "logical b" by blast
    with eval_and_defined [of a b] show ?L by (auto simp: eval2_def)
  qed
  then show ?thesis unfolding defined_at_def unmixed_simps by blast
qed

lemma sat_And: "defined_at F row l \<Longrightarrow> defined_at F row r \<Longrightarrow> sat F row (And l r) \<longleftrightarrow> sat F row l \<and> sat F row r"
  by (auto simp: sat_def eval2_Ok eval_and_true)

lemma conjuncts_defined:
  "defined_at F row e \<Longrightarrow> (\<forall>c\<in>set (conjuncts e). defined_at F row c) \<and> (sat F row e \<longleftrightarrow> (\<forall>c\<in>set (conjuncts e). sat F row c))"
proof (induction e rule: conjuncts.induct)
  case (1 e)
  show ?case
  proof (cases "\<exists>l r. e = And l r")
    case True
    then obtain l r where e: "e = And l r" by blast
    have "defined_at F row l" "defined_at F row r" using "1.prems" by (simp_all add: e)
    with "1.IH" [OF e] show ?thesis by (auto simp: e sat_And)
  next
    case False
    with "1.prems" show ?thesis by (simp add: conjuncts_other)
  qed
qed

lemma cnf_defined:
  assumes "defined_at F row e"
  shows "\<forall>c\<in>set (into_cnf_vec e). defined_at F row c" "sat F row e \<longleftrightarrow> (\<forall>c\<in>set (into_cnf_vec e). sat F row c)"
proof -
  obtain v where v: "evaluate F e (Some row) = Ok v" "logical v" "unmixed F row e" using assms by (auto simp: defined_at_def)
  have "defined_at F row (into_cnf e)" using into_cnf_sound [OF v(1)] into_cnf_unmixed [OF v(1,3)] v(2) by (auto simp: defined_at_def)
  moreover have "sat F row (into_cnf e) \<longleftrightarrow> sat F row e" using into_cnf_sound [OF v(1)] v(1) by (simp add: sat_def)
  ultimately show "\<forall>c\<in>set (into_cnf_vec e). defined_at F row c" "sat F row e \<longleftrightarrow> (\<forall>c\<in>set (into_cnf_vec e). sat F row c)"
    using conjuncts_defined by (auto simp: into_cnf_vec_conjuncts)
qed

lemma and_vec_None: "and_vec es = None \<longleftrightarrow> es = []"
  by (cases es rule: rev_cases) (auto simp: and_vec_snoc split: option.splits)

lemma and_vec_defined:
  "and_vec es = Some e \<Longrightarrow> \<forall>c\<in>set es. defined_at F row c \<Longrightarrow>
    defined_at F row e \<and> (sat F row e \<longleftrightarrow> (\<forall>c\<in>set es. sat F row c))"
  by (induction es arbitrary: e rule: rev_induct) (auto simp: and_vec_snoc and_vec_None sat_And split: option.splits)

section \<open>Predicates on typed rows\<close>

definition row_of :: "data_type list \<Rightarrow> sql_row \<Rightarrow> bool" where
  "row_of tys row = list_all2 in_column tys row"

definition defined_on :: "value_ops \<Rightarrow> data_type list \<Rightarrow> expression \<Rightarrow> bool" where
  "defined_on F tys e = (\<forall>row. row_of tys row \<longrightarrow> defined_at F row e)"

lemma row_of_append: "row_of (lt @ rt) row \<longleftrightarrow> (\<exists>l r. row = l @ r \<and> row_of lt l \<and> row_of rt r)"
  unfolding row_of_def list_all2_append1 by (metis list_all2_lengthD)

lemma row_of_appendI: "row_of lt l \<Longrightarrow> row_of rt r \<Longrightarrow> row_of (lt @ rt) (l @ r)"
  by (auto simp: row_of_append)

lemma row_of_length: "row_of tys row \<Longrightarrow> length row = length tys"
  by (simp add: row_of_def list_all2_lengthD)

primrec sample :: "data_type \<Rightarrow> sql_value" where
  "sample BooleanType = Boolean True"
| "sample FloatType = Float 0"
| "sample IntegerType = Integer 0"
| "sample StringType = Str []"

lemma datatype_of_sample [simp]: "datatype_of (sample ty) = Some ty"
  by (cases ty) simp_all

lemma row_of_sample: "row_of tys (map sample tys)"
  by (simp add: row_of_def list_all2_map2 in_column_def list_all2_same)

text \<open>An expression is read through a substitution of its columns.\<close>

lemma children_map_columns: "children (map_columns f e) = map (map_columns f) (children e)"
  by (cases e) simp_all

lemma is_constant_map [simp]: "is_constant (map_columns f e) = is_constant e"
  by (cases e) (simp_all add: is_constant_def)

lemma columns_of_child: "c \<in> set (children e) \<Longrightarrow> columns_of c \<subseteq> columns_of e"
  by (cases e) auto

lemma compares_alike_map:
  assumes "\<And>c. c \<in> set (children e) \<Longrightarrow> evaluate F (map_columns f c) (Some row) = evaluate F c (Some row')"
  shows "compares_alike F row (map_columns f e) = compares_alike F row' e"
  using assms by (cases e) (simp_all add: compares_alike_def)

lemma defined_map:
  assumes "\<And>i. i \<in> columns_of e \<Longrightarrow> lookup_column (Some row) (f i) = lookup_column (Some row') i"
  shows "defined_at F row (map_columns f e) = defined_at F row' e" "sat F row (map_columns f e) = sat F row' e"
proof -
  have "unmixed F row (map_columns f e) = unmixed F row' e"
    using assms
  proof (induction e rule: expression_children_induct)
    case (step e)
    have eval: "evaluate F (map_columns f c) (Some row) = evaluate F c (Some row')" if "c \<in> set (children e)" for c
      using columns_of_child [OF that] step.prems by (intro evaluate_map_columns) blast
    have "unmixed F row (map_columns f c) = unmixed F row' c" if "c \<in> set (children e)" for c
      using step.IH [OF that] columns_of_child [OF that] step.prems by blast
    with compares_alike_map [of e F f row row'] eval show ?case
      by (subst (1 2) unmixed_children) (simp add: children_map_columns)
  qed
  with evaluate_map_columns [of e "Some row" f "Some row'" F] assms
  show "defined_at F row (map_columns f e) = defined_at F row' e" "sat F row (map_columns f e) = sat F row' e"
    by (simp_all add: defined_at_def sat_def)
qed

lemma map_columns_id: "map_columns (\<lambda>i. i) e = e"
  by (induction e) simp_all

lemma defined_columns:
  assumes "\<And>i. i \<in> columns_of e \<Longrightarrow> lookup_column (Some row) i = lookup_column (Some row') i"
  shows "defined_at F row e = defined_at F row' e" "sat F row e = sat F row' e"
  using defined_map [of e row "\<lambda>i. i" row' F] assms by (simp_all add: map_columns_id)

lemma evaluate_in_range: "evaluate F e (Some row) = Ok v \<Longrightarrow> columns_of e \<subseteq> {..<length row}"
proof (induction e arbitrary: v rule: expression_children_induct)
  case (step e)
  have "columns_of c \<subseteq> {..<length row}" if c: "c \<in> set (children e)" for c
    using evaluate_strict [OF step.prems c] step.IH [OF c] by blast
  with step.prems show ?case
    by (subst columns_of_children) (auto simp: lookup_column_def split: expression.split if_splits)
qed

lemma defined_on_range:
  assumes "defined_on F tys e"
  shows "columns_of e \<subseteq> {..<length tys}"
proof -
  have "defined_at F (map sample tys) e" using assms row_of_sample unfolding defined_on_def by blast
  then show ?thesis using evaluate_in_range [of F e "map sample tys"] by (auto simp: defined_at_def)
qed

text \<open>Predicates on one side of a join.\<close>

lemma left_side:
  assumes "columns_of e \<subseteq> {..<length l}"
  shows "defined_at F (l @ r) e = defined_at F l e" "sat F (l @ r) e = sat F l e"
  using assms by (intro defined_columns; auto simp: lookup_column_def nth_append)+

lemma defined_on_left:
  assumes "defined_on F (lt @ rt) e" "columns_of e \<subseteq> {..<length lt}"
  shows "defined_on F lt e"
  unfolding defined_on_def
proof (intro allI impI)
  fix l assume l: "row_of lt l"
  then have "defined_at F (l @ map sample rt) e"
    using assms(1) row_of_appendI [OF l row_of_sample] unfolding defined_on_def by blast
  with left_side(1) [of e l F "map sample rt"] assms(2) row_of_length [OF l] show "defined_at F l e" by simp
qed

lemma shift_down:
  assumes "columns_of e \<subseteq> {length l..<length l + length r}" "length l + length r < 2 ^ 64"
  shows "defined_at F r (shift_column (- int (length l)) e) = defined_at F (l @ r) e"
    "sat F r (shift_column (- int (length l)) e) = sat F (l @ r) e"
proof -
  have "lookup_column (Some r) (unat (word_of_int (int i + - int (length l)) :: u64)) = lookup_column (Some (l @ r)) i"
    if "i \<in> columns_of e" for i
  proof -
    have i: "length l \<le> i" "i < length l + length r" using assms(1) that by auto
    then have "int i + - int (length l) = int (i - length l)" by simp
    moreover have "i - length l < 2 ^ 64" using i assms(2) by linarith
    moreover have "m < 2 ^ 64 \<Longrightarrow> unat (word_of_int (int m) :: u64) = m" for m
      by (simp add: unat_of_nat take_bit_nat_eq_self)
    ultimately have "unat (word_of_int (int i + - int (length l)) :: u64) = i - length l" by metis
    with i show ?thesis by (simp only: lookup_column_def option.case) (simp add: nth_append)
  qed
  then show "defined_at F r (shift_column (- int (length l)) e) = defined_at F (l @ r) e"
    "sat F r (shift_column (- int (length l)) e) = sat F (l @ r) e"
    unfolding shift_column_map by (intro defined_map; blast)+
qed

lemma defined_on_right:
  assumes "defined_on F (lt @ rt) e" "columns_of e \<inter> {..<length lt} = {}" "length lt + length rt < 2 ^ 64"
  shows "defined_on F rt (shift_column (- int (length lt)) e)"
  unfolding defined_on_def
proof (intro allI impI)
  fix r assume r: "row_of rt r"
  let ?l = "map sample lt"
  have "defined_at F (?l @ r) e" using assms(1) row_of_appendI [OF row_of_sample r] unfolding defined_on_def by blast
  moreover have "columns_of e \<subseteq> {length ?l..<length ?l + length r}"
    using defined_on_range [OF assms(1)] assms(2) row_of_length [OF r] by force
  ultimately show "defined_at F r (shift_column (- int (length lt)) e)"
    using shift_down(1) [of e ?l r F] assms(3) row_of_length [OF r] by simp
qed

section \<open>Lookups copied along an equality\<close>

lemma columns_of_lookup: "is_column_lookup e = Some c \<Longrightarrow> columns_of e = {c}"
proof (induction e rule: expression_children_induct)
  case (step e)
  from step.prems show ?case
  proof (cases rule: lookup_cases)
    case (Equal l r w)
    then show ?thesis by (auto simp: doubleton_eq_iff)
  next
    case (Or l r)
    with step.IH [of l] step.IH [of r] show ?thesis by simp
  qed simp
qed

text \<open>Columns that a defined predicate equates have one type.\<close>

lemma equated_types:
  assumes "defined_on F tys (Equal (Column a) (Column b))"
  shows "a < length tys" "b < length tys" "tys ! a = tys ! b"
proof -
  show ab: "a < length tys" "b < length tys" using defined_on_range [OF assms] by simp_all
  let ?row = "map sample tys"
  have "defined_at F ?row (Equal (Column a) (Column b))"
    using assms row_of_sample unfolding defined_on_def by blast
  then obtain v where "eval_equal (sample (tys ! a)) (sample (tys ! b)) = Ok v" "\<not> mixed (sample (tys ! a)) (sample (tys ! b))"
    using ab by (auto simp: defined_at_def eval2_Ok lookup_column_def compares_alike_def is_constant_def)
  then show "tys ! a = tys ! b"
    by (cases "tys ! a"; cases "tys ! b") (simp_all add: eval_equal_def mixed_def)
qed

lemma value_eq_through:
  assumes "eval_equal x y = Ok (Boolean True)" "\<not> mixed x y"
  shows "value_eq x w \<longleftrightarrow> value_eq y w"
  using assms by (cases x; cases y; cases w) (auto simp: eval_equal_def value_eq_def mixed_def f64_eq_def)

lemma eval_equal_commute: "eval_equal x y = Ok v \<Longrightarrow> eval_equal y x = Ok v"
  by (cases x; cases y) (auto simp: eval_equal_def f64_eq_def)

lemma copied_lookup:
  assumes q: "is_column_lookup q = Some a" "defined_on F tys q"
    and eq: "defined_on F tys (Equal (Column x) (Column y))" "{x, y} = {a, b}"
  shows "columns_of (replace_column a b q) = {b}" "defined_on F tys (replace_column a b q)"
    "row_of tys row \<Longrightarrow> sat F row (Equal (Column x) (Column y)) \<Longrightarrow> sat F row q \<Longrightarrow> sat F row (replace_column a b q)"
proof -
  have ab: "a < length tys" "b < length tys" "tys ! a = tys ! b"
    using equated_types [OF eq(1)] eq(2) by (auto simp: doubleton_eq_iff)
  note cols = columns_of_lookup [OF q(1)]
  show "columns_of (replace_column a b q) = {b}" by (simp add: replace_column_map cols)
  have moved: "defined_at F row (replace_column a b q) = defined_at F (row[a := row ! b]) q"
      "sat F row (replace_column a b q) = sat F (row[a := row ! b]) q" "row_of tys (row[a := row ! b])"
    if row: "row_of tys row" for row
  proof -
    have len: "length row = length tys" using row_of_length [OF row] .
    have "lookup_column (Some row) (if i = a then b else i) = lookup_column (Some (row[a := row ! b])) i" if "i \<in> columns_of q" for i
      using that ab len by (simp add: cols lookup_column_def)
    then show "defined_at F row (replace_column a b q) = defined_at F (row[a := row ! b]) q"
      "sat F row (replace_column a b q) = sat F (row[a := row ! b]) q"
      unfolding replace_column_map by (intro defined_map; blast)+
    have "in_column (tys ! a) (row ! b)" using row ab by (simp add: row_of_def list_all2_conv_all_nth)
    with row show "row_of tys (row[a := row ! b])"
      unfolding row_of_def by (metis list_all2_update_cong list_update_id)
  qed
  show "defined_on F tys (replace_column a b q)"
    using q(2) moved unfolding defined_on_def by blast
  assume row: "row_of tys row" and sat: "sat F row (Equal (Column x) (Column y))" "sat F row q"
  have len: "length row = length tys" using row_of_length [OF row] .
  obtain vs where vs: "\<And>row v. a < length row \<Longrightarrow> evaluate F q (Some row) = Ok v \<Longrightarrow>
      v = Boolean True \<longleftrightarrow> (\<exists>w\<in>set vs. value_eq (row ! a) w)"
    using lookup_exact [OF q(1), of F] by blast
  have "in_column (tys ! a) (row ! a)" "in_column (tys ! a) (row ! b)"
    using list_all2_nthD [OF row [unfolded row_of_def]] ab by metis+
  then have "\<not> mixed (row ! a) (row ! b)" by (rule in_column_not_mixed)
  moreover have "eval_equal (row ! a) (row ! b) = Ok (Boolean True)"
    using sat(1) eq(2) ab len eval_equal_commute [of "row ! b" "row ! a"]
    by (auto simp: sat_def eval2_Ok lookup_column_def doubleton_eq_iff)
  ultimately have same: "value_eq (row ! a) w \<longleftrightarrow> value_eq (row ! b) w" for w by (intro value_eq_through)
  obtain v where v: "evaluate F q (Some (row[a := row ! b])) = Ok v"
    using q(2) moved(3) [OF row] unfolding defined_on_def defined_at_def by blast
  have "\<exists>w\<in>set vs. value_eq (row ! a) w" using vs [of row "Boolean True"] sat(2) ab len by (auto simp: sat_def)
  then have "v = Boolean True" using vs [OF _ v] same ab len by auto
  with v have "sat F (row[a := row ! b]) q" by (simp add: sat_def)
  then show "sat F row (replace_column a b q)" by (simp only: moved(2) [OF row])
qed

end
