(* ===== verification/SqlPushdown.thy ===== *)
theory SqlPushdown
  imports SqlPredicates
begin

text \<open>
  Filter pushdown preserves the rows of a plan. Predicates are assumed to evaluate to a truth value on every row
  of the types of their columns, since a pushed predicate is evaluated on rows that the original plan never
  joins; joins are inner joins, since the pass is wrong on outer joins.
\<close>

section \<open>Trees of inner joins\<close>

fun column_types :: "plan_node \<Rightarrow> data_type list" where
  "column_types (Scan t flt alias) = map col_datatype (tbl_columns t)"
| "column_types (Filter source predicate) = column_types source"
| "column_types (NestedLoopJoin l r predicate outer) = column_types l @ column_types r"
| "column_types _ = []"

definition defined_opt :: "value_ops \<Rightarrow> data_type list \<Rightarrow> expression option \<Rightarrow> bool" where
  "defined_opt F tys p = (case p of Some p \<Rightarrow> defined_on F tys p | None \<Rightarrow> True)"

fun join_tree :: "value_ops \<Rightarrow> plan_node \<Rightarrow> bool" where
  "join_tree F (Scan t flt alias) = defined_opt F (map col_datatype (tbl_columns t)) flt"
| "join_tree F (Filter source predicate) = (join_tree F source \<and> defined_on F (column_types source) predicate)"
| "join_tree F (NestedLoopJoin l r predicate outer) = (\<not> outer \<and> join_tree F l \<and> join_tree F r \<and>
     length (column_types l @ column_types r) < 2 ^ 64 \<and> defined_opt F (column_types l @ column_types r) predicate)"
| "join_tree F _ = False"

text \<open>The rows of a tree, where a table has the given rows.\<close>

definition sat_opt :: "value_ops \<Rightarrow> sql_row \<Rightarrow> expression option \<Rightarrow> bool" where
  "sat_opt F row p = (case p of Some p \<Rightarrow> sat F row p | None \<Rightarrow> True)"

lemma sat_opt_simps [simp]: "sat_opt F row (Some p) = sat F row p" "sat_opt F row None"
  by (simp_all add: sat_opt_def)

fun tree_rows :: "value_ops \<Rightarrow> (string \<Rightarrow> sql_row list) \<Rightarrow> plan_node \<Rightarrow> sql_row list" where
  "tree_rows F tables (Scan t flt alias) = filter (\<lambda>row. sat_opt F row flt) (tables (tbl_name t))"
| "tree_rows F tables (Filter source predicate) = filter (\<lambda>row. sat F row predicate) (tree_rows F tables source)"
| "tree_rows F tables (NestedLoopJoin l r predicate outer) =
     concat (map (\<lambda>a. filter (\<lambda>row. sat_opt F row predicate) (map ((@) a) (tree_rows F tables r))) (tree_rows F tables l))"
| "tree_rows F tables _ = []"

text \<open>The tables that a plan scans hold typed rows.\<close>

primrec tables_typed :: "(string \<Rightarrow> sql_row list) \<Rightarrow> plan_node \<Rightarrow> bool" where
  "tables_typed tables (Aggregate source group_by aggregates) = tables_typed tables source"
| "tables_typed tables (Filter source predicate) = tables_typed tables source"
| "tables_typed tables (HashJoin l lc r rc outer) = (tables_typed tables l \<and> tables_typed tables r)"
| "tables_typed tables (IndexLookup t column vs alias) = True"
| "tables_typed tables (KeyLookup t keys alias) = True"
| "tables_typed tables (Limit source n) = tables_typed tables source"
| "tables_typed tables (NestedLoopJoin l r predicate outer) = (tables_typed tables l \<and> tables_typed tables r)"
| "tables_typed tables (Nothing labels) = True"
| "tables_typed tables (Offset source n) = tables_typed tables source"
| "tables_typed tables (Order source key) = tables_typed tables source"
| "tables_typed tables (Projection source expressions aliases) = tables_typed tables source"
| "tables_typed tables (Remap source targets) = tables_typed tables source"
| "tables_typed tables (Scan t flt alias) = (\<forall>row\<in>set (tables (tbl_name t)). row_of (map col_datatype (tbl_columns t)) row)"
| "tables_typed tables (Values rows) = True"

lemma join_tree_columns: "join_tree F n \<Longrightarrow> columns n = length (column_types n)"
  by (induction n) simp_all

lemma tree_rows_typed: "join_tree F n \<Longrightarrow> tables_typed tables n \<Longrightarrow> row \<in> set (tree_rows F tables n) \<Longrightarrow> row_of (column_types n) row"
  by (induction n arbitrary: row) (auto intro!: row_of_appendI)

lemma tree_rows_defined:
  "join_tree F n \<Longrightarrow> tables_typed tables n \<Longrightarrow> defined_on F (column_types n) p \<Longrightarrow> row \<in> set (tree_rows F tables n) \<Longrightarrow>
    defined_at F row p"
  using tree_rows_typed unfolding defined_on_def by blast

lemma joined_rows_defined:
  assumes "join_tree F l" "join_tree F r" "tables_typed tables l" "tables_typed tables r"
    and "defined_opt F (column_types l @ column_types r) p"
    and "a \<in> set (tree_rows F tables l)" "b \<in> set (tree_rows F tables r)"
  shows "case p of Some p \<Rightarrow> defined_at F (a @ b) p | None \<Rightarrow> True"
  using row_of_appendI [OF tree_rows_typed [OF assms(1,3,6)] tree_rows_typed [OF assms(2,4,7)]] assms(5)
  by (simp add: defined_opt_def defined_on_def split: option.splits)

text \<open>Execution of a tree yields its rows.\<close>

definition scans_tables :: "value_ops \<Rightarrow> 's sql_txn \<Rightarrow> 's \<Rightarrow> (string \<Rightarrow> sql_row list) \<Rightarrow> bool" where
  "scans_tables F T s tables = (\<forall>name flt. st_scan T name flt s =
     Ok (case flt of Some p \<Rightarrow> filter_rows F p (map Ok (tables name)) | None \<Rightarrow> map Ok (tables name)))"

lemma filter_rows_defined:
  assumes "\<forall>row\<in>set rows. defined_at F row p"
  shows "filter_rows F p (map Ok rows) = map Ok (filter (\<lambda>row. sat F row p) rows)"
proof -
  have "filter_item F p (Ok row) = (if sat F row p then [Ok row] else [])" if "row \<in> set rows" for row
    using assms that by (auto simp: filter_item_def defined_at_def logical_def sat_def)
  then show ?thesis unfolding filter_rows_def by (induction rows) auto
qed

lemma nested_loop_defined:
  assumes "\<forall>a\<in>set ls. \<forall>b\<in>set rs. case p of Some p \<Rightarrow> defined_at F (a @ b) p | None \<Rightarrow> True"
  shows "until_panic (nested_loop F p False n (map Ok ls) (map Ok rs)) =
    map Ok (concat (map (\<lambda>a. filter (\<lambda>row. sat_opt F row p) (map ((@) a) rs)) ls))"
proof -
  have item: "right_item F p a (Ok b) = (if sat_opt F (a @ b) p then [Ok (a @ b)] else [])" if "a \<in> set ls" "b \<in> set rs" for a b
  proof (cases p)
    case (Some e)
    with assms that obtain v where "evaluate F e (Some (a @ b)) = Ok v" "logical v" by (auto simp: defined_at_def)
    with Some show ?thesis by (auto simp: right_item_def join_matches_def sat_opt_def sat_def logical_def)
  qed (simp add: right_item_def join_matches_def sat_opt_def)
  have "left_items F p False n False a (map Ok rs) = map Ok (filter (\<lambda>row. sat_opt F row p) (map ((@) a) rs))" if "a \<in> set ls" for a
    using item [OF that] by (induction rs) (auto simp: left_items_def Let_def)
  then have "nested_loop F p False n (map Ok ls) (map Ok rs) =
      map Ok (concat (map (\<lambda>a. filter (\<lambda>row. sat_opt F row p) (map ((@) a) rs)) ls))"
    unfolding nested_loop_def by (induction ls) auto
  then show ?thesis by (simp add: until_panic_id image_iff)
qed

lemma execute_tree:
  assumes "scans_tables F T s tables"
  shows "join_tree F n \<Longrightarrow> tables_typed tables n \<Longrightarrow> execute_node F T s n = Ok (map Ok (tree_rows F tables n))"
proof (induction n)
  case (Filter source predicate)
  then have "\<forall>row\<in>set (tree_rows F tables source). defined_at F row predicate"
    using tree_rows_defined [of F source tables predicate] by simp
  with Filter show ?case by (simp add: filter_rows_defined)
next
  case (NestedLoopJoin l r predicate outer)
  then have "\<forall>a\<in>set (tree_rows F tables l). \<forall>b\<in>set (tree_rows F tables r).
      case predicate of Some p \<Rightarrow> defined_at F (a @ b) p | None \<Rightarrow> True"
    using joined_rows_defined [of F l r tables predicate] by simp
  with NestedLoopJoin show ?case by (simp add: join_items_nested_loop nested_loop_defined del: mult_Suc_right)
next
  case (Scan t flt nm)
  then show ?case
    using assms by (cases flt) (auto simp: scans_tables_def sat_opt_def defined_opt_def defined_on_def intro!: filter_rows_defined)
qed simp_all

section \<open>Pushing into a tree\<close>

lemma push_into_tree:
  assumes "join_tree F n" "defined_on F (column_types n) e" "tables_typed tables n" "push_into e n = (rest, m)"
  shows "rest = None" "join_tree F m" "column_types m = column_types n" "tables_typed tables m"
    "tree_rows F tables m = filter (\<lambda>row. sat F row e) (tree_rows F tables n)"
proof -
  have both: "sat F row (And e p) \<longleftrightarrow> sat F row e \<and> sat F row p"
    if "row_of (column_types n) row" "defined_on F (column_types n) p" for row p
    using assms(2) that sat_And unfolding defined_on_def by blast
  have *: "rest = None \<and> join_tree F m \<and> column_types m = column_types n \<and> tables_typed tables m \<and>
      tree_rows F tables m = filter (\<lambda>row. sat F row e) (tree_rows F tables n)"
  proof (cases n)
    case (Filter source p)
    have "row_of (column_types n) row" if "row \<in> set (tree_rows F tables source)" for row
      using assms that tree_rows_typed Filter by auto
    with Filter assms both show ?thesis
      by (auto simp: defined_on_def intro!: filter_cong)
  next
    case (NestedLoopJoin l r p outer)
    have typed: "row_of (column_types n) (a @ b)" if "a \<in> set (tree_rows F tables l)" "b \<in> set (tree_rows F tables r)" for a b
      using assms that tree_rows_typed NestedLoopJoin by (auto intro!: row_of_appendI)
    have "filter (\<lambda>row. sat F row (and_opt e p)) (map ((@) a) (tree_rows F tables r)) =
        filter (\<lambda>row. sat_opt F row p \<and> sat F row e) (map ((@) a) (tree_rows F tables r))" if "a \<in> set (tree_rows F tables l)" for a
      using typed [OF that] assms(1) both NestedLoopJoin
      by (intro filter_cong) (auto simp: sat_opt_def and_opt_def defined_opt_def split: option.splits)
    then have "tree_rows F tables (NestedLoopJoin l r (Some (and_opt e p)) outer) =
        filter (\<lambda>row. sat F row e) (tree_rows F tables n)"
      by (simp add: NestedLoopJoin filter_concat comp_def sat_opt_def conj_commute cong: map_cong)
    with NestedLoopJoin assms show ?thesis
      by (auto simp: defined_opt_def and_opt_def defined_on_def split: option.splits)
  next
    case (Scan t flt nm)
    have "row_of (column_types n) row" if "row \<in> set (tables (tbl_name t))" for row
      using assms(3) that Scan by auto
    then have "filter (\<lambda>row. sat F row (and_opt e flt)) (tables (tbl_name t)) =
        filter (\<lambda>row. sat_opt F row flt \<and> sat F row e) (tables (tbl_name t))"
      using assms(1) both Scan by (intro filter_cong) (auto simp: sat_opt_def and_opt_def defined_opt_def split: option.splits)
    with Scan assms show ?thesis
      by (auto simp: defined_opt_def and_opt_def defined_on_def sat_opt_def conj_commute split: option.splits)
  qed (use assms(1) in simp_all)
  then show "rest = None" "join_tree F m" "column_types m = column_types n" "tables_typed tables m"
    "tree_rows F tables m = filter (\<lambda>row. sat F row e) (tree_rows F tables n)" by blast+
qed

text \<open>The side of a join that an expression refers to.\<close>

definition refs_left :: "nat \<Rightarrow> expression \<Rightarrow> bool" where
  "refs_left n e = (\<exists>i\<in>columns_of e. i < n)"

definition refs_right :: "nat \<Rightarrow> expression \<Rightarrow> bool" where
  "refs_right n e = (\<exists>i\<in>columns_of e. n \<le> i)"

definition note_refs :: "nat \<Rightarrow> expression \<Rightarrow> bool \<times> bool \<Rightarrow> bool \<times> bool \<times> bool" where
  "note_refs n = (\<lambda>e (ref_left, ref_right).
     let refs = (case e of Column i \<Rightarrow> (ref_left \<or> i < n, ref_right \<or> i \<ge> n) | _ \<Rightarrow> (ref_left, ref_right))
     in (\<not> (fst refs \<and> snd refs), refs))"

definition tracks :: "(bool \<times> bool \<Rightarrow> bool \<times> bool \<times> bool) \<Rightarrow> bool \<Rightarrow> bool \<Rightarrow> bool" where
  "tracks f x y = (\<forall>a b. f (a, b) = (\<not> ((a \<or> x) \<and> (b \<or> y)), a \<or> x, b \<or> y))"

lemma tracks_and: "tracks f x y \<Longrightarrow> tracks g x' y' \<Longrightarrow> tracks (walk_and f g) (x \<or> x') (y \<or> y')"
  unfolding tracks_def walk_and_def by (auto split: bool.splits)

lemma tracks_node: "tracks V False False \<Longrightarrow> tracks f x y \<Longrightarrow> tracks (walk_and V f) x y"
  using tracks_and [of V False False f x y] by simp

lemma tracks_node2:
  "tracks V False False \<Longrightarrow> tracks f x y \<Longrightarrow> tracks g x' y' \<Longrightarrow> tracks (walk_and V (walk_and f g)) (x \<or> x') (y \<or> y')"
  by (intro tracks_node tracks_and)

lemma walk_note_refs: "tracks (walk (note_refs n) e) (refs_left n e) (refs_right n e)"
proof -
  have node: "tracks (note_refs n e) False False" if "\<nexists>i. e = Column i" for e
    using that by (cases e) (simp_all add: tracks_def note_refs_def)
  show ?thesis
  proof (induction e)
    case (Column i)
    show ?case by (auto simp: tracks_def note_refs_def refs_left_def refs_right_def)
  qed (simp_all add: refs_left_def refs_right_def bex_Un node tracks_node tracks_node2)
qed

lemma join_refs_eq: "join_refs n e = (refs_left n e, refs_right n e)"
  using walk_note_refs [of n e] unfolding tracks_def join_refs_def note_refs_def by simp

lemma classify_eq:
  "classify n es (push_left, push_right, predicate) =
    (push_left @ filter (\<lambda>e. \<not> refs_right n e) es, push_right @ filter (\<lambda>e. \<not> refs_left n e) es,
     predicate @ filter (\<lambda>e. refs_left n e \<and> refs_right n e) es)"
  by (induction es arbitrary: push_left push_right predicate) (auto simp: join_refs_eq split: bool.split)

text \<open>
  What may be pushed to one side: a defined predicate that refers to columns of this side only and follows from
  the conjuncts of the join.
\<close>

definition pushable :: "value_ops \<Rightarrow> data_type list \<Rightarrow> expression list \<Rightarrow> nat set \<Rightarrow> expression \<Rightarrow> bool" where
  "pushable F tys cs A e = (defined_on F tys e \<and> columns_of e \<subseteq> A \<and>
     (\<forall>row. row_of tys row \<longrightarrow> (\<forall>c\<in>set cs. sat F row c) \<longrightarrow> sat F row e))"

lemma column_lookups_Some:
  assumes "column_lookups es c = Some i"
  shows "i < length es" "is_column_lookup (es ! i) = Some c"
proof -
  have "(c, i) \<in> set (List.map_filter (\<lambda>(i, e). map_option (\<lambda>c. (c, i)) (is_column_lookup e)) (enumerate 0 es))"
    using map_of_SomeD [OF assms [unfolded column_lookups_def]] by simp
  then show "i < length es" "is_column_lookup (es ! i) = Some c"
    by (auto simp: map_filter_def enumerate_eq_zip in_set_zip)
qed

lemma pushable_copy:
  assumes "pushable F tys cs A q" "is_column_lookup q = Some a" "b \<in> B"
    and "Equal (Column x) (Column y) \<in> set cs" "defined_on F tys (Equal (Column x) (Column y))" "{x, y} = {a, b}"
  shows "pushable F tys cs B (replace_column a b q)"
proof -
  have q: "defined_on F tys q" using assms(1) by (simp add: pushable_def)
  note copied = copied_lookup [OF assms(2) q assms(5,6)]
  then show ?thesis using assms(1,3,4) by (auto simp: pushable_def)
qed

lemma copy_lookup_pushable:
  assumes "e \<in> set cs" "defined_on F tys e" "refs_left n e" "refs_right n e"
    and "\<forall>q\<in>set (pl @ xs). pushable F tys cs {..<n} q" "\<forall>q\<in>set (pr @ ys). pushable F tys cs {n..} q"
  shows "\<exists>xs' ys'. copy_lookup (column_lookups pl) (column_lookups pr) e (pl @ xs, pr @ ys) = (pl @ xs', pr @ ys') \<and>
    (\<forall>q\<in>set (pl @ xs'). pushable F tys cs {..<n} q) \<and> (\<forall>q\<in>set (pr @ ys'). pushable F tys cs {n..} q)"
proof (cases "\<exists>x y. e = Equal (Column x) (Column y)")
  case True
  then obtain x y where e: "e = Equal (Column x) (Column y)" by blast
  define l r where "l = min x y" and "r = max x y"
  have lr: "(if x > y then (y, x) else (x, y)) = (l, r)" "{x, y} = {l, r}" "l < n" "n \<le> r"
    using assms(3,4) by (auto simp: e l_def r_def refs_left_def refs_right_def)
  note copy = pushable_copy [OF _ _ _ assms(1) [unfolded e] assms(2) [unfolded e]]
  define ys' where "ys' = ys @ (case column_lookups pl l of Some i \<Rightarrow> [replace_column l r (pl ! i)] | None \<Rightarrow> [])"
  define xs' where "xs' = xs @ (case column_lookups pr r of Some i \<Rightarrow> [replace_column r l (pr ! i)] | None \<Rightarrow> [])"
  have "copy_lookup (column_lookups pl) (column_lookups pr) e (pl @ xs, pr @ ys) = (pl @ xs', pr @ ys')"
    by (auto simp: copy_lookup_def e lr(1) xs'_def ys'_def Let_def nth_append dest: column_lookups_Some split: option.splits)
  moreover have "pushable F tys cs {n..} (replace_column l r (pl ! i))" if "column_lookups pl l = Some i" for i
    using column_lookups_Some [OF that] assms(5) lr by (intro copy [of "{..<n}"]) auto
  moreover have "pushable F tys cs {..<n} (replace_column r l (pr ! i))" if "column_lookups pr r = Some i" for i
    using column_lookups_Some [OF that] assms(6) lr by (intro copy [of "{n..}"]) auto
  ultimately show ?thesis
    using assms(5,6) by (intro exI [of _ xs'] exI [of _ ys']) (auto simp: xs'_def ys'_def split: option.splits)
next
  case False
  then have "copy_lookup (column_lookups pl) (column_lookups pr) e (pl @ xs, pr @ ys) = (pl @ xs, pr @ ys)"
    by (auto simp: copy_lookup_def split: expression.splits)
  with assms(5,6) show ?thesis by blast
qed

lemma fold_copy_pushable:
  assumes "\<forall>e\<in>set es. e \<in> set cs \<and> defined_on F tys e \<and> refs_left n e \<and> refs_right n e"
    and "\<forall>q\<in>set (pl @ xs). pushable F tys cs {..<n} q" "\<forall>q\<in>set (pr @ ys). pushable F tys cs {n..} q"
  shows "\<exists>xs' ys'. fold (copy_lookup (column_lookups pl) (column_lookups pr)) es (pl @ xs, pr @ ys) = (pl @ xs', pr @ ys') \<and>
    (\<forall>q\<in>set (pl @ xs'). pushable F tys cs {..<n} q) \<and> (\<forall>q\<in>set (pr @ ys'). pushable F tys cs {n..} q)"
  using assms
proof (induction es arbitrary: xs ys)
  case (Cons e es)
  have e: "e \<in> set cs" "defined_on F tys e" "refs_left n e" "refs_right n e" using Cons.prems(1) by simp_all
  obtain xs1 ys1 where copy: "copy_lookup (column_lookups pl) (column_lookups pr) e (pl @ xs, pr @ ys) = (pl @ xs1, pr @ ys1)"
    "\<forall>q\<in>set (pl @ xs1). pushable F tys cs {..<n} q" "\<forall>q\<in>set (pr @ ys1). pushable F tys cs {n..} q"
    using copy_lookup_pushable [OF e Cons.prems(2,3)] by blast
  with Cons.IH [OF _ copy(2,3)] Cons.prems(1) show ?case by simp
qed auto

section \<open>Pushing the predicate of a join\<close>

definition push_opt :: "expression option \<Rightarrow> plan_node \<Rightarrow> plan_node" where
  "push_opt p n = (case p of Some e \<Rightarrow> snd (push_into e n) | None \<Rightarrow> n)"

lemma push_opt_tree:
  assumes "join_tree F n" "tables_typed tables n" "defined_opt F (column_types n) p"
  shows "join_tree F (push_opt p n)" "column_types (push_opt p n) = column_types n" "tables_typed tables (push_opt p n)"
    "tree_rows F tables (push_opt p n) = filter (\<lambda>row. sat_opt F row p) (tree_rows F tables n)"
    "p = Some e \<Longrightarrow> push_into e n = (None, push_opt p n)"
proof -
  have "join_tree F (push_opt p n) \<and> column_types (push_opt p n) = column_types n \<and> tables_typed tables (push_opt p n) \<and>
    tree_rows F tables (push_opt p n) = filter (\<lambda>row. sat_opt F row p) (tree_rows F tables n) \<and>
    (p = Some e \<longrightarrow> push_into e n = (None, push_opt p n))"
  proof (cases p)
    case (Some q)
    obtain rest m where m: "push_into q n = (rest, m)" by force
    have "defined_on F (column_types n) q" using assms(3) Some by (simp add: defined_opt_def)
    from push_into_tree [OF assms(1) this assms(2) m] m Some show ?thesis by (auto simp: push_opt_def sat_opt_def)
  qed (use assms in \<open>simp add: push_opt_def sat_opt_def\<close>)
  then show "join_tree F (push_opt p n)" "column_types (push_opt p n) = column_types n" "tables_typed tables (push_opt p n)"
    "tree_rows F tables (push_opt p n) = filter (\<lambda>row. sat_opt F row p) (tree_rows F tables n)"
    "p = Some e \<Longrightarrow> push_into e n = (None, push_opt p n)" by blast+
qed

lemma columns_of_and_vec: "and_vec es = Some e \<Longrightarrow> columns_of e = (\<Union>c\<in>set es. columns_of c)"
  by (induction es arbitrary: e rule: rev_induct) (auto simp: and_vec_snoc and_vec_None split: option.splits)

lemma and_vec_opt:
  assumes "\<forall>c\<in>set es. defined_on F tys c"
  shows "defined_opt F tys (and_vec es)" "row_of tys row \<Longrightarrow> sat_opt F row (and_vec es) \<longleftrightarrow> (\<forall>c\<in>set es. sat F row c)"
proof -
  have "(\<forall>c\<in>set es. defined_at F row c)" if "row_of tys row" for row using assms that unfolding defined_on_def by blast
  note * = and_vec_defined [OF _ this]
  show "defined_opt F tys (and_vec es)" using * by (auto simp: defined_opt_def defined_on_def split: option.splits)
  show "sat_opt F row (and_vec es) \<longleftrightarrow> (\<forall>c\<in>set es. sat F row c)" if "row_of tys row"
    using * that by (auto simp: sat_opt_def and_vec_None split: option.splits)
qed

lemma concat_map_filter: "concat (map f (filter P xs)) = concat (map (\<lambda>x. if P x then f x else []) xs)"
  by (induction xs) simp_all

lemma maybe_push_join_tree:
  assumes tree: "join_tree F (NestedLoopJoin l r (Some p) outer)" and typed: "tables_typed tables (NestedLoopJoin l r (Some p) outer)"
  obtains l' r' p' where "maybe_push_join (NestedLoopJoin l r (Some p) outer) = NestedLoopJoin l' r' p' outer"
    "join_tree F (NestedLoopJoin l' r' p' outer)" "column_types l' = column_types l" "column_types r' = column_types r"
    "tables_typed tables (NestedLoopJoin l' r' p' outer)"
    "tree_rows F tables (NestedLoopJoin l' r' p' outer) = tree_rows F tables (NestedLoopJoin l r (Some p) outer)"
proof -
  define cs where "cs = into_cnf_vec p"
  define n where "n = columns l"
  define pl0 where "pl0 = filter (\<lambda>e. \<not> refs_right n e) cs"
  define pr0 where "pr0 = filter (\<lambda>e. \<not> refs_left n e) cs"
  define pd where "pd = filter (\<lambda>e. refs_left n e \<and> refs_right n e) cs"
  let ?lt = "column_types l" and ?rt = "column_types r"
  let ?tys = "?lt @ ?rt"
  have l: "join_tree F l" "tables_typed tables l" and r: "join_tree F r" "tables_typed tables r" and outer: "\<not> outer"
    and small: "length ?lt + length ?rt < 2 ^ 64" and p: "defined_on F ?tys p"
    using tree typed by (simp_all add: defined_opt_def)
  have n: "n = length ?lt" using join_tree_columns [OF l(1)] by (simp add: n_def)
  have cs: "defined_on F ?tys c" if "c \<in> set cs" for c
    using p cnf_defined(1) that unfolding defined_on_def cs_def by blast
  have sat_p: "sat F row p \<longleftrightarrow> (\<forall>c\<in>set cs. sat F row c)" if "row_of ?tys row" for row
    using p cnf_defined(2) that unfolding defined_on_def cs_def by blast
  have "\<forall>q\<in>set (pl0 @ []). pushable F ?tys cs {..<n} q" "\<forall>q\<in>set (pr0 @ []). pushable F ?tys cs {n..} q"
    using cs by (auto simp: pl0_def pr0_def pushable_def refs_left_def refs_right_def not_le not_less)
  moreover have "\<forall>e\<in>set pd. e \<in> set cs \<and> defined_on F ?tys e \<and> refs_left n e \<and> refs_right n e"
    using cs by (auto simp: pd_def)
  ultimately obtain xs ys where fold:
      "fold (copy_lookup (column_lookups pl0) (column_lookups pr0)) pd (pl0, pr0) = (pl0 @ xs, pr0 @ ys)"
      "\<forall>q\<in>set (pl0 @ xs). pushable F ?tys cs {..<n} q" "\<forall>q\<in>set (pr0 @ ys). pushable F ?tys cs {n..} q"
    using fold_copy_pushable [of pd cs F ?tys n pl0 "[]" pr0 "[]"] by auto
  define pl where "pl = pl0 @ xs"
  define pr where "pr = pr0 @ ys"
  define sh where "sh = shift_column (- int n)"
  define p\<^sub>r where "p\<^sub>r = map_option sh (and_vec pr)"
  define l' where "l' = push_opt (and_vec pl) l"
  define r' where "r' = push_opt p\<^sub>r r"
  have pl_on: "\<forall>q\<in>set pl. defined_on F ?lt q"
    using fold(2) n defined_on_left unfolding pl_def pushable_def by blast
  note pushed_l = push_opt_tree [OF l and_vec_opt(1) [OF pl_on], folded l'_def]
  have pr_on: "defined_on F ?tys q" "columns_of q \<inter> {..<length ?lt} = {}" if "q \<in> set pr" for q
    using bspec [OF fold(3) that [unfolded pr_def]] n unfolding pushable_def by auto
  have and_pr: "defined_on F ?tys e" "columns_of e \<inter> {..<length ?lt} = {}" if e: "and_vec pr = Some e" for e
  proof -
    show "defined_on F ?tys e" using and_vec_opt(1) [of pr F ?tys] pr_on e by (simp add: defined_opt_def)
    show "columns_of e \<inter> {..<length ?lt} = {}" using columns_of_and_vec [OF e] pr_on(2) by blast
  qed
  have p\<^sub>r: "defined_opt F ?rt p\<^sub>r"
    using and_pr defined_on_right small n by (auto simp: p\<^sub>r_def sh_def defined_opt_def split: option.splits)
  have sat_right: "sat_opt F b p\<^sub>r \<longleftrightarrow> (\<forall>q\<in>set pr. sat F (a @ b) q)" if ab: "row_of ?lt a" "row_of ?rt b" for a b
  proof -
    have "sat F b (sh e) = sat F (a @ b) e" if e: "and_vec pr = Some e" for e
      using shift_down(2) [of e a b F] defined_on_range [OF and_pr(1) [OF e]] and_pr(2) [OF e] small n
        row_of_length [OF ab(1)] row_of_length [OF ab(2)]
      unfolding sh_def by force
    then have "sat_opt F b p\<^sub>r = sat_opt F (a @ b) (and_vec pr)" by (simp add: p\<^sub>r_def sat_opt_def split: option.split)
    with and_vec_opt(2) [of pr F ?tys "a @ b"] pr_on row_of_appendI [OF ab] show ?thesis by simp
  qed
  note pushed_r = push_opt_tree [OF r p\<^sub>r, folded r'_def]
  have pd_on: "\<forall>c\<in>set pd. defined_on F ?tys c" using cs by (simp add: pd_def)
  show thesis
  proof (rule that [of l' r' "and_vec pd"])
    show "maybe_push_join (NestedLoopJoin l r (Some p) outer) = NestedLoopJoin l' r' (and_vec pd) outer"
    proof -
      have c: "classify (columns l) (into_cnf_vec p) ([], [], []) = (pl0, pr0, pd)"
        unfolding classify_eq pl0_def pr0_def pd_def cs_def n_def by simp
      have l_none: "and_vec pl = None \<Longrightarrow> l' = l" and r_none: "and_vec pr = None \<Longrightarrow> r' = r"
        by (simp_all add: l'_def r'_def p\<^sub>r_def push_opt_def)
      have r_some: "push_into (shift_column (- int (columns l)) e) r = (None, r')" if "and_vec pr = Some e" for e
        using pushed_r(5) that by (simp add: p\<^sub>r_def sh_def n_def)
      have "columns l' = columns l" using join_tree_columns [OF l(1)] join_tree_columns [OF pushed_l(1)] pushed_l(2) by simp
      then show ?thesis
        using l_none r_none r_some pushed_l(5)
        by (simp add: c fold(1) flip: pl_def pr_def split: option.split)
    qed
    show types: "column_types l' = ?lt" "column_types r' = ?rt" by fact+
    show "join_tree F (NestedLoopJoin l' r' (and_vec pd) outer)"
      using pushed_l(1) pushed_r(1) outer small types and_vec_opt(1) [OF pd_on] by simp
    show "tables_typed tables (NestedLoopJoin l' r' (and_vec pd) outer)" using pushed_l(3) pushed_r(3) by simp
    have joined: "sat F (a @ b) p \<longleftrightarrow> sat_opt F a (and_vec pl) \<and> sat_opt F b p\<^sub>r \<and> sat_opt F (a @ b) (and_vec pd)"
      if a: "a \<in> set (tree_rows F tables l)" and b: "b \<in> set (tree_rows F tables r)" for a b
    proof -
      have ab: "row_of ?lt a" "row_of ?rt b" "row_of ?tys (a @ b)"
        using tree_rows_typed [OF l a] tree_rows_typed [OF r b] row_of_appendI by blast+
      have left: "sat_opt F a (and_vec pl) \<longleftrightarrow> (\<forall>q\<in>set pl. sat F (a @ b) q)"
        using and_vec_opt(2) [OF pl_on ab(1)] left_side(2) [of _ a F b] fold(2) n row_of_length [OF ab(1)]
        unfolding pl_def pushable_def by auto
      have "(\<forall>c\<in>set cs. sat F (a @ b) c) \<longleftrightarrow>
          (\<forall>q\<in>set pl. sat F (a @ b) q) \<and> (\<forall>q\<in>set pr. sat F (a @ b) q) \<and> (\<forall>c\<in>set pd. sat F (a @ b) c)"
        using fold(2,3) ab(3) unfolding pl_def pr_def pushable_def pl0_def pr0_def pd_def by auto
      with sat_p [OF ab(3)] left sat_right [OF ab(1,2)] and_vec_opt(2) [OF pd_on ab(3)] show ?thesis by simp
    qed
    have "filter (\<lambda>row. sat F row p) (map ((@) a) (tree_rows F tables r)) = (if sat_opt F a (and_vec pl)
        then filter (\<lambda>row. sat_opt F row (and_vec pd)) (map ((@) a) (tree_rows F tables r')) else [])"
      if "a \<in> set (tree_rows F tables l)" for a
      using joined [OF that] unfolding pushed_r(4) by (auto simp: filter_map comp_def filter_empty_conv intro!: arg_cong [where f = "map ((@) a)"] filter_cong)
    then show "tree_rows F tables (NestedLoopJoin l' r' (and_vec pd) outer) = tree_rows F tables (NestedLoopJoin l r (Some p) outer)"
      by (simp add: pushed_l(4) concat_map_filter cong: map_cong)
  qed
qed

section \<open>The pass\<close>

definition same_tree :: "value_ops \<Rightarrow> (string \<Rightarrow> sql_row list) \<Rightarrow> plan_node \<Rightarrow> plan_node \<Rightarrow> bool" where
  "same_tree F tables n m = (join_tree F m \<and> tables_typed tables m \<and> column_types m = column_types n \<and>
     tree_rows F tables m = tree_rows F tables n)"

lemma maybe_push_join_same:
  assumes "join_tree F n" "tables_typed tables n"
  shows "same_tree F tables n (maybe_push_join n)"
proof (cases "\<exists>l r p outer. n = NestedLoopJoin l r (Some p) outer")
  case True
  then obtain l r p outer where n: "n = NestedLoopJoin l r (Some p) outer" by blast
  show ?thesis
    using maybe_push_join_tree [OF assms [unfolded n]] unfolding n same_tree_def by (metis column_types.simps(3))
next
  case False
  then have "maybe_push_join n = n" by (cases n rule: maybe_push_join.cases) auto
  with assms show ?thesis by (simp add: same_tree_def)
qed

lemma same_tree_trans: "same_tree F tables n m \<Longrightarrow> same_tree F tables m k \<Longrightarrow> same_tree F tables n k"
  by (simp add: same_tree_def)

lemma push_filters_same: "join_tree F n \<Longrightarrow> tables_typed tables n \<Longrightarrow> same_tree F tables n (push_filters n)"
proof (induction n rule: push_filters.induct)
  case (1 n)
  show ?case
  proof (cases "\<exists>source predicate. n = Filter source predicate")
    case True
    then obtain source predicate where n: "n = Filter source predicate" by blast
    obtain rest m where m: "push_into predicate source = (rest, m)" by force
    have source: "join_tree F source" "defined_on F (column_types source) predicate" "tables_typed tables source"
      using "1.prems" n by simp_all
    note push = push_into_tree [OF source m]
    have "push_filters n = maybe_push_join (push_filters m)"
      by (subst push_filters.simps) (simp add: n m push(1))
    moreover have m_same: "same_tree F tables m (push_filters m)" using "1.IH" [OF n m [symmetric] push(1) push(2,4)] .
    moreover have "same_tree F tables n m" using push n by (simp add: same_tree_def)
    ultimately show ?thesis
      using maybe_push_join_same same_tree_trans by (metis same_tree_def)
  next
    case False
    then have "push_filters n = maybe_push_join n" by (subst push_filters.simps) (cases n; simp)
    with maybe_push_join_same [OF "1.prems"] show ?thesis by simp
  qed
qed

text \<open>The columns of a node and their labels stay, for any plan.\<close>

definition same_header :: "plan_node \<Rightarrow> plan_node \<Rightarrow> bool" where
  "same_header n m = (columns m = columns n \<and> (\<forall>i. column_label m i = column_label n i))"

lemma same_header_refl [simp]: "same_header n n"
  by (simp add: same_header_def)

lemma same_header_trans: "same_header n m \<Longrightarrow> same_header m k \<Longrightarrow> same_header n k"
  by (simp add: same_header_def)

lemma push_into_header: "push_into e n = (rest, m) \<Longrightarrow> same_header n m"
  by (cases "(e, n)" rule: push_into.cases) (auto simp: same_header_def)

lemma maybe_push_join_header: "same_header n (maybe_push_join n)"
proof (cases n rule: maybe_push_join.cases)
  case (1 l r p outer)
  then show ?thesis
    by (auto simp: same_header_def Let_def dest!: push_into_header split: prod.splits option.splits)
qed simp_all

lemma push_filters_header: "same_header n (push_filters n)"
proof (induction n rule: push_filters.induct)
  case (1 n)
  show ?case
  proof (cases "\<exists>source predicate. n = Filter source predicate")
    case True
    then obtain source predicate where n: "n = Filter source predicate" by blast
    obtain rest m where m: "push_into predicate source = (rest, m)" by force
    have "same_header n m" using push_into_header [OF m] by (simp add: n same_header_def)
    moreover have "same_header n (Filter m p)" for p using push_into_header [OF m] by (simp add: n same_header_def)
    ultimately show ?thesis
      using "1.IH" [OF n m [symmetric]] maybe_push_join_header same_header_trans
      by (subst push_filters.simps) (simp add: n m split: option.split, blast)
  next
    case False
    then have "push_filters n = maybe_push_join n" by (subst push_filters.simps) (cases n; simp)
    with maybe_push_join_header [of n] show ?thesis by simp
  qed
qed

text \<open>The pass on a tree, and on what stands above it.\<close>

lemma pushdown_tree:
  assumes "join_tree F n" "tables_typed tables n" "depth n \<le> k"
  shows "\<exists>m. transform_node k (\<lambda>n. Ok (push_filters n)) Ok n = Ok m \<and> same_tree F tables n m \<and> same_header n m"
  using assms
proof (induction k arbitrary: n)
  case (Suc k)
  let ?f = "transform_node k (\<lambda>n. Ok (push_filters n)) Ok"
  define m where "m = push_filters n"
  have m: "same_tree F tables n m" "same_header n m" "depth m \<le> Suc k"
    using push_filters_same [OF Suc.prems(1,2)] push_filters_header push_filters_depth [of n] Suc.prems(3) by (simp_all add: m_def)
  have IH: "\<exists>m'. ?f s = Ok m' \<and> same_tree F tables s m' \<and> same_header s m'"
    if "join_tree F s" "tables_typed tables s" "depth s \<le> k" for s
    using Suc.IH that by blast
  have tree: "join_tree F m" "tables_typed tables m" using m(1) by (simp_all add: same_tree_def)
  have "\<exists>m'. transform_sources ?f m = Ok m' \<and> same_tree F tables m m' \<and> same_header m m'"
  proof (cases m)
    case (Filter source predicate)
    with tree m(3) IH [of source] obtain s where "?f source = Ok s" "same_tree F tables source s" "same_header source s" by auto
    with Filter tree show ?thesis by (auto simp: node1_def same_tree_def same_header_def)
  next
    case (NestedLoopJoin l r p outer)
    with tree m(3) IH [of l] IH [of r] obtain l' r' where "?f l = Ok l'" "same_tree F tables l l'" "same_header l l'"
      "?f r = Ok r'" "same_tree F tables r r'" "same_header r r'" by auto
    with NestedLoopJoin tree show ?thesis by (auto simp: node2_def same_tree_def same_header_def)
  qed (use tree in \<open>simp_all add: same_tree_def\<close>)
  then obtain m' where "transform_sources ?f m = Ok m'" "same_tree F tables m m'" "same_header m m'" by blast
  with m show ?case using same_tree_trans same_header_trans by (auto simp: m_def)
qed (metis depth_pos le_zero_eq not_gr_zero)

fun takes_filter :: "plan_node \<Rightarrow> bool" where
  "takes_filter (Filter source predicate) = True"
| "takes_filter (NestedLoopJoin l r predicate outer) = True"
| "takes_filter (Scan t flt alias) = True"
| "takes_filter _ = False"

primrec inner_plan :: "value_ops \<Rightarrow> plan_node \<Rightarrow> bool" where
  "inner_plan F (Aggregate source group_by aggregates) = inner_plan F source"
| "inner_plan F (Filter source predicate) =
     (join_tree F (Filter source predicate) \<or> \<not> takes_filter source \<and> inner_plan F source)"
| "inner_plan F (HashJoin l lc r rc outer) = (inner_plan F l \<and> inner_plan F r)"
| "inner_plan F (IndexLookup t column vs alias) = True"
| "inner_plan F (KeyLookup t keys alias) = True"
| "inner_plan F (Limit source n) = inner_plan F source"
| "inner_plan F (NestedLoopJoin l r predicate outer) = join_tree F (NestedLoopJoin l r predicate outer)"
| "inner_plan F (Nothing labels) = True"
| "inner_plan F (Offset source n) = inner_plan F source"
| "inner_plan F (Order source key) = inner_plan F source"
| "inner_plan F (Projection source expressions aliases) = inner_plan F source"
| "inner_plan F (Remap source targets) = inner_plan F source"
| "inner_plan F (Scan t flt alias) = join_tree F (Scan t flt alias)"
| "inner_plan F (Values rows) = True"

lemma push_filters_above: "inner_plan F n \<Longrightarrow> \<not> join_tree F n \<Longrightarrow> push_filters n = n"
proof (cases n)
  case (Filter source predicate)
  assume "inner_plan F n" "\<not> join_tree F n"
  then have "push_into predicate source = (Some predicate, source)" using Filter by (cases source) auto
  with Filter show ?thesis by (subst push_filters.simps) simp
qed (subst push_filters.simps, simp)+

lemma pushdown_plan:
  assumes "scans_tables F T s tables"
  shows "inner_plan F n \<Longrightarrow> tables_typed tables n \<Longrightarrow> depth n \<le> k \<Longrightarrow>
    \<exists>m. transform_node k (\<lambda>n. Ok (push_filters n)) Ok n = Ok m \<and> execute_node F T s m = execute_node F T s n \<and> same_header n m"
proof (induction k arbitrary: n)
  case (Suc k)
  let ?f = "transform_node k (\<lambda>n. Ok (push_filters n)) Ok"
  show ?case
  proof (cases "join_tree F n")
    case True
    from pushdown_tree [OF this Suc.prems(2,3)] execute_tree [OF assms] True Suc.prems(2) show ?thesis
      by (fastforce simp: same_tree_def)
  next
    case False
    have IH: "\<exists>m. ?f source = Ok m \<and> execute_node F T s m = execute_node F T s source \<and> same_header source m"
      if "inner_plan F source" "tables_typed tables source" "depth source \<le> k" for source
      using Suc.IH that by blast
    have "\<exists>m. transform_sources ?f n = Ok m \<and> execute_node F T s m = execute_node F T s n \<and> same_header n m"
      using False Suc.prems
      by (cases n) (auto simp: node1_def node2_def same_header_def dest!: IH split: option.split expression.split label.split)
    with push_filters_above [OF Suc.prems(1) False] show ?thesis by auto
  qed
qed (metis depth_pos le_zero_eq not_gr_zero)

section \<open>Typing of equalities\<close>

lemma defined_equal_columns:
  assumes "i < length tys" "j < length tys" "tys ! i = tys ! j"
  shows "defined_on F tys (Equal (Column i) (Column j))"
  unfolding defined_on_def
proof (intro allI impI)
  fix row assume row: "row_of tys row"
  have len: "length row = length tys" using row_of_length [OF row] .
  have "in_column (tys ! j) (row ! i)" "in_column (tys ! j) (row ! j)"
    using list_all2_nthD [OF row [unfolded row_of_def]] assms by metis+
  with eval_equal_in_column in_column_not_mixed len assms(1,2)
  show "defined_at F row (Equal (Column i) (Column j))"
    by (fastforce simp: defined_at_def eval2_def lookup_column_def compares_alike_def)
qed

lemma defined_equal_constant:
  assumes "i < length tys" "in_column (tys ! i) v"
  shows "defined_on F tys (Equal (Column i) (Constant v))"
  unfolding defined_on_def
proof (intro allI impI)
  fix row assume row: "row_of tys row"
  have "in_column (tys ! i) (row ! i)"
    using list_all2_nthD [OF row [unfolded row_of_def]] assms by metis
  with eval_equal_in_column [OF this assms(2)] row_of_length [OF row] assms(1)
  show "defined_at F row (Equal (Column i) (Constant v))"
    by (auto simp: defined_at_def eval2_def lookup_column_def compares_alike_def is_constant_def)
qed

section \<open>Properties\<close>

text \<open>
  Property C9. Filter pushdown changes nothing that can be seen of a plan whose joins are inner joins of filtered scans: it
  succeeds, and the plan it returns has the same columns and labels and yields the same rows in the same order. Filters
  and join predicates on the scans are assumed to evaluate to a boolean or null on every row of the types of the
  columns, and to equate no integer with a float unless one side is a constant; scans return the rows of a
  table that satisfy their filter, and tables hold rows of their types, less than \<open>2 ^ 64\<close> columns in a join. On outer joins
  the pass is wrong (\<open>SqlOptimized.outer_where_pads\<close>, \<open>SqlOptimized.outer_on_drops\<close>).
\<close>

theorem pushdown_correct:
  assumes "inner_plan F n" "tables_typed tables n" "scans_tables F T s tables"
  shows "\<exists>m. filter_pushdown n = Ok m \<and> execute_node F T s m = execute_node F T s n \<and>
    columns m = columns n \<and> (\<forall>i. column_label m i = column_label n i)"
  using pushdown_plan [OF assms(3,1,2), of "depth n"] by (auto simp: filter_pushdown_def same_header_def)

end
