(* ===== verification/Mvcc.thy ===== *)
theory Mvcc
  imports KeySpace
begin

text \<open>
  \<^verbatim>\<open>src/storage/mvcc.rs\<close>: multi-version concurrency control on top of any storage engine. The
  shared engine behind the mutex is the state every method takes and returns; a method holds the
  lock from its first to its last engine call, so it is one function. A scan iterator locks
  the engine once per batch, and so takes the engine anew at each call. This theory holds the
  operations and the encoding of the MVCC keys; what they do to the stored versions is in
  \<open>MvccOps\<close>, isolation in \<open>MvccIsolation\<close>.
\<close>

section \<open>Keys\<close>

type_synonym version = u64

datatype mkey =
    NextVersion
  | TxnActive version
  | TxnActiveSnapshot version
  | TxnWrite version bytes
  | Version bytes version
  | Unversioned bytes

datatype mkey_prefix =
    PNextVersion
  | PTxnActive
  | PTxnActiveSnapshot
  | PTxnWrite version
  | PVersion bytes
  | PUnversioned

definition mkey_type :: kty where
  "mkey_type = TEnum [VUnit, VNew TU64, VNew TU64, VTup [TU64, TBytes], VTup [TBytes, TU64], VNew TBytes]"

fun mkey_kval :: "mkey \<Rightarrow> kval" where
  "mkey_kval NextVersion = KUnitVar 0"
| "mkey_kval (TxnActive v) = KNewVar 1 (KU64 v)"
| "mkey_kval (TxnActiveSnapshot v) = KNewVar 2 (KU64 v)"
| "mkey_kval (TxnWrite v k) = KTupVar 3 [KU64 v, KBytes k]"
| "mkey_kval (Version k v) = KTupVar 4 [KBytes k, KU64 v]"
| "mkey_kval (Unversioned k) = KNewVar 5 (KBytes k)"

definition mkey_of_kval :: "kval \<Rightarrow> mkey result" where
  "mkey_of_kval x =
     (case x of
        KUnitVar i \<Rightarrow> Ok NextVersion
      | KNewVar i y \<Rightarrow>
          (case y of
             KU64 v \<Rightarrow> Ok (if i = 1 then TxnActive v else TxnActiveSnapshot v)
           | KBytes k \<Rightarrow> Ok (Unversioned k)
           | _ \<Rightarrow> Panic ''not a value of the key type'')
      | KTupVar i ys \<Rightarrow>
          (case ys of
             [y, z] \<Rightarrow>
               (case y of
                  KU64 v \<Rightarrow> (case z of KBytes k \<Rightarrow> Ok (TxnWrite v k) | _ \<Rightarrow> Panic ''not a value of the key type'')
                | KBytes k \<Rightarrow> (case z of KU64 v \<Rightarrow> Ok (Version k v) | _ \<Rightarrow> Panic ''not a value of the key type'')
                | _ \<Rightarrow> Panic ''not a value of the key type'')
           | _ \<Rightarrow> Panic ''not a value of the key type'')
      | _ \<Rightarrow> Panic ''not a value of the key type'')"

fun mkey_prefix_kval :: "mkey_prefix \<Rightarrow> kval" where
  "mkey_prefix_kval PNextVersion = KUnitVar 0"
| "mkey_prefix_kval PTxnActive = KUnitVar 1"
| "mkey_prefix_kval PTxnActiveSnapshot = KUnitVar 2"
| "mkey_prefix_kval (PTxnWrite v) = KNewVar 3 (KU64 v)"
| "mkey_prefix_kval (PVersion k) = KNewVar 4 (KBytes k)"
| "mkey_prefix_kval PUnversioned = KUnitVar 5"

definition mkey_encode :: "mkey \<Rightarrow> bytes" where
  "mkey_encode k = unwrap (serialize (mkey_kval k))"

definition mkey_decode :: "bytes \<Rightarrow> mkey result" where
  "mkey_decode b = rbind (deserialize mkey_type b) mkey_of_kval"

definition prefix_encode :: "mkey_prefix \<Rightarrow> bytes" where
  "prefix_encode p = unwrap (serialize (mkey_prefix_kval p))"

section \<open>Values\<close>

text \<open>
  Values are written with the Bincode crate: the encoders and decoders of the three types the
  module stores are the fields of a record.
\<close>

record codec =
  enc_version :: "version \<Rightarrow> bytes"
  dec_version :: "bytes \<Rightarrow> version result"
  enc_versions :: "version set \<Rightarrow> bytes"
  dec_versions :: "bytes \<Rightarrow> version set result"
  enc_value :: "bytes option \<Rightarrow> bytes"
  dec_value :: "bytes \<Rightarrow> bytes option result"

definition codec_ok :: "codec \<Rightarrow> bool" where
  "codec_ok c = ((\<forall>v. dec_version c (enc_version c v) = Ok v) \<and>
     (\<forall>vs. finite vs \<longrightarrow> dec_versions c (enc_versions c vs) = Ok vs) \<and>
     (\<forall>x. dec_value c (enc_value c x) = Ok x))"

section \<open>Transactions\<close>

record txn_state =
  version :: version
  read_only :: bool
  active :: "version set"

definition is_visible :: "txn_state \<Rightarrow> version \<Rightarrow> bool" where
  "is_visible t v =
     (if v \<in> active t then False
      else if read_only t then v < version t
      else v \<le> version t)"

definition next_version :: "'e engine_ops \<Rightarrow> codec \<Rightarrow> 'e \<Rightarrow> version result" where
  "next_version E c e = rbind (e_get E (mkey_encode NextVersion) e) (\<lambda>v.
     case v of Some b \<Rightarrow> dec_version c b | None \<Rightarrow> Ok 1)"

fun scan_active_loop :: "(bytes \<times> bytes) result list \<Rightarrow> version set \<Rightarrow> version set result" where
  "scan_active_loop [] act = Ok act"
| "scan_active_loop (item # items) act = rbind item (\<lambda>(key, _). rbind (mkey_decode key) (\<lambda>k.
     case k of
       TxnActive v \<Rightarrow> scan_active_loop items (insert v act)
     | _ \<Rightarrow> Err (InvalidData ''expected TxnActive key, got {key:?}'')))"

definition scan_active :: "'e engine_ops \<Rightarrow> 'e \<Rightarrow> version set result" where
  "scan_active E e = rbind (e_scan_prefix E (prefix_encode PTxnActive) e) (\<lambda>items. scan_active_loop items {})"

definition txn_begin :: "'e engine_ops \<Rightarrow> codec \<Rightarrow> ('e, txn_state) op" where
  "txn_begin E c =
     sbind (sread (next_version E c)) (\<lambda>v.
     sbind (e_set E (mkey_encode NextVersion) (enc_version c (v + 1))) (\<lambda>_.
     sbind (sread (scan_active E)) (\<lambda>act.
     sbind (if act \<noteq> {} then e_set E (mkey_encode (TxnActiveSnapshot v)) (enc_versions c act)
            else sreturn ()) (\<lambda>_.
     sbind (e_set E (mkey_encode (TxnActive v)) []) (\<lambda>_.
     sreturn \<lparr>version = v, read_only = False, active = act\<rparr>)))))"

definition begin_read_only ::
  "'e engine_ops \<Rightarrow> codec \<Rightarrow> version option \<Rightarrow> 'e \<Rightarrow> txn_state result" where
  "begin_read_only E c as_of e =
     rbind (next_version E c e) (\<lambda>latest.
     case as_of of
       Some v \<Rightarrow>
         if v \<ge> latest then Err (InvalidInput ''version {as_of} does not exist'')
         else rbind (e_get E (mkey_encode (TxnActiveSnapshot v)) e) (\<lambda>snap.
              rbind (case snap of Some b \<Rightarrow> dec_versions c b | None \<Rightarrow> Ok {}) (\<lambda>act.
              Ok \<lparr>version = v, read_only = True, active = act\<rparr>))
     | None \<Rightarrow> rbind (scan_active E e) (\<lambda>act.
         Ok \<lparr>version = latest, read_only = True, active = act\<rparr>))"

definition resume :: "'e engine_ops \<Rightarrow> txn_state \<Rightarrow> 'e \<Rightarrow> txn_state result" where
  "resume E t e =
     (if read_only t then Ok t
      else rbind (e_get E (mkey_encode (TxnActive (version t))) e) (\<lambda>v.
        case v of
          None \<Rightarrow> Err (InvalidInput ''no active transaction at version {}'')
        | Some _ \<Rightarrow> Ok t))"

definition commit :: "'e engine_ops \<Rightarrow> txn_state \<Rightarrow> ('e, unit) op" where
  "commit E t =
     (if read_only t then sreturn ()
      else
        sbind (sread (\<lambda>e. rbind (e_scan_prefix E (prefix_encode (PTxnWrite (version t))) e)
          (map_list_result (\<lambda>item. rbind item (\<lambda>(k, _). Ok k))))) (\<lambda>remove.
        sbind (sfor remove (e_delete E)) (\<lambda>_.
        e_delete E (mkey_encode (TxnActive (version t))))))"

fun rollback_keys :: "version \<Rightarrow> (bytes \<times> bytes) result list \<Rightarrow> bytes list result" where
  "rollback_keys v [] = Ok []"
| "rollback_keys v (item # items) = rbind item (\<lambda>(key, _). rbind (mkey_decode key) (\<lambda>k.
     case k of
       TxnWrite _ user_key \<Rightarrow>
         rbind (rollback_keys v items) (\<lambda>rest. Ok (mkey_encode (Version user_key v) # key # rest))
     | _ \<Rightarrow> Err (InvalidData ''expected TxnWrite, got {key:?}'')))"

definition rollback :: "'e engine_ops \<Rightarrow> txn_state \<Rightarrow> ('e, unit) op" where
  "rollback E t =
     (if read_only t then sreturn ()
      else
        sbind (sread (\<lambda>e. rbind (e_scan_prefix E (prefix_encode (PTxnWrite (version t))) e)
          (rollback_keys (version t)))) (\<lambda>keys.
        sbind (sfor keys (e_delete E)) (\<lambda>_.
        e_delete E (mkey_encode (TxnActive (version t))))))"

definition write_version ::
  "'e engine_ops \<Rightarrow> codec \<Rightarrow> txn_state \<Rightarrow> bytes \<Rightarrow> bytes option \<Rightarrow> ('e, unit) op" where
  "write_version E c t key v =
     (if read_only t then slift (Err ReadOnly)
      else
        let from_key = mkey_encode (Version key (if active t = {} then version t + 1 else Min (active t)));
            to_key = mkey_encode (Version key u64_max)
        in
        sbind (sread (e_scan E (Included from_key, Included to_key))) (\<lambda>items.
        sbind (if items = [] then sreturn ()
               else slift (rbind (last items) (\<lambda>(k, _). rbind (mkey_decode k) (\<lambda>mk.
                 case mk of
                   Version _ w \<Rightarrow> if is_visible t w then Ok () else Err Serialization
                 | _ \<Rightarrow> Err (InvalidData ''expected Key::Version got {key:?}''))))) (\<lambda>_.
        sbind (e_set E (mkey_encode (TxnWrite (version t) key)) []) (\<lambda>_.
        e_set E (mkey_encode (Version key (version t))) (enc_value c v)))))"

definition txn_delete :: "'e engine_ops \<Rightarrow> codec \<Rightarrow> txn_state \<Rightarrow> bytes \<Rightarrow> ('e, unit) op" where
  "txn_delete E c t key = write_version E c t key None"

definition txn_set :: "'e engine_ops \<Rightarrow> codec \<Rightarrow> txn_state \<Rightarrow> bytes \<Rightarrow> bytes \<Rightarrow> ('e, unit) op" where
  "txn_set E c t key v = write_version E c t key (Some v)"

fun get_loop :: "codec \<Rightarrow> txn_state \<Rightarrow> (bytes \<times> bytes) result list \<Rightarrow> bytes option result" where
  "get_loop c t [] = Ok None"
| "get_loop c t (item # items) = rbind item (\<lambda>(key, v). rbind (mkey_decode key) (\<lambda>k.
     case k of
       Version _ w \<Rightarrow> if is_visible t w then dec_value c v else get_loop c t items
     | _ \<Rightarrow> Err (InvalidData ''expected Key::Version got {key:?}'')))"

definition txn_get :: "'e engine_ops \<Rightarrow> codec \<Rightarrow> txn_state \<Rightarrow> bytes \<Rightarrow> 'e \<Rightarrow> bytes option result" where
  "txn_get E c t key e =
     rbind (e_scan E (Included (mkey_encode (Version key 0)),
                      Included (mkey_encode (Version key (version t)))) e)
       (\<lambda>items. get_loop c t (rev items))"

section \<open>Scans\<close>

definition BUFFER_SIZE :: nat where
  "BUFFER_SIZE = 32"

record scan_iter =
  si_txn :: txn_state
  si_buffer :: "(bytes \<times> bytes) list"
  si_remainder :: "brange option"

definition scan_iter_new :: "txn_state \<Rightarrow> brange \<Rightarrow> scan_iter" where
  "scan_iter_new t r = \<lparr>si_txn = t, si_buffer = [], si_remainder = Some r\<rparr>"

definition scan_range :: "brange \<Rightarrow> brange" where
  "scan_range r =
     ((case fst r of
         Excluded k \<Rightarrow> Excluded (mkey_encode (Version k u64_max))
       | Included k \<Rightarrow> Included (mkey_encode (Version k 0))
       | Unbounded \<Rightarrow> Included (mkey_encode (Version [] 0))),
      (case snd r of
         Excluded k \<Rightarrow> Excluded (mkey_encode (Version k 0))
       | Included k \<Rightarrow> Included (mkey_encode (Version k u64_max))
       | Unbounded \<Rightarrow> Excluded (prefix_encode PUnversioned)))"

definition txn_scan :: "txn_state \<Rightarrow> brange \<Rightarrow> scan_iter" where
  "txn_scan t r = scan_iter_new t (scan_range r)"

definition txn_scan_prefix :: "txn_state \<Rightarrow> bytes \<Rightarrow> scan_iter" where
  "txn_scan_prefix t p =
     (let p' = prefix_encode (PVersion p)
      in scan_iter_new t (prefix_range (take (length p' - 2) p')))"

text \<open>The items \<^verbatim>\<open>VersionIterator\<close> yields for an engine scan.\<close>

fun version_iter ::
  "txn_state \<Rightarrow> (bytes \<times> bytes) result list \<Rightarrow> (bytes \<times> version \<times> bytes) result list" where
  "version_iter t [] = []"
| "version_iter t (item # items) =
     (case rbind item (\<lambda>(key, v). rbind (mkey_decode key) (\<lambda>k.
        case k of
          Version user_key w \<Rightarrow> Ok (if is_visible t w then Some (user_key, w, v) else None)
        | _ \<Rightarrow> Err (InvalidData ''expected Key::Version got {key:?}''))) of
        Ok None \<Rightarrow> version_iter t items
      | Ok (Some x) \<Rightarrow> Ok x # version_iter t items
      | Err e \<Rightarrow> Err e # version_iter t items
      | Panic p \<Rightarrow> Panic p # version_iter t items)"

text \<open>
  The loop of \<^verbatim>\<open>fill_buffer\<close> over the remaining items: the buffer, and the key and version the
  remaining range starts with, if any.
\<close>

primrec fill_loop ::
  "nat \<Rightarrow> codec \<Rightarrow> (bytes \<times> version \<times> bytes) result list \<Rightarrow> (bytes \<times> bytes) list \<Rightarrow>
   (bytes \<times> version) option result \<times> (bytes \<times> bytes) list" where
  "fill_loop cap c [] buffer = (Ok None, buffer)"
| "fill_loop cap c (item # items) buffer =
     (case item of
        Err e \<Rightarrow> (Err e, buffer)
      | Panic p \<Rightarrow> (Panic p, buffer)
      | Ok (key, w, v) \<Rightarrow>
          (case (case items of
                   [] \<Rightarrow> Ok False
                 | peek # _ \<Rightarrow> rbind peek (\<lambda>(next_key, _). Ok (next_key = key))) of
             Err e \<Rightarrow> (Err e, buffer)
           | Panic p \<Rightarrow> (Panic p, buffer)
           | Ok same \<Rightarrow>
               if same then fill_loop cap c items buffer
               else
                 (case dec_value c v of
                    Err e \<Rightarrow> (Err e, buffer)
                  | Panic p \<Rightarrow> (Panic p, buffer)
                  | Ok None \<Rightarrow> fill_loop cap c items buffer
                  | Ok (Some x) \<Rightarrow>
                      let buffer' = buffer @ [(key, x)]
                      in if length buffer' = cap
                         then (case items of
                                 [] \<Rightarrow> (Ok None, buffer')
                               | peek # _ \<Rightarrow>
                                   (rbind peek (\<lambda>(next_key, next_w, _). Ok (Some (next_key, next_w))), buffer'))
                         else fill_loop cap c items buffer')))"

definition fill_buffer :: "nat \<Rightarrow> 'e engine_ops \<Rightarrow> codec \<Rightarrow> 'e \<Rightarrow> (scan_iter, unit) op" where
  "fill_buffer cap E c e it =
     (if length (si_buffer it) \<ge> cap then (Ok (), it)
      else case si_remainder it of
        None \<Rightarrow> (Ok (), it)
      | Some r \<Rightarrow>
          (case e_scan E r e of
             Err err \<Rightarrow> (Err err, it\<lparr>si_remainder := None\<rparr>)
           | Panic p \<Rightarrow> (Panic p, it\<lparr>si_remainder := None\<rparr>)
           | Ok items \<Rightarrow>
               (case fill_loop cap c (version_iter (si_txn it) items) (si_buffer it) of
                  (Ok None, b) \<Rightarrow> (Ok (), it\<lparr>si_buffer := b, si_remainder := None\<rparr>)
                | (Ok (Some (key, w)), b) \<Rightarrow>
                    (Ok (), it\<lparr>si_buffer := b,
                       si_remainder := Some (Included (mkey_encode (Version key w)), snd r)\<rparr>)
                | (Err err, b) \<Rightarrow> (Err err, it\<lparr>si_buffer := b, si_remainder := None\<rparr>)
                | (Panic p, b) \<Rightarrow> (Panic p, it\<lparr>si_buffer := b, si_remainder := None\<rparr>))))"

definition scan_next ::
  "nat \<Rightarrow> 'e engine_ops \<Rightarrow> codec \<Rightarrow> 'e \<Rightarrow> scan_iter \<Rightarrow> (bytes \<times> bytes) result option \<times> scan_iter" where
  "scan_next cap E c e it =
     (case (if si_buffer it = [] then fill_buffer cap E c e it else (Ok (), it)) of
        (Err err, it') \<Rightarrow> (Some (Err err), it')
      | (Panic p, it') \<Rightarrow> (Some (Panic p), it')
      | (Ok _, it') \<Rightarrow>
          (case si_buffer it' of
             [] \<Rightarrow> (None, it')
           | kv # b \<Rightarrow> (Some (Ok kv), it'\<lparr>si_buffer := b\<rparr>)))"

text \<open>
  A client that pulls an iterator, the \<open>i\<close>-th call finding the engine in the \<open>i\<close>-th state of
  the list; it stops at the end of the scan.
\<close>

fun scan_pull ::
  "nat \<Rightarrow> 'e engine_ops \<Rightarrow> codec \<Rightarrow> 'e list \<Rightarrow> scan_iter \<Rightarrow> (bytes \<times> bytes) result list" where
  "scan_pull cap E c [] it = []"
| "scan_pull cap E c (e # es) it =
     (case scan_next cap E c e it of
        (None, _) \<Rightarrow> []
      | (Some x, it') \<Rightarrow> x # scan_pull cap E c es it')"

section \<open>The MVCC engine\<close>

definition get_unversioned :: "'e engine_ops \<Rightarrow> bytes \<Rightarrow> 'e \<Rightarrow> bytes option result" where
  "get_unversioned E key = e_get E (mkey_encode (Unversioned key))"

definition set_unversioned :: "'e engine_ops \<Rightarrow> bytes \<Rightarrow> bytes \<Rightarrow> ('e, unit) op" where
  "set_unversioned E key v = e_set E (mkey_encode (Unversioned key)) v"

record mvcc_status =
  ms_versions :: u64
  ms_active_txns :: nat
  ms_storage :: status

definition mvcc_status_of :: "'e engine_ops \<Rightarrow> codec \<Rightarrow> 'e \<Rightarrow> mvcc_status result" where
  "mvcc_status_of E c e =
     rbind (e_get E (mkey_encode NextVersion) e) (\<lambda>v.
     rbind (case v of Some b \<Rightarrow> rbind (dec_version c b) (\<lambda>w. Ok (w - 1)) | None \<Rightarrow> Ok 0) (\<lambda>versions.
     rbind (e_scan_prefix E (prefix_encode PTxnActive) e) (\<lambda>items.
     rbind (e_status E e) (\<lambda>st.
     Ok \<lparr>ms_versions = versions, ms_active_txns = length items, ms_storage = st\<rparr>))))"

end
