(* ===== verification/MvccOps.thy ===== *)
theory MvccOps
  imports Mvcc
begin

text \<open>
  What the MVCC operations do to the stored keys. \<open>stored m\<close> reads the contents of an engine
  as a partial map on MVCC keys; every operation is characterised by its effect on that map, for
  any engine that keeps the \<open>kv_engine\<close> contract.
\<close>

section \<open>Encoded keys\<close>

lemma mkey_kval_typed: "key_type mkey_type" "has_type mkey_type (mkey_kval k)"
  by (auto simp: mkey_type_def) (cases k; simp)

lemma mkey_serialize: "serialize (mkey_kval k) = Ok (mkey_encode k)"
  and deserialize_mkey: "deserialize mkey_type (mkey_encode k) = Ok (mkey_kval k)"
  using deserialize_serialize [OF mkey_kval_typed, of k] by (auto simp: mkey_encode_def)

lemma mkey_decode_encode [simp]: "mkey_decode (mkey_encode k) = Ok k"
  by (cases k) (simp_all add: mkey_decode_def deserialize_mkey mkey_of_kval_def)

lemma mkey_encode_inject [simp]: "mkey_encode k = mkey_encode k' \<longleftrightarrow> k = k'"
  using mkey_decode_encode by (metis result.inject(1))

lemma mkey_encode_bytes:
  "mkey_encode NextVersion = [0]"
  "mkey_encode (TxnActive v) = 1 # u64_to_be v"
  "mkey_encode (TxnActiveSnapshot v) = 2 # u64_to_be v"
  "mkey_encode (TxnWrite v k) = 3 # u64_to_be v @ serialize_bytes k"
  "mkey_encode (Version k v) = 4 # serialize_bytes k @ u64_to_be v"
  "mkey_encode (Unversioned k) = 5 # serialize_bytes k"
  by (simp_all add: mkey_encode_def serialize_def serialize_unit_variant_def)

lemma u64_to_be_inject: "u64_to_be v = u64_to_be w \<longleftrightarrow> v = w"
  using be_nat_u64 by (metis word_unat_eq_iff)

lemma prefix_encode_bytes:
  "prefix_encode PTxnActive = [1]"
  "prefix_encode (PTxnWrite v) = 3 # u64_to_be v"
  "prefix_encode (PVersion k) = 4 # serialize_bytes k"
  "prefix_encode PUnversioned = [5]"
  by (simp_all add: prefix_encode_def serialize_def serialize_unit_variant_def)

lemma mkey_encode_less:
  "mkey_encode k < mkey_encode k' \<longleftrightarrow> kv_less (mkey_kval k) (mkey_kval k')"
  using serialize_less [OF mkey_kval_typed(1) mkey_kval_typed(2) mkey_kval_typed(2) mkey_serialize mkey_serialize] .

lemma version_less [simp]:
  "mkey_encode (Version k u) < mkey_encode (Version k' w) \<longleftrightarrow> k < k' \<or> k = k' \<and> u < w"
  by (auto simp: mkey_encode_less)

lemma version_le [simp]:
  "mkey_encode (Version k u) \<le> mkey_encode (Version k' w) \<longleftrightarrow> k < k' \<or> k = k' \<and> u \<le> w"
  by (auto simp: order_le_less)

lemma Nil_less_bytes: "[] < (x :: bytes) \<longleftrightarrow> x \<noteq> []"
  by (cases x) auto

lemma version_least: "mkey_encode (Version [] 0) \<le> mkey_encode k \<longleftrightarrow> (\<exists>x y. k = Version x y \<or> k = Unversioned x)"
proof (cases k)
  case (Version x y)
  then show ?thesis by (cases x) auto
qed (simp_all add: order_le_less mkey_encode_less)

lemma below_unversioned: "mkey_encode k < [5] \<longleftrightarrow> (\<forall>x. k \<noteq> Unversioned x)"
  by (cases k) (auto simp: mkey_encode_bytes)

text \<open>The ranges the operations scan, in terms of keys.\<close>

lemma versions_of_key:
  "in_range (Included (mkey_encode (Version key a)), Included (mkey_encode (Version key b))) (mkey_encode k) \<longleftrightarrow>
   (\<exists>u. k = Version key u \<and> a \<le> u \<and> u \<le> b)"
proof (cases k)
  case (Unversioned x)
  then show ?thesis by (simp add: in_range_def order_le_less mkey_encode_less)
qed (auto simp: in_range_def order_le_less mkey_encode_less)

lemma prefix_active: "(\<exists>r. mkey_encode k = prefix_encode PTxnActive @ r) \<longleftrightarrow> (\<exists>v. k = TxnActive v)"
  by (cases k) (simp_all add: mkey_encode_bytes prefix_encode_bytes)

lemma prefix_write:
  "(\<exists>r. mkey_encode k = prefix_encode (PTxnWrite v) @ r) \<longleftrightarrow> (\<exists>key. k = TxnWrite v key)"
proof (cases k)
  case (TxnWrite w key)
  have "u64_to_be w @ serialize_bytes key = u64_to_be v @ r \<longleftrightarrow> w = v \<and> r = serialize_bytes key" for r
    by (auto simp: append_eq_append_conv u64_to_be_inject)
  with TxnWrite show ?thesis
    by (auto simp: mkey_encode_bytes prefix_encode_bytes)
qed (simp_all add: mkey_encode_bytes prefix_encode_bytes)

lemma scan_range_keys:
  "in_range (scan_range r) (mkey_encode k) \<longleftrightarrow> (\<exists>key u. k = Version key u \<and> in_range r key)"
proof (cases k)
  case (Version key u)
  have "above (fst (scan_range r)) (mkey_encode k) \<longleftrightarrow> above (fst r) key"
    using Version version_least [of k]
    by (cases "fst r") (auto simp: scan_range_def u64_max_def word_order.extremum)
  moreover have "below (snd (scan_range r)) (mkey_encode k) \<longleftrightarrow> below (snd r) key"
    using Version below_unversioned [of k]
    by (cases "snd r") (auto simp: scan_range_def u64_max_def word_order.extremum prefix_encode_bytes)
  ultimately show ?thesis
    using Version by (auto simp: in_range_def)
next
  case (Unversioned x)
  then have "\<not> below (snd (scan_range r)) (mkey_encode k)"
    using below_unversioned [of k]
    by (cases "snd r") (auto simp: scan_range_def prefix_encode_bytes order_le_less mkey_encode_less)
  with Unversioned show ?thesis by (simp add: in_range_def)
qed (auto simp: in_range_def scan_range_def order_le_less mkey_encode_less split: bound.splits)

lemma scan_range_valid: "range_valid r \<Longrightarrow> range_valid (scan_range r)"
  using version_least below_unversioned
  by (cases r rule: range_valid.cases)
    (auto simp: scan_range_def Nil_less_bytes prefix_encode_bytes u64_max_def less_imp_le split: bound.splits)

lemma sorted_list_of_set_Max:
  fixes S :: "version set"
  assumes "S \<noteq> {}"
  obtains us where "sorted_list_of_set S = us @ [Max S]"
proof -
  let ?xs = "sorted_list_of_set S"
  have "?xs \<noteq> []" using assms by simp
  then have xs: "butlast ?xs @ [last ?xs] = ?xs" by (rule append_butlast_last_id)
  have "sorted (butlast ?xs @ [last ?xs])" unfolding xs by simp
  then have "y \<le> last ?xs" if "y \<in> set (butlast ?xs @ [last ?xs])" for y
    using that by (auto simp: sorted_append)
  moreover have "set (butlast ?xs @ [last ?xs]) = S" unfolding xs by simp
  ultimately have "last ?xs = Max S"
    by (intro Max_eqI [symmetric]) auto
  with xs that show ?thesis by metis
qed

section \<open>The stored keys\<close>

interpretation mkey: key_space mkey_encode
  by unfold_locales simp

sublocale kv_engine \<subseteq> mv: keyed_engine E contents invar mkey_encode
  by unfold_locales

abbreviation stored :: "(bytes, bytes) btree \<Rightarrow> mkey \<Rightarrow> bytes option" where
  "stored \<equiv> kmap mkey_encode"

definition versions_of :: "(mkey \<Rightarrow> bytes option) \<Rightarrow> bytes \<Rightarrow> version set" where
  "versions_of K key = {u. K (Version key u) \<noteq> None}"

lemma versions_filter:
  assumes "bt_wf m" "only_keys mkey_encode m"
  shows "filter (\<lambda>x. in_range (Included (mkey_encode (Version key a)),
      Included (mkey_encode (Version key b))) (fst x)) m =
    map (\<lambda>u. (mkey_encode (Version key u), the (stored m (Version key u))))
      (sorted_list_of_set {u \<in> versions_of (stored m) key. a \<le> u \<and> u \<le> b})"
proof -
  let ?us = "sorted_list_of_set {u \<in> versions_of (stored m) key. a \<le> u \<and> u \<le> b}"
  have "set (map (Version key) ?us) = {k. in_range (Included (mkey_encode (Version key a)),
      Included (mkey_encode (Version key b))) (mkey_encode k) \<and> stored m k \<noteq> None}"
    by (auto simp: versions_of_key versions_of_def)
  moreover have "sorted_wrt (\<lambda>k k'. mkey_encode k < mkey_encode k') (map (Version key) ?us)"
    by (simp add: sorted_wrt_map)
  ultimately show ?thesis
    using mkey.kmap_filter [OF assms, of "map (Version key) ?us"] by (simp add: comp_def)
qed

section \<open>Operations on the stored keys\<close>

text \<open>What each operation means on the map of stored keys.\<close>

definition a_next :: "codec \<Rightarrow> (mkey \<Rightarrow> bytes option) \<Rightarrow> version" where
  "a_next c K = (case K NextVersion of None \<Rightarrow> 1 | Some b \<Rightarrow> unwrap (dec_version c b))"

definition next_ok :: "codec \<Rightarrow> (mkey \<Rightarrow> bytes option) \<Rightarrow> bool" where
  "next_ok c K = (K NextVersion = None \<or> (\<exists>v. K NextVersion = Some (enc_version c v)))"

definition a_active :: "(mkey \<Rightarrow> bytes option) \<Rightarrow> version set" where
  "a_active K = {v. K (TxnActive v) \<noteq> None}"

definition a_begin :: "codec \<Rightarrow> (mkey \<Rightarrow> bytes option) \<Rightarrow> mkey \<Rightarrow> bytes option" where
  "a_begin c K =
     (let v = a_next c K;
          K1 = K(NextVersion \<mapsto> enc_version c (v + 1));
          K2 = (if a_active K \<noteq> {} then K1(TxnActiveSnapshot v \<mapsto> enc_versions c (a_active K)) else K1)
      in K2(TxnActive v \<mapsto> []))"

definition a_commit :: "version \<Rightarrow> (mkey \<Rightarrow> bytes option) \<Rightarrow> mkey \<Rightarrow> bytes option" where
  "a_commit v K k =
     (case k of
        TxnActive u \<Rightarrow> if u = v then None else K k
      | TxnWrite u key \<Rightarrow> if u = v then None else K k
      | _ \<Rightarrow> K k)"

definition a_rollback :: "version \<Rightarrow> (mkey \<Rightarrow> bytes option) \<Rightarrow> mkey \<Rightarrow> bytes option" where
  "a_rollback v K k =
     (case k of
        Version key u \<Rightarrow> if u = v \<and> K (TxnWrite v key) \<noteq> None then None else K k
      | _ \<Rightarrow> a_commit v K k)"

definition a_write ::
  "codec \<Rightarrow> version \<Rightarrow> bytes \<Rightarrow> bytes option \<Rightarrow> (mkey \<Rightarrow> bytes option) \<Rightarrow> mkey \<Rightarrow> bytes option" where
  "a_write c v key x K = K(TxnWrite v key \<mapsto> [], Version key v \<mapsto> enc_value c x)"

definition latest :: "version set \<Rightarrow> version option" where
  "latest S = (if S = {} then None else Some (Max S))"

definition a_get :: "codec \<Rightarrow> txn_state \<Rightarrow> bytes \<Rightarrow> (mkey \<Rightarrow> bytes option) \<Rightarrow> bytes option result" where
  "a_get c t key K =
     (case latest {u \<in> versions_of K key. is_visible t u} of
        None \<Rightarrow> Ok None
      | Some u \<Rightarrow> dec_value c (the (K (Version key u))))"

context kv_engine
begin

lemma repr_versions:
  assumes "mv.repr e K" "a \<le> b"
  shows "e_scan E (Included (mkey_encode (Version key a)), Included (mkey_encode (Version key b))) e =
    Ok (map (\<lambda>u. Ok (mkey_encode (Version key u), the (K (Version key u))))
      (sorted_list_of_set {u \<in> versions_of K key. a \<le> u \<and> u \<le> b}))"
  using assms scan_Ok [of e "(Included (mkey_encode (Version key a)), Included (mkey_encode (Version key b)))"]
    versions_filter [OF contents_wf, of e key a b]
  by (auto simp: mv.repr_def)

lemma repr_active_items:
  assumes "mv.repr e K"
  shows "e_scan_prefix E (prefix_encode PTxnActive) e =
    Ok (map (\<lambda>v. Ok (mkey_encode (TxnActive v), the (K (TxnActive v)))) (sorted_list_of_set (a_active K)))"
proof -
  let ?ks = "map TxnActive (sorted_list_of_set (a_active K))"
  have "sorted_wrt (\<lambda>k k'. mkey_encode k < mkey_encode k') ?ks"
    by (simp add: sorted_wrt_map mkey_encode_less)
  from mv.repr_prefix [OF assms this, of "prefix_encode PTxnActive"] show ?thesis
    by (auto simp: prefix_active a_active_def comp_def)
qed

lemma repr_write_items:
  assumes "mv.repr e K"
  shows "\<exists>keys. set keys = {key. K (TxnWrite v key) \<noteq> None} \<and>
    e_scan_prefix E (prefix_encode (PTxnWrite v)) e =
      Ok (map (\<lambda>key. Ok (mkey_encode (TxnWrite v key), the (K (TxnWrite v key)))) keys)"
proof -
  let ?S = "{key. K (TxnWrite v key) \<noteq> None}"
  have "finite ?S"
  proof (rule finite_imageD)
    have "(\<lambda>key. mkey_encode (TxnWrite v key)) ` ?S \<subseteq> dom (map_of (contents e))"
      using assms by (auto simp: mv.repr_def kmap_def)
    then show "finite ((\<lambda>key. mkey_encode (TxnWrite v key)) ` ?S)"
      by (rule finite_subset) (rule finite_dom_map_of)
  qed (simp add: inj_on_def)
  then have set: "set (sorted_list_of_set ?S) = ?S" by simp
  have "sorted_wrt (\<lambda>k k'. mkey_encode k < mkey_encode k') (map (TxnWrite v) (sorted_list_of_set ?S))"
    by (simp add: sorted_wrt_map mkey_encode_less)
  from mv.repr_prefix [OF assms this, of "prefix_encode (PTxnWrite v)"] set show ?thesis
    by (intro exI [of _ "sorted_list_of_set ?S"]) (auto simp: prefix_write comp_def)
qed

section \<open>Effects\<close>

lemma repr_next:
  assumes "codec_ok c" "mv.repr e K" "next_ok c K"
  shows "next_version E c e = Ok (a_next c K)"
  using assms by (auto simp: next_version_def mv.repr_get next_ok_def a_next_def codec_ok_def)

lemma scan_active_loop_items:
  "scan_active_loop (map (\<lambda>v. Ok (mkey_encode (TxnActive v), f v)) vs) act = Ok (act \<union> set vs)"
  by (induction vs arbitrary: act) simp_all

lemma repr_scan_active: "mv.repr e K \<Longrightarrow> scan_active E e = Ok (a_active K)"
  by (simp add: scan_active_def repr_active_items scan_active_loop_items)

lemma begin_effect:
  assumes "codec_ok c" "mv.repr e K" "next_ok c K"
  shows "\<exists>e'. txn_begin E c e =
      (Ok \<lparr>version = a_next c K, read_only = False, active = a_active K\<rparr>, e') \<and> mv.repr e' (a_begin c K)"
proof -
  let ?v = "a_next c K"
  let ?K1 = "K(NextVersion \<mapsto> enc_version c (?v + 1))"
  obtain e1 where e1: "e_set E (mkey_encode NextVersion) (enc_version c (?v + 1)) e = (Ok (), e1)" "mv.repr e1 ?K1"
    using mv.repr_set [OF assms(2)] by blast
  have act: "scan_active E e1 = Ok (a_active K)"
    using repr_scan_active [OF e1(2)] by (simp add: a_active_def)
  let ?K2 = "if a_active K \<noteq> {} then ?K1(TxnActiveSnapshot ?v \<mapsto> enc_versions c (a_active K)) else ?K1"
  obtain e2 where e2: "(if a_active K \<noteq> {}
      then e_set E (mkey_encode (TxnActiveSnapshot ?v)) (enc_versions c (a_active K))
      else sreturn ()) e1 = (Ok (), e2)" "mv.repr e2 ?K2"
    using mv.repr_set [OF e1(2), of "TxnActiveSnapshot ?v"] e1(2) by (cases "a_active K = {}") auto
  obtain e3 where e3: "e_set E (mkey_encode (TxnActive ?v)) [] e2 = (Ok (), e3)" "mv.repr e3 (?K2(TxnActive ?v \<mapsto> []))"
    using mv.repr_set [OF e2(2)] by blast
  have "txn_begin E c e = (Ok \<lparr>version = ?v, read_only = False, active = a_active K\<rparr>, e3)"
    using e2(1) act by (cases "a_active K = {}")
      (simp_all add: txn_begin_def sbind_def repr_next [OF assms] e1(1) e3(1))
  moreover have "a_begin c K = ?K2(TxnActive ?v \<mapsto> [])"
    unfolding a_begin_def Let_def by (rule refl)
  ultimately show ?thesis
    using e3(2) by simp
qed

lemma begin_read_only_effect:
  assumes "codec_ok c" "mv.repr e K" "next_ok c K"
  shows "begin_read_only E c None e = Ok \<lparr>version = a_next c K, read_only = True, active = a_active K\<rparr>"
    and "begin_read_only E c (Some v) e =
      (if v \<ge> a_next c K then Err (InvalidInput ''version {as_of} does not exist'')
       else rbind (case K (TxnActiveSnapshot v) of Some b \<Rightarrow> dec_versions c b | None \<Rightarrow> Ok {})
         (\<lambda>act. Ok \<lparr>version = v, read_only = True, active = act\<rparr>))"
  by (simp_all add: begin_read_only_def repr_next [OF assms] repr_scan_active [OF assms(2)] mv.repr_get [OF assms(2)])

lemma resume_effect:
  assumes "mv.repr e K"
  shows "resume E t e =
    (if read_only t \<or> version t \<in> a_active K then Ok t
     else Err (InvalidInput ''no active transaction at version {}''))"
  by (auto simp: resume_def mv.repr_get [OF assms] a_active_def split: option.split)

lemma commit_effect:
  assumes "mv.repr e K" "\<not> read_only t"
  shows "\<exists>e'. commit E t e = (Ok (), e') \<and> mv.repr e' (a_commit (version t) K)"
proof -
  let ?v = "version t"
  obtain keys where keys: "set keys = {key. K (TxnWrite ?v key) \<noteq> None}"
    and items: "e_scan_prefix E (prefix_encode (PTxnWrite ?v)) e =
      Ok (map (\<lambda>key. Ok (mkey_encode (TxnWrite ?v key), the (K (TxnWrite ?v key)))) keys)"
    using repr_write_items [OF assms(1)] by blast
  have remove: "map_list_result (\<lambda>item. rbind item (\<lambda>(k, _). Ok k))
      (map (\<lambda>key. Ok (mkey_encode (TxnWrite ?v key), the (K (TxnWrite ?v key)))) keys) =
      Ok (map mkey_encode (map (TxnWrite ?v) keys))"
    by (induction keys) simp_all
  obtain e1 where e1: "sfor (map mkey_encode (map (TxnWrite ?v) keys)) (e_delete E) e = (Ok (), e1)"
    "mv.repr e1 (\<lambda>k. if k \<in> set (map (TxnWrite ?v) keys) then None else K k)" (is "mv.repr e1 ?K1")
    using mv.repr_delete_all [OF assms(1)] by blast
  obtain e2 where e2: "e_delete E (mkey_encode (TxnActive ?v)) e1 = (Ok (), e2)"
    "mv.repr e2 (?K1(TxnActive ?v := None))"
    using mv.repr_delete [OF e1(2)] by blast
  have "?K1(TxnActive ?v := None) = a_commit ?v K"
    using keys by (auto simp: fun_eq_iff a_commit_def split: mkey.split)
  with e1 e2 show ?thesis
    using assms(2) by (simp add: commit_def sbind_def items remove del: map_map)
qed

lemma rollback_keys_items:
  "rollback_keys v (map (\<lambda>key. Ok (mkey_encode (TxnWrite v key), f key)) keys) =
   Ok (map mkey_encode (concat (map (\<lambda>key. [Version key v, TxnWrite v key]) keys)))"
  by (induction keys) simp_all

lemma rollback_effect:
  assumes "mv.repr e K" "\<not> read_only t"
  shows "\<exists>e'. rollback E t e = (Ok (), e') \<and> mv.repr e' (a_rollback (version t) K)"
proof -
  let ?v = "version t"
  obtain keys where keys: "set keys = {key. K (TxnWrite ?v key) \<noteq> None}"
    and items: "e_scan_prefix E (prefix_encode (PTxnWrite ?v)) e =
      Ok (map (\<lambda>key. Ok (mkey_encode (TxnWrite ?v key), the (K (TxnWrite ?v key)))) keys)"
    using repr_write_items [OF assms(1)] by blast
  let ?ks = "concat (map (\<lambda>key. [Version key ?v, TxnWrite ?v key]) keys)"
  obtain e1 where e1: "sfor (map mkey_encode ?ks) (e_delete E) e = (Ok (), e1)"
    "mv.repr e1 (\<lambda>k. if k \<in> set ?ks then None else K k)" (is "mv.repr e1 ?K1")
    using mv.repr_delete_all [OF assms(1)] by blast
  obtain e2 where e2: "e_delete E (mkey_encode (TxnActive ?v)) e1 = (Ok (), e2)"
    "mv.repr e2 (?K1(TxnActive ?v := None))"
    using mv.repr_delete [OF e1(2)] by blast
  have "?K1(TxnActive ?v := None) = a_rollback ?v K"
    using keys by (auto simp: fun_eq_iff a_rollback_def a_commit_def split: mkey.split)
  with e1 e2 show ?thesis
    using assms(2) by (simp add: rollback_def sbind_def items rollback_keys_items del: map_map map_concat)
qed

lemma get_loop_items:
  "get_loop c t (map (\<lambda>u. Ok (mkey_encode (Version key u), f u)) us) =
   (case filter (is_visible t) us of [] \<Rightarrow> Ok None | u # _ \<Rightarrow> dec_value c (f u))"
  by (induction us) auto

lemma get_effect:
  assumes "mv.repr e K"
  shows "txn_get E c t key e = a_get c t key K"
proof -
  let ?S = "{u \<in> versions_of K key. u \<le> version t}"
  let ?V = "{u \<in> versions_of K key. is_visible t u}"
  have V: "filter (is_visible t) (sorted_list_of_set ?S) = sorted_list_of_set ?V"
  proof (rule strict_sorted_equal)
    show "set (filter (is_visible t) (sorted_list_of_set ?S)) = set (sorted_list_of_set ?V)"
      by (auto simp: is_visible_def split: if_splits)
  qed (simp_all add: sorted_wrt_filter)
  have "txn_get E c t key e =
      get_loop c t (map (\<lambda>u. Ok (mkey_encode (Version key u), the (K (Version key u)))) (rev (sorted_list_of_set ?S)))"
    by (simp add: txn_get_def repr_versions [OF assms] rev_map)
  also have "... = (case rev (sorted_list_of_set ?V) of [] \<Rightarrow> Ok None
      | u # _ \<Rightarrow> dec_value c (the (K (Version key u))))"
    by (simp add: get_loop_items rev_filter [symmetric] V)
  also have "... = a_get c t key K"
  proof (cases "?V = {}")
    case False
    then obtain us where "sorted_list_of_set ?V = us @ [Max ?V]"
      by (rule sorted_list_of_set_Max)
    with False show ?thesis by (auto simp: a_get_def latest_def)
  next
    case True
    then show ?thesis by (simp only: a_get_def latest_def) simp
  qed
  finally show ?thesis .
qed

lemma write_effect:
  fixes t key K
  defines "W \<equiv> {u \<in> versions_of K key. (if active t = {} then version t + 1 else Min (active t)) \<le> u}"
  assumes "mv.repr e K" "\<not> read_only t"
  shows "W \<noteq> {} \<and> \<not> is_visible t (Max W) \<Longrightarrow> write_version E c t key x e = (Err Serialization, e)"
    and "W = {} \<or> is_visible t (Max W) \<Longrightarrow>
      \<exists>e'. write_version E c t key x e = (Ok (), e') \<and> mv.repr e' (a_write c (version t) key x K)"
proof -
  let ?from = "if active t = {} then version t + 1 else Min (active t)"
  let ?item = "\<lambda>u. Ok (mkey_encode (Version key u), the (K (Version key u)))"
  have items: "e_scan E (Included (mkey_encode (Version key ?from)), Included (mkey_encode (Version key u64_max))) e =
      Ok (map ?item (sorted_list_of_set W))"
    using repr_versions [OF assms(2), of ?from u64_max key] by (simp add: W_def u64_max_def)
  have max: "last (map ?item (sorted_list_of_set W)) = ?item (Max W)" if "W \<noteq> {}"
    using that by (rule sorted_list_of_set_Max) simp
  have W0: "sorted_list_of_set W = [] \<longleftrightarrow> W = {}"
    by simp
  show "write_version E c t key x e = (Err Serialization, e)" if "W \<noteq> {} \<and> \<not> is_visible t (Max W)"
    using that assms(3) max by (simp add: write_version_def Let_def items sbind_def W0)
  show "\<exists>e'. write_version E c t key x e = (Ok (), e') \<and> mv.repr e' (a_write c (version t) key x K)"
    if "W = {} \<or> is_visible t (Max W)"
  proof -
    obtain e1 where e1: "e_set E (mkey_encode (TxnWrite (version t) key)) [] e = (Ok (), e1)"
      "mv.repr e1 (K(TxnWrite (version t) key \<mapsto> []))"
      using mv.repr_set [OF assms(2)] by blast
    obtain e2 where "e_set E (mkey_encode (Version key (version t))) (enc_value c x) e1 = (Ok (), e2)"
      "mv.repr e2 (a_write c (version t) key x K)"
      using mv.repr_set [OF e1(2)] unfolding a_write_def by blast
    then show ?thesis
      using that assms(3) max e1(1) by (auto simp: write_version_def Let_def items sbind_def W0)
  qed
qed

lemma write_read_only: "read_only t \<Longrightarrow> write_version E c t key x e = (Err ReadOnly, e)"
  by (simp add: write_version_def)

end

end
