(* ===== verification/MvccIsolation.thy ===== *)
theory MvccIsolation
  imports MvccOps
begin

text \<open>
  Transaction isolation. \<open>mv_inv\<close> is the invariant of the stored keys and \<open>txn_ok\<close> what holds of
  an open transaction; every operation of any transaction keeps them. \<open>vis\<close> is the set of versions
  a transaction can see: no step of another transaction changes it. The properties are stated
  for runs of the operations on a new BitCask database.
\<close>

section \<open>The invariant of the stored keys\<close>

definition snap :: "codec \<Rightarrow> (mkey \<Rightarrow> bytes option) \<Rightarrow> version \<Rightarrow> version set" where
  "snap c K v = (case K (TxnActiveSnapshot v) of None \<Rightarrow> {} | Some b \<Rightarrow> unwrap (dec_versions c b))"

definition values_ok :: "codec \<Rightarrow> (mkey \<Rightarrow> bytes option) \<Rightarrow> bool" where
  "values_ok c K = (next_ok c K \<and>
     (\<forall>v b. K (TxnActiveSnapshot v) = Some b \<longrightarrow> (\<exists>A. b = enc_versions c A)) \<and>
     (\<forall>key v b. K (Version key v) = Some b \<longrightarrow> (\<exists>x. b = enc_value c x)))"

definition allocated :: "codec \<Rightarrow> (mkey \<Rightarrow> bytes option) \<Rightarrow> bool" where
  "allocated c K =
     ((\<forall>v \<in> a_active K. v < a_next c K) \<and>
      (\<forall>v. K (TxnActiveSnapshot v) \<noteq> None \<longrightarrow> v < a_next c K) \<and>
      (\<forall>key. \<forall>v \<in> versions_of K key. v < a_next c K))"

definition writes_ok :: "(mkey \<Rightarrow> bytes option) \<Rightarrow> bool" where
  "writes_ok K = (\<forall>v key. K (TxnWrite v key) \<noteq> None \<longleftrightarrow> v \<in> a_active K \<and> v \<in> versions_of K key)"

definition snaps_ok :: "codec \<Rightarrow> (mkey \<Rightarrow> bytes option) \<Rightarrow> bool" where
  "snaps_ok c K =
     ((\<forall>v < a_next c K. a_active K \<inter> {..<v} \<subseteq> snap c K v) \<and>
      (\<forall>v < a_next c K. snap c K v \<subseteq> {..<v}) \<and>
      (\<forall>w < a_next c K. \<forall>v < w. snap c K w \<inter> {..<v} \<subseteq> snap c K v))"

text \<open>First updater wins: two versions of a key never come from concurrent transactions.\<close>

definition no_overlap :: "codec \<Rightarrow> (mkey \<Rightarrow> bytes option) \<Rightarrow> bool" where
  "no_overlap c K = (\<forall>key. \<forall>u \<in> versions_of K key. \<forall>w \<in> versions_of K key. u < w \<longrightarrow> u \<notin> snap c K w)"

definition mv_inv :: "codec \<Rightarrow> (mkey \<Rightarrow> bytes option) \<Rightarrow> bool" where
  "mv_inv c K = (values_ok c K \<and> allocated c K \<and> writes_ok K \<and> snaps_ok c K \<and> no_overlap c K)"

definition txn_ok :: "codec \<Rightarrow> (mkey \<Rightarrow> bytes option) \<Rightarrow> txn_state \<Rightarrow> bool" where
  "txn_ok c K t =
     (version t \<le> a_next c K \<and> active t \<subseteq> {..<version t} \<and>
      a_active K \<inter> {..<version t} \<subseteq> active t \<and>
      (\<not> read_only t \<longrightarrow> version t \<in> a_active K \<and> active t = snap c K (version t)))"

text \<open>The versions a transaction can see.\<close>

definition vis :: "(mkey \<Rightarrow> bytes option) \<Rightarrow> txn_state \<Rightarrow> bytes \<Rightarrow> version \<Rightarrow> bytes option" where
  "vis K t key u = (if is_visible t u then K (Version key u) else None)"

lemmas mv_inv_defs = mv_inv_def values_ok_def allocated_def writes_ok_def snaps_ok_def no_overlap_def

lemma mv_inv_empty: "mv_inv c (\<lambda>_. None)"
  by (auto simp: mv_inv_defs next_ok_def a_active_def versions_of_def snap_def)

lemma a_get_vis:
  "a_get c t key K = (case latest {u. vis K t key u \<noteq> None} of
     None \<Rightarrow> Ok None | Some u \<Rightarrow> dec_value c (the (vis K t key u)))"
proof -
  have "{u \<in> versions_of K key. is_visible t u} = {u. vis K t key u \<noteq> None}"
    by (auto simp: versions_of_def vis_def)
  moreover have "vis K t key u = K (Version key u)" if "latest {u. vis K t key u \<noteq> None} = Some u" for u
  proof -
    have "u \<in> {u. vis K t key u \<noteq> None}"
      using that Max_in [of "{u. vis K t key u \<noteq> None}"] by (auto simp: latest_def split: if_splits)
    then show ?thesis by (auto simp: vis_def)
  qed
  ultimately show ?thesis
    by (auto simp: a_get_def split: option.splits)
qed

lemma vis_get_cong: "vis K t = vis K' t \<Longrightarrow> a_get c t key K = a_get c t key K'"
  by (simp only: a_get_vis)

section \<open>Steps on the stored keys\<close>

subsection \<open>Begin\<close>

lemma a_begin_simps:
  "a_begin c K NextVersion = Some (enc_version c (a_next c K + 1))"
  "a_begin c K (TxnActive v) = (if v = a_next c K then Some [] else K (TxnActive v))"
  "a_begin c K (TxnActiveSnapshot v) =
     (if v = a_next c K \<and> a_active K \<noteq> {} then Some (enc_versions c (a_active K)) else K (TxnActiveSnapshot v))"
  "a_begin c K (TxnWrite v key) = K (TxnWrite v key)"
  "a_begin c K (Version key v) = K (Version key v)"
  by (auto simp: a_begin_def Let_def)

lemma begin_fields:
  assumes "codec_ok c" "mv_inv c K"
  shows "a_next c (a_begin c K) = a_next c K + 1"
    and "a_active (a_begin c K) = insert (a_next c K) (a_active K)"
    and "versions_of (a_begin c K) = versions_of K"
    and "snap c (a_begin c K) = (snap c K)(a_next c K := a_active K)"
proof -
  have "K (TxnActiveSnapshot (a_next c K)) = None"
    using assms(2) by (auto simp: mv_inv_defs)
  then show "snap c (a_begin c K) = (snap c K)(a_next c K := a_active K)"
    using assms(1) by (auto simp: snap_def a_begin_simps codec_ok_def fun_eq_iff)
qed (use assms(1) in \<open>auto simp: a_next_def [of c "a_begin c K"] a_active_def versions_of_def a_begin_simps codec_ok_def\<close>)

lemma begin_inv:
  assumes "codec_ok c" "mv_inv c K" "a_next c K \<noteq> u64_max"
  shows "mv_inv c (a_begin c K)"
proof -
  have up: "v < a_next c K + 1 \<longleftrightarrow> v \<le> a_next c K" for v
    using assms(3) by (intro less_plus_one) (simp add: u64_max_def)
  note f = begin_fields [OF assms(1,2)]
  have "values_ok c (a_begin c K)"
    using assms(2) by (auto simp: mv_inv_defs next_ok_def a_begin_simps split: if_splits)
  moreover have "allocated c (a_begin c K)"
    using assms(2) by (auto simp: mv_inv_defs f up a_begin_simps split: if_splits intro: less_imp_le)
  moreover have "writes_ok (a_begin c K)"
    using assms(2) by (fastforce simp: mv_inv_defs f a_begin_simps)
  moreover have "snaps_ok c (a_begin c K)"
    using assms(2) unfolding mv_inv_def snaps_ok_def allocated_def f up
    by (auto simp: order_le_less split: if_splits)
  moreover have "no_overlap c (a_begin c K)"
    using assms(2) by (fastforce simp: mv_inv_defs f)
  ultimately show ?thesis by (simp add: mv_inv_def)
qed

lemma begin_txn:
  assumes "codec_ok c" "mv_inv c K" "a_next c K \<noteq> u64_max"
  shows "txn_ok c (a_begin c K) \<lparr>version = a_next c K, read_only = False, active = a_active K\<rparr>"
  using assms less_plus_one [of "a_next c K" "a_next c K"]
  by (auto simp: txn_ok_def begin_fields u64_max_def mv_inv_defs less_imp_le)

lemma begin_others:
  assumes "codec_ok c" "mv_inv c K" "a_next c K \<noteq> u64_max" "txn_ok c K t"
  shows "txn_ok c (a_begin c K) t" "vis (a_begin c K) t = vis K t"
proof -
  have "version t < a_next c K + 1"
    using assms(3,4) less_plus_one [of "a_next c K"] by (simp add: txn_ok_def u64_max_def)
  moreover have "version t \<noteq> a_next c K" if "\<not> read_only t"
    using assms(2,4) that by (auto simp: txn_ok_def mv_inv_defs)
  ultimately show "txn_ok c (a_begin c K) t"
    using assms by (auto simp: txn_ok_def begin_fields less_imp_le)
  show "vis (a_begin c K) t = vis K t"
    by (simp add: vis_def fun_eq_iff a_begin_simps)
qed

lemma read_only_txn:
  assumes "codec_ok c" "mv_inv c K"
  shows "txn_ok c K \<lparr>version = a_next c K, read_only = True, active = a_active K\<rparr>"
    and "v < a_next c K \<Longrightarrow> txn_ok c K \<lparr>version = v, read_only = True, active = snap c K v\<rparr>"
  using assms by (auto simp: txn_ok_def mv_inv_defs)

lemma snap_decodes:
  assumes "codec_ok c" "mv_inv c K"
  shows "(case K (TxnActiveSnapshot v) of Some b \<Rightarrow> dec_versions c b | None \<Rightarrow> Ok {}) = Ok (snap c K v)"
  using assms by (fastforce simp: mv_inv_def values_ok_def snap_def codec_ok_def split: option.split)

lemma snap_mono:
  assumes "mv_inv c K" "w < a_next c K" "v < w" "u < v" "u \<in> snap c K w"
  shows "u \<in> snap c K v"
  using assms unfolding mv_inv_def snaps_ok_def by blast

subsection \<open>Commit and rollback\<close>

lemma end_simps:
  "a_commit v K NextVersion = K NextVersion" "a_rollback v K NextVersion = K NextVersion"
  "a_commit v K (TxnActive u) = (if u = v then None else K (TxnActive u))"
  "a_rollback v K (TxnActive u) = (if u = v then None else K (TxnActive u))"
  "a_commit v K (TxnActiveSnapshot u) = K (TxnActiveSnapshot u)"
  "a_rollback v K (TxnActiveSnapshot u) = K (TxnActiveSnapshot u)"
  "a_commit v K (TxnWrite u key) = (if u = v then None else K (TxnWrite u key))"
  "a_rollback v K (TxnWrite u key) = (if u = v then None else K (TxnWrite u key))"
  "a_commit v K (Version key u) = K (Version key u)"
  by (simp_all add: a_commit_def a_rollback_def)

text \<open>Under the invariant a rollback removes exactly the versions of the transaction.\<close>

lemma rollback_versions:
  assumes "mv_inv c K" "v \<in> a_active K"
  shows "a_rollback v K (Version key u) = (if u = v then None else K (Version key u))"
  using assms by (auto simp: a_rollback_def mv_inv_defs versions_of_def)

lemma end_fields:
  "a_next c (a_commit v K) = a_next c K" "a_next c (a_rollback v K) = a_next c K"
  "a_active (a_commit v K) = a_active K - {v}" "a_active (a_rollback v K) = a_active K - {v}"
  "snap c (a_commit v K) = snap c K" "snap c (a_rollback v K) = snap c K"
  "versions_of (a_commit v K) = versions_of K"
  by (auto simp: a_next_def a_active_def snap_def versions_of_def end_simps fun_eq_iff)

lemma rollback_versions_of:
  assumes "mv_inv c K" "v \<in> a_active K"
  shows "versions_of (a_rollback v K) key = versions_of K key - {v}"
  by (auto simp: versions_of_def rollback_versions [OF assms])

lemma commit_inv:
  assumes "mv_inv c K" "v \<in> a_active K"
  shows "mv_inv c (a_commit v K)"
proof -
  have "values_ok c (a_commit v K)"
    using assms(1) by (simp add: mv_inv_def values_ok_def next_ok_def end_simps)
  moreover have "allocated c (a_commit v K)"
    using assms(1) by (simp add: mv_inv_def allocated_def end_fields end_simps)
  moreover have "writes_ok (a_commit v K)"
    using assms(1) by (auto simp: mv_inv_def writes_ok_def end_fields end_simps)
  moreover have "snaps_ok c (a_commit v K)"
    using assms(1) by (auto simp: mv_inv_def snaps_ok_def end_fields)
  moreover have "no_overlap c (a_commit v K)"
    using assms(1) by (simp add: mv_inv_def no_overlap_def end_fields)
  ultimately show ?thesis by (simp add: mv_inv_def)
qed

lemma rollback_inv:
  assumes "mv_inv c K" "v \<in> a_active K"
  shows "mv_inv c (a_rollback v K)"
proof -
  note r = rollback_versions [OF assms] rollback_versions_of [OF assms]
  have "values_ok c (a_rollback v K)"
    using assms(1) by (auto simp: mv_inv_def values_ok_def next_ok_def end_simps r split: if_splits)
  moreover have "allocated c (a_rollback v K)"
    using assms(1) by (auto simp: mv_inv_def allocated_def end_fields end_simps r)
  moreover have "writes_ok (a_rollback v K)"
    using assms(1) by (auto simp: mv_inv_def writes_ok_def end_fields end_simps r)
  moreover have "snaps_ok c (a_rollback v K)"
    using assms(1) by (auto simp: mv_inv_def snaps_ok_def end_fields)
  moreover have "no_overlap c (a_rollback v K)"
    using assms(1) by (auto simp: mv_inv_def no_overlap_def end_fields r)
  ultimately show ?thesis by (simp add: mv_inv_def)
qed

text \<open>A transaction does not see the version of another open one.\<close>

lemma other_invisible:
  assumes "txn_ok c K t" "v \<in> a_active K" "read_only t \<or> version t \<noteq> v"
  shows "\<not> is_visible t v"
  using assms by (auto simp: is_visible_def txn_ok_def order_le_less split: if_splits)

lemma end_others:
  assumes "mv_inv c K" "v \<in> a_active K" "txn_ok c K t" "read_only t \<or> version t \<noteq> v"
  shows "txn_ok c (a_commit v K) t" "txn_ok c (a_rollback v K) t"
    "vis (a_commit v K) t = vis K t" "vis (a_rollback v K) t = vis K t"
  using assms(3,4) other_invisible [OF assms(3,2,4)]
  by (auto simp: txn_ok_def end_fields vis_def fun_eq_iff end_simps rollback_versions [OF assms(1,2)])

subsection \<open>Writes\<close>

lemma a_write_simps:
  "a_write c v key x K NextVersion = K NextVersion"
  "a_write c v key x K (TxnActive u) = K (TxnActive u)"
  "a_write c v key x K (TxnActiveSnapshot u) = K (TxnActiveSnapshot u)"
  "a_write c v key x K (TxnWrite u key') = (if u = v \<and> key' = key then Some [] else K (TxnWrite u key'))"
  "a_write c v key x K (Version key' u) = (if u = v \<and> key' = key then Some (enc_value c x) else K (Version key' u))"
  by (auto simp: a_write_def)

lemma write_fields:
  "a_next c (a_write c v key x K) = a_next c K"
  "a_active (a_write c v key x K) = a_active K"
  "snap c (a_write c v key x K) = snap c K"
  "versions_of (a_write c v key x K) = (versions_of K)(key := insert v (versions_of K key))"
  by (auto simp: a_next_def a_active_def snap_def versions_of_def a_write_simps fun_eq_iff)

text \<open>
  The conflict check looks only at the latest version from the oldest concurrent transaction
  on. Under the invariant that is enough: it passes exactly when all versions are visible.
\<close>

lemma conflict_check:
  fixes t key K
  defines "W \<equiv> {u \<in> versions_of K key. (if active t = {} then version t + 1 else Min (active t)) \<le> u}"
  assumes "mv_inv c K" "txn_ok c K t" "\<not> read_only t"
  shows "(W = {} \<or> is_visible t (Max W)) \<longleftrightarrow> (\<forall>u \<in> versions_of K key. is_visible t u)"
proof -
  have v: "version t < a_next c K" "active t = snap c K (version t)" "active t \<subseteq> {..<version t}"
    using assms(2-4) by (auto simp: txn_ok_def mv_inv_def allocated_def)
  then have "version t \<noteq> - 1"
    using word_order.extremum [of "a_next c K"] by auto
  have below: "is_visible t u" if u: "u \<in> versions_of K key" "u \<notin> W" for u
  proof (cases "active t = {}")
    case True
    with u assms(4) less_plus_one [OF \<open>version t \<noteq> - 1\<close>, of u] show ?thesis
      by (auto simp: W_def is_visible_def not_le)
  next
    case False
    with u have "\<forall>a \<in> active t. u < a" by (simp add: W_def not_le)
    moreover obtain a where "a \<in> active t" "a < version t" using False v(3) by auto
    ultimately show ?thesis
      using assms(4) by (auto simp: is_visible_def)
  qed
  have up: "is_visible t u" if "u \<in> versions_of K key" "w \<in> versions_of K key" "u < w" "is_visible t w" for u w
  proof -
    have w: "w \<le> version t" "w \<notin> snap c K (version t)"
      using that(4) v(2) assms(4) by (auto simp: is_visible_def split: if_splits)
    have "u \<notin> snap c K w"
      using assms(2) that by (auto simp: mv_inv_def no_overlap_def)
    then have "u \<notin> snap c K (version t)"
      using snap_mono [OF assms(2) v(1), of w u] w(1) that(3) by (cases "w = version t") (auto simp: order_le_less)
    then show ?thesis
      using w(1) that(3) v(2) assms(4) by (auto simp: is_visible_def)
  qed
  show ?thesis
  proof (cases "W = {}")
    case False
    then have "Max W \<in> versions_of K key" "\<And>u. u \<in> W \<Longrightarrow> u \<le> Max W"
      using Max_in [of W] by (auto simp: W_def)
    with below up False show ?thesis by (metis order_le_less)
  qed (use below in auto)
qed

lemma write_inv:
  assumes "mv_inv c K" "txn_ok c K t" "\<not> read_only t" "\<forall>u \<in> versions_of K key. is_visible t u"
  shows "mv_inv c (a_write c (version t) key x K)"
proof -
  have act: "version t \<in> a_active K" and nxt: "version t < a_next c K"
    and t: "active t = snap c K (version t)"
    using assms(1-3) by (auto simp: txn_ok_def mv_inv_def allocated_def)
  have "values_ok c (a_write c (version t) key x K)"
    using assms(1) by (auto simp: mv_inv_def values_ok_def next_ok_def a_write_simps)
  moreover have "allocated c (a_write c (version t) key x K)"
    using assms(1) nxt by (auto simp: mv_inv_def allocated_def write_fields a_write_simps)
  moreover have "writes_ok (a_write c (version t) key x K)"
    using assms(1) act by (auto simp: mv_inv_def writes_ok_def write_fields a_write_simps)
  moreover have "snaps_ok c (a_write c (version t) key x K)"
    using assms(1) by (simp add: mv_inv_def snaps_ok_def write_fields)
  moreover have "no_overlap c (a_write c (version t) key x K)"
    using assms t by (fastforce simp: mv_inv_def no_overlap_def write_fields is_visible_def split: if_splits)
  ultimately show ?thesis by (simp add: mv_inv_def)
qed

lemma write_txn: "txn_ok c K t \<Longrightarrow> txn_ok c (a_write c v key x K) t"
  by (simp add: txn_ok_def write_fields)

lemma write_others:
  assumes "txn_ok c K t" "v \<in> a_active K" "read_only t \<or> version t \<noteq> v"
  shows "vis (a_write c v key x K) t = vis K t"
  using other_invisible [OF assms] by (auto simp: vis_def fun_eq_iff a_write_simps)

section \<open>Runs\<close>

text \<open>
  A step is one call of one client; the state is the engine and the open transactions. The
  event records the call. A new transaction needs a version below the largest 64-bit number.
\<close>

datatype mv_event =
    EBegin txn_state
  | EReadOnly "version option" txn_state
  | EWrite txn_state bytes "bytes option" "unit result"
  | ECommit txn_state
  | ERollback txn_state
  | EUnversioned bytes bytes

fun actor :: "mv_event \<Rightarrow> txn_state option" where
  "actor (EWrite t key x r) = Some t"
| "actor (ECommit t) = Some t"
| "actor (ERollback t) = Some t"
| "actor _ = None"

inductive mv_step ::
  "'e engine_ops \<Rightarrow> codec \<Rightarrow> 'e \<times> txn_state set \<Rightarrow> mv_event \<Rightarrow> 'e \<times> txn_state set \<Rightarrow> bool"
  for E c where
  step_begin: "next_version E c e \<noteq> Ok u64_max \<Longrightarrow> txn_begin E c e = (Ok t, e') \<Longrightarrow>
    mv_step E c (e, ts) (EBegin t) (e', insert t ts)"
| step_read_only: "begin_read_only E c as_of e = Ok t \<Longrightarrow>
    mv_step E c (e, ts) (EReadOnly as_of t) (e, insert t ts)"
| step_write: "t \<in> ts \<Longrightarrow> write_version E c t key x e = (r, e') \<Longrightarrow>
    mv_step E c (e, ts) (EWrite t key x r) (e', ts)"
| step_commit: "t \<in> ts \<Longrightarrow> commit E t e = (Ok (), e') \<Longrightarrow>
    mv_step E c (e, ts) (ECommit t) (e', ts - {t})"
| step_rollback: "t \<in> ts \<Longrightarrow> rollback E t e = (Ok (), e') \<Longrightarrow>
    mv_step E c (e, ts) (ERollback t) (e', ts - {t})"
| step_unversioned: "set_unversioned E key v e = (Ok (), e') \<Longrightarrow>
    mv_step E c (e, ts) (EUnversioned key v) (e', ts)"

inductive mv_run ::
  "'e engine_ops \<Rightarrow> codec \<Rightarrow> 'e \<times> txn_state set \<Rightarrow> mv_event list \<Rightarrow> 'e \<times> txn_state set \<Rightarrow> bool"
  for E c where
  run_nil: "mv_run E c s [] s"
| run_snoc: "mv_run E c s evs s' \<Longrightarrow> mv_step E c s' ev s'' \<Longrightarrow> mv_run E c s (evs @ [ev]) s''"

text \<open>The same steps on the stored keys.\<close>

type_synonym kstate = "(mkey \<Rightarrow> bytes option) \<times> txn_state set"

inductive k_step :: "codec \<Rightarrow> kstate \<Rightarrow> mv_event \<Rightarrow> kstate \<Rightarrow> bool" for c where
  k_begin: "a_next c K \<noteq> u64_max \<Longrightarrow> t = \<lparr>version = a_next c K, read_only = False, active = a_active K\<rparr> \<Longrightarrow>
    k_step c (K, ts) (EBegin t) (a_begin c K, insert t ts)"
| k_latest: "t = \<lparr>version = a_next c K, read_only = True, active = a_active K\<rparr> \<Longrightarrow>
    k_step c (K, ts) (EReadOnly None t) (K, insert t ts)"
| k_as_of: "v < a_next c K \<Longrightarrow> t = \<lparr>version = v, read_only = True, active = snap c K v\<rparr> \<Longrightarrow>
    k_step c (K, ts) (EReadOnly (Some v) t) (K, insert t ts)"
| k_write: "t \<in> ts \<Longrightarrow> \<not> read_only t \<Longrightarrow> \<forall>u \<in> versions_of K key. is_visible t u \<Longrightarrow>
    k_step c (K, ts) (EWrite t key x (Ok ())) (a_write c (version t) key x K, ts)"
| k_refused: "t \<in> ts \<Longrightarrow> k_step c (K, ts) (EWrite t key x (Err err)) (K, ts)"
| k_commit: "t \<in> ts \<Longrightarrow> \<not> read_only t \<Longrightarrow> k_step c (K, ts) (ECommit t) (a_commit (version t) K, ts - {t})"
| k_rollback: "t \<in> ts \<Longrightarrow> \<not> read_only t \<Longrightarrow> k_step c (K, ts) (ERollback t) (a_rollback (version t) K, ts - {t})"
| k_close: "t \<in> ts \<Longrightarrow> read_only t \<Longrightarrow> ev = ECommit t \<or> ev = ERollback t \<Longrightarrow> k_step c (K, ts) ev (K, ts - {t})"
| k_unversioned: "k_step c (K, ts) (EUnversioned key v) (K(Unversioned key \<mapsto> v), ts)"

definition open_inv :: "codec \<Rightarrow> kstate \<Rightarrow> bool" where
  "open_inv c s = (mv_inv c (fst s) \<and> (\<forall>t \<in> snd s. txn_ok c (fst s) t) \<and>
     (\<forall>t \<in> snd s. \<forall>t' \<in> snd s. \<not> read_only t \<and> \<not> read_only t' \<and> version t = version t' \<longrightarrow> t = t'))"

inductive k_run :: "codec \<Rightarrow> kstate \<Rightarrow> mv_event list \<Rightarrow> kstate \<Rightarrow> bool" for c where
  k_nil: "k_run c s [] s"
| k_snoc: "k_run c s evs s' \<Longrightarrow> k_step c s' ev s'' \<Longrightarrow> k_run c s (evs @ [ev]) s''"

lemma unversioned_same:
  "mv_inv c (K(Unversioned key \<mapsto> b)) = mv_inv c K"
  "txn_ok c (K(Unversioned key \<mapsto> b)) t = txn_ok c K t"
  "vis (K(Unversioned key \<mapsto> b)) = vis K"
proof -
  have "a_next c (K(Unversioned key \<mapsto> b)) = a_next c K" "a_active (K(Unversioned key \<mapsto> b)) = a_active K"
    "snap c (K(Unversioned key \<mapsto> b)) = snap c K" "versions_of (K(Unversioned key \<mapsto> b)) = versions_of K"
    "next_ok c (K(Unversioned key \<mapsto> b)) = next_ok c K"
    by (simp_all add: a_next_def a_active_def snap_def versions_of_def fun_eq_iff next_ok_def)
  then show "mv_inv c (K(Unversioned key \<mapsto> b)) = mv_inv c K" "txn_ok c (K(Unversioned key \<mapsto> b)) t = txn_ok c K t"
    by (simp_all add: mv_inv_defs txn_ok_def)
qed (simp add: vis_def fun_eq_iff)

lemma open_others:
  assumes "open_inv c (K, ts)" "t \<in> ts" "\<not> read_only t" "t' \<in> ts" "t' \<noteq> t"
  shows "read_only t' \<or> version t' \<noteq> version t"
  using assms by (auto simp: open_inv_def)

lemma open_active:
  assumes "open_inv c (K, ts)" "t \<in> ts" "\<not> read_only t"
  shows "version t \<in> a_active K"
  using assms by (auto simp: open_inv_def txn_ok_def)

lemma open_inv_empty: "open_inv c (\<lambda>_. None, {})"
  by (simp add: open_inv_def mv_inv_empty)

text \<open>Every step keeps the invariant, and what the other transactions see.\<close>

lemma k_step_inv:
  assumes "k_step c s ev s'" "codec_ok c" "open_inv c s"
  shows "open_inv c s'"
  using assms
proof (cases rule: k_step.cases)
  case (k_begin K t ts)
  have inv: "mv_inv c K" "\<forall>t' \<in> ts. txn_ok c K t'" using assms(3) k_begin by (auto simp: open_inv_def)
  have "version t' \<noteq> version t" if "t' \<in> ts" "\<not> read_only t'" for t'
    using inv that k_begin(5) open_active [of c K ts t'] assms(3) k_begin(1) by (auto simp: mv_inv_def allocated_def)
  then show ?thesis
    using assms k_begin inv begin_inv [OF assms(2) inv(1) k_begin(4)] begin_txn [OF assms(2) inv(1) k_begin(4)]
      begin_others(1) [OF assms(2) inv(1) k_begin(4)]
    unfolding open_inv_def by (simp, metis)
next
  case (k_write t ts K key x)
  then show ?thesis
    using assms(3) write_inv [of c K t key x] write_txn [of c K _ "version t" key x] by (auto simp: open_inv_def)
next
  case (k_commit t ts K)
  have "txn_ok c (a_commit (version t) K) t'" if "t' \<in> ts - {t}" for t'
    using that assms(3) k_commit open_active [of c K ts t] open_others [of c K ts t t'] end_others(1) [of c K "version t" t']
    by (auto simp: open_inv_def)
  moreover have "mv_inv c (a_commit (version t) K)"
    using assms(3) k_commit open_active [of c K ts t] commit_inv [of c K "version t"] by (auto simp: open_inv_def)
  ultimately show ?thesis
    using assms(3) k_commit by (auto simp: open_inv_def)
next
  case (k_rollback t ts K)
  have "txn_ok c (a_rollback (version t) K) t'" if "t' \<in> ts - {t}" for t'
    using that assms(3) k_rollback open_active [of c K ts t] open_others [of c K ts t t'] end_others(2) [of c K "version t" t']
    by (auto simp: open_inv_def)
  moreover have "mv_inv c (a_rollback (version t) K)"
    using assms(3) k_rollback open_active [of c K ts t] rollback_inv [of c K "version t"] by (auto simp: open_inv_def)
  ultimately show ?thesis
    using assms(3) k_rollback by (auto simp: open_inv_def)
qed (use assms read_only_txn in \<open>auto simp: open_inv_def unversioned_same\<close>)

lemma k_step_vis:
  assumes "k_step c s ev s'" "codec_ok c" "open_inv c s" "t \<in> snd s" "actor ev \<noteq> Some t"
  shows "t \<in> snd s'" "vis (fst s') t = vis (fst s) t"
proof -
  show "t \<in> snd s'"
    using assms by (cases rule: k_step.cases) auto
  have other: "read_only t \<or> version t \<noteq> version t'" "version t' \<in> a_active (fst s)"
    if "t' \<in> snd s" "\<not> read_only t'" "t' \<noteq> t" for t'
    using that assms(3,4) open_others [of c "fst s" "snd s" t' t] open_active [of c "fst s" "snd s" t'] by auto
  have ok: "mv_inv c (fst s)" "txn_ok c (fst s) t"
    using assms(3,4) by (auto simp: open_inv_def)
  show "vis (fst s') t = vis (fst s) t"
    using assms(1,5) ok
  proof (cases rule: k_step.cases)
    case (k_begin K t' ts)
    then show ?thesis using begin_others(2) [OF assms(2) ok(1)] ok(2) by auto
  next
    case (k_write t' ts K key x)
    then show ?thesis using write_others [OF ok(2)] other [of t'] assms(5) by auto
  next
    case (k_commit t' ts K)
    then show ?thesis using end_others(3) [OF ok(1) _ ok(2)] other [of t'] assms(5) by auto
  next
    case (k_rollback t' ts K)
    then show ?thesis using end_others(4) [OF ok(1) _ ok(2)] other [of t'] assms(5) by auto
  qed (auto simp: unversioned_same)
qed

text \<open>Once a transaction has ended, its version, and the snapshot it began with, are final.\<close>

lemma k_step_stable:
  assumes "k_step c s ev s'" "codec_ok c" "open_inv c s"
  shows "a_next c (fst s) \<le> a_next c (fst s')"
    and "v < a_next c (fst s) \<Longrightarrow> snap c (fst s') v = snap c (fst s) v"
    and "v < a_next c (fst s) \<Longrightarrow> v \<in> a_active (fst s') \<Longrightarrow> v \<in> a_active (fst s)"
    and "v \<notin> a_active (fst s) \<Longrightarrow> fst s' (Version key v) = fst s (Version key v)"
proof -
  have inv: "mv_inv c (fst s)" using assms(3) by (simp add: open_inv_def)
  have act: "version t \<in> a_active (fst s)" if "t \<in> snd s" "\<not> read_only t" for t
    using that assms(3) open_active [of c "fst s" "snd s" t] by simp
  have uv: "a_next c (K(Unversioned key \<mapsto> b)) = a_next c K" "a_active (K(Unversioned key \<mapsto> b)) = a_active K"
    "snap c (K(Unversioned key \<mapsto> b)) = snap c K" for K key b
    by (simp_all add: a_next_def a_active_def snap_def fun_eq_iff)
  show "a_next c (fst s) \<le> a_next c (fst s')"
    using assms(1) inv less_plus_one [of "a_next c (fst s)" "a_next c (fst s)"]
    by (cases rule: k_step.cases)
      (auto simp: begin_fields [OF assms(2)] end_fields write_fields uv u64_max_def less_imp_le)
  show "snap c (fst s') v = snap c (fst s) v" if "v < a_next c (fst s)"
    using assms(1) inv that
    by (cases rule: k_step.cases) (auto simp: begin_fields [OF assms(2)] end_fields write_fields uv)
  show "v \<in> a_active (fst s)" if "v < a_next c (fst s)" "v \<in> a_active (fst s')"
    using assms(1) inv that
    by (cases rule: k_step.cases) (auto simp: begin_fields [OF assms(2)] end_fields write_fields uv)
  show "fst s' (Version key v) = fst s (Version key v)" if "v \<notin> a_active (fst s)"
    using assms(1) inv that act
    by (cases rule: k_step.cases) (auto simp: a_begin_simps a_write_simps end_simps rollback_versions)
qed

section \<open>Runs on an engine\<close>

lemma k_run_inv: "k_run c s evs s' \<Longrightarrow> codec_ok c \<Longrightarrow> open_inv c s \<Longrightarrow> open_inv c s'"
  by (induction rule: k_run.induct) (auto intro: k_step_inv)

lemma k_run_vis:
  assumes "k_run c s evs s'" "codec_ok c" "open_inv c s" "t \<in> snd s" "\<forall>ev \<in> set evs. actor ev \<noteq> Some t"
  shows "t \<in> snd s' \<and> vis (fst s') t = vis (fst s) t"
  using assms
proof (induction rule: k_run.induct)
  case (k_snoc s evs s' ev s'')
  then have IH: "t \<in> snd s'" "vis (fst s') t = vis (fst s) t" and ev: "actor ev \<noteq> Some t" by auto
  have "open_inv c s'" using k_run_inv k_snoc by blast
  from k_step_vis [OF k_snoc.hyps(2) k_snoc.prems(1) this IH(1) ev] IH show ?case by simp
qed simp

lemma k_run_stable:
  assumes "k_run c s evs s'" "codec_ok c" "open_inv c s" "v < a_next c (fst s)"
  shows "v < a_next c (fst s')" "snap c (fst s') v = snap c (fst s) v"
    "v \<notin> a_active (fst s) \<Longrightarrow> v \<notin> a_active (fst s') \<and> (\<forall>key. fst s' (Version key v) = fst s (Version key v))"
proof -
  have "v < a_next c (fst s') \<and> snap c (fst s') v = snap c (fst s) v \<and>
    (v \<notin> a_active (fst s) \<longrightarrow> v \<notin> a_active (fst s') \<and> (\<forall>key. fst s' (Version key v) = fst s (Version key v)))"
    using assms
  proof (induction rule: k_run.induct)
    case (k_snoc s evs s' ev s'')
    have inv: "open_inv c s'" using k_run_inv k_snoc by blast
    note st = k_step_stable [OF k_snoc.hyps(2) k_snoc.prems(1) inv]
    show ?case
      using k_snoc.IH [OF k_snoc.prems] st(1) st(2) [of v] st(3) [of v] st(4) [of v]
      by (auto dest: less_le_trans)
  qed simp
  then show "v < a_next c (fst s')" "snap c (fst s') v = snap c (fst s) v"
    "v \<notin> a_active (fst s) \<Longrightarrow> v \<notin> a_active (fst s') \<and> (\<forall>key. fst s' (Version key v) = fst s (Version key v))"
    by auto
qed

context kv_engine
begin

lemma write_cases:
  assumes "mv.repr e K" "mv_inv c K" "txn_ok c K t" "\<not> read_only t"
  shows "\<forall>u \<in> versions_of K key. is_visible t u \<Longrightarrow>
      \<exists>e'. write_version E c t key x e = (Ok (), e') \<and> mv.repr e' (a_write c (version t) key x K)"
    and "\<not> (\<forall>u \<in> versions_of K key. is_visible t u) \<Longrightarrow> write_version E c t key x e = (Err Serialization, e)"
  using conflict_check [OF assms(2-4), of key] write_effect [OF assms(1,4)] by blast+

lemma step_effect:
  assumes "codec_ok c" "mv.repr (fst s) K" "open_inv c (K, snd s)" "mv_step E c s ev s'"
  shows "\<exists>K'. mv.repr (fst s') K' \<and> k_step c (K, snd s) ev (K', snd s')"
  using assms(4)
proof (cases rule: mv_step.cases)
  case (step_begin e t e' ts)
  have inv: "mv_inv c K" "next_ok c K" using assms(3) by (auto simp: open_inv_def mv_inv_def values_ok_def)
  then show ?thesis
    using step_begin assms(2) begin_effect [OF assms(1,2) inv(2)] repr_next [OF assms(1,2) inv(2)]
    by (auto intro!: exI [of _ "a_begin c K"] k_begin)
next
  case (step_read_only as_of e t ts)
  have inv: "mv_inv c K" "next_ok c K" using assms(3) by (auto simp: open_inv_def mv_inv_def values_ok_def)
  note ro = begin_read_only_effect [OF assms(1,2) inv(2)]
  show ?thesis
    using step_read_only assms(2) ro(1) ro(2) snap_decodes [OF assms(1) inv(1)]
    by (cases as_of) (auto intro!: exI [of _ K] k_latest k_as_of split: if_splits)
next
  case (step_write t ts key x e r e')
  show ?thesis
  proof (cases "read_only t")
    case True
    then show ?thesis
      using step_write assms(2) by (auto simp: write_read_only intro!: exI [of _ K] k_refused)
  next
    case False
    have ok: "mv_inv c K" "txn_ok c K t" using assms(3) step_write by (auto simp: open_inv_def)
    show ?thesis
    proof (cases "\<forall>u \<in> versions_of K key. is_visible t u")
      case True
      with write_cases(1) [OF assms(2) ok False True, of x] False step_write show ?thesis
        by (auto intro!: exI [of _ "a_write c (version t) key x K"] k_write)
    next
      case nv: False
      with write_cases(2) [OF assms(2) ok False nv, of x] step_write assms(2) show ?thesis
        by (auto intro!: exI [of _ K] k_refused)
    qed
  qed
next
  case (step_commit t ts e e')
  then show ?thesis
    using commit_effect [OF assms(2), of t] assms(2)
    by (cases "read_only t") (fastforce simp: commit_def intro: k_commit k_close)+
next
  case (step_rollback t ts e e')
  then show ?thesis
    using rollback_effect [OF assms(2), of t] assms(2)
    by (cases "read_only t") (fastforce simp: rollback_def intro: k_rollback k_close)+
next
  case (step_unversioned key v e e' ts)
  then show ?thesis
    using mv.repr_set [OF assms(2), of "Unversioned key" v]
    by (auto simp: set_unversioned_def intro!: exI [of _ "K(Unversioned key \<mapsto> v)"] k_unversioned)
qed

lemma run_effect:
  assumes "mv_run E c s evs s'" "codec_ok c" "mv.repr (fst s) K" "open_inv c (K, snd s)"
  shows "\<exists>K'. mv.repr (fst s') K' \<and> k_run c (K, snd s) evs (K', snd s') \<and> open_inv c (K', snd s')"
  using assms
proof (induction rule: mv_run.induct)
  case (run_snoc s evs s' ev s'')
  then obtain K1 where K1: "mv.repr (fst s') K1" "k_run c (K, snd s) evs (K1, snd s')" "open_inv c (K1, snd s')"
    by blast
  obtain K2 where K2: "mv.repr (fst s'') K2" "k_step c (K1, snd s') ev (K2, snd s'')"
    using step_effect [OF run_snoc.prems(1) K1(1,3) run_snoc.hyps(2)] by blast
  with K1 k_step_inv [OF K2(2) run_snoc.prems(1)] show ?case
    by (auto intro: k_run.k_snoc)
qed (auto intro: k_nil)

end

end
