(* ===== verification/MvccProps.thy ===== *)
theory MvccProps
  imports MvccIsolation
begin

text \<open>
  The guarantees of the MVCC engine for its clients, over all runs from an empty database: what a
  transaction reads does not change while it is open, concurrent writers of a key conflict,
  commits become visible as a whole, rollbacks leave no trace, and a time-travel query sees
  what the transaction at that version saw when it began.
\<close>

lemma a_get_Ok: "codec_ok c \<Longrightarrow> mv_inv c K \<Longrightarrow> \<exists>v. a_get c t key K = Ok v"
proof -
  assume *: "codec_ok c" "mv_inv c K"
  show ?thesis
  proof (cases "latest {u \<in> versions_of K key. is_visible t u}")
    case (Some u)
    then have "u \<in> versions_of K key"
      using Max_in [of "{u \<in> versions_of K key. is_visible t u}"] by (auto simp: latest_def split: if_splits)
    then obtain x where "K (Version key u) = Some (enc_value c x)"
      using * unfolding mv_inv_def values_ok_def versions_of_def by blast
    with Some * show ?thesis by (simp add: a_get_def codec_ok_def)
  qed (simp add: a_get_def)
qed

lemma a_get_latest:
  assumes "v \<in> versions_of K key" "is_visible t v" "\<And>u. u \<in> versions_of K key \<Longrightarrow> u \<le> v"
  shows "a_get c t key K = dec_value c (the (K (Version key v)))"
proof -
  have "Max {u \<in> versions_of K key. is_visible t u} = v"
    using assms by (intro Max_eqI) auto
  moreover have "v \<in> {u \<in> versions_of K key. is_visible t u}" using assms by simp
  ultimately show ?thesis by (auto simp: a_get_def latest_def)
qed

text \<open>The version of an open transaction is the latest of every key it wrote.\<close>

lemma open_version_latest:
  assumes "mv_inv c K" "v \<in> a_active K" "v \<in> versions_of K key" "u \<in> versions_of K key"
  shows "u \<le> v"
proof (rule ccontr)
  assume "\<not> u \<le> v"
  moreover have "u < a_next c K" using assms(1,4) by (auto simp: mv_inv_def allocated_def)
  ultimately have "v \<in> snap c K u"
    using assms(1,2) unfolding mv_inv_def snaps_ok_def not_le by blast
  with assms \<open>\<not> u \<le> v\<close> show False by (auto simp: mv_inv_def no_overlap_def)
qed

lemma own_visible: "txn_ok c K t \<Longrightarrow> \<not> read_only t \<Longrightarrow> is_visible t (version t)"
  by (auto simp: is_visible_def txn_ok_def)

lemma k_step_version:
  assumes "k_step c s ev s'" "codec_ok c" "open_inv c s" "\<not> read_only t" "ev \<noteq> ERollback t"
    and "t \<in> snd s \<or> version t \<notin> a_active (fst s)" "version t < a_next c (fst s)"
    and "version t \<in> versions_of (fst s) key"
  shows "(t \<in> snd s' \<or> version t \<notin> a_active (fst s')) \<and> version t \<in> versions_of (fst s') key"
proof -
  have inv: "mv_inv c (fst s)" using assms(3) by (simp add: open_inv_def)
  have other: "version t' \<noteq> version t" if "t' \<in> snd s" "\<not> read_only t'" "t' \<noteq> t" for t'
    using that assms(3,4,6) open_others [of c "fst s" "snd s" t' t] open_active [of c "fst s" "snd s" t'] by auto
  have uv: "a_active (K(Unversioned key' \<mapsto> b)) = a_active K" "versions_of (K(Unversioned key' \<mapsto> b)) = versions_of K"
    for K key' b
    by (simp_all add: a_active_def versions_of_def fun_eq_iff)
  show ?thesis
    using assms(1)
  proof (cases rule: k_step.cases)
    case (k_rollback t' ts K)
    then have "t' \<noteq> t" "version t' \<in> a_active K" "version t' \<noteq> version t"
      using assms(3,5) other [of t'] open_active [of c K ts t'] by auto
    then show ?thesis
      using k_rollback assms(6,8) inv by (auto simp: end_fields rollback_versions_of)
  qed (use assms inv in \<open>auto simp: begin_fields end_fields write_fields uv\<close>)
qed

lemma k_run_version:
  assumes "k_run c s evs s'" "codec_ok c" "open_inv c s" "\<not> read_only t" "ERollback t \<notin> set evs"
    and "t \<in> snd s" "version t \<in> versions_of (fst s) key"
  shows "version t \<in> versions_of (fst s') key"
proof -
  have less: "version t < a_next c (fst s)"
    using assms(3,7) by (auto simp: open_inv_def mv_inv_def allocated_def)
  have "(t \<in> snd s' \<or> version t \<notin> a_active (fst s')) \<and> version t \<in> versions_of (fst s') key"
    using assms less
  proof (induction rule: k_run.induct)
    case (k_snoc s evs s' ev s'')
    have inv: "open_inv c s'" using k_run_inv k_snoc by blast
    have "version t < a_next c (fst s')"
      using k_run_stable(1) [OF k_snoc.hyps(1) k_snoc.prems(1,2)] k_snoc.prems by blast
    with k_snoc show ?case
      using k_step_version [OF k_snoc.hyps(2) k_snoc.prems(1) inv k_snoc.prems(3)] by auto
  qed simp
  then show ?thesis by blast
qed

section \<open>Guarantees for every engine\<close>

context kv_engine
begin

lemma reach_inv:
  assumes "codec_ok c" "mv.repr e0 (\<lambda>_. None)" "mv_run E c (e0, {}) evs (e, ts)"
  obtains K where "mv.repr e K" "open_inv c (K, ts)" "mv_inv c K" "\<And>t. t \<in> ts \<Longrightarrow> txn_ok c K t"
  using run_effect [OF assms(3,1), of "\<lambda>_. None"] assms(2) open_inv_empty
  by (auto simp: open_inv_def)

lemma get_stable:
  assumes "codec_ok c" "mv.repr e0 (\<lambda>_. None)" "mv_run E c (e0, {}) evs (e, ts)" "t \<in> ts"
    and "mv_run E c (e, ts) evs' (e', ts')" "\<forall>ev \<in> set evs'. actor ev \<noteq> Some t"
  shows "\<exists>v. txn_get E c t key e = Ok v \<and> txn_get E c t key e' = Ok v"
proof -
  obtain K where K: "mv.repr e K" "open_inv c (K, ts)" "mv_inv c K"
    by (rule reach_inv [OF assms(1-3)])
  obtain K' where K': "mv.repr e' K'" "k_run c (K, ts) evs' (K', ts')"
    using run_effect [OF assms(5,1)] K by auto
  have "vis K' t = vis K t"
    using k_run_vis [OF K'(2) assms(1) K(2) _ assms(6)] assms(4) by simp
  then have "a_get c t key K' = a_get c t key K" by (rule vis_get_cong)
  then show ?thesis
    using a_get_Ok [OF assms(1) K(3)] by (simp add: get_effect [OF K(1)] get_effect [OF K'(1)])
qed

lemma write_outcome_inv:
  assumes "codec_ok c" "mv.repr e0 (\<lambda>_. None)" "mv_run E c (e0, {}) evs (e, ts)" "t \<in> ts" "\<not> read_only t"
  shows "if \<forall>u. stored (contents e) (Version key u) \<noteq> None \<longrightarrow> is_visible t u
    then \<exists>e'. write_version E c t key x e = (Ok (), e') \<and> txn_get E c t key e' = Ok x \<and>
      (\<forall>key'. key' \<noteq> key \<longrightarrow> txn_get E c t key' e' = txn_get E c t key' e)
    else write_version E c t key x e = (Err Serialization, e)"
proof -
  obtain K where K: "mv.repr e K" "open_inv c (K, ts)" "mv_inv c K" "txn_ok c K t"
    using reach_inv [OF assms(1-3)] assms(4) by metis
  show ?thesis
  proof (cases "\<forall>u \<in> versions_of K key. is_visible t u")
    case True
    let ?K' = "a_write c (version t) key x K"
    obtain e' where e': "write_version E c t key x e = (Ok (), e')" "mv.repr e' ?K'"
      using write_cases(1) [OF K(1,3,4) assms(5) True] by blast
    have "a_get c t key ?K' = dec_value c (the (?K' (Version key (version t))))"
      using True own_visible [OF K(4) assms(5)] assms(5)
      by (intro a_get_latest) (auto simp: write_fields is_visible_def split: if_splits)
    then have "txn_get E c t key e' = Ok x"
      using assms(1) by (simp add: get_effect [OF e'(2)] a_write_simps codec_ok_def)
    moreover have "txn_get E c t key' e' = txn_get E c t key' e" if "key' \<noteq> key" for key'
      using that by (simp add: get_effect [OF e'(2)] get_effect [OF K(1)] a_get_def write_fields a_write_simps
          split: option.split)
    ultimately show ?thesis
      using True e'(1) by (auto simp: versions_of_def mv.repr_stored [OF K(1)])
  next
    case False
    then show ?thesis
      using write_cases(2) [OF K(1,3,4) assms(5) False] by (auto simp: versions_of_def mv.repr_stored [OF K(1)])
  qed
qed

lemma concurrent_write_refused:
  assumes "codec_ok c" "mv.repr e0 (\<lambda>_. None)" "mv_run E c (e0, {}) evs (e, ts)"
    and "t1 \<in> ts" "t2 \<in> ts" "t1 \<noteq> t2" "\<not> read_only t1" "\<not> read_only t2"
    and "write_version E c t1 key x e = (Ok (), e1)"
    and "mv_run E c (e1, ts) evs' (e', ts')" "ERollback t1 \<notin> set evs'" "t2 \<in> ts'"
  shows "write_version E c t2 key y e' = (Err Serialization, e')"
proof -
  obtain K where K: "mv.repr e K" "open_inv c (K, ts)" "mv_inv c K" "txn_ok c K t1" "txn_ok c K t2"
    using reach_inv [OF assms(1-3)] assms(4,5) by metis
  obtain K1 where K1: "mv.repr e1 K1" "k_step c (K, ts) (EWrite t1 key x (Ok ())) (K1, ts)"
    using step_effect [of c "(e, ts)" K "EWrite t1 key x (Ok ())" "(e1, ts)"] assms(1,4,9) K
    by (auto intro: step_write)
  have inv1: "open_inv c (K1, ts)" by (rule k_step_inv [OF K1(2) assms(1) K(2)])
  obtain K' where K': "mv.repr e' K'" "k_run c (K1, ts) evs' (K', ts')" "open_inv c (K', ts')"
    using run_effect [OF assms(10,1)] K1(1) inv1 by auto
  have "version t1 \<in> versions_of K1 key"
    using K1(2) by (cases rule: k_step.cases) (auto simp: write_fields)
  then have "version t1 \<in> versions_of K' key"
    using k_run_version [OF K'(2) assms(1) inv1 assms(7,11)] assms(4) by simp
  moreover have "\<not> is_visible t2 (version t1)"
    using other_invisible [OF K(5) open_active [OF K(2) assms(4,7)]] open_others [OF K(2) assms(4,7,5)] assms(6) by auto
  ultimately show ?thesis
    using write_cases(2) [OF K'(1), of c t2 key y] K'(3) assms(8,12) by (auto simp: open_inv_def)
qed

lemma commit_visible:
  assumes "codec_ok c" "mv.repr e0 (\<lambda>_. None)" "mv_run E c (e0, {}) evs (e, ts)" "t \<in> ts" "\<not> read_only t"
    and "stored (contents e) (Version key (version t)) \<noteq> None"
    and "commit E t e = (Ok (), e1)"
    and "txn_begin E c e1 = (Ok t', e2) \<or> begin_read_only E c None e1 = Ok t' \<and> e2 = e1"
  shows "txn_get E c t' key e2 = txn_get E c t key e"
proof -
  let ?v = "version t"
  obtain K where K: "mv.repr e K" "open_inv c (K, ts)" "mv_inv c K" "txn_ok c K t"
    using reach_inv [OF assms(1-3)] assms(4) by metis
  have act: "?v \<in> a_active K" and ver: "?v \<in> versions_of K key"
    using K assms(5,6) by (auto simp: txn_ok_def versions_of_def mv.repr_stored)
  have max: "u \<le> ?v" if "u \<in> versions_of K key" for u
    by (rule open_version_latest [OF K(3) act ver that])
  have K1: "mv.repr e1 (a_commit ?v K)" "mv_inv c (a_commit ?v K)"
    using commit_effect [OF K(1) assms(5)] assms(7) commit_inv [OF K(3) act] by auto
  then have nx: "next_ok c (a_commit ?v K)" by (simp add: mv_inv_def values_ok_def)
  have t': "version t' = a_next c K" "active t' = a_active K - {?v}"
    using assms(8) begin_effect [OF assms(1) K1(1) nx] begin_read_only_effect(1) [OF assms(1) K1(1) nx]
    by (auto simp: end_fields)
  obtain K2 where K2: "mv.repr e2 K2" "\<And>u. K2 (Version key u) = K (Version key u)"
    using assms(8) begin_effect [OF assms(1) K1(1) nx] K1(1) by (auto simp: a_begin_simps end_simps)
  have "?v < a_next c K" using K(3) act by (auto simp: mv_inv_def allocated_def)
  then have vis': "is_visible t' ?v" by (simp add: is_visible_def t' less_imp_le)
  have "a_get c t' key K2 = dec_value c (the (K2 (Version key ?v)))"
    using max ver by (intro a_get_latest [OF _ vis']) (simp_all add: versions_of_def K2(2))
  moreover have "a_get c t key K = dec_value c (the (K (Version key ?v)))"
    by (rule a_get_latest [OF ver own_visible [OF K(4) assms(5)] max])
  ultimately show ?thesis
    by (simp add: get_effect [OF K(1)] get_effect [OF K2(1)] K2(2))
qed

lemma rollback_erases:
  assumes "codec_ok c" "mv.repr e0 (\<lambda>_. None)" "mv_run E c (e0, {}) evs (e, ts)" "t \<in> ts" "\<not> read_only t"
  shows "\<exists>e'. rollback E t e = (Ok (), e') \<and>
    (\<forall>k. stored (contents e') k =
      (if k = TxnActive (version t) \<or> (\<exists>key. k = TxnWrite (version t) key \<or> k = Version key (version t))
       then None else stored (contents e) k))"
proof -
  obtain K where K: "mv.repr e K" "open_inv c (K, ts)" "mv_inv c K" "txn_ok c K t"
    using reach_inv [OF assms(1-3)] assms(4) by metis
  then have act: "version t \<in> a_active K" using assms(5) by (simp add: txn_ok_def)
  obtain e' where e': "rollback E t e = (Ok (), e')" "mv.repr e' (a_rollback (version t) K)"
    using rollback_effect [OF K(1) assms(5)] by blast
  have "a_rollback (version t) K k =
      (if k = TxnActive (version t) \<or> (\<exists>key. k = TxnWrite (version t) key \<or> k = Version key (version t))
       then None else K k)" for k
    using rollback_versions [OF K(3) act] by (cases k) (simp_all add: end_simps a_rollback_def a_commit_def)
  then show ?thesis
    using e' by (simp add: mv.repr_stored [OF e'(2)] mv.repr_stored [OF K(1)])
qed

lemma as_of_begin:
  assumes "codec_ok c" "mv.repr e0 (\<lambda>_. None)" "mv_run E c (e0, {}) evs (e, ts)"
    and "mv_step E c (e, ts) (EBegin t) (e1, ts1)" "mv_run E c (e1, ts1) evs' (e', ts')"
  shows "\<exists>r. begin_read_only E c (Some (version t)) e' = Ok r \<and>
    txn_get E c r key e' = txn_get E c t key e1"
proof -
  obtain K where K: "mv.repr e K" "open_inv c (K, ts)" "mv_inv c K"
    by (rule reach_inv [OF assms(1-3)])
  obtain K1 where K1: "mv.repr e1 K1" "k_step c (K, ts) (EBegin t) (K1, ts1)"
    using step_effect [of c "(e, ts)" K, OF _ _ _ assms(4)] assms(1) K by auto
  have inv1: "open_inv c (K1, ts1)" by (rule k_step_inv [OF K1(2) assms(1) K(2)])
  obtain K' where K': "mv.repr e' K'" "k_run c (K1, ts1) evs' (K', ts')" "open_inv c (K', ts')"
    using run_effect [OF assms(5,1)] K1(1) inv1 by auto
  have t: "t = \<lparr>version = a_next c K, read_only = False, active = a_active K\<rparr>" "K1 = a_begin c K"
    "a_next c K \<noteq> u64_max"
    using K1(2) by (auto elim: k_step.cases)
  let ?v = "a_next c K"
  have less: "?v < a_next c K1"
    using t(3) less_plus_one [of ?v ?v] begin_fields(1) [OF assms(1) K(3)] by (simp add: t(2) u64_max_def)
  note stable = k_run_stable [OF K'(2) assms(1) inv1, simplified]
  have inv': "mv_inv c K'" "next_ok c K'" using K'(3) by (simp_all add: open_inv_def mv_inv_def values_ok_def)
  let ?r = "\<lparr>version = ?v, read_only = True, active = a_active K\<rparr>"
  have "snap c K' ?v = a_active K"
    using stable(2) [OF less] begin_fields(4) [OF assms(1) K(3)] t(2) by simp
  then have r: "begin_read_only E c (Some (version t)) e' = Ok ?r"
    using stable(1) [OF less] t(1) snap_decodes [OF assms(1) inv'(1), of ?v]
    by (simp add: begin_read_only_effect(2) [OF assms(1) K'(1) inv'(2)])
  have "vis K' ?r = vis K1 t"
  proof (intro ext)
    fix key u
    have "K' (Version key u) = K1 (Version key u)" if "u < ?v" "u \<notin> a_active K"
      using stable(3) [of u] that less less_trans [OF that(1) less] begin_fields(2) [OF assms(1) K(3)] t(2) by auto
    moreover have "?v \<notin> versions_of K key"
      using K(3) by (auto simp: mv_inv_def allocated_def)
    then have "K1 (Version key ?v) = None"
      using t(2) by (simp add: versions_of_def a_begin_simps)
    ultimately show "vis K' ?r key u = vis K1 t key u"
      by (auto simp: vis_def is_visible_def t(1) order_le_less)
  qed
  then have "a_get c ?r key K' = a_get c t key K1"
    by (simp only: a_get_vis)
  with r show ?thesis
    by (simp add: get_effect [OF K'(1)] get_effect [OF K1(1)])
qed

lemma resume_inv:
  assumes "codec_ok c" "mv.repr e0 (\<lambda>_. None)" "mv_run E c (e0, {}) evs (e, ts)" "t \<in> ts"
  shows "resume E t e = Ok t"
    and "\<not> read_only t \<Longrightarrow> mv_step E c (e, ts) ev (e1, ts1) \<Longrightarrow> ev = ECommit t \<or> ev = ERollback t \<Longrightarrow>
      mv_run E c (e1, ts1) evs' (e', ts') \<Longrightarrow>
      resume E t e' = Err (InvalidInput ''no active transaction at version {}'')"
proof -
  obtain K where K: "mv.repr e K" "open_inv c (K, ts)" "mv_inv c K" "txn_ok c K t"
    using reach_inv [OF assms(1-3)] assms(4) by metis
  then show "resume E t e = Ok t"
    by (auto simp: resume_effect [OF K(1)] txn_ok_def)
  assume *: "\<not> read_only t" "mv_step E c (e, ts) ev (e1, ts1)" "ev = ECommit t \<or> ev = ERollback t"
    "mv_run E c (e1, ts1) evs' (e', ts')"
  obtain K1 where K1: "mv.repr e1 K1" "k_step c (K, ts) ev (K1, ts1)"
    using step_effect [of c "(e, ts)" K, OF _ _ _ *(2)] assms(1) K by auto
  have inv1: "open_inv c (K1, ts1)" by (rule k_step_inv [OF K1(2) assms(1) K(2)])
  obtain K' where K': "mv.repr e' K'" "k_run c (K1, ts1) evs' (K', ts')"
    using run_effect [OF *(4) assms(1)] K1(1) inv1 by auto
  have "version t \<notin> a_active K1" "a_next c K1 = a_next c K"
    using K1(2) *(1,3) by (auto elim!: k_step.cases simp: end_fields)
  moreover have "version t < a_next c K"
    using K(3,4) *(1) by (auto simp: txn_ok_def mv_inv_def allocated_def)
  ultimately have "version t \<notin> a_active K'"
    using k_run_stable(3) [OF K'(2) assms(1) inv1, of "version t"] by simp
  with *(1) show "resume E t e' = Err (InvalidInput ''no active transaction at version {}'')"
    by (simp add: resume_effect [OF K'(1)])
qed

end

section \<open>Properties\<close>

lemma bc_repr_new: "bc.mv.repr (bitcask_new []) (\<lambda>_. None)"
  using state_of_contents [of "[]"]
  by (simp add: bc.mv.repr_def bitcask_new_empty apply_writes_def only_keys_def kmap_def fun_eq_iff)

text \<open>
  Property C10. Snapshot isolation: while a transaction is open, every read succeeds and returns
  the same value, whatever any number of other transactions begin, write, commit or roll back.
\<close>

theorem snapshot_reads_stable:
  assumes "codec_ok c" "mv_run bitcask_engine c (bitcask_new [], {}) evs (e, ts)" "t \<in> ts"
    and "mv_run bitcask_engine c (e, ts) evs' (e', ts')" "\<forall>ev \<in> set evs'. actor ev \<noteq> Some t"
  shows "\<exists>v. txn_get bitcask_engine c t key e = Ok v \<and> txn_get bitcask_engine c t key e' = Ok v"
  by (rule bc.get_stable [OF assms(1) bc_repr_new assms(2-5)])

text \<open>
  Property C11. A write by an open transaction succeeds exactly when it can see every stored
  version of the key, and otherwise fails with a serialization error and changes nothing. After a
  successful write the transaction reads the new value, and every other key as before.
\<close>

theorem write_outcome:
  assumes "codec_ok c" "mv_run bitcask_engine c (bitcask_new [], {}) evs (e, ts)" "t \<in> ts" "\<not> read_only t"
  shows "if \<forall>u. stored (bc_contents e) (Version key u) \<noteq> None \<longrightarrow> is_visible t u
    then \<exists>e'. write_version bitcask_engine c t key x e = (Ok (), e') \<and> txn_get bitcask_engine c t key e' = Ok x \<and>
      (\<forall>key'. key' \<noteq> key \<longrightarrow> txn_get bitcask_engine c t key' e' = txn_get bitcask_engine c t key' e)
    else write_version bitcask_engine c t key x e = (Err Serialization, e)"
  by (rule bc.write_outcome_inv [OF assms(1) bc_repr_new assms(2-4)])

text \<open>
  Property C12. First updater wins, so no update is lost: once one of two open transactions has
  written a key, the other cannot write it, whatever happens in between (the commit of the first
  included), unless the first is rolled back.
\<close>

theorem first_updater_wins:
  assumes "codec_ok c" "mv_run bitcask_engine c (bitcask_new [], {}) evs (e, ts)"
    and "t1 \<in> ts" "t2 \<in> ts" "t1 \<noteq> t2" "\<not> read_only t1" "\<not> read_only t2"
    and "write_version bitcask_engine c t1 key x e = (Ok (), e1)"
    and "mv_run bitcask_engine c (e1, ts) evs' (e', ts')" "ERollback t1 \<notin> set evs'" "t2 \<in> ts'"
  shows "write_version bitcask_engine c t2 key y e' = (Err Serialization, e')"
  by (rule bc.concurrent_write_refused [OF assms(1) bc_repr_new assms(2-11)])

text \<open>
  A commit makes every write of the transaction visible: a transaction that begins
  next, read-write or read-only, reads for each key the transaction wrote what it read itself.
\<close>

theorem commit_makes_visible:
  assumes "codec_ok c" "mv_run bitcask_engine c (bitcask_new [], {}) evs (e, ts)" "t \<in> ts" "\<not> read_only t"
    and "stored (bc_contents e) (Version key (version t)) \<noteq> None"
    and "commit bitcask_engine t e = (Ok (), e1)"
    and "txn_begin bitcask_engine c e1 = (Ok t', e2) \<or> begin_read_only bitcask_engine c None e1 = Ok t' \<and> e2 = e1"
  shows "txn_get bitcask_engine c t' key e2 = txn_get bitcask_engine c t key e"
  by (rule bc.commit_visible [OF assms(1) bc_repr_new assms(2-7)])

text \<open>
  Property C13. A rollback succeeds and removes exactly what the transaction stored: its versions,
  its write records and its entry in the active set. Every other key is untouched.
\<close>

theorem rollback_leaves_no_trace:
  assumes "codec_ok c" "mv_run bitcask_engine c (bitcask_new [], {}) evs (e, ts)" "t \<in> ts" "\<not> read_only t"
  shows "\<exists>e'. rollback bitcask_engine t e = (Ok (), e') \<and>
    (\<forall>k. stored (bc_contents e') k =
      (if k = TxnActive (version t) \<or> (\<exists>key. k = TxnWrite (version t) key \<or> k = Version key (version t))
       then None else stored (bc_contents e) k))"
  by (rule bc.rollback_erases [OF assms(1) bc_repr_new assms(2-4)])

text \<open>
  Property C14. Time travel: at any later point, a read-only transaction as of the version of a
  read-write transaction reads exactly what that transaction read when it began.
\<close>

theorem time_travel:
  assumes "codec_ok c" "mv_run bitcask_engine c (bitcask_new [], {}) evs (e, ts)"
    and "mv_step bitcask_engine c (e, ts) (EBegin t) (e1, ts1)" "mv_run bitcask_engine c (e1, ts1) evs' (e', ts')"
  shows "\<exists>r. begin_read_only bitcask_engine c (Some (version t)) e' = Ok r \<and>
    txn_get bitcask_engine c r key e' = txn_get bitcask_engine c t key e1"
  by (rule bc.as_of_begin [OF assms(1) bc_repr_new assms(2-4)])

text \<open>
  Property C16. The exported state of an ended read-write transaction can never be resumed
  again: resuming it fails at every later point.
\<close>

theorem resume_refused_after_end:
  assumes "codec_ok c" "mv_run bitcask_engine c (bitcask_new [], {}) evs (e, ts)" "t \<in> ts" "\<not> read_only t"
    and "mv_step bitcask_engine c (e, ts) ev (e1, ts1)" "ev = ECommit t \<or> ev = ERollback t"
    and "mv_run bitcask_engine c (e1, ts1) evs' (e', ts')"
  shows "resume bitcask_engine t e = Ok t \<and>
    resume bitcask_engine t e' = Err (InvalidInput ''no active transaction at version {}'')"
  using bc.resume_inv(1) [OF assms(1) bc_repr_new assms(2,3)]
    bc.resume_inv(2) [OF assms(1) bc_repr_new assms(2-7)] by blast

section \<open>Witnesses\<close>

text \<open>A codec: eight bytes per version, a tag byte before a value.\<close>

fun chunks :: "bytes \<Rightarrow> version list" where
  "chunks (a # b # c # d # e # f # g # h # r) = u64_from_be [a, b, c, d, e, f, g, h] # chunks r"
| "chunks _ = []"

definition plain_codec :: codec where
  "plain_codec = \<lparr>enc_version = u64_to_be, dec_version = (\<lambda>b. Ok (u64_from_be b)),
     enc_versions = (\<lambda>A. concat (map u64_to_be (sorted_list_of_set A))),
     dec_versions = (\<lambda>b. Ok (set (chunks b))),
     enc_value = (\<lambda>x. case x of None \<Rightarrow> [0] | Some b \<Rightarrow> 1 # b),
     dec_value = (\<lambda>b. case b of [] \<Rightarrow> Err (InvalidData ''empty value'')
       | tag # r \<Rightarrow> Ok (if tag = 0 then None else Some r))\<rparr>"

lemma chunks_append: "length b = 8 \<Longrightarrow> chunks (b @ r) = u64_from_be b # chunks r"
  by (auto simp: length_Suc_conv eval_nat_numeral)

lemma chunks_concat: "chunks (concat (map u64_to_be vs)) = vs"
  by (induction vs) (simp_all add: chunks_append)

lemma plain_codec_ok: "codec_ok plain_codec"
  by (simp add: codec_ok_def plain_codec_def chunks_concat split: option.split)

text \<open>
  Two transactions begin; the first writes a key and commits. The states after the second begin,
  the write and the commit.
\<close>

definition demo_t1 :: txn_state where
  "demo_t1 = \<lparr>version = 1, read_only = False, active = {}\<rparr>"

definition demo_t2 :: txn_state where
  "demo_t2 = \<lparr>version = 2, read_only = False, active = {1}\<rparr>"

definition demo_e1 :: bitcask where
  "demo_e1 = snd (txn_begin bitcask_engine plain_codec (bitcask_new []))"

definition demo_e2 :: bitcask where
  "demo_e2 = snd (txn_begin bitcask_engine plain_codec demo_e1)"

definition demo_e3 :: bitcask where
  "demo_e3 = snd (write_version bitcask_engine plain_codec demo_t1 [107] (Some [1]) demo_e2)"

definition demo_e4 :: bitcask where
  "demo_e4 = snd (commit bitcask_engine demo_t1 demo_e3)"

lemmas demo_defs = demo_t1_def demo_t2_def

lemma demo_read_write: "\<not> read_only demo_t1" "\<not> read_only demo_t2" "demo_t1 \<noteq> demo_t2" "demo_t2 \<noteq> demo_t1"
  by (simp_all add: demo_defs)

lemma demo_begin1:
  "txn_begin bitcask_engine plain_codec (bitcask_new []) = (Ok demo_t1, demo_e1)"
  "bc.mv.repr demo_e1 (a_begin plain_codec (\<lambda>_. None))"
  using bc.begin_effect [OF plain_codec_ok bc_repr_new]
  by (auto simp: demo_e1_def demo_defs next_ok_def a_next_def a_active_def)

lemma demo_K1:
  "a_next plain_codec (a_begin plain_codec (\<lambda>_. None)) = 2" "a_active (a_begin plain_codec (\<lambda>_. None)) = {1}"
  using begin_fields [OF plain_codec_ok mv_inv_empty] by (simp_all add: a_next_def a_active_def)

lemma demo_next_ok: "next_ok plain_codec (a_begin plain_codec (\<lambda>_. None))"
  using begin_inv [OF plain_codec_ok mv_inv_empty]
  by (simp add: mv_inv_def values_ok_def a_next_def u64_max_def)

lemma demo_begin2:
  "txn_begin bitcask_engine plain_codec demo_e1 = (Ok demo_t2, demo_e2)"
  "bc.mv.repr demo_e2 (a_begin plain_codec (a_begin plain_codec (\<lambda>_. None)))"
  using bc.begin_effect [OF plain_codec_ok demo_begin1(2) demo_next_ok]
  by (auto simp: demo_e2_def demo_defs demo_K1)

lemma demo_step1:
  "mv_step bitcask_engine plain_codec (bitcask_new [], {}) (EBegin demo_t1) (demo_e1, {demo_t1})"
proof (intro step_begin demo_begin1)
  show "next_version bitcask_engine plain_codec (bitcask_new []) \<noteq> Ok u64_max"
    using bc.repr_next [OF plain_codec_ok bc_repr_new] by (simp add: next_ok_def a_next_def u64_max_def)
qed

lemma demo_step2:
  "mv_step bitcask_engine plain_codec (demo_e1, {demo_t1}) (EBegin demo_t2) (demo_e2, {demo_t2, demo_t1})"
proof (intro step_begin demo_begin2)
  show "next_version bitcask_engine plain_codec demo_e1 \<noteq> Ok u64_max"
    using bc.repr_next [OF plain_codec_ok demo_begin1(2) demo_next_ok] by (simp add: demo_K1 u64_max_def)
qed

lemmas demo_run = run_snoc [OF run_snoc [OF run_nil demo_step1] demo_step2, simplified]

lemma demo_write:
  "write_version bitcask_engine plain_codec demo_t1 [107] (Some [1]) demo_e2 = (Ok (), demo_e3)"
  "stored (bc_contents demo_e3) (Version [107] 1) \<noteq> None"
proof -
  let ?K = "a_begin plain_codec (a_begin plain_codec (\<lambda>_. None))"
  have "\<not> read_only demo_t1" by (simp add: demo_defs)
  note w = bc.write_effect(2) [OF demo_begin2(2) this, of "[107]" plain_codec "Some [1]"]
  have "versions_of ?K [107] = {}" by (simp add: versions_of_def a_begin_simps)
  with w obtain e where "write_version bitcask_engine plain_codec demo_t1 [107] (Some [1]) demo_e2 = (Ok (), e)"
    "bc.mv.repr e (a_write plain_codec (version demo_t1) [107] (Some [1]) ?K)"
    by auto
  then show "write_version bitcask_engine plain_codec demo_t1 [107] (Some [1]) demo_e2 = (Ok (), demo_e3)"
    "stored (bc_contents demo_e3) (Version [107] 1) \<noteq> None"
    by (auto simp: demo_e3_def bc.mv.repr_stored a_write_simps demo_t1_def)
qed

lemma demo_run_write:
  "mv_run bitcask_engine plain_codec (demo_e2, {demo_t2, demo_t1})
     [EWrite demo_t1 [107] (Some [1]) (Ok ())] (demo_e3, {demo_t2, demo_t1})"
  using run_snoc [OF run_nil step_write [OF _ demo_write(1), of "{demo_t2, demo_t1}"]] by simp

lemma mv_run_append:
  assumes "mv_run E c s' evs' s''" "mv_run E c s evs s'"
  shows "mv_run E c s (evs @ evs') s''"
  using assms by (induction rule: mv_run.induct) (auto intro: mv_run.intros simp flip: append_assoc)

lemmas demo_run3 = mv_run_append [OF demo_run_write demo_run, simplified]

lemma demo_commit:
  "mv_step bitcask_engine plain_codec (demo_e3, {demo_t2, demo_t1}) (ECommit demo_t1) (demo_e4, {demo_t2})"
  "commit bitcask_engine demo_t1 demo_e3 = (Ok (), demo_e4)"
proof -
  obtain K where "bc.mv.repr demo_e3 K"
    using bc.reach_inv [OF plain_codec_ok bc_repr_new demo_run3] by metis
  from bc.commit_effect [OF this, of demo_t1]
  show c: "commit bitcask_engine demo_t1 demo_e3 = (Ok (), demo_e4)"
    by (auto simp: demo_e4_def demo_t1_def)
  have "{demo_t2} = {demo_t2, demo_t1} - {demo_t1}" by (auto simp: demo_defs)
  then show "mv_step bitcask_engine plain_codec (demo_e3, {demo_t2, demo_t1}) (ECommit demo_t1) (demo_e4, {demo_t2})"
    using step_commit [OF _ c, of "{demo_t2, demo_t1}" plain_codec] by simp
qed

lemmas demo_run_commit = run_snoc [OF run_nil demo_commit(1), simplified]

theorem snapshot_reads_stable_witness:
  "\<exists>v. txn_get bitcask_engine plain_codec demo_t2 [107] demo_e2 = Ok v \<and>
    txn_get bitcask_engine plain_codec demo_t2 [107] demo_e4 = Ok v"
  using snapshot_reads_stable [OF plain_codec_ok demo_run _ mv_run_append [OF demo_run_commit demo_run_write],
      of demo_t2 "[107]"]
  by (simp add: demo_defs)

theorem write_outcome_witness:
  "write_version bitcask_engine plain_codec demo_t2 [107] None demo_e4 = (Err Serialization, demo_e4)"
proof -
  obtain K where K: "bc.mv.repr demo_e4 K" "open_inv plain_codec (K, {demo_t2})"
    using bc.reach_inv [OF plain_codec_ok bc_repr_new mv_run_append [OF demo_run_commit demo_run3]] by metis
  obtain K3 where K3: "bc.mv.repr demo_e3 K3" "mv_inv plain_codec K3"
    using bc.reach_inv [OF plain_codec_ok bc_repr_new demo_run3] by metis
  have "bc.mv.repr demo_e4 (a_commit 1 K3)"
    using bc.commit_effect [OF K3(1), of demo_t1] demo_commit(2) by (auto simp: demo_t1_def)
  then have "stored (bc_contents demo_e4) (Version [107] 1) \<noteq> None"
    using demo_write(2) by (simp add: bc.mv.repr_stored [OF K3(1)] bc.mv.repr_stored end_simps)
  moreover have "\<not> is_visible demo_t2 1" by (simp add: demo_t2_def is_visible_def)
  ultimately have "\<not> (\<forall>u. stored (bc_contents demo_e4) (Version [107] u) \<noteq> None \<longrightarrow> is_visible demo_t2 u)" by blast
  then show ?thesis
    using write_outcome [OF plain_codec_ok mv_run_append [OF demo_run_commit demo_run3], of demo_t2 "[107]" None]
    by (auto simp: demo_read_write split: if_splits)
qed

theorem first_updater_wins_witness:
  "write_version bitcask_engine plain_codec demo_t2 [107] (Some [2]) demo_e4 = (Err Serialization, demo_e4)"
  using first_updater_wins [OF plain_codec_ok demo_run _ _ _ _ _ demo_write(1) demo_run_commit, of demo_t2 "Some [2]"]
  by (simp add: demo_defs)

theorem commit_makes_visible_witness:
  "\<exists>t' e5. txn_begin bitcask_engine plain_codec demo_e4 = (Ok t', e5) \<and>
    txn_get bitcask_engine plain_codec t' [107] e5 = txn_get bitcask_engine plain_codec demo_t1 [107] demo_e3"
proof -
  obtain K where K: "bc.mv.repr demo_e4 K" "open_inv plain_codec (K, {demo_t2})"
    using bc.reach_inv [OF plain_codec_ok bc_repr_new mv_run_append [OF demo_run_commit demo_run3]] by metis
  then have "next_ok plain_codec K" by (simp add: open_inv_def mv_inv_def values_ok_def)
  from bc.begin_effect [OF plain_codec_ok K(1) this]
  obtain t' e5 where t': "txn_begin bitcask_engine plain_codec demo_e4 = (Ok t', e5)" by blast
  with commit_makes_visible [OF plain_codec_ok demo_run3 _ _ _ demo_commit(2), of "[107]" t' e5] demo_write(2)
  show ?thesis by (simp add: demo_defs)
qed

theorem rollback_leaves_no_trace_witness:
  "\<exists>e'. rollback bitcask_engine demo_t1 demo_e3 = (Ok (), e') \<and> stored (bc_contents e') (Version [107] 1) = None"
  using rollback_leaves_no_trace [OF plain_codec_ok demo_run3, of demo_t1] by (auto simp: demo_defs)

theorem time_travel_witness:
  "\<exists>r. begin_read_only bitcask_engine plain_codec (Some 1) demo_e4 = Ok r \<and>
    txn_get bitcask_engine plain_codec r [107] demo_e4 = txn_get bitcask_engine plain_codec demo_t1 [107] demo_e1"
  using time_travel [OF plain_codec_ok run_nil demo_step1
      mv_run_append [OF mv_run_append [OF demo_run_commit demo_run_write] run_snoc [OF run_nil demo_step2]], of "[107]"]
  by (simp add: demo_t1_def)

theorem resume_refused_after_end_witness:
  "resume bitcask_engine demo_t1 demo_e3 = Ok demo_t1 \<and>
   resume bitcask_engine demo_t1 demo_e4 = Err (InvalidInput ''no active transaction at version {}'')"
  using resume_refused_after_end [OF plain_codec_ok demo_run3 _ _ demo_commit(1) _ run_nil] by (simp add: demo_defs)

end
