(* ===== verification/MvccScan.thy ===== *)
theory MvccScan
  imports MvccProps
begin

text \<open>
  Scans inside a transaction. The iterator reads the engine in batches and other transactions may
  run between two batches. The theory proves that it still yields, in key order, exactly the keys
  of the range with the values a read of each key returns, whatever the batch size.
\<close>

section \<open>Visible entries in order\<close>

type_synonym entry = "bytes \<times> version \<times> bytes"

definition entry_less :: "entry \<Rightarrow> entry \<Rightarrow> bool" where
  "entry_less x y = (fst x < fst y \<or> fst x = fst y \<and> fst (snd x) < fst (snd y))"

definition entries :: "(bytes \<Rightarrow> version \<Rightarrow> bytes option) \<Rightarrow> brange \<Rightarrow> entry list \<Rightarrow> bool" where
  "entries V r L = (sorted_wrt entry_less L \<and>
     (\<forall>key u b. (key, u, b) \<in> set L \<longleftrightarrow> in_range r (mkey_encode (Version key u)) \<and> V key u = Some b))"

text \<open>What a scan yields for the visible entries: the last version of each key, unless a tombstone.\<close>

fun live :: "codec \<Rightarrow> entry list \<Rightarrow> (bytes \<times> bytes) list" where
  "live c [] = []"
| "live c ((key, u, b) # L) =
     (if L \<noteq> [] \<and> fst (hd L) = key then live c L
      else case dec_value c b of Ok (Some x) \<Rightarrow> (key, x) # live c L | _ \<Rightarrow> live c L)"

lemma entry_less_trans: "entry_less x y \<Longrightarrow> entry_less y z \<Longrightarrow> entry_less x z"
  by (auto simp: entry_less_def)

lemma sorted_entries_unique:
  assumes "sorted_wrt entry_less L" "sorted_wrt entry_less L'" "set L = set L'"
  shows "L = L'"
  using assms
proof (induction L arbitrary: L')
  case (Cons x L)
  then obtain y M where L': "L' = y # M" by (cases L') auto
  have "x = y"
  proof (rule ccontr)
    assume "x \<noteq> y"
    then have "x \<in> set M" "y \<in> set L" using Cons.prems(3) L' by auto
    then have "entry_less x y" "entry_less y x" using Cons.prems(1,2) L' by auto
    then show False by (auto simp: entry_less_def)
  qed
  moreover have "x \<notin> set L" "y \<notin> set M"
    using Cons.prems(1,2) L' by (auto simp: entry_less_def)
  ultimately have "set L = set M"
    using Cons.prems(3) L' by (simp add: insert_ident)
  with Cons L' \<open>x = y\<close> show ?case by simp
qed simp

lemma entries_unique: "entries V r L \<Longrightarrow> entries V r L' \<Longrightarrow> L = L'"
  by (intro sorted_entries_unique) (auto simp: entries_def)

text \<open>The rest of a scan is the scan of the rest of the range.\<close>

lemma entries_suffix:
  assumes "entries V r (L0 @ (key, u, b) # L)"
  shows "entries V (Included (mkey_encode (Version key u)), snd r) ((key, u, b) # L)"
proof -
  let ?x = "(key, u, b)"
  have s: "sorted_wrt entry_less (?x # L)" "\<And>y. y \<in> set L0 \<Longrightarrow> entry_less y ?x"
    using assms by (auto simp: entries_def sorted_wrt_append)
  have mem: "(k, w, v) \<in> set (L0 @ ?x # L) \<longleftrightarrow> in_range r (mkey_encode (Version k w)) \<and> V k w = Some v" for k w v
    using assms unfolding entries_def by blast
  have ge: "(k, w, v) \<in> set (?x # L) \<longleftrightarrow> (k, w, v) \<in> set (L0 @ ?x # L) \<and> mkey_encode (Version key u) \<le> mkey_encode (Version k w)" for k w v
    using s by (force simp: entry_less_def)
  have low: "above (fst r) (mkey_encode (Version key u))"
    using mem [of key u b] by (simp add: in_range_def)
  have "above (fst r) (mkey_encode (Version k w))" if "mkey_encode (Version key u) \<le> mkey_encode (Version k w)" for k w
    using low that by (cases "fst r") (auto simp del: version_le version_less)
  then show ?thesis
    using s(1) ge mem unfolding entries_def in_range_def by (auto simp del: version_le)
qed

section \<open>The loop of a batch\<close>

lemma fill_loop_live:
  assumes "\<forall>(key, u, b) \<in> set L. \<exists>x. dec_value c b = Ok x" "length buf < cap"
  shows "\<exists>L0 rest out. L = L0 @ rest \<and> live c L = out @ live c rest \<and>
    fill_loop cap c (map Ok L) buf =
      (Ok (case rest of [] \<Rightarrow> None | (key, u, _) # _ \<Rightarrow> Some (key, u)), buf @ out) \<and>
    (rest = [] \<or> length (buf @ out) = cap) \<and> length (buf @ out) \<le> cap"
  using assms
proof (induction L arbitrary: buf)
  case (Cons x L)
  obtain key u b where x: "x = (key, u, b)" by (cases x)
  obtain v where v: "dec_value c b = Ok v" using Cons.prems(1) x by auto
  have IH: "\<exists>L0 rest out. L = L0 @ rest \<and> live c L = out @ live c rest \<and>
    fill_loop cap c (map Ok L) buf =
      (Ok (case rest of [] \<Rightarrow> None | (key, u, _) # _ \<Rightarrow> Some (key, u)), buf @ out) \<and>
    (rest = [] \<or> length (buf @ out) = cap) \<and> length (buf @ out) \<le> cap" if "length buf < cap" for buf
    using Cons.IH that Cons.prems(1) by simp
  have peek: "(case map Ok L of [] \<Rightarrow> Ok False
      | peek # _ \<Rightarrow> rbind peek (\<lambda>(next_key, _). Ok (next_key = key))) = Ok (L \<noteq> [] \<and> fst (hd L) = key)"
    by (cases L) auto
  show ?case
  proof (cases "L \<noteq> [] \<and> fst (hd L) = key \<or> v = None")
    case True
    then have "fill_loop cap c (map Ok (x # L)) buf = fill_loop cap c (map Ok L) buf" "live c (x # L) = live c L"
      using v by (auto simp: x peek)
    with IH [OF Cons.prems(2)] show ?thesis
      by (metis append_Cons)
  next
    case False
    then obtain y where y: "v = Some y" by auto
    then have lv: "live c (x # L) = (key, y) # live c L" using False v by (auto simp: x)
    show ?thesis
    proof (cases "length (buf @ [(key, y)]) = cap")
      case True
      then have "fill_loop cap c (map Ok (x # L)) buf =
          (Ok (case L of [] \<Rightarrow> None | (key, u, _) # _ \<Rightarrow> Some (key, u)), buf @ [(key, y)])"
        using False v y by (cases L) (auto simp: x Let_def)
      with lv True show ?thesis
        by (intro exI [of _ "[x]"] exI [of _ L] exI [of _ "[(key, y)]"]) simp
    next
      case neq: False
      then have "fill_loop cap c (map Ok (x # L)) buf = fill_loop cap c (map Ok L) (buf @ [(key, y)])"
        using False v y by (auto simp: x peek Let_def)
      moreover have "length (buf @ [(key, y)]) < cap" using neq Cons.prems(2) by simp
      then obtain L0 rest out where "L = L0 @ rest" "live c L = out @ live c rest"
        "fill_loop cap c (map Ok L) (buf @ [(key, y)]) =
          (Ok (case rest of [] \<Rightarrow> None | (key, u, _) # _ \<Rightarrow> Some (key, u)), (buf @ [(key, y)]) @ out)"
        "rest = [] \<or> length ((buf @ [(key, y)]) @ out) = cap" "length ((buf @ [(key, y)]) @ out) \<le> cap"
        using IH by blast
      ultimately show ?thesis
        using lv by (intro exI [of _ "x # L0"] exI [of _ rest] exI [of _ "(key, y) # out"]) simp
    qed
  qed
qed simp

section \<open>The entries yielded\<close>

lemma live_keys: "x \<in> set (live c L) \<Longrightarrow> fst x \<in> fst ` set L"
  by (induction c L rule: live.induct) (auto split: result.splits option.splits if_splits)

lemma live_wf: "sorted_wrt entry_less L \<Longrightarrow> bt_wf (live c L)"
proof (induction c L rule: live.induct)
  case (2 c key u b L)
  have "key < k" if "L = [] \<or> fst (hd L) \<noteq> key" "k \<in> fst ` set (live c L)" for k
  proof -
    have "k \<in> fst ` set L" using that(2) by (auto dest: live_keys)
    then obtain y where y: "y \<in> set L" "k = fst y" by auto
    then have "L \<noteq> []" by auto
    then have h: "entry_less (key, u, b) (hd L)" "hd L = y \<or> entry_less (hd L) y"
      using "2.prems" y(1) by (auto simp: neq_Nil_conv)
    with that(1) \<open>L \<noteq> []\<close> y(2) show ?thesis by (auto simp: entry_less_def)
  qed
  with 2 show ?case by (auto split: result.split option.split)
qed simp

lemma live_lookup:
  assumes "sorted_wrt entry_less L" "\<forall>(key, u, b) \<in> set L. \<exists>x. dec_value c b = Ok x"
  shows "map_of (live c L) key =
    (case filter (\<lambda>x. fst x = key) L of [] \<Rightarrow> None | x # xs \<Rightarrow> unwrap (dec_value c (snd (snd (last (x # xs))))))"
  using assms
proof (induction c L rule: live.induct)
  case (2 c k u b L)
  obtain v where v: "dec_value c b = Ok v" using "2.prems"(2) by auto
  show ?case
  proof (cases "L \<noteq> [] \<and> fst (hd L) = k")
    case True
    then have ne: "filter (\<lambda>x. fst x = k) L \<noteq> []" by (cases L) auto
    from 2 True have IH: "map_of (live c L) key =
      (case filter (\<lambda>x. fst x = key) L of [] \<Rightarrow> None | x # xs \<Rightarrow> unwrap (dec_value c (snd (snd (last (x # xs))))))"
      by simp
    then show ?thesis using True ne by (auto split: list.split)
  next
    case False
    then have IH: "map_of (live c L) key =
      (case filter (\<lambda>x. fst x = key) L of [] \<Rightarrow> None | x # xs \<Rightarrow> unwrap (dec_value c (snd (snd (last (x # xs))))))"
      using 2 v by (cases v) simp_all
    have "k \<noteq> fst y" if "y \<in> set L" for y
    proof -
      have "L \<noteq> []" using that by auto
      then have "entry_less (k, u, b) (hd L)" "hd L = y \<or> entry_less (hd L) y"
        using "2.prems"(1) that by (auto simp: neq_Nil_conv)
      with False \<open>L \<noteq> []\<close> show ?thesis by (auto simp: entry_less_def)
    qed
    then have none: "filter (\<lambda>x. fst x = k) L = []" by (auto simp: filter_empty_conv)
    show ?thesis
    proof (cases "key = k")
      case True
      with IH none False v show ?thesis by (cases v) auto
    next
      case False
      with IH \<open>\<not> (L \<noteq> [] \<and> fst (hd L) = k)\<close> v show ?thesis by (cases v) auto
    qed
  qed
qed simp

text \<open>The last entry of a key is its latest visible version in the range.\<close>

lemma entries_of_key:
  assumes "entries V r L"
  shows "filter (\<lambda>x. fst x = key) L =
    map (\<lambda>u. (key, u, the (V key u)))
      (sorted_list_of_set {u. in_range r (mkey_encode (Version key u)) \<and> V key u \<noteq> None})"
proof (rule sorted_entries_unique)
  show "sorted_wrt entry_less (filter (\<lambda>x. fst x = key) L)"
    using assms by (simp add: entries_def sorted_wrt_filter)
qed (use assms in \<open>auto simp: entries_def sorted_wrt_map entry_less_def\<close>)

lemma live_get:
  assumes "entries V r L" "\<And>key u b. V key u = Some b \<Longrightarrow> \<exists>x. dec_value c b = Ok x"
  shows "map_of (live c L) key =
    (case latest {u. in_range r (mkey_encode (Version key u)) \<and> V key u \<noteq> None} of
       None \<Rightarrow> None | Some u \<Rightarrow> unwrap (dec_value c (the (V key u))))"
proof -
  let ?S = "{u. in_range r (mkey_encode (Version key u)) \<and> V key u \<noteq> None}"
  have L: "sorted_wrt entry_less L" "\<forall>(key, u, b) \<in> set L. \<exists>x. dec_value c b = Ok x"
    using assms by (auto simp: entries_def)
  note look = live_lookup [OF L, of key] entries_of_key [OF assms(1), of key]
  show ?thesis
  proof (cases "?S = {}")
    case True
    then show ?thesis unfolding look latest_def True by simp
  next
    case False
    then obtain us where us: "sorted_list_of_set ?S = us @ [Max ?S]"
      by (rule sorted_list_of_set_Max)
    show ?thesis
      unfolding look us latest_def using False by (cases us) auto
  qed
qed

section \<open>Iterating\<close>

text \<open>A range of the engine that holds versions only, and that the engine accepts.\<close>

definition version_range :: "brange \<Rightarrow> bool" where
  "version_range r = (range_valid r \<and> (\<forall>k. in_range r (mkey_encode k) \<longrightarrow> (\<exists>key u. k = Version key u)))"

lemma version_range_suffix:
  assumes "version_range r" "in_range r (mkey_encode (Version key u))"
  shows "version_range (Included (mkey_encode (Version key u)), snd r)"
proof -
  have "above (fst r) x" if "mkey_encode (Version key u) \<le> x" for x
    using assms(2) that by (cases "fst r") (auto simp: in_range_def)
  moreover have "range_valid (Included (mkey_encode (Version key u)), snd r)"
    using assms(2) by (cases "snd r") (auto simp: in_range_def)
  ultimately show ?thesis
    using assms(1) by (auto simp: version_range_def in_range_def)
qed

lemma version_range_scan: "range_valid r \<Longrightarrow> version_range (scan_range r)"
  by (auto simp: version_range_def scan_range_valid scan_range_keys)

lemma version_iter_items:
  "\<forall>k \<in> set ks. \<exists>key u. k = Version key u \<Longrightarrow>
   \<exists>L. version_iter t (map (\<lambda>k. Ok (mkey_encode k, the (K k))) ks) = map Ok L \<and>
     (\<forall>key u b. (key, u, b) \<in> set L \<longleftrightarrow> Version key u \<in> set ks \<and> is_visible t u \<and> b = the (K (Version key u))) \<and>
     (sorted_wrt (\<lambda>k k'. mkey_encode k < mkey_encode k') ks \<longrightarrow> sorted_wrt entry_less L)"
proof (induction ks)
  case (Cons k ks)
  then obtain L key u where L: "k = Version key u"
    "version_iter t (map (\<lambda>k. Ok (mkey_encode k, the (K k))) ks) = map Ok L"
    "\<forall>key u b. (key, u, b) \<in> set L \<longleftrightarrow> Version key u \<in> set ks \<and> is_visible t u \<and> b = the (K (Version key u))"
    "sorted_wrt (\<lambda>k k'. mkey_encode k < mkey_encode k') ks \<longrightarrow> sorted_wrt entry_less L"
    by auto
  let ?L = "if is_visible t u then (key, u, the (K k)) # L else L"
  have "entry_less (key, u, the (K k)) y" if "y \<in> set L" "\<forall>k' \<in> set ks. mkey_encode k < mkey_encode k'" for y
  proof -
    obtain key' u' b' where y: "y = (key', u', b')" by (cases y)
    then have "Version key' u' \<in> set ks" using that(1) L(3) by simp
    then have "mkey_encode k < mkey_encode (Version key' u')" using that(2) by blast
    then show ?thesis by (simp add: L(1) y entry_less_def)
  qed
  with L show ?case by (intro exI [of _ ?L]) auto
qed simp

lemma vis_decodes:
  assumes "codec_ok c" "mv_inv c K" "vis K t key u = Some b"
  shows "\<exists>x. dec_value c b = Ok x"
proof -
  have "K (Version key u) = Some b" using assms(3) by (simp add: vis_def split: if_splits)
  with assms(1,2) show ?thesis unfolding mv_inv_def values_ok_def codec_ok_def by metis
qed

text \<open>What an iterator still has to yield, for a transaction that sees \<open>V\<close>.\<close>

definition pending :: "codec \<Rightarrow> (bytes \<Rightarrow> version \<Rightarrow> bytes option) \<Rightarrow> scan_iter \<Rightarrow> (bytes \<times> bytes) list \<Rightarrow> bool" where
  "pending c V it out =
     (case si_remainder it of
        None \<Rightarrow> out = si_buffer it
      | Some r \<Rightarrow> version_range r \<and> (\<exists>L. entries V r L \<and> out = si_buffer it @ live c L))"

context kv_engine
begin

lemma scan_entries:
  assumes "mv.repr e K" "version_range r"
  obtains L items where "e_scan E r e = Ok items" "version_iter t items = map Ok L" "entries (vis K t) r L"
proof -
  let ?f = "filter (\<lambda>x. in_range r (fst x)) (contents e)"
  let ?ks = "map (\<lambda>x. unwrap (mkey_decode (fst x))) ?f"
  have e: "invar e" "only_keys mkey_encode (contents e)" "stored (contents e) = K" using assms(1) by (simp_all add: mv.repr_def)
  have enc: "mkey_encode (unwrap (mkey_decode (fst x))) = fst x" if "x \<in> set (contents e)" for x
  proof -
    obtain k where "fst x = mkey_encode k" using e(2) \<open>x \<in> set (contents e)\<close> by (auto simp: only_keys_def)
    then show ?thesis by simp
  qed
  have val: "K (unwrap (mkey_decode (fst x))) = Some (snd x)" if "x \<in> set (contents e)" for x
    using that enc [OF that] set_bt_wf [OF contents_wf [OF e(1)], of "fst x" "snd x"]
    by (simp add: e(3) [symmetric] kmap_def)
  have items: "e_scan E r e = Ok (map (\<lambda>k. Ok (mkey_encode k, the (K k))) ?ks)"
    using scan_Ok [OF e(1)] assms(2) enc val by (simp add: version_range_def)
  have "bt_wf ?f" using contents_wf [OF e(1)] by simp
  then have sorted: "sorted_wrt (\<lambda>k k'. mkey_encode k < mkey_encode k') ?ks"
    unfolding bt_wf_def sorted_wrt_map by (rule sorted_wrt_mono_rel [rotated]) (simp add: enc)
  have mem: "k \<in> set ?ks \<longleftrightarrow> in_range r (mkey_encode k) \<and> K k \<noteq> None" for k
  proof
    assume "in_range r (mkey_encode k) \<and> K k \<noteq> None"
    then obtain b where "(mkey_encode k, b) \<in> set ?f"
      using set_bt_wf [OF contents_wf [OF e(1)]] by (auto simp: e(3) [symmetric] kmap_def)
    then have "(\<lambda>x. unwrap (mkey_decode (fst x))) (mkey_encode k, b) \<in> set ?ks"
      unfolding set_map by (rule imageI)
    then show "k \<in> set ?ks" by simp
  next
    assume "k \<in> set ?ks"
    then obtain x where "x \<in> set (contents e)" "in_range r (fst x)" "k = unwrap (mkey_decode (fst x))" by auto
    with enc [of x] val [of x] show "in_range r (mkey_encode k) \<and> K k \<noteq> None" by simp
  qed
  have "\<forall>k \<in> set ?ks. \<exists>key u. k = Version key u"
    using mem assms(2) by (simp add: version_range_def)
  from version_iter_items [OF this, of t K] obtain L where
    L: "version_iter t (map (\<lambda>k. Ok (mkey_encode k, the (K k))) ?ks) = map Ok L"
    "\<forall>key u b. (key, u, b) \<in> set L \<longleftrightarrow> Version key u \<in> set ?ks \<and> is_visible t u \<and> b = the (K (Version key u))"
    "sorted_wrt entry_less L"
    using sorted by blast
  have "entries (vis K t) r L"
    using L(2,3) mem unfolding entries_def vis_def by auto
  with items L(1) that show ?thesis by blast
qed

lemma fill_pending:
  assumes "codec_ok c" "mv_inv c K" "mv.repr e K" "pending c (vis K (si_txn it)) it out"
    and "si_buffer it = []" "0 < cap"
  obtains it' where "fill_buffer cap E c e it = (Ok (), it')" "pending c (vis K (si_txn it)) it' out"
    "si_txn it' = si_txn it" "si_buffer it' \<noteq> [] \<or> out = []"
proof (cases "si_remainder it")
  case None
  with assms(4,5,6) that [of it] show ?thesis by (simp add: fill_buffer_def pending_def)
next
  case (Some r)
  let ?V = "vis K (si_txn it)"
  have r: "version_range r" and "\<exists>L. entries ?V r L \<and> out = live c L"
    using assms(4,5) Some by (simp_all add: pending_def)
  then obtain L where L: "entries ?V r L" "out = live c L" by blast
  obtain items where items: "e_scan E r e = Ok items" "version_iter (si_txn it) items = map Ok L"
    using scan_entries [OF assms(3) r, of "si_txn it"] entries_unique [OF L(1)] by metis
  have dec: "\<forall>(key, u, b) \<in> set L. \<exists>x. dec_value c b = Ok x"
    using L(1) vis_decodes [OF assms(1,2)] by (fastforce simp: entries_def)
  have "length ([] :: (bytes \<times> bytes) list) < cap" using assms(6) by simp
  from fill_loop_live [OF dec this] obtain L0 rest b where f: "L = L0 @ rest" "live c L = b @ live c rest"
    "fill_loop cap c (map Ok L) [] = (Ok (case rest of [] \<Rightarrow> None | (key, u, _) # _ \<Rightarrow> Some (key, u)), b)"
    "rest = [] \<or> length b = cap"
    unfolding append_Nil by blast
  show ?thesis
  proof (cases rest)
    case Nil
    let ?it = "it\<lparr>si_buffer := b, si_remainder := None\<rparr>"
    have "fill_buffer cap E c e it = (Ok (), ?it)"
      using assms(5,6) Some items f(3) Nil by (simp add: fill_buffer_def)
    moreover have "pending c ?V ?it out" using f(2) Nil L(2) by (simp add: pending_def)
    ultimately show ?thesis using that [of ?it] f(2) Nil L(2) by simp
  next
    case (Cons x rest')
    obtain key u v where x: "x = (key, u, v)" by (cases x)
    let ?it = "it\<lparr>si_buffer := b, si_remainder := Some (Included (mkey_encode (Version key u)), snd r)\<rparr>"
    have fill: "fill_buffer cap E c e it = (Ok (), ?it)"
      using assms(5,6) Some items f(3) Cons x by (simp add: fill_buffer_def)
    have "in_range r (mkey_encode (Version key u))"
      using L(1) f(1) Cons x by (auto simp: entries_def)
    then have "pending c ?V ?it out"
      using version_range_suffix [OF r] entries_suffix [of ?V r L0 key u v rest'] L f(1,2) Cons x
      by (auto simp: pending_def)
    then show ?thesis using that [of ?it] fill f(4) Cons assms(6) by auto
  qed
qed

lemma next_pending:
  assumes "codec_ok c" "mv_inv c K" "mv.repr e K" "pending c (vis K (si_txn it)) it out" "0 < cap"
  shows "(out = [] \<longrightarrow> fst (scan_next cap E c e it) = None) \<and>
    (out \<noteq> [] \<longrightarrow> (\<exists>it'. scan_next cap E c e it = (Some (Ok (hd out)), it') \<and>
      pending c (vis K (si_txn it)) it' (tl out) \<and> si_txn it' = si_txn it))"
proof -
  obtain it1 where it1: "(if si_buffer it = [] then fill_buffer cap E c e it else (Ok (), it)) = (Ok (), it1)"
    "pending c (vis K (si_txn it)) it1 out" "si_txn it1 = si_txn it" "si_buffer it1 \<noteq> [] \<or> out = []"
  proof (cases "si_buffer it = []")
    case True
    obtain it' where "fill_buffer cap E c e it = (Ok (), it')" "pending c (vis K (si_txn it)) it' out"
      "si_txn it' = si_txn it" "si_buffer it' \<noteq> [] \<or> out = []"
      by (rule fill_pending [OF assms(1-4) True assms(5)])
    with that True show ?thesis by simp
  next
    case False
    with that [of it] assms(4) show ?thesis by simp
  qed
  show ?thesis
  proof (cases "si_buffer it1")
    case Nil
    then show ?thesis using it1(4) by (simp add: scan_next_def it1(1))
  next
    case (Cons kv b)
    let ?it = "it1\<lparr>si_buffer := b\<rparr>"
    have "out \<noteq> []" "hd out = kv" "pending c (vis K (si_txn it)) ?it (tl out)"
      using it1(2) Cons by (auto simp: pending_def split: option.splits)
    with Cons it1(3) show ?thesis by (simp add: scan_next_def it1(1))
  qed
qed

lemma pull_pending:
  assumes "codec_ok c" "0 < cap" "pending c V it out"
    and "\<forall>e \<in> set es. \<exists>K. mv.repr e K \<and> mv_inv c K \<and> vis K (si_txn it) = V"
  shows "scan_pull cap E c es it = map Ok (take (length es) out)"
  using assms(3,4)
proof (induction es arbitrary: it out)
  case (Cons e es)
  then obtain K where K: "mv.repr e K" "mv_inv c K" "vis K (si_txn it) = V" by auto
  note n = next_pending [OF assms(1) K(2,1) _ assms(2), of it out, unfolded K(3), OF Cons.prems(1)]
  show ?case
  proof (cases out)
    case Nil
    then show ?thesis using n by (auto split: prod.split)
  next
    case out: (Cons kv out')
    then obtain it' where "scan_next cap E c e it = (Some (Ok kv), it')" "pending c V it' out'" "si_txn it' = si_txn it"
      using n by auto
    then show ?thesis using Cons.IH [of it' out'] out Cons.prems(2) by simp
  qed
qed simp

text \<open>A scan agrees with reading every key of the range.\<close>

lemma scan_reads:
  assumes "codec_ok c" "mv_inv c K" "mv.repr e K" "version_range r"
    and range: "\<And>key u. in_range r (mkey_encode (Version key u)) \<longleftrightarrow> P key"
  obtains out where "pending c (vis K t) (scan_iter_new t r) out" "bt_wf out"
    "\<And>key. P key \<Longrightarrow> txn_get E c t key e = Ok (map_of out key)"
    "\<And>key. \<not> P key \<Longrightarrow> map_of out key = None"
proof -
  obtain L where L: "entries (vis K t) r L"
    using scan_entries [OF assms(3,4)] by metis
  note dec = vis_decodes [OF assms(1,2)]
  note get = live_get [OF L dec, unfolded range]
  have read: "txn_get E c t key e = Ok (map_of (live c L) key)" if "P key" for key
  proof -
    have "latest {u. P key \<and> vis K t key u \<noteq> None} = latest {u. vis K t key u \<noteq> None}" using that by simp
    moreover have "\<exists>x. dec_value c (the (vis K t key u)) = Ok x" if "latest {u. vis K t key u \<noteq> None} = Some u" for u
    proof -
      have "u \<in> {u. vis K t key u \<noteq> None}"
        using that Max_in [of "{u. vis K t key u \<noteq> None}"] by (auto simp: latest_def split: if_splits)
      then show ?thesis using dec by auto
    qed
    ultimately show ?thesis
      by (auto simp: get_effect [OF assms(3)] a_get_vis get split: option.split)
  qed
  have none: "map_of (live c L) key = None" if "\<not> P key" for key
    using that by (simp add: get latest_def)
  have "pending c (vis K t) (scan_iter_new t r) (live c L)"
    using L assms(4) by (auto simp: pending_def scan_iter_new_def)
  moreover have "bt_wf (live c L)"
    using L live_wf by (simp add: entries_def)
  ultimately show ?thesis
    using that read none by blast
qed

lemma scan_consistent:
  assumes "codec_ok c" "mv.repr e0 (\<lambda>_. None)" "mv_run E c (e0, {}) evs (e, ts)" "t \<in> ts" "0 < cap"
    and "version_range r" "\<And>key u. in_range r (mkey_encode (Version key u)) \<longleftrightarrow> P key"
    and "\<forall>e' \<in> set es. \<exists>evs' ts'. mv_run E c (e, ts) evs' (e', ts') \<and> (\<forall>ev \<in> set evs'. actor ev \<noteq> Some t)"
  shows "\<exists>out. bt_wf out \<and>
    (\<forall>key. if P key then txn_get E c t key e = Ok (map_of out key) else map_of out key = None) \<and>
    scan_pull cap E c es (scan_iter_new t r) = map Ok (take (length es) out)"
proof -
  obtain K where K: "mv.repr e K" "open_inv c (K, ts)" "mv_inv c K"
    by (rule reach_inv [OF assms(1-3)])
  obtain out where out: "pending c (vis K t) (scan_iter_new t r) out" "bt_wf out"
    "\<And>key. P key \<Longrightarrow> txn_get E c t key e = Ok (map_of out key)"
    "\<And>key. \<not> P key \<Longrightarrow> map_of out key = None"
    using scan_reads [OF assms(1) K(3,1) assms(6,7)] by metis
  have "\<exists>K'. mv.repr e' K' \<and> mv_inv c K' \<and> vis K' t = vis K t" if "e' \<in> set es" for e'
  proof -
    obtain evs' ts' where run: "mv_run E c (e, ts) evs' (e', ts')" "\<forall>ev \<in> set evs'. actor ev \<noteq> Some t"
      using assms(8) \<open>e' \<in> set es\<close> by blast
    obtain K' where "mv.repr e' K'" "k_run c (K, ts) evs' (K', ts')" "open_inv c (K', ts')"
      using run_effect [OF run(1) assms(1)] K by auto
    then show ?thesis
      using k_run_vis [OF _ assms(1) K(2) _ run(2)] assms(4) by (auto simp: open_inv_def)
  qed
  then have "scan_pull cap E c es (scan_iter_new t r) = map Ok (take (length es) out)"
    by (intro pull_pending [OF assms(1,5) out(1)]) (simp add: scan_iter_new_def)
  with out show ?thesis by (intro exI [of _ out]) simp
qed

end

section \<open>Prefix scans\<close>

lemma escape_prefix:
  "(\<exists>r. concat (map escape_byte key) @ 0 # 0 # s = concat (map escape_byte p) @ r) \<longleftrightarrow> (\<exists>q. key = p @ q)"
proof (induction p arbitrary: key)
  case (Cons b p)
  show ?case
  proof (cases key)
    case Nil
    then show ?thesis by (simp add: escape_byte_def)
  next
    case (Cons a key')
    with Cons.IH [of key'] show ?thesis by (auto simp: escape_byte_def)
  qed
qed simp

lemma prefix_version_range:
  fixes p
  defines "r \<equiv> prefix_range (take (length (prefix_encode (PVersion p)) - 2) (prefix_encode (PVersion p)))"
  shows "in_range r (mkey_encode (Version key u)) \<longleftrightarrow> (\<exists>q. key = p @ q)" and "version_range r"
proof -
  have r: "r = prefix_range (4 # concat (map escape_byte p))"
    by (simp add: r_def prefix_encode_bytes serialize_bytes_def)
  show "in_range r (mkey_encode (Version key u)) \<longleftrightarrow> (\<exists>q. key = p @ q)"
    using escape_prefix [of key "u64_to_be u" p]
    by (simp add: r in_prefix_range mkey_encode_bytes serialize_bytes_def)
  have "\<exists>key u. k = Version key u" if "in_range r (mkey_encode k)" for k
    using that by (cases k) (auto simp: r in_prefix_range mkey_encode_bytes)
  then show "version_range r" by (simp add: version_range_def r)
qed

section \<open>Properties\<close>

text \<open>
  Property C15. A scan is consistent with reads and with its snapshot: whatever other
  transactions do between its batches, it yields in ascending key order exactly the keys of the
  range that a read of the key finds, with the values the reads return, and never an error.
\<close>

theorem scan_agrees_with_get:
  assumes "codec_ok c" "mv_run bitcask_engine c (bitcask_new [], {}) evs (e, ts)" "t \<in> ts" "range_valid r"
    and "\<forall>e' \<in> set es. \<exists>evs' ts'. mv_run bitcask_engine c (e, ts) evs' (e', ts') \<and>
      (\<forall>ev \<in> set evs'. actor ev \<noteq> Some t)"
  shows "\<exists>out. bt_wf out \<and>
    (\<forall>key. if in_range r key then txn_get bitcask_engine c t key e = Ok (map_of out key) else map_of out key = None) \<and>
    scan_pull BUFFER_SIZE bitcask_engine c es (txn_scan t r) = map Ok (take (length es) out)"
  unfolding txn_scan_def
proof (rule bc.scan_consistent [OF assms(1) bc_repr_new assms(2,3) _ version_range_scan [OF assms(4)] _ assms(5)])
  show "0 < BUFFER_SIZE" by (simp add: BUFFER_SIZE_def)
qed (simp add: scan_range_keys)

text \<open>
  A prefix scan yields in the same way exactly the visible keys with the prefix,
  although it cuts an encoded key short to get its range.
\<close>

theorem prefix_scan_agrees_with_get:
  assumes "codec_ok c" "mv_run bitcask_engine c (bitcask_new [], {}) evs (e, ts)" "t \<in> ts"
    and "\<forall>e' \<in> set es. \<exists>evs' ts'. mv_run bitcask_engine c (e, ts) evs' (e', ts') \<and>
      (\<forall>ev \<in> set evs'. actor ev \<noteq> Some t)"
  shows "\<exists>out. bt_wf out \<and>
    (\<forall>key. if \<exists>q. key = p @ q then txn_get bitcask_engine c t key e = Ok (map_of out key) else map_of out key = None) \<and>
    scan_pull BUFFER_SIZE bitcask_engine c es (txn_scan_prefix t p) = map Ok (take (length es) out)"
  unfolding txn_scan_prefix_def Let_def
proof (rule bc.scan_consistent [OF assms(1) bc_repr_new assms(2,3) _ prefix_version_range(2) _ assms(4)])
  show "0 < BUFFER_SIZE" by (simp add: BUFFER_SIZE_def)
qed (rule prefix_version_range(1))

section \<open>Witnesses\<close>

lemma demo_pulls:
  "\<forall>e' \<in> set [demo_e2, demo_e3, demo_e4].
     \<exists>evs' ts'. mv_run bitcask_engine plain_codec (demo_e2, {demo_t2, demo_t1}) evs' (e', ts') \<and>
       (\<forall>ev \<in> set evs'. actor ev \<noteq> Some demo_t2)"
proof -
  have "mv_run bitcask_engine plain_codec (demo_e2, {demo_t2, demo_t1}) [] (demo_e2, {demo_t2, demo_t1})"
    by (rule run_nil)
  moreover note demo_run_write mv_run_append [OF demo_run_commit demo_run_write]
  ultimately show ?thesis
    by (fastforce simp: demo_read_write)
qed

theorem scan_agrees_with_get_witness:
  "\<exists>out. bt_wf out \<and> txn_get bitcask_engine plain_codec demo_t2 [107] demo_e2 = Ok (map_of out [107]) \<and>
    scan_pull BUFFER_SIZE bitcask_engine plain_codec [demo_e2, demo_e3, demo_e4]
      (txn_scan demo_t2 (Included [107], Unbounded)) = map Ok (take 3 out)"
proof -
  let ?r = "(Included [107], Unbounded) :: brange"
  obtain out where "bt_wf out" "\<forall>key. if in_range ?r key
      then txn_get bitcask_engine plain_codec demo_t2 key demo_e2 = Ok (map_of out key) else map_of out key = None"
    "scan_pull BUFFER_SIZE bitcask_engine plain_codec [demo_e2, demo_e3, demo_e4] (txn_scan demo_t2 ?r) =
      map Ok (take (length [demo_e2, demo_e3, demo_e4]) out)"
    using scan_agrees_with_get [OF plain_codec_ok demo_run _ _ demo_pulls, of ?r] by auto
  moreover have "in_range ?r [107]" by (simp add: in_range_def)
  ultimately show ?thesis by (intro exI [of _ out]) (auto dest: spec [of _ "[107]"] simp: numeral_3_eq_3 split: if_splits)
qed

theorem prefix_scan_agrees_with_get_witness:
  "\<exists>out. bt_wf out \<and> txn_get bitcask_engine plain_codec demo_t2 [107] demo_e2 = Ok (map_of out [107]) \<and>
    scan_pull BUFFER_SIZE bitcask_engine plain_codec [demo_e2, demo_e3, demo_e4]
      (txn_scan_prefix demo_t2 [107]) = map Ok (take 3 out)"
proof -
  obtain out where "bt_wf out" "\<forall>key. if \<exists>q. key = [107] @ q
      then txn_get bitcask_engine plain_codec demo_t2 key demo_e2 = Ok (map_of out key) else map_of out key = None"
    "scan_pull BUFFER_SIZE bitcask_engine plain_codec [demo_e2, demo_e3, demo_e4] (txn_scan_prefix demo_t2 [107]) =
      map Ok (take (length [demo_e2, demo_e3, demo_e4]) out)"
    using prefix_scan_agrees_with_get [OF plain_codec_ok demo_run _ demo_pulls, of "[107]"] by auto
  moreover have "\<exists>q. [107] = [107] @ (q :: bytes)" by simp
  ultimately show ?thesis by (intro exI [of _ out]) (auto dest: spec [of _ "[107]"] simp: numeral_3_eq_3 split: if_splits)
qed

end
