(* ===== verification/SqlLocal.thy ===== *)
theory SqlLocal
  imports SqlExec MvccScan
begin

text \<open>
  \<^verbatim>\<open>src/sql/engine/local.rs\<close>: tables, rows and secondary indexes on a key/value transaction. The
  transaction is a record of its operations; \<open>mvcc_kv\<close> is the one of \<^verbatim>\<open>storage::mvcc\<close>. A scan
  iterator is the list of its items. A \<^verbatim>\<open>BTreeSet\<close> of values is a list in increasing order. The
  assertions of debug builds are left out, as in the release profile.
\<close>

section \<open>Serialization of values\<close>

fun normalize_value :: "sql_value \<Rightarrow> sql_value" where
  "normalize_value (Float f) = Float (normalize_f64 f)"
| "normalize_value v = v"

definition str_bytes :: "string \<Rightarrow> bytes" where
  "str_bytes s = map (\<lambda>c. word_of_nat (of_char c)) s"

fun value_kval :: "sql_value \<Rightarrow> kval" where
  "value_kval Null = KUnitVar 0"
| "value_kval (Boolean b) = KNewVar 1 (KBool b)"
| "value_kval (Integer i) = KNewVar 2 (KI64 i)"
| "value_kval (Float f) = KNewVar 3 (KF64 (normalize_f64 f))"
| "value_kval (Str s) = KNewVar 4 (KStr (str_bytes s))"

text \<open>
  Bincode encodings of table schemas and of sequences of values: rows and sets of primary keys.
\<close>

record sql_codec =
  enc_table :: "sql_table \<Rightarrow> bytes"
  dec_table :: "bytes \<Rightarrow> sql_table result"
  enc_values :: "sql_value list \<Rightarrow> bytes"
  dec_values :: "bytes \<Rightarrow> sql_value list result"

definition sql_codec_ok :: "sql_codec \<Rightarrow> bool" where
  "sql_codec_ok C = ((\<forall>t. dec_table C (enc_table C t) = Ok t) \<and> (\<forall>vs. dec_values C (enc_values C vs) = Ok vs))"

definition normalize_column :: "sql_column \<Rightarrow> sql_column" where
  "normalize_column c = c\<lparr>col_default := map_option normalize_value (col_default c)\<rparr>"

definition normalize_table :: "sql_table \<Rightarrow> sql_table" where
  "normalize_table t = t\<lparr>tbl_columns := map normalize_column (tbl_columns t)\<rparr>"

definition table_encode :: "sql_codec \<Rightarrow> sql_table \<Rightarrow> bytes" where
  "table_encode C t = enc_table C (normalize_table t)"

definition values_encode :: "sql_codec \<Rightarrow> sql_value list \<Rightarrow> bytes" where
  "values_encode C vs = enc_values C (map normalize_value vs)"

section \<open>Sets of values\<close>

fun vset_insert :: "sql_value \<Rightarrow> sql_value list \<Rightarrow> sql_value list" where
  "vset_insert v [] = [v]"
| "vset_insert v (w # ws) = (case value_cmp v w of
      OLess \<Rightarrow> v # w # ws
    | OEqual \<Rightarrow> w # ws
    | OGreater \<Rightarrow> w # vset_insert v ws)"

definition vset_remove :: "sql_value \<Rightarrow> sql_value list \<Rightarrow> sql_value list" where
  "vset_remove v ws = filter (\<lambda>w. value_cmp v w \<noteq> OEqual) ws"

definition vset_collect :: "sql_value list \<Rightarrow> sql_value list" where
  "vset_collect vs = fold vset_insert vs []"

definition ids_decode :: "sql_codec \<Rightarrow> bytes \<Rightarrow> sql_value list result" where
  "ids_decode C b = rbind (dec_values C b) (\<lambda>vs. Ok (vset_collect vs))"

section \<open>Keys\<close>

datatype sql_key =
    KTable string
  | KIndex string string sql_value
  | KRow string sql_value

datatype sql_key_prefix =
    PTable
  | PIndex string string
  | PRow string

fun sql_key_kval :: "sql_key \<Rightarrow> kval" where
  "sql_key_kval (KTable t) = KNewVar 0 (KStr (str_bytes t))"
| "sql_key_kval (KIndex t c v) = KTupVar 1 [KStr (str_bytes t), KStr (str_bytes c), value_kval v]"
| "sql_key_kval (KRow t v) = KTupVar 2 [KStr (str_bytes t), value_kval v]"

fun sql_prefix_kval :: "sql_key_prefix \<Rightarrow> kval" where
  "sql_prefix_kval PTable = KUnitVar 0"
| "sql_prefix_kval (PIndex t c) = KTupVar 1 [KStr (str_bytes t), KStr (str_bytes c)]"
| "sql_prefix_kval (PRow t) = KNewVar 2 (KStr (str_bytes t))"

definition key_encode :: "sql_key \<Rightarrow> bytes" where
  "key_encode k = unwrap (serialize (sql_key_kval k))"

definition key_prefix :: "sql_key_prefix \<Rightarrow> bytes" where
  "key_prefix p = unwrap (serialize (sql_prefix_kval p))"

section \<open>Key/value transactions\<close>

record 's kv_txn =
  kt_get :: "bytes \<Rightarrow> 's \<Rightarrow> bytes option result"
  kt_set :: "bytes \<Rightarrow> bytes \<Rightarrow> ('s, unit) op"
  kt_delete :: "bytes \<Rightarrow> ('s, unit) op"
  kt_scan_prefix :: "bytes \<Rightarrow> 's \<Rightarrow> (bytes \<times> bytes) result list"

text \<open>
  An MVCC transaction on the shared engine. The iterator is pulled once more than the engine
  has keys, which is enough to see its end.
\<close>

definition mvcc_kv :: "'e engine_ops \<Rightarrow> codec \<Rightarrow> txn_state \<Rightarrow> 'e kv_txn" where
  "mvcc_kv E c t = \<lparr>kt_get = txn_get E c t, kt_set = txn_set E c t, kt_delete = txn_delete E c t,
     kt_scan_prefix = (\<lambda>p e. scan_pull BUFFER_SIZE E c
       (replicate (Suc (case e_scan E (Unbounded, Unbounded) e of Ok items \<Rightarrow> length items | _ \<Rightarrow> 0)) e)
       (txn_scan_prefix t p))\<rparr>"

section \<open>The catalog\<close>

definition get_table :: "'s kv_txn \<Rightarrow> sql_codec \<Rightarrow> string \<Rightarrow> 's \<Rightarrow> sql_table option result" where
  "get_table K C t s = rbind (kt_get K (key_encode (KTable t)) s) (\<lambda>v. case v of
      Some b \<Rightarrow> rbind (dec_table C b) (\<lambda>t. Ok (Some t))
    | None \<Rightarrow> Ok None)"

definition must_get_table :: "'s kv_txn \<Rightarrow> sql_codec \<Rightarrow> string \<Rightarrow> 's \<Rightarrow> sql_table result" where
  "must_get_table K C t s = rbind (get_table K C t s) (\<lambda>table. case table of
      Some table \<Rightarrow> Ok table
    | None \<Rightarrow> errinput ''table {table} does not exist'')"

definition list_tables :: "'s kv_txn \<Rightarrow> sql_codec \<Rightarrow> 's \<Rightarrow> sql_table list result" where
  "list_tables K C s = map_list_result (\<lambda>r. rbind r (\<lambda>(_, v). dec_table C v)) (kt_scan_prefix K (key_prefix PTable) s)"

definition reference_columns :: "string \<Rightarrow> sql_table \<Rightarrow> nat list" where
  "reference_columns t source = map fst (filter (\<lambda>(_, c). col_references c = Some t) (enumerate 0 (tbl_columns source)))"

definition table_references :: "'s kv_txn \<Rightarrow> sql_codec \<Rightarrow> string \<Rightarrow> 's \<Rightarrow> (sql_table \<times> nat list) list result" where
  "table_references K C t s = rbind (list_tables K C s) (\<lambda>tables.
     Ok (filter (\<lambda>(_, refs). refs \<noteq> []) (map (\<lambda>source. (source, reference_columns t source)) tables)))"

section \<open>Rows and indexes\<close>

definition get_index :: "'s kv_txn \<Rightarrow> sql_codec \<Rightarrow> string \<Rightarrow> string \<Rightarrow> sql_value \<Rightarrow> 's \<Rightarrow> sql_value list result" where
  "get_index K C t c v s = rbind (kt_get K (key_encode (KIndex t c v)) s) (\<lambda>b. case b of
      Some b \<Rightarrow> ids_decode C b
    | None \<Rightarrow> Ok [])"

definition set_index ::
  "'s kv_txn \<Rightarrow> sql_codec \<Rightarrow> string \<Rightarrow> string \<Rightarrow> sql_value \<Rightarrow> sql_value list \<Rightarrow> ('s, unit) op" where
  "set_index K C t c v ids =
     (if ids = [] then kt_delete K (key_encode (KIndex t c v))
      else kt_set K (key_encode (KIndex t c v)) (values_encode C ids))"

definition get_row :: "'s kv_txn \<Rightarrow> sql_codec \<Rightarrow> string \<Rightarrow> sql_value \<Rightarrow> 's \<Rightarrow> sql_row option result" where
  "get_row K C t i s = rbind (kt_get K (key_encode (KRow t i)) s) (\<lambda>b. case b of
      Some b \<Rightarrow> rbind (dec_values C b) (\<lambda>row. Ok (Some row))
    | None \<Rightarrow> Ok None)"

definition local_get :: "'s kv_txn \<Rightarrow> sql_codec \<Rightarrow> string \<Rightarrow> sql_value list \<Rightarrow> 's \<Rightarrow> sql_row list result" where
  "local_get K C t ids s = rbind (map_list_result (\<lambda>i. get_row K C t i s) ids) (\<lambda>rows. Ok (List.map_filter (\<lambda>r. r) rows))"

definition local_lookup_index ::
  "'s kv_txn \<Rightarrow> sql_codec \<Rightarrow> string \<Rightarrow> string \<Rightarrow> sql_value list \<Rightarrow> 's \<Rightarrow> sql_value list result" where
  "local_lookup_index K C t c vs s =
     rbind (map_list_result (\<lambda>v. get_index K C t c v s) vs) (\<lambda>idss. Ok (vset_collect (concat idss)))"

definition local_scan :: "'s kv_txn \<Rightarrow> sql_codec \<Rightarrow> value_ops \<Rightarrow> string \<Rightarrow> expression option \<Rightarrow> 's \<Rightarrow> rows result" where
  "local_scan K C F t flt s =
     (let rows = map (\<lambda>r. rbind r (\<lambda>(_, v). dec_values C v)) (kt_scan_prefix K (key_prefix (PRow t)) s)
      in Ok (case flt of None \<Rightarrow> rows | Some flt \<Rightarrow> filter_rows F flt rows))"

definition index_columns :: "sql_table \<Rightarrow> (nat \<times> sql_column) list" where
  "index_columns t = filter (\<lambda>(_, c). col_index c) (enumerate 0 (tbl_columns t))"

text \<open>Adds a primary key to the index entry of a value, or removes it.\<close>

definition index_add ::
  "'s kv_txn \<Rightarrow> sql_codec \<Rightarrow> sql_table \<Rightarrow> sql_value \<Rightarrow> sql_column \<Rightarrow> sql_value \<Rightarrow> ('s, unit) op" where
  "index_add K C t i c v =
     sbind (sread (get_index K C (tbl_name t) (col_name c) v)) (\<lambda>ids.
     set_index K C (tbl_name t) (col_name c) v (vset_insert i ids))"

definition index_del ::
  "'s kv_txn \<Rightarrow> sql_codec \<Rightarrow> sql_table \<Rightarrow> sql_value \<Rightarrow> sql_column \<Rightarrow> sql_value \<Rightarrow> ('s, unit) op" where
  "index_del K C t i c v =
     sbind (sread (get_index K C (tbl_name t) (col_name c) v)) (\<lambda>ids.
     set_index K C (tbl_name t) (col_name c) v (vset_remove i ids))"

section \<open>Delete\<close>

definition referencing_ids ::
  "'s kv_txn \<Rightarrow> sql_codec \<Rightarrow> sql_table \<Rightarrow> nat \<Rightarrow> sql_value list \<Rightarrow> 's \<Rightarrow> sql_value list result" where
  "referencing_ids K C source i ids s =
     rbind (nth_checked (tbl_columns source) i) (\<lambda>column.
     if i = tbl_primary_key source
     then rbind (local_get K C (tbl_name source) ids s) (\<lambda>rows.
          rbind (map_list_result (\<lambda>row. if i < length row then Ok (row ! i) else Panic ''short row'') rows) (\<lambda>vs.
          Ok (vset_collect vs)))
     else local_lookup_index K C (tbl_name source) (col_name column) ids s)"

definition check_reference ::
  "'s kv_txn \<Rightarrow> sql_codec \<Rightarrow> string \<Rightarrow> sql_value list \<Rightarrow> sql_table \<Rightarrow> 's \<Rightarrow> nat \<Rightarrow> unit result" where
  "check_reference K C t ids source s i =
     rbind (referencing_ids K C source i ids s) (\<lambda>source_ids.
     ensure ((if tbl_name source = t then fold vset_remove ids source_ids else source_ids) = [])
       ''row referenced by {table}.{column}={source_id}'')"

definition check_references :: "'s kv_txn \<Rightarrow> sql_codec \<Rightarrow> string \<Rightarrow> sql_value list \<Rightarrow> 's \<Rightarrow> unit result" where
  "check_references K C t ids s =
     rbind (table_references K C t s) (\<lambda>sources.
     rbind (map_list_result (\<lambda>(source, refs). map_list_result (check_reference K C t ids source s) refs) sources)
       (\<lambda>_. Ok ()))"

definition delete_row :: "'s kv_txn \<Rightarrow> sql_codec \<Rightarrow> sql_table \<Rightarrow> sql_value \<Rightarrow> ('s, unit) op" where
  "delete_row K C t i =
     sbind (if index_columns t = [] then sreturn ()
       else sbind (sread (get_row K C (tbl_name t) i)) (\<lambda>row. case row of
           None \<Rightarrow> sreturn ()
         | Some row \<Rightarrow> sfor (index_columns t) (\<lambda>(n, c).
             sbind (slift (nth_checked row n)) (index_del K C t i c)))) (\<lambda>_.
     kt_delete K (key_encode (KRow (tbl_name t) i)))"

definition local_delete :: "'s kv_txn \<Rightarrow> sql_codec \<Rightarrow> string \<Rightarrow> sql_value list \<Rightarrow> ('s, unit) op" where
  "local_delete K C t ids =
     sbind (sread (must_get_table K C t)) (\<lambda>t.
     sbind (sread (check_references K C (tbl_name t) ids)) (\<lambda>_.
     sfor ids (delete_row K C t)))"

section \<open>Insert and update\<close>

definition local_validate :: "'s kv_txn \<Rightarrow> sql_codec \<Rightarrow> sql_table \<Rightarrow> sql_row \<Rightarrow> bool \<Rightarrow> 's \<Rightarrow> unit result" where
  "local_validate K C t row update s =
     validate_row (\<lambda>t ids. local_get K C t ids s) (\<lambda>t c vs. local_lookup_index K C t c vs s) t row update"

definition insert_one :: "'s kv_txn \<Rightarrow> sql_codec \<Rightarrow> sql_table \<Rightarrow> sql_row \<Rightarrow> ('s, unit) op" where
  "insert_one K C t row =
     sbind (sread (local_validate K C t row False)) (\<lambda>_.
     sbind (slift (nth_checked row (tbl_primary_key t))) (\<lambda>i.
     sbind (kt_set K (key_encode (KRow (tbl_name t) i)) (values_encode C row)) (\<lambda>_.
     sfor (index_columns t) (\<lambda>(n, c).
       sbind (slift (nth_checked row n)) (index_add K C t i c)))))"

definition local_insert :: "'s kv_txn \<Rightarrow> sql_codec \<Rightarrow> string \<Rightarrow> sql_row list \<Rightarrow> ('s, unit) op" where
  "local_insert K C t rows =
     sbind (sread (must_get_table K C t)) (\<lambda>t. sfor rows (insert_one K C t))"

definition update_index ::
  "'s kv_txn \<Rightarrow> sql_codec \<Rightarrow> sql_table \<Rightarrow> sql_value \<Rightarrow> sql_row \<Rightarrow> sql_row \<Rightarrow> nat \<times> sql_column \<Rightarrow> ('s, unit) op" where
  "update_index K C t i old row = (\<lambda>(n, c).
     sbind (slift (nth_checked old n)) (\<lambda>v.
     sbind (slift (nth_checked row n)) (\<lambda>w.
     if value_eq v w then sreturn ()
     else sbind (index_del K C t i c v) (\<lambda>_. index_add K C t i c w))))"

definition update_in_place :: "'s kv_txn \<Rightarrow> sql_codec \<Rightarrow> sql_table \<Rightarrow> sql_value \<Rightarrow> sql_row \<Rightarrow> ('s, unit) op" where
  "update_in_place K C t i row =
     sbind (sread (local_validate K C t row True)) (\<lambda>_.
     sbind (if index_columns t = [] then sreturn ()
       else sbind (sread (local_get K C (tbl_name t) [i])) (\<lambda>rows. case rows of
           [] \<Rightarrow> slift (Panic ''removal index (is 0) should be < len (is 0)'')
         | old # _ \<Rightarrow> sfor (index_columns t) (update_index K C t i old row))) (\<lambda>_.
     kt_set K (key_encode (KRow (tbl_name t) i)) (values_encode C row)))"

definition update_one :: "'s kv_txn \<Rightarrow> sql_codec \<Rightarrow> sql_table \<Rightarrow> sql_value \<times> sql_row \<Rightarrow> ('s, unit) op" where
  "update_one K C t = (\<lambda>(i, row).
     sbind (slift (nth_checked row (tbl_primary_key t))) (\<lambda>j.
     if \<not> value_eq i j
     then sbind (local_delete K C (tbl_name t) [i]) (\<lambda>_. local_insert K C (tbl_name t) [row])
     else update_in_place K C t i row))"

definition local_update :: "'s kv_txn \<Rightarrow> sql_codec \<Rightarrow> string \<Rightarrow> (sql_value \<times> sql_row) list \<Rightarrow> ('s, unit) op" where
  "local_update K C t rows =
     sbind (sread (must_get_table K C t)) (\<lambda>t. sfor rows (update_one K C t))"

section \<open>Creating and dropping tables\<close>

definition local_create_table :: "'s kv_txn \<Rightarrow> sql_codec \<Rightarrow> sql_table \<Rightarrow> ('s, unit) op" where
  "local_create_table K C t =
     sbind (sread (get_table K C (tbl_name t))) (\<lambda>existing.
     if existing \<noteq> None then slift (errinput ''table {} already exists'')
     else
       sbind (sread (\<lambda>s. validate_table (\<lambda>name. get_table K C name s) t)) (\<lambda>_.
       kt_set K (key_encode (KTable (tbl_name t))) (table_encode C t)))"

text \<open>Deletes the keys of a scan.\<close>

definition delete_prefix :: "'s kv_txn \<Rightarrow> sql_key_prefix \<Rightarrow> ('s, unit) op" where
  "delete_prefix K p =
     sbind (sread (\<lambda>s. Ok (kt_scan_prefix K (key_prefix p) s))) (\<lambda>items.
     sfor items (\<lambda>item. sbind (slift item) (\<lambda>(key, _). kt_delete K key)))"

definition local_drop_table :: "'s kv_txn \<Rightarrow> sql_codec \<Rightarrow> string \<Rightarrow> bool \<Rightarrow> ('s, bool) op" where
  "local_drop_table K C t if_exists =
     sbind (sread (get_table K C t)) (\<lambda>table. case table of
       None \<Rightarrow> if if_exists then sreturn False else slift (errinput ''table {table} does not exist'')
     | Some table \<Rightarrow>
         sbind (sread (table_references K C (tbl_name table))) (\<lambda>refs.
         sbind (slift (ensure (\<forall>(source, _) \<in> set refs. tbl_name source = tbl_name table)
           ''table {} is referenced from {}.{}'')) (\<lambda>_.
         sbind (kt_delete K (key_encode (KTable (tbl_name table)))) (\<lambda>_.
         sbind (delete_prefix K (PRow (tbl_name table))) (\<lambda>_.
         sbind (sfor (index_columns table) (\<lambda>(_, c). delete_prefix K (PIndex (tbl_name table) (col_name c)))) (\<lambda>_.
         sreturn True))))))"

section \<open>The SQL transaction\<close>

definition local_txn :: "'s kv_txn \<Rightarrow> sql_codec \<Rightarrow> value_ops \<Rightarrow> 's sql_txn" where
  "local_txn K C F = \<lparr>st_get = local_get K C, st_lookup_index = local_lookup_index K C, st_scan = local_scan K C F,
     st_delete = local_delete K C, st_insert = local_insert K C, st_update = local_update K C,
     st_create_table = local_create_table K C, st_drop_table = local_drop_table K C\<rparr>"

end
