(* ===== verification/SqlStore.thy ===== *)
theory SqlStore
  imports SqlLocal
begin

text \<open>
  The contents of a SQL database as an abstract record: table schemas, rows by primary key, and
  the primary keys an index holds for a value. \<open>kv_transaction\<close> is what the storage engine needs of a
  key/value transaction; in it, every primitive of \<open>SqlLocal\<close> is an operation on the abstract
  database. An MVCC transaction on a BitCask database keeps that contract.
\<close>

section \<open>Encoded keys\<close>

lemma byte_of_char_inject [simp]: "(word_of_nat (of_char c) :: byte) = word_of_nat (of_char d) \<longleftrightarrow> c = d"
proof -
  have less: "(of_char c :: nat) < 256" for c
    using of_char_of [of "of_char c :: nat"] by (metis char_of_char mod_less_divisor zero_less_numeral)
  have "unat (word_of_nat (of_char c) :: byte) = of_char c" for c
    using less [of c] by (simp add: unat_of_nat)
  then show ?thesis by (metis of_char_eq_iff)
qed

lemma str_bytes_inject [simp]: "str_bytes s = str_bytes t \<longleftrightarrow> s = t"
  by (auto simp: str_bytes_def inj_map_eq_map inj_on_def)

lemma serialize_bytes_append [simp]: "serialize_bytes a @ r = serialize_bytes b @ r' \<longleftrightarrow> a = b \<and> r = r'"
  by (metis decode_next_bytes_serialize prod.inject result.inject(1))

lemma serialize_bytes_inject [simp]: "serialize_bytes a = serialize_bytes b \<longleftrightarrow> a = b"
  using serialize_bytes_append [of a "[]" b "[]"] by simp

lemma serialize_i64_inject [simp]: "serialize_i64 a = serialize_i64 b \<longleftrightarrow> a = b"
  by (metis deserialize_serialize_scalars(2) kval.inject(2) prod.inject result.inject(1))

lemma serialize_f64_inject [simp]: "serialize_f64 a = serialize_f64 b \<longleftrightarrow> a = b"
  by (metis deserialize_serialize_f64 kval.inject(4) prod.inject result.inject(1))

definition value_bytes :: "sql_value \<Rightarrow> bytes" where
  "value_bytes v = unwrap (ser (value_kval v))"

lemma ser_value: "ser (value_kval v) = Ok (value_bytes v)"
  by (cases v) (simp_all add: value_bytes_def serialize_unit_variant_def)

lemma value_bytes_inject [simp]: "value_bytes v = value_bytes w \<longleftrightarrow> normalize_value v = normalize_value w"
  by (cases v; cases w) (auto simp: value_bytes_def serialize_unit_variant_def)

lemma key_encode_bytes:
  "key_encode (KTable t) = 0 # serialize_bytes (str_bytes t)"
  "key_encode (KIndex t c v) = 1 # serialize_bytes (str_bytes t) @ serialize_bytes (str_bytes c) @ value_bytes v"
  "key_encode (KRow t v) = 2 # serialize_bytes (str_bytes t) @ value_bytes v"
  by (simp_all add: key_encode_def serialize_def serialize_unit_variant_def ser_value)

lemma key_prefix_bytes:
  "key_prefix PTable = [0]"
  "key_prefix (PIndex t c) = 1 # serialize_bytes (str_bytes t) @ serialize_bytes (str_bytes c)"
  "key_prefix (PRow t) = 2 # serialize_bytes (str_bytes t)"
  by (simp_all add: key_prefix_def serialize_def serialize_unit_variant_def)

fun norm_key :: "sql_key \<Rightarrow> sql_key" where
  "norm_key (KTable t) = KTable t"
| "norm_key (KIndex t c v) = KIndex t c (normalize_value v)"
| "norm_key (KRow t v) = KRow t (normalize_value v)"

lemma key_encode_inject [simp]: "key_encode k = key_encode k' \<longleftrightarrow> norm_key k = norm_key k'"
  by (cases k; cases k') (simp_all add: key_encode_bytes)

fun in_prefix :: "sql_key_prefix \<Rightarrow> sql_key \<Rightarrow> bool" where
  "in_prefix PTable (KTable t) = True"
| "in_prefix (PIndex t c) (KIndex t' c' v) = (t' = t \<and> c' = c)"
| "in_prefix (PRow t) (KRow t' v) = (t' = t)"
| "in_prefix _ _ = False"

lemma prefix_key: "(\<exists>q. key_encode k = key_prefix p @ q) \<longleftrightarrow> in_prefix p k"
  by (cases "(p, k)" rule: in_prefix.cases) (auto simp: key_encode_bytes key_prefix_bytes)

section \<open>Normalized values\<close>

lemma normalize_f64_idem [simp]: "normalize_f64 (normalize_f64 f) = normalize_f64 f"
proof (cases "(f64_is_nan f \<or> f64_eq f 0) \<and> f64_is_sign_negative f")
  case True
  then have "\<not> f64_is_sign_negative (f64_neg f)"
    by (auto simp: f64_is_sign_negative_def f64_neg_def bit_simps)
  with True show ?thesis by (simp add: normalize_f64_def)
qed (auto simp: normalize_f64_def)

lemma normalize_value_idem [simp]: "normalize_value (normalize_value v) = normalize_value v"
  by (cases v) simp_all

lemma normalize_values_idem [simp]: "map normalize_value (map normalize_value vs) = map normalize_value vs"
  by (simp add: comp_def)

lemma f64_is_nan_neg [simp]: "f64_is_nan (f64_neg f) = f64_is_nan f"
proof -
  have "unat (f64_neg f) mod 2 ^ 63 = unat f mod 2 ^ 63"
  proof -
    have "take_bit 63 (f64_neg f) = take_bit 63 f"
      by (rule bit_eqI) (auto simp: f64_neg_def bit_simps)
    then have "take_bit 63 (unat (f64_neg f)) = take_bit 63 (unat f)"
      by (metis unsigned_take_bit_eq)
    then show ?thesis by (simp add: take_bit_eq_mod)
  qed
  then show ?thesis by (simp add: f64_is_nan_def)
qed

lemma f64_is_nan_normalize [simp]: "f64_is_nan (normalize_f64 f) = f64_is_nan f"
  by (simp add: normalize_f64_def)

lemma normalize_value_fields [simp]:
  "datatype_of (normalize_value v) = datatype_of v"
  "is_undefined (normalize_value v) = is_undefined v"
  "normalize_value v = Null \<longleftrightarrow> v = Null"
  by (cases v; simp)+

text \<open>Values of one type that are defined compare like their normal forms, unless these are equal.\<close>

lemma value_cmp_normalize:
  assumes "\<not> is_undefined i" "datatype_of w = datatype_of i" "normalize_value w = w" "w \<noteq> normalize_value i"
  shows "value_cmp i w = value_cmp (normalize_value i) w"
proof (cases i)
  case (Float f)
  with assms obtain g where w: "w = Float g" by (cases w) auto
  show ?thesis
  proof (cases "normalize_f64 f = f")
    case False
    then have f: "f = 0x8000000000000000" "normalize_f64 f = 0"
      using assms(1) Float by (auto simp: normalize_f64_def f64_eq_zero f64_is_sign_negative_def f64_neg_def split: if_splits)
    have "g \<noteq> f" using assms(3) False w by auto
    moreover have "g \<noteq> 0" using assms(4) f w Float by simp
    moreover have "f64_rank f = - 1" "f64_rank 0 = 0"
      by (simp_all add: f(1) f64_rank_def)
    ultimately have "f64_rank g < f64_rank f \<and> f64_rank g < 0 \<or> 0 < f64_rank g"
      using f64_rank_inject [of g f] f64_rank_inject [of g 0] by linarith
    with f Float w \<open>f64_rank f = - 1\<close> \<open>f64_rank 0 = 0\<close> show ?thesis
      by (auto simp: value_cmp_def total_cmp_def ord_cmp_def)
  qed (simp add: Float)
qed (use assms in simp_all)

section \<open>Sets of primary keys\<close>

definition vset_wf :: "sql_value list \<Rightarrow> bool" where
  "vset_wf ids = (sorted_wrt (\<lambda>x y. value_cmp x y = OLess) ids \<and>
     (\<forall>x\<in>set ids. normalize_value x = x \<and> \<not> is_undefined x) \<and>
     (\<exists>ty. \<forall>x\<in>set ids. datatype_of x = Some ty))"

lemma unmixed_datatype: "datatype_of x = datatype_of y \<Longrightarrow> \<not> mixed x y"
  by (cases x; cases y) (auto simp: mixed_def)

lemma value_cmp_same_type:
  assumes "datatype_of x = datatype_of y"
  shows "value_cmp x y = ord_cmp (value_key x) (value_key y)"
  by (rule value_cmp_key [OF unmixed_datatype [OF assms]])

lemma value_cmp_type_eq: "datatype_of x = datatype_of y \<Longrightarrow> value_cmp x y = OEqual \<longleftrightarrow> x = y"
  using value_key_inject [of x y] by (auto simp: value_cmp_same_type)

lemma value_cmp_type_trans:
  "datatype_of x = datatype_of y \<Longrightarrow> datatype_of y = datatype_of z \<Longrightarrow>
   value_cmp x y = OLess \<Longrightarrow> value_cmp y z = OLess \<Longrightarrow> value_cmp x z = OLess"
  by (auto simp: value_cmp_same_type ord_cmp_def split: if_splits)

lemma vset_collect_sorted:
  assumes "sorted_wrt (\<lambda>x y. value_cmp x y = OLess) ids"
  shows "vset_collect ids = ids"
proof -
  have last: "vset_insert v ws = ws @ [v]" if "\<forall>w\<in>set ws. value_cmp w v = OLess" for v ws
    using that by (induction ws) (auto simp: value_cmp_reverse [of _ v] split: ordering.split)
  have "fold vset_insert vs ws = ws @ vs" if "sorted_wrt (\<lambda>x y. value_cmp x y = OLess) (ws @ vs)" for vs ws
    using that
  proof (induction vs arbitrary: ws)
    case (Cons v vs)
    then have "vset_insert v ws = ws @ [v]" by (intro last) (auto simp: sorted_wrt_append)
    with Cons.IH [of "ws @ [v]"] Cons.prems show ?case by simp
  qed simp
  from this [of "[]" ids] assms show ?thesis by (simp add: vset_collect_def)
qed

lemma set_vset_insert: "set (vset_insert v ws) \<subseteq> insert v (set ws)" "set ws \<subseteq> set (vset_insert v ws)"
  by (induction ws) (auto split: ordering.splits)

lemma vset_wf_insert:
  assumes "vset_wf ids" "\<not> is_undefined i" "\<forall>x\<in>set ids. datatype_of x = datatype_of i" "normalize_value i \<notin> set ids"
  shows "vset_wf (map normalize_value (vset_insert i ids))"
    and "set (map normalize_value (vset_insert i ids)) = insert (normalize_value i) (set ids)"
proof -
  let ?less = "\<lambda>x y. value_cmp x y = OLess"
  have i: "datatype_of i \<noteq> None" using assms(2) by (cases i) auto
  have "sorted_wrt ?less (map normalize_value (vset_insert i ids)) \<and>
      set (map normalize_value (vset_insert i ids)) = insert (normalize_value i) (set ids)"
    using assms
  proof (induction ids)
    case (Cons w ws)
    from Cons.prems have w: "normalize_value w = w" "datatype_of w = datatype_of i" "normalize_value i \<noteq> w"
        "\<forall>x\<in>set ws. ?less w x"
      and ws: "\<forall>x\<in>set ws. normalize_value x = x \<and> datatype_of x = datatype_of i"
      and ws': "sorted_wrt ?less ws"
      by (simp_all add: vset_wf_def)
    have "vset_wf ws" using Cons.prems(1) unfolding vset_wf_def by (auto simp: sorted_wrt.simps(2))
    from ws have norm: "map normalize_value ws = ws" by (intro map_idI) simp
    have cmp: "value_cmp i w = value_cmp (normalize_value i) w"
      using w by (intro value_cmp_normalize assms(2)) auto
    have IH: "sorted_wrt ?less (map normalize_value (vset_insert i ws))"
      "set (map normalize_value (vset_insert i ws)) = insert (normalize_value i) (set ws)"
      using Cons.IH [OF \<open>vset_wf ws\<close>] Cons.prems by simp_all
    show ?case
    proof (cases "value_cmp i w")
      case OLess
      then have "?less (normalize_value i) x" if "x \<in> set ws" for x
        using that w ws cmp value_cmp_type_trans [of "normalize_value i" w x] by simp
      with OLess cmp w ws' norm show ?thesis by (auto simp: insert_commute)
    next
      case OEqual
      with cmp w value_cmp_type_eq [of "normalize_value i" w] show ?thesis by auto
    next
      case OGreater
      then have "?less w (normalize_value i)" using cmp value_cmp_reverse [of w "normalize_value i"] by simp
      with OGreater w IH show ?thesis by auto
    qed
  qed simp
  then have sorted: "sorted_wrt ?less (map normalize_value (vset_insert i ids))"
    and set: "set (map normalize_value (vset_insert i ids)) = insert (normalize_value i) (set ids)" by blast+
  obtain ty where "datatype_of i = Some ty" using i by blast
  then have "\<forall>x\<in>insert (normalize_value i) (set ids). datatype_of x = Some ty" using assms(3) by simp
  moreover have "\<forall>x\<in>insert (normalize_value i) (set ids). normalize_value x = x \<and> \<not> is_undefined x"
    using assms(1,2) by (auto simp: vset_wf_def)
  ultimately show "vset_wf (map normalize_value (vset_insert i ids))"
    unfolding vset_wf_def set using sorted by blast
  show "set (map normalize_value (vset_insert i ids)) = insert (normalize_value i) (set ids)" by (rule set)
qed

lemma vset_wf_remove: "vset_wf ids \<Longrightarrow> vset_wf (vset_remove i ids)"
  by (auto simp: vset_wf_def vset_remove_def sorted_wrt_filter)

lemma set_vset_remove:
  "\<forall>x\<in>set ids. datatype_of x = datatype_of i \<Longrightarrow> set (vset_remove i ids) = set ids - {i}"
  using value_cmp_type_eq [of i] by (auto simp: vset_remove_def)

lemma set_vset_collect:
  assumes "\<forall>v\<in>set vs. datatype_of v = ty"
  shows "set (vset_collect vs) = set vs"
proof -
  have ins: "set (vset_insert v ws) = insert v (set ws)" if "\<forall>w\<in>set ws. datatype_of v = datatype_of w" for v ws
    using that by (induction ws) (auto simp: value_cmp_type_eq split: ordering.split)
  have "set (fold vset_insert vs ws) = set vs \<union> set ws" if "\<forall>w\<in>set vs \<union> set ws. datatype_of w = ty" for ws
    using that
  proof (induction vs arbitrary: ws)
    case (Cons v vs)
    then have "set (vset_insert v ws) = insert v (set ws)" by (intro ins) simp
    with Cons show ?case by simp
  qed simp
  from this [of "[]"] assms show ?thesis by (simp add: vset_collect_def)
qed

lemma set_vset_removes:
  "\<forall>v\<in>set ids \<union> set vs. datatype_of v = ty \<Longrightarrow> set (fold vset_remove ids vs) = set vs - set ids"
proof (induction ids arbitrary: vs)
  case (Cons i ids)
  then have "set (vset_remove i vs) = set vs - {i}" by (intro set_vset_remove) simp
  with Cons show ?case by auto
qed simp

lemma vset_collect_Nil: "vset_collect vs = [] \<longleftrightarrow> vs = []"
proof -
  have "vset_insert v ws \<noteq> []" for v ws by (cases ws) (auto split: ordering.split)
  note nonempty = this
  have "fold vset_insert vs ws \<noteq> []" if "ws \<noteq> []" for vs ws
    using that nonempty by (induction vs arbitrary: ws) simp_all
  then show ?thesis by (cases vs) (simp_all add: vset_collect_def)
qed

section \<open>The contract of a key/value transaction\<close>

text \<open>A failure other than invalid input: a conflict, a read-only transaction or the storage.\<close>

definition failed :: "'a result \<Rightarrow> bool" where
  "failed r = (\<exists>e. r = Err e \<and> (\<forall>m. e \<noteq> InvalidInput m))"

lemma failed_simps [simp]:
  "\<not> failed (Ok x)" "\<not> failed (Panic p)" "\<not> failed (Err (InvalidInput m))" "failed (Err Serialization)" "failed (Err ReadOnly)"
  by (simp_all add: failed_def)

definition write_effect :: "bool \<Rightarrow> unit result \<Rightarrow> 'v \<Rightarrow> 'v \<Rightarrow> 'v \<Rightarrow> bool" where
  "write_effect weak r before after now = (r = Ok () \<and> now = after \<or> weak \<and> failed r \<and> now = before)"

locale kv_transaction =
  fixes weak :: bool and K :: "'s kv_txn" and view :: "'s \<Rightarrow> bytes \<Rightarrow> bytes option" and invar :: "'s \<Rightarrow> bool"
  assumes get_view: "invar s \<Longrightarrow> kt_get K k s = Ok (view s k)"
    and set_view: "invar s \<Longrightarrow> kt_set K k v s = (r, s') \<Longrightarrow>
      invar s' \<and> write_effect weak r (view s) ((view s)(k \<mapsto> v)) (view s')"
    and delete_view: "invar s \<Longrightarrow> kt_delete K k s = (r, s') \<Longrightarrow>
      invar s' \<and> write_effect weak r (view s) ((view s)(k := None)) (view s')"
    and scan_view: "invar s \<Longrightarrow> \<exists>out. kt_scan_prefix K p s = map Ok out \<and> distinct (map fst out) \<and>
      (\<forall>k. map_of out k = (if \<exists>q. k = p @ q then view s k else None))"

text \<open>What holds after an operation, unless it failed.\<close>

definition runs :: "bool \<Rightarrow> ('s, 'a) op \<Rightarrow> 's \<Rightarrow> ('a result \<Rightarrow> 's \<Rightarrow> bool) \<Rightarrow> bool" where
  "runs weak m s Q = (case m s of (r, s') \<Rightarrow> weak \<and> failed r \<or> Q r s')"

lemma runs_then:
  assumes "runs weak m s (\<lambda>r s'. \<exists>x. r = Ok x \<and> R x s')" "\<And>x s'. R x s' \<Longrightarrow> runs weak (f x) s' Q"
  shows "runs weak (sbind m f) s Q"
proof -
  obtain r s' where m: "m s = (r, s')" by (cases "m s")
  show ?thesis
  proof (cases "weak \<and> failed r")
    case True
    with m show ?thesis by (auto simp: failed_def runs_def sbind_def)
  next
    case False
    then obtain x where "r = Ok x" "R x s'" using assms(1) m by (auto simp: runs_def)
    with m assms(2) show ?thesis by (simp add: runs_def sbind_def)
  qed
qed

lemma runs_read: "f s = Ok x \<Longrightarrow> runs weak (g x) s Q \<Longrightarrow> runs weak (sbind (sread f) g) s Q"
  by (simp add: runs_def sbind_def)

lemma runs_lift: "r = Ok x \<Longrightarrow> runs weak (g x) s Q \<Longrightarrow> runs weak (sbind (slift r) g) s Q"
  by (simp add: runs_def sbind_def)

lemma runs_simps [simp]:
  "runs weak (sreturn x) s Q \<longleftrightarrow> Q (Ok x) s"
  "runs weak (slift r) s Q \<longleftrightarrow> weak \<and> failed r \<or> Q r s"
  "runs weak (Pair r) s Q \<longleftrightarrow> weak \<and> failed r \<or> Q r s"
  by (simp_all add: runs_def)

lemma runs_weaken: "runs weak m s Q \<Longrightarrow> (\<And>r s'. Q r s' \<Longrightarrow> Q' r s') \<Longrightarrow> runs weak m s Q'"
  by (auto simp: runs_def split: prod.splits)

section \<open>The abstract database\<close>

record sql_db =
  db_tables :: "string \<Rightarrow> sql_table option"
  db_rows :: "string \<times> sql_value \<Rightarrow> sql_row option"
  db_index :: "string \<times> string \<times> sql_value \<Rightarrow> sql_value set"

definition index_entry :: "sql_codec \<Rightarrow> sql_value set \<Rightarrow> bytes option \<Rightarrow> bool" where
  "index_entry C S b = (case b of
      None \<Rightarrow> S = {}
    | Some b \<Rightarrow> \<exists>ids. b = enc_values C ids \<and> set ids = S \<and> ids \<noteq> [] \<and> vset_wf ids)"

definition db_stored :: "sql_codec \<Rightarrow> (bytes \<Rightarrow> bytes option) \<Rightarrow> sql_db \<Rightarrow> bool" where
  "db_stored C V D =
     ((\<forall>t. V (key_encode (KTable t)) = map_option (enc_table C) (db_tables D t)) \<and>
      (\<forall>t i. V (key_encode (KRow t i)) = map_option (enc_values C) (db_rows D (t, normalize_value i))) \<and>
      (\<forall>t c v. index_entry C (db_index D (t, c, normalize_value v)) (V (key_encode (KIndex t c v)))) \<and>
      (\<forall>b. V b \<noteq> None \<longrightarrow> (\<exists>k. b = key_encode k)))"

definition empty_db :: sql_db where
  "empty_db = \<lparr>db_tables = (\<lambda>_. None), db_rows = (\<lambda>_. None), db_index = (\<lambda>_. {})\<rparr>"

lemma empty_stored: "db_stored C (\<lambda>_. None) empty_db"
  by (simp add: db_stored_def empty_db_def index_entry_def)

lemma stored_put_table:
  "db_stored C V D \<Longrightarrow> db_stored C (V(key_encode (KTable t) \<mapsto> enc_table C T)) (D\<lparr>db_tables := (db_tables D)(t \<mapsto> T)\<rparr>)"
  by (auto simp: db_stored_def intro: exI [of _ "KTable t"])

lemma stored_drop_table:
  "db_stored C V D \<Longrightarrow> db_stored C (V(key_encode (KTable t) := None)) (D\<lparr>db_tables := (db_tables D)(t := None)\<rparr>)"
  by (auto simp: db_stored_def)

lemma stored_put_row:
  "db_stored C V D \<Longrightarrow> db_stored C (V(key_encode (KRow t i) \<mapsto> values_encode C row))
     (D\<lparr>db_rows := (db_rows D)((t, normalize_value i) \<mapsto> map normalize_value row)\<rparr>)"
  by (auto simp: db_stored_def values_encode_def intro: exI [of _ "KRow t i"])

lemma stored_drop_row:
  "db_stored C V D \<Longrightarrow> db_stored C (V(key_encode (KRow t i) := None))
     (D\<lparr>db_rows := (db_rows D)((t, normalize_value i) := None)\<rparr>)"
  by (auto simp: db_stored_def)

lemma stored_put_index:
  "db_stored C V D \<Longrightarrow> index_entry C S b \<Longrightarrow> db_stored C (V(key_encode (KIndex t c v) := b))
     (D\<lparr>db_index := (db_index D)((t, c, normalize_value v) := S)\<rparr>)"
  by (auto simp: db_stored_def intro: exI [of _ "KIndex t c v"])

context kv_transaction
begin

definition holds :: "sql_codec \<Rightarrow> 's \<Rightarrow> sql_db \<Rightarrow> bool" where
  "holds C s D = (sql_codec_ok C \<and> invar s \<and> db_stored C (view s) D)"

lemma get_table_holds: "holds C s D \<Longrightarrow> get_table K C t s = Ok (db_tables D t)"
  by (auto simp: holds_def get_table_def get_view db_stored_def sql_codec_ok_def split: option.split)

lemma must_get_table_holds:
  "holds C s D \<Longrightarrow> must_get_table K C t s =
     (case db_tables D t of Some T \<Rightarrow> Ok T | None \<Rightarrow> Err (InvalidInput ''table {table} does not exist''))"
  by (simp add: must_get_table_def get_table_holds split: option.split)

lemma get_row_holds: "holds C s D \<Longrightarrow> get_row K C t i s = Ok (db_rows D (t, normalize_value i))"
  by (auto simp: holds_def get_row_def get_view db_stored_def sql_codec_ok_def split: option.split)

lemma local_get_holds:
  "holds C s D \<Longrightarrow> local_get K C t ids s = Ok (List.map_filter (\<lambda>i. db_rows D (t, normalize_value i)) ids)"
  by (simp add: local_get_def get_row_holds map_list_result_Ok [where g = "\<lambda>i. db_rows D (t, normalize_value i)"]
      map_filter_def comp_def filter_map)

lemma get_index_holds:
  assumes "holds C s D"
  obtains ids where "get_index K C t c v s = Ok ids" "set ids = db_index D (t, c, normalize_value v)" "vset_wf ids"
proof -
  let ?b = "view s (key_encode (KIndex t c v))"
  have b: "index_entry C (db_index D (t, c, normalize_value v)) ?b" "kt_get K (key_encode (KIndex t c v)) s = Ok ?b"
    using assms by (auto simp: holds_def db_stored_def get_view)
  show thesis
  proof (cases ?b)
    case None
    with b show thesis by (intro that [of "[]"]) (simp_all add: get_index_def index_entry_def vset_wf_def)
  next
    case (Some bytes)
    with b obtain ids where ids: "bytes = enc_values C ids" "set ids = db_index D (t, c, normalize_value v)" "vset_wf ids"
      by (auto simp: index_entry_def)
    then have "vset_collect ids = ids" by (intro vset_collect_sorted) (simp add: vset_wf_def)
    with ids b Some assms show thesis
      by (intro that [of ids]) (simp_all add: get_index_def ids_decode_def holds_def sql_codec_ok_def)
  qed
qed

text \<open>Scans: the tables of the catalog, and the rows of a table.\<close>

lemma scan_holds:
  assumes "holds C s D"
  obtains out where "kt_scan_prefix K (key_prefix p) s = map Ok out" "distinct (map fst out)"
    "\<And>b v. (b, v) \<in> set out \<longleftrightarrow> (\<exists>k. b = key_encode k \<and> in_prefix p k \<and> view s (key_encode k) = Some v)"
proof -
  obtain out where out: "kt_scan_prefix K (key_prefix p) s = map Ok out" "distinct (map fst out)"
    "\<And>k. map_of out k = (if \<exists>q. k = key_prefix p @ q then view s k else None)"
    using scan_view [of s "key_prefix p"] assms by (auto simp: holds_def)
  have "(b, v) \<in> set out \<longleftrightarrow> (\<exists>k. b = key_encode k \<and> in_prefix p k \<and> view s (key_encode k) = Some v)" for b v
  proof -
    have "(b, v) \<in> set out \<longleftrightarrow> (\<exists>q. b = key_prefix p @ q) \<and> view s b = Some v"
      using map_of_eq_Some_iff [OF out(2), of b v] out(3) [of b] by (auto split: if_splits)
    moreover have "\<exists>k. b = key_encode k" if "view s b = Some v"
      using that assms by (auto simp: holds_def db_stored_def)
    ultimately show ?thesis by (metis prefix_key)
  qed
  with out(1,2) show thesis by (rule that)
qed

lemma list_tables_holds:
  assumes "holds C s D"
  obtains ts where "list_tables K C s = Ok ts" "set ts = ran (db_tables D)"
proof -
  obtain out where out: "kt_scan_prefix K (key_prefix PTable) s = map Ok out"
    "\<And>b v. (b, v) \<in> set out \<longleftrightarrow> (\<exists>k. b = key_encode k \<and> in_prefix PTable k \<and> view s (key_encode k) = Some v)"
    by (rule scan_holds [OF assms, of PTable]) (rule that)
  have view: "view s (key_encode (KTable t)) = map_option (enc_table C) (db_tables D t)" for t
    using assms by (simp add: holds_def db_stored_def)
  have "in_prefix PTable k \<longleftrightarrow> (\<exists>t. k = KTable t)" for k by (cases k) simp_all
  then have entry: "(b, v) \<in> set out \<longleftrightarrow> (\<exists>t T. b = key_encode (KTable t) \<and> v = enc_table C T \<and> db_tables D t = Some T)" for b v
    using view by (auto simp: out(2))
  have dec: "dec_table C (enc_table C T) = Ok T" for T
    using assms by (simp add: holds_def sql_codec_ok_def)
  have "list_tables K C s = Ok (map (\<lambda>(_, v). unwrap (dec_table C v)) out)"
    unfolding list_tables_def out(1) map_list_result_map
    by (rule map_list_result_Ok) (auto simp: entry dec)
  moreover have "T \<in> set (map (\<lambda>(_, v). unwrap (dec_table C v)) out) \<longleftrightarrow> T \<in> ran (db_tables D)" for T
  proof -
    have "T \<in> set (map (\<lambda>(_, v). unwrap (dec_table C v)) out) \<longleftrightarrow> (\<exists>b v. (b, v) \<in> set out \<and> T = unwrap (dec_table C v))"
      by force
    then show ?thesis unfolding entry ran_def mem_Collect_eq by (metis dec unwrap.simps)
  qed
  ultimately show thesis using that by blast
qed

lemma local_scan_holds:
  assumes "holds C s D"
  obtains rows where "local_scan K C F t None s = Ok (map Ok rows)"
    "set rows = {row. \<exists>i. db_rows D (t, normalize_value i) = Some row}"
proof -
  obtain out where out: "kt_scan_prefix K (key_prefix (PRow t)) s = map Ok out"
    "\<And>b v. (b, v) \<in> set out \<longleftrightarrow> (\<exists>k. b = key_encode k \<and> in_prefix (PRow t) k \<and> view s (key_encode k) = Some v)"
    by (rule scan_holds [OF assms, of "PRow t"]) (rule that)
  have view: "view s (key_encode (KRow t i)) = map_option (enc_values C) (db_rows D (t, normalize_value i))" for i
    using assms by (simp add: holds_def db_stored_def)
  have "in_prefix (PRow t) k \<longleftrightarrow> (\<exists>i. k = KRow t i)" for k by (cases k) auto
  then have entry: "(b, v) \<in> set out \<longleftrightarrow> (\<exists>i row. b = key_encode (KRow t i) \<and> v = enc_values C row \<and>
      db_rows D (t, normalize_value i) = Some row)" for b v
    using view by (fastforce simp: out(2) simp del: key_encode_inject)
  have dec: "dec_values C (enc_values C vs) = Ok vs" for vs
    using assms by (simp add: holds_def sql_codec_ok_def)
  let ?rows = "map (\<lambda>(_, v). unwrap (dec_values C v)) out"
  have "dec_values C (snd x) = Ok (unwrap (dec_values C (snd x)))" if "x \<in> set out" for x
    using that entry [of "fst x" "snd x"] by (auto simp: dec)
  then have "local_scan K C F t None s = Ok (map Ok ?rows)"
    by (auto simp: local_scan_def out(1) case_prod_beta)
  moreover have "row \<in> set ?rows \<longleftrightarrow> (\<exists>i. db_rows D (t, normalize_value i) = Some row)" for row
  proof -
    have "row \<in> set ?rows \<longleftrightarrow> (\<exists>b v. (b, v) \<in> set out \<and> row = unwrap (dec_values C v))" by force
    then show ?thesis unfolding entry by (metis dec unwrap.simps)
  qed
  ultimately show thesis using that by blast
qed

section \<open>Writes\<close>

lemma set_holds:
  assumes "holds C s D" "db_stored C ((view s)(k \<mapsto> v)) D'"
  shows "runs weak (kt_set K k v) s (\<lambda>r s'. \<exists>u. r = Ok u \<and> holds C s' D')"
proof -
  obtain r s' where "kt_set K k v s = (r, s')" by (cases "kt_set K k v s")
  with set_view [of s k v r s'] assms show ?thesis by (auto simp: runs_def holds_def write_effect_def)
qed

lemma delete_holds:
  assumes "holds C s D" "db_stored C ((view s)(k := None)) D'"
  shows "runs weak (kt_delete K k) s (\<lambda>r s'. \<exists>u. r = Ok u \<and> holds C s' D')"
proof -
  obtain r s' where "kt_delete K k s = (r, s')" by (cases "kt_delete K k s")
  with delete_view [of s k r s'] assms show ?thesis by (auto simp: runs_def holds_def write_effect_def)
qed

lemma set_index_holds:
  assumes "holds C s D" "vset_wf (map normalize_value ids)"
  shows "runs weak (set_index K C t c v ids) s (\<lambda>r s'. \<exists>u. r = Ok u \<and>
    holds C s' (D\<lparr>db_index := (db_index D)((t, c, normalize_value v) := set (map normalize_value ids))\<rparr>))"
proof -
  have stored: "db_stored C (view s) D" using assms(1) by (simp add: holds_def)
  show ?thesis
  proof (cases "ids = []")
    case True
    then show ?thesis
      using delete_holds [OF assms(1) stored_put_index [OF stored, of "{}" None t c v]]
      by (simp add: set_index_def index_entry_def)
  next
    case False
    then have "index_entry C (set (map normalize_value ids)) (Some (values_encode C ids))"
      using assms(2) by (auto simp: index_entry_def values_encode_def)
    from set_holds [OF assms(1) stored_put_index [OF stored this, of t c v]] False show ?thesis
      by (simp add: set_index_def)
  qed
qed

lemma index_add_holds:
  assumes "holds C s D" "\<not> is_undefined i"
    and "\<forall>x\<in>db_index D (tbl_name t, col_name c, normalize_value v). datatype_of x = datatype_of i"
    and "normalize_value i \<notin> db_index D (tbl_name t, col_name c, normalize_value v)"
  shows "runs weak (index_add K C t i c v) s (\<lambda>r s'. \<exists>u. r = Ok u \<and>
    holds C s' (D\<lparr>db_index := (db_index D)((tbl_name t, col_name c, normalize_value v) :=
      insert (normalize_value i) (db_index D (tbl_name t, col_name c, normalize_value v)))\<rparr>))"
proof -
  obtain ids where ids: "get_index K C (tbl_name t) (col_name c) v s = Ok ids"
    "set ids = db_index D (tbl_name t, col_name c, normalize_value v)" "vset_wf ids"
    by (rule get_index_holds [OF assms(1)])
  note ins = vset_wf_insert [of ids i, OF ids(3) assms(2)]
  show ?thesis
    unfolding index_add_def
    using set_index_holds [OF assms(1) ins(1), of "tbl_name t" "col_name c" v] ins(2) assms(3,4) ids
    by (intro runs_read [where x = ids]) simp_all
qed

lemma index_del_holds:
  assumes "holds C s D" "normalize_value i = i"
    and "\<forall>x\<in>db_index D (tbl_name t, col_name c, normalize_value v). datatype_of x = datatype_of i"
  shows "runs weak (index_del K C t i c v) s (\<lambda>r s'. \<exists>u. r = Ok u \<and>
    holds C s' (D\<lparr>db_index := (db_index D)((tbl_name t, col_name c, normalize_value v) :=
      db_index D (tbl_name t, col_name c, normalize_value v) - {i})\<rparr>))"
proof -
  obtain ids where ids: "get_index K C (tbl_name t) (col_name c) v s = Ok ids"
    "set ids = db_index D (tbl_name t, col_name c, normalize_value v)" "vset_wf ids"
    by (rule get_index_holds [OF assms(1)])
  have norm: "map normalize_value (vset_remove i ids) = vset_remove i ids"
    using vset_wf_remove [OF ids(3), of i] by (intro map_idI) (simp add: vset_wf_def)
  show ?thesis
    unfolding index_del_def
    using set_index_holds [OF assms(1), of "vset_remove i ids" "tbl_name t" "col_name c" v, unfolded norm]
      vset_wf_remove [OF ids(3), of i] set_vset_remove [of ids i] assms(3) ids
    by (intro runs_read [where x = ids]) simp_all
qed

end

section \<open>MVCC transactions\<close>

context kv_engine
begin

text \<open>The iterator of \<open>mvcc_kv\<close> is read to its end.\<close>

lemma mvcc_scan:
  assumes "codec_ok c" "mv_inv c KV" "mv.repr e KV"
  obtains out where "kt_scan_prefix (mvcc_kv E c t) p e = map Ok out" "bt_wf out"
    "\<And>key. map_of out key = (if \<exists>q. key = p @ q then unwrap (txn_get E c t key e) else None)"
proof -
  let ?r = "prefix_range (take (length (prefix_encode (PVersion p)) - 2) (prefix_encode (PVersion p)))"
  note range = prefix_version_range [where p = p]
  obtain out where out: "pending c (vis KV t) (scan_iter_new t ?r) out" "bt_wf out"
    "\<And>key. \<exists>q. key = p @ q \<Longrightarrow> txn_get E c t key e = Ok (map_of out key)"
    "\<And>key. \<not> (\<exists>q. key = p @ q) \<Longrightarrow> map_of out key = None"
    by (rule scan_reads [OF assms range(2,1), where t = t]) blast
  have stored: "\<exists>u. mkey_encode (Version key u) \<in> fst ` set (contents e)" if "key \<in> fst ` set out" for key
  proof -
    from that obtain x where x: "map_of out key = Some x" by (metis map_of_eq_None_iff not_None_eq)
    then have "a_get c t key KV = Ok (Some x)"
      using out(3,4) [of key] get_effect [OF assms(3), of c t key] by (cases "\<exists>q. key = p @ q") auto
    then obtain u where "u \<in> versions_of KV key"
      by (auto simp: a_get_def latest_def split: if_splits)
    then have "map_of (contents e) (mkey_encode (Version key u)) \<noteq> None"
      using mv.repr_stored [OF assms(3)] by (auto simp: versions_of_def kmap_def)
    then show ?thesis by (auto simp: map_of_eq_None_iff)
  qed
  then obtain u where u: "\<And>key. key \<in> fst ` set out \<Longrightarrow> mkey_encode (Version key (u key)) \<in> fst ` set (contents e)"
    by metis
  have "card (fst ` set out) \<le> card (fst ` set (contents e))"
    by (rule card_inj_on_le [where f = "\<lambda>key. mkey_encode (Version key (u key))"])
      (use u in \<open>auto simp: inj_on_def image_subset_iff\<close>)
  moreover have "card (fst ` set out) = length out"
    using distinct_card [OF bt_wf_distinct [OF out(2)]] by simp
  moreover have "card (fst ` set (contents e)) \<le> length (contents e)"
    using card_length [of "map fst (contents e)"] by simp
  ultimately have len: "length out \<le> length (contents e)" by linarith
  have inv: "invar e" using assms(3) by (simp add: mv.repr_def)
  let ?n = "Suc (case e_scan E (Unbounded, Unbounded) e of Ok items \<Rightarrow> length items | _ \<Rightarrow> 0)"
  have n: "?n = Suc (length (contents e))"
    using scan_Ok [OF inv, of "(Unbounded, Unbounded)"] by (simp add: in_range_def)
  have "scan_pull BUFFER_SIZE E c (replicate ?n e) (scan_iter_new t ?r) = map Ok (take ?n out)"
    using pull_pending [OF assms(1) _ out(1), of BUFFER_SIZE "replicate ?n e"] assms
    by (auto simp: BUFFER_SIZE_def scan_iter_new_def)
  moreover have "kt_scan_prefix (mvcc_kv E c t) p e = scan_pull BUFFER_SIZE E c (replicate ?n e) (scan_iter_new t ?r)"
    by (simp only: mvcc_kv_def txn_scan_prefix_def Let_def kv_txn.select_convs)
  moreover have "take ?n out = out" using len n by simp
  ultimately have "kt_scan_prefix (mvcc_kv E c t) p e = map Ok out" by (simp only:)
  with out show thesis by (intro that [of out]) auto
qed

end

text \<open>An open transaction of a run on a new BitCask database.\<close>

definition mvcc_invar :: "codec \<Rightarrow> txn_state \<Rightarrow> bitcask \<Rightarrow> bool" where
  "mvcc_invar c t e = (codec_ok c \<and> (\<exists>evs ts. mv_run bitcask_engine c (bitcask_new [], {}) evs (e, ts) \<and> t \<in> ts))"

definition mvcc_view :: "codec \<Rightarrow> txn_state \<Rightarrow> bitcask \<Rightarrow> bytes \<Rightarrow> bytes option" where
  "mvcc_view c t e key = unwrap (txn_get bitcask_engine c t key e)"

lemma mvcc_get:
  assumes "mvcc_invar c t e"
  shows "txn_get bitcask_engine c t key e = Ok (mvcc_view c t e key)"
proof -
  obtain evs ts where "codec_ok c" "mv_run bitcask_engine c (bitcask_new [], {}) evs (e, ts)" "t \<in> ts"
    using assms by (auto simp: mvcc_invar_def)
  from bc.get_stable [OF this(1) bc_repr_new this(2,3) mv_run.run_nil, of key]
  obtain v where "txn_get bitcask_engine c t key e = Ok v" by auto
  then show ?thesis by (simp add: mvcc_view_def)
qed

lemma mvcc_write:
  assumes "mvcc_invar c t e" "write_version bitcask_engine c t key x e = (r, e')"
  shows "mvcc_invar c t e' \<and> write_effect True r (mvcc_view c t e) ((mvcc_view c t e)(key := x)) (mvcc_view c t e')"
proof -
  obtain evs ts where run: "codec_ok c" "mv_run bitcask_engine c (bitcask_new [], {}) evs (e, ts)" "t \<in> ts"
    using assms(1) by (auto simp: mvcc_invar_def)
  have "mv_run bitcask_engine c (bitcask_new [], {}) (evs @ [EWrite t key x r]) (e', ts)"
    by (rule mv_run.run_snoc [OF run(2) mv_step.step_write [OF run(3) assms(2)]])
  with run have "mvcc_invar c t e'" by (auto simp: mvcc_invar_def)
  moreover have "write_effect True r (mvcc_view c t e) ((mvcc_view c t e)(key := x)) (mvcc_view c t e')"
  proof (cases "read_only t")
    case True
    with assms(2) show ?thesis by (auto simp: write_version_def write_effect_def)
  next
    case False
    note out = bc.write_outcome_inv [OF run(1) bc_repr_new run(2,3) False, of key x]
    show ?thesis
    proof (cases "r = Ok ()")
      case True
      with out assms(2) have "txn_get bitcask_engine c t key e' = Ok x"
        "\<And>key'. key' \<noteq> key \<Longrightarrow> txn_get bitcask_engine c t key' e' = txn_get bitcask_engine c t key' e"
        by (auto split: if_splits)
      with True show ?thesis by (auto simp: write_effect_def mvcc_view_def fun_eq_iff)
    next
      case nok: False
      with out assms(2) show ?thesis by (auto simp: write_effect_def split: if_splits)
    qed
  qed
  ultimately show ?thesis by blast
qed

interpretation mvcc: kv_transaction True "mvcc_kv bitcask_engine c t" "mvcc_view c t" "mvcc_invar c t" for c t
proof
  fix s k v r s' p
  assume inv: "mvcc_invar c t s"
  show "kt_get (mvcc_kv bitcask_engine c t) k s = Ok (mvcc_view c t s k)"
    using mvcc_get [OF inv] by (simp add: mvcc_kv_def)
  show "mvcc_invar c t s' \<and> write_effect True r (mvcc_view c t s) ((mvcc_view c t s)(k \<mapsto> v)) (mvcc_view c t s')"
    if "kt_set (mvcc_kv bitcask_engine c t) k v s = (r, s')"
    using mvcc_write [OF inv] that by (simp add: mvcc_kv_def txn_set_def)
  show "mvcc_invar c t s' \<and> write_effect True r (mvcc_view c t s) ((mvcc_view c t s)(k := None)) (mvcc_view c t s')"
    if "kt_delete (mvcc_kv bitcask_engine c t) k s = (r, s')"
    using mvcc_write [OF inv] that by (simp add: mvcc_kv_def txn_delete_def)
  obtain evs ts where "codec_ok c" "mv_run bitcask_engine c (bitcask_new [], {}) evs (s, ts)"
    using inv by (auto simp: mvcc_invar_def)
  then obtain KV where KV: "bc.mv.repr s KV" "mv_inv c KV"
    using bc.reach_inv [OF _ bc_repr_new] by metis
  obtain out where "kt_scan_prefix (mvcc_kv bitcask_engine c t) p s = map Ok out" "bt_wf out"
    "\<And>key. map_of out key = (if \<exists>q. key = p @ q then unwrap (txn_get bitcask_engine c t key s) else None)"
    by (rule bc.mvcc_scan [OF \<open>codec_ok c\<close> KV(2,1), of t p]) blast
  then show "\<exists>out. kt_scan_prefix (mvcc_kv bitcask_engine c t) p s = map Ok out \<and> distinct (map fst out) \<and>
      (\<forall>k. map_of out k = (if \<exists>q. k = p @ q then mvcc_view c t s k else None))"
    by (intro exI [of _ out]) (simp add: bt_wf_distinct mvcc_view_def)
qed

end
