(* ===== verification/SqlIntegrity.thy ===== *)
theory SqlIntegrity
  imports SqlStore
begin

text \<open>
  Integrity of the SQL database: what every write of the storage engine keeps. Tables are well
  formed and refer to existing tables, stored rows have the types of their table and are found
  under their primary key, every index holds exactly the primary keys of the rows with a value,
  unique columns hold no value twice, and every reference leads to a row.
\<close>

section \<open>Consistent databases\<close>

text \<open>A NaN other than the standard one can only come from outside, and is excluded.\<close>

definition plain_value :: "sql_value \<Rightarrow> bool" where
  "plain_value v = (case v of Float f \<Rightarrow> f64_is_nan f \<longrightarrow> normalize_f64 f = f64_nan | _ \<Rightarrow> True)"

definition canonical :: "sql_value \<Rightarrow> bool" where
  "canonical v = (normalize_value v = v \<and> plain_value v)"

definition primary_column :: "sql_table \<Rightarrow> sql_column" where
  "primary_column T = tbl_columns T ! tbl_primary_key T"

definition tables_ok :: "sql_db \<Rightarrow> bool" where
  "tables_ok D = (\<forall>t T. db_tables D t = Some T \<longrightarrow>
     tbl_name T = t \<and> table_wf T \<and> distinct (map (\<lambda>x. col_name (snd x)) (index_columns T)) \<and>
     (\<forall>c\<in>set (tbl_columns T). \<forall>t'. col_references c = Some t' \<longrightarrow>
        (\<exists>T'. db_tables D t' = Some T' \<and> col_datatype (primary_column T') = col_datatype c)))"

definition rows_ok :: "sql_db \<Rightarrow> bool" where
  "rows_ok D = (\<forall>t i row. db_rows D (t, i) = Some row \<longrightarrow>
     (\<exists>T. db_tables D t = Some T \<and> row_typed T row \<and> list_all canonical row \<and> row ! tbl_primary_key T = i))"

definition index_ok :: "sql_db \<Rightarrow> bool" where
  "index_ok D = (\<forall>t c v i. i \<in> db_index D (t, c, v) \<longleftrightarrow>
     (\<exists>T x row. db_tables D t = Some T \<and> x \<in> set (index_columns T) \<and> col_name (snd x) = c \<and>
        db_rows D (t, i) = Some row \<and> row ! fst x = v))"

definition unique_ok :: "sql_db \<Rightarrow> bool" where
  "unique_ok D = (\<forall>t T i j row row' n. db_tables D t = Some T \<longrightarrow> n < length (tbl_columns T) \<longrightarrow>
     col_unique (tbl_columns T ! n) \<longrightarrow> db_rows D (t, i) = Some row \<longrightarrow> db_rows D (t, j) = Some row' \<longrightarrow>
     row ! n = row' ! n \<longrightarrow> \<not> is_undefined (row ! n) \<longrightarrow> i = j)"

definition refs_ok :: "sql_db \<Rightarrow> bool" where
  "refs_ok D = (\<forall>t T i row n t'. db_tables D t = Some T \<longrightarrow> db_rows D (t, i) = Some row \<longrightarrow>
     n < length (tbl_columns T) \<longrightarrow> col_references (tbl_columns T ! n) = Some t' \<longrightarrow> row ! n \<noteq> Null \<longrightarrow>
     db_rows D (t', row ! n) \<noteq> None)"

definition struct_ok :: "sql_db \<Rightarrow> bool" where
  "struct_ok D = (tables_ok D \<and> rows_ok D \<and> index_ok D \<and> unique_ok D)"

definition db_ok :: "sql_db \<Rightarrow> bool" where
  "db_ok D = (struct_ok D \<and> refs_ok D)"

lemma db_ok_empty: "db_ok empty_db"
  by (simp add: db_ok_def struct_ok_def tables_ok_def rows_ok_def index_ok_def unique_ok_def refs_ok_def empty_db_def)

section \<open>Replacing the rows of a table\<close>

text \<open>The primary keys of the rows with a value in a column.\<close>

definition col_set :: "(string \<times> sql_value \<Rightarrow> sql_row option) \<Rightarrow> string \<Rightarrow> nat \<Rightarrow> sql_value \<Rightarrow> sql_value set" where
  "col_set R t n v = {i. \<exists>row. R (t, i) = Some row \<and> row ! n = v}"

definition reindex ::
  "sql_table \<Rightarrow> (string \<times> sql_value \<Rightarrow> sql_row option) \<Rightarrow> (string \<times> string \<times> sql_value \<Rightarrow> sql_value set) \<Rightarrow>
    string \<times> string \<times> sql_value \<Rightarrow> sql_value set" where
  "reindex T R X = (\<lambda>(t, c, v). if t = tbl_name T
     then {i. \<exists>x\<in>set (index_columns T). col_name (snd x) = c \<and> i \<in> col_set R t (fst x) v} else X (t, c, v))"

definition set_rows :: "sql_table \<Rightarrow> (string \<times> sql_value \<Rightarrow> sql_row option) \<Rightarrow> sql_db \<Rightarrow> sql_db" where
  "set_rows T R D = D\<lparr>db_rows := R, db_index := reindex T R (db_index D)\<rparr>"

lemma set_rows_simps [simp]:
  "db_tables (set_rows T R D) = db_tables D" "db_rows (set_rows T R D) = R"
  "db_index (set_rows T R D) = reindex T R (db_index D)"
  by (simp_all add: set_rows_def)

lemma set_rows_twice [simp]: "set_rows T R (set_rows T R' D) = set_rows T R D"
  by (auto simp: set_rows_def reindex_def fun_eq_iff)

lemma index_columns_iff: "(n, c) \<in> set (index_columns T) \<longleftrightarrow> n < length (tbl_columns T) \<and> c = tbl_columns T ! n \<and> col_index c"
  by (auto simp: index_columns_def in_set_enumerate_eq)

lemma index_ok_set_rows:
  assumes "index_ok D" "db_tables D (tbl_name T) = Some T" "\<And>t i. t \<noteq> tbl_name T \<Longrightarrow> R (t, i) = db_rows D (t, i)"
  shows "index_ok (set_rows T R D)"
proof (unfold index_ok_def, intro allI)
  fix t c v i
  show "i \<in> db_index (set_rows T R D) (t, c, v) \<longleftrightarrow> (\<exists>T' x row. db_tables (set_rows T R D) t = Some T' \<and>
      x \<in> set (index_columns T') \<and> col_name (snd x) = c \<and> db_rows (set_rows T R D) (t, i) = Some row \<and> row ! fst x = v)"
  proof (cases "t = tbl_name T")
    case True
    then show ?thesis using assms(2) unfolding reindex_def col_set_def set_rows_simps by (simp only: prod.case mem_Collect_eq if_True simp_thms option.inject) blast
  next
    case False
    then show ?thesis using assms(1,3) unfolding index_ok_def reindex_def set_rows_simps by simp
  qed
qed

lemma rows_ok_set_rows:
  assumes "rows_ok D" "\<And>t i row. R (t, i) = Some row \<Longrightarrow> db_rows D (t, i) = Some row \<or>
    (\<exists>T. db_tables D t = Some T \<and> row_typed T row \<and> list_all canonical row \<and> row ! tbl_primary_key T = i)"
  shows "rows_ok (set_rows T R D)"
  using assms unfolding rows_ok_def by (metis set_rows_simps(1,2))

lemma tables_ok_set_rows [simp]: "tables_ok (set_rows T R D) = tables_ok D"
  by (simp add: tables_ok_def)

text \<open>Deleting a row.\<close>

lemma struct_delete:
  assumes "struct_ok D" "db_tables D (tbl_name T) = Some T"
  shows "struct_ok (set_rows T ((db_rows D)((tbl_name T, i) := None)) D)"
  using assms unfolding struct_ok_def
  by (intro conjI index_ok_set_rows rows_ok_set_rows)
    (auto simp: unique_ok_def split: if_splits)

text \<open>Storing a row under its primary key.\<close>

definition row_fits :: "sql_table \<Rightarrow> sql_row \<Rightarrow> sql_db \<Rightarrow> bool" where
  "row_fits T row D = (row_typed T row \<and> list_all canonical row \<and>
     (\<forall>n t'. n < length (tbl_columns T) \<longrightarrow> col_references (tbl_columns T ! n) = Some t' \<longrightarrow> row ! n \<noteq> Null \<longrightarrow>
        t' = tbl_name T \<and> row ! n = row ! tbl_primary_key T \<or> db_rows D (t', row ! n) \<noteq> None) \<and>
     (\<forall>n j row'. n < length (tbl_columns T) \<longrightarrow> col_unique (tbl_columns T ! n) \<longrightarrow>
        db_rows D (tbl_name T, j) = Some row' \<longrightarrow> row' ! n = row ! n \<longrightarrow> \<not> is_undefined (row ! n) \<longrightarrow>
        j = row ! tbl_primary_key T))"

lemma db_ok_put:
  assumes "db_ok D" "db_tables D (tbl_name T) = Some T" "row_fits T row D"
  shows "db_ok (set_rows T ((db_rows D)((tbl_name T, row ! tbl_primary_key T) \<mapsto> row)) D)"
proof -
  let ?i = "row ! tbl_primary_key T" and ?t = "tbl_name T"
  let ?R = "(db_rows D)((?t, ?i) \<mapsto> row)"
  have D: "tables_ok D" "rows_ok D" "index_ok D" "unique_ok D" "refs_ok D"
    using assms(1) by (simp_all add: db_ok_def struct_ok_def)
  have "rows_ok (set_rows T ?R D)"
    using D(2) assms(2,3) by (intro rows_ok_set_rows) (auto simp: row_fits_def split: if_splits)
  moreover have "index_ok (set_rows T ?R D)"
    using D(3) assms(2) by (intro index_ok_set_rows) auto
  moreover have "unique_ok (set_rows T ?R D)"
    using D(4) assms(2,3) unfolding unique_ok_def row_fits_def by (auto split: if_splits) metis+
  moreover have "refs_ok (set_rows T ?R D)"
    using D(5) assms(2,3) unfolding refs_ok_def row_fits_def by (auto split: if_splits)
  ultimately show ?thesis using D(1) by (simp add: db_ok_def struct_ok_def)
qed

section \<open>Equality of plain values\<close>

lemma value_eq_normalize:
  assumes "\<not> mixed v w" "plain_value v" "plain_value w"
  shows "value_eq v w \<longleftrightarrow> normalize_value v = normalize_value w"
proof (cases "\<exists>f g. v = Float f \<and> w = Float g")
  case True
  then obtain f g where vw: "v = Float f" "w = Float g" by blast
  show ?thesis
  proof (cases "f64_is_nan f \<or> f64_is_nan g")
    case True
    then have "\<not> f64_eq f g" by (auto simp: f64_eq_def)
    with True assms show ?thesis
      using f64_is_nan_normalize [of f] f64_is_nan_normalize [of g]
      by (auto simp: vw value_eq_def plain_value_def simp del: f64_is_nan_normalize)
  next
    case False
    with normalize_f64_eq [of f g] show ?thesis by (simp add: vw value_eq_def)
  qed
qed (use assms(1) in \<open>cases v; cases w; auto simp: value_eq_def mixed_def\<close>)

lemma plain_normalize [simp]: "plain_value (normalize_value v) = plain_value v"
  by (cases v) (simp_all add: plain_value_def)

lemma canonical_normalize: "plain_value v \<Longrightarrow> canonical (normalize_value v)"
  by (simp add: canonical_def)

section \<open>Index maintenance\<close>

context kv_transaction
begin

lemma index_loop:
  assumes "distinct (map (\<lambda>x. col_name (snd x)) xs)" "holds C s E"
    and "\<And>x v. x \<in> set xs \<Longrightarrow> db_index E (t, col_name (snd x), v) = col_set R t (fst x) v"
    and body: "\<And>x s F. x \<in> set xs \<Longrightarrow> holds C s F \<Longrightarrow>
      (\<And>v. db_index F (t, col_name (snd x), v) = col_set R t (fst x) v) \<Longrightarrow>
      runs weak (body x) s (\<lambda>r s'. \<exists>u. r = Ok u \<and> holds C s' (F\<lparr>db_index := (\<lambda>(t', c, v).
        if t' = t \<and> c = col_name (snd x) then col_set R' t (fst x) v else db_index F (t', c, v))\<rparr>))"
  shows "runs weak (sfor xs body) s (\<lambda>r s'. \<exists>u. r = Ok u \<and> holds C s' (E\<lparr>db_index := (\<lambda>(t', c, v).
    if t' = t \<and> (\<exists>x\<in>set xs. col_name (snd x) = c)
    then {i. \<exists>x\<in>set xs. col_name (snd x) = c \<and> i \<in> col_set R' t (fst x) v} else db_index E (t', c, v))\<rparr>))"
  using assms(1-3) body
proof (induction xs arbitrary: s E)
  case Nil
  have "E\<lparr>db_index := (\<lambda>(t', c, v). db_index E (t', c, v))\<rparr> = E" by simp
  with Nil show ?case by simp
next
  case (Cons x xs)
  let ?F = "E\<lparr>db_index := (\<lambda>(t', c, v).
    if t' = t \<and> c = col_name (snd x) then col_set R' t (fst x) v else db_index E (t', c, v))\<rparr>"
  have first: "runs weak (body x) s (\<lambda>r s'. \<exists>u. r = Ok u \<and> holds C s' ?F)"
    using Cons.prems(2,3) by (intro Cons.prems(4)) simp_all
  have rest: "runs weak (sfor xs body) s' (\<lambda>r s'. \<exists>u. r = Ok u \<and> holds C s' (?F\<lparr>db_index := (\<lambda>(t', c, v).
    if t' = t \<and> (\<exists>x\<in>set xs. col_name (snd x) = c)
    then {i. \<exists>x\<in>set xs. col_name (snd x) = c \<and> i \<in> col_set R' t (fst x) v} else db_index ?F (t', c, v))\<rparr>))"
    if "holds C s' ?F" for s'
    using that Cons.prems(1,3,4) by (intro Cons.IH) (auto simp: image_iff)
  have names: "\<forall>y\<in>set xs. col_name (snd y) \<noteq> col_name (snd x)"
    using Cons.prems(1) by (force simp: image_iff)
  have fn: "(\<lambda>(t', c, v). if t' = t \<and> (\<exists>x\<in>set xs. col_name (snd x) = c)
    then {i. \<exists>x\<in>set xs. col_name (snd x) = c \<and> i \<in> col_set R' t (fst x) v} else db_index ?F (t', c, v)) =
    (\<lambda>(t', c, v). if t' = t \<and> (\<exists>x\<in>set (x # xs). col_name (snd x) = c)
    then {i. \<exists>x\<in>set (x # xs). col_name (snd x) = c \<and> i \<in> col_set R' t (fst x) v} else db_index E (t', c, v))"
    (is "?f = ?g")
  proof (rule ext)
    fix y :: "string \<times> string \<times> sql_value"
    obtain t' c v where y: "y = (t', c, v)" by (cases y)
    show "?f y = ?g y"
    proof (cases "c = col_name (snd x)")
      case True
      with names show ?thesis by (simp add: y)
    qed (auto simp: y)
  qed
  have eq: "?F\<lparr>db_index := ?f\<rparr> = E\<lparr>db_index := ?g\<rparr>" by (simp add: fn del: list.set)
  show ?case
    unfolding sfor.simps by (rule runs_then [OF first]) (rule rest [unfolded eq])
qed

text \<open>A loop over all index columns of a table that accounts for a change of its rows.\<close>

lemma reindex_loop:
  assumes "struct_ok D" "db_tables D (tbl_name T) = Some T" "holds C s E" "db_index E = db_index D"
    and body: "\<And>x s F. x \<in> set (index_columns T) \<Longrightarrow> holds C s F \<Longrightarrow>
      (\<And>v. db_index F (tbl_name T, col_name (snd x), v) = col_set (db_rows D) (tbl_name T) (fst x) v) \<Longrightarrow>
      runs weak (body x) s (\<lambda>r s'. \<exists>u. r = Ok u \<and> holds C s' (F\<lparr>db_index := (\<lambda>(t', c, v).
        if t' = tbl_name T \<and> c = col_name (snd x) then col_set R' (tbl_name T) (fst x) v else db_index F (t', c, v))\<rparr>))"
  shows "runs weak (sfor (index_columns T) body) s (\<lambda>r s'. \<exists>u. r = Ok u \<and> holds C s' (E\<lparr>db_index := reindex T R' (db_index D)\<rparr>))"
proof -
  let ?t = "tbl_name T" and ?xs = "index_columns T"
  have ok: "tables_ok D" "index_ok D" using assms(1) by (simp_all add: struct_ok_def)
  have d: "distinct (map (\<lambda>x. col_name (snd x)) ?xs)"
    using ok(1) assms(2) unfolding tables_ok_def by blast
  have X: "i \<in> db_index D (?t, c, v) \<longleftrightarrow> (\<exists>x row. x \<in> set ?xs \<and> col_name (snd x) = c \<and>
      db_rows D (?t, i) = Some row \<and> row ! fst x = v)" for c v i
    using ok(2) assms(2) unfolding index_ok_def by (simp del: split_paired_Ex)
  have "db_index D (?t, col_name (snd x), v) = col_set (db_rows D) ?t (fst x) v" if "x \<in> set ?xs" for x v
  proof -
    have "y = x" if "y \<in> set ?xs" "col_name (snd y) = col_name (snd x)" for y
      using that d \<open>x \<in> set ?xs\<close> by (auto simp: distinct_map inj_on_def)
    with that X show ?thesis unfolding col_set_def by blast
  qed
  with assms(4) have E: "db_index E (?t, col_name (snd x), v) = col_set (db_rows D) ?t (fst x) v" if "x \<in> set ?xs" for x v
    using that by simp
  have none: "db_index D (?t, c, v) = {}" if "\<not> (\<exists>x\<in>set ?xs. col_name (snd x) = c)" for c v
    using that X by blast
  have eq: "(\<lambda>(t', c, v). if t' = ?t \<and> (\<exists>x\<in>set ?xs. col_name (snd x) = c)
      then {i. \<exists>x\<in>set ?xs. col_name (snd x) = c \<and> i \<in> col_set R' ?t (fst x) v} else db_index E (t', c, v))
    = reindex T R' (db_index D)"
  proof (rule ext, clarify)
    fix t c v
    show "(if t = ?t \<and> (\<exists>x\<in>set ?xs. col_name (snd x) = c)
        then {i. \<exists>x\<in>set ?xs. col_name (snd x) = c \<and> i \<in> col_set R' ?t (fst x) v} else db_index E (t, c, v))
      = reindex T R' (db_index D) (t, c, v)"
    proof (cases "t = ?t \<and> \<not> (\<exists>x\<in>set ?xs. col_name (snd x) = c)")
      case True
      with none [of c v] show ?thesis by (auto simp: reindex_def assms(4))
    qed (auto simp: reindex_def assms(4))
  qed
  show ?thesis by (rule index_loop [OF d assms(3) E body, unfolded eq])
qed

end

section \<open>Validation against the stored data\<close>

text \<open>An operation that neither panics nor fails: it succeeds, or rejects its input.\<close>

definition answered :: "'a result \<Rightarrow> bool" where
  "answered r = (is_ok r \<or> (\<exists>m. r = Err (InvalidInput m)))"

lemma answered_simps [simp]: "answered (Ok x)" "answered (Err (InvalidInput m))" "answered (ensure b m)"
  by (simp_all add: answered_def ensure_def)

lemma answered_rbind: "answered m \<Longrightarrow> (\<And>x. m = Ok x \<Longrightarrow> answered (f x)) \<Longrightarrow> answered (rbind m f)"
  by (cases m) (auto simp: answered_def)

lemma answered_for_columns: "(\<And>k c. c \<in> set cs \<Longrightarrow> answered (f k c)) \<Longrightarrow> answered (for_columns f n cs)"
  by (induction cs arbitrary: n) (auto intro!: answered_rbind)

lemma answered_map: "(\<And>x. x \<in> set xs \<Longrightarrow> answered (f x)) \<Longrightarrow> answered (map_list_result f xs)"
  by (induction xs) (auto intro!: answered_rbind)

lemma answered_validate_row:
  assumes "\<And>t ids. answered (get t ids)" "\<And>t c vs. answered (lookup t c vs)" "tbl_primary_key T < length (tbl_columns T)"
  shows "answered (validate_row get lookup T row update)"
proof -
  have "answered (validate_value get lookup T update i n (c, v))" for i n c v
    unfolding validate_value_def validate_reference_value_def validate_unique_def
    using assms(1,2) by (auto simp: Let_def intro!: answered_rbind split: option.split)
  then show ?thesis
    unfolding validate_row_def using assms
    by (auto simp: nth_checked_def intro!: answered_rbind answered_for_columns)
qed

lemma column_typed_normalize [simp]: "column_typed c (normalize_value v) = column_typed c v"
  by (simp add: column_typed_def)

lemma row_typed_normalize [simp]: "row_typed T (map normalize_value row) = row_typed T row"
  by (auto simp: row_typed_def list_all2_conv_all_nth)

lemma row_typed_nth: "row_typed T row \<Longrightarrow> n < length (tbl_columns T) \<Longrightarrow> column_typed (tbl_columns T ! n) (row ! n)"
  by (simp add: row_typed_def list_all2_conv_all_nth)

lemma row_typed_length: "row_typed T row \<Longrightarrow> length row = length (tbl_columns T)"
  by (auto simp: row_typed_def dest: list_all2_lengthD)

lemma row_typed_key: "row_typed T row \<Longrightarrow> datatype_of (row ! tbl_primary_key T) = Some (col_datatype (primary_column T))"
  using row_typed_nth [of T row "tbl_primary_key T"] row_typed_length [of T row]
  by (auto simp: row_typed_def column_typed_def primary_column_def split: if_splits)

lemma stored_row:
  assumes "struct_ok D" "db_rows D (t, i) = Some row" "db_tables D t = Some T"
  shows "row_typed T row" "list_all canonical row" "row ! tbl_primary_key T = i" "canonical i"
    "datatype_of i = Some (col_datatype (primary_column T))" "\<not> is_undefined i"
proof -
  show row: "row_typed T row" "list_all canonical row" "row ! tbl_primary_key T = i"
    using assms unfolding struct_ok_def rows_ok_def by fastforce+
  show "datatype_of i = Some (col_datatype (primary_column T))" "\<not> is_undefined i" "canonical i"
    using row row_typed_key [OF row(1)] by (auto simp: row_typed_def list_all_length)
qed

lemma stored_row_table: "struct_ok D \<Longrightarrow> db_rows D (t, i) \<noteq> None \<Longrightarrow> \<exists>T. db_tables D t = Some T"
  unfolding struct_ok_def rows_ok_def by fastforce

lemma struct_table:
  assumes "struct_ok D" "db_tables D t = Some T"
  shows "tbl_name T = t" "table_wf T"
    and "c \<in> set (tbl_columns T) \<Longrightarrow> col_references c = Some t' \<Longrightarrow>
      \<exists>T'. db_tables D t' = Some T' \<and> col_datatype (primary_column T') = col_datatype c"
  using assms unfolding struct_ok_def tables_ok_def by blast+

text \<open>The rows an index finds.\<close>

lemma struct_index:
  assumes "struct_ok D" "db_tables D t = Some T" "x \<in> set (index_columns T)"
  shows "db_index D (t, col_name (snd x), v) = col_set (db_rows D) t (fst x) v"
proof -
  have d: "distinct (map (\<lambda>x. col_name (snd x)) (index_columns T))"
    using assms(1,2) unfolding struct_ok_def tables_ok_def by blast
  have "y = x" if "y \<in> set (index_columns T)" "col_name (snd y) = col_name (snd x)" for y
    using that d assms(3) by (auto simp: distinct_map inj_on_def)
  then have x: "y \<in> set (index_columns T) \<and> col_name (snd y) = col_name (snd x) \<longleftrightarrow> y = x" for y
    using assms(3) by blast
  have "i \<in> db_index D (t, col_name (snd x), v) \<longleftrightarrow> (\<exists>y row. (y \<in> set (index_columns T) \<and> col_name (snd y) = col_name (snd x)) \<and>
      db_rows D (t, i) = Some row \<and> row ! fst y = v)" for i
    using assms(1,2) unfolding struct_ok_def index_ok_def by (simp del: split_paired_Ex)
  then show ?thesis unfolding x col_set_def by (simp add: set_eq_iff del: split_paired_Ex)
qed

context kv_transaction
begin

lemma lookup_holds:
  assumes "holds C s D" "struct_ok D"
  obtains ids where "local_lookup_index K C t c vs s = Ok ids"
    "set ids = (\<Union>v\<in>set vs. db_index D (t, c, normalize_value v))"
proof -
  have "\<exists>ids. get_index K C t c v s = Ok ids \<and> set ids = db_index D (t, c, normalize_value v)" for v
    using get_index_holds [OF assms(1), of t c v] by metis
  then obtain ids where ids: "\<And>v. get_index K C t c v s = Ok (ids v)" "\<And>v. set (ids v) = db_index D (t, c, normalize_value v)"
    by metis
  have "\<exists>ty. \<forall>i\<in>set (concat (map ids vs)). datatype_of i = ty"
  proof (cases "db_tables D t")
    case (Some T)
    then have "\<forall>i\<in>set (concat (map ids vs)). datatype_of i = Some (col_datatype (primary_column T))"
      using assms(2) stored_row(5) [OF assms(2) _ Some] unfolding struct_ok_def index_ok_def by (auto simp: ids(2))
    then show ?thesis by blast
  next
    case None
    with assms(2) show ?thesis unfolding struct_ok_def index_ok_def by (auto simp: ids(2))
  qed
  then obtain ty where "\<forall>i\<in>set (concat (map ids vs)). datatype_of i = ty" by blast
  from set_vset_collect [OF this]
  have "set (vset_collect (concat (map ids vs))) = (\<Union>v\<in>set vs. db_index D (t, c, normalize_value v))"
    by (simp add: ids(2))
  then show thesis
    by (intro that [of "vset_collect (concat (map ids vs))"])
      (simp_all add: local_lookup_index_def map_list_result_Ok [where g = ids] ids(1))
qed

lemma validate_answered: "holds C s D \<Longrightarrow> struct_ok D \<Longrightarrow> db_tables D t = Some T \<Longrightarrow> answered (local_validate K C T row update s)"
proof -
  assume *: "holds C s D" "struct_ok D" "db_tables D t = Some T"
  have "answered (local_lookup_index K C t c vs s)" for t c vs
    using lookup_holds [OF *(1,2), of t c vs] by (metis answered_simps(1))
  moreover have "tbl_primary_key T < length (tbl_columns T)"
    using struct_table(2) [OF *(2,3)] by (simp add: table_wf_def)
  ultimately show ?thesis
    unfolding local_validate_def using *(1) by (intro answered_validate_row) (simp_all add: local_get_holds)
qed

lemma validate_fits:
  assumes "holds C s D" "struct_ok D" "db_tables D (tbl_name T) = Some T" "list_all plain_value row"
    and ok: "local_validate K C T row update s = Ok u"
  shows "row_fits T (map normalize_value row) D" "row_typed T row"
    and "\<not> update \<Longrightarrow> db_rows D (tbl_name T, normalize_value (row ! tbl_primary_key T)) = None"
proof -
  let ?row = "map normalize_value row" and ?pk = "tbl_primary_key T" and ?t = "tbl_name T"
  note v = validate_row_values [OF ok [unfolded local_validate_def]]
  show typed: "row_typed T row" using ok [unfolded local_validate_def] by (rule validate_row_typed)
  have nth: "?row ! n = normalize_value (row ! n)" if "n < length (tbl_columns T)" for n
    using that v(1) by simp
  have pk: "?pk < length (tbl_columns T)" using v(1,2) by simp
  have refs: "t' = ?t \<and> ?row ! n = ?row ! ?pk \<or> db_rows D (t', ?row ! n) \<noteq> None"
    if n: "n < length (tbl_columns T)" "col_references (tbl_columns T ! n) = Some t'" "?row ! n \<noteq> Null" for n t'
  proof -
    have "t' = ?t \<and> value_eq (row ! n) (row ! ?pk) \<or> local_get K C t' [row ! n] s \<noteq> Ok []"
      using v(4) [of n] n v(1) nth [OF n(1)]
      by (auto simp: validate_value_def validate_reference_value_def rbind_eq_Ok split: if_splits)
    then show ?thesis
    proof
      assume eq: "t' = ?t \<and> value_eq (row ! n) (row ! ?pk)"
      have "col_datatype (tbl_columns T ! n) = col_datatype (primary_column T)"
        using struct_table(3) [OF assms(2,3), of "tbl_columns T ! n" t'] n(1,2) eq assms(3) by auto
      moreover have "datatype_of (row ! n) = Some (col_datatype (tbl_columns T ! n))"
        using row_typed_nth [OF typed n(1)] n(3) nth [OF n(1)] by (simp add: column_typed_def split: if_splits)
      ultimately have "\<not> mixed (row ! n) (row ! ?pk)"
        using row_typed_key [OF typed] by (intro unmixed_datatype) simp
      then have "normalize_value (row ! n) = normalize_value (row ! ?pk)"
        using eq assms(4) v(1,2) n(1) by (subst (asm) value_eq_normalize) (auto simp: list_all_length)
      with eq show ?thesis using nth [OF n(1)] nth [OF pk] by simp
    next
      assume "local_get K C t' [row ! n] s \<noteq> Ok []"
      then show ?thesis
        using nth [OF n(1)] by (auto simp: local_get_holds [OF assms(1)] map_filter_simps split: option.splits)
    qed
  qed
  have uniq: "j = ?row ! ?pk"
    if n: "n < length (tbl_columns T)" "col_unique (tbl_columns T ! n)" "db_rows D (?t, j) = Some row'"
      "row' ! n = ?row ! n" "\<not> is_undefined (?row ! n)" for n j row'
  proof (cases "n = ?pk")
    case True
    with n(4) stored_row(3) [OF assms(2) n(3) assms(3)] show ?thesis by simp
  next
    case False
    have "col_index (tbl_columns T ! n)"
      using struct_table(2) [OF assms(2,3)] n(1,2) False unfolding table_wf_def Let_def by blast
    then have x: "(n, tbl_columns T ! n) \<in> set (index_columns T)" using n(1) by (simp add: index_columns_iff)
    obtain ids where ids: "local_lookup_index K C ?t (col_name (tbl_columns T ! n)) [row ! n] s = Ok ids"
      "set ids = db_index D (?t, col_name (tbl_columns T ! n), normalize_value (row ! n))"
      using lookup_holds [OF assms(1,2), of ?t "col_name (tbl_columns T ! n)" "[row ! n]"] by auto
    have "j \<in> set ids"
      using struct_index [OF assms(2,3) x] n(3,4) nth [OF n(1)] ids(2) by (simp add: col_set_def)
    moreover have "\<forall>x\<in>set ids. update \<and> value_cmp x (row ! ?pk) = OEqual"
      using v(4) [of n] n v(1) nth [OF n(1)] False ids(1)
      by (auto simp: validate_value_def validate_unique_def rbind_eq_Ok Let_def filter_empty_conv split: if_splits)
    ultimately have "value_cmp j (row ! ?pk) = OEqual" by blast
    moreover have "datatype_of j = datatype_of (row ! ?pk)"
      using stored_row(5) [OF assms(2) n(3) assms(3)] row_typed_key [OF typed] by simp
    ultimately have "j = row ! ?pk" by (simp add: value_cmp_type_eq)
    with stored_row(4) [OF assms(2) n(3) assms(3)] nth [OF pk] show ?thesis by (simp add: canonical_def)
  qed
  show "row_fits T ?row D"
    unfolding row_fits_def using typed assms(4) refs uniq
    by (auto simp: list_all_length canonical_normalize)
  show "db_rows D (?t, normalize_value (row ! ?pk)) = None" if "\<not> update"
    using ok that v(2)
    by (auto simp: local_validate_def validate_row_def rbind_eq_Ok local_get_holds [OF assms(1)] map_filter_simps
        split: option.splits)
qed

end

end
