(* ===== verification/SqlWrites.thy ===== *)
theory SqlWrites
  imports SqlIntegrity
begin

text \<open>
  Inserting, deleting and updating rows: each call either changes the abstract database as it
  should or rejects its input, and leaves a consistent database in both cases.
\<close>

section \<open>Changes of rows\<close>

definition put_row :: "sql_table \<Rightarrow> sql_row \<Rightarrow> sql_db \<Rightarrow> sql_db" where
  "put_row T row D = set_rows T ((db_rows D)((tbl_name T, row ! tbl_primary_key T) \<mapsto> row)) D"

definition drop_row :: "sql_table \<Rightarrow> sql_value \<Rightarrow> sql_db \<Rightarrow> sql_db" where
  "drop_row T i D = set_rows T ((db_rows D)((tbl_name T, i) := None)) D"

definition is_key :: "sql_table \<Rightarrow> sql_value \<Rightarrow> bool" where
  "is_key T i = (canonical i \<and> datatype_of i = Some (col_datatype (primary_column T)))"

text \<open>The effect of each call: whether it is accepted, and the database it leaves.\<close>

definition insertable :: "sql_table \<Rightarrow> sql_row \<Rightarrow> sql_db \<Rightarrow> bool" where
  "insertable T row D = (row_fits T (map normalize_value row) D \<and>
     db_rows D (tbl_name T, map normalize_value row ! tbl_primary_key T) = None)"

definition insert_row :: "sql_table \<Rightarrow> sql_row \<Rightarrow> sql_db \<Rightarrow> bool \<times> sql_db" where
  "insert_row T row D = (if insertable T row D then (True, put_row T (map normalize_value row) D) else (False, D))"

definition deletable :: "sql_table \<Rightarrow> sql_value list \<Rightarrow> sql_db \<Rightarrow> bool" where
  "deletable T ids D = (\<forall>t2 T2 i row n. db_tables D t2 = Some T2 \<longrightarrow> db_rows D (t2, i) = Some row \<longrightarrow>
     n < length (tbl_columns T2) \<longrightarrow> col_references (tbl_columns T2 ! n) = Some (tbl_name T) \<longrightarrow>
     row ! n \<in> set ids \<longrightarrow> t2 = tbl_name T \<and> i \<in> set ids)"

definition delete_rows :: "sql_table \<Rightarrow> sql_value list \<Rightarrow> sql_db \<Rightarrow> bool \<times> sql_db" where
  "delete_rows T ids D = (if deletable T ids D then (True, fold (drop_row T) ids D) else (False, D))"

fun update_row :: "sql_table \<Rightarrow> sql_value \<times> sql_row \<Rightarrow> sql_db \<Rightarrow> bool \<times> sql_db" where
  "update_row T (i, row) D =
     (if value_eq i (row ! tbl_primary_key T)
      then if row_fits T (map normalize_value row) D then (True, put_row T (map normalize_value row) D) else (False, D)
      else if deletable T [i] D then insert_row T row (drop_row T i D) else (False, D))"

text \<open>Several rows, up to the first that is rejected.\<close>

fun apply_rows :: "('a \<Rightarrow> 'd \<Rightarrow> bool \<times> 'd) \<Rightarrow> 'a list \<Rightarrow> 'd \<Rightarrow> bool \<times> 'd" where
  "apply_rows f [] D = (True, D)"
| "apply_rows f (x # xs) D = (if fst (f x D) then apply_rows f xs (snd (f x D)) else f x D)"

definition rejected :: "'a result \<Rightarrow> bool" where
  "rejected r = (\<exists>m. r = Err (InvalidInput m))"

lemma rejected_simps [simp]: "rejected (Err (InvalidInput m))" "\<not> rejected (Ok x)" "\<not> rejected (Panic p)"
  by (simp_all add: rejected_def)

lemma put_row_tables [simp]: "db_tables (put_row T row D) = db_tables D"
  by (simp add: put_row_def)

lemma drop_row_tables [simp]: "db_tables (drop_row T i D) = db_tables D"
  by (simp add: drop_row_def)

lemma put_row_rows: "db_rows (put_row T row D) = (db_rows D)((tbl_name T, row ! tbl_primary_key T) \<mapsto> row)"
  by (simp add: put_row_def)

lemma drop_row_rows: "db_rows (drop_row T i D) = (db_rows D)((tbl_name T, i) := None)"
  by (simp add: drop_row_def)

lemma drop_rows [simp]:
  "db_tables (fold (drop_row T) ids D) = db_tables D"
  "db_rows (fold (drop_row T) ids D) (t, i) = (if t = tbl_name T \<and> i \<in> set ids then None else db_rows D (t, i))"
  by (induction ids arbitrary: D) (auto simp: drop_row_rows)

lemma struct_drop_rows:
  "struct_ok D \<Longrightarrow> db_tables D (tbl_name T) = Some T \<Longrightarrow> struct_ok (fold (drop_row T) ids D)"
  by (induction ids arbitrary: D) (simp_all add: drop_row_def struct_delete)

lemma col_set_put:
  "R (t, i) = None \<Longrightarrow> col_set (R((t, i) \<mapsto> row)) t n v = (if row ! n = v then insert i (col_set R t n v) else col_set R t n v)"
  by (auto simp: col_set_def)

lemma col_set_drop:
  "R (t, i) = Some old \<Longrightarrow> col_set (R((t, i) := None)) t n v = (if old ! n = v then col_set R t n v - {i} else col_set R t n v)"
  by (auto simp: col_set_def)

lemma col_set_replace:
  "R (t, i) = Some old \<Longrightarrow> col_set (R((t, i) \<mapsto> row)) t n v =
     (if row ! n = v then insert i (col_set R t n v) else if old ! n = v then col_set R t n v - {i} else col_set R t n v)"
  by (auto simp: col_set_def)

lemma reindex_same:
  assumes "struct_ok D" "db_tables D (tbl_name T) = Some T"
  shows "reindex T (db_rows D) (db_index D) = db_index D"
proof (rule ext, clarify)
  fix t c v
  show "reindex T (db_rows D) (db_index D) (t, c, v) = db_index D (t, c, v)"
  proof (cases "t = tbl_name T")
    case True
    have "i \<in> db_index D (t, c, v) \<longleftrightarrow> (\<exists>x row. x \<in> set (index_columns T) \<and> col_name (snd x) = c \<and>
        db_rows D (t, i) = Some row \<and> row ! fst x = v)" for i
      using assms True unfolding struct_ok_def index_ok_def by (simp del: split_paired_Ex)
    then show ?thesis unfolding reindex_def col_set_def prod.case by (simp only: True if_True simp_thms set_eq_iff mem_Collect_eq) blast
  qed (simp add: reindex_def)
qed

definition updates_ok :: "sql_table \<Rightarrow> (sql_value \<times> sql_row) list \<Rightarrow> sql_db \<Rightarrow> bool" where
  "updates_ok T rows D = (distinct (map fst rows) \<and> (\<forall>(i, row)\<in>set rows. list_all plain_value row \<and>
     db_rows D (tbl_name T, i) \<noteq> None \<and> tbl_primary_key T < length row \<and>
     normalize_value (row ! tbl_primary_key T) = row ! tbl_primary_key T))"

lemma update_row_others:
  "fst (update_row T (i, row) D) \<Longrightarrow> j \<noteq> i \<Longrightarrow> db_rows D (tbl_name T, j) \<noteq> None \<Longrightarrow>
    db_rows (snd (update_row T (i, row) D)) (tbl_name T, j) \<noteq> None"
  by (auto simp: insert_row_def put_row_rows drop_row_rows split: if_splits)

lemma update_row_tables [simp]: "db_tables (snd (update_row T x D)) = db_tables D"
  by (cases x) (simp add: insert_row_def)

lemma apply_one [simp]: "apply_rows f [x] D = f x D"
  by (cases "f x D") simp

section \<open>Rules for operations that may reject\<close>

lemma runs_try:
  assumes "answered (f s)" "\<And>x. f s = Ok x \<Longrightarrow> runs weak (g x) s Q"
    and "\<And>m. f s = Err (InvalidInput m) \<Longrightarrow> Q (Err (InvalidInput m)) s"
  shows "runs weak (sbind (sread f) g) s Q"
  using assms by (cases "f s") (auto simp: runs_def sbind_def answered_def)

lemma map_list_result_oks: "map_list_result f xs = Ok ys \<Longrightarrow> x \<in> set xs \<Longrightarrow> \<exists>y. f x = Ok y"
  by (induction xs arbitrary: ys) (auto simp: rbind_eq_Ok)

context kv_transaction
begin

definition settles :: "sql_codec \<Rightarrow> bool \<times> sql_db \<Rightarrow> unit result \<Rightarrow> 's \<Rightarrow> bool" where
  "settles C spec r s = ((if fst spec then r = Ok () else rejected r) \<and> holds C s (snd spec) \<and> db_ok (snd spec))"

lemma settles_Ok: "settles C (True, D) r s \<longleftrightarrow> r = Ok () \<and> holds C s D \<and> db_ok D"
  and settles_Err: "settles C (False, D) r s \<longleftrightarrow> rejected r \<and> holds C s D \<and> db_ok D"
  by (simp_all add: settles_def)

lemma runs_settles_then:
  assumes "runs weak m s (settles C spec)"
    and "\<And>s'. fst spec \<Longrightarrow> holds C s' (snd spec) \<Longrightarrow> db_ok (snd spec) \<Longrightarrow> runs weak (f ()) s' Q"
    and "\<And>e s'. \<not> fst spec \<Longrightarrow> holds C s' (snd spec) \<Longrightarrow> db_ok (snd spec) \<Longrightarrow> Q (Err (InvalidInput e)) s'"
  shows "runs weak (sbind m f) s Q"
proof -
  obtain r s' where m: "m s = (r, s')" by (cases "m s")
  with assms(1) consider "weak" "failed r" | "fst spec" "r = Ok ()" "holds C s' (snd spec)" "db_ok (snd spec)"
    | e where "\<not> fst spec" "r = Err (InvalidInput e)" "holds C s' (snd spec)" "db_ok (snd spec)"
    by (auto simp: runs_def settles_def rejected_def split: if_splits)
  then show ?thesis
  proof cases
    case 1
    with m show ?thesis by (auto simp: failed_def runs_def sbind_def)
  next
    case 2
    with m assms(2) show ?thesis by (auto simp: runs_def sbind_def)
  next
    case (3 e)
    with m assms(3) [of s' e] show ?thesis by (auto simp: runs_def sbind_def)
  qed
qed

lemma settles_for:
  assumes "I xs D" "holds C s D" "db_ok D"
    and body: "\<And>x xs s D. I (x # xs) D \<Longrightarrow> holds C s D \<Longrightarrow> db_ok D \<Longrightarrow> runs weak (body x) s (settles C (f x D))"
    and step: "\<And>x xs D. I (x # xs) D \<Longrightarrow> fst (f x D) \<Longrightarrow> I xs (snd (f x D))"
  shows "runs weak (sfor xs body) s (settles C (apply_rows f xs D))"
  using assms(1-3)
proof (induction xs arbitrary: s D)
  case (Cons x xs)
  show ?case
    unfolding sfor.simps
    by (rule runs_settles_then [OF body [OF Cons.prems]])
      (use Cons.IH step [OF Cons.prems(1)] in \<open>auto simp: settles_def rejected_def\<close>)
qed (simp add: settles_Ok)

text \<open>Validation accepts exactly the rows that fit.\<close>

lemma validate_complete:
  assumes D: "holds C s D" "struct_ok D" "db_tables D (tbl_name T) = Some T" and plain: "list_all plain_value row"
    and fits: "row_fits T (map normalize_value row) D"
    and key: "if update then normalize_value (row ! tbl_primary_key T) = row ! tbl_primary_key T
      else db_rows D (tbl_name T, normalize_value (row ! tbl_primary_key T)) = None"
  shows "local_validate K C T row update s = Ok ()"
proof -
  let ?row = "map normalize_value row" and ?pk = "tbl_primary_key T" and ?t = "tbl_name T"
  have typed: "row_typed T row" using fits by (simp add: row_fits_def)
  have len: "length row = length (tbl_columns T)" by (rule row_typed_length [OF typed])
  have pk: "?pk < length row" "\<not> is_undefined (row ! ?pk)" using typed by (auto simp: row_typed_def)
  have plains: "n < length row \<Longrightarrow> plain_value (row ! n)" for n using plain by (simp add: list_all_length)
  have "validate_value (\<lambda>t ids. local_get K C t ids s) (\<lambda>t c vs. local_lookup_index K C t c vs s) T update (row ! ?pk) n
      (tbl_columns T ! n, row ! n) = Ok ()" if n: "n < length row" for n
  proof -
    let ?c = "tbl_columns T ! n" and ?v = "row ! n"
    have n': "n < length (tbl_columns T)" using n len by simp
    have col: "column_typed ?c ?v" by (rule row_typed_nth [OF typed n'])
    have nth: "?row ! n = normalize_value ?v" "?row ! ?pk = normalize_value (row ! ?pk)" using n pk by simp_all
    have ref: "value_eq ?v (row ! ?pk) \<and> t' = ?t \<or> db_rows D (t', normalize_value ?v) \<noteq> None"
      if t': "col_references ?c = Some t'" "?v \<noteq> Null" for t'
    proof -
      have "t' = ?t \<and> normalize_value ?v = normalize_value (row ! ?pk) \<or> db_rows D (t', normalize_value ?v) \<noteq> None"
        using fits n' t' nth unfolding row_fits_def by (metis normalize_value_fields(3))
      moreover have "value_eq ?v (row ! ?pk)" if "t' = ?t" "normalize_value ?v = normalize_value (row ! ?pk)"
      proof -
        have "datatype_of ?v = datatype_of (row ! ?pk)" using that(2) by (metis normalize_value_fields(1))
        with that(2) show ?thesis
          using value_eq_normalize [OF unmixed_datatype plains [OF n] plains [OF pk(1)]] by simp
      qed
      ultimately show ?thesis by blast
    qed
    have uniq: "\<exists>ids. local_lookup_index K C ?t (col_name ?c) [?v] s = Ok ids \<and>
        (if update then \<forall>j\<in>set ids. value_cmp j (row ! ?pk) = OEqual else ids = [])"
      if u: "col_unique ?c" "n \<noteq> ?pk" "\<not> is_undefined ?v"
    proof -
      have "col_index ?c" using struct_table(2) [OF D(2,3)] n' u(1,2) unfolding table_wf_def Let_def by blast
      then have x: "(n, ?c) \<in> set (index_columns T)" using n' by (simp add: index_columns_iff)
      obtain ids where ids: "local_lookup_index K C ?t (col_name ?c) [?v] s = Ok ids"
        "set ids = (\<Union>v\<in>set [?v]. db_index D (?t, col_name ?c, normalize_value v))"
        by (rule lookup_holds [OF D(1,2)])
      have j: "j = normalize_value (row ! ?pk) \<and> db_rows D (?t, j) \<noteq> None" if jd: "j \<in> set ids" for j
      proof -
        obtain row' where row': "db_rows D (?t, j) = Some row'" "row' ! n = normalize_value ?v"
          using jd struct_index [OF D(2,3) x] by (auto simp: ids(2) col_set_def)
        then show ?thesis using fits n' u nth unfolding row_fits_def by auto
      qed
      show ?thesis
      proof (cases update)
        case True
        with key j have "value_cmp j (row ! ?pk) = OEqual" if "j \<in> set ids" for j
          using that value_cmp_type_eq [of j "row ! ?pk"] by auto
        with True ids(1) show ?thesis by auto
      next
        case False
        have "x \<notin> set ids" for x using key j [of x] False by auto
        then have "ids = []" by (simp add: set_empty [symmetric] set_eq_iff del: set_empty)
        with False ids(1) show ?thesis by auto
      qed
    qed
    have null: "value_eq ?v Null \<Longrightarrow> ?v = Null" by (cases ?v) (simp_all add: value_eq_def)
    have "datatype_of ?v \<in> {None, Some (col_datatype ?c)}" "value_eq ?v Null \<longrightarrow> col_nullable ?c"
      using col null by (auto simp: column_typed_def split: if_splits)
    moreover have "validate_reference_value (\<lambda>t ids. local_get K C t ids s) T (row ! ?pk) ?c ?v = Ok ()"
      using ref by (auto simp: validate_reference_value_def local_get_holds [OF D(1)] map_filter_simps split: option.split)
    moreover have "validate_unique (\<lambda>t c vs. local_lookup_index K C t c vs s) T update (row ! ?pk) n ?c ?v = Ok ()"
      using uniq by (auto simp: validate_unique_def Let_def filter_empty_conv split: if_splits)
    ultimately show ?thesis by (simp add: validate_value_def ensure_def)
  qed
  then have "for_columns (validate_value (\<lambda>t ids. local_get K C t ids s) (\<lambda>t c vs. local_lookup_index K C t c vs s) T update (row ! ?pk))
      0 (zip (tbl_columns T) row) = Ok ()"
    using len by (simp add: for_columns_Ok)
  with len pk key show ?thesis
    by (simp add: local_validate_def validate_row_def nth_checked_def ensure_def local_get_holds [OF D(1)] map_filter_simps)
qed

lemma insert_validates:
  assumes "holds C s D" "struct_ok D" "db_tables D (tbl_name T) = Some T" "list_all plain_value row"
  shows "local_validate K C T row False s = Ok u \<longleftrightarrow> insertable T row D"
proof
  assume ok: "local_validate K C T row False s = Ok u"
  note fits = validate_fits [OF assms ok]
  have "tbl_primary_key T < length row" using fits(2) by (auto simp: row_typed_def)
  with fits show "insertable T row D" by (simp add: insertable_def)
next
  assume "insertable T row D"
  moreover from this have "tbl_primary_key T < length row" by (auto simp: insertable_def row_fits_def row_typed_def)
  ultimately show "local_validate K C T row False s = Ok u"
    using validate_complete [OF assms, of False] by (simp add: insertable_def)
qed

lemma index_step:
  assumes "runs weak m s (\<lambda>r s'. \<exists>u. r = Ok u \<and> holds C s' (F\<lparr>db_index := X\<rparr>))"
    and "\<And>v. X (t, c, v) = Y v" "\<And>t' c' v. \<not> (t' = t \<and> c' = c) \<Longrightarrow> X (t', c', v) = db_index F (t', c', v)"
  shows "runs weak m s (\<lambda>r s'. \<exists>u. r = Ok u \<and> holds C s' (F\<lparr>db_index := (\<lambda>(t', c', v).
    if t' = t \<and> c' = c then Y v else db_index F (t', c', v))\<rparr>))"
proof -
  have "X = (\<lambda>(t', c', v). if t' = t \<and> c' = c then Y v else db_index F (t', c', v))"
    using assms(2,3) by (auto simp: fun_eq_iff)
  with assms(1) show ?thesis by simp
qed

lemma insert_one_holds:
  assumes D: "holds C s D" "db_ok D" "db_tables D (tbl_name T) = Some T" and plain: "list_all plain_value row"
  shows "runs weak (insert_one K C T row) s (settles C (insert_row T row D))"
  unfolding insert_one_def
proof (rule runs_try)
  have struct: "struct_ok D" using D(2) by (simp add: db_ok_def)
  show "answered (local_validate K C T row False s)" by (rule validate_answered [OF D(1) struct D(3)])
  note valid = insert_validates [OF D(1) struct D(3) plain]
  show "settles C (insert_row T row D) (Err (InvalidInput m)) s" if "local_validate K C T row False s = Err (InvalidInput m)" for m
    using valid that D(1,2) by (simp add: insert_row_def settles_def)
  let ?row = "map normalize_value row" and ?t = "tbl_name T" and ?i = "row ! tbl_primary_key T"
  let ?R = "(db_rows D)((?t, normalize_value ?i) \<mapsto> ?row)"
  let ?E = "D\<lparr>db_rows := ?R\<rparr>"
  fix u
  assume ok: "local_validate K C T row False s = Ok u"
  note fits = validate_fits [OF D(1) struct D(3) plain ok]
  have spec: "insert_row T row D = (True, put_row T (map normalize_value row) D)" using valid ok by (simp add: insert_row_def)
  have pk: "tbl_primary_key T < length row" "\<not> is_undefined ?i" using fits(2) by (auto simp: row_typed_def)
  have len: "length row = length (tbl_columns T)" by (rule row_typed_length [OF fits(2)])
  have none: "db_rows D (?t, normalize_value ?i) = None" using fits(3) by simp
  have key: "datatype_of ?i = Some (col_datatype (primary_column T))" by (rule row_typed_key [OF fits(2)])
  have put: "put_row T ?row D = ?E\<lparr>db_index := reindex T ?R (db_index D)\<rparr>"
    using pk by (simp add: put_row_def set_rows_def)
  have ok: "db_ok (put_row T ?row D)" unfolding put_row_def by (rule db_ok_put [OF D(2,3) fits(1)])
  have stored: "runs weak (kt_set K (key_encode (KRow ?t ?i)) (values_encode C row)) s (\<lambda>r s'. \<exists>u. r = Ok u \<and> holds C s' ?E)"
    using D(1) by (intro set_holds [OF D(1)] stored_put_row) (simp add: holds_def)
  have step: "runs weak (sbind (slift (nth_checked row (fst x))) (index_add K C T ?i (snd x))) s'
      (\<lambda>r s'. \<exists>u. r = Ok u \<and> holds C s' (F\<lparr>db_index := (\<lambda>(t', c, v).
        if t' = ?t \<and> c = col_name (snd x) then col_set ?R ?t (fst x) v else db_index F (t', c, v))\<rparr>))"
    if x: "x \<in> set (index_columns T)" and F: "holds C s' F"
      "\<And>v. db_index F (?t, col_name (snd x), v) = col_set (db_rows D) ?t (fst x) v" for x s' F
  proof -
    have n: "fst x < length row" using x len index_columns_iff [of "fst x" "snd x" T] by simp
    have typed: "\<forall>j\<in>db_index F (?t, col_name (snd x), normalize_value (row ! fst x)). datatype_of j = datatype_of ?i"
      using stored_row(5) [OF struct _ D(3)] key by (auto simp: F(2) col_set_def)
    have new: "normalize_value ?i \<notin> db_index F (?t, col_name (snd x), normalize_value (row ! fst x))"
      using none by (simp add: F(2) col_set_def)
    show ?thesis
      by (rule runs_lift [where x = "row ! fst x"], use n in simp,
          rule index_step [OF index_add_holds [OF F(1) pk(2) typed new]])
        (use n in \<open>auto simp: F(2) col_set_put none\<close>)
  qed
  show "runs weak (sbind (slift (nth_checked row (tbl_primary_key T))) (\<lambda>i.
      sbind (kt_set K (key_encode (KRow ?t i)) (values_encode C row)) (\<lambda>_.
      sfor (index_columns T) (\<lambda>(n, c). sbind (slift (nth_checked row n)) (index_add K C T i c))))) s
    (settles C (insert_row T row D))"
    by (rule runs_lift [where x = ?i], use pk in simp)
      (rule runs_then [OF stored], rule runs_weaken [OF reindex_loop [where D = D and E = ?E and R' = ?R, OF struct D(3)]],
       use ok put step in \<open>auto simp: case_prod_beta spec settles_Ok\<close>)
qed

lemma local_insert_holds:
  assumes D: "holds C s D" "db_ok D" and plain: "\<forall>row\<in>set rows. list_all plain_value row"
  shows "runs weak (local_insert K C t rows) s (settles C (case db_tables D t of
      None \<Rightarrow> (False, D) | Some T \<Rightarrow> apply_rows (insert_row T) rows D))"
proof (cases "db_tables D t")
  case None
  then show ?thesis using D by (simp add: local_insert_def runs_def sbind_def must_get_table_holds settles_Err)
next
  case (Some T)
  then have T: "tbl_name T = t" using D(2) by (auto simp: db_ok_def dest: struct_table(1))
  let ?I = "\<lambda>rows E. db_tables E t = Some T \<and> (\<forall>row\<in>set rows. list_all plain_value row)"
  have body: "runs weak (insert_one K C T row) s (settles C (insert_row T row E))"
    if "?I (row # rows) E" "holds C s E" "db_ok E" for row rows s E
    using that T by (intro insert_one_holds) simp_all
  have "runs weak (sfor rows (insert_one K C T)) s (settles C (apply_rows (insert_row T) rows D))"
    by (rule settles_for [where I = ?I, OF _ D body]) (use Some plain in \<open>auto simp: insert_row_def split: if_splits\<close>)
  then show ?thesis
    unfolding local_insert_def
    by (intro runs_read [where x = T]) (simp_all add: Some must_get_table_holds [OF D(1)])
qed

text \<open>Deleting.\<close>

lemma delete_row_holds:
  assumes D: "holds C s D" "struct_ok D" "db_tables D (tbl_name T) = Some T" and key: "is_key T i"
  shows "runs weak (delete_row K C T i) s (\<lambda>r s'. \<exists>u. r = Ok u \<and> holds C s' (drop_row T i D))"
proof -
  let ?t = "tbl_name T"
  let ?R = "(db_rows D)((?t, i) := None)"
  let ?E = "D\<lparr>db_index := reindex T ?R (db_index D)\<rparr>"
  let ?del = "\<lambda>row. sfor (index_columns T) (\<lambda>(n, c). sbind (slift (nth_checked row n)) (index_del K C T i c))"
  have i: "normalize_value i = i" using key by (simp add: is_key_def canonical_def)
  have del: "runs weak (?del old) s (\<lambda>r s'. \<exists>u. r = Ok u \<and> holds C s' ?E)"
    if old: "index_columns T = [] \<or> db_rows D (?t, i) = Some old" for old
  proof (rule reindex_loop [OF D(2,3,1) refl])
    fix x s F
    assume x: "x \<in> set (index_columns T)" and F: "holds C s F"
      "\<And>v. db_index F (?t, col_name (snd x), v) = col_set (db_rows D) ?t (fst x) v"
    have old: "db_rows D (?t, i) = Some old" using old x by auto
    note row = stored_row [OF D(2) old D(3)]
    have n: "fst x < length old" using x row_typed_length [OF row(1)] index_columns_iff [of "fst x" "snd x" T] by simp
    have "old ! fst x \<in> set old" using n by simp
    with row(2) have norm: "normalize_value (old ! fst x) = old ! fst x" by (auto simp: list_all_iff canonical_def)
    have typed: "\<forall>j\<in>db_index F (?t, col_name (snd x), normalize_value (old ! fst x)). datatype_of j = datatype_of i"
      using stored_row(5) [OF D(2) _ D(3)] row(5) by (auto simp: F(2) col_set_def)
    have "runs weak (sbind (slift (nth_checked old (fst x))) (index_del K C T i (snd x))) s
      (\<lambda>r s'. \<exists>u. r = Ok u \<and> holds C s' (F\<lparr>db_index := (\<lambda>(t', c, v).
        if t' = ?t \<and> c = col_name (snd x) then col_set ?R ?t (fst x) v else db_index F (t', c, v))\<rparr>))"
      by (rule runs_lift [where x = "old ! fst x"], use n in simp,
          rule index_step [OF index_del_holds [OF F(1) i typed]])
        (use norm in \<open>auto simp: F(2) col_set_drop old\<close>)
    then show "runs weak ((\<lambda>(n, c). sbind (slift (nth_checked old n)) (index_del K C T i c)) x) s
      (\<lambda>r s'. \<exists>u. r = Ok u \<and> holds C s' (F\<lparr>db_index := (\<lambda>(t', c, v).
        if t' = ?t \<and> c = col_name (snd x) then col_set ?R ?t (fst x) v else db_index F (t', c, v))\<rparr>))"
      by (simp add: case_prod_beta)
  qed
  have same: "?E = D" if "db_rows D (?t, i) = None"
    using that reindex_same [OF D(2,3)] fun_upd_idem [of "db_rows D" "(?t, i)" None] by simp
  have first: "runs weak (if index_columns T = [] then sreturn ()
       else sbind (sread (get_row K C ?t i)) (\<lambda>row. case row of None \<Rightarrow> sreturn () | Some row \<Rightarrow> ?del row)) s
    (\<lambda>r s'. \<exists>u. r = Ok u \<and> holds C s' ?E)"
  proof (cases "index_columns T = []")
    case True
    with del show ?thesis by simp
  next
    case False
    then have "runs weak (sbind (sread (get_row K C ?t i)) (\<lambda>row. case row of None \<Rightarrow> sreturn () | Some row \<Rightarrow> ?del row)) s
      (\<lambda>r s'. \<exists>u. r = Ok u \<and> holds C s' ?E)"
      by (intro runs_read [where x = "db_rows D (?t, i)"])
        (use del same D(1) i get_row_holds [OF D(1)] in \<open>auto split: option.split\<close>)
    with False show ?thesis by simp
  qed
  have drop: "drop_row T i D = ?E\<lparr>db_rows := ?R\<rparr>" by (simp add: drop_row_def set_rows_def)
  show ?thesis
    unfolding delete_row_def
  proof (rule runs_then [OF first])
    fix s'
    assume E: "holds C s' ?E"
    then have "db_stored C (view s') ?E" by (simp add: holds_def)
    from delete_holds [OF E stored_drop_row [OF this, of ?t i]]
    show "runs weak (kt_delete K (key_encode (KRow ?t i))) s' (\<lambda>r s'. \<exists>u. r = Ok u \<and> holds C s' (drop_row T i D))"
      by (simp add: drop i)
  qed
qed

lemma delete_rows_holds:
  assumes "holds C s D" "struct_ok D" "db_tables D (tbl_name T) = Some T" "\<forall>i\<in>set ids. is_key T i"
  shows "runs weak (sfor ids (delete_row K C T)) s (\<lambda>r s'. \<exists>u. r = Ok u \<and> holds C s' (fold (drop_row T) ids D))"
  using assms
proof (induction ids arbitrary: s D)
  case (Cons i ids)
  have "struct_ok (drop_row T i D)" using struct_drop_rows [OF Cons.prems(2,3), of "[i]"] by simp
  then have rest: "runs weak (sfor ids (delete_row K C T)) s' (\<lambda>r s'. \<exists>u. r = Ok u \<and> holds C s' (fold (drop_row T) ids (drop_row T i D)))"
    if "holds C s' (drop_row T i D)" for s'
    using that Cons.prems(3,4) by (intro Cons.IH) simp_all
  have "is_key T i" using Cons.prems(4) by simp
  show ?case
    unfolding sfor.simps fold_simps
    by (rule runs_then [OF delete_row_holds [OF Cons.prems(1-3) \<open>is_key T i\<close>]]) (rule rest)
qed simp

text \<open>The rows that refer to one of the given rows.\<close>

lemma referencing_ids_holds:
  assumes D: "holds C s D" "struct_ok D" "db_tables D t = Some T" and T2: "db_tables D t2 = Some T2"
    and n: "n < length (tbl_columns T2)" "col_references (tbl_columns T2 ! n) \<noteq> None"
    and canon: "\<forall>i\<in>set ids. canonical i"
  obtains vs where "referencing_ids K C T2 n ids s = Ok vs"
    "set vs = {i. \<exists>row. db_rows D (t2, i) = Some row \<and> row ! n \<in> set ids}"
proof -
  have name: "tbl_name T2 = t2" and wf: "table_wf T2" using struct_table [OF D(2) T2] by simp_all
  have norm: "normalize_value i = i" if "i \<in> set ids" for i using canon that by (simp add: canonical_def)
  show thesis
  proof (cases "n = tbl_primary_key T2")
    case True
    let ?rows = "List.map_filter (\<lambda>i. db_rows D (t2, i)) ids"
    have get: "local_get K C t2 ids s = Ok ?rows"
      unfolding local_get_holds [OF D(1)] using norm by (simp add: map_filter_def cong: filter_cong map_cong)
    have row: "\<exists>i\<in>set ids. db_rows D (t2, i) = Some row" if "row \<in> set ?rows" for row
      using that by (auto simp: map_filter_def)
    have "n < length row" if "row \<in> set ?rows" for row
      using row [OF that] row_typed_length [OF stored_row(1) [OF D(2) _ T2]] n(1) by auto
    then have ids: "referencing_ids K C T2 n ids s = Ok (vset_collect (map (\<lambda>row. row ! n) ?rows))"
      unfolding referencing_ids_def using n(1) True
      by (simp add: name get map_list_result_Ok [where g = "\<lambda>row. row ! n"] nth_checked_def)
    have "\<forall>v\<in>set (map (\<lambda>row. row ! n) ?rows). datatype_of v = Some (col_datatype (primary_column T2))"
      using row stored_row(3,5) [OF D(2) _ T2] True by fastforce
    from set_vset_collect [OF this]
    have "set (vset_collect (map (\<lambda>row. row ! n) ?rows)) = (\<lambda>row. row ! n) ` set ?rows" by simp
    also have "\<dots> = {i. \<exists>row. db_rows D (t2, i) = Some row \<and> row ! n \<in> set ids}"
      using stored_row(3) [OF D(2) _ T2] True by (force simp: map_filter_def)
    finally show thesis by (rule that [OF ids])
  next
    case False
    then have "col_index (tbl_columns T2 ! n)" using wf n unfolding table_wf_def Let_def by blast
    then have x: "(n, tbl_columns T2 ! n) \<in> set (index_columns T2)" using n(1) by (simp add: index_columns_iff)
    let ?c = "col_name (tbl_columns T2 ! n)"
    obtain vs where vs: "local_lookup_index K C t2 ?c ids s = Ok vs"
      "set vs = (\<Union>v\<in>set ids. db_index D (t2, ?c, normalize_value v))"
      by (rule lookup_holds [OF D(1,2)])
    have "referencing_ids K C T2 n ids s = Ok vs"
      using False n(1) vs(1) by (simp add: referencing_ids_def name nth_checked_def)
    moreover have "set vs = {i. \<exists>row. db_rows D (t2, i) = Some row \<and> row ! n \<in> set ids}"
      using struct_index [OF D(2) T2 x] norm by (auto simp: vs(2) col_set_def)
    ultimately show thesis by (rule that)
  qed
qed

lemma check_references_holds:
  assumes D: "holds C s D" "struct_ok D" "db_tables D t = Some T" and key: "\<forall>i\<in>set ids. is_key T i"
  shows "answered (check_references K C t ids s)"
    and "check_references K C t ids s = Ok u \<longleftrightarrow> deletable T ids D"
proof -
  have name: "tbl_name T = t" by (rule struct_table(1) [OF D(2,3)])
  have canon: "\<forall>i\<in>set ids. canonical i" using key by (simp add: is_key_def)
  obtain ts where ts: "list_tables K C s = Ok ts" "set ts = ran (db_tables D)"
    by (rule list_tables_holds [OF D(1)])
  let ?srcs = "filter (\<lambda>(_, refs). refs \<noteq> []) (map (\<lambda>source. (source, reference_columns t source)) ts)"
  have tabs: "table_references K C t s = Ok ?srcs" by (simp add: table_references_def ts(1))
  have refs: "n \<in> set (reference_columns t T2) \<longleftrightarrow> n < length (tbl_columns T2) \<and> col_references (tbl_columns T2 ! n) = Some t" for n T2
    by (force simp: reference_columns_def in_set_enumerate_eq image_iff)
  have check: "check_reference K C t ids T2 s n =
      ensure ((if t2 = t then fold vset_remove ids vs else vs) = []) ''row referenced by {table}.{column}={source_id}''"
    if "referencing_ids K C T2 n ids s = Ok vs" "db_tables D t2 = Some T2" for T2 t2 n vs
    using that struct_table(1) [OF D(2) that(2)] by (simp add: check_reference_def)
  have found: "\<exists>vs. referencing_ids K C T2 n ids s = Ok vs \<and>
      set vs = {i. \<exists>row. db_rows D (t2, i) = Some row \<and> row ! n \<in> set ids}"
    if "db_tables D t2 = Some T2" "n \<in> set (reference_columns t T2)" for t2 T2 n
  proof -
    have n: "n < length (tbl_columns T2)" "col_references (tbl_columns T2 ! n) \<noteq> None" using that(2) refs by auto
    show ?thesis by (rule referencing_ids_holds [OF D that(1) n canon]) blast
  qed
  show "answered (check_references K C t ids s)"
  proof -
    have "answered (check_reference K C t ids T2 s n)" if "T2 \<in> set ts" "n \<in> set (reference_columns t T2)" for T2 n
    proof -
      from that(1) obtain t2 where t2: "db_tables D t2 = Some T2" by (auto simp: ts(2) ran_def)
      with found that(2) obtain vs where "referencing_ids K C T2 n ids s = Ok vs" by blast
      from check [OF this t2] show ?thesis by simp
    qed
    then show ?thesis unfolding check_references_def tabs
      by (auto intro!: answered_rbind answered_map)
  qed
  let ?f = "\<lambda>(source, refs). map_list_result (check_reference K C t ids source s) refs"
  have each: "check_reference K C t ids T2 s n = Ok v \<longleftrightarrow>
      (\<forall>i row. db_rows D (t2, i) = Some row \<longrightarrow> row ! n \<in> set ids \<longrightarrow> t2 = t \<and> i \<in> set ids)"
    if t2: "db_tables D t2 = Some T2" and n: "n \<in> set (reference_columns t T2)" for t2 T2 n v
  proof -
    obtain vs where vs: "referencing_ids K C T2 n ids s = Ok vs"
      "set vs = {i. \<exists>row. db_rows D (t2, i) = Some row \<and> row ! n \<in> set ids}"
      using found [OF t2 n] by blast
    let ?rest = "if t2 = t then fold vset_remove ids vs else vs"
    have left: "set ?rest = {i\<in>set vs. \<not> (t2 = t \<and> i \<in> set ids)}"
    proof (cases "t2 = t")
      case True
      with t2 D(3) have "\<forall>v\<in>set ids \<union> set vs. datatype_of v = Some (col_datatype (primary_column T))"
        using key stored_row(5) [OF D(2) _ t2] by (auto simp: vs(2) is_key_def)
      from set_vset_removes [OF this] True show ?thesis by auto
    qed simp
    have "?rest = [] \<longleftrightarrow> {i\<in>set vs. \<not> (t2 = t \<and> i \<in> set ids)} = {}"
      unfolding left [symmetric] by (rule set_empty [symmetric])
    then show ?thesis unfolding check [OF vs(1) t2] ensure_Ok by (auto simp: vs(2))
  qed
  show "check_references K C t ids s = Ok u \<longleftrightarrow> deletable T ids D"
  proof
    assume ok: "check_references K C t ids s = Ok u"
    show "deletable T ids D"
      unfolding deletable_def name
    proof (intro allI impI)
      fix t2 T2 i row n
      assume *: "db_tables D t2 = Some T2" "db_rows D (t2, i) = Some row"
        "n < length (tbl_columns T2)" "col_references (tbl_columns T2 ! n) = Some t" "row ! n \<in> set ids"
      then have n: "n \<in> set (reference_columns t T2)" by (simp add: refs)
      have "T2 \<in> set ts" using *(1) by (auto simp: ts(2) ran_def)
      with n have src: "(T2, reference_columns t T2) \<in> set ?srcs" by force
      obtain ys where "map_list_result ?f ?srcs = Ok ys"
        using ok unfolding check_references_def tabs by (auto simp: rbind_eq_Ok)
      from map_list_result_oks [OF this src]
      obtain zs where "map_list_result (check_reference K C t ids T2 s) (reference_columns t T2) = Ok zs" by auto
      from map_list_result_oks [OF this n] obtain v where "check_reference K C t ids T2 s n = Ok v" by blast
      with each [OF *(1) n, of v] *(2,5) show "t2 = t \<and> i \<in> set ids" by blast
    qed
  next
    assume del: "deletable T ids D"
    have "?f x = Ok (map (\<lambda>_. ()) (snd x))" if "x \<in> set ?srcs" for x
    proof -
      from that obtain T2 where x: "x = (T2, reference_columns t T2)" "T2 \<in> set ts" by auto
      then obtain t2 where t2: "db_tables D t2 = Some T2" by (auto simp: ts(2) ran_def)
      have "check_reference K C t ids T2 s n = Ok ()" if "n \<in> set (reference_columns t T2)" for n
        using each [OF t2 that] del t2 that refs unfolding deletable_def name by blast
      then show ?thesis unfolding x by (simp add: map_list_result_Ok [where g = "\<lambda>_. ()"])
    qed
    from map_list_result_Ok [OF this, of ?srcs] show "check_references K C t ids s = Ok u"
      unfolding check_references_def tabs by (simp add: case_prod_unfold)
  qed
qed

lemma local_delete_holds:
  assumes D: "holds C s D" "db_ok D" and key: "\<And>T. db_tables D t = Some T \<Longrightarrow> \<forall>i\<in>set ids. is_key T i"
  shows "runs weak (local_delete K C t ids) s (settles C (case db_tables D t of
      None \<Rightarrow> (False, D) | Some T \<Rightarrow> delete_rows T ids D))"
proof (cases "db_tables D t")
  case None
  then show ?thesis using D by (simp add: local_delete_def runs_def sbind_def must_get_table_holds settles_Err)
next
  case (Some T)
  have struct: "struct_ok D" and refs: "refs_ok D" using D(2) by (simp_all add: db_ok_def)
  have T: "tbl_name T = t" by (rule struct_table(1) [OF struct Some])
  note tab = Some [folded T]
  note check = check_references_holds [OF D(1) struct tab key [OF Some]]
  let ?E = "fold (drop_row T) ids D"
  have "refs_ok ?E" if "deletable T ids D"
    using refs that T unfolding refs_ok_def deletable_def by (auto split: if_splits)
  then have ok: "db_ok ?E" if "deletable T ids D"
    using that struct_drop_rows [OF struct tab] by (simp add: db_ok_def)
  have "runs weak (sbind (sread (check_references K C (tbl_name T) ids)) (\<lambda>_. sfor ids (delete_row K C T))) s
      (settles C (delete_rows T ids D))"
    by (rule runs_try, rule check(1) [folded T])
      (use check(2) [folded T] ok D delete_rows_holds [OF D(1) struct tab key [OF Some]]
        in \<open>auto simp: delete_rows_def settles_def elim!: runs_weaken\<close>)
  then show ?thesis
    unfolding local_delete_def
    by (intro runs_read [where x = T]) (simp_all add: must_get_table_holds [OF D(1)] Some)
qed

text \<open>Updating a row under its primary key.\<close>

lemma update_index_holds:
  assumes F: "holds C s F" "\<And>v. db_index F (tbl_name T, col_name (snd x), v) = col_set R (tbl_name T) (fst x) v"
    and n: "fst x < length old" "fst x < length row" "normalize_value (old ! fst x) = old ! fst x"
      "value_eq (old ! fst x) (row ! fst x) \<longleftrightarrow> old ! fst x = normalize_value (row ! fst x)"
    and i: "canonical i" "\<not> is_undefined i" "R (tbl_name T, i) = Some old"
      "\<And>j row. R (tbl_name T, j) = Some row \<Longrightarrow> datatype_of j = datatype_of i"
  shows "runs weak (update_index K C T i old row x) s (\<lambda>r s'. \<exists>u. r = Ok u \<and> holds C s' (F\<lparr>db_index := (\<lambda>(t', c, v).
    if t' = tbl_name T \<and> c = col_name (snd x) then col_set (R((tbl_name T, i) \<mapsto> map normalize_value row)) (tbl_name T) (fst x) v
    else db_index F (t', c, v))\<rparr>))"
proof -
  let ?t = "tbl_name T" and ?c = "col_name (snd x)" and ?v = "old ! fst x" and ?w = "normalize_value (row ! fst x)"
  let ?X = "(db_index F)((?t, ?c, ?v) := db_index F (?t, ?c, ?v) - {i})"
  let ?F = "F\<lparr>db_index := ?X\<rparr>"
  have norm: "normalize_value i = i" using i(1) by (simp add: canonical_def)
  note replace = col_set_replace [of R ?t i old "map normalize_value row" "fst x", OF i(3)]
  have new: "map normalize_value row ! fst x = ?w" using n(2) by simp
  have typed: "\<forall>j\<in>db_index F (?t, ?c, v). datatype_of j = datatype_of i" for v
    using i(4) by (auto simp: F(2) col_set_def)
  show ?thesis
  proof (cases "?v = ?w")
    case True
    have "runs weak (sreturn ()) s (\<lambda>r s'. \<exists>u. r = Ok u \<and> holds C s' (F\<lparr>db_index := db_index F\<rparr>))"
      using F(1) by simp
    then have "runs weak (sreturn ()) s (\<lambda>r s'. \<exists>u. r = Ok u \<and> holds C s' (F\<lparr>db_index := (\<lambda>(t', c, v).
      if t' = ?t \<and> c = ?c then col_set (R((?t, i) \<mapsto> map normalize_value row)) ?t (fst x) v else db_index F (t', c, v))\<rparr>))"
    proof (rule index_step)
      show "db_index F (?t, ?c, v) = col_set (R((?t, i) \<mapsto> map normalize_value row)) ?t (fst x) v" for v
        using True i(3) by (auto simp: replace new F(2) col_set_def)
    qed simp
    with True n(1,2,4) show ?thesis by (simp add: update_index_def case_prod_beta nth_checked_def)
  next
    case False
    have del: "runs weak (index_del K C T i (snd x) ?v) s (\<lambda>r s'. \<exists>u. r = Ok u \<and> holds C s' ?F)"
      using index_del_holds [OF F(1) norm typed, of ?v] n(3) by simp
    have add: "runs weak (index_add K C T i (snd x) (row ! fst x)) s' (\<lambda>r s'. \<exists>u. r = Ok u \<and>
        holds C s' (?F\<lparr>db_index := ?X((?t, ?c, ?w) := insert i (db_index F (?t, ?c, ?w)))\<rparr>))"
      if "holds C s' ?F" for s'
      using index_add_holds [OF that i(2), of T "snd x" "row ! fst x"] typed [of ?w] False i(3)
      by (auto simp: norm F(2) col_set_def)
    have both: "runs weak (sbind (index_del K C T i (snd x) ?v) (\<lambda>_. index_add K C T i (snd x) (row ! fst x))) s
      (\<lambda>r s'. \<exists>u. r = Ok u \<and> holds C s' (F\<lparr>db_index := ?X((?t, ?c, ?w) := insert i (db_index F (?t, ?c, ?w)))\<rparr>))"
      by (rule runs_then [OF del]) (use add in simp)
    have "runs weak (sbind (index_del K C T i (snd x) ?v) (\<lambda>_. index_add K C T i (snd x) (row ! fst x))) s
      (\<lambda>r s'. \<exists>u. r = Ok u \<and> holds C s' (F\<lparr>db_index := (\<lambda>(t', c, v).
      if t' = ?t \<and> c = ?c then col_set (R((?t, i) \<mapsto> map normalize_value row)) ?t (fst x) v else db_index F (t', c, v))\<rparr>))"
      by (rule index_step [OF both]) (auto simp: replace new F(2))
    with False n(1,2,4) show ?thesis by (simp add: update_index_def case_prod_beta nth_checked_def)
  qed
qed

lemma column_typed_unmixed: "column_typed c v \<Longrightarrow> column_typed c w \<Longrightarrow> \<not> mixed v w"
  by (cases v; cases w) (auto simp: column_typed_def mixed_def split: if_splits)

lemma update_in_place_holds:
  assumes D: "holds C s D" "db_ok D" "db_tables D (tbl_name T) = Some T" and plain: "list_all plain_value row"
    and old: "db_rows D (tbl_name T, i) = Some old" and same: "value_eq i (row ! tbl_primary_key T)"
    and norm: "normalize_value (row ! tbl_primary_key T) = row ! tbl_primary_key T"
  shows "runs weak (update_in_place K C T i row) s (settles C (update_row T (i, row) D))" (is "runs weak _ s ?Q")
  unfolding update_in_place_def
proof (rule runs_try)
  have struct: "struct_ok D" using D(2) by (simp add: db_ok_def)
  show "answered (local_validate K C T row True s)" by (rule validate_answered [OF D(1) struct D(3)])
  show "?Q (Err (InvalidInput m)) s" if "local_validate K C T row True s = Err (InvalidInput m)" for m
    using validate_complete [OF D(1) struct D(3) plain, of True] norm same that D(1,2) by (auto simp: settles_Err)
  let ?row = "map normalize_value row" and ?t = "tbl_name T" and ?pk = "tbl_primary_key T"
  let ?R = "(db_rows D)((?t, i) \<mapsto> ?row)"
  let ?E = "D\<lparr>db_index := reindex T ?R (db_index D)\<rparr>"
  fix u
  assume valid: "local_validate K C T row True s = Ok u"
  note fits = validate_fits [OF D(1) struct D(3) plain valid]
  note stored = stored_row [OF struct old D(3)]
  have pk: "?pk < length row" "\<not> is_undefined (row ! ?pk)" using fits(2) by (auto simp: row_typed_def)
  have plains: "n < length row \<Longrightarrow> plain_value (row ! n)" for n using plain by (simp add: list_all_length)
  have len: "length row = length (tbl_columns T)" "length old = length (tbl_columns T)"
    by (rule row_typed_length [OF fits(2)], rule row_typed_length [OF stored(1)])
  have "\<not> mixed i (row ! ?pk)" using stored(5) row_typed_key [OF fits(2)] by (intro unmixed_datatype) simp
  then have key: "?row ! ?pk = i"
    using same value_eq_normalize [of i "row ! ?pk"] stored(4) plains [OF pk(1)] pk(1) by (simp add: canonical_def)
  have put: "put_row T ?row D = ?E\<lparr>db_rows := ?R\<rparr>"
    by (simp add: put_row_def set_rows_def key del: nth_map)
  have ok: "db_ok (put_row T ?row D)" unfolding put_row_def by (rule db_ok_put [OF D(2,3) fits(1)])
  have loop: "runs weak (sfor (index_columns T) (update_index K C T i old row)) s (\<lambda>r s'. \<exists>u. r = Ok u \<and> holds C s' ?E)"
  proof (rule reindex_loop [OF struct D(3,1) refl])
    fix x s F
    assume x: "x \<in> set (index_columns T)" and F: "holds C s F"
      "\<And>v. db_index F (?t, col_name (snd x), v) = col_set (db_rows D) ?t (fst x) v"
    have n: "fst x < length (tbl_columns T)" using x index_columns_iff [of "fst x" "snd x" T] by simp
    have "\<not> mixed (old ! fst x) (row ! fst x)"
      by (rule column_typed_unmixed [OF row_typed_nth [OF stored(1) n] row_typed_nth [OF fits(2) n]])
    moreover have canon: "canonical (old ! fst x)" using stored(2) n len by (simp add: list_all_length)
    ultimately have eq: "value_eq (old ! fst x) (row ! fst x) \<longleftrightarrow> old ! fst x = normalize_value (row ! fst x)"
      using value_eq_normalize plains n len by (simp add: canonical_def)
    show "runs weak (update_index K C T i old row x) s (\<lambda>r s'. \<exists>u. r = Ok u \<and> holds C s' (F\<lparr>db_index := (\<lambda>(t', c, v).
        if t' = ?t \<and> c = col_name (snd x) then col_set ?R ?t (fst x) v else db_index F (t', c, v))\<rparr>))"
      by (rule update_index_holds [OF F])
        (use n len canon eq stored(4-6) old stored_row(5) [OF struct _ D(3)] in \<open>auto simp: canonical_def\<close>)
  qed
  have "local_get K C ?t [i] s = Ok [old]"
    using stored(4) old by (simp add: local_get_holds [OF D(1)] map_filter_simps canonical_def)
  then have first: "runs weak (if index_columns T = [] then sreturn ()
       else sbind (sread (local_get K C ?t [i])) (\<lambda>rows. case rows of
           [] \<Rightarrow> slift (Panic ''removal index (is 0) should be < len (is 0)'')
         | old # _ \<Rightarrow> sfor (index_columns T) (update_index K C T i old row))) s
    (\<lambda>r s'. \<exists>u. r = Ok u \<and> holds C s' ?E)"
    using loop by (cases "index_columns T = []") (simp_all add: runs_read [where x = "[old]"])
  show "runs weak (sbind (if index_columns T = [] then sreturn ()
       else sbind (sread (local_get K C ?t [i])) (\<lambda>rows. case rows of
           [] \<Rightarrow> slift (Panic ''removal index (is 0) should be < len (is 0)'')
         | old # _ \<Rightarrow> sfor (index_columns T) (update_index K C T i old row)))
      (\<lambda>_. kt_set K (key_encode (KRow ?t i)) (values_encode C row))) s ?Q"
  proof (rule runs_then [OF first])
    fix s'
    assume E: "holds C s' ?E"
    then have "db_stored C (view s') ?E" by (simp add: holds_def)
    from set_holds [OF E stored_put_row [OF this, of ?t i row]]
    have "runs weak (kt_set K (key_encode (KRow ?t i)) (values_encode C row)) s' (\<lambda>r s'. \<exists>u. r = Ok u \<and> holds C s' (put_row T ?row D))"
      using stored(4) by (simp add: put canonical_def)
    then show "runs weak (kt_set K (key_encode (KRow ?t i)) (values_encode C row)) s' ?Q"
      by (rule runs_weaken) (use ok same fits(1) in \<open>auto simp: settles_Ok\<close>)
  qed
qed

lemma update_one_holds:
  assumes D: "holds C s D" "db_ok D" "db_tables D (tbl_name T) = Some T" and plain: "list_all plain_value row"
    and old: "db_rows D (tbl_name T, i) \<noteq> None" and pk: "tbl_primary_key T < length row"
    and norm: "normalize_value (row ! tbl_primary_key T) = row ! tbl_primary_key T"
  shows "runs weak (update_one K C T (i, row)) s (settles C (update_row T (i, row) D))" (is "runs weak _ s ?Q")
proof (cases "value_eq i (row ! tbl_primary_key T)")
  case True
  obtain r where r: "db_rows D (tbl_name T, i) = Some r" using old by blast
  from update_in_place_holds [OF D plain r True norm] True pk show ?thesis
    by (simp add: update_one_def nth_checked_def)
next
  case False
  have "is_key T i" using D(2,3) old stored_row(4,5) [of D "tbl_name T" i _ T] by (auto simp: db_ok_def is_key_def)
  then have del: "runs weak (local_delete K C (tbl_name T) [i]) s (settles C (delete_rows T [i] D))"
    using local_delete_holds [OF D(1,2), of "tbl_name T" "[i]"] D(3) by simp
  have ins: "runs weak (local_insert K C (tbl_name T) [row]) s' (settles C (insert_row T row (drop_row T i D)))"
    if "holds C s' (drop_row T i D)" "db_ok (drop_row T i D)" for s'
    using local_insert_holds [OF that, of "[row]" "tbl_name T"] plain D(3) by (simp del: apply_rows.simps)
  have "runs weak (sbind (local_delete K C (tbl_name T) [i]) (\<lambda>_. local_insert K C (tbl_name T) [row])) s ?Q"
    by (rule runs_settles_then [OF del])
      (use False ins in \<open>auto simp: delete_rows_def settles_Err split: if_splits\<close>)
  with False pk show ?thesis by (simp add: update_one_def nth_checked_def)
qed

lemma local_update_holds:
  assumes D: "holds C s D" "db_ok D" and rows: "\<And>T. db_tables D t = Some T \<Longrightarrow> updates_ok T rows D"
  shows "runs weak (local_update K C t rows) s (settles C (case db_tables D t of
      None \<Rightarrow> (False, D) | Some T \<Rightarrow> apply_rows (update_row T) rows D))"
proof (cases "db_tables D t")
  case None
  then show ?thesis using D by (simp add: local_update_def runs_def sbind_def must_get_table_holds settles_Err)
next
  case (Some T)
  then have T: "tbl_name T = t" using D(2) by (auto simp: db_ok_def dest: struct_table(1))
  let ?I = "\<lambda>rows E. db_tables E (tbl_name T) = Some T \<and> updates_ok T rows E"
  have body: "runs weak (update_one K C T x) s (settles C (update_row T x E))"
    if "?I (x # rows) E" "holds C s E" "db_ok E" for x rows s E
    using that by (cases x) (auto simp: updates_ok_def simp del: update_row.simps intro!: update_one_holds)
  have step: "?I rows (snd (update_row T x E))" if I: "?I (x # rows) E" "fst (update_row T x E)" for x rows E
  proof -
    obtain i row where x: "x = (i, row)" by (cases x)
    have "\<forall>(j, row)\<in>set rows. j \<noteq> i" using I(1) by (force simp: updates_ok_def x)
    with I show ?thesis
      using update_row_others [of T i row E] by (fastforce simp: updates_ok_def x simp del: update_row.simps)
  qed
  have "runs weak (sfor rows (update_one K C T)) s (settles C (apply_rows (update_row T) rows D))"
    by (rule settles_for [where I = ?I, OF _ D body step]) (use Some rows T in auto)
  then show ?thesis
    unfolding local_update_def
    by (intro runs_read [where x = T]) (simp_all add: Some must_get_table_holds [OF D(1)])
qed

end

end
