(* ===== verification/SqlCatalog.thy ===== *)
theory SqlCatalog
  imports SqlWrites
begin

text \<open>
  Creating and dropping tables, all writes of the storage engine as calls with their effect on the
  abstract database, and the reads. The results hold in an MVCC transaction on BitCask.
\<close>

section \<open>Changes of the catalog\<close>

definition add_table :: "sql_table \<Rightarrow> sql_db \<Rightarrow> sql_db" where
  "add_table T D = D\<lparr>db_tables := (db_tables D)(tbl_name T \<mapsto> normalize_table T)\<rparr>"

definition drop_table :: "string \<Rightarrow> sql_db \<Rightarrow> sql_db" where
  "drop_table t D = D\<lparr>db_tables := (db_tables D)(t := None),
     db_rows := (\<lambda>(t', i). if t' = t then None else db_rows D (t', i)),
     db_index := (\<lambda>(t', c, v). if t' = t then {} else db_index D (t', c, v))\<rparr>"

definition referenced :: "string \<Rightarrow> sql_db \<Rightarrow> bool" where
  "referenced t D = (\<exists>t2 T2 c. db_tables D t2 = Some T2 \<and> c \<in> set (tbl_columns T2) \<and> col_references c = Some t \<and> t2 \<noteq> t)"

text \<open>Whether the statement is accepted, and the database it leaves.\<close>

definition create_table :: "sql_table \<Rightarrow> sql_db \<Rightarrow> bool \<times> sql_db" where
  "create_table T D =
     (if db_tables D (tbl_name T) = None \<and> validate_table (\<lambda>t. Ok (db_tables D t)) T = Ok ()
      then (True, add_table T D) else (False, D))"

definition index_names_distinct :: "sql_table \<Rightarrow> bool" where
  "index_names_distinct T = distinct (map (\<lambda>x. col_name (snd x)) (index_columns T))"

lemma normalize_table_fields [simp]:
  "tbl_name (normalize_table T) = tbl_name T" "tbl_primary_key (normalize_table T) = tbl_primary_key T"
  "tbl_columns (normalize_table T) = map normalize_column (tbl_columns T)"
  by (simp_all add: normalize_table_def)

lemma normalize_column_fields [simp]:
  "col_name (normalize_column c) = col_name c" "col_datatype (normalize_column c) = col_datatype c"
  "col_nullable (normalize_column c) = col_nullable c" "col_unique (normalize_column c) = col_unique c"
  "col_index (normalize_column c) = col_index c" "col_references (normalize_column c) = col_references c"
  "col_default (normalize_column c) = map_option normalize_value (col_default c)"
  by (simp_all add: normalize_column_def)

lemma normalize_column_typed [simp]: "column_typed (normalize_column c) v = column_typed c v"
  by (simp add: column_typed_def)

lemma normalize_table_wf: "table_wf T \<Longrightarrow> table_wf (normalize_table T)"
  by (auto simp: table_wf_def Let_def)

lemma index_columns_normalize: "index_columns (normalize_table T) = map (\<lambda>(n, c). (n, normalize_column c)) (index_columns T)"
proof -
  have "enumerate k (map normalize_column cs) = map (\<lambda>(n, c). (n, normalize_column c)) (enumerate k cs)" for k cs
    by (induction cs arbitrary: k) simp_all
  then show ?thesis by (simp add: index_columns_def filter_map comp_def case_prod_unfold)
qed

lemma index_names_normalize: "index_names_distinct T \<Longrightarrow> distinct (map (\<lambda>x. col_name (snd x)) (index_columns (normalize_table T)))"
  by (simp add: index_names_distinct_def index_columns_normalize comp_def case_prod_beta)

lemma answered_validate_table:
  assumes "\<And>name. answered (get name)" "\<And>name T. get name = Ok (Some T) \<Longrightarrow> tbl_primary_key T < length (tbl_columns T)"
  shows "answered (validate_table get t)"
proof -
  have "answered (reference_type get t reference)" if "tbl_primary_key t < length (tbl_columns t)" for reference
    unfolding reference_type_def using assms that
    by (auto simp: nth_checked_def intro!: answered_rbind split: option.split)
  then have "answered (validate_column get t i c)" if "tbl_primary_key t < length (tbl_columns t)" for i c
    unfolding validate_column_def validate_primary_key_def validate_references_def validate_default_def Let_def using that
    by (auto intro!: answered_rbind split: option.split)
  then show ?thesis
    unfolding validate_table_def by (auto intro!: answered_rbind answered_for_columns)
qed

text \<open>The references of a valid schema.\<close>

lemma validate_table_reference:
  assumes "validate_table get t = Ok u" "c \<in> set (tbl_columns t)" "col_references c = Some t'"
  shows "t' = tbl_name t \<and> col_datatype (primary_column t) = col_datatype c \<or>
    (\<exists>T. get t' = Ok (Some T) \<and> t' \<noteq> tbl_name t \<and> col_datatype (primary_column T) = col_datatype c)"
proof -
  obtain i where i: "i < length (tbl_columns t)" "c = tbl_columns t ! i" using assms(2) by (metis in_set_conv_nth)
  then have "validate_column get t i c = Ok ()"
    using assms(1) by (auto simp: validate_table_def rbind_eq_Ok for_columns_Ok)
  then obtain ty where "reference_type get t t' = Ok ty" "col_datatype c = ty"
    using assms(3) by (auto simp: validate_column_def validate_references_def Let_def rbind_eq_Ok)
  then show ?thesis
    by (auto simp: reference_type_def rbind_eq_Ok primary_column_def split: if_splits option.splits)
qed

lemma primary_column_normalize: "table_wf T \<Longrightarrow> primary_column (normalize_table T) = normalize_column (primary_column T)"
  by (simp add: primary_column_def table_wf_def)

lemma no_table_empty:
  assumes "struct_ok D" "db_tables D t = None"
  shows "db_rows D (t, i) = None" "db_index D (t, c, v) = {}"
proof -
  show "db_rows D (t, i) = None" using stored_row_table [OF assms(1), of t i] assms(2) by (cases "db_rows D (t, i)") auto
  show "db_index D (t, c, v) = {}" using assms unfolding struct_ok_def index_ok_def by auto
qed

lemma db_ok_add_table:
  assumes D: "db_ok D" "db_tables D (tbl_name T) = None"
    and T: "validate_table (\<lambda>t. Ok (db_tables D t)) T = Ok u" "index_names_distinct T"
  shows "db_ok (add_table T D)"
proof -
  let ?E = "add_table T D"
  have ok: "tables_ok D" "rows_ok D" "index_ok D" "unique_ok D" "refs_ok D" "struct_ok D"
    using D(1) by (simp_all add: db_ok_def struct_ok_def)
  note empty = no_table_empty [OF ok(6) D(2)]
  have wf: "table_wf T" by (rule validate_table_wf [OF T(1)])
  have tables: "db_tables ?E t = (if t = tbl_name T then Some (normalize_table T) else db_tables D t)" for t
    by (simp add: add_table_def)
  have same: "db_rows ?E = db_rows D" "db_index ?E = db_index D" by (simp_all add: add_table_def)
  have ref: "\<exists>T'. db_tables ?E t' = Some T' \<and> col_datatype (primary_column T') = col_datatype c"
    if "c \<in> set (tbl_columns T)" "col_references c = Some t'" for c t'
    using validate_table_reference [OF T(1) that] by (auto simp: tables primary_column_normalize [OF wf])
  have old: "\<exists>T'. db_tables ?E t' = Some T' \<and> col_datatype (primary_column T') = col_datatype c"
    if "db_tables D t = Some T'" "c \<in> set (tbl_columns T')" "col_references c = Some t'" for t T' c t'
    using struct_table(3) [OF ok(6) that] D(2) by (auto simp: tables)
  have "tables_ok ?E"
    unfolding tables_ok_def tables
    using ok(1) ref old normalize_table_wf [OF wf] index_names_normalize [OF T(2)]
    by (auto simp: tables_ok_def tables split: if_splits)
  moreover have "rows_ok ?E"
    using ok(2) empty(1) unfolding rows_ok_def tables same by fastforce
  moreover have "index_ok ?E"
  proof (unfold index_ok_def, intro allI)
    fix t c v i
    show "i \<in> db_index ?E (t, c, v) \<longleftrightarrow> (\<exists>T x row. db_tables ?E t = Some T \<and> x \<in> set (index_columns T) \<and>
      col_name (snd x) = c \<and> db_rows ?E (t, i) = Some row \<and> row ! fst x = v)"
    proof (cases "t = tbl_name T")
      case True
      then show ?thesis using empty by (simp add: same)
    next
      case False
      then show ?thesis using ok(3) unfolding index_ok_def same tables by simp
    qed
  qed
  moreover have "unique_ok ?E"
    using ok(4) empty(1) unfolding unique_ok_def tables same by (auto split: if_splits)
  moreover have "refs_ok ?E"
    using ok(5) empty(1) unfolding refs_ok_def tables same by (auto split: if_splits)
  ultimately show ?thesis by (simp add: db_ok_def struct_ok_def)
qed

lemma db_ok_drop_table:
  assumes D: "db_ok D" and unreferenced: "\<And>t2 T2 c. db_tables D t2 = Some T2 \<Longrightarrow> c \<in> set (tbl_columns T2) \<Longrightarrow>
    col_references c = Some t \<Longrightarrow> t2 = t"
  shows "db_ok (drop_table t D)"
proof -
  let ?E = "drop_table t D"
  have ok: "tables_ok D" "rows_ok D" "index_ok D" "unique_ok D" "refs_ok D" "struct_ok D"
    using D by (simp_all add: db_ok_def struct_ok_def)
  have E: "db_tables ?E t' = (if t' = t then None else db_tables D t')"
    "db_rows ?E (t', i) = (if t' = t then None else db_rows D (t', i))"
    "db_index ?E (t', c, v) = (if t' = t then {} else db_index D (t', c, v))" for t' i c v
    by (simp_all add: drop_table_def)
  have "tables_ok ?E"
    using ok(1) unreferenced unfolding tables_ok_def E by (auto split: if_splits)
  moreover have "rows_ok ?E" using ok(2) unfolding rows_ok_def E by auto
  moreover have "index_ok ?E" using ok(3) unfolding index_ok_def E by (simp split: if_splits)
  moreover have "unique_ok ?E" using ok(4) unfolding unique_ok_def E by (auto split: if_splits)
  moreover have "refs_ok ?E"
    unfolding refs_ok_def E
  proof (intro allI impI)
    fix t2 T2 i row n t'
    assume *: "(if t2 = t then None else db_tables D t2) = Some T2" "(if t2 = t then None else db_rows D (t2, i)) = Some row"
      "n < length (tbl_columns T2)" "col_references (tbl_columns T2 ! n) = Some t'" "row ! n \<noteq> Null"
    then have t2: "t2 \<noteq> t" "db_tables D t2 = Some T2" "db_rows D (t2, i) = Some row" by (auto split: if_splits)
    with unreferenced [of t2 T2 "tbl_columns T2 ! n"] *(3,4) have "t' \<noteq> t" by auto
    with t2 *(3-5) ok(5) show "(if t' = t then None else db_rows D (t', row ! n)) \<noteq> None"
      unfolding refs_ok_def by simp
  qed
  ultimately show ?thesis by (simp add: db_ok_def struct_ok_def)
qed

section \<open>Deleting by prefix\<close>

fun clear_prefix :: "sql_key_prefix \<Rightarrow> sql_db \<Rightarrow> sql_db" where
  "clear_prefix PTable D = D\<lparr>db_tables := (\<lambda>_. None)\<rparr>"
| "clear_prefix (PRow t) D = D\<lparr>db_rows := (\<lambda>(t', i). if t' = t then None else db_rows D (t', i))\<rparr>"
| "clear_prefix (PIndex t c) D = D\<lparr>db_index := (\<lambda>(t', c', v). if t' = t \<and> c' = c then {} else db_index D (t', c', v))\<rparr>"

lemma stored_clear_prefix:
  assumes "db_stored C V D" "\<And>k. V' (key_encode k) = (if in_prefix p k then None else V (key_encode k))"
    "\<And>b. V' b \<noteq> None \<Longrightarrow> V b \<noteq> None"
  shows "db_stored C V' (clear_prefix p D)"
  using assms by (cases p) (auto simp: db_stored_def index_entry_def)

context kv_transaction
begin

lemma delete_keys:
  assumes "invar s"
  shows "runs weak (sfor (map Ok out) (\<lambda>item. sbind (slift item) (\<lambda>(key, _). kt_delete K key))) s
    (\<lambda>r s'. \<exists>u. r = Ok u \<and> (invar s' \<and> view s' = (\<lambda>b. if b \<in> fst ` set out then None else view s b)))"
  using assms
proof (induction out arbitrary: s)
  case (Cons x out)
  obtain b v where x: "x = (b, v)" by (cases x)
  have first: "runs weak (sbind (slift (Ok x)) (\<lambda>(key, _). kt_delete K key)) s
      (\<lambda>r s'. \<exists>u. r = Ok u \<and> (invar s' \<and> view s' = (view s)(b := None)))"
  proof -
    obtain r s' where "kt_delete K b s = (r, s')" by (cases "kt_delete K b s")
    with delete_view [OF Cons.prems this] show ?thesis by (auto simp: x runs_def write_effect_def)
  qed
  show ?case
    unfolding sfor.simps list.map
  proof (rule runs_then [OF first])
    fix s'
    assume s': "invar s' \<and> view s' = (view s)(b := None)"
    then have eq: "(\<lambda>b. if b \<in> fst ` set (x # out) then None else view s b) = (\<lambda>b. if b \<in> fst ` set out then None else view s' b)"
      by (auto simp: x fun_eq_iff)
    show "runs weak (sfor (map Ok out) (\<lambda>item. sbind (slift item) (\<lambda>(key, _). kt_delete K key))) s'
      (\<lambda>r t. \<exists>u. r = Ok u \<and> (invar t \<and> view t = (\<lambda>b. if b \<in> fst ` set (x # out) then None else view s b)))"
      unfolding eq using s' by (intro Cons.IH) simp
  qed
qed simp

lemma delete_prefix_holds:
  assumes D: "holds C s D"
  shows "runs weak (delete_prefix K p) s (\<lambda>r s'. \<exists>u. r = Ok u \<and> holds C s' (clear_prefix p D))"
proof -
  have stored: "db_stored C (view s) D" and inv: "invar s" and codec: "sql_codec_ok C"
    using D by (simp_all add: holds_def)
  obtain out where out: "kt_scan_prefix K (key_prefix p) s = map Ok out"
    "\<And>b v. (b, v) \<in> set out \<longleftrightarrow> (\<exists>k. b = key_encode k \<and> in_prefix p k \<and> view s (key_encode k) = Some v)"
    by (rule scan_holds [OF D, of p]) (rule that)
  have mem: "b \<in> fst ` set out \<longleftrightarrow> (\<exists>k. b = key_encode k \<and> in_prefix p k \<and> view s b \<noteq> None)" for b
  proof -
    have "b \<in> fst ` set out \<longleftrightarrow> (\<exists>v. (b, v) \<in> set out)" by force
    then show ?thesis unfolding out(2) by (auto simp del: key_encode_inject)
  qed
  have norm: "in_prefix p k = in_prefix p k'" if "key_encode k = key_encode k'" for k k'
    using prefix_key [of k p] prefix_key [of k' p] that by simp
  have stored': "db_stored C (\<lambda>b. if b \<in> fst ` set out then None else view s b) (clear_prefix p D)"
    by (rule stored_clear_prefix [OF stored]) (auto simp: mem simp del: key_encode_inject dest: norm split: if_splits)
  show ?thesis
    unfolding delete_prefix_def
    by (rule runs_read [where x = "map Ok out"], simp add: out(1), rule runs_weaken [OF delete_keys [OF inv]])
      (use stored' codec in \<open>auto simp: holds_def\<close>)
qed

lemma delete_indexes_holds:
  assumes "holds C s D"
  shows "runs weak (sfor xs (\<lambda>(_, c). delete_prefix K (PIndex t (col_name c)))) s (\<lambda>r s'. \<exists>u. r = Ok u \<and>
    holds C s' (D\<lparr>db_index := (\<lambda>(t', c, v). if t' = t \<and> c \<in> (\<lambda>x. col_name (snd x)) ` set xs then {} else db_index D (t', c, v))\<rparr>))"
  using assms
proof (induction xs arbitrary: s D)
  case Nil
  have "D\<lparr>db_index := (\<lambda>(t', c, v). db_index D (t', c, v))\<rparr> = D" by simp
  with Nil show ?case by simp
next
  case (Cons x xs)
  let ?D = "clear_prefix (PIndex t (col_name (snd x))) D"
  let ?f = "\<lambda>xs D (t', c, v). if t' = t \<and> c \<in> (\<lambda>x. col_name (snd x)) ` set xs then {} else db_index D (t', c, v)"
  have "?f xs ?D = ?f (x # xs) D" by (auto simp: fun_eq_iff)
  then have eq: "?D\<lparr>db_index := ?f xs ?D\<rparr> = D\<lparr>db_index := ?f (x # xs) D\<rparr>" by simp
  have first: "runs weak ((\<lambda>(_, c). delete_prefix K (PIndex t (col_name c))) x) s (\<lambda>r s'. \<exists>u. r = Ok u \<and> holds C s' ?D)"
    using delete_prefix_holds [OF Cons.prems, of "PIndex t (col_name (snd x))"] by (simp add: case_prod_beta)
  show ?case
    unfolding sfor.simps
  proof (rule runs_then [OF first])
    fix s'
    assume "holds C s' ?D"
    from Cons.IH [OF this]
    show "runs weak (sfor xs (\<lambda>(_, c). delete_prefix K (PIndex t (col_name c)))) s'
      (\<lambda>r s'. \<exists>u. r = Ok u \<and> holds C s' (D\<lparr>db_index := ?f (x # xs) D\<rparr>))"
      by (simp only: eq)
  qed
qed

section \<open>Creating and dropping tables\<close>

lemma create_table_holds:
  assumes D: "holds C s D" "db_ok D" and names: "index_names_distinct T"
  shows "runs weak (local_create_table K C T) s (settles C (create_table T D))" (is "runs weak _ s ?Q")
proof -
  have struct: "struct_ok D" using D(2) by (simp add: db_ok_def)
  have get: "(\<lambda>name. get_table K C name s) = (\<lambda>name. Ok (db_tables D name))" by (simp add: get_table_holds [OF D(1)])
  have ans: "answered (validate_table (\<lambda>name. Ok (db_tables D name)) T)"
    by (rule answered_validate_table) (use struct_table(2) [OF struct] in \<open>auto simp: table_wf_def\<close>)
  have new: "runs weak (sbind (sread (\<lambda>s. validate_table (\<lambda>name. get_table K C name s) T)) (\<lambda>_.
     kt_set K (key_encode (KTable (tbl_name T))) (table_encode C T))) s ?Q" if None: "db_tables D (tbl_name T) = None"
  proof (rule runs_try, unfold get, rule ans)
    show "?Q (Err (InvalidInput m)) s" if "validate_table (\<lambda>name. Ok (db_tables D name)) T = Err (InvalidInput m)" for m
      using that D by (simp add: create_table_def settles_def)
    fix u
    assume valid: "validate_table (\<lambda>name. Ok (db_tables D name)) T = Ok u"
    have ok: "db_ok (add_table T D)" by (rule db_ok_add_table [OF D(2) None valid names])
    have "db_stored C (view s) D" using D(1) by (simp add: holds_def)
    from set_holds [OF D(1) stored_put_table [OF this, of "tbl_name T" "normalize_table T"]]
    show "runs weak (kt_set K (key_encode (KTable (tbl_name T))) (table_encode C T)) s ?Q"
      unfolding table_encode_def by (rule runs_weaken)
        (use None ok valid in \<open>auto simp: add_table_def create_table_def settles_Ok\<close>)
  qed
  show ?thesis
    unfolding local_create_table_def
    by (rule runs_read [where x = "db_tables D (tbl_name T)"], rule get_table_holds [OF D(1)])
      (use new D in \<open>auto simp: create_table_def settles_def\<close>)
qed

lemma table_references_holds:
  assumes D: "holds C s D" "struct_ok D"
  obtains srcs where "table_references K C t s = Ok srcs"
    "(\<forall>(source, _)\<in>set srcs. tbl_name source = t) \<longleftrightarrow> \<not> referenced t D"
proof -
  obtain ts where ts: "list_tables K C s = Ok ts" "set ts = ran (db_tables D)"
    by (rule list_tables_holds [OF D(1)])
  let ?srcs = "filter (\<lambda>(_, refs). refs \<noteq> []) (map (\<lambda>source. (source, reference_columns t source)) ts)"
  have refs: "reference_columns t T2 \<noteq> [] \<longleftrightarrow> (\<exists>c\<in>set (tbl_columns T2). col_references c = Some t)" for T2
  proof -
    have "reference_columns t T2 \<noteq> [] \<longleftrightarrow> (\<exists>x\<in>set (enumerate 0 (tbl_columns T2)). col_references (snd x) = Some t)"
      by (force simp: reference_columns_def filter_empty_conv)
    also have "\<dots> \<longleftrightarrow> (\<exists>c\<in>snd ` set (enumerate 0 (tbl_columns T2)). col_references c = Some t)" by blast
    finally show ?thesis by (metis list.set_map map_snd_enumerate)
  qed
  have "(\<forall>(source, _)\<in>set ?srcs. tbl_name source = t) \<longleftrightarrow>
      (\<forall>T2\<in>ran (db_tables D). reference_columns t T2 \<noteq> [] \<longrightarrow> tbl_name T2 = t)"
    by (auto simp: ts(2) [symmetric])
  also have "\<dots> \<longleftrightarrow> \<not> referenced t D"
    unfolding refs ran_def referenced_def using struct_table(1) [OF D(2)] by blast
  finally show thesis by (intro that [of ?srcs]) (simp_all add: table_references_def ts(1))
qed

lemma drop_table_holds:
  assumes D: "holds C s D" "db_ok D"
  shows "runs weak (local_drop_table K C t if_exists) s (\<lambda>r s'.
    if db_tables D t = None then holds C s' D \<and> (if if_exists then r = Ok False else rejected r)
    else if referenced t D then holds C s' D \<and> rejected r
    else r = Ok True \<and> holds C s' (drop_table t D) \<and> db_ok (drop_table t D))"
proof (cases "db_tables D t")
  case None
  with D(1) show ?thesis by (simp add: local_drop_table_def runs_def sbind_def get_table_holds)
next
  case (Some T)
  have struct: "struct_ok D" using D(2) by (simp add: db_ok_def)
  have T: "tbl_name T = t" by (rule struct_table(1) [OF struct Some])
  obtain srcs where srcs: "table_references K C t s = Ok srcs"
    and unreferenced: "(\<forall>(source, _)\<in>set srcs. tbl_name source = t) \<longleftrightarrow> \<not> referenced t D"
    by (rule table_references_holds [OF D(1) struct])
  let ?D1 = "D\<lparr>db_tables := (db_tables D)(t := None)\<rparr>"
  let ?D2 = "clear_prefix (PRow t) ?D1"
  let ?D3 = "?D2\<lparr>db_index := (\<lambda>(t', c, v). if t' = t \<and> c \<in> (\<lambda>x. col_name (snd x)) ` set (index_columns T) then {}
    else db_index ?D2 (t', c, v))\<rparr>"
  have "db_index D (t, c, v) = {}" if "c \<notin> (\<lambda>x. col_name (snd x)) ` set (index_columns T)" for c v
  proof -
    have "i \<in> db_index D (t, c, v) \<longleftrightarrow> (\<exists>x row. x \<in> set (index_columns T) \<and> col_name (snd x) = c \<and>
        db_rows D (t, i) = Some row \<and> row ! fst x = v)" for i
      using struct Some unfolding struct_ok_def index_ok_def by (simp del: split_paired_Ex)
    with that show ?thesis by blast
  qed
  then have fn: "(\<lambda>(t', c, v). if t' = t \<and> c \<in> (\<lambda>x. col_name (snd x)) ` set (index_columns T) then {} else db_index ?D2 (t', c, v)) =
      (\<lambda>(t', c, v). if t' = t then {} else db_index D (t', c, v))"
    by (auto simp: fun_eq_iff)
  have D3: "?D3 = drop_table t D" unfolding fn by (simp add: drop_table_def case_prod_unfold cong: if_cong)
  have row: "runs weak (delete_prefix K (PRow t)) s' (\<lambda>r s'. \<exists>u. r = Ok u \<and> holds C s' ?D2)" if "holds C s' ?D1" for s'
    using that by (rule delete_prefix_holds)
  have idx: "runs weak (sfor (index_columns T) (\<lambda>(_, c). delete_prefix K (PIndex t (col_name c)))) s'
      (\<lambda>r s'. \<exists>u. r = Ok u \<and> holds C s' (drop_table t D))" if "holds C s' ?D2" for s'
    using delete_indexes_holds [OF that, of "index_columns T" t] by (simp only: D3)
  have stored: "db_stored C (view s) D" using D(1) by (simp add: holds_def)
  have ok: "db_ok (drop_table t D)" if "\<not> referenced t D"
    using that by (intro db_ok_drop_table [OF D(2)]) (auto simp: referenced_def)
  have drop: "runs weak (sbind (kt_delete K (key_encode (KTable t))) (\<lambda>_. sbind (delete_prefix K (PRow t)) (\<lambda>_.
      sbind (sfor (index_columns T) (\<lambda>(_, c). delete_prefix K (PIndex t (col_name c)))) (\<lambda>_. sreturn True)))) s
    (\<lambda>r s'. r = Ok True \<and> holds C s' (drop_table t D) \<and> db_ok (drop_table t D))" if "\<not> referenced t D"
    by (rule runs_then [OF delete_holds [OF D(1) stored_drop_table [OF stored]]], rule runs_then [OF row], assumption,
        rule runs_then [OF idx]) (use ok [OF that] in simp_all)
  show ?thesis
    unfolding local_drop_table_def
    by (rule runs_read [where x = "Some T"], simp add: get_table_holds [OF D(1)] Some, simp only: option.case T,
        rule runs_read [where x = srcs], rule srcs, unfold unreferenced)
      (use drop D(1) Some in \<open>cases "referenced t D"; simp add: ensure_def\<close>)
qed

end

end
