(* ===== verification/SqlCalls.thy ===== *)
theory SqlCalls
  imports SqlCatalog
begin

text \<open>
  The calls of the SQL storage engine as one type, with their effect on the abstract database.
  \<open>contents\<close> reads the abstract database off the keys a transaction sees.
\<close>

datatype sql_call =
    CallCreate sql_table
  | CallDrop string bool
  | CallInsert string "sql_row list"
  | CallDelete string "sql_value list"
  | CallUpdate string "(sql_value \<times> sql_row) list"

fun run_call :: "'s kv_txn \<Rightarrow> sql_codec \<Rightarrow> sql_call \<Rightarrow> ('s, unit) op" where
  "run_call K C (CallCreate T) = local_create_table K C T"
| "run_call K C (CallDrop t if_exists) = sbind (local_drop_table K C t if_exists) (\<lambda>_. sreturn ())"
| "run_call K C (CallInsert t rows) = local_insert K C t rows"
| "run_call K C (CallDelete t ids) = local_delete K C t ids"
| "run_call K C (CallUpdate t rows) = local_update K C t rows"

text \<open>
  What the engine relies on and does not check. The executor passes the primary keys of rows it has read, each
  once, and no value is a NaN other than the standard one. A schema names its indexed columns apart and an update sets
  no primary key to a negative zero; sessions do not guarantee these two, and the engine misbehaves without them.
\<close>

fun call_ok :: "sql_call \<Rightarrow> sql_db \<Rightarrow> bool" where
  "call_ok (CallCreate T) D = index_names_distinct T"
| "call_ok (CallDrop t if_exists) D = True"
| "call_ok (CallInsert t rows) D = (\<forall>row\<in>set rows. list_all plain_value row)"
| "call_ok (CallDelete t ids) D = (case db_tables D t of None \<Rightarrow> True | Some T \<Rightarrow> \<forall>i\<in>set ids. is_key T i)"
| "call_ok (CallUpdate t rows) D = (case db_tables D t of None \<Rightarrow> True | Some T \<Rightarrow> updates_ok T rows D)"

text \<open>Whether the call is accepted, and the database it leaves.\<close>

fun call_spec :: "sql_call \<Rightarrow> sql_db \<Rightarrow> bool \<times> sql_db" where
  "call_spec (CallCreate T) D = create_table T D"
| "call_spec (CallDrop t if_exists) D =
     (if db_tables D t = None then (if_exists, D) else if referenced t D then (False, D) else (True, drop_table t D))"
| "call_spec (CallInsert t rows) D = (case db_tables D t of None \<Rightarrow> (False, D) | Some T \<Rightarrow> apply_rows (insert_row T) rows D)"
| "call_spec (CallDelete t ids) D = (case db_tables D t of None \<Rightarrow> (False, D) | Some T \<Rightarrow> delete_rows T ids D)"
| "call_spec (CallUpdate t rows) D = (case db_tables D t of None \<Rightarrow> (False, D) | Some T \<Rightarrow> apply_rows (update_row T) rows D)"

text \<open>The database stored in the keys of a transaction.\<close>

definition contents_of :: "sql_codec \<Rightarrow> (bytes \<Rightarrow> bytes option) \<Rightarrow> sql_db" where
  "contents_of C V = \<lparr>
     db_tables = (\<lambda>t. map_option (\<lambda>b. unwrap (dec_table C b)) (V (key_encode (KTable t)))),
     db_rows = (\<lambda>(t, i). if normalize_value i = i
       then map_option (\<lambda>b. unwrap (dec_values C b)) (V (key_encode (KRow t i))) else None),
     db_index = (\<lambda>(t, c, v). if normalize_value v = v
       then (case V (key_encode (KIndex t c v)) of None \<Rightarrow> {} | Some b \<Rightarrow> set (unwrap (dec_values C b))) else {})\<rparr>"

lemma contents_of_stored:
  assumes "sql_codec_ok C" "db_stored C V D" "db_ok D"
  shows "contents_of C V = D"
proof (rule sql_db.equality)
  have struct: "struct_ok D" using assms(3) by (simp add: db_ok_def)
  show "db_tables (contents_of C V) = db_tables D"
    using assms(1,2) by (auto simp: contents_of_def db_stored_def sql_codec_ok_def fun_eq_iff option.map_comp comp_def option.map_ident)
  show "db_rows (contents_of C V) = db_rows D"
  proof (rule ext, clarify)
    fix t i
    have "db_rows D (t, i) = None" if "normalize_value i \<noteq> i"
    proof (rule ccontr)
      assume some: "db_rows D (t, i) \<noteq> None"
      then obtain row where row: "db_rows D (t, i) = Some row" by blast
      obtain T where "db_tables D t = Some T" using stored_row_table [OF struct some] by blast
      from stored_row(4) [OF struct row this] that show False by (simp add: canonical_def)
    qed
    with assms(1,2) show "db_rows (contents_of C V) (t, i) = db_rows D (t, i)"
      by (auto simp: contents_of_def db_stored_def sql_codec_ok_def option.map_comp comp_def option.map_ident)
  qed
  show "db_index (contents_of C V) = db_index D"
  proof (rule ext, clarify)
    fix t c v
    show "db_index (contents_of C V) (t, c, v) = db_index D (t, c, v)"
    proof (cases "normalize_value v = v")
      case True
      have "index_entry C (db_index D (t, c, normalize_value v)) (V (key_encode (KIndex t c v)))"
        using assms(2) by (simp add: db_stored_def)
      with True assms(1) show ?thesis
        by (auto simp: contents_of_def index_entry_def sql_codec_ok_def split: option.splits)
    next
      case False
      have "db_index D (t, c, v) = {}"
      proof (rule ccontr)
        assume "db_index D (t, c, v) \<noteq> {}"
        then obtain i where i: "i \<in> db_index D (t, c, v)" by blast
        obtain T x row where T: "db_tables D t = Some T" "x \<in> set (index_columns T)"
          and row: "db_rows D (t, i) = Some row" "row ! fst x = v"
          using struct i unfolding struct_ok_def index_ok_def by blast
        have "fst x < length row"
          using T(2) index_columns_iff [of "fst x" "snd x" T] row_typed_length [OF stored_row(1) [OF struct row(1) T(1)]] by simp
        with stored_row(2) [OF struct row(1) T(1)] row(2) False show False by (auto simp: list_all_length canonical_def)
      qed
      with False show ?thesis by (simp add: contents_of_def)
    qed
  qed
qed simp

context kv_transaction
begin

lemma call_holds:
  assumes D: "holds C s D" "db_ok D" and ok: "call_ok call D"
  shows "runs weak (run_call K C call) s (settles C (call_spec call D))"
proof (cases call)
  case (CallCreate T)
  with create_table_holds [OF D] ok show ?thesis by simp
next
  case (CallDrop t if_exists)
  from drop_table_holds [OF D, of t if_exists]
  have "runs weak (sbind (local_drop_table K C t if_exists) (\<lambda>_. sreturn ())) s (settles C (call_spec call D))"
    using D(2) by (auto simp: CallDrop runs_def sbind_def settles_def rejected_def failed_def split: prod.splits result.splits if_splits)
  then show ?thesis by (simp add: CallDrop)
next
  case (CallInsert t rows)
  with local_insert_holds [OF D] ok show ?thesis by simp
next
  case (CallDelete t ids)
  with local_delete_holds [OF D, of t ids] ok show ?thesis by (cases "db_tables D t") simp_all
next
  case (CallUpdate t rows)
  with local_update_holds [OF D, of t rows] ok show ?thesis by (cases "db_tables D t") simp_all
qed

text \<open>The reads of a consistent database.\<close>

lemma lookup_index_rows:
  assumes "holds C s D" "db_ok D" "db_tables D t = Some T" "n < length (tbl_columns T)" "col_index (tbl_columns T ! n)"
  obtains ids where "local_lookup_index K C t (col_name (tbl_columns T ! n)) vs s = Ok ids"
    "set ids = {i. \<exists>row. db_rows D (t, i) = Some row \<and> row ! n \<in> normalize_value ` set vs}"
proof -
  have struct: "struct_ok D" using assms(2) by (simp add: db_ok_def)
  have x: "(n, tbl_columns T ! n) \<in> set (index_columns T)" using assms(4,5) by (simp add: index_columns_iff)
  obtain ids where ids: "local_lookup_index K C t (col_name (tbl_columns T ! n)) vs s = Ok ids"
    "set ids = (\<Union>v\<in>set vs. db_index D (t, col_name (tbl_columns T ! n), normalize_value v))"
    by (rule lookup_holds [OF assms(1) struct])
  have "set ids = {i. \<exists>row. db_rows D (t, i) = Some row \<and> row ! n \<in> normalize_value ` set vs}"
    using struct_index [OF struct assms(3) x] by (auto simp: ids(2) col_set_def)
  with ids(1) show thesis by (rule that)
qed

lemma scan_rows:
  assumes "holds C s D" "db_ok D"
  obtains rows where "local_scan K C F t None s = Ok (map Ok rows)" "set rows = {row. \<exists>i. db_rows D (t, i) = Some row}"
proof -
  have struct: "struct_ok D" using assms(2) by (simp add: db_ok_def)
  obtain rows where rows: "local_scan K C F t None s = Ok (map Ok rows)"
    "set rows = {row. \<exists>i. db_rows D (t, normalize_value i) = Some row}"
    by (rule local_scan_holds [OF assms(1), of F t])
  have "db_rows D (t, i) = Some row \<Longrightarrow> db_rows D (t, normalize_value i) = Some row" for i row
    using stored_row_table [OF struct, of t i] stored_row(4) [OF struct, of t i row] by (auto simp: canonical_def)
  then have "set rows = {row. \<exists>i. db_rows D (t, i) = Some row}" using rows(2) by auto
  with rows(1) show thesis by (rule that)
qed

end

end
