(* ===== verification/SqlSerial.thy ===== *)
theory SqlSerial
  imports SqlCalls
begin

text \<open>
  Transactions that run one after the other on a BitCask database. Alone, a transaction never
  meets a conflict: a second interpretation of \<open>kv_transaction\<close>, in which no write fails. What a
  commit leaves is what the next transaction sees; a rollback restores what the last one saw.
\<close>

section \<open>A transaction alone\<close>

definition rest_invar :: "codec \<Rightarrow> bitcask \<Rightarrow> bool" where
  "rest_invar c e = (codec_ok c \<and> (\<exists>K. bc.mv.repr e K \<and> mv_inv c K \<and> a_active K = {}))"

definition serial_invar :: "codec \<Rightarrow> txn_state \<Rightarrow> bitcask \<Rightarrow> bool" where
  "serial_invar c t e = (codec_ok c \<and> \<not> read_only t \<and> (\<exists>K. bc.mv.repr e K \<and> mv_inv c K \<and> txn_ok c K t \<and>
     a_active K = {version t} \<and> (\<forall>key. \<forall>u\<in>versions_of K key. is_visible t u)))"

text \<open>What a new transaction would read, and what the open one read when it began.\<close>

definition committed_view :: "codec \<Rightarrow> bitcask \<Rightarrow> bytes \<Rightarrow> bytes option" where
  "committed_view c e = mvcc_view c (unwrap (begin_read_only bitcask_engine c None e)) e"

definition base_view :: "codec \<Rightarrow> txn_state \<Rightarrow> bitcask \<Rightarrow> bytes \<Rightarrow> bytes option" where
  "base_view c t e = mvcc_view c \<lparr>version = version t, read_only = True, active = active t\<rparr> e"

lemma mvcc_view_eq: "bc.mv.repr e K \<Longrightarrow> mvcc_view c t e key = unwrap (a_get c t key K)"
  by (simp add: mvcc_view_def bc.get_effect)

lemma mvcc_view_cong: "bc.mv.repr e K \<Longrightarrow> bc.mv.repr e' K' \<Longrightarrow> vis K t = vis K' t' \<Longrightarrow> mvcc_view c t e = mvcc_view c t' e'"
proof -
  assume *: "bc.mv.repr e K" "bc.mv.repr e' K'" "vis K t = vis K' t'"
  have "a_get c t key K = a_get c t' key K'" for key using *(3) by (simp only: a_get_vis)
  with * show ?thesis by (simp add: fun_eq_iff mvcc_view_eq)
qed

lemma rest_new: "codec_ok c \<Longrightarrow> rest_invar c (bitcask_new [])"
  unfolding rest_invar_def using bc_repr_new mv_inv_empty [of c] by (auto simp: a_active_def)

lemma version_bound: "mv_inv c K \<Longrightarrow> u \<in> versions_of K key \<Longrightarrow> u < a_next c K"
  by (auto simp: mv_inv_def allocated_def)

lemma serial_vis:
  assumes "\<forall>key. \<forall>u\<in>versions_of K key. is_visible t u"
  shows "vis K t = (\<lambda>key u. K (Version key u))"
proof (intro ext)
  fix key u
  show "vis K t key u = K (Version key u)"
    using assms by (cases "K (Version key u)") (auto simp: vis_def versions_of_def)
qed

text \<open>With no transaction open, a new one sees every version.\<close>

lemma committed_repr:
  assumes "codec_ok c" "bc.mv.repr e K" "mv_inv c K" "a_active K = {}"
  shows "vis K (unwrap (begin_read_only bitcask_engine c None e)) = (\<lambda>key u. K (Version key u))"
proof -
  have "next_ok c K" using assms(3) by (simp add: mv_inv_def values_ok_def)
  then have "begin_read_only bitcask_engine c None e = Ok \<lparr>version = a_next c K, read_only = True, active = {}\<rparr>"
    using bc.begin_read_only_effect(1) [OF assms(1,2)] assms(4) by simp
  then show ?thesis
    using version_bound [OF assms(3)] by (intro serial_vis) (simp add: is_visible_def)
qed

lemma serial_begin:
  assumes "rest_invar c e" "next_version bitcask_engine c e \<noteq> Ok u64_max" "txn_begin bitcask_engine c e = (Ok t, e')"
  shows "serial_invar c t e'" "mvcc_view c t e' = committed_view c e" "base_view c t e' = committed_view c e"
proof -
  obtain K where c: "codec_ok c" and K: "bc.mv.repr e K" "mv_inv c K" "a_active K = {}"
    using assms(1) by (auto simp: rest_invar_def)
  have n: "next_ok c K" using K(2) by (simp add: mv_inv_def values_ok_def)
  have nx: "a_next c K \<noteq> u64_max" using bc.repr_next [OF c K(1) n] assms(2) by auto
  have t: "t = \<lparr>version = a_next c K, read_only = False, active = {}\<rparr>" and e': "bc.mv.repr e' (a_begin c K)"
    using bc.begin_effect [OF c K(1) n] assms(3) K(3) by auto
  have inv: "mv_inv c (a_begin c K)" "txn_ok c (a_begin c K) t"
    using begin_inv [OF c K(2) nx] begin_txn [OF c K(2) nx] K(3) by (simp_all add: t)
  have vis: "\<forall>key. \<forall>u\<in>versions_of (a_begin c K) key. is_visible t u"
    using version_bound [OF K(2)] by (auto simp: begin_fields [OF c K(2)] is_visible_def t less_imp_le)
  show "serial_invar c t e'"
    unfolding serial_invar_def using c e' inv vis K(3) by (auto simp: begin_fields [OF c K(2)] t)
  show "mvcc_view c t e' = committed_view c e"
    unfolding committed_view_def
    by (rule mvcc_view_cong [OF e' K(1)])
      (simp add: serial_vis [OF vis] committed_repr [OF c K] a_begin_simps)
  have "vis (a_begin c K) \<lparr>version = version t, read_only = True, active = active t\<rparr> = (\<lambda>key u. a_begin c K (Version key u))"
    using version_bound [OF K(2)] by (intro serial_vis) (simp add: is_visible_def t begin_fields [OF c K(2)])
  then show "base_view c t e' = committed_view c e"
    unfolding committed_view_def base_view_def
    by (intro mvcc_view_cong [OF e' K(1)]) (simp add: committed_repr [OF c K] a_begin_simps)
qed

lemma serial_end:
  assumes "serial_invar c t e"
  shows "commit bitcask_engine t e = (Ok (), e') \<Longrightarrow> rest_invar c e' \<and> committed_view c e' = mvcc_view c t e"
    and "rollback bitcask_engine t e = (Ok (), e') \<Longrightarrow> rest_invar c e' \<and> committed_view c e' = base_view c t e"
proof -
  obtain K where c: "codec_ok c" "\<not> read_only t" and K: "bc.mv.repr e K" "mv_inv c K" "txn_ok c K t" "a_active K = {version t}"
    and vis: "\<forall>key. \<forall>u\<in>versions_of K key. is_visible t u"
    using assms by (auto simp: serial_invar_def)
  have act: "version t \<in> a_active K" using K(4) by simp
  let ?C = "a_commit (version t) K" and ?R = "a_rollback (version t) K"
  have none: "a_active ?C = {}" "a_active ?R = {}" using K(4) by (simp_all add: end_fields)
  note inv = commit_inv [OF K(2) act] rollback_inv [OF K(2) act]
  show "rest_invar c e' \<and> committed_view c e' = mvcc_view c t e" if "commit bitcask_engine t e = (Ok (), e')"
  proof -
    have e': "bc.mv.repr e' ?C" using bc.commit_effect [OF K(1) c(2)] that by auto
    show ?thesis
      unfolding rest_invar_def committed_view_def using c e' inv none
      by (auto intro!: mvcc_view_cong [OF e' K(1)] simp: committed_repr [OF c(1) e' inv(1) none(1)] serial_vis [OF vis] end_simps)
  qed
  show "rest_invar c e' \<and> committed_view c e' = base_view c t e" if "rollback bitcask_engine t e = (Ok (), e')"
  proof -
    have e': "bc.mv.repr e' ?R" using bc.rollback_effect [OF K(1) c(2)] that by auto
    have "vis K \<lparr>version = version t, read_only = True, active = active t\<rparr> = (\<lambda>key u. ?R (Version key u))"
    proof (intro ext)
      fix key u
      show "vis K \<lparr>version = version t, read_only = True, active = active t\<rparr> key u = ?R (Version key u)"
      proof (cases "K (Version key u)")
        case (Some b)
        then have "is_visible t u" using vis by (auto simp: versions_of_def)
        with c(2) show ?thesis
          by (auto simp: vis_def is_visible_def rollback_versions [OF K(2) act] order_le_less split: if_splits)
      qed (auto simp: vis_def rollback_versions [OF K(2) act])
    qed
    then show ?thesis
      unfolding rest_invar_def committed_view_def base_view_def using c e' inv none
      by (auto intro!: mvcc_view_cong [OF e' K(1)] simp: committed_repr [OF c(1) e' inv(2) none(2)])
  qed
qed

lemma serial_write:
  assumes "serial_invar c t e" "write_version bitcask_engine c t key x e = (r, e')"
  shows "serial_invar c t e' \<and> base_view c t e' = base_view c t e \<and>
    write_effect False r (mvcc_view c t e) ((mvcc_view c t e)(key := x)) (mvcc_view c t e')"
proof -
  obtain K where c: "codec_ok c" "\<not> read_only t" and K: "bc.mv.repr e K" "mv_inv c K" "txn_ok c K t" "a_active K = {version t}"
    and vis: "\<forall>key. \<forall>u\<in>versions_of K key. is_visible t u"
    using assms(1) by (auto simp: serial_invar_def)
  let ?K' = "a_write c (version t) key x K"
  have own: "is_visible t (version t)" by (rule own_visible [OF K(3) c(2)])
  have e': "r = Ok ()" "bc.mv.repr e' ?K'"
    using bc.write_cases(1) [OF K(1-3) c(2), of key x] vis assms(2) by auto
  have inv': "mv_inv c ?K'" using vis by (intro write_inv [OF K(2,3) c(2)]) simp
  have vis': "\<forall>key. \<forall>u\<in>versions_of ?K' key. is_visible t u"
    using vis own by (auto simp: write_fields)
  have "serial_invar c t e'"
    unfolding serial_invar_def using c e'(2) inv' write_txn [OF K(3)] K(4) vis' by (auto simp: write_fields)
  moreover have "base_view c t e' = base_view c t e"
    unfolding base_view_def
    by (rule mvcc_view_cong [OF e'(2) K(1)]) (auto simp: vis_def is_visible_def a_write_simps fun_eq_iff)
  moreover have "mvcc_view c t e' = (mvcc_view c t e)(key := x)"
  proof (rule ext)
    fix key'
    show "mvcc_view c t e' key' = ((mvcc_view c t e)(key := x)) key'"
    proof (cases "key' = key")
      case True
      have "a_get c t key ?K' = dec_value c (the (?K' (Version key (version t))))"
        using vis own c(2) by (intro a_get_latest) (auto simp: write_fields is_visible_def split: if_splits)
      with True c(1) show ?thesis by (simp add: mvcc_view_eq [OF e'(2)] a_write_simps codec_ok_def)
    next
      case False
      then have "a_get c t key' ?K' = a_get c t key' K"
        by (simp add: a_get_def write_fields a_write_simps split: option.split)
      with False show ?thesis by (simp add: mvcc_view_eq [OF e'(2)] mvcc_view_eq [OF K(1)])
    qed
  qed
  ultimately show ?thesis using e'(1) by (simp add: write_effect_def)
qed

interpretation serial: kv_transaction False "mvcc_kv bitcask_engine c t" "mvcc_view c t"
  "\<lambda>e. serial_invar c t e \<and> base_view c t e = B" for c t B
proof
  fix s k v r s' p
  assume inv: "serial_invar c t s \<and> base_view c t s = B"
  then obtain K where c: "codec_ok c" and K: "bc.mv.repr s K" "mv_inv c K" by (auto simp: serial_invar_def)
  show "kt_get (mvcc_kv bitcask_engine c t) k s = Ok (mvcc_view c t s k)"
    using a_get_Ok [OF c K(2), of t k] by (auto simp: mvcc_kv_def mvcc_view_def bc.get_effect [OF K(1)])
  show "(serial_invar c t s' \<and> base_view c t s' = B) \<and>
      write_effect False r (mvcc_view c t s) ((mvcc_view c t s)(k \<mapsto> v)) (mvcc_view c t s')"
    if "kt_set (mvcc_kv bitcask_engine c t) k v s = (r, s')"
    using serial_write [of c t s] inv that by (simp add: mvcc_kv_def txn_set_def)
  show "(serial_invar c t s' \<and> base_view c t s' = B) \<and>
      write_effect False r (mvcc_view c t s) ((mvcc_view c t s)(k := None)) (mvcc_view c t s')"
    if "kt_delete (mvcc_kv bitcask_engine c t) k s = (r, s')"
    using serial_write [of c t s] inv that by (simp add: mvcc_kv_def txn_delete_def)
  obtain out where "kt_scan_prefix (mvcc_kv bitcask_engine c t) p s = map Ok out" "bt_wf out"
    "\<And>key. map_of out key = (if \<exists>q. key = p @ q then unwrap (txn_get bitcask_engine c t key s) else None)"
    by (rule bc.mvcc_scan [OF c K(2,1), of t p]) blast
  then show "\<exists>out. kt_scan_prefix (mvcc_kv bitcask_engine c t) p s = map Ok out \<and> distinct (map fst out) \<and>
      (\<forall>k. map_of out k = (if \<exists>q. k = p @ q then mvcc_view c t s k else None))"
    by (intro exI [of _ out]) (simp add: bt_wf_distinct mvcc_view_def)
qed

section \<open>Serial runs\<close>

datatype sql_event =
    SBegin txn_state
  | SCall sql_call "unit result"
  | SCommit
  | SRollback

text \<open>A database and its open transaction, and the events of a client.\<close>

inductive serial_step ::
  "codec \<Rightarrow> sql_codec \<Rightarrow> bitcask \<times> txn_state option \<Rightarrow> sql_event \<Rightarrow> bitcask \<times> txn_state option \<Rightarrow> bool"
  for c C where
  serial_begins: "next_version bitcask_engine c e \<noteq> Ok u64_max \<Longrightarrow> txn_begin bitcask_engine c e = (Ok t, e') \<Longrightarrow>
    serial_step c C (e, None) (SBegin t) (e', Some t)"
| serial_calls: "call_ok call (contents_of C (mvcc_view c t e)) \<Longrightarrow> run_call (mvcc_kv bitcask_engine c t) C call e = (r, e') \<Longrightarrow>
    serial_step c C (e, Some t) (SCall call r) (e', Some t)"
| serial_commits: "commit bitcask_engine t e = (Ok (), e') \<Longrightarrow> serial_step c C (e, Some t) SCommit (e', None)"
| serial_rolls_back: "rollback bitcask_engine t e = (Ok (), e') \<Longrightarrow> serial_step c C (e, Some t) SRollback (e', None)"

inductive serial_run ::
  "codec \<Rightarrow> sql_codec \<Rightarrow> bitcask \<times> txn_state option \<Rightarrow> sql_event list \<Rightarrow> bitcask \<times> txn_state option \<Rightarrow> bool"
  for c C where
  serial_nil: "serial_run c C s [] s"
| serial_snoc: "serial_run c C s evs s' \<Longrightarrow> serial_step c C s' ev s'' \<Longrightarrow> serial_run c C s (evs @ [ev]) s''"

text \<open>The same events on the abstract database: the committed one and the one of the open transaction.\<close>

inductive db_step :: "sql_db \<times> sql_db option \<Rightarrow> sql_event \<Rightarrow> sql_db \<times> sql_db option \<Rightarrow> bool" where
  db_begins: "db_step (D, None) (SBegin t) (D, Some D)"
| db_calls: "if fst (call_spec call E) then r = Ok () else rejected r \<Longrightarrow>
    db_step (D, Some E) (SCall call r) (D, Some (snd (call_spec call E)))"
| db_commits: "db_step (D, Some E) SCommit (E, None)"
| db_rolls_back: "db_step (D, Some E) SRollback (D, None)"

inductive db_run :: "sql_db \<times> sql_db option \<Rightarrow> sql_event list \<Rightarrow> sql_db \<times> sql_db option \<Rightarrow> bool" where
  db_nil: "db_run s [] s"
| db_snoc: "db_run s evs s' \<Longrightarrow> db_step s' ev s'' \<Longrightarrow> db_run s (evs @ [ev]) s''"

definition stores :: "sql_codec \<Rightarrow> (bytes \<Rightarrow> bytes option) \<Rightarrow> sql_db \<Rightarrow> bool" where
  "stores C V D = (sql_codec_ok C \<and> db_stored C V D \<and> db_ok D)"

lemma stores_contents: "stores C V D \<Longrightarrow> contents_of C V = D"
  by (simp add: stores_def contents_of_stored)

definition serial_sim ::
  "codec \<Rightarrow> sql_codec \<Rightarrow> bitcask \<times> txn_state option \<Rightarrow> sql_db \<times> sql_db option \<Rightarrow> bool" where
  "serial_sim c C s a = (case s of
      (e, None) \<Rightarrow> rest_invar c e \<and> stores C (committed_view c e) (fst a) \<and> snd a = None
    | (e, Some t) \<Rightarrow> serial_invar c t e \<and> stores C (base_view c t e) (fst a) \<and>
        (\<exists>E. snd a = Some E \<and> stores C (mvcc_view c t e) E))"

lemma serial_call:
  assumes "serial_invar c t e" "stores C (mvcc_view c t e) E" "call_ok call E"
    and "run_call (mvcc_kv bitcask_engine c t) C call e = (r, e')"
  shows "serial_invar c t e' \<and> base_view c t e' = base_view c t e \<and> stores C (mvcc_view c t e') (snd (call_spec call E)) \<and>
    (if fst (call_spec call E) then r = Ok () else rejected r)"
proof -
  have E: "kv_transaction.holds (mvcc_view c t) (\<lambda>s. serial_invar c t s \<and> base_view c t s = base_view c t e) C e E" "db_ok E"
    using assms(1,2) by (simp_all add: serial.holds_def stores_def)
  from serial.call_holds [OF E assms(3)] show ?thesis
    using assms(2,4) by (auto simp: runs_def serial.settles_def serial.holds_def stores_def)
qed

lemma serial_sim_step:
  assumes "serial_step c C s ev s'" "serial_sim c C s a"
  shows "\<exists>a'. db_step a ev a' \<and> serial_sim c C s' a'"
  using assms(1)
proof (cases rule: serial_step.cases)
  case (serial_begins e t e')
  with assms(2) obtain D where "a = (D, None)" "rest_invar c e" "stores C (committed_view c e) D"
    by (cases a) (auto simp: serial_sim_def)
  with serial_begins serial_begin [of c e t e'] show ?thesis
    by (intro exI [of _ "(D, Some D)"]) (simp add: serial_sim_def db_step.simps)
next
  case (serial_calls call t e r e')
  with assms(2) obtain D E where a: "a = (D, Some E)" "serial_invar c t e" "stores C (base_view c t e) D" "stores C (mvcc_view c t e) E"
    by (cases a) (auto simp: serial_sim_def)
  with serial_call [of c t e C E call r e'] serial_calls stores_contents [OF a(4)] show ?thesis
    by (intro exI [of _ "(D, Some (snd (call_spec call E)))"]) (auto simp: serial_sim_def db_step.simps)
next
  case (serial_commits t e e')
  with assms(2) obtain D E where "a = (D, Some E)" "serial_invar c t e" "stores C (mvcc_view c t e) E"
    by (cases a) (auto simp: serial_sim_def)
  with serial_commits serial_end(1) [of c t e e'] show ?thesis
    by (intro exI [of _ "(E, None)"]) (simp add: serial_sim_def db_step.simps)
next
  case (serial_rolls_back t e e')
  with assms(2) obtain D E where "a = (D, Some E)" "serial_invar c t e" "stores C (base_view c t e) D"
    by (cases a) (auto simp: serial_sim_def)
  with serial_rolls_back serial_end(2) [of c t e e'] show ?thesis
    by (intro exI [of _ "(D, None)"]) (simp add: serial_sim_def db_step.simps)
qed

lemma committed_new: "codec_ok c \<Longrightarrow> committed_view c (bitcask_new []) = (\<lambda>_. None)"
  using committed_repr [OF _ bc_repr_new mv_inv_empty, of c]
  by (simp add: committed_view_def fun_eq_iff mvcc_view_eq [OF bc_repr_new] a_get_vis latest_def a_active_def)

lemma serial_sim_run:
  assumes "codec_ok c" "sql_codec_ok C" "serial_run c C (bitcask_new [], None) evs s"
  shows "\<exists>a. db_run (empty_db, None) evs a \<and> serial_sim c C s a"
  using assms(3)
proof (induction "(bitcask_new [], None :: txn_state option)" evs s rule: serial_run.induct)
  case serial_nil
  have "serial_sim c C (bitcask_new [], None) (empty_db, None)"
    using assms rest_new committed_new empty_stored [of C] db_ok_empty by (simp add: serial_sim_def stores_def)
  then show ?case by (blast intro: db_nil)
next
  case (serial_snoc evs s ev s')
  then show ?case using serial_sim_step [of c C s ev s'] by (meson db_snoc)
qed

section \<open>Properties\<close>

text \<open>The database a transaction sees, and that it is stored consistently.\<close>

definition seen_db :: "codec \<Rightarrow> sql_codec \<Rightarrow> txn_state \<Rightarrow> bitcask \<Rightarrow> sql_db" where
  "seen_db c C t e = contents_of C (mvcc_view c t e)"

definition seen_ok :: "codec \<Rightarrow> sql_codec \<Rightarrow> txn_state \<Rightarrow> bitcask \<Rightarrow> bool" where
  "seen_ok c C t e = (mvcc_invar c t e \<and> stores C (mvcc_view c t e) (seen_db c C t e))"

lemma seen_ok_iff: "seen_ok c C t e \<longleftrightarrow> mvcc_invar c t e \<and> (\<exists>D. stores C (mvcc_view c t e) D)"
  unfolding seen_ok_def seen_db_def using stores_contents by metis

lemma seen_holds:
  assumes "seen_ok c C t e"
  shows "kv_transaction.holds (mvcc_view c t) (mvcc_invar c t) C e (seen_db c C t e)" "db_ok (seen_db c C t e)"
  using assms by (simp_all add: seen_ok_def mvcc.holds_def stores_def)

text \<open>
  Property C6. A create, drop, insert, delete or update of the storage engine that keeps to \<open>call_ok\<close>, in any
  transaction that may run beside others on BitCask, on a consistent database: unless it fails with a conflict or
  another error of the transaction, it answers as the abstract database does, the transaction sees exactly the database
  the specification gives, and that database is consistent again. The engine never panics. \<open>call_ok\<close> asks
  what the engine does not check: a created table has different names for its indexed columns; inserted and updated
  values are no NaNs but the standard one; deleted and updated rows are given by their keys as they are stored, the
  updated ones exist and are given once; and an update sets no primary key to a negative zero or NaN. Without the first
  and the last the statement fails (\<open>SqlDemo.duplicate_columns_accepted\<close>, and the check of unique columns in \<^verbatim>\<open>Table::validate_row\<close>).
\<close>

theorem call_refines:
  assumes "seen_ok c C t e" "call_ok call (seen_db c C t e)"
    and "run_call (mvcc_kv bitcask_engine c t) C call e = (r, e')"
  shows "failed r \<or> (if fst (call_spec call (seen_db c C t e)) then r = Ok () else rejected r) \<and>
    seen_ok c C t e' \<and> seen_db c C t e' = snd (call_spec call (seen_db c C t e))"
proof -
  note D = seen_holds [OF assms(1)]
  have "failed r \<or> kv_transaction.settles (mvcc_view c t) (mvcc_invar c t) C (call_spec call (seen_db c C t e)) r e'"
    using mvcc.call_holds [OF D assms(2)] assms(3) by (simp add: runs_def)
  then show ?thesis
    using stores_contents [of C "mvcc_view c t e'"]
    by (auto simp: mvcc.settles_def mvcc.holds_def seen_ok_iff seen_db_def stores_def split: if_splits)
qed

text \<open>
  Property C7. Transactions one after the other on a new BitCask database, whose writes keep to \<open>call_ok\<close> (as in the
  property before) and with version numbers left: any sequence of begins, writes, commits and rollbacks gets the answers
  of the abstract database, in which a commit publishes the transaction's database and a rollback discards it. No such
  write fails but by being rejected, none panics, and the committed database is always consistent.
\<close>

theorem serial_refines:
  assumes "codec_ok c" "sql_codec_ok C" "serial_run c C (bitcask_new [], None) evs (e, x)"
  shows "\<exists>D y. db_run (empty_db, None) evs (D, y) \<and> db_ok D \<and> (case x of
      None \<Rightarrow> y = None \<and> contents_of C (committed_view c e) = D
    | Some t \<Rightarrow> y = Some (contents_of C (mvcc_view c t e)) \<and> db_ok (contents_of C (mvcc_view c t e)))"
proof -
  obtain D y where "db_run (empty_db, None) evs (D, y)" "serial_sim c C (e, x) (D, y)"
    using serial_sim_run [OF assms] by auto
  then show ?thesis
    by (intro exI [of _ D] exI [of _ y])
      (auto simp: serial_sim_def stores_def contents_of_stored split: option.splits)
qed

text \<open>
  Property C8. The reads of a consistent database: a scan returns the rows of the table, a lookup by primary
  key the rows with these keys, and an index lookup the primary keys of exactly the rows with one
  of the values in the column.
\<close>

theorem reads_agree:
  assumes "seen_ok c C t e" "D = seen_db c C t e" "K = mvcc_kv bitcask_engine c t"
    and "db_tables D name = Some T" "n < length (tbl_columns T)" "col_index (tbl_columns T ! n)"
  shows "(\<exists>rows. local_scan K C F name None e = Ok (map Ok rows) \<and> set rows = {row. \<exists>i. db_rows D (name, i) = Some row}) \<and>
    local_get K C name ids e = Ok (List.map_filter (\<lambda>i. db_rows D (name, normalize_value i)) ids) \<and>
    (\<exists>found. local_lookup_index K C name (col_name (tbl_columns T ! n)) vs e = Ok found \<and>
      set found = {i. \<exists>row. db_rows D (name, i) = Some row \<and> row ! n \<in> normalize_value ` set vs})"
proof -
  note D = seen_holds [OF assms(1), folded assms(2)]
  obtain rows where "local_scan K C F name None e = Ok (map Ok rows)" "set rows = {row. \<exists>i. db_rows D (name, i) = Some row}"
    unfolding assms(3) by (rule mvcc.scan_rows [OF D, of F name])
  moreover obtain found where "local_lookup_index K C name (col_name (tbl_columns T ! n)) vs e = Ok found"
    "set found = {i. \<exists>row. db_rows D (name, i) = Some row \<and> row ! n \<in> normalize_value ` set vs}"
    unfolding assms(3) by (rule mvcc.lookup_index_rows [OF D assms(4-6), of vs])
  ultimately show ?thesis using mvcc.local_get_holds [OF D(1), of name ids] unfolding assms(3) by blast
qed

end
