(* ===== verification/SqlDemo.thy ===== *)
theory SqlDemo
  imports SqlSerial
begin

text \<open>
  A codec of table schemas and rows built from coders of their parts, a table that refers to
  itself, and the states of a transaction that creates it and inserts two rows: the hypotheses of
  the properties of the storage engine hold there.
\<close>

section \<open>A codec\<close>

record 'a coder =
  enc :: "'a \<Rightarrow> bytes"
  dec :: "bytes \<Rightarrow> 'a \<times> bytes"

definition coder_ok :: "'a coder \<Rightarrow> bool" where
  "coder_ok k = (\<forall>x r. dec k (enc k x @ r) = (x, r))"

named_theorems coder

lemma coder_dec [simp]: "coder_ok k \<Longrightarrow> dec k (enc k x @ r) = (x, r)"
  by (simp add: coder_ok_def)

definition via :: "'a coder \<Rightarrow> ('b \<Rightarrow> 'a) \<Rightarrow> ('a \<Rightarrow> 'b) \<Rightarrow> 'b coder" where
  "via k f g = \<lparr>enc = (\<lambda>x. enc k (f x)), dec = (\<lambda>b. case dec k b of (x, r) \<Rightarrow> (g x, r))\<rparr>"

definition coder_pair :: "'a coder \<Rightarrow> 'b coder \<Rightarrow> ('a \<times> 'b) coder" where
  "coder_pair k l = \<lparr>enc = (\<lambda>(x, y). enc k x @ enc l y),
     dec = (\<lambda>b. case dec k b of (x, r) \<Rightarrow> case dec l r of (y, r) \<Rightarrow> ((x, y), r))\<rparr>"

fun dec_nat :: "bytes \<Rightarrow> nat \<times> bytes" where
  "dec_nat [] = (0, [])"
| "dec_nat (b # r) = (if b = 0 then (0, r) else case dec_nat r of (n, r) \<Rightarrow> (Suc n, r))"

definition coder_nat :: "nat coder" where
  "coder_nat = \<lparr>enc = (\<lambda>n. replicate n 1 @ [0]), dec = dec_nat\<rparr>"

definition coder_word :: "64 word coder" where
  "coder_word = \<lparr>enc = u64_to_be, dec = (\<lambda>b. (u64_from_be (take 8 b), drop 8 b))\<rparr>"

fun dec_items :: "'a coder \<Rightarrow> nat \<Rightarrow> bytes \<Rightarrow> 'a list \<times> bytes" where
  "dec_items k 0 b = ([], b)"
| "dec_items k (Suc n) b = (case dec k b of (x, r) \<Rightarrow> case dec_items k n r of (xs, r) \<Rightarrow> (x # xs, r))"

definition coder_list :: "'a coder \<Rightarrow> 'a list coder" where
  "coder_list k = \<lparr>enc = (\<lambda>xs. enc coder_nat (length xs) @ concat (map (enc k) xs)),
     dec = (\<lambda>b. case dec coder_nat b of (n, r) \<Rightarrow> dec_items k n r)\<rparr>"

lemma coder_nat_ok [coder]: "coder_ok coder_nat"
proof -
  have "dec_nat (replicate n 1 @ 0 # r) = (n, r)" for n r by (induction n) simp_all
  then show ?thesis by (simp add: coder_ok_def coder_nat_def)
qed

lemma coder_word_ok [coder]: "coder_ok coder_word"
  by (simp add: coder_ok_def coder_word_def)

lemma via_ok [coder]: "coder_ok k \<Longrightarrow> (\<And>x. g (f x) = x) \<Longrightarrow> coder_ok (via k f g)"
  by (simp add: coder_ok_def via_def)

lemma coder_pair_ok [coder]: "coder_ok k \<Longrightarrow> coder_ok l \<Longrightarrow> coder_ok (coder_pair k l)"
  by (simp add: coder_ok_def coder_pair_def)

lemma coder_list_ok [coder]: "coder_ok k \<Longrightarrow> coder_ok (coder_list k)"
proof -
  assume k: "coder_ok k"
  have "dec_items k (length xs) (concat (map (enc k) xs) @ r) = (xs, r)" for xs r
    using k by (induction xs) simp_all
  then show ?thesis using coder_nat_ok by (simp add: coder_ok_def coder_list_def)
qed

definition coder_bool :: "bool coder" where
  "coder_bool = via coder_nat (\<lambda>b. if b then 1 else 0) (\<lambda>n. n = 1)"

definition coder_str :: "string coder" where
  "coder_str = coder_list (via coder_nat of_char char_of)"

definition coder_opt :: "'a coder \<Rightarrow> 'a option coder" where
  "coder_opt k = via (coder_list k) (\<lambda>x. case x of None \<Rightarrow> [] | Some y \<Rightarrow> [y]) (\<lambda>xs. case xs of [] \<Rightarrow> None | y # _ \<Rightarrow> Some y)"

definition coder_type :: "data_type coder" where
  "coder_type = via coder_nat
     (\<lambda>t. case t of BooleanType \<Rightarrow> 0 | IntegerType \<Rightarrow> 1 | FloatType \<Rightarrow> 2 | StringType \<Rightarrow> 3)
     (\<lambda>n. if n = 0 then BooleanType else if n = 1 then IntegerType else if n = 2 then FloatType else StringType)"

text \<open>A value as a tag, a word and a string.\<close>

definition coder_value :: "sql_value coder" where
  "coder_value = via (coder_pair coder_nat (coder_pair coder_word coder_str))
     (\<lambda>v. case v of Null \<Rightarrow> (0, 0, []) | Boolean b \<Rightarrow> (if b then 1 else 2, 0, []) | Integer i \<Rightarrow> (3, i, [])
       | Float f \<Rightarrow> (4, f, []) | Str s \<Rightarrow> (5, 0, s))
     (\<lambda>(n, w, s). if n = 0 then Null else if n = 1 then Boolean True else if n = 2 then Boolean False
       else if n = 3 then Integer w else if n = 4 then Float w else Str s)"

definition coder_column :: "sql_column coder" where
  "coder_column = via (coder_pair (coder_pair coder_str coder_type) (coder_pair (coder_pair coder_bool (coder_opt coder_value))
       (coder_pair (coder_pair coder_bool coder_bool) (coder_opt coder_str))))
     (\<lambda>c. ((col_name c, col_datatype c), (col_nullable c, col_default c), (col_unique c, col_index c), col_references c))
     (\<lambda>((a, b), (c, d), (e, f), g). \<lparr>col_name = a, col_datatype = b, col_nullable = c, col_default = d,
       col_unique = e, col_index = f, col_references = g\<rparr>)"

definition coder_table :: "sql_table coder" where
  "coder_table = via (coder_pair (coder_pair coder_str coder_nat) (coder_list coder_column))
     (\<lambda>t. ((tbl_name t, tbl_primary_key t), tbl_columns t))
     (\<lambda>((a, b), c). \<lparr>tbl_name = a, tbl_primary_key = b, tbl_columns = c\<rparr>)"

definition demo_codec :: sql_codec where
  "demo_codec = \<lparr>enc_table = enc coder_table, dec_table = (\<lambda>b. Ok (fst (dec coder_table b))),
     enc_values = enc (coder_list coder_value), dec_values = (\<lambda>b. Ok (fst (dec (coder_list coder_value) b)))\<rparr>"

lemma coder_basic [coder]: "coder_ok coder_bool" "coder_ok coder_str" "coder_ok coder_type" "coder_ok coder_value"
  unfolding coder_bool_def coder_str_def coder_type_def coder_value_def
  by (intro coder; simp split: data_type.split sql_value.split)+

lemma coder_opt_ok [coder]: "coder_ok k \<Longrightarrow> coder_ok (coder_opt k)"
  unfolding coder_opt_def by (intro coder) (simp_all split: option.split)

lemma coder_table_ok: "coder_ok coder_table"
  unfolding coder_table_def coder_column_def by (intro coder) simp_all

lemma demo_codec_ok: "sql_codec_ok demo_codec"
proof -
  have "coder_ok (coder_list coder_value)" by (intro coder)
  then have "dec (coder_list coder_value) (enc (coder_list coder_value) vs) = (vs, [])" for vs
    using coder_dec [of "coder_list coder_value" vs "[]"] by simp
  moreover have "dec coder_table (enc coder_table t) = (t, [])" for t
    using coder_dec [OF coder_table_ok, of t "[]"] by simp
  ultimately show ?thesis by (simp add: sql_codec_ok_def demo_codec_def)
qed

section \<open>A transaction\<close>

definition demo_table :: sql_table where
  "demo_table = \<lparr>tbl_name = ''t'', tbl_primary_key = 0, tbl_columns = [
     \<lparr>col_name = ''id'', col_datatype = IntegerType, col_nullable = False, col_default = None,
       col_unique = True, col_index = False, col_references = None\<rparr>,
     \<lparr>col_name = ''parent'', col_datatype = IntegerType, col_nullable = True, col_default = Some Null,
       col_unique = False, col_index = True, col_references = Some ''t''\<rparr>]\<rparr>"

definition demo_call1 :: sql_call where "demo_call1 = CallCreate demo_table"

definition demo_call2 :: sql_call where
  "demo_call2 = CallInsert ''t'' [[Integer 1, Null], [Integer 2, Integer 1]]"

definition demo_f1 :: bitcask where
  "demo_f1 = snd (run_call (mvcc_kv bitcask_engine plain_codec demo_t1) demo_codec demo_call1 demo_e1)"

definition demo_f2 :: bitcask where
  "demo_f2 = snd (run_call (mvcc_kv bitcask_engine plain_codec demo_t1) demo_codec demo_call2 demo_f1)"

definition demo_db1 :: sql_db where "demo_db1 = add_table demo_table empty_db"

definition demo_db2 :: sql_db where
  "demo_db2 = put_row demo_table [Integer 2, Integer 1] (put_row demo_table [Integer 1, Null] demo_db1)"

lemma demo_fields:
  "tbl_name demo_table = ''t''" "tbl_primary_key demo_table = 0" "length (tbl_columns demo_table) = 2"
  "normalize_table demo_table = demo_table" "index_names_distinct demo_table"
  by (simp_all add: demo_table_def normalize_table_def normalize_column_def index_names_distinct_def index_columns_def)

lemma demo_valid: "validate_table (\<lambda>_. Ok None) demo_table = Ok ()"
  by (simp add: demo_table_def validate_table_def validate_column_def validate_primary_key_def validate_default_def
      validate_references_def reference_type_def nth_checked_def ensure_def)

lemma demo_db1_fields:
  "db_tables demo_db1 = [''t'' \<mapsto> demo_table]" "db_rows demo_db1 = (\<lambda>_. None)"
  by (simp_all add: demo_db1_def add_table_def empty_db_def demo_fields)

lemma demo_spec1: "call_spec demo_call1 empty_db = (True, demo_db1)"
  by (simp add: demo_call1_def create_table_def demo_fields demo_db1_def, simp add: empty_db_def demo_valid)

lemma demo_typed: "row_typed demo_table [Integer 1, Null]" "row_typed demo_table [Integer 2, Integer 1]"
  by (simp_all add: row_typed_def demo_table_def column_typed_def)

lemma demo_references:
  "n < length (tbl_columns demo_table) \<Longrightarrow> col_references (tbl_columns demo_table ! n) = Some t' \<longleftrightarrow> n = 1 \<and> t' = ''t''"
  "n < length (tbl_columns demo_table) \<Longrightarrow> col_unique (tbl_columns demo_table ! n) \<longleftrightarrow> n = 0"
  by (auto simp: demo_table_def nth_Cons' less_Suc_eq)

lemma demo_insert1: "insert_row demo_table [Integer 1, Null] demo_db1 = (True, put_row demo_table [Integer 1, Null] demo_db1)"
  by (simp add: insert_row_def insertable_def row_fits_def demo_typed demo_references demo_db1_fields demo_fields
      canonical_def plain_value_def)

lemma demo_insert2:
  "insert_row demo_table [Integer 2, Integer 1] (put_row demo_table [Integer 1, Null] demo_db1) = (True, demo_db2)"
  by (auto simp: insert_row_def insertable_def row_fits_def demo_typed demo_references demo_db1_fields demo_fields
      canonical_def plain_value_def put_row_rows demo_db2_def split: if_splits)

lemma demo_spec2: "call_spec demo_call2 demo_db1 = (True, demo_db2)"
  by (simp add: demo_call2_def demo_db1_fields demo_insert1 demo_insert2)

lemma demo_ok: "call_ok demo_call1 D" "call_ok demo_call2 D"
  by (simp_all add: demo_call1_def demo_call2_def demo_fields plain_value_def)

lemma demo_new:
  "serial_invar plain_codec demo_t1 demo_e1" "stores demo_codec (mvcc_view plain_codec demo_t1 demo_e1) empty_db"
proof -
  have "next_version bitcask_engine plain_codec (bitcask_new []) \<noteq> Ok u64_max"
    using bc.repr_next [OF plain_codec_ok bc_repr_new] by (simp add: next_ok_def a_next_def u64_max_def)
  note started = serial_begin [OF rest_new [OF plain_codec_ok] this demo_begin1(1)]
  show "serial_invar plain_codec demo_t1 demo_e1" by (rule started(1))
  show "stores demo_codec (mvcc_view plain_codec demo_t1 demo_e1) empty_db"
    using demo_codec_ok empty_stored db_ok_empty by (simp add: stores_def started(2) committed_new [OF plain_codec_ok])
qed

lemma demo_run1:
  "run_call (mvcc_kv bitcask_engine plain_codec demo_t1) demo_codec demo_call1 demo_e1 = (Ok (), demo_f1)"
  "serial_invar plain_codec demo_t1 demo_f1" "stores demo_codec (mvcc_view plain_codec demo_t1 demo_f1) demo_db1"
  using serial_call [OF demo_new demo_ok(1), of "fst (run_call (mvcc_kv bitcask_engine plain_codec demo_t1) demo_codec demo_call1 demo_e1)" demo_f1]
  by (simp_all add: demo_spec1 demo_f1_def prod_eq_iff)

lemma demo_run2:
  "run_call (mvcc_kv bitcask_engine plain_codec demo_t1) demo_codec demo_call2 demo_f1 = (Ok (), demo_f2)"
  "serial_invar plain_codec demo_t1 demo_f2" "stores demo_codec (mvcc_view plain_codec demo_t1 demo_f2) demo_db2"
  using serial_call [OF demo_run1(2,3) demo_ok(2), of "fst (run_call (mvcc_kv bitcask_engine plain_codec demo_t1) demo_codec demo_call2 demo_f1)" demo_f2]
  by (simp_all add: demo_spec2 demo_f2_def prod_eq_iff)

lemma demo_invar: "mvcc_invar plain_codec demo_t1 demo_e1"
  unfolding mvcc_invar_def using plain_codec_ok mv_run.run_snoc [OF mv_run.run_nil demo_step1] by blast

lemma demo_invar_step:
  assumes "mvcc_invar plain_codec demo_t1 e" "stores demo_codec (mvcc_view plain_codec demo_t1 e) D" "call_ok call D"
    and "run_call (mvcc_kv bitcask_engine plain_codec demo_t1) demo_codec call e = (Ok (), e')"
  shows "mvcc_invar plain_codec demo_t1 e'"
proof -
  have "kv_transaction.holds (mvcc_view plain_codec demo_t1) (mvcc_invar plain_codec demo_t1) demo_codec e D" "db_ok D"
    using assms(1,2) by (simp_all add: mvcc.holds_def stores_def)
  from mvcc.call_holds [OF this assms(3)] assms(4) show ?thesis
    by (simp add: runs_def mvcc.settles_def mvcc.holds_def)
qed

lemmas demo_invar1 = demo_invar_step [OF demo_invar demo_new(2) demo_ok(1) demo_run1(1)]
lemmas demo_invar2 = demo_invar_step [OF demo_invar1 demo_run1(3) demo_ok(2) demo_run2(1)]

lemma demo_seen:
  "seen_ok plain_codec demo_codec demo_t1 demo_f1" "seen_db plain_codec demo_codec demo_t1 demo_f1 = demo_db1"
  "seen_ok plain_codec demo_codec demo_t1 demo_f2" "seen_db plain_codec demo_codec demo_t1 demo_f2 = demo_db2"
  using demo_invar1 demo_invar2 demo_run1(3) demo_run2(3) stores_contents
  by (auto simp: seen_ok_iff seen_db_def)

text \<open>A schema may name two indexed columns alike.\<close>

lemma duplicate_columns_accepted:
  "validate_table (\<lambda>_. Ok None) (demo_table\<lparr>tbl_columns := tbl_columns demo_table @ [tbl_columns demo_table ! 1]\<rparr>) = Ok ()"
  by (simp add: demo_table_def validate_table_def validate_column_def validate_primary_key_def validate_default_def
      validate_references_def reference_type_def nth_checked_def ensure_def)

section \<open>Witnesses\<close>

theorem call_refines_witness:
  "seen_ok plain_codec demo_codec demo_t1 demo_f2 \<and> seen_db plain_codec demo_codec demo_t1 demo_f2 = demo_db2"
  using call_refines [OF demo_seen(1) _ demo_run2(1)] by (simp add: demo_seen(2) demo_ok demo_spec2)

theorem serial_refines_witness:
  "\<exists>D y. db_run (empty_db, None) [SBegin demo_t1, SCall demo_call1 (Ok ()), SCall demo_call2 (Ok ())] (D, y) \<and> db_ok D \<and>
    y = Some demo_db2 \<and> db_ok demo_db2"
proof -
  have "next_version bitcask_engine plain_codec (bitcask_new []) \<noteq> Ok u64_max"
    using bc.repr_next [OF plain_codec_ok bc_repr_new] by (simp add: next_ok_def a_next_def u64_max_def)
  from serial_snoc [OF serial_snoc [OF serial_snoc [OF serial_nil serial_begins [OF this demo_begin1(1)]]
      serial_calls [OF demo_ok(1) demo_run1(1)]] serial_calls [OF demo_ok(2) demo_run2(1)]]
  have "serial_run plain_codec demo_codec (bitcask_new [], None)
      [SBegin demo_t1, SCall demo_call1 (Ok ()), SCall demo_call2 (Ok ())] (demo_f2, Some demo_t1)"
    by simp
  from serial_refines [OF plain_codec_ok demo_codec_ok this] show ?thesis
    by (simp add: stores_contents [OF demo_run2(3)])
qed

lemma demo_db2_fields:
  "db_tables demo_db2 = [''t'' \<mapsto> demo_table]"
  "db_rows demo_db2 = [(''t'', Integer 1) \<mapsto> [Integer 1, Null], (''t'', Integer 2) \<mapsto> [Integer 2, Integer 1]]"
  by (simp_all add: demo_db2_def demo_db1_fields put_row_rows demo_fields)

theorem reads_agree_witness:
  "\<exists>found. local_lookup_index (mvcc_kv bitcask_engine plain_codec demo_t1) demo_codec ''t'' ''parent'' [Integer 1] demo_f2 = Ok found \<and>
    set found = {Integer 2}"
proof -
  have "(\<exists>row. db_rows demo_db2 (''t'', i) = Some row \<and> row ! 1 = Integer 1) \<longleftrightarrow> i = Integer 2" for i
    by (auto simp: demo_db2_fields)
  then show ?thesis
    using reads_agree [OF demo_seen(3) refl refl, of "''t''" demo_table 1 _ _ "[Integer 1]"]
    by (simp add: demo_seen(4), simp add: demo_db2_fields(1) demo_fields, simp add: demo_table_def)
qed

end
