(* ===== verification/SqlLookup.thy ===== *)
theory SqlLookup
  imports SqlPushdown SqlDemo
begin

text \<open>
  Index lookups on a consistent database: a filtered scan that the optimizer turns into a lookup of the primary
  key or of an index yields the same rows.
\<close>

section \<open>Reads without repetition\<close>

lemma vset_insert_sorted:
  assumes "sorted_wrt (\<lambda>x y. value_cmp x y = OLess) ws" "\<forall>w\<in>set ws. datatype_of w = datatype_of v"
  shows "sorted_wrt (\<lambda>x y. value_cmp x y = OLess) (vset_insert v ws)"
  using assms
proof (induction ws)
  case (Cons w ws)
  have w: "datatype_of w = datatype_of v" using Cons.prems by simp
  show ?case
  proof (cases "value_cmp v w")
    case OLess
    with Cons.prems w value_cmp_type_trans [of v w] show ?thesis by auto
  next
    case OGreater
    then have "value_cmp w v = OLess" by (simp add: value_cmp_reverse [of w v])
    moreover have "set (vset_insert v ws) \<subseteq> insert v (set ws)" by (rule set_vset_insert)
    ultimately show ?thesis using OGreater Cons by auto
  qed (use Cons.prems in simp)
qed simp

lemma vset_collect_distinct:
  assumes "\<forall>v\<in>set vs. datatype_of v = ty"
  shows "distinct (vset_collect vs)"
proof -
  have "sorted_wrt (\<lambda>x y. value_cmp x y = OLess) (fold vset_insert vs ws)"
    if "sorted_wrt (\<lambda>x y. value_cmp x y = OLess) ws" "\<forall>w\<in>set vs \<union> set ws. datatype_of w = ty" for ws
    using that
  proof (induction vs arbitrary: ws)
    case (Cons v vs)
    have "sorted_wrt (\<lambda>x y. value_cmp x y = OLess) (vset_insert v ws)" using Cons.prems by (intro vset_insert_sorted) simp_all
    moreover have "\<forall>w\<in>set (vset_insert v ws). datatype_of w = ty" using Cons.prems(2) set_vset_insert(1) [of v ws] by auto
    ultimately show ?case using Cons.IH [of "vset_insert v ws"] Cons.prems(2) by auto
  qed simp
  from this [of "[]"] assms have "sorted_wrt (\<lambda>x y. value_cmp x y = OLess) (vset_collect vs)" by (simp add: vset_collect_def)
  moreover have "value_cmp y y \<noteq> OLess" for y using value_cmp_type_eq [of y y] by simp
  ultimately have "sorted_wrt (\<noteq>) (vset_collect vs)"
    using sorted_wrt_mono_rel [of "vset_collect vs" "\<lambda>x y. value_cmp x y = OLess" "(\<noteq>)"] by metis
  then show ?thesis by (simp add: distinct_conv_nth sorted_wrt_iff_nth_less) (metis nat_neq_iff)
qed

context kv_transaction
begin

lemma scan_distinct:
  assumes "holds C s D" "db_ok D" "local_scan K C F t None s = Ok (map Ok rows)"
  shows "distinct rows"
proof -
  have struct: "struct_ok D" using assms(2) by (simp add: db_ok_def)
  obtain out where out: "kt_scan_prefix K (key_prefix (PRow t)) s = map Ok out" "distinct (map fst out)"
    "\<And>b. map_of out b = (if \<exists>q. b = key_prefix (PRow t) @ q then view s b else None)"
    using scan_view [of s "key_prefix (PRow t)"] assms(1) by (auto simp: holds_def)
  have dec: "dec_values C (enc_values C vs) = Ok vs" for vs using assms(1) by (simp add: holds_def sql_codec_ok_def)
  have entry: "\<exists>i row. b = key_encode (KRow t i) \<and> v = enc_values C row \<and> db_rows D (t, normalize_value i) = Some row"
    if bv: "(b, v) \<in> set out" for b v
  proof -
    have "map_of out b = Some v" using out(2) bv by simp
    then have b: "\<exists>q. b = key_prefix (PRow t) @ q" "view s b = Some v" unfolding out(3) by (auto split: if_splits)
    then obtain k where k: "b = key_encode k" using assms(1) by (auto simp: holds_def db_stored_def)
    with b(1) have "in_prefix (PRow t) k" by (metis prefix_key)
    then obtain i where "k = KRow t i" by (cases k) auto
    with b(2) k assms(1) show ?thesis by (auto simp: holds_def db_stored_def)
  qed
  define row_at where "row_at = (\<lambda>x :: bytes \<times> bytes. unwrap (dec_values C (snd x)))"
  have rows: "rows = map row_at out"
  proof -
    have "dec_values C v = Ok (row_at (b, v))" if "(b, v) \<in> set out" for b v
      using entry [OF that] dec by (auto simp: row_at_def)
    then have "map (\<lambda>r. rbind r (\<lambda>(_, v). dec_values C v)) (map Ok out) = map Ok (map row_at out)" by auto
    with assms(3) have "map Ok rows = (map Ok (map row_at out) :: sql_row result list)" by (simp add: local_scan_def out(1) del: map_map)
    then show ?thesis by (rule map_injective) (simp add: inj_def)
  qed
  have "inj_on row_at (set out)"
  proof (rule inj_onI)
    fix x y assume xy: "x \<in> set out" "y \<in> set out" "row_at x = row_at y"
    obtain i r where i: "fst x = key_encode (KRow t i)" "snd x = enc_values C r" "db_rows D (t, normalize_value i) = Some r"
      using entry [of "fst x" "snd x"] xy(1) by auto
    obtain j r' where j: "fst y = key_encode (KRow t j)" "snd y = enc_values C r'" "db_rows D (t, normalize_value j) = Some r'"
      using entry [of "fst y" "snd y"] xy(2) by auto
    have "r = r'" using xy(3) i(2) j(2) dec by (simp add: row_at_def)
    moreover obtain T where T: "db_tables D t = Some T" using stored_row_table [OF struct] i(3) by blast
    ultimately have "normalize_value i = normalize_value j"
      using stored_row(3) [OF struct i(3) T] stored_row(3) [OF struct j(3) T] by simp
    with i j \<open>r = r'\<close> show "x = y" by (simp add: prod_eq_iff)
  qed
  with out(2) show ?thesis by (auto simp: rows distinct_map)
qed

lemma lookup_distinct:
  assumes "holds C s D" "struct_ok D" "db_tables D t = Some T" "local_lookup_index K C t c vs s = Ok ids"
  shows "distinct ids"
proof -
  have "\<exists>ids. get_index K C t c v s = Ok ids \<and> set ids = db_index D (t, c, normalize_value v)" for v
    using get_index_holds [OF assms(1), of t c v] by metis
  then obtain found where found: "\<And>v. get_index K C t c v s = Ok (found v)" "\<And>v. set (found v) = db_index D (t, c, normalize_value v)"
    by metis
  have "\<forall>i\<in>set (concat (map found vs)). datatype_of i = Some (col_datatype (primary_column T))"
    using assms(2) stored_row(5) [OF assms(2) _ assms(3)] unfolding struct_ok_def index_ok_def by (auto simp: found(2))
  from vset_collect_distinct [OF this] assms(4) show ?thesis
    by (simp add: local_lookup_index_def map_list_result_Ok [where g = found] found(1))
qed

end

section \<open>The pass on a filtered scan\<close>

lemma index_lookup_scan: "index_lookup (Scan t (Some flt) alias) = lookup_node (Scan t (Some flt) alias)"
  by (auto simp: index_lookup_def Let_def rbind_def node1_def split: result.splits option.splits)

lemma find_lookup_Some:
  "find_lookup t k es = Ok (Some (i, c)) \<Longrightarrow> k \<le> i \<and> i - k < length es \<and> is_column_lookup (es ! (i - k)) = Some c \<and>
    (c = tbl_primary_key t \<or> c < length (tbl_columns t) \<and> col_index (tbl_columns t ! c))"
proof (induction es arbitrary: k)
  case (Cons e es)
  have later: ?case if "find_lookup t (Suc k) es = Ok (Some (i, c))"
    using Cons.IH [OF that] by (auto simp: nth_Cons' Suc_le_eq)
  show ?case
  proof (cases "is_column_lookup e")
    case None
    with Cons.prems later show ?thesis by simp
  next
    case (Some d)
    show ?thesis
    proof (cases "d = tbl_primary_key t \<or> d < length (tbl_columns t) \<and> col_index (tbl_columns t ! d)")
      case True
      with Some Cons.prems show ?thesis by (auto simp: nth_checked_def split: if_splits)
    next
      case False
      with Some Cons.prems show ?thesis by (intro later) (auto simp: nth_checked_def split: if_splits)
    qed
  qed
qed simp

lemma find_lookup_Ok:
  "(\<And>e c. e \<in> set es \<Longrightarrow> is_column_lookup e = Some c \<Longrightarrow> c < length (tbl_columns t)) \<Longrightarrow> \<exists>f. find_lookup t i es = Ok f"
proof (induction es arbitrary: i)
  case (Cons e es)
  then obtain f where "find_lookup t (Suc i) es = Ok f" by (metis list.set_intros(2))
  with Cons.prems [of e] show ?case by (cases "is_column_lookup e") (auto simp: nth_checked_def)
qed simp

text \<open>The pass succeeds on a predicate that is defined on the rows of the table.\<close>

lemma index_lookup_Ok:
  assumes "defined_on F (map col_datatype (tbl_columns t)) flt"
  shows "\<exists>m. index_lookup (Scan t (Some flt) alias) = Ok m"
proof -
  have "c < length (tbl_columns t)" if "e \<in> set (into_cnf_vec flt)" "is_column_lookup e = Some c" for e c
  proof -
    have "defined_on F (map col_datatype (tbl_columns t)) e"
      using cnf_defined(1) that(1) assms unfolding defined_on_def by blast
    from defined_on_range [OF this] columns_of_lookup [OF that(2)] show ?thesis by simp
  qed
  then obtain f where f: "find_lookup t 0 (into_cnf_vec flt) = Ok f" using find_lookup_Ok by blast
  then show ?thesis
  proof (cases f)
    case (Some ic)
    obtain i k where ic: "ic = (i, k)" by force
    then have "is_column_lookup (into_cnf_vec flt ! i) = Some k"
      using find_lookup_Some [of t 0 "into_cnf_vec flt" i k] f Some by simp
    from lookup_exact [OF this, of F] obtain vs where "into_column_values (into_cnf_vec flt ! i) k = Ok vs" by blast
    with f Some ic show ?thesis by (simp add: index_lookup_scan Let_def)
  qed (use f in \<open>simp add: index_lookup_scan Let_def\<close>)
qed

text \<open>Normal values of a column are equal when their normal forms are the same.\<close>

lemma value_eq_normal:
  assumes "canonical x" "in_column ty x" "in_column ty w" "plain_value w"
  shows "value_eq x w \<longleftrightarrow> x = normalize_value w"
proof (cases x; cases w)
  fix f g assume xw: "x = Float f" "w = Float g"
  then have f: "normalize_f64 f = f" "f64_is_nan f \<longrightarrow> f = f64_nan" "f64_is_nan g \<longrightarrow> normalize_f64 g = f64_nan"
    using assms by (auto simp: canonical_def plain_value_def)
  show ?thesis
  proof (cases "f64_is_nan f \<or> f64_is_nan g")
    case True
    with f xw show ?thesis by (auto simp: value_eq_def f64_eq_def) (metis f64_is_nan_normalize)+
  next
    case False
    with normalize_f64_eq [of f g] f(1) xw show ?thesis by (auto simp: value_eq_def)
  qed
qed (use assms in \<open>auto simp: value_eq_def in_column_def\<close>)

lemma row_typed_row_of: "row_typed T row \<Longrightarrow> row_of (map col_datatype (tbl_columns T)) row"
  by (auto simp: row_typed_def row_of_def list_all2_map1 column_typed_def in_column_def split: if_splits elim!: list_all2_mono)

text \<open>A stored row satisfies a lookup when its value is among those that are looked up.\<close>

lemma lookup_hit:
  assumes "row_of tys row" "canonical (row ! k)" "k < length tys" "defined_at F row e"
    and exact: "\<And>row v. k < length row \<Longrightarrow> evaluate F e (Some row) = Ok v \<Longrightarrow>
        v = Boolean True \<longleftrightarrow> (\<exists>w\<in>set vs. value_eq (row ! k) w)"
    and typed: "\<forall>v\<in>set vs. in_column (tys ! k) v \<and> plain_value v"
  shows "sat F row e \<longleftrightarrow> row ! k \<in> normalize_value ` set vs"
proof -
  have len: "k < length row" using row_of_length [OF assms(1)] assms(3) by simp
  have "in_column (tys ! k) (row ! k)" using list_all2_nthD2 [OF assms(1) [unfolded row_of_def] len] .
  then have "(\<exists>w\<in>set vs. value_eq (row ! k) w) \<longleftrightarrow> row ! k \<in> normalize_value ` set vs"
    using value_eq_normal [OF assms(2)] typed by auto
  moreover obtain v where "evaluate F e (Some row) = Ok v" using assms(4) by (auto simp: defined_at_def)
  ultimately show ?thesis using exact [OF len, of v] by (auto simp: sat_def)
qed

lemma residual_rows:
  assumes "execute_node F T s n = Ok (map Ok found)" "\<And>row e. row \<in> set found \<Longrightarrow> e \<in> set rest \<Longrightarrow> defined_at F row e"
  shows "execute_node F T s (case and_vec rest of Some p \<Rightarrow> Filter n p | None \<Rightarrow> n) =
    Ok (map Ok (filter (\<lambda>row. \<forall>e\<in>set rest. sat F row e) found))"
proof (cases "and_vec rest")
  case None
  with assms(1) show ?thesis by (simp add: and_vec_None)
next
  case (Some p)
  have p: "defined_at F row p \<and> (sat F row p \<longleftrightarrow> (\<forall>e\<in>set rest. sat F row e))" if "row \<in> set found" for row
    using and_vec_defined [OF Some] assms(2) [OF that] by blast
  then have "filter (\<lambda>row. sat F row p) found = filter (\<lambda>row. \<forall>e\<in>set rest. sat F row e) found" by (intro filter_cong) simp_all
  with p Some assms(1) show ?thesis by (simp add: filter_rows_defined)
qed

definition lookup_of :: "plan_node \<Rightarrow> (nat \<times> sql_value list) option" where
  "lookup_of n = (case n of
      KeyLookup t keys alias \<Rightarrow> Some (tbl_primary_key t, keys)
    | IndexLookup t c vs alias \<Rightarrow> Some (c, vs)
    | Filter (KeyLookup t keys alias) p \<Rightarrow> Some (tbl_primary_key t, keys)
    | Filter (IndexLookup t c vs alias) p \<Rightarrow> Some (c, vs)
    | _ \<Rightarrow> None)"

text \<open>The rows of a table of a consistent database, and those a lookup finds among them.\<close>

context kv_transaction
begin

lemma looked_up_rows:
  assumes D: "holds C s D" "db_ok D" "db_tables D (tbl_name T) = Some T"
    and c: "c = tbl_primary_key T \<or> c < length (tbl_columns T) \<and> col_index (tbl_columns T ! c)"
    and n: "n = (if c = tbl_primary_key T then KeyLookup T vs alias else IndexLookup T c vs alias)"
  obtains rows where "execute_node F (local_txn K C F) s n = Ok (map Ok rows)"
    "set rows = {row. \<exists>i. db_rows D (tbl_name T, i) = Some row \<and> row ! c \<in> normalize_value ` set vs}"
    "(c = tbl_primary_key T \<longrightarrow> distinct (map normalize_value vs)) \<longrightarrow> distinct rows"
proof -
  have struct: "struct_ok D" using D(2) by (simp add: db_ok_def)
  let ?t = "tbl_name T"
  have key: "row ! tbl_primary_key T = i" "normalize_value i = i" if "db_rows D (?t, i) = Some row" for i row
    using stored_row(3,4) [OF struct that D(3)] by (auto simp: canonical_def)
  have inj: "i = j" if "db_rows D (?t, i) = Some row" "db_rows D (?t, j) = Some row" for i j row
    using key(1) [OF that(1)] key(1) [OF that(2)] by simp
  have get: "st_get (local_txn K C F) ?t ids s = Ok (List.map_filter (\<lambda>i. db_rows D (?t, normalize_value i)) ids)" for ids
    using local_get_holds [OF D(1)] by (simp add: local_txn_def)
  have found: "set (List.map_filter (\<lambda>i. db_rows D (?t, normalize_value i)) ids) = {row. \<exists>i\<in>set ids. db_rows D (?t, normalize_value i) = Some row}" for ids
    by (force simp: map_filter_def)
  have once: "distinct (List.map_filter (\<lambda>i. db_rows D (?t, normalize_value i)) ids)" if "distinct (map normalize_value ids)" for ids
    using that
  proof (induction ids)
    case (Cons i ids)
    then show ?case
      using inj by (auto simp: map_filter_simps found split: option.splits)
  qed (simp add: map_filter_simps)
  show thesis
  proof (cases "c = tbl_primary_key T")
    case True
    have "execute_node F (local_txn K C F) s n = Ok (map Ok (List.map_filter (\<lambda>i. db_rows D (?t, normalize_value i)) vs))"
      using True n get by simp
    moreover have "set (List.map_filter (\<lambda>i. db_rows D (?t, normalize_value i)) vs) =
        {row. \<exists>i. db_rows D (?t, i) = Some row \<and> row ! c \<in> normalize_value ` set vs}"
      using key True by (auto simp: found)
    ultimately show thesis using that once True by blast
  next
    case False
    with c have col: "c < length (tbl_columns T)" "col_index (tbl_columns T ! c)" by simp_all
    obtain ids where ids: "local_lookup_index K C ?t (col_name (tbl_columns T ! c)) vs s = Ok ids"
      "set ids = {i. \<exists>row. db_rows D (?t, i) = Some row \<and> row ! c \<in> normalize_value ` set vs}"
      by (rule lookup_index_rows [OF D col])
    have norm: "normalize_value i = i" if "i \<in> set ids" for i using that key(2) by (auto simp: ids(2))
    have "execute_node F (local_txn K C F) s n = Ok (map Ok (List.map_filter (\<lambda>i. db_rows D (?t, normalize_value i)) ids))"
      using False n get ids(1) col by (simp add: local_txn_def)
    moreover have "set (List.map_filter (\<lambda>i. db_rows D (?t, normalize_value i)) ids) =
        {row. \<exists>i. db_rows D (?t, i) = Some row \<and> row ! c \<in> normalize_value ` set vs}"
    proof -
      have "(\<exists>i\<in>set ids. db_rows D (?t, normalize_value i) = Some row) \<longleftrightarrow> (\<exists>i\<in>set ids. db_rows D (?t, i) = Some row)" for row
        using norm by auto
      then show ?thesis by (auto simp: found ids(2))
    qed
    moreover have "distinct (map normalize_value ids)"
      using lookup_distinct [OF D(1) struct D(3) ids(1)] norm by (simp add: map_idI)
    ultimately show thesis using that once by blast
  qed
qed

text \<open>What the storage engine scans, as the properties of plans assume it.\<close>

lemma local_scans_tables:
  assumes "holds C s D" "db_ok D"
  obtains tables where "scans_tables F (local_txn K C F) s tables" "\<And>t. distinct (tables t)"
    "\<And>t. set (tables t) = {row. \<exists>i. db_rows D (t, i) = Some row}"
proof -
  have "\<exists>rows. local_scan K C F t None s = Ok (map Ok rows) \<and> set rows = {row. \<exists>i. db_rows D (t, i) = Some row}" for t
    using scan_rows [OF assms, of F t] by metis
  then obtain tables where tables: "\<And>t. local_scan K C F t None s = Ok (map Ok (tables t))"
    "\<And>t. set (tables t) = {row. \<exists>i. db_rows D (t, i) = Some row}" by metis
  have "local_scan K C F t (Some p) s = Ok (filter_rows F p (map Ok (tables t)))" for t p
    using tables(1) [of t] by (simp add: local_scan_def Let_def)
  with tables(1) have "scans_tables F (local_txn K C F) s tables"
    by (auto simp: scans_tables_def local_txn_def split: option.split)
  then show thesis using tables scan_distinct [OF assms tables(1)] by (intro that)
qed

lemma lookup_rows:
  assumes D: "holds C s D" "db_ok D" "db_tables D (tbl_name T) = Some T"
    and flt: "defined_on F (map col_datatype (tbl_columns T)) flt"
    and m: "index_lookup (Scan T (Some flt) alias) = Ok m"
    and vs: "\<And>k vs. lookup_of m = Some (k, vs) \<Longrightarrow> (\<forall>v\<in>set vs. in_column (col_datatype (tbl_columns T ! k)) v \<and> plain_value v) \<and>
      (k = tbl_primary_key T \<longrightarrow> distinct (map normalize_value vs))"
  shows "\<exists>rows rows'. execute_node F (local_txn K C F) s (Scan T (Some flt) alias) = Ok (map Ok rows) \<and>
    execute_node F (local_txn K C F) s m = Ok (map Ok rows') \<and> mset rows' = mset rows"
proof -
  let ?E = "local_txn K C F" and ?t = "tbl_name T" and ?tys = "map col_datatype (tbl_columns T)"
  have struct: "struct_ok D" using D(2) by (simp add: db_ok_def)
  obtain tables where tables: "scans_tables F ?E s tables" "distinct (tables ?t)"
    "set (tables ?t) = {row. \<exists>i. db_rows D (?t, i) = Some row}"
    using local_scans_tables [OF D(1,2)] by metis
  have stored: "row_of ?tys row" "list_all canonical row" if "\<exists>i. db_rows D (?t, i) = Some row" for row
    using stored_row(1,2) [OF struct _ D(3)] row_typed_row_of that by blast+
  define rows where "rows = filter (\<lambda>row. sat F row flt) (tables ?t)"
  have scan: "execute_node F ?E s (Scan T (Some flt) alias) = Ok (map Ok rows)"
  proof -
    have "\<forall>row\<in>set (tables ?t). defined_at F row flt" using flt stored tables(3) unfolding defined_on_def by simp
    then show ?thesis using tables(1) by (simp add: scans_tables_def rows_def filter_rows_defined)
  qed
  define cnf where "cnf = into_cnf_vec flt"
  have cnf: "defined_at F row e'" if "row_of ?tys row" "e' \<in> set cnf" for row e'
    using cnf_defined(1) flt that unfolding defined_on_def cnf_def by blast
  have sat: "sat F row flt \<longleftrightarrow> (\<forall>e\<in>set cnf. sat F row e)" if "row_of ?tys row" for row
    using cnf_defined(2) flt that unfolding defined_on_def cnf_def by blast
  from m obtain f where f: "find_lookup T 0 cnf = Ok f" by (auto simp: index_lookup_scan cnf_def Let_def rbind_eq_Ok)
  show ?thesis
  proof (cases f)
    case None
    with m f have "m = Scan T (Some flt) alias" by (simp add: index_lookup_scan cnf_def Let_def)
    with scan show ?thesis by auto
  next
    case (Some ic)
    obtain i k where ic: "ic = (i, k)" by force
    have i: "i < length cnf" "is_column_lookup (cnf ! i) = Some k"
      "k = tbl_primary_key T \<or> k < length (tbl_columns T) \<and> col_index (tbl_columns T ! k)"
      using find_lookup_Some [of T 0 cnf i k] f Some ic by simp_all
    obtain vs where exact: "into_column_values (cnf ! i) k = Ok vs" "\<And>row v. k < length row \<Longrightarrow>
        evaluate F (cnf ! i) (Some row) = Ok v \<Longrightarrow> v = Boolean True \<longleftrightarrow> (\<exists>w\<in>set vs. value_eq (row ! k) w)"
      using lookup_exact [OF i(2), of F] by blast
    define rest where "rest = take i cnf @ drop (Suc i) cnf"
    define n where "n = (if k = tbl_primary_key T then KeyLookup T vs alias else IndexLookup T k vs alias)"
    have "lookup_node (Scan T (Some flt) alias) = Ok (case and_vec rest of Some p \<Rightarrow> Filter n p | None \<Rightarrow> n)"
      using f [unfolded cnf_def] Some ic exact(1) [unfolded cnf_def] unfolding rest_def n_def cnf_def by (simp add: Let_def)
    then have m: "m = (case and_vec rest of Some p \<Rightarrow> Filter n p | None \<Rightarrow> n)"
      using assms(5) by (simp add: index_lookup_scan)
    have "lookup_of m = Some (k, vs)" unfolding m n_def by (cases "and_vec rest") (simp_all add: lookup_of_def)
    note typed = vs [OF this]
    obtain found where found: "execute_node F ?E s n = Ok (map Ok found)"
      "set found = {row. \<exists>i. db_rows D (?t, i) = Some row \<and> row ! k \<in> normalize_value ` set vs}"
      and once: "(k = tbl_primary_key T \<longrightarrow> distinct (map normalize_value vs)) \<longrightarrow> distinct found"
      by (rule looked_up_rows [OF D i(3) n_def, of F])
    have "distinct found" using typed once by blast
    define rows' where "rows' = filter (\<lambda>row. \<forall>e\<in>set rest. sat F row e) found"
    have "set rest \<subseteq> set cnf" using set_take_subset [of i cnf] set_drop_subset [of "Suc i" cnf] by (auto simp: rest_def)
    then have exec: "execute_node F ?E s m = Ok (map Ok rows')"
      unfolding m rows'_def using cnf stored(1) found(2) by (intro residual_rows [OF found(1)]) blast
    have k: "k < length (tbl_columns T)"
      using i(3) struct_table(2) [OF struct D(3)] by (auto simp: table_wf_def)
    have hit: "sat F row (cnf ! i) \<longleftrightarrow> row ! k \<in> normalize_value ` set vs" if row: "\<exists>i. db_rows D (?t, i) = Some row" for row
    proof (rule lookup_hit [OF stored(1) [OF row] _ _ cnf [OF stored(1) [OF row] nth_mem [OF i(1)]] exact(2)])
      show "canonical (row ! k)"
        using stored(2) [OF row] row_of_length [OF stored(1) [OF row]] k by (simp add: list_all_length)
    qed (use typed k in auto)
    have "set cnf = insert (cnf ! i) (set rest)"
      using i(1) by (subst id_take_nth_drop [of i cnf]) (auto simp: rest_def)
    then have "sat F row flt \<longleftrightarrow> row ! k \<in> normalize_value ` set vs \<and> (\<forall>e\<in>set rest. sat F row e)"
      if "\<exists>i. db_rows D (?t, i) = Some row" for row
      using sat [OF stored(1) [OF that]] hit [OF that] by simp
    then have "set rows' = set rows"
      unfolding rows'_def rows_def set_filter found(2) tables(3) by blast
    moreover have "distinct rows'" "distinct rows" using \<open>distinct found\<close> tables(2) by (simp_all add: rows'_def rows_def)
    ultimately have "mset rows' = mset rows" by (simp add: set_eq_iff_mset_eq_distinct)
    with scan exec show ?thesis by blast
  qed
qed

end

section \<open>Properties\<close>

text \<open>
  Property C38. The optimizer's index lookup of a filtered scan of a table of a consistent database: the pass succeeds, and
  the plan it returns, which may look up the primary key or an index and filter the rest, yields the same rows as the
  scan, each as often, in an order of their own. The predicate evaluates to a boolean or null on every row of the
  column types and equates no integer with a float unless one side is a constant. If the plan looks values up, they
  have the type of their column, are no NaNs but the standard one and are different when they are primary keys: without
  this, lookups miss or repeat rows (\<open>local_get_other_type\<close>, \<open>local_get_twice\<close>).
\<close>

theorem lookup_correct:
  assumes "seen_ok c C t e" "db_tables (seen_db c C t e) (tbl_name T) = Some T" "E = local_txn (mvcc_kv bitcask_engine c t) C F"
    and "defined_on F (map col_datatype (tbl_columns T)) flt"
    and "\<forall>m k vs. index_lookup (Scan T (Some flt) alias) = Ok m \<longrightarrow> lookup_of m = Some (k, vs) \<longrightarrow>
      (\<forall>v\<in>set vs. in_column (col_datatype (tbl_columns T ! k)) v \<and> plain_value v) \<and>
      (k = tbl_primary_key T \<longrightarrow> distinct (map normalize_value vs))"
  shows "\<exists>m rows rows'. index_lookup (Scan T (Some flt) alias) = Ok m \<and>
    execute_node F E e (Scan T (Some flt) alias) = Ok (map Ok rows) \<and>
    execute_node F E e m = Ok (map Ok rows') \<and> mset rows' = mset rows"
proof -
  obtain m where m: "index_lookup (Scan T (Some flt) alias) = Ok m" using index_lookup_Ok [OF assms(4)] by blast
  with mvcc.lookup_rows [OF seen_holds [OF assms(1)] assms(2,4) m] assms(3,5) show ?thesis by blast
qed

section \<open>Lookups that miss or repeat\<close>

text \<open>
  A value of another type finds nothing, although it may compare equal to a key; a value that is mentioned twice finds
  its row twice.
\<close>

lemma local_get_other_type:
  assumes "seen_ok c C t e" "db_tables (seen_db c C t e) name = Some T" "datatype_of v \<noteq> Some (col_datatype (primary_column T))"
  shows "local_get (mvcc_kv bitcask_engine c t) C name [v] e = Ok []"
proof -
  note D = seen_holds [OF assms(1)]
  have struct: "struct_ok (seen_db c C t e)" using D(2) by (simp add: db_ok_def)
  have "db_rows (seen_db c C t e) (name, normalize_value v) = None"
    using stored_row(5) [OF struct _ assms(2)] assms(3) by fastforce
  then show ?thesis by (simp add: mvcc.local_get_holds [OF D(1)] map_filter_simps)
qed

lemma local_get_twice:
  assumes "seen_ok c C t e" "local_get (mvcc_kv bitcask_engine c t) C name [v] e = Ok [row]"
  shows "local_get (mvcc_kv bitcask_engine c t) C name [v, v] e = Ok [row, row]"
  using assms(2) by (simp add: mvcc.local_get_holds [OF seen_holds(1) [OF assms(1)]] map_filter_simps split: option.splits)

section \<open>Witnesses\<close>

text \<open>\<^verbatim>\<open>parent = 1 AND id = 2\<close> becomes a lookup of the index on \<^verbatim>\<open>parent\<close> and a filter.\<close>

definition demo_filter :: expression where
  "demo_filter = And (Equal (Column 1) (Constant (Integer 1))) (Equal (Column 0) (Constant (Integer 2)))"

definition demo_lookup :: plan_node where
  "demo_lookup = Filter (IndexLookup demo_table 1 [Integer 1] None) (Equal (Column 0) (Constant (Integer 2)))"

theorem lookup_correct_witness:
  "\<exists>rows rows'. execute_node demo_ops (local_txn (mvcc_kv bitcask_engine plain_codec demo_t1) demo_codec demo_ops) demo_f2
      (Scan demo_table (Some demo_filter) None) = Ok (map Ok rows) \<and>
    execute_node demo_ops (local_txn (mvcc_kv bitcask_engine plain_codec demo_t1) demo_codec demo_ops) demo_f2 demo_lookup =
      Ok (map Ok rows') \<and> mset rows' = mset rows"
proof -
  have types: "map col_datatype (tbl_columns demo_table) = [IntegerType, IntegerType]" by (simp add: demo_table_def)
  have table: "db_tables (seen_db plain_codec demo_codec demo_t1 demo_f2) (tbl_name demo_table) = Some demo_table"
    by (simp add: demo_seen(4) demo_db2_fields demo_fields)
  have flt: "defined_on demo_ops (map col_datatype (tbl_columns demo_table)) demo_filter"
    unfolding types demo_filter_def
    using defined_equal_constant [of 1 "[IntegerType, IntegerType]" "Integer 1"] defined_equal_constant [of 0 "[IntegerType, IntegerType]" "Integer 2"]
    by (simp add: defined_on_def in_column_def)
  have lookup: "index_lookup (Scan demo_table (Some demo_filter) None) = Ok demo_lookup" by code_simp
  have "in_column (col_datatype (tbl_columns demo_table ! 1)) (Integer 1)" by (simp add: demo_table_def in_column_def)
  then show ?thesis
    using lookup_correct [OF demo_seen(3) table refl flt, of None] lookup
    by (simp add: demo_lookup_def lookup_of_def plain_value_def demo_fields)
qed

end
