(* ===== verification/SqlOptimized.thy ===== *)
theory SqlOptimized
  imports SqlPushdown SqlPlannerRows
begin

text \<open>
  The optimizer on a small database: the hypotheses of its properties hold there, and queries whose answer it
  changes.
\<close>

section \<open>Demonstration\<close>

definition demo_contents :: "string \<Rightarrow> sql_row list" where
  "demo_contents name = (if name = ''a'' then [[Integer 0, Integer 7], [Integer 2, Integer 7]]
     else if name = ''b'' then [[Integer 1, Integer 0]] else [])"

definition demo_store :: "unit sql_txn" where
  "demo_store = demo_txn\<lparr>
     st_get := \<lambda>name ids _. Ok (List.map_filter (\<lambda>i. find (\<lambda>row. row ! 0 = i) (demo_contents name)) ids),
     st_scan := \<lambda>name flt _. Ok (case flt of
       Some p \<Rightarrow> filter_rows demo_ops p (map Ok (demo_contents name)) | None \<Rightarrow> map Ok (demo_contents name))\<rparr>"

definition demo_scan :: "string \<Rightarrow> string \<Rightarrow> plan_node" where
  "demo_scan name column = Scan (demo_table name column) None None"

text \<open>\<^verbatim>\<open>SELECT * FROM a JOIN b ON a.id = b.y WHERE b.id = 1\<close>.\<close>

definition demo_join :: plan_node where
  "demo_join = Filter (NestedLoopJoin (demo_scan ''a'' ''x'') (demo_scan ''b'' ''y'') (Some (Equal (Column 0) (Column 3))) False)
     (Equal (Column 2) (Constant (Integer 1)))"

theorem pushdown_correct_witness:
  "\<exists>m. filter_pushdown demo_join = Ok m \<and> m \<noteq> demo_join \<and>
    execute_node demo_ops demo_store () m = Ok [Ok [Integer 0, Integer 7, Integer 1, Integer 0]]"
proof -
  have types: "column_types (demo_scan name column) = [IntegerType, IntegerType]" for name column
    by (simp add: demo_scan_def demo_table_def demo_int_column_def)
  have inner: "inner_plan demo_ops demo_join"
    by (simp add: demo_join_def types defined_opt_def defined_equal_columns defined_equal_constant in_column_def)
      (simp add: demo_scan_def defined_opt_def)
  have typed: "tables_typed demo_contents demo_join"
    by (simp add: demo_join_def demo_scan_def demo_table_def demo_int_column_def demo_contents_def row_of_def in_column_def)
  have scans: "scans_tables demo_ops demo_store () demo_contents"
    by (simp add: scans_tables_def demo_store_def)
  from pushdown_correct [OF inner typed scans] obtain m where "filter_pushdown demo_join = Ok m"
    "execute_node demo_ops demo_store () m = execute_node demo_ops demo_store () demo_join" by blast
  moreover have "execute_node demo_ops demo_store () demo_join = Ok [Ok [Integer 0, Integer 7, Integer 1, Integer 0]]"
    by code_simp
  moreover have "filter_pushdown demo_join \<noteq> Ok demo_join" by code_simp
  ultimately show ?thesis by auto
qed

section \<open>Queries that the optimizer changes\<close>

text \<open>The answer to a query with its plan as it was built, and with the plan optimized.\<close>

definition demo_answer :: "(plan_node \<Rightarrow> plan_node result) \<Rightarrow> select_statement \<Rightarrow> rows result" where
  "demo_answer opt q = rbind (plan_build demo_ops demo_catalog (StSelect q)) (\<lambda>p. case p of
      Select n \<Rightarrow> rbind (opt n) (execute_node demo_ops demo_store ())
    | _ \<Rightarrow> Err (InvalidData ''not a query''))"

definition demo_select :: "ast_expr list \<Rightarrow> from_item \<Rightarrow> ast_expr option \<Rightarrow> select_statement" where
  "demo_select es f w = \<lparr>sel_select = map (\<lambda>e. (e, None)) es, sel_from = [f], sel_where = w, sel_group_by = [],
     sel_having = None, sel_order_by = [], sel_offset = None, sel_limit = None\<rparr>"

definition demo_equal :: "ast_expr \<Rightarrow> ast_expr \<Rightarrow> ast_expr" where
  "demo_equal x y = AstOperator (OpEqual x y)"

definition left_join :: "ast_expr \<Rightarrow> ast_expr option \<Rightarrow> select_statement" where
  "left_join p w = demo_select [AstColumn (Some ''a'') ''id'', AstColumn (Some ''b'') ''id'']
     (FromJoin (FromTable ''a'' None) (FromTable ''b'' None) LeftJoin (Some p)) w"

text \<open>
  \<^verbatim>\<open>SELECT a.id, b.id FROM a LEFT JOIN b ON a.id = b.y WHERE b.id = 1\<close>: the condition moves into the join, where a
  row that fails it is padded with nulls instead of dropped.
\<close>

definition outer_where :: select_statement where
  "outer_where = left_join (demo_equal (AstColumn (Some ''a'') ''id'') (AstColumn (Some ''b'') ''y''))
     (Some (demo_equal (AstColumn (Some ''b'') ''id'') (AstLiteral (LitInteger 1))))"

lemma outer_where_pads:
  "demo_answer Ok outer_where = Ok [Ok [Integer 0, Integer 1]]"
  "demo_answer (optimize_node demo_ops) outer_where = Ok [Ok [Integer 0, Integer 1], Ok [Integer 2, Null]]"
  by code_simp+

text \<open>
  \<^verbatim>\<open>SELECT a.id, b.id FROM a LEFT JOIN b ON a.id = b.y AND a.id = 0\<close>: the condition moves into the left table,
  whose other rows are lost.
\<close>

definition outer_on :: select_statement where
  "outer_on = left_join (AstOperator (OpAnd (demo_equal (AstColumn (Some ''a'') ''id'') (AstColumn (Some ''b'') ''y''))
     (demo_equal (AstColumn (Some ''a'') ''id'') (AstLiteral (LitInteger 0))))) None"

lemma outer_on_drops:
  "demo_answer Ok outer_on = Ok [Ok [Integer 0, Integer 1], Ok [Integer 2, Null]]"
  "demo_answer (optimize_node demo_ops) outer_on = Ok [Ok [Integer 0, Integer 1]]"
  by code_simp+

text \<open>
  \<^verbatim>\<open>SELECT a.id, b.id FROM a LEFT JOIN b ON FALSE\<close>: a join whose predicate is never true is replaced by no rows,
  although an outer join keeps the rows of its left table.
\<close>

lemma outer_false_empties:
  "demo_answer Ok (left_join (AstLiteral (LitBoolean False)) None) = Ok [Ok [Integer 0, Null], Ok [Integer 2, Null]]"
  "demo_answer (optimize_node demo_ops) (left_join (AstLiteral (LitBoolean False)) None) = Ok []"
  by code_simp+

text \<open>
  \<^verbatim>\<open>SELECT id FROM a WHERE id = 0 OR id = 0\<close>: a primary key lookup returns a row once for every mention of its key.
\<close>

definition repeated_key :: select_statement where
  "repeated_key = (let e = demo_equal (AstColumn None ''id'') (AstLiteral (LitInteger 0)) in
     demo_select [AstColumn None ''id''] (FromTable ''a'' None) (Some (AstOperator (OpOr e e))))"

lemma key_lookup_repeats:
  "demo_answer Ok repeated_key = Ok [Ok [Integer 0]]"
  "demo_answer (optimize_node demo_ops) repeated_key = Ok [Ok [Integer 0], Ok [Integer 0]]"
  by code_simp+

end
