(* ===== verification/Spec2Isabelle.thy ===== *)
theory Spec2Isabelle
  imports RaftTicks Cache SqlMeaning SqlLookup SqlOptimized
begin

text \<open>
  A verification of rusty-db, a distributed SQL database written in Rust.

  \<^bold>\<open>The program.\<close> A client sends SQL text to a session. The parser (\<^verbatim>\<open>src/sql/parser/\<close>) turns it into a syntax
  tree, the planner (\<^verbatim>\<open>src/sql/planner/\<close>) turns the tree into a plan, optimizes it, and the executor
  (\<^verbatim>\<open>src/sql/execution/\<close>) runs the plan on a transaction of the SQL storage engine
  (\<^verbatim>\<open>src/sql/engine/local.rs\<close>). That engine keeps tables, rows and indexes as keys and values of an MVCC
  transaction (\<^verbatim>\<open>src/storage/mvcc.rs\<close>), which keeps versions of keys in a storage engine: the log-structured
  BitCask (\<^verbatim>\<open>src/storage/bitcask.rs\<close>) or the in-memory one (\<^verbatim>\<open>src/storage/memory.rs\<close>). Keys are encoded by the
  order-preserving Keycode (\<^verbatim>\<open>src/encoding/keycode.rs\<close>). Commands are replicated between nodes by Raft
  (\<^verbatim>\<open>src/raft/\<close>), whose log is kept in a storage engine as well. A key cache (\<^verbatim>\<open>src/cache/cache.rs\<close>) stands
  beside these.

  \<^bold>\<open>Conventions.\<close> A fallible operation returns a \<open>result\<close>: \<open>Ok\<close>, \<open>Err\<close> with an error of
  \<^verbatim>\<open>src/error.rs\<close>, or \<open>Panic\<close> for a failed assertion, \<open>unwrap\<close> or \<open>expect\<close>. A method with a mutable receiver is a
  function \<open>('s, 'a) op\<close> from the state to the outcome and the new state, so the state left by a failed call is
  part of the model; \<open>sbind\<close> sequences such operations and \<open>rbind\<close> sequences results. A trait is a record of its
  methods, and code that is generic over it takes the record. Integers are words and wrap around as in a
  release build, or the source's check is written out; a double is its bit pattern. Error texts keep
  their placeholders.
\<close>

text \<open>
  \<^bold>\<open>Foundations.\<close>
  \<^item> \<open>DbError\<close>, \<open>Prelude\<close>: errors, results, operations, bytes, big-endian integers, ordered maps.
  \<^item> \<open>StateOrder\<close>: a locale for facts of the form "the new state is related to the old one, however the
    operation ends", closed under the combinators.
  \<^item> \<open>Keycode\<close>, \<open>KeycodeOrder\<close> (\<^verbatim>\<open>keycode.rs\<close>): serializer, deserializer and prefix ranges over the serde data
    model. Round trip; the encoding preserves the order of typed keys.

  \<^bold>\<open>Storage.\<close>
  \<^item> \<open>Engine\<close> (\<^verbatim>\<open>engine.rs\<close>, \<^verbatim>\<open>memory.rs\<close>): the trait, its contract as the locale \<open>kv_engine\<close>, and the in-memory
    engine, which keeps it.
  \<^item> \<open>BitCask\<close> (\<^verbatim>\<open>bitcask.rs\<close>): the log file is its bytes and the key directory maps keys to positions in it. The
    engine keeps the contract; it answers any calls as the in-memory engine does; reopening a file cut at
    any byte restores the writes that are complete; compaction keeps the contents.
  \<^item> \<open>KeySpace\<close>: structured keys on an engine, the locale shared by MVCC and the Raft log.
  \<^item> \<open>Mvcc\<close>, \<open>MvccOps\<close>, \<open>MvccIsolation\<close>, \<open>MvccProps\<close>, \<open>MvccScan\<close> (\<^verbatim>\<open>mvcc.rs\<close>): transactions; the effect of each operation
    on the stored keys; the invariant of the keys with what holds of an open transaction; snapshot isolation
    (stable reads, first updater wins, rollback, time travel, resuming); batched scans, during which other
    transactions may run, yield what single reads find.

  \<^bold>\<open>Raft.\<close>
  \<^item> \<open>RaftLog\<close>, \<open>RaftLogProps\<close> (\<^verbatim>\<open>log.rs\<close>): the log on an engine refines a list of entries; committed entries never
    change; splicing has exactly the documented outcome.
  \<^item> \<open>RaftMessage\<close>, \<open>RaftNode\<close> (\<^verbatim>\<open>message.rs\<close>, \<^verbatim>\<open>state.rs\<close>, \<^verbatim>\<open>node.rs\<close>): every role of a node, its transitions, steps
    and ticks.
  \<^item> \<open>RaftOrder\<close>, \<open>RaftElection\<close>, \<open>RaftCluster\<close>, \<open>RaftElectionProps\<close>: a cluster as an inductive step relation with lost,
    reordered and repeated messages, crashes and restarts; at most one leader is elected in a term.
  \<^item> \<open>RaftQuorum\<close>, \<open>RaftTicks\<close>: commits and reads need a quorum; the clock of a follower.

  \<^bold>\<open>Cache.\<close> \<open>Cache\<close> (\<^verbatim>\<open>cache.rs\<close>): the linked hash map with its eviction policies refines a list of entries in
  the order of their use.
\<close>

text \<open>
  \<^bold>\<open>SQL.\<close>
  \<^item> \<open>Float64\<close>, \<open>SqlValue\<close>, \<open>SqlExpr\<close>, \<open>SqlSchema\<close> (\<^verbatim>\<open>types/\<close>): values, expressions and schemas with their operations;
    exact doubles. The order of values, against one defined by kinds and numbers; integer arithmetic is exact or reports overflow.
  \<^item> \<open>SqlNormal\<close>: rewriting of expressions preserves evaluation, by the locale \<open>sound_rewrite\<close>, interpreted for the
    steps of the normal forms and for constant folding.
  \<^item> \<open>SqlPlan\<close>, \<open>SqlOptimizer\<close> (\<^verbatim>\<open>plan.rs\<close>, \<^verbatim>\<open>optimizer.rs\<close>): plans, their columns, and the five passes.
  \<^item> \<open>SqlJoin\<close>, \<open>SqlExec\<close> (\<^verbatim>\<open>join.rs\<close>, \<^verbatim>\<open>executor.rs\<close>, \<^verbatim>\<open>aggregator.rs\<close>): joins, grouping, ordering, and the execution
    of every plan. A hash join yields what a nested loop join yields; \<^verbatim>\<open>ORDER BY\<close> sorts by the reference order, ascending or descending, and is stable.
  \<^item> \<open>SqlLocal\<close>, \<open>SqlStore\<close>, \<open>SqlIntegrity\<close>, \<open>SqlWrites\<close>, \<open>SqlCatalog\<close>, \<open>SqlCalls\<close>, \<open>SqlSerial\<close>, \<open>SqlDemo\<close> (\<^verbatim>\<open>local.rs\<close>): the
    storage engine on the locale \<open>kv_transaction\<close>, which an MVCC transaction on BitCask interprets, once beside
    others and once alone. Every call that keeps to \<open>call_ok\<close>, the conditions that the engine relies on and does not
    check, answers as an abstract database does and keeps it consistent (types, keys, unique columns, references,
    indexes); transactions one after the other refine it.
  \<^item> \<open>SqlToken\<close>, \<open>SqlLexer\<close>, \<open>SqlAst\<close>, \<open>SqlParser\<close> (\<^verbatim>\<open>lexer.rs\<close>, \<^verbatim>\<open>ast.rs\<close>, \<^verbatim>\<open>parser.rs\<close>): text, tokens and the syntax tree of every
    statement. \<open>SqlParserTotal\<close>: parsing ends in a statement or an error; \<open>SqlPrinter\<close>, \<open>SqlRoundTrip\<close>: the parser
    inverts a printer with the fewest parentheses; \<open>SqlParserTypes\<close>: what it returns is well formed.
  \<^item> \<open>SqlPlanner\<close> (\<^verbatim>\<open>planner.rs\<close>): scopes and the plans of all statements. \<open>SqlPlannerProps\<close>: names resolve to the columns
    that carry them, and every column of a plan is in range; \<open>SqlPlannerRows\<close>: executing the plan of a query
    yields rows as wide as its labels; \<open>SqlMeaning\<close>: the plan of a query, before it is optimized, computes its meaning by names.
  \<^item> \<open>SqlPredicates\<close>, \<open>SqlPushdown\<close>, \<open>SqlLookup\<close>, \<open>SqlOptimized\<close>: what the optimizer preserves. Predicates that are defined on
    every row of the types of the columns; filter pushdown below inner joins and index lookups on a consistent database
    yield the same rows. Queries with outer joins and repeated keys whose answer the optimizer changes.
\<close>

text \<open>
  \<^bold>\<open>Bounds and fuel.\<close> Recursion through arbitrary closures has a bound, a depth that the callers of \<open>transform\<close> and
  \<open>transform_node\<close> compute from the expression (\<open>stack\<close>) or the plan (\<open>depth\<close>). The normal forms and every pass of
  the optimizer stay within theirs (\<open>into_nnf_total\<close>, \<open>into_cnf_total\<close>, \<open>passes_bounded\<close>, \<open>index_lookup_bounded\<close>). The
  loops of the parser that consume a token per round get the length of the input, and expressions
  \<open>expression_fuel\<close>, three times the length and three more: \<open>SqlParserTotal\<close> shows that no parse exhausts them, and
  \<open>SqlRoundTrip\<close> that a larger bound changes nothing. A join iterator is called once per pair of rows, once per left
  row and once more, which reaches its end. Running out of a bound is a panic of the model, so a claim that
  nothing panics covers it.

  \<^bold>\<open>Parameters.\<close> Code outside the repository is an argument: the Bincode encodings of stored values (\<open>codec\<close>,
  \<open>sql_codec\<close>, with the hypothesis that decoding inverts encoding), \<open>powf\<close>, \<open>powi\<close> and the regular expressions of
  \<open>LIKE\<close> (\<open>value_ops\<close>), the random number generator and the state machine of Raft, and BitCask's floating-point
  test of the garbage fraction.

  \<^bold>\<open>Not modelled.\<close> Sessions and the Raft SQL engine (\<^verbatim>\<open>session.rs\<close>, \<^verbatim>\<open>engine/raft.rs\<close>), which forward to the parts
  above; the server, the client and the command line tools (sockets, threads and the terminal); formatting for
  display; file locks, fsync and operating system errors; a poisoned mutex; the assertions of debug builds. The lexer's
  input is ASCII, as the Unicode tables are not in the repository. Election safety, quorums and the log are
  proved of Raft; that the state machines of all nodes agree is not.
\<close>

end
